(* ===== verification/Prelude.thy ===== *)
theory Prelude
  imports Main "HOL-Library.Multiset" "HOL-Library.Word"
begin

text \<open>
  What every theory of the development shares: the C++ standard exceptions as values, 64-bit
  unsigned arithmetic on \<open>nat\<close> with the wrap-around written out, and the byte-list
  operation every copy of the code comes down to (\<open>blit\<close>: overwrite a range in place).
  Nothing here models a line of the program by itself.
\<close>

section \<open>Exceptions and results\<close>

text \<open>
  A \<open>throw\<close> of the source is the value \<open>Inl\<close> of the thrown standard exception with its
  message (the constant part of it).
\<close>

datatype exn =
    InvalidArgument string
  | OutOfRange string
  | LengthError string
  | LogicError string
  | RuntimeError string

type_synonym 'a result = "exn + 'a"

section \<open>Collections of facts\<close>

named_theorems wrap_simps \<open>64-bit arithmetic inside its range\<close>
named_theorems blit_simps \<open>reading what a blit wrote\<close>

section \<open>64-bit unsigned arithmetic\<close>

text \<open>
  Clock points, content epochs, journal sequences and counters are 64-bit words: the source
  compares them and steps them by one. Sizes and offsets, which are multiplied and divided, are
  \<open>nat\<close> with the wrap-around written out (\<open>u64\<close>).
\<close>

type_synonym u64 = "64 word"
type_synonym u32 = "32 word"

lemma word_le_max [simp]: "(w :: u64) \<le> - 1"
  by simp

definition u64_max :: nat where
  "u64_max = 2 ^ 64 - 1"

definition u32_max :: nat where
  "u32_max = 2 ^ 32 - 1"

text \<open>The value a 64-bit unsigned register holds for a mathematical result.\<close>

definition u64 :: "nat \<Rightarrow> nat" where
  "u64 n = n mod 2 ^ 64"

text \<open>\<open>fetch_sub\<close> of a 64-bit counter.\<close>

definition sub64 :: "nat \<Rightarrow> nat \<Rightarrow> nat" where
  "sub64 a b = (a + (2 ^ 64 - b mod 2 ^ 64)) mod 2 ^ 64"

lemma u64_id [wrap_simps]: "n \<le> u64_max \<Longrightarrow> u64 n = n"
  by (simp add: u64_def u64_max_def)

lemma u64_le [simp]: "u64 n \<le> u64_max"
proof -
  have "n mod 2 ^ 64 < (2::nat) ^ 64" by simp
  then show ?thesis unfolding u64_def u64_max_def by linarith
qed

lemma u64_u64 [simp]: "u64 (u64 n) = u64 n"
  by (simp add: u64_def)

lemma u64_0 [simp]: "u64 0 = 0"
  by (simp add: u64_def)

lemma u64_le_self: "u64 n \<le> n"
  by (simp add: u64_def)

lemma u64_add_u64: "u64 (u64 a + b) = u64 (a + b)"
  by (simp add: u64_def mod_add_left_eq)

lemma mod_sub_cancel:
  assumes "0 < (N::nat)"
  shows "((b + c) mod N + (N - b mod N)) mod N = c mod N"
proof -
  define q r where "q = b div N" and "r = b mod N"
  have b: "b = N * q + r" and r: "r < N" using assms by (simp_all add: q_def r_def)
  have "((b + c) mod N + (N - r)) mod N = (b + c + (N - r)) mod N"
    by (rule mod_add_left_eq)
  also have "b + c + (N - r) = c + N * Suc q" using r by (simp add: b)
  also have "(c + N * Suc q) mod N = c mod N" by (rule mod_mult_self2)
  finally show ?thesis by (simp add: r_def)
qed

lemma sub64_u64: "b \<le> a \<Longrightarrow> sub64 (u64 a) b = u64 (a - b)"
  using mod_sub_cancel [of "2 ^ 64" b "a - b"] by (simp add: sub64_def u64_def)

section \<open>Overwriting part of a list\<close>

text \<open>
  \<open>blit off bs m\<close> is the memory \<open>m\<close> after \<open>bs\<close> was copied over it at \<open>off\<close>
  (\<open>std::copy_n\<close>, an upload, a GPU copy). Meaningful when the range lies inside \<open>m\<close>.
\<close>

definition blit :: "nat \<Rightarrow> 'a list \<Rightarrow> 'a list \<Rightarrow> 'a list" where
  "blit off bs m = take off m @ bs @ drop (off + length bs) m"

lemma length_blit [blit_simps]: "off + length bs \<le> length m \<Longrightarrow> length (blit off bs m) = length m"
  by (simp add: blit_def)

lemma nth_blit [blit_simps]:
  assumes "off + length bs \<le> length m" and "i < length m"
  shows "blit off bs m ! i = (if off \<le> i \<and> i < off + length bs then bs ! (i - off) else m ! i)"
  using assms by (auto simp: blit_def nth_append min_def)

lemma blit_Nil [simp]: "blit off [] m = m"
  by (simp add: blit_def)

lemma blit_whole: "length bs = length m \<Longrightarrow> blit 0 bs m = bs"
  by (simp add: blit_def)

lemma blit_append:
  assumes "off + length xs + length ys \<le> length m"
  shows "blit (off + length xs) ys (blit off xs m) = blit off (xs @ ys) m"
  by (rule nth_equalityI) (use assms in \<open>auto simp: blit_simps nth_append\<close>)

text \<open>The part of a list a copy reads: \<open>n\<close> elements from \<open>off\<close>.\<close>

definition piece :: "nat \<Rightarrow> nat \<Rightarrow> 'a list \<Rightarrow> 'a list" where
  "piece off n xs = take n (drop off xs)"

lemma length_piece [simp]: "length (piece off n xs) = min n (length xs - off)"
  by (auto simp: piece_def min_def)

lemma nth_piece: "i < n \<Longrightarrow> off + i < length xs \<Longrightarrow> piece off n xs ! i = xs ! (off + i)"
  by (simp add: piece_def)

lemma piece_append_piece: "piece off n xs @ piece (off + n) k xs = piece off (n + k) xs"
  by (simp add: piece_def take_add add.commute [of off])

lemma piece_append_drop: "piece off n xs @ drop (off + n) xs = drop off xs"
  by (metis add.commute append_take_drop_id drop_drop piece_def)

section \<open>Lists\<close>

lemma sum_list_remove1:
  "x \<in> set xs \<Longrightarrow> sum_list (map f (remove1 x xs)) + f x = (sum_list (map f xs) :: nat)"
  by (induction xs) auto

lemma sum_list_map_le: "x \<in> set xs \<Longrightarrow> f x \<le> (sum_list (map f xs) :: nat)"
  by (induction xs) auto

lemma length_filter_remove1:
  "x \<in> set xs \<Longrightarrow> length (filter P (remove1 x xs)) + (if P x then 1 else 0) = length (filter P xs)"
  by (induction xs) auto

lemma sum_list_map_update:
  fixes f :: "'a \<Rightarrow> 'b::comm_monoid_add"
  shows "i < length xs \<Longrightarrow>
    sum_list (map f (xs[i := y])) + f (xs ! i) = sum_list (map f xs) + f y"
proof (induction xs arbitrary: i)
  case (Cons x xs)
  then show ?case by (cases i) (auto simp: ac_simps)
qed simp

lemma sum_list_map_zero: "(\<And>x. x \<in> set xs \<Longrightarrow> f x = (0::'b::comm_monoid_add)) \<Longrightarrow> sum_list (map f xs) = 0"
  by (induction xs) auto

lemma sum_list_replicate_empty [simp]: "sum_list (replicate n {#}) = {#}"
  by (induction n) auto

text \<open>Erasing one element of a list without repetitions (\<open>std::erase\<close>).\<close>

definition erase :: "'a \<Rightarrow> 'a list \<Rightarrow> 'a list" where
  "erase x xs = filter (\<lambda>y. y \<noteq> x) xs"

lemma set_erase [simp]: "set (erase x xs) = set xs - {x}"
  by (auto simp: erase_def)

lemma distinct_erase [simp]: "distinct xs \<Longrightarrow> distinct (erase x xs)"
  by (simp add: erase_def)

lemma erase_absent [simp]: "x \<notin> set xs \<Longrightarrow> erase x xs = xs"
  by (auto simp: erase_def filter_id_conv)

lemma erase_Cons: "erase x (y # ys) = (if y = x then erase x ys else y # erase x ys)"
  by (simp add: erase_def)

lemma length_erase: "distinct xs \<Longrightarrow> x \<in> set xs \<Longrightarrow> length xs = Suc (length (erase x xs))"
  by (induction xs) (auto simp: erase_Cons)

lemma sum_list_erase:
  "distinct xs \<Longrightarrow> x \<in> set xs \<Longrightarrow> sum_list (map f xs) = f x + (sum_list (map f (erase x xs)) :: nat)"
  by (induction xs) (auto simp: erase_Cons)

lemma length_filter_erase_le: "length (filter P (erase x xs)) \<le> length (filter P xs)"
  by (induction xs) (auto simp: erase_def)

section \<open>One entry of a list of threads\<close>

lemma filter_length_update:
  "i < length xs \<Longrightarrow> length (filter P (xs[i := y])) + (if P (xs ! i) then 1 else 0) =
     length (filter P xs) + (if P y then 1 else 0)"
proof (induction xs arbitrary: i)
  case (Cons x xs)
  then show ?case by (cases i) auto
qed simp

lemma set_update_in: "x \<in> set (xs[i := y]) \<Longrightarrow> x \<noteq> y \<Longrightarrow> x \<in> set xs"
  using set_update_subset_insert [of xs i y] by auto

lemma set_update_keep: "x \<in> set xs \<Longrightarrow> xs ! i \<noteq> x \<Longrightarrow> x \<in> set (xs[i := y])"
  by (metis in_set_conv_nth length_list_update nth_list_update_neq)

lemma set_update_new: "i < length xs \<Longrightarrow> y \<in> set (xs[i := y])"
  by (simp add: set_update_memI)

lemma sum_one_changed:
  fixes h g :: "nat \<Rightarrow> 'a::comm_monoid_add"
  assumes "f < n" "\<And>i. i < n \<Longrightarrow> i \<noteq> f \<Longrightarrow> g i = h i"
  shows "(\<Sum>i < n. g i) + h f = (\<Sum>i < n. h i) + g f"
proof -
  have "(\<Sum>i < n. g i) = g f + (\<Sum>i \<in> {..<n} - {f}. g i)" using assms(1) by (simp add: sum.remove)
  moreover have "(\<Sum>i < n. h i) = h f + (\<Sum>i \<in> {..<n} - {f}. h i)" using assms(1) by (simp add: sum.remove)
  moreover have "(\<Sum>i \<in> {..<n} - {f}. g i) = (\<Sum>i \<in> {..<n} - {f}. h i)" using assms(2) by (intro sum.cong) auto
  ultimately show ?thesis by (simp add: add_ac)
qed

end
