(* ===== verification/Growth.thy ===== *)
theory Growth
  imports Prelude
begin

text \<open>
  \<^verbatim>\<open>include/ORGModuleServices/GrowthPolicy.h\<close> and \<^verbatim>\<open>ElasticCapacity.h\<close>: the capacity
  a growable buffer is made at (\<open>next_capacity\<close>), when it gives memory back
  (\<open>observe\<close> over a \<open>shrink_window\<close>), and a capacity that follows its need both ways
  (\<open>fit_capacity\<close>). Capacities are 64-bit: every product and sum of the source that can
  leave 64 bits is written with \<open>u64\<close>. A time point is an \<open>int\<close> (clock ticks).
\<close>

section \<open>Growth policies\<close>

datatype growth_kind = Doubling | Headroom

record growth_policy =
  gp_kind :: growth_kind
  gp_percent :: nat
  gp_minimum :: nat

definition doubling :: "nat \<Rightarrow> growth_policy" where
  "doubling least = \<lparr>gp_kind = Doubling, gp_percent = 0, gp_minimum = least\<rparr>"

definition headroom :: "nat \<Rightarrow> nat \<Rightarrow> growth_policy" where
  "headroom pct least = \<lparr>gp_kind = Headroom, gp_percent = pct, gp_minimum = least\<rparr>"

text \<open>
  The doubling loop of \<open>Next\<close>. A capacity of 0 is made 1 before the loop; the loop never
  produces 0 again, so the replacement is written inside it.
\<close>

function double_until :: "nat \<Rightarrow> nat \<Rightarrow> nat result" where
  "double_until capacity needed =
     (let c = (if capacity = 0 then 1 else capacity) in
      if c < needed
      then if c > u64_max div 2 then Inl (LengthError ''GrowthPolicy: a capacity past 64 bits'')
           else double_until (u64 (c * 2)) needed
      else Inr c)"
  by pat_completeness auto
termination
proof (relation "measure (\<lambda>(c, n). n - max 1 c)")
  fix capacity needed c :: nat
  assume c: "c = (if capacity = 0 then 1 else capacity)" and lt: "c < needed"
    and fits: "\<not> c > u64_max div 2"
  have "u64 (c * 2) = c * 2" by (rule u64_id) (use fits in linarith)
  then show "((u64 (c * 2), needed), (capacity, needed)) \<in> measure (\<lambda>(c, n). n - max 1 c)"
    using c lt by (auto split: if_splits)
qed simp

declare double_until.simps [simp del]

definition next_capacity :: "growth_policy \<Rightarrow> nat \<Rightarrow> nat \<Rightarrow> nat result" where
  "next_capacity p current needed =
     (let capacity = (if current > gp_minimum p then current else gp_minimum p) in
      if capacity \<ge> needed then Inr capacity
      else case gp_kind p of
        Headroom \<Rightarrow>
          (let extra = u64 (u64 (needed div 100 * gp_percent p) + u64 (needed mod 100 * gp_percent p) div 100) in
           if extra > u64_max - needed
           then Inl (LengthError ''GrowthPolicy: a capacity past 64 bits'')
           else Inr (if u64 (needed + extra) > gp_minimum p then u64 (needed + extra) else gp_minimum p))
      | Doubling \<Rightarrow> double_until capacity needed)"

text \<open>\<open>NextAs<T>\<close>: the largest value of \<open>T\<close> is an argument.\<close>

definition next_as :: "nat \<Rightarrow> growth_policy \<Rightarrow> nat \<Rightarrow> nat \<Rightarrow> nat result" where
  "next_as t_max p current needed =
     (case next_capacity p current needed of
        Inl e \<Rightarrow> Inl e
      | Inr capacity \<Rightarrow>
          if capacity > t_max then Inl (LengthError ''GrowthPolicy: a capacity past its type'')
          else Inr capacity)"

subsection \<open>What the loop returns\<close>

lemma double_until_ge: "double_until c n = Inr r \<Longrightarrow> n \<le> r \<and> c \<le> r \<and> 0 < r"
proof (induction c n rule: double_until.induct)
  case (1 capacity needed)
  define c where "c = (if capacity = 0 then 1 else capacity)"
  note unfold = double_until.simps [of capacity needed]
  show ?case
  proof (cases "c < needed")
    case True
    show ?thesis
    proof (cases "c > u64_max div 2")
      case True
      with 1(2) \<open>c < needed\<close> show ?thesis by (simp add: unfold c_def [symmetric])
    next
      case False
      with 1(2) True have rec: "double_until (u64 (c * 2)) needed = Inr r"
        by (simp add: unfold c_def [symmetric])
      have ids: "u64 (c * 2) = c * 2" by (rule u64_id) (use False in linarith)
      from 1(1) [OF c_def True False rec] ids show ?thesis by (simp add: c_def split: if_splits)
    qed
  next
    case False
    with 1(2) have "r = c" by (simp add: unfold c_def [symmetric])
    with False show ?thesis by (simp add: c_def split: if_splits)
  qed
qed

lemma double_until_tight:
  "double_until c n = Inr r \<Longrightarrow> 0 < c \<Longrightarrow> \<exists>k. r = c * 2 ^ k \<and> (k = 0 \<or> r < 2 * n)"
proof (induction c n rule: double_until.induct)
  case (1 capacity needed)
  then have c: "(if capacity = 0 then 1 else capacity) = capacity" by simp
  show ?case
  proof (cases "capacity < needed")
    case False
    with 1(2) have "r = capacity" by (simp add: double_until.simps [of capacity needed] c)
    then show ?thesis by (intro exI [of _ 0]) simp
  next
    case True
    show ?thesis
    proof (cases "capacity > u64_max div 2")
      case True
      with 1(2) \<open>capacity < needed\<close> show ?thesis
        by (simp add: double_until.simps [of capacity needed] c)
    next
      case False
      with 1(2) True have rec: "double_until (u64 (capacity * 2)) needed = Inr r"
        by (simp add: double_until.simps [of capacity needed] c)
      have ids: "u64 (capacity * 2) = capacity * 2" by (rule u64_id) (use False in linarith)
      from 1(1) [OF c [symmetric] True False rec] ids 1(3)
      obtain k where k: "r = capacity * 2 * 2 ^ k" "k = 0 \<or> r < 2 * needed" by auto
      with True have "r < 2 * needed" by (cases "k = 0") auto
      with k(1) show ?thesis by (intro exI [of _ "Suc k"]) simp
    qed
  qed
qed

text \<open>The loop fails only where no doubling of the start fits 64 bits.\<close>

lemma double_until_returns:
  "n \<le> 2 ^ 63 \<Longrightarrow> \<exists>r. double_until c n = Inr r"
proof (induction c n rule: double_until.induct)
  case (1 capacity needed)
  define c where "c = (if capacity = 0 then 1 else capacity)"
  have half: "u64_max div 2 = 2 ^ 63 - 1" by (simp add: u64_max_def)
  show ?case
  proof (cases "c < needed")
    case True
    with 1(2) half have small: "\<not> c > u64_max div 2" by simp
    from 1(1) [OF c_def True small 1(2)] True small
    show ?thesis by (simp add: double_until.simps [of capacity needed] c_def [symmetric])
  next
    case False
    then show ?thesis by (simp add: double_until.simps [of capacity needed] c_def [symmetric])
  qed
qed

lemma next_capacity_ge:
  assumes "next_capacity p current needed = Inr r" and "needed \<le> u64_max"
  shows "needed \<le> r \<and> gp_minimum p \<le> r \<and> current \<le> r"
proof (cases "(if current > gp_minimum p then current else gp_minimum p) \<ge> needed")
  case True
  with assms show ?thesis by (auto simp: next_capacity_def Let_def split: if_splits)
next
  case False
  show ?thesis
  proof (cases "gp_kind p")
    case Doubling
    with assms False double_until_ge show ?thesis
      by (fastforce simp: next_capacity_def Let_def split: if_splits)
  next
    case Headroom
    define e where "e = u64 (u64 (needed div 100 * gp_percent p) + u64 (needed mod 100 * gp_percent p) div 100)"
    from assms False Headroom have fits: "e \<le> u64_max - needed"
      and r: "r = (if u64 (needed + e) > gp_minimum p then u64 (needed + e) else gp_minimum p)"
      by (auto simp: next_capacity_def Let_def e_def split: if_splits)
    from fits assms(2) have "u64 (needed + e) = needed + e" by (intro u64_id) linarith
    with r False show ?thesis by (auto split: if_splits)
  qed
qed


text \<open>The result of a headroom growth, where nothing wraps: the need and its share.\<close>

lemma headroom_extra:
  assumes "pct \<le> u32_max" and "n div 100 * pct + n mod 100 * pct div 100 \<le> u64_max"
  shows "u64 (u64 (n div 100 * pct) + u64 (n mod 100 * pct) div 100) = n * pct div 100"
proof -
  have "n mod 100 * pct \<le> 100 * u32_max" using assms(1) by (intro mult_le_mono) simp_all
  also have "\<dots> \<le> u64_max" by (simp add: u32_max_def u64_max_def)
  finally have low: "u64 (n mod 100 * pct) = n mod 100 * pct" by (rule u64_id)
  have high: "u64 (n div 100 * pct) = n div 100 * pct" by (rule u64_id) (use assms(2) in linarith)
  have "n * pct = 100 * (n div 100 * pct) + n mod 100 * pct"
    by (metis add_mult_distrib mult.assoc mult_div_mod_eq)
  then have "n * pct div 100 = n div 100 * pct + n mod 100 * pct div 100" by simp
  with low high assms(2) show ?thesis by (simp add: u64_id)
qed

lemma next_capacity_holds:
  "needed \<le> current \<Longrightarrow> next_capacity p current needed = Inr (max current (gp_minimum p))"
  by (auto simp: next_capacity_def Let_def max_def)

lemma next_doubling_tight:
  assumes "next_capacity p current needed = Inr r" and "gp_kind p = Doubling" and "0 < needed"
  shows "r = current \<or> r = gp_minimum p \<or> r < 2 * needed"
proof (cases "(if current > gp_minimum p then current else gp_minimum p) \<ge> needed")
  case True
  with assms show ?thesis by (auto simp: next_capacity_def Let_def split: if_splits)
next
  case False
  define c where "c = (if current > gp_minimum p then current else gp_minimum p)"
  from assms False have d: "double_until c needed = Inr r"
    by (auto simp: next_capacity_def Let_def c_def split: if_splits)
  show ?thesis
  proof (cases "c = 0")
    case True
    then have "double_until 1 needed = Inr r" using d by (simp add: double_until.simps [of 0] double_until.simps [of "Suc 0"])
    from double_until_tight [OF this] assms(3) show ?thesis by auto
  next
    case False
    then have "0 < c" by simp
    from double_until_tight [OF d this] obtain k where "r = c * 2 ^ k" "k = 0 \<or> r < 2 * needed" by blast
    then show ?thesis by (auto simp: c_def)
  qed
qed

section \<open>Shrinking\<close>

record shrink_policy =
  sp_usedPercent :: nat
  sp_settle :: int
  sp_observations :: nat

definition never :: shrink_policy where
  "never = \<lparr>sp_usedPercent = 0, sp_settle = 0, sp_observations = 1\<rparr>"

definition when_below :: "nat \<Rightarrow> int \<Rightarrow> nat \<Rightarrow> shrink_policy" where
  "when_below pct settle observations =
     \<lparr>sp_usedPercent = pct, sp_settle = settle,
      sp_observations = (if observations \<noteq> 0 then observations else 1)\<rparr>"

definition shrinks :: "shrink_policy \<Rightarrow> bool" where
  "shrinks p \<longleftrightarrow> sp_usedPercent p \<noteq> 0"

record shrink_window =
  sw_peak :: nat
  sw_seen :: nat
  sw_since :: int

definition empty_window :: shrink_window where
  "empty_window = \<lparr>sw_peak = 0, sw_seen = 0, sw_since = 0\<rparr>"

definition reset_window :: "shrink_window \<Rightarrow> shrink_window" where
  "reset_window w = w\<lparr>sw_peak := 0, sw_seen := 0\<rparr>"

definition due :: "shrink_window \<Rightarrow> shrink_policy \<Rightarrow> int \<Rightarrow> bool" where
  "due w p now \<longleftrightarrow> shrinks p \<and> sw_seen w \<noteq> 0 \<and>
     (sw_seen w + 1) mod 2 ^ 32 \<ge> sp_observations p \<and> now - sw_since w \<ge> sp_settle p"

text \<open>The threshold of a low ask, \<open>need * 100 <= capacity * usedPercent\<close> without the product.\<close>

definition low_ask :: "shrink_policy \<Rightarrow> nat \<Rightarrow> nat \<Rightarrow> bool" where
  "low_ask p capacity need \<longleftrightarrow>
     need \<le> u64 (u64 (capacity div 100 * sp_usedPercent p) + u64 (capacity mod 100 * sp_usedPercent p) div 100)"

text \<open>
  \<open>Observe\<close>: the window after the ask, and the smaller capacity to make (or the exception
  the growth policy throws for the peak, after which the window is as it was left).
\<close>

definition observe ::
  "shrink_policy \<Rightarrow> growth_policy \<Rightarrow> nat \<Rightarrow> nat \<Rightarrow> int \<Rightarrow> shrink_window \<Rightarrow>
   shrink_window \<times> nat option result" where
  "observe p growth capacity need now w =
     (if \<not> shrinks p \<or> capacity = 0 then (w, Inr None)
      else if \<not> low_ask p capacity need then (reset_window w, Inr None)
      else
        let w = (if sw_seen w = 0 then w\<lparr>sw_since := now, sw_peak := need\<rparr>
                 else if need > sw_peak w then w\<lparr>sw_peak := need\<rparr> else w);
            w = (if sw_seen w < u32_max then w\<lparr>sw_seen := sw_seen w + 1\<rparr> else w)
        in if sw_seen w < sp_observations p \<or> now - sw_since w < sp_settle p then (w, Inr None)
           else (case (if sw_peak w \<noteq> 0 then next_capacity growth 0 (sw_peak w) else Inr 0) of
                   Inl e \<Rightarrow> (w, Inl e)
                 | Inr target \<Rightarrow>
                     (reset_window w, Inr (if target \<ge> capacity then None else Some target))))"

text \<open>\<open>FitCapacity\<close>: the capacity, the window and whether the capacity moved.\<close>

definition fit_capacity ::
  "nat \<Rightarrow> nat \<Rightarrow> shrink_window \<Rightarrow> nat \<Rightarrow> growth_policy \<Rightarrow> shrink_policy \<Rightarrow> int \<Rightarrow>
   (nat \<times> shrink_window) \<times> bool result" where
  "fit_capacity t_max capacity w need growth shrink now =
     (if need > capacity then
        (case next_as t_max growth capacity need of
           Inl e \<Rightarrow> ((capacity, w), Inl e)
         | Inr c \<Rightarrow> ((c, reset_window w), Inr (c \<noteq> capacity)))
      else
        (case observe shrink growth capacity need now w of
           (w', Inl e) \<Rightarrow> ((capacity, w'), Inl e)
         | (w', Inr (Some target)) \<Rightarrow> ((target, w'), Inr True)
         | (w', Inr None) \<Rightarrow> ((capacity, w'), Inr False)))"

text \<open>\<open>ElasticCapacity\<close>: a capacity and its window, kept together; its run over a list of asks.\<close>

record elastic_capacity =
  ec_value :: nat
  ec_window :: shrink_window

definition fit :: "nat \<Rightarrow> elastic_capacity \<Rightarrow> nat \<Rightarrow> growth_policy \<Rightarrow> shrink_policy \<Rightarrow> int \<Rightarrow>
    elastic_capacity \<times> bool result" where
  "fit t_max e need growth shrink now =
     (case fit_capacity t_max (ec_value e) (ec_window e) need growth shrink now of
        ((c, w), r) \<Rightarrow> (\<lparr>ec_value = c, ec_window = w\<rparr>, r))"


section \<open>Lemmas on shrinking\<close>

text \<open>What an ask leaves in an open window.\<close>

definition opened :: "nat \<Rightarrow> int \<Rightarrow> shrink_window \<Rightarrow> shrink_window" where
  "opened need now w =
     (let w = (if sw_seen w = 0 then w\<lparr>sw_since := now, sw_peak := need\<rparr>
               else if need > sw_peak w then w\<lparr>sw_peak := need\<rparr> else w)
      in if sw_seen w < u32_max then w\<lparr>sw_seen := sw_seen w + 1\<rparr> else w)"

lemma opened_peak: "need \<le> sw_peak (opened need now w)"
  by (simp add: opened_def Let_def)

lemma observe_unfold:
  "observe p growth capacity need now w =
     (if \<not> shrinks p \<or> capacity = 0 then (w, Inr None)
      else if \<not> low_ask p capacity need then (reset_window w, Inr None)
      else let w = opened need now w in
           if sw_seen w < sp_observations p \<or> now - sw_since w < sp_settle p then (w, Inr None)
           else (case (if sw_peak w \<noteq> 0 then next_capacity growth 0 (sw_peak w) else Inr 0) of
                   Inl e \<Rightarrow> (w, Inl e)
                 | Inr target \<Rightarrow>
                     (reset_window w, Inr (if target \<ge> capacity then None else Some target))))"
  by (simp add: observe_def opened_def Let_def)

lemma observe_SomeD:
  assumes "observe p growth capacity need now w = (w', Inr (Some target))"
  shows "target < capacity" and "w' = reset_window (opened need now w)"
    and "low_ask p capacity need"
    and "sp_observations p \<le> sw_seen (opened need now w)"
    and "sp_settle p \<le> now - sw_since (opened need now w)"
    and "if sw_peak (opened need now w) \<noteq> 0
         then next_capacity growth 0 (sw_peak (opened need now w)) = Inr target else target = 0"
  using assms
  by (auto simp: observe_unfold Let_def split: if_splits sum.splits)

lemma observe_target_holds:
  assumes "observe p growth capacity need now w = (w', Inr (Some target))"
    and "need \<le> u64_max" and "sw_peak w \<le> u64_max"
  shows "need \<le> target"
proof (cases "sw_peak (opened need now w) = 0")
  case True
  with opened_peak [of need now w] show ?thesis by simp
next
  case False
  have "sw_peak (opened need now w) \<le> u64_max" using assms(2,3) by (simp add: opened_def Let_def)
  with False observe_SomeD(6) [OF assms(1)] next_capacity_ge
  have "sw_peak (opened need now w) \<le> target" by metis
  with opened_peak [of need now w] show ?thesis by linarith
qed

lemma double_until_mono:
  "double_until c n = Inr r \<Longrightarrow> double_until c n' = Inr r' \<Longrightarrow> n \<le> n' \<Longrightarrow> r \<le> r'"
proof (induction c n rule: double_until.induct)
  case (1 capacity needed)
  define c where "c = (if capacity = 0 then 1 else capacity)"
  show ?case
  proof (cases "c < needed")
    case True
    with 1(2) have fits: "\<not> c > u64_max div 2"
      by (auto simp: double_until.simps [of capacity needed] c_def [symmetric])
    have "double_until (u64 (c * 2)) needed = Inr r" "double_until (u64 (c * 2)) n' = Inr r'"
      using 1(2-4) True fits
      by (simp_all add: double_until.simps [of capacity needed] double_until.simps [of capacity n']
          c_def [symmetric])
    with 1(1) [OF c_def True fits] 1(4) show ?thesis by blast
  next
    case False
    with 1(2) have "r = c" by (simp add: double_until.simps [of capacity needed] c_def [symmetric])
    with double_until_ge [OF 1(3)] show ?thesis by (auto simp: c_def)
  qed
qed

lemma next_doubling_mono:
  assumes "gp_kind p = Doubling" and "next_capacity p 0 n = Inr r" and "next_capacity p 0 n' = Inr r'"
    and "n \<le> n'"
  shows "r \<le> r'"
proof (cases "n \<le> gp_minimum p")
  case True
  then have "r = gp_minimum p" using assms(2) by (auto simp: next_capacity_def Let_def split: if_splits)
  moreover have "gp_minimum p \<le> r'" using assms(1,3) double_until_ge
    by (fastforce simp: next_capacity_def Let_def split: if_splits)
  ultimately show ?thesis by simp
next
  case False
  with assms(1-4) have "double_until (gp_minimum p) n = Inr r" "double_until (gp_minimum p) n' = Inr r'"
    by (auto simp: next_capacity_def Let_def split: if_splits)
  then show ?thesis using assms(4) by (rule double_until_mono)
qed

section \<open>The window as the list of its asks\<close>

text \<open>
  What the three fields of a window mean: the low asks in a row (need and time, oldest first)
  since the window was opened. The specification of \<open>Observe\<close> works on that list.
\<close>

definition window_of :: "(nat \<times> int) list \<Rightarrow> shrink_window \<Rightarrow> bool" where
  "window_of asks w \<longleftrightarrow>
     sw_seen w = min (length asks) u32_max \<and>
     (asks \<noteq> [] \<longrightarrow> sw_peak w = Max (fst ` set asks) \<and> sw_since w = snd (hd asks))"

definition observe_spec ::
  "shrink_policy \<Rightarrow> growth_policy \<Rightarrow> nat \<Rightarrow> nat \<Rightarrow> int \<Rightarrow> (nat \<times> int) list \<Rightarrow>
   (nat \<times> int) list \<times> nat option result" where
  "observe_spec p growth capacity need now asks =
     (if \<not> shrinks p \<or> capacity = 0 then (asks, Inr None)
      else if \<not> low_ask p capacity need then ([], Inr None)
      else
        let asks = asks @ [(need, now)]; peak = Max (fst ` set asks) in
        if length asks < sp_observations p \<or> now - snd (hd asks) < sp_settle p then (asks, Inr None)
        else (case (if peak \<noteq> 0 then next_capacity growth 0 peak else Inr 0) of
                Inl e \<Rightarrow> (asks, Inl e)
              | Inr target \<Rightarrow> ([], Inr (if target \<ge> capacity then None else Some target))))"

lemma window_of_opened:
  assumes "window_of asks w"
  shows "window_of (asks @ [(need, now)]) (opened need now w)"
proof (cases "asks = []")
  case True
  with assms show ?thesis by (simp add: window_of_def opened_def u32_max_def)
next
  case False
  define m where "m = Max (fst ` set asks)"
  have "0 < u32_max" by (simp add: u32_max_def)
  with False assms have "sw_seen w \<noteq> 0" by (simp add: window_of_def)
  moreover have "Max (fst ` set (asks @ [(need, now)])) = max m need"
    using False by (simp add: m_def max.commute)
  ultimately show ?thesis using False assms
    by (simp add: window_of_def opened_def Let_def hd_append m_def [symmetric] del: set_append)
qed

lemma window_of_reset: "window_of [] (reset_window w)"
  by (simp add: window_of_def reset_window_def)


section \<open>Properties\<close>

text \<open>
  A growth policy never hands out less than was asked: whenever \<open>Next\<close> returns,
  the capacity covers the need, the policy's minimum and the current capacity; it returns
  the current capacity (at least the minimum) unchanged while that holds the need, and a
  doubling made from scratch is less than twice the need.
\<close>

theorem growth_covers_need:
  assumes "next_capacity p current needed = Inr r" and "needed \<le> u64_max"
  shows "needed \<le> r \<and> gp_minimum p \<le> r \<and> current \<le> r \<and>
    (needed \<le> max current (gp_minimum p) \<longrightarrow> r = max current (gp_minimum p)) \<and>
    (gp_kind p = Doubling \<longrightarrow> max current (gp_minimum p) < needed \<longrightarrow> r < 2 * needed)"
proof (intro conjI impI)
  show "needed \<le> r" "gp_minimum p \<le> r" "current \<le> r"
    using next_capacity_ge [OF assms(1,2)] by simp_all
  show "r = max current (gp_minimum p)" if "needed \<le> max current (gp_minimum p)"
    using assms(1) that by (auto simp: next_capacity_def Let_def max_def split: if_splits)
  show "r < 2 * needed" if "gp_kind p = Doubling" "max current (gp_minimum p) < needed"
    using next_doubling_tight [OF assms(1) that(1)] that(2) by auto
qed

theorem growth_covers_need_witness:
  "next_capacity (doubling 4) 6 20 = Inr 24 \<and> (20::nat) \<le> 24 \<and> (24::nat) < 2 * 20"
proof -
  have r: "next_capacity (doubling 4) 6 20 = Inr 24"
    by (simp add: next_capacity_def doubling_def double_until.simps u64_def u64_max_def)
  from growth_covers_need [OF r] show ?thesis
    using r by (simp add: u64_max_def doubling_def)
qed

text \<open>
  A shrink window is exactly the run of low asks since it was opened: on a window
  that stands for a list of asks, \<open>Observe\<close> answers what the list-based specification
  answers (restart on an ask above the threshold; shrink, to the policy's fresh capacity for
  the largest ask, once the run is long and old enough) and leaves a window that stands for
  the specification's list.
\<close>

theorem observe_refines_asks:
  assumes "window_of asks w" and "sp_observations p \<le> u32_max"
    and "observe p growth capacity need now w = (w', r)"
  shows "\<exists>asks'. observe_spec p growth capacity need now asks = (asks', r) \<and> window_of asks' w'"
proof -
  define o_w where "o_w = opened need now w"
  have rel: "window_of (asks @ [(need, now)]) o_w"
    unfolding o_w_def by (rule window_of_opened [OF assms(1)])
  then have peak: "sw_peak o_w = Max (fst ` set (asks @ [(need, now)]))"
    and since: "sw_since o_w = snd (hd (asks @ [(need, now)]))"
    and seen: "sw_seen o_w = min (length (asks @ [(need, now)])) u32_max"
    by (auto simp: window_of_def)
  from seen assms(2) have few: "sw_seen o_w < sp_observations p \<longleftrightarrow> length (asks @ [(need, now)]) < sp_observations p"
    by (auto simp: min_def)
  show ?thesis
    using assms(1,3) rel window_of_reset
    by (auto simp: observe_unfold observe_spec_def Let_def o_w_def [symmetric] few
        peak [symmetric] since [symmetric] simp del: set_append split: if_splits sum.splits)
qed

theorem observe_refines_asks_witness:
  "\<exists>asks'. observe_spec (when_below 25 10 2) (doubling 1) 100 3 20 [(5, 0)] = (asks', Inr (Some 8)) \<and>
     window_of asks' (reset_window \<lparr>sw_peak = 5, sw_seen = 1, sw_since = 0\<rparr>)"
proof -
  have rel: "window_of [(5, 0)] \<lparr>sw_peak = 5, sw_seen = 1, sw_since = 0\<rparr>"
    by (simp add: window_of_def u32_max_def)
  have run: "observe (when_below 25 10 2) (doubling 1) 100 3 20 \<lparr>sw_peak = 5, sw_seen = 1, sw_since = 0\<rparr> =
      (reset_window \<lparr>sw_peak = 5, sw_seen = 1, sw_since = 0\<rparr>, Inr (Some 8))"
    by (simp add: observe_def when_below_def shrinks_def low_ask_def doubling_def next_capacity_def
        double_until.simps u64_def u64_max_def u32_max_def reset_window_def)
  show ?thesis
    by (rule observe_refines_asks [OF rel _ run]) (simp add: when_below_def u32_max_def)
qed

fun fit_all :: "nat \<Rightarrow> elastic_capacity \<Rightarrow> growth_policy \<Rightarrow> shrink_policy \<Rightarrow> (nat \<times> int) list \<Rightarrow>
    elastic_capacity result" where
  "fit_all t_max e growth shrink [] = Inr e"
| "fit_all t_max e growth shrink ((need, now) # asks) =
     (case fit t_max e need growth shrink now of
        (_, Inl x) \<Rightarrow> Inl x
      | (e', Inr _) \<Rightarrow> fit_all t_max e' growth shrink asks)"

lemma fit_step:
  assumes "fit t_max e need growth shrink now = (e', Inr moved)" and "need \<le> u64_max"
    and "ec_value e \<le> t_max" and "sw_peak (ec_window e) \<le> u64_max"
  shows "need \<le> ec_value e' \<and> ec_value e' \<le> t_max \<and> sw_peak (ec_window e') \<le> u64_max \<and>
    (moved \<longleftrightarrow> ec_value e' \<noteq> ec_value e)"
proof (cases "need > ec_value e")
  case True
  then obtain c where c: "next_as t_max growth (ec_value e) need = Inr c"
    and e': "e' = \<lparr>ec_value = c, ec_window = reset_window (ec_window e)\<rparr>" "moved = (c \<noteq> ec_value e)"
    using assms(1) by (auto simp: fit_def fit_capacity_def split: sum.splits)
  from c have "next_capacity growth (ec_value e) need = Inr c" "c \<le> t_max"
    by (auto simp: next_as_def split: sum.splits if_splits)
  with next_capacity_ge [OF this(1) assms(2)] e' show ?thesis
    by (auto simp: reset_window_def)
next
  case False
  obtain w' r where ob: "observe shrink growth (ec_value e) need now (ec_window e) = (w', r)"
    by (cases "observe shrink growth (ec_value e) need now (ec_window e)")
  have peak: "sw_peak w' \<le> u64_max"
    using ob assms(2,4)
    by (auto simp: observe_unfold Let_def opened_def reset_window_def split: if_splits sum.splits)
  show ?thesis
  proof (cases "r = Inr None")
    case True
    with ob assms(1,3) False peak show ?thesis by (auto simp: fit_def fit_capacity_def)
  next
    case some: False
    with ob assms(1) False obtain target where r: "r = Inr (Some target)"
      and e': "e' = \<lparr>ec_value = target, ec_window = w'\<rparr>" "moved = True"
      by (auto simp: fit_def fit_capacity_def split: sum.splits option.splits)
    from ob r have "observe shrink growth (ec_value e) need now (ec_window e) = (w', Inr (Some target))" by simp
    from observe_target_holds [OF this assms(2,4)] observe_SomeD(1) [OF this] e' peak assms(3)
    show ?thesis by auto
  qed
qed

text \<open>
  An elastic capacity always holds what was last asked of it: after any list of
  asks that all returned, the capacity is at least the last need, and it never exceeds its
  type's largest value when it started inside it. (A shrink never cuts below the need.)
\<close>

theorem fit_all_holds_need:
  assumes "fit_all t_max e growth shrink (asks @ [(need, now)]) = Inr e'"
    and "\<forall>(n, t) \<in> set (asks @ [(need, now)]). n \<le> u64_max"
    and "ec_value e \<le> t_max" and "sw_peak (ec_window e) \<le> u64_max"
  shows "need \<le> ec_value e' \<and> ec_value e' \<le> t_max"
  using assms
proof (induction asks arbitrary: e)
  case Nil
  then show ?case by (auto split: prod.splits sum.splits dest!: fit_step)
next
  case (Cons ask asks)
  obtain n t where ask: "ask = (n, t)" by (cases ask)
  from Cons.prems(1) obtain e1 moved where step: "fit t_max e n growth shrink t = (e1, Inr moved)"
    and rest: "fit_all t_max e1 growth shrink (asks @ [(need, now)]) = Inr e'"
    by (auto simp: ask split: prod.splits sum.splits)
  from Cons.prems(2) have "n \<le> u64_max" by (simp add: ask)
  from fit_step [OF step this Cons.prems(3,4)] Cons.IH [OF rest] Cons.prems(2) show ?case by simp
qed

theorem fit_all_holds_need_witness:
  "fit_all u32_max \<lparr>ec_value = 0, ec_window = empty_window\<rparr> (doubling 1) (when_below 25 0 1) ([(100, 0)] @ [(5, 1)]) =
     Inr \<lparr>ec_value = 8, ec_window = empty_window\<lparr>sw_since := 1\<rparr>\<rparr> \<and> (5::nat) \<le> 8"
proof -
  have run: "fit_all u32_max \<lparr>ec_value = 0, ec_window = empty_window\<rparr> (doubling 1) (when_below 25 0 1) ([(100, 0)] @ [(5, 1)]) =
     Inr \<lparr>ec_value = 8, ec_window = empty_window\<lparr>sw_since := 1\<rparr>\<rparr>"
    by (simp add: fit_def fit_capacity_def next_as_def observe_def when_below_def shrinks_def low_ask_def
        doubling_def next_capacity_def double_until.simps u64_def u64_max_def u32_max_def reset_window_def
        empty_window_def)
  have "(5::nat) \<le> ec_value \<lparr>ec_value = 8, ec_window = empty_window\<lparr>sw_since := 1\<rparr>\<rparr>"
    using fit_all_holds_need [OF run] by (simp add: u64_max_def empty_window_def)
  with run show ?thesis by simp
qed

text \<open>
  Claim C13. Hysteresis: a capacity shrunk under a doubling policy does not shrink again while
  the asks keep reaching the peak it was shrunk for, whatever the window, the time and the
  shrink policy.
\<close>

theorem shrink_hysteresis:
  assumes "gp_kind growth = Doubling"
    and "observe p growth capacity need now w = (w1, Inr (Some target))"
    and "sw_peak (opened need now w) \<le> need'"
  shows "observe p' growth target need' now' w' \<noteq> (w2, Inr (Some target'))"
proof
  assume again: "observe p' growth target need' now' w' = (w2, Inr (Some target'))"
  define q q' where "q = sw_peak (opened need now w)" and "q' = sw_peak (opened need' now' w')"
  have le: "q \<le> q'" using assms(3) opened_peak [of need' now' w'] by (simp add: q_def q'_def)
  have lt: "target' < target" by (rule observe_SomeD(1) [OF again])
  show False
  proof (cases "q = 0")
    case True
    with observe_SomeD(6) [OF assms(2)] lt show False by (simp add: q_def)
  next
    case False
    with le have "q' \<noteq> 0" by simp
    with observe_SomeD(6) [OF assms(2)] observe_SomeD(6) [OF again] False
    have "next_capacity growth 0 q = Inr target" "next_capacity growth 0 q' = Inr target'"
      by (simp_all add: q_def q'_def)
    from next_doubling_mono [OF assms(1) this le] lt show False by simp
  qed
qed

theorem shrink_hysteresis_witness:
  "observe (when_below 25 0 1) (doubling 1) 64 5 0 empty_window =
     (empty_window, Inr (Some 8)) \<and>
   (\<forall>t w'. observe (when_below 50 0 1) (doubling 1) 8 5 7 w' \<noteq> (empty_window, Inr (Some t)))"
proof -
  have run: "observe (when_below 25 0 1) (doubling 1) 64 5 0 empty_window = (empty_window, Inr (Some 8))"
    by (simp add: observe_def when_below_def shrinks_def low_ask_def doubling_def next_capacity_def
        double_until.simps u64_def u64_max_def u32_max_def reset_window_def empty_window_def)
  show ?thesis
    using run shrink_hysteresis [OF _ run, of 5 "when_below 50 0 1" 7]
    by (simp add: opened_def empty_window_def doubling_def u32_max_def)
qed

text \<open>
  The headroom share is computed without a check of its own: where nothing wraps it
  is the policy's percentage of the need, but with a percentage above 100 the product can
  leave 64 bits, and then \<open>Next\<close> returns a capacity that is short of the asked headroom
  instead of throwing. (Stated exactly for shares that fit, and at a need of \<open>2 ^ 61\<close> with
  1000 percent.)
\<close>

theorem headroom_share:
  "(needed \<le> u64_max \<and> pct \<le> u32_max \<and> max current least < needed \<and>
      needed div 100 * pct + needed mod 100 * pct div 100 \<le> u64_max \<longrightarrow>
    next_capacity (headroom pct least) current needed =
      (if needed + needed * pct div 100 > u64_max
       then Inl (LengthError ''GrowthPolicy: a capacity past 64 bits'')
       else Inr (max (needed + needed * pct div 100) least))) \<and>
   next_capacity (headroom 1000 1) 0 (2 ^ 61) = Inr 6917529027641081856"
proof (intro conjI impI)
  assume a: "needed \<le> u64_max \<and> pct \<le> u32_max \<and> max current least < needed \<and>
      needed div 100 * pct + needed mod 100 * pct div 100 \<le> u64_max"
  then have extra: "u64 (u64 (needed div 100 * pct) + u64 (needed mod 100 * pct) div 100) = needed * pct div 100"
    by (intro headroom_extra) simp_all
  define x where "x = needed * pct div 100"
  from a have "\<not> needed \<le> current" "\<not> needed \<le> least" by simp_all
  then have "next_capacity (headroom pct least) current needed =
      (if x > u64_max - needed then Inl (LengthError ''GrowthPolicy: a capacity past 64 bits'')
       else Inr (if u64 (needed + x) > least then u64 (needed + x) else least))"
    by (simp add: next_capacity_def headroom_def extra x_def)
  moreover have "u64 (needed + x) = needed + x" if "\<not> x > u64_max - needed"
    by (rule u64_id) (use that a in linarith)
  moreover have "x > u64_max - needed \<longleftrightarrow> needed + x > u64_max" using a by linarith
  ultimately show "next_capacity (headroom pct least) current needed =
      (if needed + needed * pct div 100 > u64_max
       then Inl (LengthError ''GrowthPolicy: a capacity past 64 bits'')
       else Inr (max (needed + needed * pct div 100) least))"
    by (simp add: x_def [symmetric] max_def)
next
  show "next_capacity (headroom 1000 1) 0 (2 ^ 61) = Inr 6917529027641081856"
    by (simp add: next_capacity_def headroom_def u64_def u64_max_def)
qed

theorem headroom_share_witness:
  "next_capacity (headroom 50 1) 10 100 = Inr 150"
  using headroom_share [of 100 50 10 1] by (simp add: u64_max_def u32_max_def)

end
