(* ===== verification/Clock.thy ===== *)
theory Clock
  imports Prelude
begin

text \<open>
  \<^verbatim>\<open>RetirementClock\<close> of \<^verbatim>\<open>BackingPool.h\<close> / \<^verbatim>\<open>src/BackingPool.cpp\<close>: the monotonic completed
  point and the Treiber stack of one-shot waiters. Two models: the operations as functions on
  the clock's state (\<open>advance\<close>, \<open>subscribe\<close>, what the pool uses), and the atomic
  instructions of any number of threads as a step relation (\<open>clock_step\<close>), which is where
  the lost-wake argument of the source lives. A wake is recorded as the waiter and the point
  it was called with; a callback that calls the clock again is one more thread of the relation.
\<close>

section \<open>State and operations\<close>

type_synonym 'w waiter = "u64 \<times> 'w"

record 'w clock =
  ck_completed :: u64
  ck_waiters :: "'w waiter list"
  ck_waiting :: u64

definition new_clock :: "'w clock" where
  "new_clock = \<lparr>ck_completed = 0, ck_waiters = [], ck_waiting = 0\<rparr>"

definition reached :: "'w clock \<Rightarrow> u64 \<Rightarrow> bool" where
  "reached ck point \<longleftrightarrow> ck_completed ck \<ge> point"

text \<open>
  The loop of \<open>RunReached\<close> over the taken list: the waiters to run (in order), the kept ones
  (pushed to the front one by one), and the lowest kept point.
\<close>

fun scan_waiters :: "u64 \<Rightarrow> 'w waiter list \<Rightarrow> 'w waiter list \<Rightarrow> u64 \<Rightarrow>
    'w waiter list \<times> 'w waiter list \<times> u64" where
  "scan_waiters completed [] kept lowest = ([], kept, lowest)"
| "scan_waiters completed (w # ws) kept lowest =
     (if fst w \<le> completed
      then (case scan_waiters completed ws kept lowest of (run, r) \<Rightarrow> (w # run, r))
      else scan_waiters completed ws (w # kept) (if fst w < lowest then fst w else lowest))"

lemma scan_waiters_mset:
  "scan_waiters c ws kept0 low0 = (run, kept, low) \<Longrightarrow> mset ws + mset kept0 = mset run + mset kept"
  by (induction ws arbitrary: kept0 low0 run) (fastforce split: if_splits prod.splits)+

lemma scan_waiters_run:
  "scan_waiters c ws kept0 low0 = (run, kept, low) \<Longrightarrow> run = filter (\<lambda>w. fst w \<le> c) ws"
  by (induction ws arbitrary: kept0 low0 run) (auto split: if_splits prod.splits)

lemma scan_waiters_kept:
  "scan_waiters c ws kept0 low0 = (run, kept, low) \<Longrightarrow>
    kept = rev (filter (\<lambda>w. \<not> fst w \<le> c) ws) @ kept0"
  by (induction ws arbitrary: kept0 low0 run) (auto split: if_splits prod.splits)

lemma scan_waiters_low:
  "scan_waiters c ws kept0 low0 = (run, kept, low) \<Longrightarrow> \<forall>w \<in> set kept0. low0 \<le> fst w \<Longrightarrow>
    (\<forall>w \<in> set kept. low \<le> fst w) \<and> (c < low0 \<longrightarrow> c < low)"
proof (induction ws arbitrary: kept0 low0 run)
  case (Cons w ws)
  show ?case
  proof (cases "fst w \<le> c")
    case True
    with Cons.prems(1) obtain run' where "scan_waiters c ws kept0 low0 = (run', kept, low)"
      by (auto split: prod.splits)
    from Cons.IH [OF this Cons.prems(2)] show ?thesis .
  next
    case False
    define l where "l = (if fst w < low0 then fst w else low0)"
    from False Cons.prems(1) have eq: "scan_waiters c ws (w # kept0) l = (run, kept, low)"
      by (simp add: l_def)
    have "\<forall>v \<in> set (w # kept0). l \<le> fst v" using Cons.prems(2) by (auto simp: l_def)
    from Cons.IH [OF eq this] False show ?thesis by (auto simp: l_def not_le split: if_splits)
  qed
qed auto

lemma scan_waiters_props:
  assumes "scan_waiters c ws [] (- 1) = (run, kept, low)"
  shows "mset ws = mset run + mset kept"
    and "\<forall>w \<in> set run. fst w \<le> c" and "\<forall>w \<in> set kept. c < fst w"
    and "\<forall>w \<in> set kept. low \<le> fst w" and "kept \<noteq> [] \<Longrightarrow> c < low"
proof -
  show "mset ws = mset run + mset kept" using scan_waiters_mset [OF assms] by simp
  show "\<forall>w \<in> set run. fst w \<le> c" using scan_waiters_run [OF assms] by simp
  show kept: "\<forall>w \<in> set kept. c < fst w" using scan_waiters_kept [OF assms] by auto
  show "\<forall>w \<in> set kept. low \<le> fst w" using scan_waiters_low [OF assms] by simp
  assume "kept \<noteq> []"
  then obtain w where "w \<in> set kept" by (cases kept) auto
  with kept have "c < fst w" by blast
  also have "fst w \<le> - 1" by simp
  finally show "c < low" using scan_waiters_low [OF assms] by simp
qed

text \<open>
  \<open>RunReached\<close>, run by one thread alone: take the stack, run what is reached, push the kept
  ones back, and look again only if the completed point passed a kept one meanwhile (which no
  other thread does here, so the loop ends after one pass). The second component is the
  wakes: each waiter run, with the completed point it was given.
\<close>

function run_reached :: "'w clock \<Rightarrow> 'w clock \<times> ('w waiter \<times> u64) list" where
  "run_reached ck =
     (if ck_waiters ck = [] then (ck, [])
      else
        (case scan_waiters (ck_completed ck) (ck_waiters ck) [] (- 1) of
           (run, kept, lowest) \<Rightarrow>
             (let ck1 = ck\<lparr>ck_waiters := kept, ck_waiting := ck_waiting ck - of_nat (length run)\<rparr>;
                  wakes = map (\<lambda>w. (w, ck_completed ck)) run in
              if kept = [] \<or> lowest > ck_completed ck1 then (ck1, wakes)
              else (case run_reached ck1 of (ck2, wakes2) \<Rightarrow> (ck2, wakes @ wakes2)))))"
  by pat_completeness auto
termination
  by (relation "measure (\<lambda>_. 0)") (auto dest!: sym [of _ "scan_waiters _ _ _ _"] dest: scan_waiters_props(5))

declare run_reached.simps [simp del]

lemma run_reached_eq:
  "run_reached ck =
     (ck\<lparr>ck_waiters := rev (filter (\<lambda>w. \<not> fst w \<le> ck_completed ck) (ck_waiters ck)),
         ck_waiting := ck_waiting ck - of_nat (length (filter (\<lambda>w. fst w \<le> ck_completed ck) (ck_waiters ck)))\<rparr>,
      map (\<lambda>w. (w, ck_completed ck)) (filter (\<lambda>w. fst w \<le> ck_completed ck) (ck_waiters ck)))"
proof (cases "ck_waiters ck = []")
  case True
  then show ?thesis by (simp add: run_reached.simps)
next
  case False
  obtain run kept low where eq: "scan_waiters (ck_completed ck) (ck_waiters ck) [] (- 1) = (run, kept, low)"
    by (metis prod.exhaust)
  have "kept = [] \<or> low > ck_completed ck" using scan_waiters_props(5) [OF eq] by blast
  then show ?thesis
    using False eq scan_waiters_run [OF eq] scan_waiters_kept [OF eq]
    by (subst run_reached.simps) simp
qed

definition advance :: "u64 \<Rightarrow> 'w clock \<Rightarrow> 'w clock \<times> ('w waiter \<times> u64) list" where
  "advance completed ck =
     run_reached (if ck_completed ck < completed then ck\<lparr>ck_completed := completed\<rparr> else ck)"

definition subscribe :: "u64 \<Rightarrow> 'w option \<Rightarrow> 'w clock \<Rightarrow> 'w clock \<times> ('w waiter \<times> u64) list" where
  "subscribe point wake ck =
     (case wake of
        None \<Rightarrow> (ck, [])
      | Some w \<Rightarrow>
          if reached ck point then (ck, [((point, w), ck_completed ck)])
          else
            let ck1 = ck\<lparr>ck_waiting := ck_waiting ck + 1, ck_waiters := (point, w) # ck_waiters ck\<rparr> in
            if reached ck1 point then run_reached ck1 else (ck1, []))"


section \<open>Any number of threads\<close>

text \<open>
  Where a thread stands between two atomic instructions of the clock's code: the loop that
  raises the point (\<open>Raising\<close>), the first test of \<open>Subscribe\<close> (\<open>Testing\<close>), its push
  (\<open>Pushing\<close>) and the test after it (\<open>Retesting\<close>), and \<open>RunReached\<close>: about to take the
  stack, holding a taken list, about to push the kept ones back, about to test the lowest kept.
\<close>

datatype 'w clock_pc =
    Resting
  | Raising u64
  | Testing "'w waiter"
  | Pushing "'w waiter"
  | Retesting u64
  | Taking
  | Scanning "'w waiter list"
  | Restoring "'w waiter list" u64
  | Checking u64

record 'w clock_sys =
  cs_clock :: "'w clock"
  cs_threads :: "'w clock_pc list"
  cs_woken :: "('w waiter \<times> u64) list"
  cs_subscribed :: "'w waiter multiset"

definition init_clock_sys :: "nat \<Rightarrow> 'w clock_sys" where
  "init_clock_sys n =
     \<lparr>cs_clock = new_clock, cs_threads = replicate n Resting, cs_woken = [], cs_subscribed = {#}\<rparr>"

text \<open>
  One instruction of thread \<open>i\<close>. A compare-exchange loop is one step (the exchange that
  succeeds); the counter \<open>m_waiting\<close> moves with the instruction next to it.
\<close>

inductive clock_step :: "'w clock_sys \<Rightarrow> 'w clock_sys \<Rightarrow> bool" where
  call_advance: "i < length (cs_threads s) \<Longrightarrow> cs_threads s ! i = Resting \<Longrightarrow>
    clock_step s (s\<lparr>cs_threads := (cs_threads s)[i := Raising c]\<rparr>)"
| call_subscribe: "i < length (cs_threads s) \<Longrightarrow> cs_threads s ! i = Resting \<Longrightarrow>
    clock_step s (s\<lparr>cs_threads := (cs_threads s)[i := Testing w],
      cs_subscribed := add_mset w (cs_subscribed s)\<rparr>)"
| raise_point: "i < length (cs_threads s) \<Longrightarrow> cs_threads s ! i = Raising c \<Longrightarrow>
    clock_step s (s\<lparr>cs_threads := (cs_threads s)[i := Taking],
      cs_clock := (cs_clock s)\<lparr>ck_completed := max (ck_completed (cs_clock s)) c\<rparr>\<rparr>)"
| test_reached: "i < length (cs_threads s) \<Longrightarrow> cs_threads s ! i = Testing w \<Longrightarrow>
    reached (cs_clock s) (fst w) \<Longrightarrow>
    clock_step s (s\<lparr>cs_threads := (cs_threads s)[i := Resting],
      cs_woken := (w, ck_completed (cs_clock s)) # cs_woken s\<rparr>)"
| test_ahead: "i < length (cs_threads s) \<Longrightarrow> cs_threads s ! i = Testing w \<Longrightarrow>
    \<not> reached (cs_clock s) (fst w) \<Longrightarrow>
    clock_step s (s\<lparr>cs_threads := (cs_threads s)[i := Pushing w]\<rparr>)"
| push: "i < length (cs_threads s) \<Longrightarrow> cs_threads s ! i = Pushing w \<Longrightarrow>
    clock_step s (s\<lparr>cs_threads := (cs_threads s)[i := Retesting (fst w)],
      cs_clock := (cs_clock s)\<lparr>ck_waiting := ck_waiting (cs_clock s) + 1,
        ck_waiters := w # ck_waiters (cs_clock s)\<rparr>\<rparr>)"
| retest_reached: "i < length (cs_threads s) \<Longrightarrow> cs_threads s ! i = Retesting p \<Longrightarrow>
    reached (cs_clock s) p \<Longrightarrow> clock_step s (s\<lparr>cs_threads := (cs_threads s)[i := Taking]\<rparr>)"
| retest_ahead: "i < length (cs_threads s) \<Longrightarrow> cs_threads s ! i = Retesting p \<Longrightarrow>
    \<not> reached (cs_clock s) p \<Longrightarrow> clock_step s (s\<lparr>cs_threads := (cs_threads s)[i := Resting]\<rparr>)"
| take_none: "i < length (cs_threads s) \<Longrightarrow> cs_threads s ! i = Taking \<Longrightarrow>
    ck_waiters (cs_clock s) = [] \<Longrightarrow> clock_step s (s\<lparr>cs_threads := (cs_threads s)[i := Resting]\<rparr>)"
| take_list: "i < length (cs_threads s) \<Longrightarrow> cs_threads s ! i = Taking \<Longrightarrow>
    ck_waiters (cs_clock s) = ws \<Longrightarrow> ws \<noteq> [] \<Longrightarrow>
    clock_step s (s\<lparr>cs_threads := (cs_threads s)[i := Scanning ws],
      cs_clock := (cs_clock s)\<lparr>ck_waiters := []\<rparr>\<rparr>)"
| scan: "i < length (cs_threads s) \<Longrightarrow> cs_threads s ! i = Scanning ws \<Longrightarrow>
    scan_waiters (ck_completed (cs_clock s)) ws [] (- 1) = (run, kept, low) \<Longrightarrow>
    clock_step s (s\<lparr>cs_threads := (cs_threads s)[i := if kept = [] then Resting else Restoring kept low],
      cs_clock := (cs_clock s)\<lparr>ck_waiting := ck_waiting (cs_clock s) - of_nat (length run)\<rparr>,
      cs_woken := map (\<lambda>w. (w, ck_completed (cs_clock s))) run @ cs_woken s\<rparr>)"
| restore: "i < length (cs_threads s) \<Longrightarrow> cs_threads s ! i = Restoring kept low \<Longrightarrow>
    clock_step s (s\<lparr>cs_threads := (cs_threads s)[i := Checking low],
      cs_clock := (cs_clock s)\<lparr>ck_waiters := kept @ ck_waiters (cs_clock s)\<rparr>\<rparr>)"
| check_ahead: "i < length (cs_threads s) \<Longrightarrow> cs_threads s ! i = Checking low \<Longrightarrow>
    low > ck_completed (cs_clock s) \<Longrightarrow> clock_step s (s\<lparr>cs_threads := (cs_threads s)[i := Resting]\<rparr>)"
| check_passed: "i < length (cs_threads s) \<Longrightarrow> cs_threads s ! i = Checking low \<Longrightarrow>
    \<not> low > ck_completed (cs_clock s) \<Longrightarrow> clock_step s (s\<lparr>cs_threads := (cs_threads s)[i := Taking]\<rparr>)"

inductive clock_reachable :: "'w clock_sys \<Rightarrow> bool" where
  clock_start: "clock_reachable (init_clock_sys n)"
| clock_next: "clock_reachable s \<Longrightarrow> clock_step s t \<Longrightarrow> clock_reachable t"

text \<open>The waiters a thread holds: subscribed, neither on the stack nor woken yet.\<close>

fun in_hand :: "'w clock_pc \<Rightarrow> 'w waiter multiset" where
  "in_hand (Testing w) = {#w#}"
| "in_hand (Pushing w) = {#w#}"
| "in_hand (Scanning ws) = mset ws"
| "in_hand (Restoring kept low) = mset kept"
| "in_hand _ = {#}"

text \<open>The threads that are bound to look at the stack again for a waiter at \<open>point\<close>.\<close>

fun will_look :: "'w clock_pc \<Rightarrow> u64 \<Rightarrow> bool" where
  "will_look Taking point = True"
| "will_look (Retesting p) point = (p \<le> point)"
| "will_look (Checking low) point = (low \<le> point)"
| "will_look _ point = False"

fun pc_ok :: "'w clock_pc \<Rightarrow> bool" where
  "pc_ok (Restoring kept low) = (\<forall>w \<in> set kept. low \<le> fst w)"
| "pc_ok _ = True"

definition conserved :: "'w clock_sys \<Rightarrow> bool" where
  "conserved s \<longleftrightarrow>
     cs_subscribed s = mset (map fst (cs_woken s)) + mset (ck_waiters (cs_clock s)) +
       sum_list (map in_hand (cs_threads s))"

definition never_early :: "'w clock_sys \<Rightarrow> bool" where
  "never_early s \<longleftrightarrow> (\<forall>(w, c) \<in> set (cs_woken s). fst w \<le> c \<and> c \<le> ck_completed (cs_clock s))"

definition looked_after :: "'w clock_sys \<Rightarrow> bool" where
  "looked_after s \<longleftrightarrow>
     (\<forall>pc \<in> set (cs_threads s). pc_ok pc) \<and>
     (\<forall>w \<in> set (ck_waiters (cs_clock s)). fst w \<le> ck_completed (cs_clock s) \<longrightarrow>
        (\<exists>j < length (cs_threads s). will_look (cs_threads s ! j) (fst w)))"

inductive_cases clock_stepE: "clock_step s t"


section \<open>The three invariants\<close>

lemma in_hand_move:
  "i < length ts \<Longrightarrow> ts ! i = pc \<Longrightarrow>
    sum_list (map in_hand (ts[i := pc'])) + in_hand pc = sum_list (map in_hand ts) + in_hand pc'"
  using sum_list_map_update [of i ts in_hand pc'] by simp

lemma conserved_move:
  assumes "conserved s" and "i < length (cs_threads s)" and "cs_threads s ! i = pc"
    and "cs_threads t = (cs_threads s)[i := pc']"
    and "cs_subscribed t + (mset (map fst (cs_woken s)) + mset (ck_waiters (cs_clock s)) + in_hand pc) =
      cs_subscribed s + (mset (map fst (cs_woken t)) + mset (ck_waiters (cs_clock t)) + in_hand pc')"
  shows "conserved t"
proof -
  define S T W V where "S = sum_list (map in_hand (cs_threads s))" and "T = sum_list (map in_hand (cs_threads t))"
    and "W = mset (map fst (cs_woken s)) + mset (ck_waiters (cs_clock s))"
    and "V = mset (map fst (cs_woken t)) + mset (ck_waiters (cs_clock t))"
  have move: "T + in_hand pc = S + in_hand pc'"
    using in_hand_move [OF assms(2,3)] assms(4) by (simp add: S_def T_def)
  have "cs_subscribed s = W + S" using assms(1) by (simp add: conserved_def W_def S_def)
  with assms(5) have "cs_subscribed t + (W + in_hand pc) = W + S + (V + in_hand pc')"
    by (simp add: W_def V_def)
  also have "\<dots> = (V + T) + (W + in_hand pc)" using move by (simp add: ac_simps)
  finally have "cs_subscribed t = V + T" by simp
  then show ?thesis by (simp add: conserved_def V_def T_def)
qed

lemma conserved_step: "clock_step s t \<Longrightarrow> conserved s \<Longrightarrow> conserved t"
proof (induction rule: clock_step.induct)
  case (scan i s ws run kept low)
  have "mset ws = mset run + mset kept" by (rule scan_waiters_props(1) [OF scan(3)])
  then show ?case
    by (intro conserved_move [OF scan(4,1,2)]) (auto simp: comp_def)
qed (rule conserved_move, assumption, assumption, assumption, simp, simp)+

lemma never_early_step: "clock_step s t \<Longrightarrow> never_early s \<Longrightarrow> never_early t"
proof (induction rule: clock_step.induct)
  case (scan i s ws run kept low)
  then show ?case using scan_waiters_props(2) [OF scan(3)] by (auto simp: never_early_def)
qed (auto simp: never_early_def reached_def max_def)

text \<open>Moving one thread keeps every other thread that will look.\<close>

lemma will_look_move:
  assumes "\<exists>j < length ts. will_look (ts ! j) p" and "ts ! i = pc"
    and "will_look pc p \<Longrightarrow> will_look pc' p"
  shows "\<exists>j < length (ts[i := pc']). will_look (ts[i := pc'] ! j) p"
proof -
  obtain j where j: "j < length ts" "will_look (ts ! j) p" using assms(1) by blast
  then have "will_look (ts[i := pc'] ! j) p"
    using assms(2,3) by (cases "i = j") (auto simp: nth_list_update)
  with j(1) show ?thesis by auto
qed

lemma looked_after_move:
  assumes "looked_after s" and "i < length (cs_threads s)" and "cs_threads s ! i = pc"
    and "cs_threads t = (cs_threads s)[i := pc']" and "pc_ok pc'"
    and "\<And>w. w \<in> set (ck_waiters (cs_clock t)) \<Longrightarrow> fst w \<le> ck_completed (cs_clock t) \<Longrightarrow>
       will_look pc' (fst w) \<or>
       (w \<in> set (ck_waiters (cs_clock s)) \<and> fst w \<le> ck_completed (cs_clock s) \<and> \<not> will_look pc (fst w))"
  shows "looked_after t"
  unfolding looked_after_def
proof (intro conjI ballI impI)
  fix pc'' assume "pc'' \<in> set (cs_threads t)"
  then have "pc'' = pc' \<or> pc'' \<in> set (cs_threads s)" using assms(4) set_update_subset_insert by fastforce
  with assms(1,5) show "pc_ok pc''" by (auto simp: looked_after_def)
next
  fix w assume w: "w \<in> set (ck_waiters (cs_clock t))" "fst w \<le> ck_completed (cs_clock t)"
  from assms(6) [OF w] show "\<exists>j < length (cs_threads t). will_look (cs_threads t ! j) (fst w)"
  proof
    assume "will_look pc' (fst w)"
    with assms(2,4) show ?thesis by (intro exI [of _ i]) simp
  next
    assume old: "w \<in> set (ck_waiters (cs_clock s)) \<and> fst w \<le> ck_completed (cs_clock s) \<and> \<not> will_look pc (fst w)"
    with assms(1) have "\<exists>j < length (cs_threads s). will_look (cs_threads s ! j) (fst w)"
      by (auto simp: looked_after_def)
    from will_look_move [OF this assms(3)] old assms(4) show ?thesis by auto
  qed
qed

lemma looked_after_step: "clock_step s t \<Longrightarrow> looked_after s \<Longrightarrow> looked_after t"
proof (induction rule: clock_step.induct)
  case (scan i s ws run kept low)
  have "pc_ok (if kept = [] then Resting else Restoring kept low)"
    using scan_waiters_props(4) [OF scan(3)] by simp
  then show ?case
    by (rule looked_after_move [OF scan(4,1,2), rotated 1]) (use scan(2) in auto)
next
  case (restore i s kept low)
  then have "pc_ok (Restoring kept low)" by (metis looked_after_def nth_mem)
  then show ?case by (intro looked_after_move [OF restore(3,1,2)]) auto
qed (rule looked_after_move, assumption, assumption, assumption, simp, simp,
    fastforce simp: reached_def not_le)+

lemma clock_reachable_rtranclp: "clock_step\<^sup>*\<^sup>* s t \<Longrightarrow> clock_reachable s \<Longrightarrow> clock_reachable t"
  by (induction rule: rtranclp_induct) (auto intro: clock_reachable.intros)

text \<open>Updates of different fields commute; these put them in the order of the fields.\<close>

lemma cs_order:
  "cs_clock_update f1 (cs_threads_update g1 s) = cs_threads_update g1 (cs_clock_update f1 s)"
  "cs_clock_update f2 (cs_woken_update g2 s) = cs_woken_update g2 (cs_clock_update f2 s)"
  "cs_clock_update f3 (cs_subscribed_update g3 s) = cs_subscribed_update g3 (cs_clock_update f3 s)"
  "cs_threads_update f4 (cs_woken_update g4 s) = cs_woken_update g4 (cs_threads_update f4 s)"
  "cs_threads_update f5 (cs_subscribed_update g5 s) = cs_subscribed_update g5 (cs_threads_update f5 s)"
  "cs_woken_update f6 (cs_subscribed_update g6 s) = cs_subscribed_update g6 (cs_woken_update f6 s)"
  by (cases s, simp)+

section \<open>A thread alone runs the operations\<close>

lemma run_reached_steps:
  assumes "i < length (cs_threads s)" and "run_reached (cs_clock s) = (ck', wakes)"
  shows "clock_step\<^sup>*\<^sup>* (s\<lparr>cs_threads := (cs_threads s)[i := Taking]\<rparr>)
    (s\<lparr>cs_clock := ck', cs_woken := wakes @ cs_woken s, cs_threads := (cs_threads s)[i := Resting]\<rparr>)"
proof (cases "ck_waiters (cs_clock s) = []")
  case True
  then have "ck' = cs_clock s" "wakes = []" using assms(2) by (simp_all add: run_reached.simps)
  moreover have "clock_step (s\<lparr>cs_threads := (cs_threads s)[i := Taking]\<rparr>)
      (s\<lparr>cs_threads := (cs_threads s)[i := Resting]\<rparr>)"
    using take_none [of i "s\<lparr>cs_threads := (cs_threads s)[i := Taking]\<rparr>"] assms(1) True by simp
  ultimately show ?thesis by (simp add: r_into_rtranclp)
next
  case False
  define ws c where "ws = ck_waiters (cs_clock s)" and "c = ck_completed (cs_clock s)"
  obtain run kept low where sc: "scan_waiters c ws [] (- 1) = (run, kept, low)" by (metis prod.exhaust)
  note run = scan_waiters_run [OF sc] and kept = scan_waiters_kept [OF sc]
  define ck2 where "ck2 = (cs_clock s)\<lparr>ck_waiters := [], ck_waiting := ck_waiting (cs_clock s) - of_nat (length run)\<rparr>"
  have ck': "ck' = ck2\<lparr>ck_waiters := kept\<rparr>" and wakes: "wakes = map (\<lambda>w. (w, c)) run"
    using assms(2) run kept by (cases "cs_clock s", simp_all add: run_reached_eq ck2_def ws_def c_def)+
  define s0 s1 where "s0 = s\<lparr>cs_threads := (cs_threads s)[i := Taking]\<rparr>"
    and "s1 = s\<lparr>cs_threads := (cs_threads s)[i := Scanning ws], cs_clock := (cs_clock s)\<lparr>ck_waiters := []\<rparr>\<rparr>"
  have 1: "clock_step s0 s1"
    using take_list [of i s0 ws] assms(1) False by (simp add: s0_def s1_def ws_def cs_order)
  have 2: "clock_step s1 (s\<lparr>cs_threads := (cs_threads s)[i := if kept = [] then Resting else Restoring kept low],
      cs_clock := ck2, cs_woken := wakes @ cs_woken s\<rparr>)"
    using scan [of i s1 ws run kept low] assms(1) sc by (simp add: s1_def c_def ck2_def wakes cs_order)
  show ?thesis
  proof (cases "kept = []")
    case True
    then have "ck' = ck2" by (simp add: ck' ck2_def)
    with 1 2 True show ?thesis
      by (simp add: s0_def cs_order)
  next
    case kept: False
    define s3 s4 where "s3 = s\<lparr>cs_threads := (cs_threads s)[i := Restoring kept low],
      cs_clock := ck2, cs_woken := wakes @ cs_woken s\<rparr>"
      and "s4 = s\<lparr>cs_threads := (cs_threads s)[i := Checking low],
      cs_clock := ck', cs_woken := wakes @ cs_woken s\<rparr>"
    have 3: "clock_step s3 s4"
      using restore [of i s3 kept low] assms(1) by (simp add: s3_def s4_def ck' ck2_def cs_order)
    have "c < low" by (rule scan_waiters_props(5) [OF sc kept])
    then have 4: "clock_step s4 (s\<lparr>cs_clock := ck', cs_woken := wakes @ cs_woken s, cs_threads := (cs_threads s)[i := Resting]\<rparr>)"
      using check_ahead [of i s4 low] assms(1) by (simp add: s4_def ck' ck2_def c_def cs_order)
    from 2 kept have "clock_step s1 s3" by (simp add: s3_def cs_order)
    with 1 3 4 show ?thesis
      by (simp add: s0_def s3_def cs_order)
  qed
qed

lemma advance_steps:
  assumes "i < length (cs_threads s)" and "cs_threads s ! i = Resting"
    and "advance c (cs_clock s) = (ck', wakes)"
  shows "clock_step\<^sup>*\<^sup>* s (s\<lparr>cs_clock := ck', cs_woken := wakes @ cs_woken s\<rparr>)"
proof -
  define s1 s2 where "s1 = s\<lparr>cs_threads := (cs_threads s)[i := Raising c]\<rparr>"
    and "s2 = s\<lparr>cs_clock := (cs_clock s)\<lparr>ck_completed := max (ck_completed (cs_clock s)) c\<rparr>\<rparr>"
  have rest: "(cs_threads s)[i := Resting] = cs_threads s" using assms(2) by (metis list_update_id)
  have "clock_step s s1" using call_advance [of i s c] assms(1,2) by (simp add: s1_def)
  moreover have "clock_step s1 (s2\<lparr>cs_threads := (cs_threads s2)[i := Taking]\<rparr>)"
    using raise_point [of i s1 c] assms(1) by (simp add: s1_def s2_def cs_order)
  moreover have "run_reached (cs_clock s2) = (ck', wakes)"
    using assms(3) by (auto simp: advance_def s2_def max_def not_less split: if_splits)
  then have "clock_step\<^sup>*\<^sup>* (s2\<lparr>cs_threads := (cs_threads s2)[i := Taking]\<rparr>)
      (s2\<lparr>cs_clock := ck', cs_woken := wakes @ cs_woken s2, cs_threads := (cs_threads s2)[i := Resting]\<rparr>)"
    by (intro run_reached_steps) (use assms(1) in \<open>simp add: s2_def\<close>)
  ultimately show ?thesis
    by (simp add: s2_def rest cs_order)
qed

lemma subscribe_steps:
  assumes "i < length (cs_threads s)" and "cs_threads s ! i = Resting"
    and "subscribe p (Some w) (cs_clock s) = (ck', wakes)"
  shows "clock_step\<^sup>*\<^sup>* s (s\<lparr>cs_clock := ck', cs_woken := wakes @ cs_woken s,
        cs_subscribed := add_mset (p, w) (cs_subscribed s)\<rparr>)"
proof -
  define s0 s1 where "s0 = s\<lparr>cs_subscribed := add_mset (p, w) (cs_subscribed s)\<rparr>"
    and "s1 = s0\<lparr>cs_threads := (cs_threads s)[i := Testing (p, w)]\<rparr>"
  have rest: "(cs_threads s)[i := Resting] = cs_threads s" using assms(2) by (metis list_update_id)
  have 1: "clock_step s s1" using call_subscribe [of i s "(p, w)"] assms(1,2) by (simp add: s0_def s1_def cs_order)
  show ?thesis
  proof (cases "reached (cs_clock s) p")
    case True
    with assms(3) have r: "ck' = cs_clock s" "wakes = [((p, w), ck_completed (cs_clock s))]"
      by (auto simp: subscribe_def)
    have "clock_step s1 (s0\<lparr>cs_woken := wakes @ cs_woken s\<rparr>)"
      using test_reached [of i s1 "(p, w)"] assms(1) True by (simp add: s1_def s0_def r rest cs_order)
    with 1 show ?thesis by (simp add: s0_def r cs_order converse_rtranclp_into_rtranclp)
  next
    case False
    define ck1 where "ck1 = (cs_clock s)\<lparr>ck_waiting := ck_waiting (cs_clock s) + 1,
      ck_waiters := (p, w) # ck_waiters (cs_clock s)\<rparr>"
    define s2 s3 where "s2 = s0\<lparr>cs_threads := (cs_threads s)[i := Pushing (p, w)]\<rparr>"
      and "s3 = s0\<lparr>cs_threads := (cs_threads s)[i := Retesting p], cs_clock := ck1\<rparr>"
    have not_reached: "\<not> reached ck1 p" using False by (simp add: reached_def ck1_def)
    with False assms(3) have r: "ck' = ck1" "wakes = []"
      by (simp_all add: subscribe_def ck1_def [symmetric])
    have 2: "clock_step s1 s2"
      using test_ahead [of i s1 "(p, w)"] assms(1) False by (simp add: s1_def s2_def s0_def cs_order)
    have 3: "clock_step s2 s3"
      using push [of i s2 "(p, w)"] assms(1) by (simp add: s2_def s3_def s0_def ck1_def cs_order)
    have 4: "clock_step s3 (s0\<lparr>cs_clock := ck1\<rparr>)"
      using retest_ahead [of i s3 p] assms(1) not_reached by (simp add: s3_def s0_def rest cs_order)
    from 1 2 3 4 show ?thesis
      by (simp add: s0_def r cs_order)
  qed
qed

text \<open>
  The clock's operations as functions are what one thread does when no other runs:
  from any state of any number of threads, a resting thread's \<open>Advance\<close> and \<open>Subscribe\<close> are
  sequences of atomic steps that end in the state and the wakes the functions compute, with
  the thread resting again.
\<close>

theorem clock_operations_are_runs:
  assumes "i < length (cs_threads s)" and "cs_threads s ! i = Resting"
  shows "(case advance c (cs_clock s) of (ck', wakes) \<Rightarrow>
      clock_step\<^sup>*\<^sup>* s (s\<lparr>cs_clock := ck', cs_woken := wakes @ cs_woken s\<rparr>)) \<and>
    (case subscribe p (Some w) (cs_clock s) of (ck', wakes) \<Rightarrow>
      clock_step\<^sup>*\<^sup>* s (s\<lparr>cs_clock := ck', cs_woken := wakes @ cs_woken s,
        cs_subscribed := add_mset (p, w) (cs_subscribed s)\<rparr>))"
  using advance_steps [OF assms] subscribe_steps [OF assms] by (auto split: prod.splits)

theorem clock_operations_are_runs_witness:
  "clock_step\<^sup>*\<^sup>* (init_clock_sys 1) ((init_clock_sys 1)\<lparr>cs_clock := (new_clock :: nat clock)\<lparr>ck_completed := 5\<rparr>\<rparr>)"
  using clock_operations_are_runs [of 0 "init_clock_sys 1 :: nat clock_sys" 5 0 0]
  by (simp add: init_clock_sys_def new_clock_def advance_def run_reached.simps)

text \<open>
  Claim C4. No wake is lost, none runs twice and none runs early, for any number of threads
  advancing and subscribing in any interleaving of their atomic instructions: whenever every
  thread is between operations, each subscribed waiter was either woken exactly once, with a
  completed point at or past its own, or is still on the stack, and then the clock has not
  reached its point.
\<close>

theorem clock_no_lost_wake:
  assumes "clock_reachable s" and "\<forall>pc \<in> set (cs_threads s). pc = Resting"
  shows "cs_subscribed s = mset (map fst (cs_woken s)) + mset (ck_waiters (cs_clock s)) \<and>
    (\<forall>w \<in> set (ck_waiters (cs_clock s)). ck_completed (cs_clock s) < fst w) \<and>
    (\<forall>(w, c) \<in> set (cs_woken s). fst w \<le> c \<and> c \<le> ck_completed (cs_clock s))"
proof -
  have inv: "conserved s \<and> never_early s \<and> looked_after s"
    using assms(1)
  proof induction
    case (clock_start n)
    show ?case
      by (auto simp: conserved_def never_early_def looked_after_def init_clock_sys_def new_clock_def)
  next
    case (clock_next s t)
    then show ?case using conserved_step never_early_step looked_after_step by blast
  qed
  have none: "sum_list (map in_hand (cs_threads s)) = {#}"
    by (rule sum_list_map_zero) (use assms(2) in auto)
  have "\<not> will_look (cs_threads s ! j) p" if "j < length (cs_threads s)" for j p
    using assms(2) that nth_mem by fastforce
  with inv none show ?thesis
    by (force simp: conserved_def never_early_def looked_after_def not_le)
qed


text \<open>The state after one thread subscribed at 3 and at 9 and advanced to 4.\<close>

definition clock_example :: "nat clock_sys" where
  "clock_example =
     \<lparr>cs_clock = \<lparr>ck_completed = 4, ck_waiters = [(9, 1)], ck_waiting = 1\<rparr>, cs_threads = [Resting],
      cs_woken = [((3, 0), 4)], cs_subscribed = {#(9, 1), (3, 0)#}\<rparr>"

lemma clock_example_reachable: "clock_reachable clock_example"
proof -
  define s0 :: "nat clock_sys" where "s0 = init_clock_sys 1"
  define s1 :: "nat clock_sys" where
    "s1 = s0\<lparr>cs_clock := \<lparr>ck_completed = 0, ck_waiters = [(3, 0)], ck_waiting = 1\<rparr>, cs_subscribed := {#(3, 0)#}\<rparr>"
  define s2 :: "nat clock_sys" where
    "s2 = s0\<lparr>cs_clock := \<lparr>ck_completed = 0, ck_waiters = [(9, 1), (3, 0)], ck_waiting = 2\<rparr>,
      cs_subscribed := {#(9, 1), (3, 0)#}\<rparr>"
  note defs = s0_def s1_def s2_def init_clock_sys_def new_clock_def
  have "clock_step\<^sup>*\<^sup>* s0 s1"
    using subscribe_steps [of 0 s0 3 0] by (simp add: defs subscribe_def reached_def)
  moreover have "clock_step\<^sup>*\<^sup>* s1 s2"
    using subscribe_steps [of 0 s1 9 1] by (simp add: defs subscribe_def reached_def)
  moreover have "clock_step\<^sup>*\<^sup>* s2 clock_example"
    using advance_steps [of 0 s2 4] by (simp add: defs clock_example_def advance_def run_reached_eq)
  ultimately have "clock_step\<^sup>*\<^sup>* s0 clock_example" by (meson rtranclp_trans)
  then show ?thesis
    by (rule clock_reachable_rtranclp) (simp add: s0_def clock_reachable.clock_start)
qed

theorem clock_no_lost_wake_witness:
  "cs_subscribed clock_example = {#(3, 0)#} + {#(9, 1)#} \<and> ck_completed (cs_clock clock_example) < 9"
  using clock_no_lost_wake [OF clock_example_reachable] by (simp add: clock_example_def)

end
