(* ===== verification/Image.thy ===== *)
theory Image
  imports Prelude
begin

text \<open>
  \<^verbatim>\<open>BufferImage\<close> (\<^verbatim>\<open>include/ORGModuleServices/BufferImage.h\<close>, \<^verbatim>\<open>src/BufferImage.cpp\<close>): an
  immutable CPU image of a buffer in 64 KB pages. A page reference may be null (\<open>None\<close>),
  as a shared pointer may. Shown: the pages of a byte string are its consecutive 64 KB pieces,
  and materializing them gives the bytes back; what materializing gives for pages of any kind.
\<close>

type_synonym byte = "8 word"

definition page_bytes :: nat where
  "page_bytes = 64 * 1024"

record buffer_image =
  im_byteSize :: nat
  im_pages :: "byte list option list"

text \<open>The page loop of \<open>FromBytes\<close> (also the journal's \<open>Initialize\<close> and \<open>ReplaceImage\<close>).\<close>

function split_pages :: "byte list \<Rightarrow> nat \<Rightarrow> byte list list" where
  "split_pages bytes offset =
     (if offset < length bytes
      then piece offset (min page_bytes (length bytes - offset)) bytes # split_pages bytes (offset + page_bytes)
      else [])"
  by pat_completeness auto
termination
  by (relation "measure (\<lambda>(bytes, offset). length bytes - offset)") (auto simp: page_bytes_def)

declare split_pages.simps [simp del]

definition from_bytes :: "byte list \<Rightarrow> buffer_image" where
  "from_bytes bytes = \<lparr>im_byteSize = length bytes, im_pages = map Some (split_pages bytes 0)\<rparr>"

definition from_pages :: "byte list option list \<Rightarrow> nat \<Rightarrow> buffer_image" where
  "from_pages pages byteSize = \<lparr>im_byteSize = byteSize, im_pages = pages\<rparr>"

fun copy_pages :: "byte list option list \<Rightarrow> nat \<Rightarrow> nat \<Rightarrow> byte list \<Rightarrow> byte list" where
  "copy_pages [] byteSize offset bytes = bytes"
| "copy_pages (None # pages) byteSize offset bytes = bytes"
| "copy_pages (Some page # pages) byteSize offset bytes =
     (if offset \<ge> byteSize then bytes
      else let size = min (length page) (byteSize - offset) in
           copy_pages pages byteSize (offset + size) (blit offset (take size page) bytes))"

definition materialize :: "buffer_image \<Rightarrow> byte list" where
  "materialize im = copy_pages (im_pages im) (im_byteSize im) 0 (replicate (im_byteSize im) 0)"

section \<open>Pages of a byte string\<close>

lemma concat_split_pages: "concat (split_pages bytes offset) = drop offset bytes"
proof (induction bytes offset rule: split_pages.induct)
  case (1 bytes offset)
  show ?case
  proof (cases "offset < length bytes")
    case True
    from 1 [OF this] True show ?thesis
      by (subst split_pages.simps)
        (auto simp: piece_def min_def drop_drop [symmetric] add.commute simp del: drop_drop)
  next
    case False
    then show ?thesis by (simp add: split_pages.simps)
  qed
qed

lemma copy_pages_concat:
  assumes "length bytes = byteSize" and "offset + length (concat pages) \<le> byteSize"
  shows "copy_pages (map Some pages) byteSize offset bytes = blit offset (concat pages) bytes"
  using assms
proof (induction pages arbitrary: offset bytes)
  case (Cons page pages)
  show ?case
  proof (cases "offset \<ge> byteSize")
    case True
    have "offset + (length page + length (concat pages)) \<le> byteSize" using Cons.prems(2) by simp
    with True have "length page = 0" "length (concat pages) = 0" by linarith+
    then have "page = []" "concat pages = []" by (simp_all only: length_0_conv)
    with True show ?thesis by (simp only: copy_pages.simps list.map concat.simps append_Nil blit_Nil if_True)
  next
    case False
    have size: "min (length page) (byteSize - offset) = length page" using Cons.prems(2) by simp
    have "copy_pages (map Some pages) byteSize (offset + length page) (blit offset page bytes) =
        blit (offset + length page) (concat pages) (blit offset page bytes)"
      by (rule Cons.IH) (use Cons.prems in \<open>simp_all add: blit_simps\<close>)
    also have "\<dots> = blit offset (page @ concat pages) bytes"
      by (rule blit_append) (use Cons.prems in simp)
    finally show ?thesis using False size by (simp add: Let_def)
  qed
qed simp

text \<open>An image whose pages hold exactly its bytes materializes to them.\<close>

lemma materialize_pages:
  "length (concat pages) = n \<Longrightarrow> materialize (from_pages (map Some pages) n) = concat pages"
  by (simp add: materialize_def from_pages_def copy_pages_concat blit_whole)

lemma length_copy_pages: "length bytes = byteSize \<Longrightarrow> length (copy_pages pages byteSize offset bytes) = byteSize"
  by (induction pages byteSize offset bytes rule: copy_pages.induct)
    (auto simp: Let_def blit_simps)

lemma length_materialize [simp]: "length (materialize im) = im_byteSize im"
  by (simp add: materialize_def length_copy_pages)


text \<open>The pages of \<open>FromBytes\<close>: the consecutive 64 KB pieces.\<close>

definition page_count :: "nat \<Rightarrow> nat" where
  "page_count n = (n + page_bytes - 1) div page_bytes"

lemma page_bytes_pos [simp]: "0 < page_bytes"
  by (simp add: page_bytes_def)

lemma page_count_0 [simp]: "page_count 0 = 0"
  by (simp add: page_count_def)

lemma page_count_Suc: "0 < n \<Longrightarrow> page_count n = Suc (page_count (n - page_bytes))"
proof (cases "page_bytes \<le> n")
  case True
  assume "0 < n"
  with True have "n + page_bytes - 1 = (n - page_bytes + page_bytes - 1) + page_bytes"
    using page_bytes_pos by linarith
  then have "page_count n = ((n - page_bytes + page_bytes - 1) + page_bytes) div page_bytes"
    unfolding page_count_def by (rule arg_cong)
  also have "\<dots> = Suc ((n - page_bytes + page_bytes - 1) div page_bytes)"
    using page_bytes_pos by (subst div_add_self2) simp_all
  finally show ?thesis by (simp add: page_count_def)
next
  case False
  assume "0 < n"
  have "(n + page_bytes - 1) div page_bytes = Suc 0"
    by (rule div_nat_eqI) (use False \<open>0 < n\<close> in simp_all)
  with False show ?thesis by (simp add: page_count_def)
qed

lemma split_pages_eq:
  "split_pages bytes offset =
    map (\<lambda>i. piece (offset + i * page_bytes) page_bytes bytes) [0..<page_count (length bytes - offset)]"
proof (induction bytes offset rule: split_pages.induct)
  case (1 bytes offset)
  show ?case
  proof (cases "offset < length bytes")
    case True
    then have "page_count (length bytes - offset) = Suc (page_count (length bytes - (offset + page_bytes)))"
      by (simp add: page_count_Suc diff_diff_eq)
    moreover have "piece offset (min page_bytes (length bytes - offset)) bytes = piece offset page_bytes bytes"
      by (simp add: piece_def min_def)
    ultimately show ?thesis
      using 1 [OF True] True
      by (simp add: split_pages.simps [of bytes offset] upt_conv_Cons map_Suc_upt [symmetric] add.assoc
          comp_def del: upt_Suc)
  next
    case False
    then show ?thesis by (simp add: split_pages.simps)
  qed
qed

lemma length_split_pages [simp]: "length (split_pages bytes offset) = page_count (length bytes - offset)"
  by (simp add: split_pages_eq)

lemma page_count_bound: "i < page_count n \<longleftrightarrow> i * page_bytes < n"
proof -
  have "i < page_count n \<longleftrightarrow> Suc i * page_bytes \<le> n + page_bytes - 1"
    unfolding page_count_def Suc_le_eq [symmetric]
    by (rule less_eq_div_iff_mult_less_eq) (rule page_bytes_pos)
  also have "\<dots> \<longleftrightarrow> i * page_bytes < n"
    using page_bytes_pos by (cases page_bytes) auto
  finally show ?thesis .
qed

text \<open>
  Claim C14. \<open>FromBytes\<close> and \<open>Materialize\<close> are inverse: an image of any bytes reports their
  size, materializes to exactly them, and holds them in consecutive pages of 64 KB, none of
  them empty, all but the last full.
\<close>

theorem image_roundtrip:
  "materialize (from_bytes bytes) = bytes \<and> im_byteSize (from_bytes bytes) = length bytes \<and>
   length (im_pages (from_bytes bytes)) = (length bytes + page_bytes - 1) div page_bytes \<and>
   (\<forall>i < length (im_pages (from_bytes bytes)).
      \<exists>page. im_pages (from_bytes bytes) ! i = Some page \<and> 0 < length page \<and>
        page = piece (i * page_bytes) page_bytes bytes)"
proof -
  have cat: "concat (split_pages bytes 0) = bytes" by (simp add: concat_split_pages)
  have "materialize (from_bytes bytes) = bytes"
    using materialize_pages [of "split_pages bytes 0" "length bytes"] cat
    by (simp add: from_bytes_def from_pages_def)
  moreover have "\<exists>page. map Some (split_pages bytes 0) ! i = Some page \<and> 0 < length page \<and>
      page = piece (i * page_bytes) page_bytes bytes" if "i < page_count (length bytes)" for i
    using that by (auto simp: split_pages_eq page_count_bound piece_def)
  moreover have "length (map Some (split_pages bytes 0)) = page_count (length bytes)" by simp
  ultimately show ?thesis
    unfolding page_count_def [symmetric] by (fastforce simp: from_bytes_def)
qed

theorem image_roundtrip_witness:
  "materialize (from_bytes [1, 2, 3]) = [1, 2, 3] \<and> im_pages (from_bytes [1, 2, 3]) = [Some [1, 2, 3]]"
proof -
  have len: "length (im_pages (from_bytes [1, 2, 3 :: byte])) = 1"
    using image_roundtrip [of "[1, 2, 3]"] by (simp add: page_bytes_def)
  then obtain page where "im_pages (from_bytes [1, 2, 3 :: byte]) = [Some page]" "page = piece 0 page_bytes [1, 2, 3]"
    using image_roundtrip [of "[1, 2, 3]"] by (auto simp: length_Suc_conv)
  then show ?thesis using image_roundtrip [of "[1, 2, 3]"] by (simp add: piece_def page_bytes_def)
qed

end
