(* ===== verification/Pool.thy ===== *)
theory Pool
  imports Clock Image "HOL-Library.Product_Lexorder"
begin

text \<open>
  \<^verbatim>\<open>BackingPool\<close> (\<^verbatim>\<open>include/ORGModuleServices/BackingPool.h\<close>, \<^verbatim>\<open>src/BackingPool.cpp\<close>): pooled
  GPU backings, leased, bound to clock points and reused once retired. A backing is an entry
  of a store (\<open>pl_heap\<close>) named by its address, as the shared pointers name it; the pool's
  lists hold addresses. The operations are whole functions on the pool's state (and the clock,
  where they subscribe): the acquirer's body (\<open>acquire\<close>), the release of a lease
  (\<open>lease_reset\<close>), the availability waiters, \<open>trim\<close>. The host's hooks are parameters: the
  allocation is a function argument, and what the other hooks are called with is recorded
  (\<open>pl_retired\<close>, \<open>hm_emitted\<close>). What other threads can do between two instructions of an
  acquire is the argument \<open>racing\<close>: the pins they take after the scan of the free list.
  Lease, pin and consumer counts are \<open>nat\<close> (they count live references).
\<close>

section \<open>Data\<close>

record backing_flags =
  bf_unorderedAccess :: bool
  bf_indirectArguments :: bool
  bf_deviceAddress :: bool

record backing_request =
  rq_capacityClass :: nat
  rq_stride :: nat
  rq_flags :: backing_flags
  rq_compatibility :: nat
  rq_name :: string
  rq_like :: "nat option"

definition byte_capacity :: "backing_request \<Rightarrow> nat" where
  "byte_capacity rq =
     (if rq_stride rq \<noteq> 0 then u64 (rq_capacityClass rq * rq_stride rq) else rq_capacityClass rq)"

record backing_allocation =
  al_buffer :: "nat option"
  al_address :: nat
  al_srvIndex :: nat

datatype pool_event =
    Allocated | Reused | Released | Exhausted | Suspended | Woken
  | LiveBackings | LiveBytes | FreeBackings

record backing =
  bk_buffer :: "nat option"
  bk_generation :: u64
  bk_capacityClass :: nat
  bk_byteCapacity :: nat
  bk_address :: nat
  bk_srvIndex :: nat
  bk_stride :: nat
  bk_flags :: backing_flags
  bk_compatibility :: nat
  bk_contentEpoch :: u64
  bk_sealedBytes :: nat
  bk_image :: "buffer_image option"
  bk_safeAt :: u64
  bk_leases :: nat
  bk_retired :: bool
  bk_readbackPins :: nat
  bk_bindingConsumers :: nat

definition no_flags :: backing_flags where
  "no_flags = \<lparr>bf_unorderedAccess = False, bf_indirectArguments = False, bf_deviceAddress = False\<rparr>"

text \<open>A default-constructed \<open>Backing\<close>.\<close>

definition blank_backing :: backing where
  "blank_backing =
     \<lparr>bk_buffer = None, bk_generation = 0, bk_capacityClass = 0, bk_byteCapacity = 0, bk_address = 0,
      bk_srvIndex = 0, bk_stride = 0, bk_flags = no_flags, bk_compatibility = 0, bk_contentEpoch = 0,
      bk_sealedBytes = 0, bk_image = None, bk_safeAt = 0, bk_leases = 0, bk_retired = False,
      bk_readbackPins = 0, bk_bindingConsumers = 0\<rparr>"

record pool_config =
  cf_name :: string
  cf_maxPerClass :: nat
  cf_framesInFlight :: nat
  cf_spareFree :: nat
  cf_reuseBound :: bool

definition any_epoch :: u64 where
  "any_epoch = - 1"

text \<open>
  The availability waiters: the callback (the host's, by number) and the identity it is called
  with. The clock's waiters are a pool's arming at a point, or a host's own.
\<close>

type_synonym availability = "nat \<times> u64"

datatype clock_wake = PoolArm nat | HostWake nat

text \<open>The lock-free side (\<open>BackingHome\<close>). \<open>hm_woken\<close> and \<open>hm_emitted\<close> record the calls out.\<close>

record home =
  hm_returned :: "nat list"
  hm_closed :: bool
  hm_waiters :: "availability list"
  hm_events :: u64
  hm_scanEvents :: u64
  hm_armedAt :: u64
  hm_live :: u64
  hm_free :: u64
  hm_bytes :: u64
  hm_allocated :: u64
  hm_reused :: u64
  hm_released :: u64
  hm_exhausted :: u64
  hm_woken :: "availability list"
  hm_emitted :: "(pool_event \<times> u64) list"

definition new_home :: home where
  "new_home =
     \<lparr>hm_returned = [], hm_closed = False, hm_waiters = [], hm_events = 0, hm_scanEvents = 0,
      hm_armedAt = 0, hm_live = 0, hm_free = 0, hm_bytes = 0, hm_allocated = 0, hm_reused = 0,
      hm_released = 0, hm_exhausted = 0, hm_woken = [], hm_emitted = []\<rparr>"

type_synonym pool_key = "nat \<times> backing_flags \<times> nat"

text \<open>
  The pool: its configuration and hooks (whether the host gave a \<open>retire\<close> hook), its home,
  the store of backings with the next address, and the acquirer's lists.
\<close>

record pool =
  pl_id :: nat
  pl_config :: pool_config
  pl_retireHook :: bool
  pl_home :: home
  pl_heap :: "nat \<Rightarrow> backing"
  pl_next :: nat
  pl_all :: "nat list"
  pl_free :: "nat list"
  pl_active :: "(pool_key \<times> nat) list"
  pl_nextGeneration :: u64
  pl_retired :: "nat list"

definition new_pool :: "nat \<Rightarrow> pool_config \<Rightarrow> bool \<Rightarrow> pool" where
  "new_pool ident config retire =
     \<lparr>pl_id = ident, pl_config = config, pl_retireHook = retire, pl_home = new_home,
      pl_heap = (\<lambda>_. blank_backing), pl_next = 0, pl_all = [], pl_free = [], pl_active = [],
      pl_nextGeneration = 1, pl_retired = []\<rparr>"

text \<open>\<open>Create\<close>: an allocation hook and a clock are required.\<close>

definition create_pool :: "bool \<Rightarrow> bool \<Rightarrow> nat \<Rightarrow> pool_config \<Rightarrow> bool \<Rightarrow> pool result" where
  "create_pool has_allocate has_clock ident config retire =
     (if \<not> has_allocate then Inl (InvalidArgument ''BackingPool: hooks.allocate is required'')
      else if \<not> has_clock then Inl (InvalidArgument ''BackingPool: a retirement clock is required'')
      else Inr (new_pool ident config retire))"

definition key_of_backing :: "backing \<Rightarrow> pool_key" where
  "key_of_backing b = (bk_stride b, bk_flags b, bk_compatibility b)"

definition key_of_request :: "backing_request \<Rightarrow> pool_key" where
  "key_of_request rq = (rq_stride rq, rq_flags rq, rq_compatibility rq)"

section \<open>The lock-free side\<close>

definition emit :: "pool_event \<Rightarrow> u64 \<Rightarrow> home \<Rightarrow> home" where
  "emit event value hm = hm\<lparr>hm_emitted := hm_emitted hm @ [(event, value)]\<rparr>"

text \<open>\<open>Event\<close>: every waiter subscribed so far runs once, the last subscribed first.\<close>

definition event :: "home \<Rightarrow> home" where
  "event hm =
     (let woken = hm_waiters hm;
          hm1 = hm\<lparr>hm_events := hm_events hm + 1, hm_waiters := [], hm_woken := hm_woken hm @ woken\<rparr>
      in if woken \<noteq> [] then emit Woken (of_nat (length woken)) hm1 else hm1)"

definition reusable :: "backing \<Rightarrow> u64 \<Rightarrow> bool" where
  "reusable b completed \<longleftrightarrow>
     bk_leases b = 0 \<and> completed \<ge> bk_safeAt b \<and> bk_readbackPins b = 0 \<and> bk_bindingConsumers b = 0"

text \<open>\<open>TryClaim\<close>: the retired mark, taken back when a binding consumer pinned meanwhile.\<close>

definition try_claim :: "backing \<Rightarrow> backing \<times> bool" where
  "try_claim b =
     (let b1 = b\<lparr>bk_retired := True\<rparr> in
      if bk_bindingConsumers b1 \<noteq> 0 then (b1\<lparr>bk_retired := False\<rparr>, False) else (b1, True))"

definition upd_backing :: "nat \<Rightarrow> (backing \<Rightarrow> backing) \<Rightarrow> pool \<Rightarrow> pool" where
  "upd_backing p f pl = pl\<lparr>pl_heap := (pl_heap pl)(p := f (pl_heap pl p))\<rparr>"

definition upd_home :: "(home \<Rightarrow> home) \<Rightarrow> pool \<Rightarrow> pool" where
  "upd_home f pl = pl\<lparr>pl_home := f (pl_home pl)\<rparr>"

text \<open>\<open>Pin\<close> and the end of its hold (the last consumer raises an event).\<close>

definition pin_binding_consumer :: "nat option \<Rightarrow> pool \<Rightarrow> pool \<times> nat result" where
  "pin_binding_consumer backing pl =
     (case backing of
        None \<Rightarrow> (pl, Inl (InvalidArgument ''BackingPool: no backing to pin''))
      | Some p \<Rightarrow>
          let pl1 = upd_backing p (\<lambda>b. b\<lparr>bk_bindingConsumers := bk_bindingConsumers b + 1\<rparr>) pl in
          if bk_retired (pl_heap pl1 p) then
            (let pl2 = upd_backing p (\<lambda>b. b\<lparr>bk_bindingConsumers := bk_bindingConsumers b - 1\<rparr>) pl1 in
             (if bk_bindingConsumers (pl_heap pl1 p) = 1 then upd_home event pl2 else pl2,
              Inl (InvalidArgument ''BackingPool: cannot pin a backing the pool claimed'')))
          else (pl1, Inr p))"

definition unpin :: "nat \<Rightarrow> pool \<Rightarrow> pool" where
  "unpin p pl =
     (let pl1 = upd_backing p (\<lambda>b. b\<lparr>bk_bindingConsumers := bk_bindingConsumers b - 1\<rparr>) pl in
      if bk_bindingConsumers (pl_heap pl p) = 1 then upd_home event pl1 else pl1)"

section \<open>Leases\<close>

definition lease_take :: "nat \<Rightarrow> pool \<Rightarrow> pool" where
  "lease_take p = upd_backing p (\<lambda>b. b\<lparr>bk_leases := bk_leases b + 1\<rparr>)"

text \<open>\<open>Returned\<close>: the backing goes on the return stack (not when the pool went) and wakes.\<close>

definition returned :: "nat \<Rightarrow> home \<Rightarrow> home" where
  "returned p hm =
     (let hm1 = hm\<lparr>hm_free := hm_free hm + 1\<rparr>;
          hm2 = (if \<not> hm_closed hm1 then hm1\<lparr>hm_returned := p # hm_returned hm1\<rparr> else hm1)
      in event hm2)"

definition lease_reset :: "nat option \<Rightarrow> pool \<Rightarrow> pool" where
  "lease_reset lease pl =
     (case lease of
        None \<Rightarrow> pl
      | Some p \<Rightarrow>
          let pl1 = upd_backing p (\<lambda>b. b\<lparr>bk_leases := bk_leases b - 1\<rparr>) pl in
          if bk_leases (pl_heap pl p) = 1 then upd_home (returned p) pl1 else pl1)"

definition lease_bind :: "nat option \<Rightarrow> u64 \<Rightarrow> pool \<Rightarrow> pool" where
  "lease_bind lease safeAt pl =
     (case lease of
        None \<Rightarrow> pl
      | Some p \<Rightarrow>
          upd_backing p (\<lambda>b. if bk_safeAt b < safeAt then b\<lparr>bk_safeAt := safeAt\<rparr> else b) pl)"

section \<open>The acquirer's bodies\<close>

definition take_returned :: "pool \<Rightarrow> pool" where
  "take_returned pl =
     (let list = hm_returned (pl_home pl) in
      pl\<lparr>pl_home := (pl_home pl)\<lparr>hm_returned := []\<rparr>,
         pl_free := pl_free pl @ filter (\<lambda>p. p \<in> set (pl_all pl)) list\<rparr>)"

definition release_backing :: "nat \<Rightarrow> pool \<Rightarrow> pool" where
  "release_backing p pl =
     (let b = pl_heap pl p; hm = pl_home pl;
          pl1 = pl\<lparr>pl_free := erase p (pl_free pl), pl_all := erase p (pl_all pl),
            pl_home := emit Released (of_nat (bk_byteCapacity b))
              (hm\<lparr>hm_free := hm_free hm - 1, hm_live := hm_live hm - 1,
                  hm_bytes := hm_bytes hm - of_nat (bk_byteCapacity b), hm_released := hm_released hm + 1\<rparr>)\<rparr>
      in case (pl_retireHook pl, bk_buffer b) of
           (True, Some buffer) \<Rightarrow>
             upd_backing p (\<lambda>b. b\<lparr>bk_buffer := None\<rparr>) (pl1\<lparr>pl_retired := pl_retired pl1 @ [buffer]\<rparr>)
         | _ \<Rightarrow> pl1)"

text \<open>The loop that claims and releases: the number released is \<open>AcquireInfo::released\<close>.\<close>

fun release_all :: "nat list \<Rightarrow> pool \<Rightarrow> nat \<Rightarrow> pool \<times> nat" where
  "release_all [] pl released = (pl, released)"
| "release_all (p # ps) pl released =
     (case try_claim (pl_heap pl p) of
        (b, claimed) \<Rightarrow>
          let pl1 = upd_backing p (\<lambda>_. b) pl in
          if claimed then release_all ps (release_backing p pl1) (released + 1)
          else release_all ps pl1 released)"

text \<open>
  \<open>nearer\<close>: the highest epoch at or below the preferred one first, then those past it,
  lowest first. The order of equal epochs, which \<open>std::ranges::sort\<close> leaves open, is the
  free list's.
\<close>

definition nearer_key :: "u64 \<Rightarrow> u64 \<Rightarrow> bool \<times> u64" where
  "nearer_key prefer epoch = (if epoch \<le> prefer then (False, prefer - epoch) else (True, epoch))"

fun pick :: "nat \<Rightarrow> nat list \<Rightarrow> pool \<Rightarrow> nat option \<Rightarrow> nat \<Rightarrow> nat list \<Rightarrow> pool \<times> nat option \<times> nat list" where
  "pick spareFree [] pl chosen spares release = (pl, chosen, release)"
| "pick spareFree (p # ps) pl None spares release =
     (case try_claim (pl_heap pl p) of
        (b, True) \<Rightarrow>
          pick spareFree ps (upd_backing p (\<lambda>_. b\<lparr>bk_retired := False, bk_sealedBytes := 0\<rparr>) pl) (Some p) spares release
      | (b, False) \<Rightarrow> pick spareFree ps (upd_backing p (\<lambda>_. b) pl) None spares release)"
| "pick spareFree (p # ps) pl (Some c) spares release =
     (if spares < spareFree then pick spareFree ps pl (Some c) (spares + 1) release
      else pick spareFree ps pl (Some c) spares (release @ [p]))"

text \<open>The class last asked for a key, replaced in place or appended.\<close>

fun set_active :: "pool_key \<Rightarrow> nat \<Rightarrow> (pool_key \<times> nat) list \<Rightarrow> (pool_key \<times> nat) list" where
  "set_active key cls [] = [(key, cls)]"
| "set_active key cls ((k, c) # active) =
     (if k = key then (k, cls) # active else (k, c) # set_active key cls active)"

definition same_kind :: "backing_request \<Rightarrow> backing \<Rightarrow> bool" where
  "same_kind rq b \<longleftrightarrow> key_of_backing b = key_of_request rq \<and> bk_capacityClass b = rq_capacityClass rq"

text \<open>A backing whose last lease went and that nothing pins (whatever its \<open>safeAt\<close>).\<close>

definition unheld :: "backing \<Rightarrow> bool" where
  "unheld b \<longleftrightarrow> bk_leases b = 0 \<and> bk_readbackPins b = 0 \<and> bk_bindingConsumers b = 0"

text \<open>The \<open>reuseBound\<close> loop: the class's unheld free backing with the lowest \<open>safeAt\<close>.\<close>

fun bound_longest :: "backing_request \<Rightarrow> (nat \<Rightarrow> backing) \<Rightarrow> nat list \<Rightarrow> nat option \<Rightarrow> nat option" where
  "bound_longest rq heap [] bound = bound"
| "bound_longest rq heap (p # ps) bound =
     (if \<not> same_kind rq (heap p) \<or> \<not> unheld (heap p) then bound_longest rq heap ps bound
      else bound_longest rq heap ps
        (case bound of
           None \<Rightarrow> Some p
         | Some q \<Rightarrow> if bk_safeAt (heap p) < bk_safeAt (heap q) then Some p else Some q))"

definition allocate ::
  "(nat \<Rightarrow> backing_request \<Rightarrow> backing_allocation result) \<Rightarrow> backing_request \<Rightarrow> pool \<Rightarrow> pool \<times> nat result" where
  "allocate alloc rq pl =
     (case alloc (pl_next pl) rq of
        Inl e \<Rightarrow> (pl, Inl e)
      | Inr al \<Rightarrow>
          let p = pl_next pl; hm = pl_home pl;
              b = blank_backing\<lparr>bk_buffer := al_buffer al, bk_generation := pl_nextGeneration pl,
                    bk_capacityClass := rq_capacityClass rq, bk_byteCapacity := byte_capacity rq,
                    bk_address := al_address al, bk_srvIndex := al_srvIndex al, bk_stride := rq_stride rq,
                    bk_flags := rq_flags rq, bk_compatibility := rq_compatibility rq\<rparr>;
              pl1 = pl\<lparr>pl_heap := (pl_heap pl)(p := b), pl_next := p + 1,
                    pl_nextGeneration := pl_nextGeneration pl + 1, pl_all := pl_all pl @ [p],
                    pl_home := emit Allocated (of_nat (byte_capacity rq))
                      (hm\<lparr>hm_live := hm_live hm + 1, hm_bytes := hm_bytes hm + of_nat (byte_capacity rq),
                          hm_allocated := hm_allocated hm + 1\<rparr>)\<rparr>
          in (lease_take p pl1, Inr p))"


subsection \<open>Availability\<close>

text \<open>
  The point \<open>ArmAvailability\<close> wakes at: the earliest clock point at which a free backing of
  the request's kind may become reusable (0: none is held back by the clock or a readback).
\<close>

fun arm_point :: "backing_request \<Rightarrow> (nat \<Rightarrow> backing) \<Rightarrow> u64 \<Rightarrow> nat list \<Rightarrow> u64 \<Rightarrow> u64" where
  "arm_point rq heap completed [] point = point"
| "arm_point rq heap completed (p # ps) point =
     (if \<not> same_kind rq (heap p) then arm_point rq heap completed ps point
      else
        let at = (if bk_safeAt (heap p) > completed then bk_safeAt (heap p)
                  else if bk_readbackPins (heap p) \<noteq> 0 then completed + 1 else 0)
        in arm_point rq heap completed ps (if at \<noteq> 0 \<and> (point = 0 \<or> at < point) then at else point))"

text \<open>The clock's callback: disarm (unless armed for another point since) and raise an event.\<close>

definition arm_wake :: "u64 \<Rightarrow> pool \<Rightarrow> pool" where
  "arm_wake point =
     upd_home (\<lambda>hm. event (if hm_armedAt hm = point then hm\<lparr>hm_armedAt := 0\<rparr> else hm))"

definition deliver :: "((clock_wake waiter) \<times> u64) list \<Rightarrow> pool \<Rightarrow> pool" where
  "deliver wakes pl =
     fold (\<lambda>((point, w), _) pl. if w = PoolArm (pl_id pl) then arm_wake point pl else pl) wakes pl"

type_synonym pool_state = "pool \<times> clock_wake clock"

definition arm_availability :: "backing_request \<Rightarrow> pool_state \<Rightarrow> pool_state" where
  "arm_availability rq st =
     (case st of (pl, ck) \<Rightarrow>
        let point = arm_point rq (pl_heap pl) (ck_completed ck) (pl_free pl) 0;
            armed = hm_armedAt (pl_home pl)
        in if point = 0 \<or> (armed \<noteq> 0 \<and> armed \<le> point) then (pl, ck)
           else
             let pl1 = upd_home (\<lambda>hm. hm\<lparr>hm_armedAt := point\<rparr>) pl in
             (case subscribe point (Some (PoolArm (pl_id pl))) ck of
                (ck1, wakes) \<Rightarrow> (deliver wakes pl1, ck1)))"

definition subscribe_availability :: "u64 \<Rightarrow> nat option \<Rightarrow> pool \<Rightarrow> pool" where
  "subscribe_availability identity wake pl =
     (case wake of
        None \<Rightarrow> pl
      | Some w \<Rightarrow>
          let hm1 = (pl_home pl)\<lparr>hm_waiters := (w, identity) # hm_waiters (pl_home pl)\<rparr>;
              hm2 = emit Suspended 1 hm1
          in pl\<lparr>pl_home := (if hm_events hm2 \<noteq> hm_scanEvents hm2 then event hm2 else hm2)\<rparr>)"

text \<open>The clock advances and the pool's armed wakes run.\<close>

definition clock_advance :: "u64 \<Rightarrow> pool_state \<Rightarrow> pool_state" where
  "clock_advance c st =
     (case st of (pl, ck) \<Rightarrow> case advance c ck of (ck1, wakes) \<Rightarrow> (deliver wakes pl, ck1))"

subsection \<open>Acquire\<close>

record acquire_info =
  ai_allocated :: bool
  ai_released :: nat
  ai_writeAfter :: u64

definition no_info :: acquire_info where
  "no_info = \<lparr>ai_allocated = False, ai_released = 0, ai_writeAfter = 0\<rparr>"

definition emit_gauges :: "home \<Rightarrow> home" where
  "emit_gauges hm =
     emit FreeBackings (hm_free hm) (emit LiveBytes (hm_bytes hm) (emit LiveBackings (hm_live hm) hm))"

text \<open>
  Pins other threads take between two instructions of the acquirer (a retired backing is
  pinned by nobody: \<open>Pin\<close> takes its hold back).
\<close>

definition race :: "(nat \<Rightarrow> nat) \<Rightarrow> pool \<Rightarrow> pool" where
  "race pins pl =
     pl\<lparr>pl_heap := (\<lambda>p. let b = pl_heap pl p in
         if bk_retired b then b else b\<lparr>bk_bindingConsumers := bk_bindingConsumers b + pins p\<rparr>)\<rparr>"

definition no_race :: "nat \<Rightarrow> nat" where
  "no_race = (\<lambda>_. 0)"

text \<open>A free backing leaves the free list for a new lease.\<close>

definition reuse :: "nat \<Rightarrow> pool \<Rightarrow> pool" where
  "reuse p pl =
     (let hm = pl_home pl in
      lease_take p (pl\<lparr>pl_free := erase p (pl_free pl),
        pl_home := emit Reused 1 (hm\<lparr>hm_free := hm_free hm - 1, hm_reused := hm_reused hm + 1\<rparr>)\<rparr>))"

definition scan_free :: "backing_request \<Rightarrow> u64 \<Rightarrow> pool \<Rightarrow> nat list" where
  "scan_free rq completed pl =
     filter (\<lambda>p. key_of_backing (pl_heap pl p) = key_of_request rq \<and> reusable (pl_heap pl p) completed)
       (pl_free pl)"

definition begin_acquire :: "backing_request \<Rightarrow> pool \<Rightarrow> pool" where
  "begin_acquire rq pl =
     (let pl1 = take_returned (upd_home (\<lambda>hm. hm\<lparr>hm_scanEvents := hm_events hm\<rparr>) pl) in
      pl1\<lparr>pl_active := set_active (key_of_request rq) (rq_capacityClass rq) (pl_active pl1)\<rparr>)"

text \<open>The scan, the choice and the releases: what \<open>Acquire\<close> does before it leases.\<close>

definition choose_backing ::
  "(nat \<Rightarrow> nat) \<Rightarrow> backing_request \<Rightarrow> u64 \<Rightarrow> u64 \<Rightarrow> pool \<Rightarrow> pool \<times> nat option \<times> nat" where
  "choose_backing pins rq prefer completed pl =
     (let found = scan_free rq completed pl;
          sameClass = sort_key (\<lambda>p. nearer_key prefer (bk_contentEpoch (pl_heap pl p)))
            (filter (\<lambda>p. bk_capacityClass (pl_heap pl p) = rq_capacityClass rq) found);
          other = filter (\<lambda>p. bk_capacityClass (pl_heap pl p) \<noteq> rq_capacityClass rq) found
      in case pick (cf_spareFree (pl_config pl)) sameClass (race pins pl) None 0 other of
           (pl1, chosen, release) \<Rightarrow>
             (case release_all release pl1 0 of (pl2, released) \<Rightarrow> (pl2, chosen, released)))"

definition class_count :: "backing_request \<Rightarrow> pool \<Rightarrow> nat" where
  "class_count rq pl = length (filter (\<lambda>p. same_kind rq (pl_heap pl p)) (pl_all pl))"

text \<open>The \<open>reuseBound\<close> choice: claimed, or none when a pin came first.\<close>

definition choose_bound :: "(nat \<Rightarrow> nat) \<Rightarrow> backing_request \<Rightarrow> pool \<Rightarrow> pool \<times> nat option" where
  "choose_bound pins rq pl =
     (case bound_longest rq (pl_heap pl) (pl_free pl) None of
        None \<Rightarrow> (race pins pl, None)
      | Some p \<Rightarrow>
          let pl1 = race pins pl in
          (case try_claim (pl_heap pl1 p) of
             (b, claimed) \<Rightarrow>
               if claimed
               then (upd_backing p (\<lambda>_. b\<lparr>bk_retired := False, bk_sealedBytes := 0\<rparr>) pl1, Some p)
               else (upd_backing p (\<lambda>_. b) pl1, None)))"

definition acquire ::
  "(nat \<Rightarrow> backing_request \<Rightarrow> backing_allocation result) \<Rightarrow> (nat \<Rightarrow> nat) \<times> (nat \<Rightarrow> nat) \<Rightarrow>
   backing_request \<Rightarrow> u64 \<Rightarrow> pool_state \<Rightarrow> pool_state \<times> (nat option \<times> acquire_info) result" where
  "acquire alloc racing rq prefer st =
     (case st of (pl, ck) \<Rightarrow>
        (case choose_backing (fst racing) rq prefer (ck_completed ck) (begin_acquire rq pl) of
           (pl1, Some p, released) \<Rightarrow>
             ((upd_home emit_gauges (reuse p pl1), ck), Inr (Some p, no_info\<lparr>ai_released := released\<rparr>))
         | (pl1, None, released) \<Rightarrow>
             let full = (cf_maxPerClass (pl_config pl1) \<noteq> 0 \<and>
                   class_count rq pl1 \<ge> cf_maxPerClass (pl_config pl1));
                 info = no_info\<lparr>ai_released := released\<rparr>
             in
             (case (if full \<and> cf_reuseBound (pl_config pl1) then choose_bound (snd racing) rq pl1
                    else (pl1, None)) of
                (pl2, Some p) \<Rightarrow>
                  ((upd_home emit_gauges (reuse p pl2), ck),
                   Inr (Some p, info\<lparr>ai_writeAfter := bk_safeAt (pl_heap pl2 p)\<rparr>))
              | (pl2, None) \<Rightarrow>
                  if full then
                    (case arm_availability rq
                        (upd_home (\<lambda>hm. emit Exhausted 1 (hm\<lparr>hm_exhausted := hm_exhausted hm + 1\<rparr>)) pl2, ck) of
                       (pl3, ck1) \<Rightarrow> ((upd_home emit_gauges pl3, ck1), Inr (None, info)))
                  else
                    (case allocate alloc rq pl2 of
                       (pl3, Inl e) \<Rightarrow> ((pl3, ck), Inl e)
                     | (pl3, Inr p) \<Rightarrow>
                         ((upd_home emit_gauges pl3, ck), Inr (Some p, info\<lparr>ai_allocated := True\<rparr>))))))"

subsection \<open>Trim, the floor, the census and the end of the pool\<close>

text \<open>The candidates of one active class: its first spares are kept, the rest released.\<close>

fun trim_split :: "nat \<Rightarrow> nat \<Rightarrow> (nat \<Rightarrow> backing) \<Rightarrow> nat list \<Rightarrow> nat \<Rightarrow> nat list" where
  "trim_split spareFree cls heap [] spares = []"
| "trim_split spareFree cls heap (p # ps) spares =
     (if bk_capacityClass (heap p) = cls \<and> spares < spareFree
      then trim_split spareFree cls heap ps (spares + 1)
      else p # trim_split spareFree cls heap ps spares)"

definition trim_active :: "u64 \<Rightarrow> pool \<Rightarrow> pool_key \<times> nat \<Rightarrow> nat list" where
  "trim_active completed pl active =
     trim_split (cf_spareFree (pl_config pl)) (snd active) (pl_heap pl)
       (sort_key (\<lambda>p. any_epoch - bk_contentEpoch (pl_heap pl p))
          (filter (\<lambda>p. key_of_backing (pl_heap pl p) = fst active \<and> reusable (pl_heap pl p) completed)
            (pl_free pl))) 0"

definition trim :: "(nat \<Rightarrow> nat) \<Rightarrow> pool_state \<Rightarrow> pool_state" where
  "trim pins st =
     (case st of (pl, ck) \<Rightarrow>
        let pl1 = take_returned pl;
            release = concat (map (trim_active (ck_completed ck) pl1) (pl_active pl1))
        in (upd_home emit_gauges (fst (release_all release (race pins pl1) 0)), ck))"

definition oldest_content_epoch :: "pool \<Rightarrow> u64 option" where
  "oldest_content_epoch pl =
     fold (\<lambda>p oldest.
         let epoch = bk_contentEpoch (pl_heap pl p) in
         if epoch \<noteq> 0 \<and> (case oldest of None \<Rightarrow> True | Some e \<Rightarrow> epoch < e) then Some epoch else oldest)
       (pl_all pl) None"

definition visit :: "pool \<Rightarrow> backing list" where
  "visit pl = map (pl_heap pl) (pl_all pl)"

record census =
  cn_live :: u64
  cn_leased :: u64
  cn_free :: u64
  cn_bytes :: u64
  cn_allocated :: u64
  cn_reused :: u64
  cn_released :: u64
  cn_exhausted :: u64

definition count :: "pool \<Rightarrow> census" where
  "count pl =
     (let hm = pl_home pl; free = min (hm_free hm) (hm_live hm) in
      \<lparr>cn_live = hm_live hm, cn_leased = hm_live hm - free, cn_free = free, cn_bytes = hm_bytes hm,
       cn_allocated = hm_allocated hm, cn_reused = hm_reused hm, cn_released = hm_released hm,
       cn_exhausted = hm_exhausted hm\<rparr>)"

text \<open>The destructor.\<close>

definition destroy_backing :: "nat \<Rightarrow> pool \<Rightarrow> pool" where
  "destroy_backing p pl =
     (let b = pl_heap pl p; pl1 = upd_backing p (\<lambda>b. b\<lparr>bk_retired := True\<rparr>) pl in
      case (pl_retireHook pl \<and> bk_leases b = 0 \<and> bk_bindingConsumers b = 0, bk_buffer b) of
        (True, Some buffer) \<Rightarrow>
          upd_backing p (\<lambda>b. b\<lparr>bk_buffer := None\<rparr>) (pl1\<lparr>pl_retired := pl_retired pl1 @ [buffer]\<rparr>)
      | _ \<Rightarrow> pl1)"

definition destroy_pool :: "pool \<Rightarrow> pool" where
  "destroy_pool pl =
     (let pl1 = upd_home (\<lambda>hm. hm\<lparr>hm_closed := True, hm_returned := []\<rparr>) pl;
          pl2 = fold destroy_backing (pl_all pl1) pl1
      in upd_home (\<lambda>hm. hm\<lparr>hm_live := 0, hm_free := 0, hm_bytes := 0\<rparr>) pl2)"

end
