(* ===== verification/PoolInv.thy ===== *)
theory PoolInv
  imports Pool
begin

text \<open>
  The invariant of the backing pool and that every operation keeps it, over the definitions of
  \<^verbatim>\<open>Pool.thy\<close>: the acquirer's lists partition the backings by who holds them (\<open>lists_ok\<close>), the
  atomics count them exactly (\<open>counts_ok\<close>), generations are unique, no class outgrows its
  cap, and an armed availability wake is a pending waiter of the clock (\<open>arm_ok\<close>).
\<close>

named_theorems pool_defs \<open>the updates of a pool's state\<close>

declare upd_backing_def [pool_defs] upd_home_def [pool_defs] emit_def [pool_defs]
  emit_gauges_def [pool_defs] lease_take_def [pool_defs] reuse_def [pool_defs]
  race_def [pool_defs] take_returned_def [pool_defs]

section \<open>The invariant\<close>

definition lists_ok :: "pool \<Rightarrow> bool" where
  "lists_ok pl \<longleftrightarrow>
     distinct (pl_all pl) \<and> distinct (pl_free pl) \<and> distinct (hm_returned (pl_home pl)) \<and>
     set (pl_free pl) \<inter> set (hm_returned (pl_home pl)) = {} \<and>
     (\<forall>p \<in> set (pl_all pl). p < pl_next pl \<and> \<not> bk_retired (pl_heap pl p)) \<and>
     set (pl_free pl) \<union> set (hm_returned (pl_home pl)) =
       {p \<in> set (pl_all pl). bk_leases (pl_heap pl p) = 0} \<and>
     (\<forall>p. bk_leases (pl_heap pl p) \<noteq> 0 \<longrightarrow> p \<in> set (pl_all pl))"

definition counts_ok :: "pool \<Rightarrow> bool" where
  "counts_ok pl \<longleftrightarrow>
     hm_live (pl_home pl) = of_nat (length (pl_all pl)) \<and>
     hm_free (pl_home pl) = of_nat (length (pl_free pl) + length (hm_returned (pl_home pl))) \<and>
     hm_bytes (pl_home pl) = of_nat (sum_list (map (\<lambda>p. bk_byteCapacity (pl_heap pl p)) (pl_all pl))) \<and>
     hm_allocated (pl_home pl) = hm_live (pl_home pl) + hm_released (pl_home pl)"

definition kinds_ok :: "pool \<Rightarrow> bool" where
  "kinds_ok pl \<longleftrightarrow>
     pl_nextGeneration pl = of_nat (Suc (pl_next pl)) \<and>
     (\<forall>p < pl_next pl. bk_generation (pl_heap pl p) = of_nat (Suc p)) \<and>
     distinct (map fst (pl_active pl)) \<and>
     (\<forall>p \<in> set (pl_all pl). key_of_backing (pl_heap pl p) \<in> fst ` set (pl_active pl)) \<and>
     (cf_maxPerClass (pl_config pl) \<noteq> 0 \<longrightarrow> (\<forall>rq. class_count rq pl \<le> cf_maxPerClass (pl_config pl)))"

definition arm_ok :: "pool_state \<Rightarrow> bool" where
  "arm_ok st \<longleftrightarrow>
     (hm_armedAt (pl_home (fst st)) \<noteq> 0 \<longrightarrow>
        ck_completed (snd st) < hm_armedAt (pl_home (fst st)) \<and>
        (hm_armedAt (pl_home (fst st)), PoolArm (pl_id (fst st))) \<in> set (ck_waiters (snd st)))"

definition pool_ok :: "pool \<Rightarrow> bool" where
  "pool_ok pl \<longleftrightarrow> lists_ok pl \<and> counts_ok pl \<and> kinds_ok pl \<and> \<not> hm_closed (pl_home pl)"

lemma unretire [simp]: "\<not> bk_retired b \<Longrightarrow> b\<lparr>bk_retired := False\<rparr> = b"
  by (cases b) simp

lemma retire_unretire [simp]:
  "\<not> bk_retired b \<Longrightarrow> b\<lparr>bk_retired := True, bk_retired := False\<rparr> = b"
  by simp

lemma upd_backing_same [simp]: "upd_backing p (\<lambda>_. pl_heap pl p) pl = pl"
  by (simp add: upd_backing_def)

lemma try_claim_eq:
  "\<not> bk_retired b \<Longrightarrow>
   try_claim b = (if bk_bindingConsumers b \<noteq> 0 then (b, False) else (b\<lparr>bk_retired := True\<rparr>, True))"
  by (simp add: try_claim_def)

section \<open>Closed forms of the acquirer's loops\<close>

definition drop_backing :: "nat \<Rightarrow> pool \<Rightarrow> pool" where
  "drop_backing p pl = release_backing p (upd_backing p (\<lambda>b. b\<lparr>bk_retired := True\<rparr>) pl)"

lemma pick_Some_eq:
  "pick spare ps pl (Some c) spares rel = (pl, Some c, rel @ drop (spare - spares) ps)"
  by (induction spare ps pl "Some c" spares rel rule: pick.induct)
    (auto simp: Suc_diff_Suc [symmetric] Cons_eq_append_conv drop_Cons' split: if_splits)

definition unseal :: "nat \<Rightarrow> pool \<Rightarrow> pool" where
  "unseal p = upd_backing p (\<lambda>b. b\<lparr>bk_sealedBytes := 0\<rparr>)"

lemma pick_None_eq:
  assumes "\<forall>p \<in> set ps. \<not> bk_retired (pl_heap pl p)"
  shows "pick spare ps pl None 0 rel =
    (case dropWhile (\<lambda>p. bk_bindingConsumers (pl_heap pl p) \<noteq> 0) ps of
       [] \<Rightarrow> (pl, None, rel)
     | c # qs \<Rightarrow> (unseal c pl, Some c, rel @ drop spare qs))"
  using assms
proof (induction ps)
  case (Cons p ps)
  then have nr: "\<not> bk_retired (pl_heap pl p)" by simp
  show ?case
  proof (cases "bk_bindingConsumers (pl_heap pl p) = 0")
    case True
    have "(pl_heap pl p)\<lparr>bk_retired := True, bk_retired := False, bk_sealedBytes := 0\<rparr> =
        (pl_heap pl p)\<lparr>bk_sealedBytes := 0\<rparr>" using nr by (cases "pl_heap pl p") simp
    with True nr show ?thesis
      by (simp add: try_claim_eq pick_Some_eq unseal_def upd_backing_def)
  next
    case False
    with nr Cons show ?thesis by (simp add: try_claim_eq)
  qed
qed simp

lemma drop_backing_heap_other: "q \<noteq> p \<Longrightarrow> pl_heap (drop_backing p pl) q = pl_heap pl q"
  by (auto simp: drop_backing_def release_backing_def Let_def pool_defs split: bool.split option.split)

lemma release_all_eq:
  assumes "distinct ps" and "\<forall>p \<in> set ps. \<not> bk_retired (pl_heap pl p)"
  shows "release_all ps pl n =
    (fold drop_backing (filter (\<lambda>p. bk_bindingConsumers (pl_heap pl p) = 0) ps) pl,
     n + length (filter (\<lambda>p. bk_bindingConsumers (pl_heap pl p) = 0) ps))"
  using assms
proof (induction ps arbitrary: pl n)
  case (Cons p ps)
  show ?case
  proof (cases "bk_bindingConsumers (pl_heap pl p) = 0")
    case True
    have same: "pl_heap (drop_backing p pl) q = pl_heap pl q" if "q \<in> set ps" for q
      by (rule drop_backing_heap_other) (use that Cons.prems in auto)
    have "release_all (p # ps) pl n = release_all ps (drop_backing p pl) (Suc n)"
      using True Cons.prems by (simp add: try_claim_eq drop_backing_def upd_backing_def)
    also have "\<dots> = (fold drop_backing (filter (\<lambda>q. bk_bindingConsumers (pl_heap pl q) = 0) ps) (drop_backing p pl),
        Suc n + length (filter (\<lambda>q. bk_bindingConsumers (pl_heap pl q) = 0) ps))"
      using Cons.IH [of "drop_backing p pl" "Suc n"] Cons.prems same by (simp cong: filter_cong)
    finally show ?thesis using True by simp
  next
    case False
    with Cons show ?thesis by (simp add: try_claim_eq)
  qed
qed simp


section \<open>Each building block keeps the invariant\<close>

lemma lists_okD:
  assumes "lists_ok pl"
  shows "distinct (pl_all pl)" and "distinct (pl_free pl)" and "set (pl_free pl) \<subseteq> set (pl_all pl)"
    and "p \<in> set (pl_free pl) \<Longrightarrow> p \<in> set (pl_all pl) \<and> bk_leases (pl_heap pl p) = 0"
    and "p \<in> set (pl_all pl) \<Longrightarrow> \<not> bk_retired (pl_heap pl p)"
    and "p \<in> set (pl_all pl) \<Longrightarrow> p < pl_next pl"
  using assms unfolding lists_ok_def by blast+

lemma lists_ok_disjoint:
  assumes "lists_ok pl"
  shows "distinct (pl_free pl)" "distinct (hm_returned (pl_home pl))"
    "set (pl_free pl) \<inter> set (hm_returned (pl_home pl)) = {}"
  using assms by (simp_all add: lists_ok_def)

lemma lists_ok_unleased:
  "lists_ok pl \<Longrightarrow>
    set (pl_free pl) \<union> set (hm_returned (pl_home pl)) = {p \<in> set (pl_all pl). bk_leases (pl_heap pl p) = 0}"
  by (simp add: lists_ok_def)

lemma lists_ok_leased:
  assumes "lists_ok pl" and "bk_leases (pl_heap pl p) \<noteq> 0"
  shows "p \<in> set (pl_all pl)" and "p \<notin> set (pl_free pl)" and "p \<notin> set (hm_returned (pl_home pl))"
proof -
  show "p \<in> set (pl_all pl)" using assms by (auto simp: lists_ok_def)
  have "p \<notin> set (pl_free pl) \<union> set (hm_returned (pl_home pl))"
    unfolding lists_ok_unleased [OF assms(1)] using assms(2) by simp
  then show "p \<notin> set (pl_free pl)" "p \<notin> set (hm_returned (pl_home pl))" by simp_all
qed

lemma pool_okD:
  assumes "pool_ok pl"
  shows "lists_ok pl" and "counts_ok pl" and "kinds_ok pl" and "\<not> hm_closed (pl_home pl)"
  using assms by (simp_all add: pool_ok_def)

text \<open>
  Operations that leave the lists, the counters and what the invariant reads of a backing.
\<close>

definition same_view :: "backing \<Rightarrow> backing \<Rightarrow> bool" where
  "same_view b c \<longleftrightarrow>
     bk_leases b = bk_leases c \<and> bk_retired b = bk_retired c \<and> bk_byteCapacity b = bk_byteCapacity c \<and>
     bk_generation b = bk_generation c \<and> key_of_backing b = key_of_backing c \<and>
     bk_capacityClass b = bk_capacityClass c"

lemma class_count_cong:
  "pl_all pl = pl_all pl' \<Longrightarrow> \<forall>p. same_view (pl_heap pl p) (pl_heap pl' p) \<Longrightarrow>
    class_count rq pl = class_count rq pl'"
  by (simp add: class_count_def same_kind_def same_view_def)

lemma pool_ok_view:
  assumes "pool_ok pl" and "\<forall>p. same_view (pl_heap pl p) (pl_heap pl' p)"
    and "pl_all pl' = pl_all pl" and "pl_free pl' = pl_free pl" and "pl_active pl' = pl_active pl"
    and "pl_next pl' = pl_next pl" and "pl_nextGeneration pl' = pl_nextGeneration pl"
    and "pl_config pl' = pl_config pl" and "hm_returned (pl_home pl') = hm_returned (pl_home pl)"
    and "hm_live (pl_home pl') = hm_live (pl_home pl)" and "hm_free (pl_home pl') = hm_free (pl_home pl)"
    and "hm_bytes (pl_home pl') = hm_bytes (pl_home pl)"
    and "hm_allocated (pl_home pl') = hm_allocated (pl_home pl)"
    and "hm_released (pl_home pl') = hm_released (pl_home pl)"
    and "hm_closed (pl_home pl') = hm_closed (pl_home pl)"
  shows "pool_ok pl'"
proof -
  have cc: "class_count rq pl' = class_count rq pl" for rq
    using assms(2,3) by (intro class_count_cong [symmetric]) simp_all
  have lists: "lists_ok pl'" using pool_okD(1) [OF assms(1)] assms by (simp add: lists_ok_def same_view_def)
  moreover have "counts_ok pl'" using pool_okD(2) [OF assms(1)] assms by (simp add: counts_ok_def same_view_def)
  moreover have "kinds_ok pl'" using pool_okD(3) [OF assms(1)] assms
    by (simp add: kinds_ok_def cc same_view_def)
  ultimately show ?thesis using pool_okD(4) [OF assms(1)] assms(15) by (simp add: pool_ok_def)
qed

lemma same_view_refl [simp]: "same_view b b"
  by (simp add: same_view_def)

lemma pool_ok_race [intro]: "pool_ok pl \<Longrightarrow> pool_ok (race pins pl)"
  by (erule pool_ok_view) (simp_all add: pool_defs same_view_def key_of_backing_def Let_def)

lemma pool_ok_unseal [intro]: "pool_ok pl \<Longrightarrow> pool_ok (unseal p pl)"
  by (erule pool_ok_view) (simp_all add: pool_defs unseal_def same_view_def key_of_backing_def)

lemma pool_ok_gauges [intro]: "pool_ok pl \<Longrightarrow> pool_ok (upd_home emit_gauges pl)"
  by (erule pool_ok_view) (simp_all add: pool_defs)

lemma event_simps [simp]:
  "hm_returned (event hm) = hm_returned hm" "hm_live (event hm) = hm_live hm" "hm_free (event hm) = hm_free hm"
  "hm_bytes (event hm) = hm_bytes hm" "hm_allocated (event hm) = hm_allocated hm"
  "hm_released (event hm) = hm_released hm" "hm_closed (event hm) = hm_closed hm"
  "hm_armedAt (event hm) = hm_armedAt hm" "hm_waiters (event hm) = []" "hm_events (event hm) = hm_events hm + 1"
  "hm_scanEvents (event hm) = hm_scanEvents hm" "hm_woken (event hm) = hm_woken hm @ hm_waiters hm"
  by (simp_all add: event_def emit_def Let_def)

lemma pool_ok_event [intro]: "pool_ok pl \<Longrightarrow> pool_ok (upd_home event pl)"
  by (erule pool_ok_view) (simp_all add: upd_home_def)

lemma pool_ok_arm_wake [intro]: "pool_ok pl \<Longrightarrow> pool_ok (arm_wake point pl)"
  by (erule pool_ok_view) (simp_all add: upd_home_def arm_wake_def)

lemma pool_ok_deliver [intro]: "pool_ok pl \<Longrightarrow> pool_ok (deliver wakes pl)"
  unfolding deliver_def by (rule fold_invariant [where Q = "\<lambda>_. True"]) auto

lemma set_active_keys:
  "fst ` set (set_active key cls active) = insert key (fst ` set active)"
  "distinct (map fst active) \<Longrightarrow> distinct (map fst (set_active key cls active))"
  by (induction key cls active rule: set_active.induct) auto

lemma pool_ok_take_returned [intro]:
  assumes "pool_ok pl"
  shows "pool_ok (take_returned pl)"
proof -
  note ok = pool_okD [OF assms]
  have sub: "filter (\<lambda>p. p \<in> set (pl_all pl)) (hm_returned (pl_home pl)) = hm_returned (pl_home pl)"
    using ok(1) unfolding lists_ok_def by (intro filter_True) blast
  have "lists_ok (take_returned pl)" using ok(1) by (auto simp: lists_ok_def take_returned_def Let_def sub)
  moreover have "counts_ok (take_returned pl)" using ok(2) by (simp add: counts_ok_def take_returned_def sub)
  moreover have "kinds_ok (take_returned pl)"
    using ok(3) by (simp add: kinds_ok_def take_returned_def class_count_def Let_def)
  ultimately show ?thesis using ok(4) by (simp add: pool_ok_def take_returned_def Let_def)
qed

lemma pool_ok_begin [intro]:
  assumes "pool_ok pl"
  shows "pool_ok (begin_acquire rq pl)"
proof -
  define pl0 where "pl0 = upd_home (\<lambda>hm. hm\<lparr>hm_scanEvents := hm_events hm\<rparr>) pl"
  have "pool_ok pl0" using assms by (rule pool_ok_view) (simp_all add: pl0_def upd_home_def)
  then have "pool_ok (take_returned pl0)" by blast
  then show ?thesis
    by (auto simp: pool_ok_def begin_acquire_def pl0_def [symmetric] Let_def lists_ok_def counts_ok_def
        kinds_ok_def class_count_def set_active_keys)
qed


text \<open>The three moves of a backing: released, leased again, made anew.\<close>

lemma drop_backing_simps:
  "pl_all (drop_backing p pl) = erase p (pl_all pl)"
  "pl_free (drop_backing p pl) = erase p (pl_free pl)"
  "pl_active (drop_backing p pl) = pl_active pl" "pl_next (drop_backing p pl) = pl_next pl"
  "pl_nextGeneration (drop_backing p pl) = pl_nextGeneration pl"
  "pl_config (drop_backing p pl) = pl_config pl" "pl_id (drop_backing p pl) = pl_id pl"
  "hm_returned (pl_home (drop_backing p pl)) = hm_returned (pl_home pl)"
  "hm_live (pl_home (drop_backing p pl)) = hm_live (pl_home pl) - 1"
  "hm_free (pl_home (drop_backing p pl)) = hm_free (pl_home pl) - 1"
  "hm_bytes (pl_home (drop_backing p pl)) = hm_bytes (pl_home pl) - of_nat (bk_byteCapacity (pl_heap pl p))"
  "hm_allocated (pl_home (drop_backing p pl)) = hm_allocated (pl_home pl)"
  "hm_released (pl_home (drop_backing p pl)) = hm_released (pl_home pl) + 1"
  "hm_closed (pl_home (drop_backing p pl)) = hm_closed (pl_home pl)"
  "hm_armedAt (pl_home (drop_backing p pl)) = hm_armedAt (pl_home pl)"
  "hm_events (pl_home (drop_backing p pl)) = hm_events (pl_home pl)"
  "hm_scanEvents (pl_home (drop_backing p pl)) = hm_scanEvents (pl_home pl)"
  "hm_waiters (pl_home (drop_backing p pl)) = hm_waiters (pl_home pl)"
  "hm_woken (pl_home (drop_backing p pl)) = hm_woken (pl_home pl)"
  "bk_generation (pl_heap (drop_backing p pl) q) = bk_generation (pl_heap pl q)"
  by (auto simp: drop_backing_def release_backing_def Let_def pool_defs split: bool.split option.split)

lemma pool_ok_drop:
  assumes "pool_ok pl" and "p \<in> set (pl_free pl)"
  shows "pool_ok (drop_backing p pl)"
proof -
  note ok = pool_okD [OF assms(1)]
  note lst = lists_okD [OF ok(1)]
  have p: "p \<in> set (pl_all pl)" "p \<notin> set (hm_returned (pl_home pl))"
    using lst(4) [OF assms(2)] ok(1) assms(2) by (auto simp: lists_ok_def)
  have other: "pl_heap (drop_backing p pl) q = pl_heap pl q" if "q \<in> set (erase p (pl_all pl))" for q
    using that by (intro drop_backing_heap_other) simp
  have "{q \<in> set (pl_all (drop_backing p pl)). bk_leases (pl_heap (drop_backing p pl) q) = 0} =
      {q \<in> set (pl_all pl). bk_leases (pl_heap pl q) = 0} - {p}"
    using other by (auto simp: drop_backing_simps)
  moreover have "bk_leases (pl_heap (drop_backing p pl) q) = bk_leases (pl_heap pl q)" for q
    by (auto simp: drop_backing_def release_backing_def Let_def pool_defs split: bool.split option.split)
  moreover have "bk_leases (pl_heap pl p) = 0" using lst(4) [OF assms(2)] by simp
  ultimately have "lists_ok (drop_backing p pl)"
    using ok(1) p other unfolding lists_ok_def by (auto simp: drop_backing_simps)
  moreover have "map (\<lambda>q. bk_byteCapacity (pl_heap (drop_backing p pl) q)) (erase p (pl_all pl)) =
      map (\<lambda>q. bk_byteCapacity (pl_heap pl q)) (erase p (pl_all pl))"
    using other by (intro map_cong) simp_all
  then have "sum_list (map (\<lambda>q. bk_byteCapacity (pl_heap (drop_backing p pl) q)) (erase p (pl_all pl))) =
      sum_list (map (\<lambda>q. bk_byteCapacity (pl_heap pl q)) (erase p (pl_all pl)))"
    by (rule arg_cong)
  then have "counts_ok (drop_backing p pl)"
    using ok(2) length_erase [OF lst(1) p(1)] length_erase [OF lst(2) assms(2)]
      sum_list_erase [OF lst(1) p(1), of "\<lambda>p. bk_byteCapacity (pl_heap pl p)"]
    by (simp add: counts_ok_def drop_backing_simps)
  moreover have "class_count rq (drop_backing p pl) \<le> class_count rq pl" for rq
  proof -
    have "class_count rq (drop_backing p pl) = length (filter (\<lambda>q. same_kind rq (pl_heap pl q)) (erase p (pl_all pl)))"
      unfolding class_count_def drop_backing_simps using other by (intro arg_cong [of _ _ length] filter_cong) auto
    then show ?thesis by (simp add: class_count_def length_filter_erase_le)
  qed
  then have "class_count rq pl \<le> n \<Longrightarrow> class_count rq (drop_backing p pl) \<le> n" for rq n
    by (rule le_trans)
  then have "kinds_ok (drop_backing p pl)"
    using ok(3) other by (auto simp: kinds_ok_def drop_backing_simps)
  ultimately show ?thesis using ok(4) by (simp add: pool_ok_def drop_backing_simps)
qed

lemma pool_ok_fold_drop:
  assumes "pool_ok pl" and "distinct ps" and "set ps \<subseteq> set (pl_free pl)"
  shows "pool_ok (fold drop_backing ps pl)"
  using assms
proof (induction ps arbitrary: pl)
  case (Cons p ps)
  then have "pool_ok (drop_backing p pl)" by (intro pool_ok_drop) auto
  moreover have "set ps \<subseteq> set (pl_free (drop_backing p pl))" using Cons.prems by (auto simp: drop_backing_simps)
  ultimately show ?case using Cons by simp
qed simp

lemma fold_drop_simps:
  "pl_config (fold drop_backing ps pl) = pl_config pl" "pl_id (fold drop_backing ps pl) = pl_id pl"
  "pl_active (fold drop_backing ps pl) = pl_active pl" "pl_next (fold drop_backing ps pl) = pl_next pl"
  "hm_armedAt (pl_home (fold drop_backing ps pl)) = hm_armedAt (pl_home pl)"
  "hm_events (pl_home (fold drop_backing ps pl)) = hm_events (pl_home pl)"
  "hm_scanEvents (pl_home (fold drop_backing ps pl)) = hm_scanEvents (pl_home pl)"
  "hm_waiters (pl_home (fold drop_backing ps pl)) = hm_waiters (pl_home pl)"
  "hm_woken (pl_home (fold drop_backing ps pl)) = hm_woken (pl_home pl)"
  "hm_returned (pl_home (fold drop_backing ps pl)) = hm_returned (pl_home pl)"
  "set (pl_free (fold drop_backing ps pl)) = set (pl_free pl) - set ps"
  "set (pl_all (fold drop_backing ps pl)) = set (pl_all pl) - set ps"
  by (induction ps arbitrary: pl) (auto simp: drop_backing_simps)

lemma fold_drop_heap: "q \<notin> set ps \<Longrightarrow> pl_heap (fold drop_backing ps pl) q = pl_heap pl q"
  by (induction ps arbitrary: pl) (auto simp: drop_backing_heap_other)

lemma pool_ok_reuse:
  assumes "pool_ok pl" and "p \<in> set (pl_free pl)"
  shows "pool_ok (reuse p pl)"
proof -
  note ok = pool_okD [OF assms(1)]
  note lst = lists_okD [OF ok(1)]
  have p: "p \<in> set (pl_all pl)" "p \<notin> set (hm_returned (pl_home pl))"
    using lst(4) [OF assms(2)] ok(1) assms(2) by (auto simp: lists_ok_def)
  have view: "bk_byteCapacity (pl_heap (reuse p pl) q) = bk_byteCapacity (pl_heap pl q)"
    "bk_generation (pl_heap (reuse p pl) q) = bk_generation (pl_heap pl q)"
    "key_of_backing (pl_heap (reuse p pl) q) = key_of_backing (pl_heap pl q)"
    "bk_capacityClass (pl_heap (reuse p pl) q) = bk_capacityClass (pl_heap pl q)" for q
    by (simp_all add: pool_defs Let_def key_of_backing_def)
  have "lists_ok (reuse p pl)"
    using ok(1) p unfolding lists_ok_def by (auto simp: pool_defs Let_def split: if_splits)
  moreover have "counts_ok (reuse p pl)"
    using ok(2) length_erase [OF lst(2) assms(2)] view(1) by (simp add: counts_ok_def) (simp add: pool_defs Let_def)
  moreover have "kinds_ok (reuse p pl)"
    using ok(3) view by (simp add: kinds_ok_def class_count_def same_kind_def) (simp add: pool_defs Let_def)
  ultimately show ?thesis using ok(4) by (simp add: pool_ok_def pool_defs Let_def)
qed

lemma pool_ok_allocate:
  assumes "pool_ok pl" and "allocate alloc rq pl = (pl', r)"
    and "key_of_request rq \<in> fst ` set (pl_active pl)"
    and "cf_maxPerClass (pl_config pl) \<noteq> 0 \<Longrightarrow> class_count rq pl < cf_maxPerClass (pl_config pl)"
  shows "pool_ok pl'"
proof (cases "alloc (pl_next pl) rq")
  case (Inl e)
  with assms(1,2) show ?thesis by (simp add: allocate_def)
next
  case (Inr al)
  define p where "p = pl_next pl"
  note ok = pool_okD [OF assms(1)]
  note lst = lists_okD [OF ok(1)]
  have new: "p \<notin> set (pl_all pl)" "p \<notin> set (pl_free pl)" "p \<notin> set (hm_returned (pl_home pl))"
    using lst(6) ok(1) by (auto simp: p_def lists_ok_def)
  have heap: "pl_heap pl' q = pl_heap pl q" if "q \<noteq> p" for q
    using assms(2) Inr that by (auto simp: allocate_def p_def Let_def pool_defs)
  have made: "bk_leases (pl_heap pl' p) = 1" "\<not> bk_retired (pl_heap pl' p)"
    "bk_byteCapacity (pl_heap pl' p) = byte_capacity rq" "bk_generation (pl_heap pl' p) = pl_nextGeneration pl"
    "key_of_backing (pl_heap pl' p) = key_of_request rq" "bk_capacityClass (pl_heap pl' p) = rq_capacityClass rq"
    using assms(2) Inr by (auto simp: allocate_def p_def Let_def pool_defs blank_backing_def
        key_of_backing_def key_of_request_def)
  have pl': "pl_all pl' = pl_all pl @ [p]" "pl_free pl' = pl_free pl" "pl_active pl' = pl_active pl"
    "pl_next pl' = Suc p" "pl_nextGeneration pl' = pl_nextGeneration pl + 1" "pl_config pl' = pl_config pl"
    "hm_returned (pl_home pl') = hm_returned (pl_home pl)" "hm_live (pl_home pl') = hm_live (pl_home pl) + 1"
    "hm_free (pl_home pl') = hm_free (pl_home pl)" "hm_allocated (pl_home pl') = hm_allocated (pl_home pl) + 1"
    "hm_released (pl_home pl') = hm_released (pl_home pl)" "hm_closed (pl_home pl') = hm_closed (pl_home pl)"
    "hm_bytes (pl_home pl') = hm_bytes (pl_home pl) + of_nat (byte_capacity rq)"
    using assms(2) Inr by (auto simp: allocate_def p_def Let_def pool_defs)
  have old: "pl_heap pl' q = pl_heap pl q" if "q \<in> set (pl_all pl)" for q
    using heap new(1) that by metis
  have "map (\<lambda>q. bk_byteCapacity (pl_heap pl' q)) (pl_all pl) = map (\<lambda>q. bk_byteCapacity (pl_heap pl q)) (pl_all pl)"
    using old by simp
  then have bytes: "sum_list (map (\<lambda>q. bk_byteCapacity (pl_heap pl' q)) (pl_all pl)) =
      sum_list (map (\<lambda>q. bk_byteCapacity (pl_heap pl q)) (pl_all pl))"
    by (rule arg_cong)
  have cc: "class_count rq' pl' = class_count rq' pl + (if same_kind rq' (pl_heap pl' p) then 1 else 0)" for rq'
  proof -
    have "filter (\<lambda>q. same_kind rq' (pl_heap pl' q)) (pl_all pl) = filter (\<lambda>q. same_kind rq' (pl_heap pl q)) (pl_all pl)"
      using old by (intro filter_cong) simp_all
    then show ?thesis by (simp add: class_count_def pl')
  qed
  have "lists_ok pl'"
    using ok(1) new made(1,2) heap unfolding lists_ok_def by (auto simp: pl' less_Suc_eq p_def)
  moreover have "counts_ok pl'"
    using ok(2) bytes made(3) by (simp add: counts_ok_def pl')
  moreover have "kinds_ok pl'"
  proof -
    have "class_count rq' pl' \<le> cf_maxPerClass (pl_config pl)" if "cf_maxPerClass (pl_config pl) \<noteq> 0" for rq'
    proof (cases "same_kind rq' (pl_heap pl' p)")
      case True
      then have "class_count rq' pl = class_count rq pl"
        using made(5,6) by (simp add: class_count_def same_kind_def)
      with assms(4) [OF that] True show ?thesis by (simp add: cc)
    next
      case False
      with ok(3) that show ?thesis by (simp add: cc kinds_ok_def)
    qed
    moreover have "key_of_backing (pl_heap pl' q) \<in> fst ` set (pl_active pl)" if "q \<in> set (pl_all pl')" for q
    proof (cases "q = p")
      case True
      with made(5) assms(3) show ?thesis by simp
    next
      case False
      with that have "q \<in> set (pl_all pl)" by (simp add: pl')
      with ok(3) show ?thesis by (simp add: kinds_ok_def old)
    qed
    moreover have "bk_generation (pl_heap pl' q) = of_nat (Suc q)" if "q < pl_next pl'" for q
      using that heap ok(3) made(4) by (cases "q = p") (auto simp: kinds_ok_def pl' p_def)
    ultimately show ?thesis using ok(3) by (simp add: kinds_ok_def pl' p_def)
  qed
  ultimately show ?thesis using ok(4) by (simp add: pool_ok_def pl')
qed


section \<open>The choice of a backing\<close>

text \<open>
  What \<open>choose_backing\<close> does on a pool whose invariant holds, in one equation: the nearest
  free backing that no racing pin took is unsealed and chosen; the superseded classes and the
  spares past \<open>spareFree\<close> are released unless pinned meanwhile.
\<close>

definition same_class_found :: "backing_request \<Rightarrow> u64 \<Rightarrow> u64 \<Rightarrow> pool \<Rightarrow> nat list" where
  "same_class_found rq prefer completed pl =
     sort_key (\<lambda>p. nearer_key prefer (bk_contentEpoch (pl_heap pl p)))
       (filter (\<lambda>p. bk_capacityClass (pl_heap pl p) = rq_capacityClass rq) (scan_free rq completed pl))"

definition other_class_found :: "backing_request \<Rightarrow> u64 \<Rightarrow> pool \<Rightarrow> nat list" where
  "other_class_found rq completed pl =
     filter (\<lambda>p. bk_capacityClass (pl_heap pl p) \<noteq> rq_capacityClass rq) (scan_free rq completed pl)"

lemma scan_free_props:
  "p \<in> set (scan_free rq completed pl) \<longleftrightarrow>
    p \<in> set (pl_free pl) \<and> key_of_backing (pl_heap pl p) = key_of_request rq \<and>
    reusable (pl_heap pl p) completed"
  by (auto simp: scan_free_def)

lemma race_simps [simp]:
  "pl_all (race pins pl) = pl_all pl" "pl_free (race pins pl) = pl_free pl"
  "pl_home (race pins pl) = pl_home pl" "pl_config (race pins pl) = pl_config pl"
  "pl_active (race pins pl) = pl_active pl" "pl_next (race pins pl) = pl_next pl"
  "pl_id (race pins pl) = pl_id pl"
  "pl_heap (race pins pl) p = (if bk_retired (pl_heap pl p) then pl_heap pl p
     else (pl_heap pl p)\<lparr>bk_bindingConsumers := bk_bindingConsumers (pl_heap pl p) + pins p\<rparr>)"
  by (simp_all add: race_def Let_def)

lemma unseal_simps [simp]:
  "pl_all (unseal p pl) = pl_all pl" "pl_free (unseal p pl) = pl_free pl"
  "pl_home (unseal p pl) = pl_home pl" "pl_config (unseal p pl) = pl_config pl"
  "pl_active (unseal p pl) = pl_active pl" "pl_next (unseal p pl) = pl_next pl"
  "pl_id (unseal p pl) = pl_id pl"
  "pl_heap (unseal p pl) q = (if q = p then (pl_heap pl p)\<lparr>bk_sealedBytes := 0\<rparr> else pl_heap pl q)"
  by (simp_all add: unseal_def upd_backing_def)

lemma choose_backing_eq:
  fixes rq :: backing_request and "prefer" completed :: u64
  assumes "pool_ok pl"
  defines "same \<equiv> same_class_found rq prefer completed pl" and "other \<equiv> other_class_found rq completed pl"
  shows "choose_backing pins rq prefer completed pl =
    (case dropWhile (\<lambda>p. 0 < pins p) same of
       [] \<Rightarrow> (fold drop_backing (filter (\<lambda>p. pins p = 0) other) (race pins pl), None,
              length (filter (\<lambda>p. pins p = 0) other))
     | c # qs \<Rightarrow>
         (let gone = filter (\<lambda>p. pins p = 0) (other @ drop (cf_spareFree (pl_config pl)) qs)
          in (fold drop_backing gone (unseal c (race pins pl)), Some c, length gone)))"
proof -
  note lst = lists_okD [OF pool_okD(1) [OF assms(1)]]
  have found: "p \<in> set (pl_free pl) \<and> \<not> bk_retired (pl_heap pl p) \<and> bk_bindingConsumers (pl_heap pl p) = 0"
    if "p \<in> set same \<or> p \<in> set other" for p
    using that lst(4) [of p] lst(5) [of p]
    by (auto simp: same_def other_def same_class_found_def other_class_found_def scan_free_props reusable_def)
  have dist: "distinct (same @ other)"
    using lst(2) by (auto simp: same_def other_def same_class_found_def other_class_found_def scan_free_def)
  have nr: "\<forall>p \<in> set same. \<not> bk_retired (pl_heap (race pins pl) p)" using found by simp
  have while: "dropWhile (\<lambda>p. bk_bindingConsumers (pl_heap (race pins pl) p) \<noteq> 0) same =
      dropWhile (\<lambda>p. 0 < pins p) same"
    by (rule dropWhile_cong) (use found in simp_all)
  define picked where "picked = pick (cf_spareFree (pl_config pl)) same (race pins pl) None 0 other"
  have picked_eq: "picked = (case dropWhile (\<lambda>p. 0 < pins p) same of
       [] \<Rightarrow> (race pins pl, None, other)
     | c # qs \<Rightarrow> (unseal c (race pins pl), Some c, other @ drop (cf_spareFree (pl_config pl)) qs))"
    unfolding picked_def pick_None_eq [OF nr] while ..
  have choose: "choose_backing pins rq prefer completed pl = (case picked of (pl1, chosen, release) \<Rightarrow>
      (case release_all release pl1 0 of (pl2, released) \<Rightarrow> (pl2, chosen, released)))"
    by (simp add: choose_backing_def Let_def picked_def same_def other_def same_class_found_def
        other_class_found_def)
  show ?thesis
  proof (cases "dropWhile (\<lambda>p. 0 < pins p) same")
    case Nil
    have rel: "release_all other (race pins pl) 0 =
        (fold drop_backing (filter (\<lambda>p. pins p = 0) other) (race pins pl), length (filter (\<lambda>p. pins p = 0) other))"
      using release_all_eq [of other "race pins pl" 0] dist found by (simp cong: filter_cong)
    show ?thesis by (simp add: choose picked_eq Nil rel)
  next
    case (Cons c qs)
    have suffix: "\<exists>ys. same = ys @ c # qs" using Cons by (metis takeWhile_dropWhile_id)
    define gone where "gone = other @ drop (cf_spareFree (pl_config pl)) qs"
    have sub: "set gone \<subseteq> set same \<union> set other - {c}"
      using suffix dist by (auto simp: gone_def dest: in_set_dropD)
    have "set (drop (cf_spareFree (pl_config pl)) qs) \<subseteq> set qs" by (rule set_drop_subset)
    then have "distinct gone" using suffix dist unfolding gone_def by fastforce
    moreover have "\<forall>p \<in> set gone. \<not> bk_retired (pl_heap (unseal c (race pins pl)) p)"
      using sub found by auto
    moreover have "filter (\<lambda>p. bk_bindingConsumers (pl_heap (unseal c (race pins pl)) p) = 0) gone =
        filter (\<lambda>p. pins p = 0) gone"
      by (intro filter_cong) (use sub found in auto)
    ultimately have rel: "release_all gone (unseal c (race pins pl)) 0 =
        (fold drop_backing (filter (\<lambda>p. pins p = 0) gone) (unseal c (race pins pl)),
         length (filter (\<lambda>p. pins p = 0) gone))"
      using release_all_eq [of gone "unseal c (race pins pl)" 0] by simp
    show ?thesis by (simp add: choose picked_eq Cons rel gone_def [symmetric] Let_def del: filter_append)
  qed
qed


lemma other_free: "p \<in> set (other_class_found rq completed pl) \<Longrightarrow> p \<in> set (pl_free pl)"
  by (simp add: other_class_found_def scan_free_props)

lemma same_free: "p \<in> set (same_class_found rq prefer completed pl) \<Longrightarrow> p \<in> set (pl_free pl)"
  by (simp add: same_class_found_def scan_free_props)

lemma found_distinct:
  assumes "lists_ok pl"
  shows "distinct (same_class_found rq prefer completed pl @ other_class_found rq completed pl)"
  using lists_okD(2) [OF assms]
  by (auto simp: same_class_found_def other_class_found_def scan_free_def)

text \<open>
  The pool after the choice: some found backings dropped from the raced pool, the chosen one
  (the first that no racing pin took, in the order of nearness) unsealed and not dropped.
\<close>

definition chosen_base :: "nat option \<Rightarrow> pool \<Rightarrow> pool" where
  "chosen_base chosen pl = (case chosen of None \<Rightarrow> pl | Some c \<Rightarrow> unseal c pl)"

lemma choose_backingE:
  fixes rq :: backing_request and "prefer" completed :: u64
  assumes "pool_ok pl" and "choose_backing pins rq prefer completed pl = (pl', chosen, n)"
  obtains gone where "pl' = fold drop_backing gone (chosen_base chosen (race pins pl))"
    and "n = length gone" and "distinct gone" and "set gone \<subseteq> set (scan_free rq completed pl)"
    and "\<forall>p \<in> set gone. pins p = 0 \<and> chosen \<noteq> Some p"
    and "\<forall>c. chosen = Some c \<longrightarrow> pins c = 0 \<and>
      (\<exists>ys qs. same_class_found rq prefer completed pl = ys @ c # qs \<and> (\<forall>y \<in> set ys. 0 < pins y) \<and>
        set gone = {p \<in> set (other_class_found rq completed pl) \<union> set (drop (cf_spareFree (pl_config pl)) qs). pins p = 0})"
    and "chosen = None \<longrightarrow> (\<forall>p \<in> set (same_class_found rq prefer completed pl). 0 < pins p) \<and>
      set gone = {p \<in> set (other_class_found rq completed pl). pins p = 0}"
proof -
  define same other where "same = same_class_found rq prefer completed pl"
    and "other = other_class_found rq completed pl"
  note eq = choose_backing_eq [OF assms(1), of pins rq "prefer" completed, folded same_def other_def]
  have dist: "distinct (same @ other)" unfolding same_def other_def
    by (rule found_distinct) (rule pool_okD [OF assms(1)])
  have sub: "set same \<union> set other \<subseteq> set (scan_free rq completed pl)"
    by (auto simp: same_def other_def same_class_found_def other_class_found_def)
  show thesis
  proof (cases "dropWhile (\<lambda>p. 0 < pins p) same")
    case Nil
    then have "\<forall>p \<in> set same. 0 < pins p" by (simp add: dropWhile_eq_Nil_conv)
    then show thesis
      using eq assms(2) Nil dist sub
      by (intro that [of "filter (\<lambda>p. pins p = 0) other"])
        (auto simp: chosen_base_def same_def [symmetric] other_def [symmetric])
  next
    case (Cons c qs)
    define gone where "gone = filter (\<lambda>p. pins p = 0) (other @ drop (cf_spareFree (pl_config pl)) qs)"
    have c: "pins c = 0" using hd_dropWhile [of "\<lambda>p. 0 < pins p" same] Cons by simp
    obtain ys where ys: "same = ys @ c # qs" "\<forall>y \<in> set ys. 0 < pins y"
      using Cons takeWhile_dropWhile_id [of "\<lambda>p. 0 < pins p" same] by (metis set_takeWhileD)
    have tail: "set (drop (cf_spareFree (pl_config pl)) qs) \<subseteq> set qs" by (rule set_drop_subset)
    have r: "pl' = fold drop_backing gone (unseal c (race pins pl))" "chosen = Some c" "n = length gone"
      using eq assms(2) Cons by (simp_all add: gone_def Let_def)
    show thesis
    proof (rule that [of gone])
      show "distinct gone" using dist ys(1) tail unfolding gone_def by fastforce
      show "set gone \<subseteq> set (scan_free rq completed pl)" using sub ys(1) tail by (auto simp: gone_def)
      show "\<forall>p \<in> set gone. pins p = 0 \<and> chosen \<noteq> Some p" using dist ys(1) tail r(2) by (auto simp: gone_def)
      show "\<forall>c. chosen = Some c \<longrightarrow> pins c = 0 \<and>
        (\<exists>ys qs. same_class_found rq prefer completed pl = ys @ c # qs \<and> (\<forall>y \<in> set ys. 0 < pins y) \<and>
          set gone = {p \<in> set (other_class_found rq completed pl) \<union> set (drop (cf_spareFree (pl_config pl)) qs). pins p = 0})"
        using r(2) c ys by (auto simp: gone_def same_def [symmetric] other_def [symmetric])
    qed (use r in \<open>auto simp: chosen_base_def\<close>)
  qed
qed

lemma pool_ok_chosen_base: "pool_ok pl \<Longrightarrow> pool_ok (chosen_base chosen pl)"
  by (auto simp: chosen_base_def split: option.split)

lemma chosen_base_simps [simp]:
  "pl_all (chosen_base ch pl) = pl_all pl" "pl_free (chosen_base ch pl) = pl_free pl"
  "pl_home (chosen_base ch pl) = pl_home pl" "pl_config (chosen_base ch pl) = pl_config pl"
  "pl_active (chosen_base ch pl) = pl_active pl" "pl_next (chosen_base ch pl) = pl_next pl"
  "pl_id (chosen_base ch pl) = pl_id pl"
  "pl_heap (chosen_base ch pl) q = (if ch = Some q then (pl_heap pl q)\<lparr>bk_sealedBytes := 0\<rparr> else pl_heap pl q)"
  by (auto simp: chosen_base_def split: option.split)

lemma pool_ok_choose:
  assumes "pool_ok pl" and "choose_backing pins rq prefer completed pl = (pl', chosen, n)"
  shows "pool_ok pl'"
proof -
  obtain gone where g: "pl' = fold drop_backing gone (chosen_base chosen (race pins pl))" "distinct gone"
    "set gone \<subseteq> set (scan_free rq completed pl)" by (rule choose_backingE [OF assms])
  show ?thesis unfolding g(1)
    by (rule pool_ok_fold_drop) (use g assms in \<open>auto simp: scan_free_props intro: pool_ok_chosen_base\<close>)
qed


section \<open>Acquire keeps the invariant\<close>

definition eligible :: "backing_request \<Rightarrow> backing \<Rightarrow> bool" where
  "eligible rq b \<longleftrightarrow> same_kind rq b \<and> unheld b"

lemma bound_longest_props:
  assumes "\<forall>q. bound = Some q \<longrightarrow> eligible rq (heap q)"
  shows "(\<forall>p. bound_longest rq heap ps bound = Some p \<longrightarrow>
      (p \<in> set ps \<or> bound = Some p) \<and> eligible rq (heap p) \<and>
      (\<forall>q. q \<in> set ps \<and> eligible rq (heap q) \<or> bound = Some q \<longrightarrow> bk_safeAt (heap p) \<le> bk_safeAt (heap q))) \<and>
    (bound_longest rq heap ps bound = None \<longrightarrow> bound = None \<and> (\<forall>q \<in> set ps. \<not> eligible rq (heap q)))"
  using assms
proof (induction ps arbitrary: bound)
  case Nil
  then show ?case by auto
next
  case (Cons x ps)
  show ?case
  proof (cases "eligible rq (heap x)")
    case False
    then have "bound_longest rq heap (x # ps) bound = bound_longest rq heap ps bound"
      by (simp add: eligible_def)
    with Cons.IH [of bound] Cons.prems False show ?thesis by auto
  next
    case True
    define b' where "b' = (case bound of None \<Rightarrow> Some x
      | Some q \<Rightarrow> if bk_safeAt (heap x) < bk_safeAt (heap q) then Some x else Some q)"
    have eq: "bound_longest rq heap (x # ps) bound = bound_longest rq heap ps b'"
      using True by (simp add: eligible_def b'_def)
    obtain y where y: "b' = Some y" by (cases b') (auto simp: b'_def split: option.splits if_splits)
    then have "eligible rq (heap y)" and le: "bk_safeAt (heap y) \<le> bk_safeAt (heap x)"
      "\<forall>z. bound = Some z \<longrightarrow> bk_safeAt (heap y) \<le> bk_safeAt (heap z)" "y = x \<or> bound = Some y"
      using True Cons.prems by (auto simp: b'_def not_less split: option.splits if_splits)
    have IH: "(\<forall>p. bound_longest rq heap ps b' = Some p \<longrightarrow>
        (p \<in> set ps \<or> b' = Some p) \<and> eligible rq (heap p) \<and>
        (\<forall>q. q \<in> set ps \<and> eligible rq (heap q) \<or> b' = Some q \<longrightarrow> bk_safeAt (heap p) \<le> bk_safeAt (heap q))) \<and>
      (bound_longest rq heap ps b' = None \<longrightarrow> b' = None \<and> (\<forall>q \<in> set ps. \<not> eligible rq (heap q)))"
      by (rule Cons.IH) (use y \<open>eligible rq (heap y)\<close> in auto)
    have found: "(p \<in> set (x # ps) \<or> bound = Some p) \<and> eligible rq (heap p) \<and>
        (\<forall>q. q \<in> set (x # ps) \<and> eligible rq (heap q) \<or> bound = Some q \<longrightarrow> bk_safeAt (heap p) \<le> bk_safeAt (heap q))"
      if r: "bound_longest rq heap ps b' = Some p" for p
    proof -
      from IH r y have p: "p \<in> set ps \<or> p = y" "eligible rq (heap p)"
        and min: "\<And>q. q \<in> set ps \<Longrightarrow> eligible rq (heap q) \<Longrightarrow> bk_safeAt (heap p) \<le> bk_safeAt (heap q)"
          "bk_safeAt (heap p) \<le> bk_safeAt (heap y)" by auto
      with le show ?thesis using order_trans [OF min(2)] by auto
    qed
    have "bound_longest rq heap ps b' \<noteq> None" using IH y by auto
    with found show ?thesis unfolding eq by blast
  qed
qed

lemma choose_bound_props:
  assumes "choose_bound pins rq pl = (pl', r)" and "lists_ok pl"
  shows "pl' = chosen_base r (race pins pl)"
    and "r = Some p \<Longrightarrow> p \<in> set (pl_free pl) \<and> eligible rq (pl_heap pl p) \<and> pins p = 0 \<and>
      (\<forall>q \<in> set (pl_free pl). eligible rq (pl_heap pl q) \<longrightarrow> bk_safeAt (pl_heap pl p) \<le> bk_safeAt (pl_heap pl q))"
    and "r = None \<Longrightarrow> q \<in> set (pl_free pl) \<Longrightarrow> eligible rq (pl_heap pl q) \<Longrightarrow>
      \<exists>p \<in> set (pl_free pl). eligible rq (pl_heap pl p) \<and> 0 < pins p"
proof -
  define b where "b = bound_longest rq (pl_heap pl) (pl_free pl) None"
  note bl = bound_longest_props [of None rq "pl_heap pl" "pl_free pl", folded b_def, simplified]
  have all: "pl' = chosen_base r (race pins pl) \<and>
    (r = Some p \<longrightarrow> p \<in> set (pl_free pl) \<and> eligible rq (pl_heap pl p) \<and> pins p = 0 \<and>
      (\<forall>q \<in> set (pl_free pl). eligible rq (pl_heap pl q) \<longrightarrow> bk_safeAt (pl_heap pl p) \<le> bk_safeAt (pl_heap pl q))) \<and>
    (r = None \<longrightarrow> q \<in> set (pl_free pl) \<longrightarrow> eligible rq (pl_heap pl q) \<longrightarrow>
      (\<exists>p \<in> set (pl_free pl). eligible rq (pl_heap pl p) \<and> 0 < pins p))"
  proof (cases b)
    case None
    with bl assms(1) show ?thesis by (auto simp: choose_bound_def b_def [symmetric] chosen_base_def)
  next
    case (Some c)
    with bl have c: "c \<in> set (pl_free pl)" "eligible rq (pl_heap pl c)" by auto
    have nr: "\<not> bk_retired (pl_heap pl c)" using lists_okD(3,5) [OF assms(2)] c(1) by blast
    have un: "bk_bindingConsumers (pl_heap pl c) = 0" using c(2) by (simp add: eligible_def unheld_def)
    have same: "upd_backing c (\<lambda>_. pl_heap (race pins pl) c) (race pins pl) = race pins pl"
      by (rule upd_backing_same)
    have id: "(pl_heap (race pins pl) c)\<lparr>bk_retired := True, bk_retired := False, bk_sealedBytes := 0\<rparr> =
        (pl_heap (race pins pl) c)\<lparr>bk_sealedBytes := 0\<rparr>"
      using nr by (cases "pl_heap pl c") simp
    show ?thesis
    proof (cases "pins c = 0")
      case True
      with assms(1) Some nr un id have "pl' = unseal c (race pins pl)" "r = Some c"
        by (auto simp: choose_bound_def b_def [symmetric] try_claim_eq unseal_def upd_backing_def Let_def)
      with bl Some True c show ?thesis by (auto simp: chosen_base_def)
    next
      case False
      moreover have "\<not> bk_retired (pl_heap (race pins pl) c)"
        "bk_bindingConsumers (pl_heap (race pins pl) c) = pins c" using nr un by simp_all
      ultimately have "pl' = race pins pl" "r = None"
        using assms(1) Some same
        by (auto simp: choose_bound_def b_def [symmetric] try_claim_eq Let_def simp del: race_simps(8))
      with c False show ?thesis by (auto simp: chosen_base_def)
    qed
  qed
  show "pl' = chosen_base r (race pins pl)"
    and "r = Some p \<Longrightarrow> p \<in> set (pl_free pl) \<and> eligible rq (pl_heap pl p) \<and> pins p = 0 \<and>
      (\<forall>q \<in> set (pl_free pl). eligible rq (pl_heap pl q) \<longrightarrow> bk_safeAt (pl_heap pl p) \<le> bk_safeAt (pl_heap pl q))"
    and "r = None \<Longrightarrow> q \<in> set (pl_free pl) \<Longrightarrow> eligible rq (pl_heap pl q) \<Longrightarrow>
      \<exists>p \<in> set (pl_free pl). eligible rq (pl_heap pl p) \<and> 0 < pins p"
    using all by blast+
qed

lemma word_less_Suc: "(w :: u64) + 1 \<noteq> 0 \<Longrightarrow> w < w + 1"
  by uint_arith

text \<open>Where the wake is armed: past the completed point, and no later than any candidate.\<close>

definition wake_at :: "u64 \<Rightarrow> backing \<Rightarrow> u64" where
  "wake_at completed b =
     (if bk_safeAt b > completed then bk_safeAt b
      else if bk_readbackPins b \<noteq> 0 then completed + 1 else 0)"

lemma wake_at_ahead: "wake_at completed b \<noteq> 0 \<Longrightarrow> completed < wake_at completed b"
  by (auto simp: wake_at_def word_less_Suc split: if_splits)

lemma arm_point_props:
  assumes "point = 0 \<or> completed < point"
  shows "(arm_point rq heap completed ps point = 0 \<or> completed < arm_point rq heap completed ps point) \<and>
    (point \<noteq> 0 \<longrightarrow> arm_point rq heap completed ps point \<noteq> 0 \<and> arm_point rq heap completed ps point \<le> point) \<and>
    (\<forall>p \<in> set ps. same_kind rq (heap p) \<and> wake_at completed (heap p) \<noteq> 0 \<longrightarrow>
       arm_point rq heap completed ps point \<noteq> 0 \<and>
       arm_point rq heap completed ps point \<le> wake_at completed (heap p))"
  using assms
proof (induction ps arbitrary: point)
  case (Cons x ps)
  show ?case
  proof (cases "same_kind rq (heap x)")
    case False
    then have "arm_point rq heap completed (x # ps) point = arm_point rq heap completed ps point" by simp
    with Cons.IH [OF Cons.prems] False show ?thesis by simp
  next
    case True
    define at where "at = wake_at completed (heap x)"
    define pt where "pt = (if at \<noteq> 0 \<and> (point = 0 \<or> at < point) then at else point)"
    have eq: "arm_point rq heap completed (x # ps) point = arm_point rq heap completed ps pt"
      using True by (simp add: at_def wake_at_def pt_def Let_def)
    have "pt = 0 \<or> completed < pt"
      using Cons.prems wake_at_ahead [of completed "heap x"] by (auto simp: pt_def at_def)
    from Cons.IH [OF this] show ?thesis
      unfolding eq using True by (auto simp: pt_def at_def [symmetric] split: if_splits)
  qed
qed simp


text \<open>The five ways an acquire ends.\<close>

definition class_full :: "backing_request \<Rightarrow> pool \<Rightarrow> bool" where
  "class_full rq pl \<longleftrightarrow>
     cf_maxPerClass (pl_config pl) \<noteq> 0 \<and> class_count rq pl \<ge> cf_maxPerClass (pl_config pl)"

definition note_exhausted :: "pool \<Rightarrow> pool" where
  "note_exhausted = upd_home (\<lambda>hm. emit Exhausted 1 (hm\<lparr>hm_exhausted := hm_exhausted hm + 1\<rparr>))"

lemma acquire_cases [consumes 1, case_names reused bound exhausted failed made]:
  fixes rq :: backing_request and "prefer" :: u64
  assumes "acquire alloc racing rq prefer (pl, ck) = (st', r)"
  obtains
    (reused) pl1 p n where
      "choose_backing (fst racing) rq prefer (ck_completed ck) (begin_acquire rq pl) = (pl1, Some p, n)"
      "st' = (upd_home emit_gauges (reuse p pl1), ck)" "r = Inr (Some p, no_info\<lparr>ai_released := n\<rparr>)"
  | (bound) pl1 n pl2 p where
      "choose_backing (fst racing) rq prefer (ck_completed ck) (begin_acquire rq pl) = (pl1, None, n)"
      "class_full rq pl1" "cf_reuseBound (pl_config pl1)"
      "choose_bound (snd racing) rq pl1 = (pl2, Some p)"
      "st' = (upd_home emit_gauges (reuse p pl2), ck)"
      "r = Inr (Some p, no_info\<lparr>ai_released := n, ai_writeAfter := bk_safeAt (pl_heap pl2 p)\<rparr>)"
  | (exhausted) pl1 n pl2 pl3 ck1 where
      "choose_backing (fst racing) rq prefer (ck_completed ck) (begin_acquire rq pl) = (pl1, None, n)"
      "class_full rq pl1" "cf_reuseBound (pl_config pl1) \<Longrightarrow> choose_bound (snd racing) rq pl1 = (pl2, None)"
      "\<not> cf_reuseBound (pl_config pl1) \<Longrightarrow> pl2 = pl1"
      "arm_availability rq (note_exhausted pl2, ck) = (pl3, ck1)"
      "st' = (upd_home emit_gauges pl3, ck1)" "r = Inr (None, no_info\<lparr>ai_released := n\<rparr>)"
  | (failed) pl1 n e where
      "choose_backing (fst racing) rq prefer (ck_completed ck) (begin_acquire rq pl) = (pl1, None, n)"
      "\<not> class_full rq pl1" "alloc (pl_next pl1) rq = Inl e" "st' = (pl1, ck)" "r = Inl e"
  | (made) pl1 n pl3 p where
      "choose_backing (fst racing) rq prefer (ck_completed ck) (begin_acquire rq pl) = (pl1, None, n)"
      "\<not> class_full rq pl1" "allocate alloc rq pl1 = (pl3, Inr p)"
      "st' = (upd_home emit_gauges pl3, ck)" "r = Inr (Some p, no_info\<lparr>ai_released := n, ai_allocated := True\<rparr>)"
proof -
  obtain pl1 chosen n where ch:
    "choose_backing (fst racing) rq prefer (ck_completed ck) (begin_acquire rq pl) = (pl1, chosen, n)"
    by (metis prod.exhaust)
  show thesis
  proof (cases chosen)
    case (Some p)
    with assms ch show thesis by (intro reused) (auto simp: acquire_def)
  next
    case None
    note rest = assms [unfolded acquire_def, simplified, unfolded ch None class_full_def [symmetric] Let_def]
    show thesis
    proof (cases "class_full rq pl1")
      case full: True
      show thesis
      proof (cases "cf_reuseBound (pl_config pl1)")
        case True
        obtain pl2 b where cb: "choose_bound (snd racing) rq pl1 = (pl2, b)" by (metis prod.exhaust)
        show thesis
        proof (cases b)
          case (Some p)
          with rest full True cb show thesis
            by (intro bound [of pl1 n pl2 p]) (auto simp: ch None class_full_def)
        next
          case none: None
          obtain pl3 ck1 where arm: "arm_availability rq (note_exhausted pl2, ck) = (pl3, ck1)" by (metis prod.exhaust)
          from rest full True cb none arm show thesis
            by (intro exhausted [of pl1 n pl2 pl3 ck1]) (auto simp: ch None class_full_def note_exhausted_def)
        qed
      next
        case False
        obtain pl3 ck1 where arm: "arm_availability rq (note_exhausted pl1, ck) = (pl3, ck1)" by (metis prod.exhaust)
        from rest full False arm show thesis
          by (intro exhausted [of pl1 n pl1 pl3 ck1]) (auto simp: ch None class_full_def note_exhausted_def)
      qed
    next
      case False
      show thesis
      proof (cases "alloc (pl_next pl1) rq")
        case (Inl e)
        with rest False show thesis
          by (intro failed [of pl1 n e]) (auto simp: ch None class_full_def allocate_def)
      next
        case (Inr al)
        then obtain pl3 where "allocate alloc rq pl1 = (pl3, Inr (pl_next pl1))" by (auto simp: allocate_def Let_def)
        with rest False show thesis
          by (intro made [of pl1 n pl3 "pl_next pl1"]) (auto simp: ch None class_full_def)
      qed
    qed
  qed
qed

lemma arm_availability_eq:
  assumes "arm_availability rq (pl, ck) = (pl', ck')"
  shows "\<exists>point. pl' = upd_home (\<lambda>hm. hm\<lparr>hm_armedAt := point\<rparr>) pl \<and> ck_completed ck' = ck_completed ck \<and>
    (point = hm_armedAt (pl_home pl) \<and> ck' = ck \<or>
     ck_completed ck < point \<and> ck_waiters ck' = (point, PoolArm (pl_id pl)) # ck_waiters ck) \<and>
    (hm_armedAt (pl_home pl) \<noteq> 0 \<longrightarrow> point \<le> hm_armedAt (pl_home pl)) \<and>
    (\<forall>p \<in> set (pl_free pl). same_kind rq (pl_heap pl p) \<and> wake_at (ck_completed ck) (pl_heap pl p) \<noteq> 0 \<longrightarrow>
       point \<noteq> 0 \<and> point \<le> wake_at (ck_completed ck) (pl_heap pl p))"
proof -
  define point where "point = arm_point rq (pl_heap pl) (ck_completed ck) (pl_free pl) 0"
  note ap = arm_point_props [of 0 "ck_completed ck" rq "pl_heap pl" "pl_free pl", folded point_def, simplified]
  show ?thesis
  proof (cases "point = 0 \<or> (hm_armedAt (pl_home pl) \<noteq> 0 \<and> hm_armedAt (pl_home pl) \<le> point)")
    case True
    with assms have "pl' = pl" "ck' = ck" by (auto simp: arm_availability_def Let_def point_def)
    with True ap show ?thesis
      by (intro exI [of _ "hm_armedAt (pl_home pl)"]) (auto simp: upd_home_def intro: order_trans)
  next
    case False
    with ap have ahead: "ck_completed ck < point" by auto
    then have "\<not> point \<le> ck_completed ck" by simp
    then have sub: "subscribe point (Some (PoolArm (pl_id pl))) ck =
        (ck\<lparr>ck_waiting := ck_waiting ck + 1, ck_waiters := (point, PoolArm (pl_id pl)) # ck_waiters ck\<rparr>, [])"
      by (simp add: subscribe_def reached_def Let_def)
    have "arm_availability rq (pl, ck) = (case subscribe point (Some (PoolArm (pl_id pl))) ck of
        (ck1, wakes) \<Rightarrow> (deliver wakes (upd_home (\<lambda>hm. hm\<lparr>hm_armedAt := point\<rparr>) pl), ck1))"
      using False by (auto simp: arm_availability_def Let_def point_def [symmetric])
    with assms have "pl' = upd_home (\<lambda>hm. hm\<lparr>hm_armedAt := point\<rparr>) pl"
      "ck' = ck\<lparr>ck_waiting := ck_waiting ck + 1, ck_waiters := (point, PoolArm (pl_id pl)) # ck_waiters ck\<rparr>"
      by (simp_all add: sub deliver_def)
    moreover have "hm_armedAt (pl_home pl) \<noteq> 0 \<longrightarrow> point \<le> hm_armedAt (pl_home pl)" using False by auto
    ultimately show ?thesis using ahead ap by (intro exI [of _ point]) auto
  qed
qed


lemma begin_acquire_simps:
  "pl_config (begin_acquire rq pl) = pl_config pl" "pl_heap (begin_acquire rq pl) = pl_heap pl"
  "pl_all (begin_acquire rq pl) = pl_all pl" "pl_id (begin_acquire rq pl) = pl_id pl"
  "pl_next (begin_acquire rq pl) = pl_next pl"
  "pl_active (begin_acquire rq pl) = set_active (key_of_request rq) (rq_capacityClass rq) (pl_active pl)"
  "hm_armedAt (pl_home (begin_acquire rq pl)) = hm_armedAt (pl_home pl)"
  "hm_events (pl_home (begin_acquire rq pl)) = hm_events (pl_home pl)"
  "hm_scanEvents (pl_home (begin_acquire rq pl)) = hm_events (pl_home pl)"
  "hm_waiters (pl_home (begin_acquire rq pl)) = hm_waiters (pl_home pl)"
  "hm_returned (pl_home (begin_acquire rq pl)) = []"
  by (simp_all add: begin_acquire_def take_returned_def upd_home_def Let_def)

lemma begin_acquire_free:
  "lists_ok pl \<Longrightarrow> set (pl_free (begin_acquire rq pl)) = {p \<in> set (pl_all pl). bk_leases (pl_heap pl p) = 0}"
  by (auto simp: begin_acquire_def take_returned_def upd_home_def Let_def lists_ok_def)

lemma choose_backing_frame:
  assumes "pool_ok pl" and "choose_backing pins rq prefer completed pl = (pl', chosen, n)"
  shows "pl_config pl' = pl_config pl" "pl_id pl' = pl_id pl" "pl_active pl' = pl_active pl"
    "pl_next pl' = pl_next pl" "hm_armedAt (pl_home pl') = hm_armedAt (pl_home pl)"
    "hm_events (pl_home pl') = hm_events (pl_home pl)" "hm_scanEvents (pl_home pl') = hm_scanEvents (pl_home pl)"
    "hm_waiters (pl_home pl') = hm_waiters (pl_home pl)" "hm_returned (pl_home pl') = hm_returned (pl_home pl)"
    "chosen = Some c \<Longrightarrow> c \<in> set (pl_free pl')"
    "chosen = Some c \<Longrightarrow> pl_heap pl' c = (pl_heap pl c)\<lparr>bk_sealedBytes := 0\<rparr>"
    "chosen = Some c \<Longrightarrow> c \<in> set (same_class_found rq prefer completed pl)"
    "p \<in> set (pl_all pl') \<Longrightarrow> chosen \<noteq> Some p \<Longrightarrow> pl_heap pl' p = pl_heap (race pins pl) p"
    "set (pl_all pl') \<subseteq> set (pl_all pl)" "set (pl_free pl') \<subseteq> set (pl_free pl)"
proof -
  obtain gone where g: "pl' = fold drop_backing gone (chosen_base chosen (race pins pl))"
    "set gone \<subseteq> set (scan_free rq completed pl)" "\<forall>p \<in> set gone. pins p = 0 \<and> chosen \<noteq> Some p"
    "\<forall>c. chosen = Some c \<longrightarrow> pins c = 0 \<and> (\<exists>ys qs. same_class_found rq prefer completed pl = ys @ c # qs)"
    by (rule choose_backingE [OF assms]) blast
  show "pl_config pl' = pl_config pl" "pl_id pl' = pl_id pl" "pl_active pl' = pl_active pl"
    "pl_next pl' = pl_next pl" "hm_armedAt (pl_home pl') = hm_armedAt (pl_home pl)"
    "hm_events (pl_home pl') = hm_events (pl_home pl)" "hm_scanEvents (pl_home pl') = hm_scanEvents (pl_home pl)"
    "hm_waiters (pl_home pl') = hm_waiters (pl_home pl)" "hm_returned (pl_home pl') = hm_returned (pl_home pl)"
    "set (pl_all pl') \<subseteq> set (pl_all pl)" "set (pl_free pl') \<subseteq> set (pl_free pl)"
    by (auto simp: g(1) fold_drop_simps)
  show "pl_heap pl' p = pl_heap (race pins pl) p" if "p \<in> set (pl_all pl')" "chosen \<noteq> Some p"
    using that by (simp add: g(1) fold_drop_simps fold_drop_heap)
  assume c: "chosen = Some c"
  then have cg: "c \<notin> set gone" using g(3) by auto
  show same: "c \<in> set (same_class_found rq prefer completed pl)" using g(4) c by fastforce
  then show "c \<in> set (pl_free pl')" using same_free cg by (auto simp: g(1) fold_drop_simps)
  show "pl_heap pl' c = (pl_heap pl c)\<lparr>bk_sealedBytes := 0\<rparr>"
    using cg c g(4) by (simp add: g(1) fold_drop_heap)
qed

lemma reuse_home [simp]:
  "hm_armedAt (pl_home (reuse p pl)) = hm_armedAt (pl_home pl)" "pl_id (reuse p pl) = pl_id pl"
  "pl_config (reuse p pl) = pl_config pl"
  by (simp_all add: pool_defs Let_def)

lemma gauges_simps [simp]:
  "hm_armedAt (pl_home (upd_home emit_gauges pl)) = hm_armedAt (pl_home pl)"
  "pl_id (upd_home emit_gauges pl) = pl_id pl" "pl_heap (upd_home emit_gauges pl) = pl_heap pl"
  "pl_all (upd_home emit_gauges pl) = pl_all pl" "pl_free (upd_home emit_gauges pl) = pl_free pl"
  "pl_config (upd_home emit_gauges pl) = pl_config pl"
  "hm_returned (pl_home (upd_home emit_gauges pl)) = hm_returned (pl_home pl)"
  "hm_events (pl_home (upd_home emit_gauges pl)) = hm_events (pl_home pl)"
  "hm_scanEvents (pl_home (upd_home emit_gauges pl)) = hm_scanEvents (pl_home pl)"
  "hm_waiters (pl_home (upd_home emit_gauges pl)) = hm_waiters (pl_home pl)"
  by (simp_all add: pool_defs)

lemma note_exhausted_simps [simp]:
  "hm_armedAt (pl_home (note_exhausted pl)) = hm_armedAt (pl_home pl)"
  "pl_id (note_exhausted pl) = pl_id pl" "pl_heap (note_exhausted pl) = pl_heap pl"
  "pl_all (note_exhausted pl) = pl_all pl" "pl_free (note_exhausted pl) = pl_free pl"
  "pl_config (note_exhausted pl) = pl_config pl"
  "hm_returned (pl_home (note_exhausted pl)) = hm_returned (pl_home pl)"
  "hm_events (pl_home (note_exhausted pl)) = hm_events (pl_home pl)"
  "hm_scanEvents (pl_home (note_exhausted pl)) = hm_scanEvents (pl_home pl)"
  "hm_waiters (pl_home (note_exhausted pl)) = hm_waiters (pl_home pl)"
  by (simp_all add: pool_defs note_exhausted_def)

lemma pool_ok_note_exhausted [intro]: "pool_ok pl \<Longrightarrow> pool_ok (note_exhausted pl)"
  by (erule pool_ok_view) (simp_all add: pool_defs note_exhausted_def)

lemma pool_ok_choose_bound:
  assumes "pool_ok pl" and "choose_bound pins rq pl = (pl', b)"
  shows "pool_ok pl'"
  unfolding choose_bound_props(1) [OF assms(2) pool_okD(1) [OF assms(1)]]
  using assms(1) by (auto intro: pool_ok_chosen_base)

definition state_ok :: "pool_state \<Rightarrow> bool" where
  "state_ok st \<longleftrightarrow> pool_ok (fst st) \<and> arm_ok st"

lemma allocate_frame:
  "allocate alloc rq pl = (pl', r) \<Longrightarrow> hm_armedAt (pl_home pl') = hm_armedAt (pl_home pl) \<and> pl_id pl' = pl_id pl"
  by (auto simp: allocate_def Let_def pool_defs split: sum.splits)

lemma acquire_ok:
  assumes "state_ok (pl, ck)" and "acquire alloc racing rq prefer (pl, ck) = (st', r)"
  shows "state_ok st'"
  using assms(2)
proof (cases rule: acquire_cases)
  have ok: "pool_ok pl" and arm: "arm_ok (pl, ck)" using assms(1) by (simp_all add: state_ok_def)
  note begin_ok = pool_ok_begin [OF ok, of rq]
  note chosen_ok = pool_ok_choose [OF begin_ok] and frame = choose_backing_frame [OF begin_ok]
  have arm': "arm_ok (pl', ck)" if "hm_armedAt (pl_home pl') = hm_armedAt (pl_home pl)" "pl_id pl' = pl_id pl" for pl'
    using arm that by (simp add: arm_ok_def)
  {
    case (reused pl1 p n)
    show ?thesis unfolding state_ok_def reused(2)
      using chosen_ok [OF reused(1)] frame(1,2,5,10) [OF reused(1)]
      by (auto simp: begin_acquire_simps intro!: pool_ok_gauges pool_ok_reuse arm')
  next
    case (bound pl1 n pl2 p)
    note ok1 = chosen_ok [OF bound(1)] and fr1 = frame [OF bound(1)]
    note cb = choose_bound_props [OF bound(4) pool_okD(1) [OF ok1]]
    from cb(2) have "p \<in> set (pl_free pl2)" by (simp add: cb(1))
    then show ?thesis unfolding state_ok_def bound(5)
      using pool_ok_choose_bound [OF ok1 bound(4)] fr1(2,5)
      by (auto simp: begin_acquire_simps cb(1) intro!: pool_ok_gauges pool_ok_reuse arm')
  next
    case (exhausted pl1 n pl2 pl3 ck1)
    note ok1 = chosen_ok [OF exhausted(1)] and fr1 = frame [OF exhausted(1)]
    have pl2: "pool_ok pl2 \<and> hm_armedAt (pl_home pl2) = hm_armedAt (pl_home pl) \<and> pl_id pl2 = pl_id pl"
    proof (cases "cf_reuseBound (pl_config pl1)")
      case True
      note cb = exhausted(3) [OF True]
      from pool_ok_choose_bound [OF ok1 cb] choose_bound_props(1) [OF cb pool_okD(1) [OF ok1]] fr1(2,5)
      show ?thesis by (simp add: begin_acquire_simps)
    next
      case False
      with exhausted(4) ok1 fr1(2,5) show ?thesis by (simp add: begin_acquire_simps)
    qed
    from arm_availability_eq [OF exhausted(5)] obtain point where
      pl3: "pl3 = upd_home (\<lambda>hm. hm\<lparr>hm_armedAt := point\<rparr>) (note_exhausted pl2)"
      and ck1: "ck_completed ck1 = ck_completed ck"
      "point = hm_armedAt (pl_home (note_exhausted pl2)) \<and> ck1 = ck \<or>
       ck_completed ck < point \<and> ck_waiters ck1 = (point, PoolArm (pl_id (note_exhausted pl2))) # ck_waiters ck"
      by blast
    have "pool_ok pl3" unfolding pl3
      by (rule pool_ok_view [OF pool_ok_note_exhausted]) (use pl2 in \<open>simp_all add: upd_home_def\<close>)
    moreover have "arm_ok (upd_home emit_gauges pl3, ck1)"
      using ck1 arm pl2 unfolding arm_ok_def by (auto simp: pl3 upd_home_def emit_gauges_def emit_def)
    ultimately show ?thesis unfolding state_ok_def exhausted(6) by auto
  next
    case (failed pl1 n e)
    show ?thesis unfolding state_ok_def failed(4)
      using chosen_ok [OF failed(1)] frame(2,5) [OF failed(1)] by (auto simp: begin_acquire_simps intro!: arm')
  next
    case (made pl1 n pl3 p)
    note fr1 = frame [OF made(1)]
    have "pool_ok pl3"
      by (rule pool_ok_allocate [OF chosen_ok [OF made(1)] made(3)])
        (use made(2) fr1(3) in \<open>auto simp: begin_acquire_simps set_active_keys class_full_def\<close>)
    then show ?thesis unfolding state_ok_def made(4)
      using allocate_frame [OF made(3)] fr1(2,5) by (auto simp: begin_acquire_simps intro!: arm')
  }
qed

end
