(* ===== verification/PoolWorld.thy ===== *)
theory PoolWorld
  imports PoolInv
begin

text \<open>
  The pool in its world: one acquirer (\<open>Acquire\<close>, \<open>Trim\<close>) and any number of other threads that
  copy, bind and drop leases, pin and unpin, fill a backing they hold, subscribe for
  availability and advance the clock. Each operation is one step; a step of the other threads
  carries the number of availability events it raises. The invariant of \<^verbatim>\<open>PoolInv.thy\<close> holds in
  every reachable state, and the lemmas here say what each step does to what a lease relies on.
\<close>

section \<open>The remaining operations keep the invariant\<close>

text \<open>What \<open>deliver\<close> does: one event for each of the pool's own wakes.\<close>

definition own_wakes :: "nat \<Rightarrow> (clock_wake waiter \<times> u64) list \<Rightarrow> u64 list" where
  "own_wakes ident wakes = map (fst \<circ> fst) (filter (\<lambda>w. snd (fst w) = PoolArm ident) wakes)"

lemma own_wakes_Cons:
  "own_wakes i (((point, w), c) # wakes) = (if w = PoolArm i then [point] else []) @ own_wakes i wakes"
  by (simp add: own_wakes_def)

lemma arm_wake_id [simp]: "pl_id (arm_wake point pl) = pl_id pl"
  by (simp add: arm_wake_def upd_home_def)

lemma deliver_Cons:
  "deliver (((point, w), c) # wakes) pl =
     deliver wakes (if w = PoolArm (pl_id pl) then arm_wake point pl else pl)"
  by (simp add: deliver_def)

lemma deliver_eq: "deliver wakes pl = fold arm_wake (own_wakes (pl_id pl) wakes) pl"
proof (induction wakes arbitrary: pl)
  case Nil
  show ?case by (simp add: deliver_def own_wakes_def)
next
  case (Cons x wakes)
  obtain point w c where x: "x = ((point, w), c)" by (metis prod.exhaust)
  show ?case unfolding x deliver_Cons own_wakes_Cons by (simp add: Cons.IH)
qed

lemma arm_wake_simps:
  "pl_heap (arm_wake point pl) = pl_heap pl" "pl_all (arm_wake point pl) = pl_all pl"
  "pl_free (arm_wake point pl) = pl_free pl" "pl_next (arm_wake point pl) = pl_next pl"
  "pl_config (arm_wake point pl) = pl_config pl"
  "hm_scanEvents (pl_home (arm_wake point pl)) = hm_scanEvents (pl_home pl)"
  "hm_returned (pl_home (arm_wake point pl)) = hm_returned (pl_home pl)"
  "hm_events (pl_home (arm_wake point pl)) = hm_events (pl_home pl) + 1"
  "hm_waiters (pl_home (arm_wake point pl)) = []"
  "hm_woken (pl_home (arm_wake point pl)) = hm_woken (pl_home pl) @ hm_waiters (pl_home pl)"
  "hm_armedAt (pl_home (arm_wake point pl)) =
     (if hm_armedAt (pl_home pl) = point then 0 else hm_armedAt (pl_home pl))"
  by (simp_all add: arm_wake_def upd_home_def)

lemma fold_arm_wake_simps:
  "pl_heap (fold arm_wake points pl) = pl_heap pl" "pl_all (fold arm_wake points pl) = pl_all pl"
  "pl_free (fold arm_wake points pl) = pl_free pl" "pl_next (fold arm_wake points pl) = pl_next pl"
  "pl_config (fold arm_wake points pl) = pl_config pl" "pl_id (fold arm_wake points pl) = pl_id pl"
  "hm_scanEvents (pl_home (fold arm_wake points pl)) = hm_scanEvents (pl_home pl)"
  "hm_returned (pl_home (fold arm_wake points pl)) = hm_returned (pl_home pl)"
  "hm_events (pl_home (fold arm_wake points pl)) = hm_events (pl_home pl) + of_nat (length points)"
  "hm_waiters (pl_home (fold arm_wake points pl)) = (if points = [] then hm_waiters (pl_home pl) else [])"
  "hm_woken (pl_home (fold arm_wake points pl)) =
     hm_woken (pl_home pl) @ (if points = [] then [] else hm_waiters (pl_home pl))"
  by (induction points arbitrary: pl) (simp_all add: arm_wake_simps)

lemma fold_arm_wake_armed:
  "hm_armedAt (pl_home (fold arm_wake points pl)) =
     (if hm_armedAt (pl_home pl) \<in> set points then 0 else hm_armedAt (pl_home pl))"
  by (induction points arbitrary: pl) (auto simp: arm_wake_simps)

text \<open>The points at which a clock that advances to \<open>c\<close> wakes the pool.\<close>

definition fired :: "u64 \<Rightarrow> pool_state \<Rightarrow> u64 list" where
  "fired c st =
     map fst (filter (\<lambda>w. fst w \<le> max (ck_completed (snd st)) c \<and> snd w = PoolArm (pl_id (fst st)))
       (ck_waiters (snd st)))"

lemma clock_advance_eq:
  "clock_advance c (pl, ck) =
     (fold arm_wake (fired c (pl, ck)) pl,
      ck\<lparr>ck_completed := max (ck_completed ck) c,
         ck_waiters := rev (filter (\<lambda>w. \<not> fst w \<le> max (ck_completed ck) c) (ck_waiters ck)),
         ck_waiting := ck_waiting ck - of_nat (length (filter (\<lambda>w. fst w \<le> max (ck_completed ck) c) (ck_waiters ck)))\<rparr>)"
proof -
  have raised: "(if ck_completed ck < c then ck\<lparr>ck_completed := c\<rparr> else ck) =
      ck\<lparr>ck_completed := max (ck_completed ck) c\<rparr>"
    by (cases ck) (auto simp: max_def)
  have own: "own_wakes (pl_id pl) (map (\<lambda>w. (w, m)) (filter (\<lambda>w. fst w \<le> m) ws)) =
      map fst (filter (\<lambda>w. fst w \<le> m \<and> snd w = PoolArm (pl_id pl)) ws)" for m ws
    by (induction ws) (auto simp: own_wakes_def)
  show ?thesis
    by (simp add: clock_advance_def advance_def raised run_reached_eq deliver_eq own fired_def)
qed

lemma clock_advance_ok:
  assumes "state_ok (pl, ck)"
  shows "state_ok (clock_advance c (pl, ck))"
proof -
  have "pool_ok (fold arm_wake (fired c (pl, ck)) pl)"
    by (rule fold_invariant [where Q = "\<lambda>_. True"]) (use assms in \<open>auto simp: state_ok_def\<close>)
  moreover have "arm_ok (clock_advance c (pl, ck))"
    using assms
    by (auto simp: state_ok_def arm_ok_def clock_advance_eq fold_arm_wake_armed fold_arm_wake_simps fired_def
        image_iff not_le split: if_splits)
  ultimately show ?thesis by (simp add: state_ok_def clock_advance_eq)
qed

lemma trim_split_subset: "set (trim_split spare cls heap ps n) \<subseteq> set ps"
  by (induction spare cls heap ps n rule: trim_split.induct) auto

lemma trim_split_distinct: "distinct ps \<Longrightarrow> distinct (trim_split spare cls heap ps n)"
proof (induction spare cls heap ps n rule: trim_split.induct)
  case (2 spare cls heap p ps n)
  then show ?case using trim_split_subset [of spare cls heap ps n] by auto
qed simp

lemma trim_active_props:
  "p \<in> set (trim_active completed pl active) \<Longrightarrow>
     p \<in> set (pl_free pl) \<and> key_of_backing (pl_heap pl p) = fst active \<and> reusable (pl_heap pl p) completed"
  unfolding trim_active_def using trim_split_subset by fastforce

lemma trim_active_distinct: "distinct (pl_free pl) \<Longrightarrow> distinct (trim_active completed pl active)"
  by (simp add: trim_active_def trim_split_distinct)

definition trim_found :: "u64 \<Rightarrow> pool \<Rightarrow> nat list" where
  "trim_found completed pl = concat (map (trim_active completed pl) (pl_active pl))"

lemma trim_found_props:
  "p \<in> set (trim_found completed pl) \<Longrightarrow>
     p \<in> set (pl_free pl) \<and> reusable (pl_heap pl p) completed"
  by (auto simp: trim_found_def dest: trim_active_props)

lemma trim_found_distinct:
  assumes "distinct (pl_free pl)" and "distinct (map fst (pl_active pl))"
  shows "distinct (trim_found completed pl)"
proof -
  have "distinct (concat (map (trim_active completed pl) as))" if "distinct (map fst as)" for as
    using that
  proof (induction as)
    case (Cons a as)
    have "fst b \<noteq> fst a" if "b \<in> set as" for b using Cons.prems imageI [OF that, of fst] by (metis distinct.simps(2) list.simps(9) set_map)
    then have "set (trim_active completed pl a) \<inter> set (concat (map (trim_active completed pl) as)) = {}"
      by (auto dest!: trim_active_props)
    with Cons trim_active_distinct [OF assms(1)] show ?case by simp
  qed simp
  then show ?thesis using assms(2) by (simp add: trim_found_def)
qed

lemma trim_eq:
  fixes pins :: "nat \<Rightarrow> nat" and ck :: "clock_wake clock"
  assumes "pool_ok pl"
  defines "pl1 \<equiv> take_returned pl"
  defines "gone \<equiv> filter (\<lambda>p. pins p = 0) (trim_found (ck_completed ck) pl1)"
  shows "trim pins (pl, ck) = (upd_home emit_gauges (fold drop_backing gone (race pins pl1)), ck)"
proof -
  have ok: "pool_ok pl1" using assms by auto
  note lst = lists_okD [OF pool_okD(1) [OF ok]]
  have "distinct (map fst (pl_active pl1))" using pool_okD(3) [OF ok] by (simp add: kinds_ok_def)
  then have dist: "distinct (trim_found (ck_completed ck) pl1)" by (rule trim_found_distinct [OF lst(2)])
  have nr: "\<forall>p \<in> set (trim_found (ck_completed ck) pl1). \<not> bk_retired (pl_heap (race pins pl1) p)"
    using lst(3,5) by (auto dest: trim_found_props)
  have "filter (\<lambda>p. bk_bindingConsumers (pl_heap (race pins pl1) p) = 0) (trim_found (ck_completed ck) pl1) = gone"
    unfolding gone_def using lst(3,5) by (intro filter_cong) (auto dest!: trim_found_props simp: reusable_def)
  then show ?thesis
    by (simp add: trim_def Let_def pl1_def [symmetric] trim_found_def [symmetric] release_all_eq [OF dist nr])
qed

lemma trim_ok:
  assumes "state_ok (pl, ck)"
  shows "state_ok (trim pins (pl, ck))"
proof -
  define pl1 where "pl1 = take_returned pl"
  have ok: "pool_ok pl1" using assms by (auto simp: state_ok_def pl1_def)
  have "distinct (map fst (pl_active pl1))" using pool_okD(3) [OF ok] by (simp add: kinds_ok_def)
  with lists_okD(2) [OF pool_okD(1) [OF ok]] have "distinct (trim_found (ck_completed ck) pl1)"
    by (intro trim_found_distinct)
  then have "pool_ok (fold drop_backing (filter (\<lambda>p. pins p = 0) (trim_found (ck_completed ck) pl1)) (race pins pl1))"
    using ok by (intro pool_ok_fold_drop) (auto dest: trim_found_props)
  moreover have "arm_ok (pl, ck)" using assms by (simp add: state_ok_def)
  then have "arm_ok (trim pins (pl, ck))"
    using assms by (simp add: trim_eq state_ok_def arm_ok_def fold_drop_simps) (simp add: take_returned_def Let_def)
  ultimately show ?thesis using assms by (auto simp: trim_eq state_ok_def pl1_def)
qed


subsection \<open>Leases and pins\<close>

lemma pool_ok_lease_take:
  assumes "pool_ok pl" and "bk_leases (pl_heap pl p) \<noteq> 0"
  shows "pool_ok (lease_take p pl)"
proof -
  note ok = pool_okD [OF assms(1)]
  have view: "bk_byteCapacity (pl_heap (lease_take p pl) q) = bk_byteCapacity (pl_heap pl q)"
    "bk_generation (pl_heap (lease_take p pl) q) = bk_generation (pl_heap pl q)"
    "key_of_backing (pl_heap (lease_take p pl) q) = key_of_backing (pl_heap pl q)"
    "bk_capacityClass (pl_heap (lease_take p pl) q) = bk_capacityClass (pl_heap pl q)"
    "bk_retired (pl_heap (lease_take p pl) q) = bk_retired (pl_heap pl q)"
    "bk_leases (pl_heap (lease_take p pl) q) = 0 \<longleftrightarrow> bk_leases (pl_heap pl q) = 0" for q
    using assms(2) by (simp_all add: pool_defs key_of_backing_def)
  have "lists_ok (lease_take p pl)"
    using ok(1) view unfolding lists_ok_def by (simp add: lease_take_def upd_backing_def)
  moreover have "counts_ok (lease_take p pl)"
    using ok(2) view(1) by (simp add: counts_ok_def) (simp add: pool_defs)
  moreover have "kinds_ok (lease_take p pl)"
    using ok(3) view by (simp add: kinds_ok_def class_count_def same_kind_def) (simp add: pool_defs)
  ultimately show ?thesis using ok(4) by (simp add: pool_ok_def pool_defs)
qed

lemma lease_reset_more:
  "bk_leases (pl_heap pl p) \<noteq> 1 \<Longrightarrow>
     lease_reset (Some p) pl = upd_backing p (\<lambda>b. b\<lparr>bk_leases := bk_leases b - 1\<rparr>) pl"
  by (simp add: lease_reset_def)

lemma lease_reset_last:
  "bk_leases (pl_heap pl p) = 1 \<Longrightarrow> \<not> hm_closed (pl_home pl) \<Longrightarrow>
     lease_reset (Some p) pl =
       upd_home (\<lambda>hm. event (hm\<lparr>hm_free := hm_free hm + 1, hm_returned := p # hm_returned hm\<rparr>))
         (upd_backing p (\<lambda>b. b\<lparr>bk_leases := 0\<rparr>) pl)"
  by (simp add: lease_reset_def returned_def Let_def upd_home_def upd_backing_def)

lemma pool_ok_lease_reset:
  assumes "pool_ok pl" and "bk_leases (pl_heap pl p) \<noteq> 0"
  shows "pool_ok (lease_reset (Some p) pl)"
proof -
  note ok = pool_okD [OF assms(1)]
  define pl' where "pl' = lease_reset (Some p) pl"
  have p: "p \<in> set (pl_all pl)" using ok(1) assms(2) by (auto simp: lists_ok_def)
  have view: "bk_byteCapacity (pl_heap pl' q) = bk_byteCapacity (pl_heap pl q)"
    "bk_generation (pl_heap pl' q) = bk_generation (pl_heap pl q)"
    "key_of_backing (pl_heap pl' q) = key_of_backing (pl_heap pl q)"
    "bk_capacityClass (pl_heap pl' q) = bk_capacityClass (pl_heap pl q)"
    "bk_retired (pl_heap pl' q) = bk_retired (pl_heap pl q)"
    "bk_leases (pl_heap pl' q) = bk_leases (pl_heap pl q) - (if q = p then 1 else 0)" for q
    by (auto simp: pl'_def lease_reset_def pool_defs key_of_backing_def Let_def)
  have frame: "pl_all pl' = pl_all pl" "pl_free pl' = pl_free pl" "pl_active pl' = pl_active pl"
    "pl_next pl' = pl_next pl" "pl_nextGeneration pl' = pl_nextGeneration pl" "pl_config pl' = pl_config pl"
    "hm_live (pl_home pl') = hm_live (pl_home pl)" "hm_bytes (pl_home pl') = hm_bytes (pl_home pl)"
    "hm_allocated (pl_home pl') = hm_allocated (pl_home pl)"
    "hm_released (pl_home pl') = hm_released (pl_home pl)" "hm_closed (pl_home pl') = hm_closed (pl_home pl)"
    by (auto simp: pl'_def lease_reset_def pool_defs returned_def Let_def)
  have "lists_ok pl' \<and> hm_free (pl_home pl') = of_nat (length (pl_free pl) + length (hm_returned (pl_home pl')))"
  proof (cases "bk_leases (pl_heap pl p) = 1")
    case True
    then have ret: "hm_returned (pl_home pl') = p # hm_returned (pl_home pl)"
      "hm_free (pl_home pl') = hm_free (pl_home pl) + 1"
      using ok(4) unfolding pl'_def by (simp_all add: lease_reset_last upd_home_def upd_backing_def)
    have new: "p \<notin> set (pl_free pl)" "p \<notin> set (hm_returned (pl_home pl))"
      by (rule lists_ok_leased [OF ok(1) assms(2)])+
    have "set (pl_free pl) \<union> set (hm_returned (pl_home pl')) = {q \<in> set (pl_all pl'). bk_leases (pl_heap pl' q) = 0}"
      using ok(1) True p by (auto simp: lists_ok_def frame ret(1) view(6) split: if_splits)
    then show ?thesis
      using ok(1,2) new by (simp add: lists_ok_def counts_ok_def frame ret view)
  next
    case False
    then have ret: "hm_returned (pl_home pl') = hm_returned (pl_home pl)" "hm_free (pl_home pl') = hm_free (pl_home pl)"
      by (simp_all add: pl'_def lease_reset_def upd_backing_def)
    have "bk_leases (pl_heap pl' q) = 0 \<longleftrightarrow> bk_leases (pl_heap pl q) = 0" for q
      using False assms(2) by (auto simp: view(6))
    then show ?thesis using ok(1,2) by (simp add: lists_ok_def counts_ok_def frame ret view(5))
  qed
  moreover from this have "counts_ok pl'" using ok(2) by (simp add: counts_ok_def frame view(1))
  moreover have "kinds_ok pl'"
    using ok(3) by (simp add: kinds_ok_def frame class_count_def same_kind_def view)
  ultimately show ?thesis using ok(4) by (simp add: pool_ok_def frame pl'_def [symmetric])
qed

text \<open>A backing's fields outside the invariant's view change freely.\<close>

lemma pool_ok_upd_view:
  assumes "pool_ok pl" and "\<And>b. same_view b (f b)"
  shows "pool_ok (upd_backing p f pl)"
  by (rule pool_ok_view [OF assms(1)]) (simp_all add: upd_backing_def assms(2))

lemma pool_ok_pin:
  assumes "pool_ok pl"
  shows "pool_ok (fst (pin_binding_consumer backing pl))"
proof (cases backing)
  case None
  with assms show ?thesis by (simp add: pin_binding_consumer_def)
next
  case (Some p)
  have "pool_ok (upd_backing p (\<lambda>b. b\<lparr>bk_bindingConsumers := bk_bindingConsumers b + 1\<rparr>) pl)"
    by (rule pool_ok_upd_view [OF assms]) (simp add: same_view_def key_of_backing_def)
  moreover from this have "pool_ok (upd_backing p (\<lambda>b. b\<lparr>bk_bindingConsumers := bk_bindingConsumers b - 1\<rparr>)
      (upd_backing p (\<lambda>b. b\<lparr>bk_bindingConsumers := bk_bindingConsumers b + 1\<rparr>) pl))"
    by (rule pool_ok_upd_view) (simp add: same_view_def key_of_backing_def)
  ultimately show ?thesis unfolding Some by (auto simp: pin_binding_consumer_def Let_def)
qed

lemma pool_ok_unpin:
  assumes "pool_ok pl"
  shows "pool_ok (unpin p pl)"
proof -
  have "pool_ok (upd_backing p (\<lambda>b. b\<lparr>bk_bindingConsumers := bk_bindingConsumers b - 1\<rparr>) pl)"
    by (rule pool_ok_upd_view [OF assms]) (simp add: same_view_def key_of_backing_def)
  then show ?thesis by (auto simp: unpin_def Let_def)
qed

lemma pool_ok_bind: "pool_ok pl \<Longrightarrow> pool_ok (lease_bind lease safeAt pl)"
  by (auto simp: lease_bind_def same_view_def key_of_backing_def split: option.split intro!: pool_ok_upd_view)

lemma pool_ok_subscribe: "pool_ok pl \<Longrightarrow> pool_ok (subscribe_availability identity wake pl)"
  by (erule pool_ok_view) (simp_all add: subscribe_availability_def emit_def Let_def split: option.split)

section \<open>The steps\<close>

text \<open>
  A step of the other threads, with the availability events it raises. A lease is copied, bound,
  dropped, pinned for a readback or filled by one who holds it; anyone with the backing pins
  it; a pin is dropped by one who holds it.
\<close>

inductive other_step :: "pool_state \<Rightarrow> nat \<Rightarrow> pool_state \<Rightarrow> bool" where
  copy: "bk_leases (pl_heap pl p) \<noteq> 0 \<Longrightarrow> other_step (pl, ck) 0 (lease_take p pl, ck)"
| reset: "bk_leases (pl_heap pl p) \<noteq> 0 \<Longrightarrow>
    other_step (pl, ck) (if bk_leases (pl_heap pl p) = 1 then 1 else 0) (lease_reset (Some p) pl, ck)"
| bind: "bk_leases (pl_heap pl p) \<noteq> 0 \<Longrightarrow> other_step (pl, ck) 0 (lease_bind (Some p) safeAt pl, ck)"
| fill: "bk_leases (pl_heap pl p) \<noteq> 0 \<Longrightarrow>
    other_step (pl, ck) 0
      (upd_backing p (\<lambda>b. b\<lparr>bk_contentEpoch := epoch, bk_sealedBytes := sealed, bk_image := img\<rparr>) pl, ck)"
| readback: "bk_leases (pl_heap pl p) \<noteq> 0 \<Longrightarrow>
    other_step (pl, ck) 0 (upd_backing p (\<lambda>b. b\<lparr>bk_readbackPins := bk_readbackPins b + 1\<rparr>) pl, ck)"
| readback_done: "bk_readbackPins (pl_heap pl p) \<noteq> 0 \<Longrightarrow>
    other_step (pl, ck) 0 (upd_backing p (\<lambda>b. b\<lparr>bk_readbackPins := bk_readbackPins b - 1\<rparr>) pl, ck)"
| pin: "p < pl_next pl \<Longrightarrow>
    other_step (pl, ck) (if bk_retired (pl_heap pl p) \<and> bk_bindingConsumers (pl_heap pl p) = 0 then 1 else 0)
      (fst (pin_binding_consumer (Some p) pl), ck)"
| unpin: "bk_bindingConsumers (pl_heap pl p) \<noteq> 0 \<Longrightarrow>
    other_step (pl, ck) (if bk_bindingConsumers (pl_heap pl p) = 1 then 1 else 0) (unpin p pl, ck)"
| wait: "other_step (pl, ck) (if hm_events (pl_home pl) \<noteq> hm_scanEvents (pl_home pl) then 1 else 0)
    (subscribe_availability identity (Some w) pl, ck)"
| advance: "other_step (pl, ck) (length (fired c (pl, ck))) (clock_advance c (pl, ck))"
| host_wait: "other_step (pl, ck) 0 (pl, fst (subscribe point (Some (HostWake h)) ck))"

text \<open>A step of the acquirer, with the pins other threads take while it runs.\<close>

inductive acquirer_step :: "pool_state \<Rightarrow> pool_state \<Rightarrow> bool" where
  acquire: "acquirer_step st (fst (acquire alloc racing rq prefer st))"
| trim: "acquirer_step st (trim pins st)"

inductive pool_step :: "pool_state \<Rightarrow> pool_state \<Rightarrow> bool" where
  other: "other_step st n st' \<Longrightarrow> pool_step st st'"
| acquirer: "acquirer_step st st' \<Longrightarrow> pool_step st st'"

inductive pool_reachable :: "pool_state \<Rightarrow> bool" where
  start: "pool_reachable (new_pool ident config retire, new_clock)"
| step: "pool_reachable st \<Longrightarrow> pool_step st st' \<Longrightarrow> pool_reachable st'"

inductive_cases other_stepE: "other_step st n st'"
inductive_cases acquirer_stepE: "acquirer_step st st'"

lemma new_pool_ok: "state_ok (new_pool ident config retire, new_clock)"
  by (simp add: state_ok_def pool_ok_def arm_ok_def new_pool_def new_home_def lists_ok_def counts_ok_def
      kinds_ok_def class_count_def blank_backing_def)

lemma arm_ok_same:
  "arm_ok (pl, ck) \<Longrightarrow> hm_armedAt (pl_home pl') = hm_armedAt (pl_home pl) \<Longrightarrow> pl_id pl' = pl_id pl \<Longrightarrow>
    arm_ok (pl', ck)"
  by (simp add: arm_ok_def)

lemma subscribe_host:
  "ck_completed (fst (subscribe point (Some w) ck)) = ck_completed ck \<and>
   set (ck_waiters ck) \<subseteq> set (ck_waiters (fst (subscribe point (Some w) ck)))"
  by (auto simp: subscribe_def reached_def Let_def)

lemma other_step_ok: "other_step st n st' \<Longrightarrow> state_ok st \<Longrightarrow> state_ok st'"
proof (induction rule: other_step.induct)
  case (advance pl ck c)
  then show ?case by (intro clock_advance_ok)
next
  case (host_wait pl ck point h)
  then show ?case using subscribe_host [of point "HostWake h" ck] by (auto simp: state_ok_def arm_ok_def)
next
  case (reset pl p ck)
  then show ?case
    by (auto simp: state_ok_def intro!: pool_ok_lease_reset elim!: arm_ok_same)
      (auto simp: lease_reset_def pool_defs returned_def Let_def)
next
  case (pin p pl ck)
  have "hm_armedAt (pl_home (fst (pin_binding_consumer (Some p) pl))) = hm_armedAt (pl_home pl)"
    "pl_id (fst (pin_binding_consumer (Some p) pl)) = pl_id pl"
    by (auto simp: pin_binding_consumer_def Let_def upd_home_def upd_backing_def)
  with pin pool_ok_pin [of pl "Some p"] show ?case by (auto simp: state_ok_def elim!: arm_ok_same)
next
  case (unpin pl p ck)
  have "hm_armedAt (pl_home (unpin p pl)) = hm_armedAt (pl_home pl)" "pl_id (unpin p pl) = pl_id pl"
    by (auto simp: unpin_def Let_def upd_home_def upd_backing_def)
  with unpin pool_ok_unpin [of pl p] show ?case by (auto simp: state_ok_def elim!: arm_ok_same)
next
  case (wait pl ck identity w)
  then show ?case
    by (auto simp: state_ok_def intro!: pool_ok_subscribe elim!: arm_ok_same)
      (auto simp: subscribe_availability_def Let_def emit_def)
qed (auto simp: state_ok_def same_view_def key_of_backing_def lease_take_def [symmetric]
    intro!: pool_ok_lease_take pool_ok_bind pool_ok_upd_view elim!: arm_ok_same, auto simp: pool_defs lease_bind_def)

lemma acquirer_step_ok: "acquirer_step st st' \<Longrightarrow> state_ok st \<Longrightarrow> state_ok st'"
  by (induction rule: acquirer_step.induct) (metis acquire_ok prod.exhaust_sel, metis trim_ok prod.exhaust_sel)

lemma pool_step_ok: "pool_step st st' \<Longrightarrow> state_ok st \<Longrightarrow> state_ok st'"
  by (induction rule: pool_step.induct) (blast intro: other_step_ok acquirer_step_ok)+

lemma pool_reachable_ok: "pool_reachable st \<Longrightarrow> state_ok st"
  by (induction rule: pool_reachable.induct) (auto intro: new_pool_ok pool_step_ok)

end
