(* ===== verification/PoolRuns.thy ===== *)
theory PoolRuns
  imports PoolWorld
begin

text \<open>
  What the steps of \<^verbatim>\<open>PoolWorld.thy\<close> do to the backings and to the availability waiters:
  which fields an acquire may change, that a safe point never goes down, that the waiters are
  woken by every event, and that an exhausted class stays \<open>starved\<close> until an event.
\<close>

section \<open>What an acquire changes\<close>

lemma drop_backing_fields:
  "bk_safeAt (pl_heap (drop_backing p pl) q) = bk_safeAt (pl_heap pl q)"
  "bk_leases (pl_heap (drop_backing p pl) q) = bk_leases (pl_heap pl q)"
  "bk_readbackPins (pl_heap (drop_backing p pl) q) = bk_readbackPins (pl_heap pl q)"
  "bk_bindingConsumers (pl_heap (drop_backing p pl) q) = bk_bindingConsumers (pl_heap pl q)"
  "bk_contentEpoch (pl_heap (drop_backing p pl) q) = bk_contentEpoch (pl_heap pl q)"
  "bk_sealedBytes (pl_heap (drop_backing p pl) q) = bk_sealedBytes (pl_heap pl q)"
  "bk_image (pl_heap (drop_backing p pl) q) = bk_image (pl_heap pl q)"
  "bk_byteCapacity (pl_heap (drop_backing p pl) q) = bk_byteCapacity (pl_heap pl q)"
  "bk_generation (pl_heap (drop_backing p pl) q) = bk_generation (pl_heap pl q)"
  "same_kind rq (pl_heap (drop_backing p pl) q) = same_kind rq (pl_heap pl q)"
  by (auto simp: drop_backing_def release_backing_def Let_def pool_defs same_kind_def key_of_backing_def
      split: bool.split option.split)

lemma fold_drop_fields:
  "bk_safeAt (pl_heap (fold drop_backing ps pl) q) = bk_safeAt (pl_heap pl q)"
  "bk_leases (pl_heap (fold drop_backing ps pl) q) = bk_leases (pl_heap pl q)"
  "bk_readbackPins (pl_heap (fold drop_backing ps pl) q) = bk_readbackPins (pl_heap pl q)"
  "bk_bindingConsumers (pl_heap (fold drop_backing ps pl) q) = bk_bindingConsumers (pl_heap pl q)"
  "bk_contentEpoch (pl_heap (fold drop_backing ps pl) q) = bk_contentEpoch (pl_heap pl q)"
  "bk_sealedBytes (pl_heap (fold drop_backing ps pl) q) = bk_sealedBytes (pl_heap pl q)"
  "bk_image (pl_heap (fold drop_backing ps pl) q) = bk_image (pl_heap pl q)"
  "bk_byteCapacity (pl_heap (fold drop_backing ps pl) q) = bk_byteCapacity (pl_heap pl q)"
  "bk_generation (pl_heap (fold drop_backing ps pl) q) = bk_generation (pl_heap pl q)"
  "same_kind rq (pl_heap (fold drop_backing ps pl) q) = same_kind rq (pl_heap pl q)"
  by (induction ps arbitrary: pl) (simp_all add: drop_backing_fields)

text \<open>The fields of every backing that the choice of one leaves, and what it adds to the pins.\<close>

definition same_hold :: "backing \<Rightarrow> backing \<Rightarrow> bool" where
  "same_hold b c \<longleftrightarrow>
     bk_safeAt b = bk_safeAt c \<and> bk_leases b = bk_leases c \<and> bk_readbackPins b = bk_readbackPins c \<and>
     bk_contentEpoch b = bk_contentEpoch c \<and> bk_bindingConsumers b \<le> bk_bindingConsumers c \<and>
     key_of_backing b = key_of_backing c \<and> bk_capacityClass b = bk_capacityClass c \<and>
     bk_image b = bk_image c \<and> bk_byteCapacity b = bk_byteCapacity c \<and> bk_generation b = bk_generation c \<and>
     (bk_buffer c = bk_buffer b \<or> bk_buffer c = None)"

lemma same_hold_kind: "same_hold b c \<Longrightarrow> same_kind rq b = same_kind rq c"
  by (simp add: same_hold_def same_kind_def)

lemma drop_backing_kind:
  "key_of_backing (pl_heap (drop_backing p pl) q) = key_of_backing (pl_heap pl q)"
  "bk_capacityClass (pl_heap (drop_backing p pl) q) = bk_capacityClass (pl_heap pl q)"
  by (auto simp: drop_backing_def release_backing_def Let_def pool_defs key_of_backing_def
      split: bool.split option.split)

lemma fold_drop_kind:
  "key_of_backing (pl_heap (fold drop_backing ps pl) q) = key_of_backing (pl_heap pl q)"
  "bk_capacityClass (pl_heap (fold drop_backing ps pl) q) = bk_capacityClass (pl_heap pl q)"
  by (induction ps arbitrary: pl) (simp_all add: drop_backing_kind)

lemma fold_drop_buffer:
  "bk_buffer (pl_heap (fold drop_backing ps pl) q) = bk_buffer (pl_heap pl q) \<or>
   bk_buffer (pl_heap (fold drop_backing ps pl) q) = None"
proof (induction ps arbitrary: pl)
  case (Cons p ps)
  have "bk_buffer (pl_heap (drop_backing p pl) q) = bk_buffer (pl_heap pl q) \<or>
      bk_buffer (pl_heap (drop_backing p pl) q) = None"
    by (auto simp: drop_backing_def release_backing_def Let_def pool_defs split: bool.split option.split)
  with Cons [of "drop_backing p pl"] show ?case by auto
qed simp

lemma same_hold_dropped:
  "same_hold (pl_heap pl q) (pl_heap (fold drop_backing gone (chosen_base ch (race pins pl))) q)"
proof -
  have "same_hold (pl_heap pl q) (pl_heap (chosen_base ch (race pins pl)) q)" by (simp add: same_hold_def key_of_backing_def)
  with fold_drop_buffer [of gone "chosen_base ch (race pins pl)" q] show ?thesis
    unfolding same_hold_def fold_drop_fields fold_drop_kind by auto
qed

lemma choose_backing_hold:
  assumes "pool_ok pl" and "choose_backing pins rq prefer completed pl = (pl', chosen, n)"
  shows "same_hold (pl_heap pl q) (pl_heap pl' q)"
    and "\<not> bk_retired (pl_heap pl q) \<Longrightarrow>
      bk_bindingConsumers (pl_heap pl' q) = bk_bindingConsumers (pl_heap pl q) + pins q"
proof -
  obtain gone where g: "pl' = fold drop_backing gone (chosen_base chosen (race pins pl))"
    by (rule choose_backingE [OF assms])
  show "same_hold (pl_heap pl q) (pl_heap pl' q)" unfolding g by (rule same_hold_dropped)
  show "bk_bindingConsumers (pl_heap pl' q) = bk_bindingConsumers (pl_heap pl q) + pins q"
    if "\<not> bk_retired (pl_heap pl q)"
    unfolding g fold_drop_fields using that by simp
qed

text \<open>Which backing an acquire's result grants.\<close>

definition granted :: "(nat option \<times> acquire_info) result \<Rightarrow> nat option" where
  "granted r = (case r of Inl _ \<Rightarrow> None | Inr (lease, _) \<Rightarrow> lease)"

definition leased_once :: "nat option \<Rightarrow> nat \<Rightarrow> backing \<Rightarrow> backing" where
  "leased_once lease q b = (if lease = Some q then b\<lparr>bk_leases := bk_leases b + 1\<rparr> else b)"

lemma leased_once_None [simp]: "leased_once None q b = b"
  by (simp add: leased_once_def)

lemma reuse_heap: "pl_heap (reuse p pl) q = leased_once (Some p) q (pl_heap pl q)"
  by (simp add: pool_defs Let_def leased_once_def)

lemma same_hold_leased: "same_hold b c \<Longrightarrow> same_hold (leased_once l q b) (leased_once l q c)"
  by (auto simp: same_hold_def leased_once_def key_of_backing_def)

lemma same_hold_trans: "same_hold b c \<Longrightarrow> same_hold c d \<Longrightarrow> same_hold b d"
  by (auto simp: same_hold_def)

lemma same_hold_base: "same_hold (pl_heap pl q) (pl_heap (chosen_base ch (race pins pl)) q)"
  by (simp add: same_hold_def key_of_backing_def)

lemma choose_bound_hold:
  "choose_bound pins rq pl = (pl', b) \<Longrightarrow> lists_ok pl \<Longrightarrow> same_hold (pl_heap pl q) (pl_heap pl' q)"
  by (metis choose_bound_props(1) same_hold_base)

lemma arm_availability_frame:
  assumes "arm_availability rq (pl, ck) = (pl', ck')"
  shows "pl_heap pl' = pl_heap pl" "pl_all pl' = pl_all pl" "pl_free pl' = pl_free pl" "pl_id pl' = pl_id pl"
    "pl_next pl' = pl_next pl" "ck_completed ck' = ck_completed ck" "pl_config pl' = pl_config pl"
    "hm_events (pl_home pl') = hm_events (pl_home pl)" "hm_scanEvents (pl_home pl') = hm_scanEvents (pl_home pl)"
    "hm_waiters (pl_home pl') = hm_waiters (pl_home pl)" "hm_woken (pl_home pl') = hm_woken (pl_home pl)"
    "hm_returned (pl_home pl') = hm_returned (pl_home pl)"
    "hm_armedAt (pl_home pl) \<noteq> 0 \<Longrightarrow> arm_ok (pl, ck) \<Longrightarrow>
       hm_armedAt (pl_home pl') \<noteq> 0 \<and> hm_armedAt (pl_home pl') \<le> hm_armedAt (pl_home pl) \<and>
       ck_completed ck < hm_armedAt (pl_home pl')"
  using arm_availability_eq [OF assms] by (auto simp: upd_home_def arm_ok_def)

lemma note_exhausted_more [simp]:
  "hm_woken (pl_home (note_exhausted pl)) = hm_woken (pl_home pl)" "pl_next (note_exhausted pl) = pl_next pl"
  by (simp_all add: note_exhausted_def pool_defs)

lemma gauges_more [simp]: "pl_next (upd_home emit_gauges pl) = pl_next pl"
  by (simp add: pool_defs)

lemma choose_backing_woken:
  assumes "pool_ok pl" and "choose_backing pins rq prefer completed pl = (pl', chosen, n)"
  shows "hm_woken (pl_home pl') = hm_woken (pl_home pl)"
proof -
  obtain gone where g: "pl' = fold drop_backing gone (chosen_base chosen (race pins pl))"
    by (rule choose_backingE [OF assms])
  show ?thesis unfolding g by (simp add: fold_drop_simps)
qed

lemma begin_acquire_woken [simp]: "hm_woken (pl_home (begin_acquire rq pl)) = hm_woken (pl_home pl)"
  by (simp add: begin_acquire_def take_returned_def upd_home_def Let_def)

text \<open>What an acquire leaves of the home: no event, the scan's count taken at its start.\<close>

definition same_wakes :: "home \<Rightarrow> home \<Rightarrow> bool" where
  "same_wakes h k \<longleftrightarrow>
     hm_events k = hm_events h \<and> hm_waiters k = hm_waiters h \<and> hm_woken k = hm_woken h \<and>
     hm_scanEvents k = hm_events h"

lemma reuse_wakes: "same_wakes h (pl_home pl) \<Longrightarrow> same_wakes h (pl_home (reuse p pl))"
  by (simp add: same_wakes_def pool_defs Let_def)

lemma gauges_wakes: "same_wakes h (pl_home (upd_home emit_gauges pl)) = same_wakes h (pl_home pl)"
  by (simp add: same_wakes_def pool_defs)

lemma choose_wakes:
  assumes "pool_ok pl" and "choose_backing pins rq prefer completed (begin_acquire rq pl) = (pl', chosen, n)"
  shows "same_wakes (pl_home pl) (pl_home pl')"
  using choose_backing_frame(6,7,8) [OF pool_ok_begin [OF assms(1)] assms(2)]
    choose_backing_woken [OF pool_ok_begin [OF assms(1)] assms(2)]
  by (simp add: same_wakes_def begin_acquire_simps)

lemma allocate_wakes:
  "allocate alloc rq pl = (pl', r) \<Longrightarrow> same_wakes h (pl_home pl) \<Longrightarrow> same_wakes h (pl_home pl')"
  by (auto simp: allocate_def same_wakes_def Let_def pool_defs split: sum.splits)

lemma allocate_heap:
  "allocate alloc rq pl = (pl', r) \<Longrightarrow> q < pl_next pl \<Longrightarrow> pl_heap pl' q = pl_heap pl q"
  by (auto simp: allocate_def Let_def pool_defs split: sum.splits)

lemma acquire_effect:
  assumes "state_ok (pl, ck)" and "acquire alloc racing rq prefer (pl, ck) = ((pl', ck'), r)"
  shows "same_wakes (pl_home pl) (pl_home pl') \<and> ck_completed ck' = ck_completed ck \<and>
    (q < pl_next pl \<longrightarrow> same_hold (leased_once (granted r) q (pl_heap pl q)) (pl_heap pl' q))"
  using assms(2)
proof (cases rule: acquire_cases)
  have ok: "pool_ok pl" using assms(1) by (simp add: state_ok_def)
  note begin_ok = pool_ok_begin [OF ok, of rq]
  note hold = choose_backing_hold(1) [OF begin_ok, unfolded begin_acquire_simps]
  note wakes = choose_wakes [OF ok] and ok1 = pool_ok_choose [OF begin_ok]
  note frame = choose_backing_frame [OF begin_ok]
  {
    case (reused pl1 p n)
    from hold [OF reused(1), of q] have "same_hold (leased_once (Some p) q (pl_heap pl q)) (pl_heap (reuse p pl1) q)"
      unfolding reuse_heap by (rule same_hold_leased)
    with reused(2,3) wakes [OF reused(1)] show ?thesis
      by (simp_all add: granted_def gauges_wakes reuse_wakes)
  next
    case (bound pl1 n pl2 p)
    note lok = pool_okD(1) [OF ok1 [OF bound(1)]]
    have home: "pl_home pl2 = pl_home pl1" by (simp add: choose_bound_props(1) [OF bound(4) lok])
    from same_hold_trans [OF hold [OF bound(1)] choose_bound_hold [OF bound(4) lok], of q]
    have "same_hold (leased_once (Some p) q (pl_heap pl q)) (pl_heap (reuse p pl2) q)"
      unfolding reuse_heap by (rule same_hold_leased)
    with bound(5,6) wakes [OF bound(1)] show ?thesis
      by (simp_all add: granted_def gauges_wakes reuse_wakes home)
  next
    case (exhausted pl1 n pl2 pl3 ck1)
    note lok = pool_okD(1) [OF ok1 [OF exhausted(1)]]
    have pl2: "pl_home pl2 = pl_home pl1 \<and> same_hold (pl_heap pl1 q) (pl_heap pl2 q)"
    proof (cases "cf_reuseBound (pl_config pl1)")
      case True
      from choose_bound_props(1) [OF exhausted(3) [OF True] lok] choose_bound_hold [OF exhausted(3) [OF True] lok]
      show ?thesis by simp
    next
      case False
      with exhausted(4) show ?thesis by (simp add: same_hold_def)
    qed
    note arm = arm_availability_frame [OF exhausted(5)]
    from pl2 same_hold_trans [OF hold [OF exhausted(1)]] have "same_hold (pl_heap pl q) (pl_heap pl3 q)"
      by (simp add: arm)
    moreover have "same_wakes (pl_home pl) (pl_home pl3)"
      using wakes [OF exhausted(1)] pl2 by (simp add: same_wakes_def arm)
    ultimately show ?thesis using exhausted(6,7) by (simp add: granted_def gauges_wakes arm)
  next
    case (failed pl1 n e)
    with hold [OF failed(1)] wakes [OF failed(1)] show ?thesis
      by (simp_all add: granted_def)
  next
    case (made pl1 n pl3 p)
    have next1: "pl_next pl1 = pl_next pl" using frame(4) [OF made(1)] by (simp add: begin_acquire_simps)
    moreover have "p = pl_next pl1" using made(3) by (auto simp: allocate_def Let_def split: sum.splits)
    ultimately show ?thesis
      using made(4,5) hold [OF made(1), of q] allocate_wakes [OF made(3) wakes [OF made(1)]]
        allocate_heap [OF made(3), of q]
      by (simp_all add: granted_def gauges_wakes leased_once_def)
  }
qed


lemmas acquire_wakes = acquire_effect [THEN conjunct1]
  and acquire_completed = acquire_effect [THEN conjunct2, THEN conjunct1]
  and acquire_hold = acquire_effect [THEN conjunct2, THEN conjunct2, rule_format]

section \<open>An exhausted class is starved until an event\<close>

text \<open>
  Every backing of the kind is leased, or a binding consumer's, or an armed wake comes no later
  than the point that frees it (for a readback, at the next completed point).
\<close>

definition starved :: "backing_request \<Rightarrow> pool_state \<Rightarrow> bool" where
  "starved rq st \<longleftrightarrow>
     (\<forall>q \<in> set (pl_all (fst st)). same_kind rq (pl_heap (fst st) q) \<longrightarrow>
        bk_leases (pl_heap (fst st) q) \<noteq> 0 \<or> bk_bindingConsumers (pl_heap (fst st) q) \<noteq> 0 \<or>
        (hm_armedAt (pl_home (fst st)) \<noteq> 0 \<and>
         (hm_armedAt (pl_home (fst st)) \<le> bk_safeAt (pl_heap (fst st) q) \<or>
          hm_armedAt (pl_home (fst st)) = ck_completed (snd st) + 1)))"

lemma word_le_Suc_eq: "(w :: u64) < v \<Longrightarrow> v \<le> w + 1 \<Longrightarrow> v = w + 1"
  by uint_arith

lemma starvedI:
  assumes "\<And>q. q \<in> set (pl_all pl) \<Longrightarrow> same_kind rq (pl_heap pl q) \<Longrightarrow> bk_leases (pl_heap pl q) = 0 \<Longrightarrow>
      bk_bindingConsumers (pl_heap pl q) = 0 \<Longrightarrow> hm_armedAt (pl_home pl) \<noteq> 0 \<and>
         (hm_armedAt (pl_home pl) \<le> bk_safeAt (pl_heap pl q) \<or> hm_armedAt (pl_home pl) = ck_completed ck + 1)"
  shows "starved rq (pl, ck)"
  using assms by (auto simp: starved_def)

lemma starvedD:
  "starved rq (pl, ck) \<Longrightarrow> q \<in> set (pl_all pl) \<Longrightarrow> same_kind rq (pl_heap pl q) \<Longrightarrow> bk_leases (pl_heap pl q) = 0 \<Longrightarrow>
    bk_bindingConsumers (pl_heap pl q) = 0 \<Longrightarrow> hm_armedAt (pl_home pl) \<noteq> 0 \<and>
      (hm_armedAt (pl_home pl) \<le> bk_safeAt (pl_heap pl q) \<or> hm_armedAt (pl_home pl) = ck_completed ck + 1)"
  by (auto simp: starved_def)

lemma unchosen_pinned:
  assumes "pool_ok pl" and "choose_backing pins rq prefer completed pl = (pl', None, n)"
    and "q \<in> set (same_class_found rq prefer completed pl)"
  shows "0 < pins q"
  by (rule choose_backingE [OF assms(1,2)]) (use assms(3) in blast)

text \<open>A backing of the asked class that is free after the scan and unchosen is held back.\<close>

lemma unchosen_held_back:
  assumes "pool_ok pl" and "choose_backing pins rq prefer completed pl = (pl', None, n)"
    and "q \<in> set (pl_free pl')" and "same_kind rq (pl_heap pl' q)" and "bk_bindingConsumers (pl_heap pl' q) = 0"
  shows "completed < bk_safeAt (pl_heap pl' q) \<or> bk_readbackPins (pl_heap pl' q) \<noteq> 0"
proof (rule ccontr)
  assume held: "\<not> ?thesis"
  note same = choose_backing_hold [OF assms(1,2), of q]
  have free: "q \<in> set (pl_free pl)" using choose_backing_frame(15) [OF assms(1,2)] assms(3) by blast
  then have "bk_leases (pl_heap pl q) = 0" using lists_okD(4) [OF pool_okD(1) [OF assms(1)]] by blast
  moreover have "\<not> bk_retired (pl_heap pl q)" using lists_okD(3,5) [OF pool_okD(1) [OF assms(1)]] free by blast
  then have "bk_bindingConsumers (pl_heap pl q) = 0" "pins q = 0" using same(2) assms(5) by simp_all
  ultimately have "reusable (pl_heap pl q) completed"
    using same(1) held by (auto simp: reusable_def same_hold_def)
  moreover have "same_kind rq (pl_heap pl q)" using same(1) assms(4) by (simp add: same_hold_kind)
  ultimately have "q \<in> set (same_class_found rq prefer completed pl)"
    using free by (auto simp: same_class_found_def scan_free_props same_kind_def)
  then show False using unchosen_pinned [OF assms(1,2)] \<open>pins q = 0\<close> by fastforce
qed

lemma free_after_choice:
  assumes "pool_ok pl" and "choose_backing pins rq prefer completed (begin_acquire rq pl) = (pl', ch, n)"
    and "q \<in> set (pl_all pl')" and "bk_leases (pl_heap pl' q) = 0"
  shows "q \<in> set (pl_free pl')"
proof -
  note begin_ok = pool_ok_begin [OF assms(1), of rq]
  have "hm_returned (pl_home pl') = []"
    using choose_backing_frame(9) [OF begin_ok assms(2)] by (simp add: begin_acquire_simps)
  moreover have "lists_ok pl'" by (rule pool_okD [OF pool_ok_choose [OF begin_ok assms(2)]])
  ultimately show ?thesis using assms(3,4) lists_ok_unleased by fastforce
qed

lemma acquire_exhausted_starved:
  assumes "state_ok (pl, ck)" and "acquire alloc racing rq prefer (pl, ck) = (st', Inr (None, info))"
    and "ck_completed ck \<noteq> - 1"
  shows "starved rq st'"
  using assms(2)
proof (cases rule: acquire_cases)
  have ok: "pool_ok pl" using assms(1) by (simp add: state_ok_def)
  note begin_ok = pool_ok_begin [OF ok, of rq]
  case (exhausted pl1 n pl2 pl3 ck1)
  note ok1 = pool_ok_choose [OF begin_ok exhausted(1)]
  have pl2: "pl_all pl2 = pl_all pl1 \<and> pl_free pl2 = pl_free pl1 \<and> (\<forall>q. same_hold (pl_heap pl1 q) (pl_heap pl2 q))"
  proof (cases "cf_reuseBound (pl_config pl1)")
    case True
    from choose_bound_props(1) [OF exhausted(3) [OF True] pool_okD(1) [OF ok1]]
      choose_bound_hold [OF exhausted(3) [OF True] pool_okD(1) [OF ok1]]
    show ?thesis by simp
  next
    case False
    with exhausted(4) show ?thesis by (simp add: same_hold_def)
  qed
  note arm = arm_availability_frame [OF exhausted(5)] and eq = arm_availability_eq [OF exhausted(5)]
  have "starved rq (upd_home emit_gauges pl3, ck1)"
  proof (rule starvedI, unfold gauges_simps arm note_exhausted_simps)
    fix q
    assume q: "q \<in> set (pl_all pl2)" "same_kind rq (pl_heap pl2 q)" "bk_leases (pl_heap pl2 q) = 0"
      "bk_bindingConsumers (pl_heap pl2 q) = 0"
    from pl2 have h: "same_hold (pl_heap pl1 q) (pl_heap pl2 q)" by simp
    with q pl2 have q1: "q \<in> set (pl_all pl1)" "same_kind rq (pl_heap pl1 q)" "bk_leases (pl_heap pl1 q) = 0"
      "bk_bindingConsumers (pl_heap pl1 q) = 0" by (auto simp: same_hold_def same_kind_def)
    have free: "q \<in> set (pl_free pl1)" by (rule free_after_choice [OF ok exhausted(1) q1(1,3)])
    have "ck_completed ck + 1 \<noteq> 0" using assms(3) by (simp add: eq_neg_iff_add_eq_0)
    with unchosen_held_back [OF begin_ok exhausted(1) free q1(2,4)] h
    have "wake_at (ck_completed ck) (pl_heap pl2 q) \<noteq> 0"
      by (auto simp: wake_at_def same_hold_def)
    then have "hm_armedAt (pl_home pl3) \<noteq> 0 \<and>
        hm_armedAt (pl_home pl3) \<le> wake_at (ck_completed ck) (pl_heap pl2 q)"
      using eq free pl2 q(2) by (auto simp: upd_home_def)
    moreover have "arm_ok (upd_home emit_gauges pl3, ck1)"
      using acquire_ok [OF assms(1,2)] exhausted(6) by (simp add: state_ok_def)
    ultimately have "hm_armedAt (pl_home pl3) \<noteq> 0" "ck_completed ck < hm_armedAt (pl_home pl3)"
      "hm_armedAt (pl_home pl3) \<le> wake_at (ck_completed ck) (pl_heap pl2 q)"
      by (auto simp: arm_ok_def arm)
    then show "hm_armedAt (pl_home pl3) \<noteq> 0 \<and>
         (hm_armedAt (pl_home pl3) \<le> bk_safeAt (pl_heap pl2 q) \<or> hm_armedAt (pl_home pl3) = ck_completed ck + 1)"
      using word_le_Suc_eq [of "ck_completed ck"] by (auto simp: wake_at_def split: if_splits)
  qed
  then show ?thesis by (simp add: exhausted(6))
qed auto


section \<open>What the other threads' steps change\<close>

text \<open>
  A step raises its events on the counter, wakes every waiter when it raises one, and leaves
  the waiters (a subscription apart) when it raises none.
\<close>

definition event_effect :: "nat \<Rightarrow> home \<Rightarrow> home \<Rightarrow> bool" where
  "event_effect n h k \<longleftrightarrow>
     hm_events k = hm_events h + of_nat n \<and> hm_scanEvents k = hm_scanEvents h \<and>
     (if n = 0 then hm_woken k = hm_woken h \<and> set (hm_waiters h) \<subseteq> set (hm_waiters k)
      else \<exists>ws. hm_woken k = hm_woken h @ ws \<and> set (hm_waiters h) \<subseteq> set ws)"

lemma event_effect_refl: "hm_events k = hm_events h \<Longrightarrow> hm_scanEvents k = hm_scanEvents h \<Longrightarrow>
    hm_woken k = hm_woken h \<Longrightarrow> hm_waiters k = hm_waiters h \<Longrightarrow> event_effect 0 h k"
  by (simp add: event_effect_def)

lemma event_effect_event: "hm_events k = hm_events h \<Longrightarrow> hm_scanEvents k = hm_scanEvents h \<Longrightarrow>
    hm_woken k = hm_woken h \<Longrightarrow> hm_waiters k = hm_waiters h \<Longrightarrow> event_effect 1 h (event k)"
  by (auto simp: event_effect_def)

lemma event_effect_fired:
  "event_effect (length points) (pl_home pl) (pl_home (fold arm_wake points pl))"
  by (auto simp: event_effect_def fold_arm_wake_simps)

lemma event_effect_wait:
  "event_effect (if hm_events (pl_home pl) \<noteq> hm_scanEvents (pl_home pl) then 1 else 0) (pl_home pl)
     (pl_home (subscribe_availability identity (Some w) pl))"
  by (auto simp: event_effect_def subscribe_availability_def emit_def Let_def)

lemma other_step_events: "other_step st n st' \<Longrightarrow> event_effect n (pl_home (fst st)) (pl_home (fst st'))"
proof (induction rule: other_step.induct)
  case (reset pl p ck)
  show ?case
    by (auto simp: lease_reset_def upd_backing_def upd_home_def returned_def Let_def
        intro!: event_effect_refl event_effect_event [simplified])
next
  case (pin p pl ck)
  show ?case
    by (auto simp: pin_binding_consumer_def upd_backing_def upd_home_def Let_def
        intro!: event_effect_refl event_effect_event [simplified])
next
  case (unpin pl p ck)
  show ?case
    by (auto simp: unpin_def upd_backing_def upd_home_def Let_def
        intro!: event_effect_refl event_effect_event [simplified])
next
  case (wait pl ck identity w)
  show ?case using event_effect_wait [of pl identity w] by simp
next
  case (advance pl ck c)
  show ?case by (simp add: clock_advance_eq event_effect_fired)
qed (auto simp: pool_defs lease_bind_def intro!: event_effect_refl)

text \<open>What a step without an event does to the backings that \<open>starved\<close> speaks of.\<close>

definition same_block :: "backing \<Rightarrow> backing \<Rightarrow> bool" where
  "same_block b c \<longleftrightarrow>
     (bk_leases b \<noteq> 0 \<longrightarrow> bk_leases c \<noteq> 0) \<and> (bk_bindingConsumers b \<noteq> 0 \<longrightarrow> bk_bindingConsumers c \<noteq> 0) \<and>
     bk_safeAt b \<le> bk_safeAt c \<and> key_of_backing b = key_of_backing c \<and> bk_capacityClass b = bk_capacityClass c"

lemma same_block_refl [simp]: "same_block b b"
  by (simp add: same_block_def)

lemma starved_step:
  assumes "starved rq (pl, ck)"
    and "\<And>q. q \<in> set (pl_all pl') \<Longrightarrow> q \<notin> set (pl_all pl) \<Longrightarrow> bk_leases (pl_heap pl' q) \<noteq> 0"
    and "\<And>q. q \<in> set (pl_all pl) \<Longrightarrow> same_block (pl_heap pl q) (pl_heap pl' q)"
    and "hm_armedAt (pl_home pl) \<noteq> 0 \<Longrightarrow>
      hm_armedAt (pl_home pl') \<noteq> 0 \<and> hm_armedAt (pl_home pl') \<le> hm_armedAt (pl_home pl) \<and>
      (hm_armedAt (pl_home pl) = ck_completed ck + 1 \<longrightarrow> hm_armedAt (pl_home pl') = ck_completed ck' + 1)"
  shows "starved rq (pl', ck')"
proof (rule starvedI)
  fix q
  assume q: "q \<in> set (pl_all pl')" "same_kind rq (pl_heap pl' q)" "bk_leases (pl_heap pl' q) = 0"
    "bk_bindingConsumers (pl_heap pl' q) = 0"
  then have old: "q \<in> set (pl_all pl)" using assms(2) by blast
  note b = assms(3) [OF old]
  from b q have "same_kind rq (pl_heap pl q)" "bk_leases (pl_heap pl q) = 0" "bk_bindingConsumers (pl_heap pl q) = 0"
    by (auto simp: same_block_def same_kind_def)
  from starvedD [OF assms(1) old this] assms(4) b
  show "hm_armedAt (pl_home pl') \<noteq> 0 \<and> (hm_armedAt (pl_home pl') \<le> bk_safeAt (pl_heap pl' q) \<or>
      hm_armedAt (pl_home pl') = ck_completed ck' + 1)"
    by (auto simp: same_block_def intro: order_trans)
qed

text \<open>A refused pin leaves the backing as it was (and raises an event when it was the only one).\<close>

lemma pin_eq:
  "fst (pin_binding_consumer (Some p) pl) =
     (if bk_retired (pl_heap pl p) then if bk_bindingConsumers (pl_heap pl p) = 0 then upd_home event pl else pl
      else upd_backing p (\<lambda>b. b\<lparr>bk_bindingConsumers := bk_bindingConsumers b + 1\<rparr>) pl)"
proof -
  have "upd_backing p (\<lambda>b. b\<lparr>bk_bindingConsumers := bk_bindingConsumers b - 1\<rparr>)
      (upd_backing p (\<lambda>b. b\<lparr>bk_bindingConsumers := bk_bindingConsumers b + 1\<rparr>) pl) = pl"
    by (simp add: upd_backing_def)
  then show ?thesis by (simp add: pin_binding_consumer_def Let_def) (simp add: upd_backing_def)
qed

lemma armed_fires:
  assumes "arm_ok (pl, ck)" and "hm_armedAt (pl_home pl) \<noteq> 0" and "hm_armedAt (pl_home pl) \<le> max (ck_completed ck) c"
  shows "hm_armedAt (pl_home pl) \<in> set (fired c (pl, ck))"
proof -
  have "(hm_armedAt (pl_home pl), PoolArm (pl_id pl)) \<in>
      set (filter (\<lambda>w. fst w \<le> max (ck_completed ck) c \<and> snd w = PoolArm (pl_id pl)) (ck_waiters ck))"
    using assms by (simp add: arm_ok_def)
  from imageI [OF this, of fst] show ?thesis by (simp add: fired_def)
qed

lemma upd_backing_block:
  "(\<And>b. same_block b (f b)) \<Longrightarrow> same_block (pl_heap pl q) (pl_heap (upd_backing p f pl) q)"
  by (simp add: upd_backing_def)

lemma other_step_starved: "other_step st n st' \<Longrightarrow> n = 0 \<Longrightarrow> state_ok st \<Longrightarrow> starved rq st \<Longrightarrow> starved rq st'"
proof (induction rule: other_step.induct)
  case (advance pl ck c)
  then have none: "fired c (pl, ck) = []" by simp
  have arm: "max (ck_completed ck) c < hm_armedAt (pl_home pl)" if "hm_armedAt (pl_home pl) \<noteq> 0"
  proof (rule ccontr)
    assume "\<not> ?thesis"
    then have "hm_armedAt (pl_home pl) \<le> max (ck_completed ck) c" by (simp only: not_less)
    with armed_fires [of pl ck c] that advance.prems(2) none show False by (simp add: state_ok_def)
  qed
  have "ck_completed ck + 1 \<noteq> 0 \<Longrightarrow> max (ck_completed ck) c < ck_completed ck + 1 \<Longrightarrow> max (ck_completed ck) c = ck_completed ck"
    by (auto simp: max_def split: if_splits) uint_arith
  with arm show ?case
    unfolding clock_advance_eq none by (intro starved_step [OF advance.prems(3)]) auto
next
  case (host_wait pl ck point h)
  then show ?case using subscribe_host [of point "HostWake h" ck] by (auto simp: starved_def)
next
  case (reset pl p ck)
  then have "bk_leases (pl_heap pl p) \<noteq> 1" by auto
  with reset show ?case
    by (intro starved_step [OF reset.prems(3)]) (auto simp: lease_reset_more upd_backing_def same_block_def
        key_of_backing_def state_ok_def arm_ok_def)
next
  case (pin p pl ck)
  then have "fst (pin_binding_consumer (Some p) pl) = pl \<or> fst (pin_binding_consumer (Some p) pl) =
      upd_backing p (\<lambda>b. b\<lparr>bk_bindingConsumers := bk_bindingConsumers b + 1\<rparr>) pl"
    unfolding pin_eq by (auto split: if_splits)
  with pin.prems(3) show ?case
    by (auto intro!: starved_step [OF pin.prems(3)] simp: upd_backing_def same_block_def key_of_backing_def)
next
  case (unpin pl p ck)
  then have "bk_bindingConsumers (pl_heap pl p) \<noteq> 1" by auto
  with unpin show ?case
    by (intro starved_step [OF unpin.prems(3)])
      (auto simp: unpin_def upd_backing_def same_block_def key_of_backing_def Let_def)
next
  case (wait pl ck identity w)
  then show ?case
    by (intro starved_step [OF wait.prems(3)]) (auto simp: subscribe_availability_def emit_def Let_def)
qed (erule starved_step; auto simp: pool_defs lease_bind_def same_block_def key_of_backing_def)+

lemma same_hold_block: "same_hold b c \<Longrightarrow> same_block b c"
  by (auto simp: same_hold_def same_block_def)

lemma same_hold_leased_block: "same_hold (leased_once l q b) c \<Longrightarrow> same_block b c"
  by (auto simp: same_hold_def same_block_def leased_once_def key_of_backing_def split: if_splits)


text \<open>The acquirer's steps: what a class starves on stays, and no event is raised.\<close>

definition later_arm :: "pool_state \<Rightarrow> pool_state \<Rightarrow> bool" where
  "later_arm st st' \<longleftrightarrow>
     (hm_armedAt (pl_home (fst st)) \<noteq> 0 \<longrightarrow>
        hm_armedAt (pl_home (fst st')) \<noteq> 0 \<and>
        hm_armedAt (pl_home (fst st')) \<le> hm_armedAt (pl_home (fst st)) \<and>
        (hm_armedAt (pl_home (fst st)) = ck_completed (snd st) + 1 \<longrightarrow>
           hm_armedAt (pl_home (fst st')) = ck_completed (snd st') + 1))"

lemma later_arm_same:
  "hm_armedAt (pl_home pl') = hm_armedAt (pl_home pl) \<Longrightarrow> later_arm (pl, ck) (pl', ck)"
  by (simp add: later_arm_def)

lemma acquire_frame:
  assumes "state_ok (pl, ck)" and "acquire alloc racing rq prefer (pl, ck) = ((pl', ck'), r)"
  shows "set (pl_all pl') \<subseteq> set (pl_all pl) \<union> {p. granted r = Some p} \<and> pl_config pl' = pl_config pl \<and>
    pl_id pl' = pl_id pl \<and> pl_next pl \<le> pl_next pl' \<and> later_arm (pl, ck) (pl', ck')"
  using assms(2)
proof (cases rule: acquire_cases)
  have ok: "pool_ok pl" using assms(1) by (simp add: state_ok_def)
  note begin_ok = pool_ok_begin [OF ok, of rq]
  note ok1 = pool_ok_choose [OF begin_ok]
  note frame = choose_backing_frame(1,2,4,5,14) [OF begin_ok, unfolded begin_acquire_simps]
  {
    case (reused pl1 p n)
    with frame [OF reused(1)] show ?thesis
      by (auto simp: later_arm_def reuse_def upd_home_def emit_gauges_def emit_def lease_take_def upd_backing_def Let_def)
  next
    case (bound pl1 n pl2 p)
    note pl2 = choose_bound_props(1) [OF bound(4) pool_okD(1) [OF ok1 [OF bound(1)]]]
    from frame [OF bound(1)] bound(5) show ?thesis
      by (auto simp: pl2 later_arm_def reuse_def upd_home_def emit_gauges_def emit_def lease_take_def upd_backing_def Let_def)
  next
    case (exhausted pl1 n pl2 pl3 ck1)
    note fr = frame [OF exhausted(1)]
    have pl2: "pl_all pl2 = pl_all pl1 \<and> pl_config pl2 = pl_config pl1 \<and> pl_id pl2 = pl_id pl1 \<and> pl_next pl2 = pl_next pl1 \<and>
        hm_armedAt (pl_home pl2) = hm_armedAt (pl_home pl1)"
    proof (cases "cf_reuseBound (pl_config pl1)")
      case True
      from choose_bound_props(1) [OF exhausted(3) [OF True] pool_okD(1) [OF ok1 [OF exhausted(1)]]]
      show ?thesis by simp
    next
      case False
      with exhausted(4) show ?thesis by simp
    qed
    note arm = arm_availability_frame [OF exhausted(5)]
    have "arm_ok (note_exhausted pl2, ck)"
      using assms(1) fr pl2 by (simp add: state_ok_def arm_ok_def)
    note arm(13) [OF _ this]
    then have "later_arm (pl, ck) (pl3, ck1)"
      using fr pl2 word_le_Suc_eq [of "ck_completed ck" "hm_armedAt (pl_home pl3)"]
      by (auto simp: later_arm_def arm)
    then show ?thesis using fr pl2 exhausted(6) by (auto simp: arm later_arm_def)
  next
    case (failed pl1 n e)
    with frame [OF failed(1)] show ?thesis by (auto simp: later_arm_def)
  next
    case (made pl1 n pl3 p)
    have "pl_all pl3 = pl_all pl1 @ [p]" "pl_config pl3 = pl_config pl1" "pl_id pl3 = pl_id pl1"
      "pl_next pl3 = pl_next pl1 + 1"
      "hm_armedAt (pl_home pl3) = hm_armedAt (pl_home pl1)"
      using made(3) by (auto simp: allocate_def Let_def pool_defs split: sum.splits)
    with made(4,5) frame [OF made(1)] show ?thesis by (auto simp: later_arm_def granted_def)
  }
qed

lemma granted_leased:
  assumes "state_ok (pl, ck)" and "acquire alloc racing rq prefer (pl, ck) = ((pl', ck'), r)" and "granted r = Some p"
  shows "bk_leases (pl_heap pl' p) = 1"
  using assms(2)
proof (cases rule: acquire_cases)
  have ok: "pool_ok pl" using assms(1) by (simp add: state_ok_def)
  note begin_ok = pool_ok_begin [OF ok, of rq]
  note ok1 = pool_ok_choose [OF begin_ok]
  {
    case (reused pl1 q n)
    have "bk_leases (pl_heap pl1 q) = 0"
      using lists_okD(4) [OF pool_okD(1) [OF ok1 [OF reused(1)]]] choose_backing_frame(10) [OF begin_ok reused(1)] by blast
    with reused(2,3) assms(3) show ?thesis by (simp add: reuse_heap leased_once_def granted_def)
  next
    case (bound pl1 n pl2 q)
    note lok = pool_okD(1) [OF ok1 [OF bound(1)]]
    have "bk_leases (pl_heap pl2 q) = 0"
      using choose_bound_props(1,2) [OF bound(4) lok] lists_okD(4) [OF lok, of q] by simp
    with bound(5,6) assms(3) show ?thesis by (simp add: reuse_heap leased_once_def granted_def)
  next
    case (made pl1 n pl3 q)
    then show ?thesis using assms(3)
      by (auto simp: granted_def allocate_def Let_def pool_defs blank_backing_def split: sum.splits)
  }
qed (use assms(3) in \<open>simp_all add: granted_def\<close>)

lemma acquirer_step_starved:
  assumes "acquirer_step (pl, ck) (pl', ck')" and "state_ok (pl, ck)" and "starved rq (pl, ck)"
  shows "starved rq (pl', ck')"
  using assms(1)
proof (cases rule: acquirer_step.cases)
  case (acquire alloc racing rq' prfr)
  obtain r where eq: "acquire alloc racing rq' prfr (pl, ck) = ((pl', ck'), r)"
    using acquire by (metis prod.exhaust_sel)
  note frame = acquire_frame [OF assms(2) eq]
  show ?thesis
  proof (rule starved_step [OF assms(3)])
    show "bk_leases (pl_heap pl' q) \<noteq> 0" if "q \<in> set (pl_all pl')" "q \<notin> set (pl_all pl)" for q
      using that frame granted_leased [OF assms(2) eq] by fastforce
    show "same_block (pl_heap pl q) (pl_heap pl' q)" if "q \<in> set (pl_all pl)" for q
    proof (rule same_hold_leased_block)
      have "q < pl_next pl" using assms(2) that by (auto simp: state_ok_def pool_ok_def lists_ok_def)
      then show "same_hold (leased_once (granted r) q (pl_heap pl q)) (pl_heap pl' q)"
        by (rule acquire_hold [OF assms(2) eq])
    qed
  qed (use frame in \<open>simp_all add: later_arm_def\<close>)
next
  case (trim pins)
  have ok: "pool_ok pl" using assms(2) by (simp add: state_ok_def)
  define gone where "gone = filter (\<lambda>p. pins p = 0) (trim_found (ck_completed ck) (take_returned pl))"
  have eq: "pl' = upd_home emit_gauges (fold drop_backing gone (race pins (take_returned pl)))" "ck' = ck"
    using trim trim_eq [OF ok, of pins ck] by (simp_all add: gone_def)
  have taken: "pl_all (take_returned pl) = pl_all pl" "pl_heap (take_returned pl) = pl_heap pl"
    "hm_armedAt (pl_home (take_returned pl)) = hm_armedAt (pl_home pl)"
    by (simp_all add: take_returned_def Let_def)
  have "same_hold (pl_heap pl q) (pl_heap pl' q)" for q
    using same_hold_dropped [of "take_returned pl" q gone None pins] by (simp add: eq taken chosen_base_def)
  then show ?thesis
    by (intro starved_step [OF assms(3)]) (auto simp: eq fold_drop_simps taken same_hold_block)
qed

lemma acquirer_step_events:
  assumes "acquirer_step (pl, ck) (pl', ck')" and "state_ok (pl, ck)"
  shows "hm_woken (pl_home pl') = hm_woken (pl_home pl) \<and> hm_waiters (pl_home pl') = hm_waiters (pl_home pl) \<and>
    hm_events (pl_home pl') = hm_events (pl_home pl)"
  using assms(1)
proof (cases rule: acquirer_step.cases)
  case (acquire alloc racing rq' prfr)
  obtain r where eq: "acquire alloc racing rq' prfr (pl, ck) = ((pl', ck'), r)"
    using acquire by (metis prod.exhaust_sel)
  from acquire_wakes [OF assms(2) eq] show ?thesis by (simp add: same_wakes_def)
next
  case (trim pins)
  have ok: "pool_ok pl" using assms(2) by (simp add: state_ok_def)
  have "pl' = upd_home emit_gauges (fold drop_backing (filter (\<lambda>p. pins p = 0)
      (trim_found (ck_completed ck) (take_returned pl))) (race pins (take_returned pl)))"
    using trim trim_eq [OF ok, of pins ck] by simp
  then show ?thesis by (simp add: fold_drop_simps upd_home_def emit_gauges_def emit_def take_returned_def Let_def)
qed

end
