(* ===== verification/PoolProps.thy ===== *)
theory PoolProps
  imports PoolRuns
begin

text \<open>
  What the backing pool promises, over every reachable state of \<^verbatim>\<open>PoolWorld.thy\<close>: whom an
  acquire may give a backing to, which backing it prefers, when a bound backing is reused, the
  census and the cap, and that an exhausted acquirer is woken.
\<close>

section \<open>Runs\<close>

inductive other_run :: "pool_state \<Rightarrow> nat \<Rightarrow> pool_state \<Rightarrow> bool" where
  refl: "other_run st 0 st"
| step: "other_run st n st1 \<Longrightarrow> other_step st1 k st2 \<Longrightarrow> other_run st (n + k) st2"

lemma other_run_ok: "other_run st n st' \<Longrightarrow> state_ok st \<Longrightarrow> state_ok st'"
  by (induction rule: other_run.induct) (auto dest: other_step_ok)

lemma other_run_events:
  "other_run st n st' \<Longrightarrow> hm_events (pl_home (fst st')) = hm_events (pl_home (fst st)) + of_nat n \<and>
    hm_scanEvents (pl_home (fst st')) = hm_scanEvents (pl_home (fst st))"
  by (induction rule: other_run.induct) (auto dest!: other_step_events simp: event_effect_def)

lemma other_run_starved: "other_run st n st' \<Longrightarrow> n = 0 \<Longrightarrow> state_ok st \<Longrightarrow> starved rq st \<Longrightarrow> starved rq st'"
proof (induction rule: other_run.induct)
  case (step st n st1 k st2)
  then have "starved rq st1" "state_ok st1" by (auto intro: other_run_ok)
  with step.hyps(2) step.prems(1) show ?case by (intro other_step_starved [of st1 k st2]) simp_all
qed simp

lemma pool_run_ok: "pool_step\<^sup>*\<^sup>* st st' \<Longrightarrow> state_ok st \<Longrightarrow> state_ok st'"
  by (induction rule: rtranclp.induct) (auto intro: pool_step_ok)

lemma pool_run_reachable: "pool_step\<^sup>*\<^sup>* st st' \<Longrightarrow> pool_reachable st \<Longrightarrow> pool_reachable st'"
  by (induction rule: rtranclp.induct) (auto intro: pool_reachable.step)

section \<open>Whom an acquire gives a backing to\<close>

lemma acquire_grant:
  assumes "state_ok (pl, ck)" and "acquire alloc racing rq prefer (pl, ck) = ((pl', ck'), Inr (Some p, info))"
  shows "p \<in> set (pl_all pl') \<and> same_kind rq (pl_heap pl' p) \<and> bk_leases (pl_heap pl' p) = 1 \<and>
    bk_readbackPins (pl_heap pl' p) = 0 \<and> bk_bindingConsumers (pl_heap pl' p) = 0 \<and> bk_sealedBytes (pl_heap pl' p) = 0 \<and>
    bk_safeAt (pl_heap pl' p) \<le> max (ck_completed ck) (ai_writeAfter info) \<and>
    (if ai_allocated info then p = pl_next pl else p \<in> set (pl_all pl) \<and> bk_leases (pl_heap pl p) = 0)"
  using assms(2)
proof (cases rule: acquire_cases)
  have ok: "pool_ok pl" using assms(1) by (simp add: state_ok_def)
  note begin_ok = pool_ok_begin [OF ok, of rq]
  note ok1 = pool_ok_choose [OF begin_ok]
  note frame = choose_backing_frame [OF begin_ok, unfolded begin_acquire_simps]
  note hold = choose_backing_hold [OF begin_ok, unfolded begin_acquire_simps]
  {
    case (reused pl1 q n)
    then have q: "q = p" and r: "ai_allocated info = False" "ai_writeAfter info = 0"
      by (auto simp: no_info_def)
    note fr = frame [OF reused(1)[unfolded q]]
    have same: "p \<in> set (same_class_found rq prefer (ck_completed ck) (begin_acquire rq pl))" by (rule fr(12)) simp
    have found: "key_of_backing (pl_heap pl p) = key_of_request rq" "bk_capacityClass (pl_heap pl p) = rq_capacityClass rq"
      "reusable (pl_heap pl p) (ck_completed ck)"
      using same by (auto simp: same_class_found_def scan_free_props begin_acquire_simps)
    have heap: "pl_heap pl1 p = (pl_heap pl p)\<lparr>bk_sealedBytes := 0\<rparr>" by (rule fr(11)) simp
    have "p \<in> set (pl_free pl1)" by (rule fr(10)) simp
    then have "p \<in> set (pl_all pl1)" using lists_okD(3) [OF pool_okD(1) [OF ok1 [OF reused(1)]]] by blast
    with found heap reused(2) q r fr(14) show ?thesis
      by (auto simp: reuse_heap leased_once_def same_kind_def key_of_backing_def reusable_def max_def)
        (auto simp: pool_defs Let_def)
  next
    case (bound pl1 n pl2 q)
    then have q: "q = p" and r: "ai_allocated info = False" "ai_writeAfter info = bk_safeAt (pl_heap pl2 p)"
      by (auto simp: no_info_def)
    note lok = pool_okD(1) [OF ok1 [OF bound(1)]]
    note cb = choose_bound_props [OF bound(4) [unfolded q] lok]
    have p: "p \<in> set (pl_free pl1)" "eligible rq (pl_heap pl1 p)" "snd racing p = 0" using cb(2) [of p] by simp_all
    note h = hold [OF bound(1), of p]
    have "p \<in> set (pl_all pl1)" using p(1) lists_okD(3) [OF lok] by blast
    moreover have "bk_leases (pl_heap pl p) = 0" using h(1) p(2) by (simp add: same_hold_def eligible_def unheld_def)
    ultimately show ?thesis using p q r bound(5) frame(14) [OF bound(1)]
      by (auto simp: reuse_heap leased_once_def same_kind_def key_of_backing_def eligible_def unheld_def cb(1) max_def)
        (auto simp: pool_defs Let_def)
  next
    case (exhausted pl1 n pl2 pl3 ck1)
    then show ?thesis by simp
  next
    case (failed pl1 n e)
    then show ?thesis by simp
  next
    case (made pl1 n pl3 q)
    have "pl_next pl1 = pl_next pl" using frame(4) [OF made(1)] by simp
    with made(3,4,5) show ?thesis
      by (auto simp: no_info_def allocate_def Let_def pool_defs blank_backing_def same_kind_def key_of_backing_def
          key_of_request_def split: sum.splits)
  }
qed


section \<open>An example: one backing, made, bound at 7, returned\<close>

definition demo_rq :: backing_request where
  "demo_rq = \<lparr>rq_capacityClass = 4, rq_stride = 8, rq_flags = no_flags, rq_compatibility = 0,
     rq_name = [], rq_like = None\<rparr>"

definition demo_alloc :: "nat \<Rightarrow> backing_request \<Rightarrow> backing_allocation result" where
  "demo_alloc p rq = Inr \<lparr>al_buffer = Some p, al_address = 0, al_srvIndex = 0\<rparr>"

definition demo_config :: "bool \<Rightarrow> pool_config" where
  "demo_config reuse_bound = \<lparr>cf_name = [], cf_maxPerClass = 1, cf_framesInFlight = 2, cf_spareFree = 0,
     cf_reuseBound = reuse_bound\<rparr>"

definition demo_ask :: "pool_state \<Rightarrow> pool_state \<times> (nat option \<times> acquire_info) result" where
  "demo_ask = acquire demo_alloc (no_race, no_race) demo_rq 9"

definition demo_start :: "bool \<Rightarrow> pool_state" where
  "demo_start r = (new_pool 0 (demo_config r) True, new_clock)"

definition demo_backing :: backing where
  "demo_backing = blank_backing\<lparr>bk_buffer := Some 0, bk_generation := 1, bk_capacityClass := 4,
     bk_byteCapacity := 32, bk_stride := 8\<rparr>"

definition demo_home :: home where
  "demo_home = new_home\<lparr>hm_live := 1, hm_bytes := 32, hm_allocated := 1,
     hm_emitted := [(Allocated, 32), (LiveBackings, 1), (LiveBytes, 32), (FreeBackings, 0)]\<rparr>"

definition demo_pool :: "bool \<Rightarrow> home \<Rightarrow> backing \<Rightarrow> nat list \<Rightarrow> pool" where
  "demo_pool r hm b free = (new_pool 0 (demo_config r) True)\<lparr>pl_home := hm, pl_heap := (\<lambda>_. blank_backing)(0 := b),
     pl_next := 1, pl_all := [0], pl_free := free, pl_active := [(key_of_request demo_rq, 4)], pl_nextGeneration := 2\<rparr>"

definition demo_leased :: "bool \<Rightarrow> u64 \<Rightarrow> pool_state" where
  "demo_leased r at = (demo_pool r demo_home (demo_backing\<lparr>bk_safeAt := at, bk_leases := 1\<rparr>) [], new_clock)"

definition demo_returned :: "bool \<Rightarrow> u64 \<Rightarrow> pool_state" where
  "demo_returned r at = (demo_pool r (demo_home\<lparr>hm_free := 1, hm_returned := [0], hm_events := 1\<rparr>)
     (demo_backing\<lparr>bk_safeAt := at\<rparr>) [], new_clock)"

lemma race_none: "race no_race pl = pl"
proof -
  have "(\<lambda>p. let b = pl_heap pl p in if bk_retired b then b
      else b\<lparr>bk_bindingConsumers := bk_bindingConsumers b + no_race p\<rparr>) = pl_heap pl"
    by (rule ext) (simp add: no_race_def Let_def)
  then show ?thesis by (simp add: race_def)
qed

lemmas pool_eval =
  demo_rq_def demo_alloc_def demo_config_def demo_ask_def new_pool_def new_clock_def new_home_def acquire_def
  begin_acquire_def take_returned_def upd_home_def Let_def choose_backing_def scan_free_def race_none
  class_count_def choose_bound_def arm_availability_def allocate_def lease_take_def upd_backing_def emit_gauges_def
  emit_def blank_backing_def no_info_def key_of_request_def no_flags_def byte_capacity_def u64_def reuse_def event_def
  lease_reset_def returned_def lease_bind_def key_of_backing_def reusable_def same_kind_def unheld_def subscribe_def
  reached_def deliver_def clock_advance_def advance_def run_reached_eq arm_wake_def nearer_key_def try_claim_def
  demo_backing_def demo_home_def demo_pool_def demo_leased_def demo_returned_def demo_start_def

lemma demo_made:
  "demo_ask (demo_start r) = (demo_leased r 0, Inr (Some 0, no_info\<lparr>ai_allocated := True\<rparr>))"
  by (simp add: pool_eval)

lemma demo_bind: "(lease_bind (Some 0) 7 (fst (demo_leased r 0)), snd (demo_leased r 0)) = demo_leased r 7"
  by (simp add: pool_eval)

lemma demo_reset:
  "at = 0 \<or> at = 7 \<Longrightarrow> (lease_reset (Some 0) (fst (demo_leased r at)), snd (demo_leased r at)) = demo_returned r at"
  by (auto simp: pool_eval)

lemma demo_start_reachable: "pool_reachable (demo_start r)"
  unfolding demo_start_def by (rule pool_reachable.start)

lemma demo_ask_step: "demo_ask st = (st', r) \<Longrightarrow> pool_step st st'"
  using acquirer_step.acquire [of st demo_alloc "(no_race, no_race)" demo_rq 9]
  by (metis demo_ask_def fst_conv pool_step.acquirer)

lemma demo_leased_reachable: "pool_reachable (demo_leased r 0)"
  using demo_start_reachable demo_ask_step [OF demo_made] by (rule pool_reachable.step)

lemma demo_leased_lease: "bk_leases (pl_heap (fst (demo_leased r at)) 0) = 1"
  by (simp add: demo_leased_def demo_pool_def)

lemma demo_bind_step: "other_step (demo_leased r 0) 0 (demo_leased r 7)"
  using other_step.bind [of "fst (demo_leased r 0)" 0 "snd (demo_leased r 0)" 7] demo_bind [of r] demo_leased_lease [of r 0]
  by simp

lemma demo_bound_reachable: "pool_reachable (demo_leased r 7)"
  using demo_leased_reachable pool_step.other [OF demo_bind_step] by (rule pool_reachable.step)

lemma demo_reset_step:
  assumes "at = 0 \<or> at = 7"
  shows "other_step (demo_leased r at) 1 (demo_returned r at)"
  using other_step.reset [of "fst (demo_leased r at)" 0 "snd (demo_leased r at)"] demo_reset [OF assms, of r]
    demo_leased_lease [of r at] by simp

lemma demo_returned_reachable:
  assumes "at = 0 \<or> at = 7"
  shows "pool_reachable (demo_returned r at)"
proof -
  have "pool_reachable (demo_leased r at)" using assms demo_leased_reachable demo_bound_reachable by auto
  then show ?thesis using pool_step.other [OF demo_reset_step [OF assms]] by (rule pool_reachable.step)
qed

section \<open>The properties\<close>

text \<open>
  Claim C1. An acquire gives a backing to one holder only: whatever other threads pin while it
  runs, the backing it grants has exactly the new lease, no readback and no binding consumer,
  is of the asked key and class, and was either made for it or free before; its safe point has
  retired, or the caller is told to write after it. Every other backing keeps its leases, its
  safe point, its readback pins and its content epoch.
\<close>

theorem acquire_grants:
  assumes "pool_reachable (pl, ck)"
    and "acquire alloc racing rq prefer (pl, ck) = ((pl', ck'), Inr (Some p, info))"
  shows "p \<in> set (pl_all pl') \<and> same_kind rq (pl_heap pl' p) \<and> bk_leases (pl_heap pl' p) = 1 \<and>
    bk_readbackPins (pl_heap pl' p) = 0 \<and> bk_bindingConsumers (pl_heap pl' p) = 0 \<and>
    bk_safeAt (pl_heap pl' p) \<le> max (ck_completed ck) (ai_writeAfter info) \<and>
    (if ai_allocated info then p = pl_next pl else p \<in> set (pl_all pl) \<and> bk_leases (pl_heap pl p) = 0) \<and>
    (\<forall>q < pl_next pl. q \<noteq> p \<longrightarrow>
       bk_leases (pl_heap pl' q) = bk_leases (pl_heap pl q) \<and> bk_safeAt (pl_heap pl' q) = bk_safeAt (pl_heap pl q) \<and>
       bk_readbackPins (pl_heap pl' q) = bk_readbackPins (pl_heap pl q) \<and>
       bk_contentEpoch (pl_heap pl' q) = bk_contentEpoch (pl_heap pl q))"
proof -
  note ok = pool_reachable_ok [OF assms(1)]
  have "bk_leases (pl_heap pl' q) = bk_leases (pl_heap pl q) \<and> bk_safeAt (pl_heap pl' q) = bk_safeAt (pl_heap pl q) \<and>
       bk_readbackPins (pl_heap pl' q) = bk_readbackPins (pl_heap pl q) \<and>
       bk_contentEpoch (pl_heap pl' q) = bk_contentEpoch (pl_heap pl q)" if "q < pl_next pl" "q \<noteq> p" for q
    using acquire_hold [OF ok assms(2) that(1)] that(2) by (simp add: granted_def leased_once_def same_hold_def)
  with acquire_grant [OF ok assms(2)] show ?thesis by blast
qed

theorem acquire_grants_witness:
  "bk_leases (pl_heap (fst (demo_leased True 0)) 0) = 1 \<and> bk_safeAt (pl_heap (fst (demo_leased True 0)) 0) = 0"
  using acquire_grants [of "fst (demo_start True)" "snd (demo_start True)" demo_alloc "(no_race, no_race)" demo_rq 9
      "fst (demo_leased True 0)" "snd (demo_leased True 0)" 0 "no_info\<lparr>ai_allocated := True\<rparr>"]
    demo_start_reachable [of True] demo_made [of True]
  by (simp add: demo_ask_def demo_start_def new_clock_def no_info_def)


lemma bound_only_unretired:
  assumes "state_ok (pl, ck)"
    and "choose_backing pins rq prefer (ck_completed ck) (begin_acquire rq pl) = (pl1, None, n)"
    and "choose_bound pins' rq pl1 = (pl2, Some p)"
  shows "ck_completed ck < bk_safeAt (pl_heap pl2 p)"
proof -
  have begin_ok: "pool_ok (begin_acquire rq pl)" using assms(1) by (auto simp: state_ok_def)
  note lok = pool_okD(1) [OF pool_ok_choose [OF begin_ok assms(2)]]
  have p: "p \<in> set (pl_free pl1)" "eligible rq (pl_heap pl1 p)" using choose_bound_props(2) [OF assms(3) lok, of p] by simp_all
  then have "ck_completed ck < bk_safeAt (pl_heap pl1 p)"
    using unchosen_held_back [OF begin_ok assms(2), of p] by (auto simp: eligible_def unheld_def)
  then show ?thesis by (simp add: choose_bound_props(1) [OF assms(3) lok])
qed

text \<open>
  An acquire reuses what it can, nearest the journal first: whenever the pool holds a
  reusable backing of the asked key and class that no thread pins meanwhile, the acquire
  returns a backing of the pool (it neither allocates nor fails nor makes the caller wait),
  and none of those candidates has a content epoch nearer the preferred one.
\<close>

theorem acquire_nearest:
  assumes "pool_reachable (pl, ck)" and "acquire alloc racing rq prefer (pl, ck) = ((pl', ck'), r)"
    and "q \<in> set (pl_all pl)" and "same_kind rq (pl_heap pl q)" and "reusable (pl_heap pl q) (ck_completed ck)"
    and "fst racing q = 0"
  shows "\<exists>p n. r = Inr (Some p, no_info\<lparr>ai_released := n\<rparr>) \<and> p \<in> set (pl_all pl) \<and>
    nearer_key prefer (bk_contentEpoch (pl_heap pl p)) \<le> nearer_key prefer (bk_contentEpoch (pl_heap pl q))"
proof -
  have ok: "pool_ok pl" using pool_reachable_ok [OF assms(1)] by (simp add: state_ok_def)
  note begin_ok = pool_ok_begin [OF ok, of rq]
  define same where "same = same_class_found rq prefer (ck_completed ck) (begin_acquire rq pl)"
  have "q \<in> set (pl_free (begin_acquire rq pl))"
    using begin_acquire_free [OF pool_okD(1) [OF ok], of rq] assms(3,5) by (simp add: reusable_def)
  then have q: "q \<in> set same"
    using assms(4,5) by (simp add: same_def same_class_found_def scan_free_props begin_acquire_simps same_kind_def)
  obtain pl1 ch n where ch:
    "choose_backing (fst racing) rq prefer (ck_completed ck) (begin_acquire rq pl) = (pl1, ch, n)"
    by (metis prod.exhaust)
  obtain p where p: "ch = Some p"
    using unchosen_pinned [OF begin_ok, of "fst racing" rq "prefer" "ck_completed ck" pl1 n q] ch q assms(6)
    by (cases ch) (auto simp: same_def)
  obtain ys qs where ys: "same = ys @ p # qs" "\<forall>y \<in> set ys. 0 < fst racing y"
    by (rule choose_backingE [OF begin_ok ch]) (use p in \<open>auto simp: same_def\<close>)
  then have "q = p \<or> q \<in> set qs" using q assms(6) by auto
  moreover have "sorted (map (\<lambda>p. nearer_key prefer (bk_contentEpoch (pl_heap pl p))) same)"
    unfolding same_def same_class_found_def begin_acquire_simps by (rule sorted_sort_key)
  ultimately have "nearer_key prefer (bk_contentEpoch (pl_heap pl p)) \<le> nearer_key prefer (bk_contentEpoch (pl_heap pl q))"
    by (auto simp: ys(1) sorted_append)
  moreover have "p \<in> set same" using ys(1) by simp
  then have "p \<in> set (pl_all pl)"
    using same_free lists_okD(3) [OF pool_okD(1) [OF begin_ok]] by (fastforce simp: same_def begin_acquire_simps)
  moreover have "r = Inr (Some p, no_info\<lparr>ai_released := n\<rparr>)"
    using assms(2) ch p by (simp add: acquire_def)
  ultimately show ?thesis by blast
qed

lemma demo_reused:
  "snd (demo_ask (demo_returned r 0)) = Inr (Some 0, no_info)"
  by (simp add: pool_eval)

theorem acquire_nearest_witness:
  "\<exists>p n. snd (demo_ask (demo_returned False 0)) = Inr (Some p, no_info\<lparr>ai_released := n\<rparr>) \<and> p = 0"
proof -
  obtain st r where eq: "demo_ask (demo_returned False 0) = (st, r)" by (metis prod.exhaust)
  have "\<exists>p n. r = Inr (Some p, no_info\<lparr>ai_released := n\<rparr>) \<and> p \<in> set (pl_all (fst (demo_returned False 0))) \<and>
    nearer_key 9 (bk_contentEpoch (pl_heap (fst (demo_returned False 0)) p))
      \<le> nearer_key 9 (bk_contentEpoch (pl_heap (fst (demo_returned False 0)) 0))"
    by (rule acquire_nearest [of _ "snd (demo_returned False 0)" demo_alloc "(no_race, no_race)" demo_rq _ "fst st" "snd st"])
      (use eq demo_returned_reachable [of 0 False] in \<open>simp_all add: demo_ask_def\<close>,
       simp_all add: demo_returned_def demo_pool_def demo_backing_def demo_rq_def same_kind_def key_of_backing_def
         key_of_request_def reusable_def blank_backing_def no_race_def new_clock_def)
  then have "\<exists>p n. r = Inr (Some p, no_info\<lparr>ai_released := n\<rparr>) \<and> p = 0" by (simp add: demo_returned_def demo_pool_def)
  then show ?thesis by (simp only: eq snd_conv)
qed

text \<open>A safe point only goes up.\<close>

lemma other_step_safeAt:
  "other_step st k st' \<Longrightarrow> pl_next (fst st') = pl_next (fst st) \<and>
    bk_safeAt (pl_heap (fst st) q) \<le> bk_safeAt (pl_heap (fst st') q)"
proof (induction rule: other_step.induct)
  case (advance pl ck c)
  show ?case by (simp add: clock_advance_eq fold_arm_wake_simps)
next
  case (pin p pl ck)
  show ?case unfolding fst_conv pin_eq by (simp add: upd_backing_def upd_home_def)
qed (auto simp: pool_defs lease_bind_def lease_reset_def unpin_def subscribe_availability_def Let_def)

lemma pool_step_safeAt:
  assumes "pool_step (pl, ck) (pl', ck')" and "state_ok (pl, ck)" and "q < pl_next pl"
  shows "q < pl_next pl' \<and> bk_safeAt (pl_heap pl q) \<le> bk_safeAt (pl_heap pl' q)"
  using assms(1)
proof (cases rule: pool_step.cases)
  case (other n)
  from other_step_safeAt [OF this, of q] assms(3) show ?thesis by simp
next
  case acquirer
  then show ?thesis
  proof (cases rule: acquirer_step.cases)
    case (acquire alloc racing rq prfr)
    obtain r where eq: "acquire alloc racing rq prfr (pl, ck) = ((pl', ck'), r)"
      using acquire by (metis prod.exhaust_sel)
    show ?thesis using acquire_frame [OF assms(2) eq] acquire_hold [OF assms(2) eq assms(3)] assms(3)
      by (auto simp: same_hold_def leased_once_def split: if_splits)
  next
    case (trim pins)
    have ok: "pool_ok pl" using assms(2) by (simp add: state_ok_def)
    have "pl' = upd_home emit_gauges (fold drop_backing (filter (\<lambda>p. pins p = 0)
        (trim_found (ck_completed ck) (take_returned pl))) (race pins (take_returned pl)))"
      using trim trim_eq [OF ok, of pins ck] by simp
    then show ?thesis using assms(3)
      by (simp add: fold_drop_fields fold_drop_simps) (simp add: upd_home_def take_returned_def Let_def fold_drop_simps)
  qed
qed

lemma pool_run_safeAt:
  assumes "pool_step\<^sup>*\<^sup>* st st'" and "state_ok st" and "q < pl_next (fst st)"
  shows "q < pl_next (fst st') \<and> bk_safeAt (pl_heap (fst st) q) \<le> bk_safeAt (pl_heap (fst st') q)"
  using assms(1)
proof (induction rule: rtranclp_induct)
  case base
  from assms(3) show ?case by simp
next
  case (step st1 st2)
  obtain pl1 ck1 pl2 ck2 where st: "st1 = (pl1, ck1)" "st2 = (pl2, ck2)" by (metis prod.exhaust)
  have "state_ok st1" by (rule pool_run_ok [OF step.hyps(1) assms(2)])
  with step.hyps(2) step.IH show ?case unfolding st using pool_step_safeAt by (auto intro: order_trans)
qed

lemma bound_not_reused:
  assumes "pool_reachable (pl0, ck0)" and "bk_leases (pl_heap pl0 p) \<noteq> 0"
    and "pool_step\<^sup>*\<^sup>* (lease_bind (Some p) point pl0, ck0) (pl, ck)"
    and "acquire alloc racing rq prefer (pl, ck) = ((pl', ck'), Inr (Some p, info))"
  shows "point \<le> ck_completed ck \<or> point \<le> ai_writeAfter info"
proof -
  have ok0: "state_ok (pl0, ck0)" by (rule pool_reachable_ok [OF assms(1)])
  let ?pl1 = "lease_bind (Some p) point pl0"
  have "p \<in> set (pl_all pl0)"
    by (rule lists_ok_leased(1) [OF _ assms(2)]) (use ok0 in \<open>simp add: state_ok_def pool_ok_def\<close>)
  then have "p < pl_next pl0" using ok0 by (auto simp: state_ok_def pool_ok_def lists_ok_def)
  moreover have "pl_next ?pl1 = pl_next pl0" by (simp add: lease_bind_def upd_backing_def)
  moreover have ok1: "state_ok (?pl1, ck0)"
    by (rule other_step_ok [OF other_step.bind [where ck = ck0] ok0]) (rule assms(2))
  moreover have "point \<le> bk_safeAt (pl_heap ?pl1 p)" by (auto simp: lease_bind_def upd_backing_def)
  ultimately have p: "p < pl_next pl" "point \<le> bk_safeAt (pl_heap pl p)"
    using pool_run_safeAt [OF assms(3) ok1, of p] by auto
  have ok: "state_ok (pl, ck)" by (rule pool_run_ok [OF assms(3) ok1])
  note grant = acquire_grant [OF ok assms(4)]
  have "bk_safeAt (pl_heap pl' p) = bk_safeAt (pl_heap pl p)"
    using acquire_hold [OF ok assms(4) p(1)] by (simp add: same_hold_def leased_once_def split: if_splits)
  with grant p(2) have "point \<le> max (ck_completed ck) (ai_writeAfter info)" by (metis order_trans)
  then show ?thesis by (simp add: le_max_iff_disj)
qed

text \<open>
  Claim C2. No reuse before retirement: once a lease on a backing is bound at a point, then
  along any run of any threads (leases copied, dropped and bound again, the clock advancing,
  other acquires and trims) whoever is given that backing next gets it only when the clock
  has passed the point, or is told to write no earlier than a point at or past it.
\<close>

theorem no_reuse_before_retirement:
  assumes "pool_reachable (pl0, ck0)" and "bk_leases (pl_heap pl0 p) \<noteq> 0"
    and "pool_step\<^sup>*\<^sup>* (lease_bind (Some p) point pl0, ck0) (pl, ck)"
    and "acquire alloc racing rq prefer (pl, ck) = ((pl', ck'), Inr (Some p, info))"
  shows "point \<le> ck_completed ck \<or> point \<le> ai_writeAfter info"
  using assms by (rule bound_not_reused)

lemma demo_reused_bound:
  "snd (demo_ask (demo_returned True 7)) = Inr (Some 0, no_info\<lparr>ai_writeAfter := 7\<rparr>)"
  by (simp add: pool_eval)

theorem no_reuse_before_retirement_witness:
  "\<exists>info. snd (demo_ask (demo_returned True 7)) = Inr (Some 0, info) \<and> (7 :: u64) \<le> ai_writeAfter info"
proof -
  obtain st where eq: "demo_ask (demo_returned True 7) = (st, Inr (Some 0, no_info\<lparr>ai_writeAfter := 7\<rparr>))"
    by (metis demo_reused_bound prod.collapse)
  have run: "pool_step\<^sup>*\<^sup>* (demo_leased True 7) (demo_returned True 7)"
    using pool_step.other [OF demo_reset_step [of 7 True]] by simp
  have "(7 :: u64) \<le> ck_completed (snd (demo_returned True 7)) \<or> 7 \<le> ai_writeAfter (no_info\<lparr>ai_writeAfter := 7\<rparr>)"
    by (rule no_reuse_before_retirement [of "fst (demo_leased True 0)" "snd (demo_leased True 0)" 0 7
          "fst (demo_returned True 7)" "snd (demo_returned True 7)" demo_alloc "(no_race, no_race)" demo_rq 9 "fst st" "snd st"])
      (use demo_leased_reachable [of True] demo_leased_lease [of True 0] run eq demo_bind [of True]
        in \<open>simp_all add: demo_ask_def\<close>)
  then show ?thesis unfolding demo_reused_bound by (auto simp: demo_returned_def new_clock_def)
qed


text \<open>A waiter subscribed at a starved state is woken before the class stops being starved.\<close>

definition served :: "availability \<Rightarrow> nat \<Rightarrow> backing_request \<Rightarrow> pool_state \<Rightarrow> bool" where
  "served w n rq st \<longleftrightarrow>
     n \<le> length (hm_woken (pl_home (fst st))) \<and>
     (w \<in> set (drop n (hm_woken (pl_home (fst st)))) \<or>
      (w \<in> set (hm_waiters (pl_home (fst st))) \<and> starved rq st))"

lemma served_event_effect:
  assumes "served w n rq st" and "event_effect k (pl_home (fst st)) (pl_home (fst st'))"
    and "k = 0 \<Longrightarrow> starved rq st \<Longrightarrow> starved rq st'"
  shows "served w n rq st'"
proof (cases "k = 0")
  case True
  with assms show ?thesis by (auto simp: served_def event_effect_def)
next
  case False
  then obtain ws where "hm_woken (pl_home (fst st')) = hm_woken (pl_home (fst st)) @ ws"
    "set (hm_waiters (pl_home (fst st))) \<subseteq> set ws" using assms(2) by (auto simp: event_effect_def)
  with assms(1) show ?thesis by (auto simp: served_def)
qed

lemma served_step:
  assumes "pool_step st st'" and "state_ok st" and "served w n rq st"
  shows "served w n rq st'"
  using assms(1)
proof (cases rule: pool_step.cases)
  case (other k)
  show ?thesis
    by (rule served_event_effect [OF assms(3) other_step_events [OF other]])
      (rule other_step_starved [OF other _ assms(2)])
next
  case acquirer
  obtain pl ck pl' ck' where st: "st = (pl, ck)" "st' = (pl', ck')" by (metis prod.exhaust)
  from acquirer_step_events [of pl ck pl' ck'] acquirer_step_starved [of pl ck pl' ck' rq] acquirer assms(2,3)
  show ?thesis unfolding st by (auto simp: served_def)
qed

lemma served_run:
  assumes "pool_step\<^sup>*\<^sup>* st st'" and "state_ok st" and "served w n rq st"
  shows "served w n rq st'"
  using assms(1)
proof (induction rule: rtranclp_induct)
  case base
  from assms(3) show ?case .
next
  case (step st1 st2)
  then show ?case using served_step pool_run_ok [OF _ assms(2)] by blast
qed

text \<open>
  Claim C3. An exhausted acquirer misses no wake. An acquire returns no lease at a clock that
  is not at its last point; other threads take any steps, raising fewer than 2^64 events; the
  acquirer then subscribes for availability, and anything happens. Either the subscriber has
  been called since it subscribed, or every backing of the class is still leased, or pinned by
  a binding consumer, or waits for the clock with the pool's wake armed no later than the
  point that frees it (for a readback: at the next completed point).
\<close>

theorem no_lost_availability:
  assumes "pool_reachable (pl, ck)" and "acquire alloc racing rq prefer (pl, ck) = (st1, Inr (None, info))"
    and "ck_completed ck \<noteq> - 1" and "other_run st1 n (pla, cka)" and "n < 2 ^ 64"
    and "pool_step\<^sup>*\<^sup>* (subscribe_availability identity (Some w) pla, cka) st2"
  shows "(w, identity) \<in> set (drop (length (hm_woken (pl_home pla))) (hm_woken (pl_home (fst st2)))) \<or>
    starved rq st2"
proof -
  have ok: "state_ok (pl, ck)" by (rule pool_reachable_ok [OF assms(1)])
  obtain pl1 ck1 where st1: "st1 = (pl1, ck1)" by (metis prod.exhaust)
  have ok1: "state_ok (pl1, ck1)" using acquire_ok [OF ok assms(2)] by (simp add: st1)
  have starved1: "starved rq (pl1, ck1)" using acquire_exhausted_starved [OF ok assms(2,3)] by (simp add: st1)
  have oka: "state_ok (pla, cka)" using other_run_ok [OF assms(4)] ok1 by (simp add: st1)
  have counts: "hm_events (pl_home pla) = hm_scanEvents (pl_home pla) + of_nat n"
    using other_run_events [OF assms(4)] acquire_wakes [OF ok, of alloc racing rq "prefer" pl1 ck1] assms(2)
    by (simp add: st1 same_wakes_def)
  have starveda: "n = 0 \<Longrightarrow> starved rq (pla, cka)"
    using other_run_starved [OF assms(4)] ok1 starved1 by (simp add: st1)
  let ?plb = "subscribe_availability identity (Some w) pla"
  have wait: "other_step (pla, cka) (if hm_events (pl_home pla) \<noteq> hm_scanEvents (pl_home pla) then 1 else 0) (?plb, cka)"
    by (rule other_step.wait)
  have "served (w, identity) (length (hm_woken (pl_home pla))) rq (?plb, cka)"
  proof (cases "n = 0")
    case True
    then have same: "hm_events (pl_home pla) = hm_scanEvents (pl_home pla)" using counts by simp
    then have "starved rq (?plb, cka)"
      using other_step_starved [OF wait _ oka starveda [OF True]] by simp
    with same show ?thesis by (simp add: served_def subscribe_availability_def emit_def Let_def)
  next
    case False
    have "of_nat n \<noteq> (0 :: u64)"
    proof
      assume "of_nat n = (0 :: u64)"
      then have "unat (of_nat n :: u64) = 0" by simp
      with assms(5) False show False by (simp add: unat_of_nat)
    qed
    then have "hm_events (pl_home pla) \<noteq> hm_scanEvents (pl_home pla)" using counts by simp
    then show ?thesis by (simp add: served_def subscribe_availability_def emit_def Let_def)
  qed
  from served_run [OF assms(6) other_step_ok [OF wait oka] this] show ?thesis by (auto simp: served_def)
qed


definition demo_exhausted :: pool_state where
  "demo_exhausted = (demo_pool False (demo_home\<lparr>hm_free := 1, hm_events := 1, hm_scanEvents := 1, hm_armedAt := 7,
       hm_exhausted := 1, hm_emitted := hm_emitted demo_home @
         [(Exhausted, 1), (LiveBackings, 1), (LiveBytes, 32), (FreeBackings, 1)]\<rparr>)
     (demo_backing\<lparr>bk_safeAt := 7\<rparr>) [0],
     \<lparr>ck_completed = 0, ck_waiters = [(7, PoolArm 0)], ck_waiting = 1\<rparr>)"

lemma demo_exhausts: "demo_ask (demo_returned False 7) = (demo_exhausted, Inr (None, no_info))"
  by (simp add: pool_eval demo_exhausted_def)

theorem no_lost_availability_witness:
  "(3, 5) \<in> set (hm_woken (pl_home (fst (clock_advance 7
     (subscribe_availability 5 (Some 3) (fst demo_exhausted), snd demo_exhausted)))))"
proof -
  let ?st = "(subscribe_availability 5 (Some 3) (fst demo_exhausted), snd demo_exhausted)"
  have run: "pool_step\<^sup>*\<^sup>* ?st (clock_advance 7 ?st)"
    using pool_step.other [OF other_step.advance [of "fst ?st" "snd ?st" 7]] by simp
  have "(3, 5) \<in> set (drop (length (hm_woken (pl_home (fst demo_exhausted)))) (hm_woken (pl_home (fst (clock_advance 7 ?st))))) \<or>
      starved demo_rq (clock_advance 7 ?st)"
    by (rule no_lost_availability [where n = 0, of "fst (demo_returned False 7)" "snd (demo_returned False 7)"
          demo_alloc "(no_race, no_race)" demo_rq 9 demo_exhausted no_info "fst demo_exhausted" "snd demo_exhausted"])
      (use demo_returned_reachable [of 7 False] demo_exhausts run other_run.refl in
        \<open>simp_all add: demo_ask_def demo_returned_def new_clock_def\<close>)
  moreover have "\<not> starved demo_rq (clock_advance 7 ?st)"
    by (simp add: starved_def demo_exhausted_def pool_eval subscribe_availability_def)
  ultimately show ?thesis by (auto dest: in_set_dropD)
qed

lemma of_nat_u64_le: "m \<le> n \<Longrightarrow> n < 2 ^ 64 \<Longrightarrow> (of_nat m :: u64) \<le> of_nat n"
  by (simp add: word_le_nat_alt unat_of_nat)

text \<open>
  Claim C12. The census is exact: in every reachable state with fewer than 2^64 backings,
  \<open>Count\<close> reports the backings the pool holds, how many of them have a lease and how many
  have none, their bytes (as a 64-bit sum), and as many allocated as live and released.
\<close>

theorem census_exact:
  assumes "pool_reachable (pl, ck)" and "length (pl_all pl) < 2 ^ 64"
  shows "cn_live (count pl) = of_nat (card (set (pl_all pl))) \<and>
    cn_leased (count pl) = of_nat (card {p \<in> set (pl_all pl). bk_leases (pl_heap pl p) \<noteq> 0}) \<and>
    cn_free (count pl) = of_nat (card {p \<in> set (pl_all pl). bk_leases (pl_heap pl p) = 0}) \<and>
    cn_bytes (count pl) = of_nat (\<Sum>p \<in> set (pl_all pl). bk_byteCapacity (pl_heap pl p)) \<and>
    cn_allocated (count pl) = cn_live (count pl) + cn_released (count pl)"
proof -
  have ok: "lists_ok pl" "counts_ok pl" using pool_reachable_ok [OF assms(1)] by (simp_all add: state_ok_def pool_ok_def)
  define free where "free = {p \<in> set (pl_all pl). bk_leases (pl_heap pl p) = 0}"
  define leased where "leased = {p \<in> set (pl_all pl). bk_leases (pl_heap pl p) \<noteq> 0}"
  have all: "length (pl_all pl) = card (set (pl_all pl))"
    using lists_okD(1) [OF ok(1)] by (simp add: distinct_card)
  have split: "set (pl_all pl) = leased \<union> free" "leased \<inter> free = {}" by (auto simp: free_def leased_def)
  have fin: "finite leased" "finite free" by (simp_all add: free_def leased_def)
  have "length (pl_free pl) + length (hm_returned (pl_home pl)) = card (set (pl_free pl) \<union> set (hm_returned (pl_home pl)))"
    using lists_ok_disjoint [OF ok(1)] by (simp add: card_Un_disjoint distinct_card)
  also have "\<dots> = card free" using lists_ok_unleased [OF ok(1)] by (simp add: free_def)
  finally have hfree: "hm_free (pl_home pl) = of_nat (card free)" using ok(2) by (simp add: counts_ok_def)
  have sum: "card (set (pl_all pl)) = card leased + card free" unfolding split(1) using split(2) fin by (simp add: card_Un_disjoint)
  have live: "hm_live (pl_home pl) = of_nat (card leased + card free)" using ok(2) all sum by (simp add: counts_ok_def)
  have small: "card leased + card free < 2 ^ 64" using assms(2) all sum by simp
  have "(of_nat (card free) :: u64) \<le> of_nat (card leased + card free)"
    using small by (intro of_nat_u64_le) simp_all
  then have min: "min (hm_free (pl_home pl)) (hm_live (pl_home pl)) = of_nat (card free)"
    unfolding hfree live by (simp add: min_def)
  have bytes: "hm_bytes (pl_home pl) = of_nat (\<Sum>p \<in> set (pl_all pl). bk_byteCapacity (pl_heap pl p))"
    using ok(2) lists_okD(1) [OF ok(1)] by (simp add: counts_ok_def sum.distinct_set_conv_list)
  have alloc: "cn_allocated (count pl) = cn_live (count pl) + cn_released (count pl)"
    using ok(2) by (simp add: counts_ok_def count_def Let_def)
  have cfree: "cn_free (count pl) = of_nat (card free)" using min by (simp add: count_def Let_def)
  have clive: "cn_live (count pl) = of_nat (card (set (pl_all pl)))"
    using ok(2) all by (simp add: counts_ok_def count_def Let_def)
  have "cn_leased (count pl) = cn_live (count pl) - cn_free (count pl)" by (simp add: count_def Let_def)
  then have "cn_leased (count pl) = of_nat (card leased)" unfolding clive cfree sum by simp
  moreover have "cn_bytes (count pl) = hm_bytes (pl_home pl)" by (simp add: count_def Let_def)
  ultimately show ?thesis using clive cfree alloc bytes unfolding free_def [symmetric] leased_def [symmetric] by simp
qed

theorem census_exact_witness:
  "cn_free (count (fst (demo_returned False 7))) = 1 \<and> cn_leased (count (fst (demo_returned False 7))) = 0"
proof -
  have pool: "set (pl_all (fst (demo_returned False 7))) = {0}" "length (pl_all (fst (demo_returned False 7))) = 1"
    "bk_leases (pl_heap (fst (demo_returned False 7)) 0) = 0"
    by (simp_all add: demo_returned_def demo_pool_def demo_backing_def blank_backing_def)
  have sets: "{p \<in> {0}. bk_leases (pl_heap (fst (demo_returned False 7)) p) = 0} = {0 :: nat}"
    "{p \<in> {0}. bk_leases (pl_heap (fst (demo_returned False 7)) p) \<noteq> 0} = ({} :: nat set)" using pool(3) by blast+
  have "pool_reachable (fst (demo_returned False 7), snd (demo_returned False 7))"
    using demo_returned_reachable [of 7 False] by simp
  from census_exact [OF this, unfolded pool(1,2) sets] show ?thesis by simp
qed


text \<open>
  The caps hold and generations name backings: in every reachable state no
  (key, class) has more backings than \<open>maxPerClass\<close> (when one is set), and while fewer than
  2^64 backings were ever made no two have the same generation, none has generation 0.
\<close>

theorem class_cap_kept:
  assumes "pool_reachable (pl, ck)"
  shows "(cf_maxPerClass (pl_config pl) \<noteq> 0 \<longrightarrow> class_count rq pl \<le> cf_maxPerClass (pl_config pl)) \<and>
    (pl_next pl < 2 ^ 64 - 1 \<longrightarrow>
       inj_on (\<lambda>p. bk_generation (pl_heap pl p)) (set (pl_all pl)) \<and>
       (\<forall>p \<in> set (pl_all pl). bk_generation (pl_heap pl p) \<noteq> 0))"
proof -
  have ok: "kinds_ok pl" "lists_ok pl" using pool_reachable_ok [OF assms] by (simp_all add: state_ok_def pool_ok_def)
  have gen: "unat (bk_generation (pl_heap pl p)) = Suc p" if "pl_next pl < 2 ^ 64 - 1" "p \<in> set (pl_all pl)" for p
  proof -
    have "p < pl_next pl" using lists_okD(6) [OF ok(2) that(2)] .
    with that(1) have "Suc p < 2 ^ 64" by simp
    then have "unat (of_nat (Suc p) :: u64) = Suc p" by (simp only: unat_of_nat) simp
    with ok(1) \<open>p < pl_next pl\<close> show ?thesis by (simp add: kinds_ok_def)
  qed
  have "inj_on (\<lambda>p. bk_generation (pl_heap pl p)) (set (pl_all pl))" if "pl_next pl < 2 ^ 64 - 1"
    by (rule inj_onI) (use gen [OF that] in \<open>metis nat.inject\<close>)
  moreover have "bk_generation (pl_heap pl p) \<noteq> 0" if "pl_next pl < 2 ^ 64 - 1" "p \<in> set (pl_all pl)" for p
    using gen [OF that] by auto
  ultimately show ?thesis using ok(1) by (simp add: kinds_ok_def)
qed

theorem class_cap_kept_witness:
  "class_count demo_rq (fst (demo_returned False 7)) \<le> 1 \<and>
   bk_generation (pl_heap (fst (demo_returned False 7)) 0) \<noteq> 0"
proof -
  have "pool_reachable (fst (demo_returned False 7), snd (demo_returned False 7))"
    using demo_returned_reachable [of 7 False] by simp
  from class_cap_kept [OF this, of demo_rq] show ?thesis
    by (simp add: demo_returned_def demo_pool_def demo_config_def new_pool_def)
qed

text \<open>What becomes of the backings a choice or a trim releases.\<close>

lemma drop_backing_more:
  "pl_retireHook (drop_backing p pl) = pl_retireHook pl"
  "set (pl_retired pl) \<subseteq> set (pl_retired (drop_backing p pl))"
  "bk_retired (pl_heap (drop_backing p pl) p)"
  "pl_retireHook pl \<Longrightarrow> bk_buffer (pl_heap pl p) = Some b \<Longrightarrow> b \<in> set (pl_retired (drop_backing p pl))"
  by (auto simp: drop_backing_def release_backing_def Let_def pool_defs split: bool.split option.split)

lemma fold_drop_more:
  "pl_retireHook (fold drop_backing ps pl) = pl_retireHook pl"
  "set (pl_retired pl) \<subseteq> set (pl_retired (fold drop_backing ps pl))"
proof -
  show "pl_retireHook (fold drop_backing ps pl) = pl_retireHook pl"
    by (induction ps arbitrary: pl) (simp_all add: drop_backing_more)
  show "set (pl_retired pl) \<subseteq> set (pl_retired (fold drop_backing ps pl))"
    by (induction ps arbitrary: pl) (auto dest: drop_backing_more(2) [THEN subsetD])
qed

lemma fold_drop_gone:
  assumes "q \<in> set ps" and "distinct ps"
  shows "bk_retired (pl_heap (fold drop_backing ps pl) q) \<and>
    (pl_retireHook pl \<longrightarrow> set_option (bk_buffer (pl_heap pl q)) \<subseteq> set (pl_retired (fold drop_backing ps pl)))"
  using assms
proof (induction ps arbitrary: pl)
  case (Cons p ps)
  show ?case
  proof (cases "q = p")
    case True
    with Cons.prems have "q \<notin> set ps" by simp
    then have "bk_retired (pl_heap (fold drop_backing ps (drop_backing p pl)) q)"
      using True by (simp add: fold_drop_heap drop_backing_more(3))
    moreover have "set_option (bk_buffer (pl_heap pl q)) \<subseteq> set (pl_retired (drop_backing p pl))" if "pl_retireHook pl"
      using drop_backing_more(4) [OF that, of p] True by auto
    ultimately show ?thesis using fold_drop_more(2) [of "drop_backing p pl" ps] by auto
  next
    case False
    with Cons.prems Cons.IH [of "drop_backing p pl"] drop_backing_heap_other [OF False, of pl]
    show ?thesis by (simp add: drop_backing_more(1))
  qed
qed simp

definition let_go :: "nat \<Rightarrow> u64 \<Rightarrow> pool \<Rightarrow> pool \<Rightarrow> bool" where
  "let_go q completed pl pl' \<longleftrightarrow>
     reusable (pl_heap pl q) completed \<and> bk_bindingConsumers (pl_heap pl' q) = 0 \<and> bk_retired (pl_heap pl' q) \<and>
     (pl_retireHook pl \<longrightarrow> set_option (bk_buffer (pl_heap pl q)) \<subseteq> set (pl_retired pl'))"

lemma gone_let_go:
  assumes "distinct gone" and "q \<in> set gone" and "reusable (pl_heap pl q) completed" and "pins q = 0"
    and "pl_heap pl0 q = pl_heap pl q" and "pl_retireHook pl0 = pl_retireHook pl" and "ch \<noteq> Some q"
  shows "let_go q completed pl (fold drop_backing gone (chosen_base ch (race pins pl0)))"
proof -
  note g = fold_drop_gone [OF assms(2,1), of "chosen_base ch (race pins pl0)"]
  have hook: "pl_retireHook (chosen_base ch (race pins pl0)) = pl_retireHook pl"
    using assms(6) by (simp add: chosen_base_def unseal_def upd_backing_def race_def split: option.split)
  have "bk_buffer (pl_heap (chosen_base ch (race pins pl0)) q) = bk_buffer (pl_heap pl q)"
    using assms(5,7) by simp
  moreover have "bk_bindingConsumers (pl_heap (fold drop_backing gone (chosen_base ch (race pins pl0))) q) = 0"
    using assms(3,4,5,7) by (simp add: fold_drop_fields reusable_def)
  ultimately show ?thesis using g hook assms(3) by (simp add: let_go_def)
qed

lemma begin_acquire_hook: "pl_retireHook (begin_acquire rq pl) = pl_retireHook pl"
  by (simp add: begin_acquire_def take_returned_def upd_home_def Let_def)

lemma choose_let_go:
  assumes "pool_ok pl" and "choose_backing pins rq prefer completed (begin_acquire rq pl) = (pl', ch, n)"
    and "q \<in> set (pl_all pl)" and "q \<notin> set (pl_all pl')"
  shows "let_go q completed pl pl'"
proof -
  note begin_ok = pool_ok_begin [OF assms(1), of rq]
  obtain gone where g: "pl' = fold drop_backing gone (chosen_base ch (race pins (begin_acquire rq pl)))" "distinct gone"
    "set gone \<subseteq> set (scan_free rq completed (begin_acquire rq pl))" "\<forall>p \<in> set gone. pins p = 0 \<and> ch \<noteq> Some p"
    by (rule choose_backingE [OF begin_ok assms(2)])
  have q: "q \<in> set gone" using assms(3,4) unfolding g(1) by (auto simp: fold_drop_simps begin_acquire_simps)
  show ?thesis unfolding g(1)
    by (rule gone_let_go [OF g(2) q])
      (use q g(3,4) in \<open>auto simp: scan_free_props begin_acquire_simps begin_acquire_hook dest!: subsetD\<close>)
qed


text \<open>What follows the choice in an acquire leaves a released backing as it is.\<close>

lemma let_go_later:
  assumes "let_go q completed pl pl1" and "pl_heap pl' q = pl_heap pl1 q" and "pl_retired pl' = pl_retired pl1"
  shows "let_go q completed pl pl'"
  using assms by (simp add: let_go_def)

lemma race_released:
  "bk_retired (pl_heap pl q) \<Longrightarrow> pl_heap (chosen_base ch (race pins pl)) q =
     (if ch = Some q then (pl_heap pl q)\<lparr>bk_sealedBytes := 0\<rparr> else pl_heap pl q)"
  by simp

lemma pl_retired_simps:
  "pl_retired (upd_home f pl) = pl_retired pl" "pl_retired (reuse p pl) = pl_retired pl"
  "pl_retired (chosen_base ch (race pins pl)) = pl_retired pl" "pl_retired (note_exhausted pl) = pl_retired pl"
  by (auto simp: upd_home_def reuse_def lease_take_def upd_backing_def Let_def chosen_base_def unseal_def race_def
      note_exhausted_def split: option.split)

lemma arm_availability_retired:
  "arm_availability rq (pl, ck) = (pl', ck') \<Longrightarrow> pl_retired pl' = pl_retired pl"
  by (drule arm_availability_eq) (auto simp: upd_home_def)

lemma acquire_let_go:
  assumes "state_ok (pl, ck)" and "acquire alloc racing rq prefer (pl, ck) = ((pl', ck'), r)"
    and "q \<in> set (pl_all pl)" and "q \<notin> set (pl_all pl')"
  shows "let_go q (ck_completed ck) pl pl'"
  using assms(2)
proof (cases rule: acquire_cases)
  have ok: "pool_ok pl" using assms(1) by (simp add: state_ok_def)
  note begin_ok = pool_ok_begin [OF ok, of rq]
  note ok1 = pool_ok_choose [OF begin_ok]
  note go = choose_let_go [OF ok _ assms(3)]
  {
    case (reused pl1 p n)
    have out: "q \<notin> set (pl_all pl1)" using assms(4) reused(2) by (simp add: reuse_def lease_take_def upd_backing_def Let_def)
    have "p \<in> set (pl_all pl1)"
      using lists_okD(3) [OF pool_okD(1) [OF ok1 [OF reused(1)]]] choose_backing_frame(10) [OF begin_ok reused(1)] by blast
    with out have "q \<noteq> p" by blast
    with reused(2) show ?thesis
      by (intro let_go_later [OF go [OF reused(1) out]]) (simp_all add: reuse_heap leased_once_def pl_retired_simps)
  next
    case (bound pl1 n pl2 p)
    note lok = pool_okD(1) [OF ok1 [OF bound(1)]]
    note pl2 = choose_bound_props(1) [OF bound(4) lok]
    have out: "q \<notin> set (pl_all pl1)" using assms(4) bound(5) by (simp add: pl2 reuse_def lease_take_def upd_backing_def Let_def)
    have "p \<in> set (pl_all pl1)" using choose_bound_props(2) [OF bound(4) lok, of p] lists_okD(3) [OF lok] by auto
    with out have "q \<noteq> p" by blast
    with bound(5) go [OF bound(1) out] show ?thesis
      by (intro let_go_later [OF go [OF bound(1) out]])
        (simp_all add: reuse_heap leased_once_def pl_retired_simps pl2 let_go_def)
  next
    case (exhausted pl1 n pl2 pl3 ck1)
    note lok = pool_okD(1) [OF ok1 [OF exhausted(1)]]
    have pl2: "pl_all pl2 = pl_all pl1 \<and> pl_retired pl2 = pl_retired pl1 \<and>
        (bk_retired (pl_heap pl1 q) \<longrightarrow> pl_heap pl2 q = pl_heap pl1 q)"
    proof (cases "cf_reuseBound (pl_config pl1)")
      case True
      from choose_bound_props(1) [OF exhausted(3) [OF True] lok] show ?thesis by (simp add: pl_retired_simps)
    next
      case False
      with exhausted(4) show ?thesis by simp
    qed
    note arm = arm_availability_frame [OF exhausted(5)]
    have out: "q \<notin> set (pl_all pl1)" using assms(4) exhausted(6) pl2 by (simp add: arm)
    from go [OF exhausted(1) out] pl2 exhausted(6) show ?thesis
      by (intro let_go_later [OF go [OF exhausted(1) out]])
        (simp_all add: arm pl_retired_simps arm_availability_retired [OF exhausted(5)] let_go_def)
  next
    case (failed pl1 n e)
    with go assms(4) show ?thesis by simp
  next
    case (made pl1 n pl3 p)
    have new: "p = pl_next pl1" "pl_all pl3 = pl_all pl1 @ [p]" "pl_retired pl3 = pl_retired pl1"
      using made(3) by (auto simp: allocate_def Let_def pool_defs split: sum.splits)
    have out: "q \<notin> set (pl_all pl1)" using assms(4) made(4) new by simp
    have "q < pl_next pl1"
      using choose_backing_frame(4) [OF begin_ok made(1)] lists_okD(6) [OF pool_okD(1) [OF ok] assms(3)]
      by (simp add: begin_acquire_simps)
    with made(4) new allocate_heap [OF made(3), of q] show ?thesis
      by (intro let_go_later [OF go [OF made(1) out]]) (simp_all add: pl_retired_simps)
  }
qed

text \<open>
  Claim C11. The pool lets go only of what nothing uses: a backing that an acquire or a trim
  drops (whatever threads pin meanwhile) had no lease, no readback, no binding consumer and a
  retired safe point; it is marked retired with no consumer on it, so that a later pin is
  refused, and its buffer went to the host's \<open>retire\<close> hook when there is one.
\<close>

theorem released_only_unused:
  assumes "pool_reachable (pl, ck)" and "acquirer_step (pl, ck) (pl', ck')"
    and "q \<in> set (pl_all pl)" and "q \<notin> set (pl_all pl')"
  shows "reusable (pl_heap pl q) (ck_completed ck) \<and> bk_bindingConsumers (pl_heap pl' q) = 0 \<and>
    (\<exists>e. snd (pin_binding_consumer (Some q) pl') = Inl e) \<and>
    (pl_retireHook pl \<longrightarrow> set_option (bk_buffer (pl_heap pl q)) \<subseteq> set (pl_retired pl'))"
proof -
  have st: "state_ok (pl, ck)" by (rule pool_reachable_ok [OF assms(1)])
  then have ok: "pool_ok pl" by (simp add: state_ok_def)
  have "let_go q (ck_completed ck) pl pl'"
    using assms(2)
  proof (cases rule: acquirer_step.cases)
    case (acquire alloc racing rq prfr)
    obtain r where "acquire alloc racing rq prfr (pl, ck) = ((pl', ck'), r)"
      using acquire by (metis prod.exhaust_sel)
    then show ?thesis by (rule acquire_let_go [OF st _ assms(3,4)])
  next
    case (trim pins)
    define pl1 where "pl1 = take_returned pl"
    define gone where "gone = filter (\<lambda>p. pins p = 0) (trim_found (ck_completed ck) pl1)"
    have taken: "pl_all pl1 = pl_all pl" "pl_heap pl1 = pl_heap pl" "pl_retireHook pl1 = pl_retireHook pl"
      by (simp_all add: pl1_def take_returned_def Let_def)
    have pl': "pl' = upd_home emit_gauges (fold drop_backing gone (chosen_base None (race pins pl1)))"
      using trim trim_eq [OF ok, of pins ck] by (simp add: gone_def pl1_def chosen_base_def)
    have ok1: "pool_ok pl1" using ok by (auto simp: pl1_def)
    have "distinct (map fst (pl_active pl1))" using pool_okD(3) [OF ok1] by (simp add: kinds_ok_def)
    then have dist: "distinct gone" unfolding gone_def
      by (intro distinct_filter trim_found_distinct lists_okD(2) [OF pool_okD(1) [OF ok1]])
    have q: "q \<in> set gone" using assms(3,4) by (auto simp: pl' fold_drop_simps taken)
    then have "reusable (pl_heap pl q) (ck_completed ck)" "pins q = 0"
      using trim_found_props [of q "ck_completed ck" pl1] by (auto simp: gone_def taken)
    then have "let_go q (ck_completed ck) pl (fold drop_backing gone (chosen_base None (race pins pl1)))"
      by (intro gone_let_go [OF dist q]) (simp_all add: taken)
    then show ?thesis unfolding pl' by (rule let_go_later) (simp_all add: pl_retired_simps)
  qed
  then show ?thesis by (auto simp: let_go_def pin_binding_consumer_def upd_backing_def Let_def)
qed


lemma demo_trimmed:
  "pl_all (fst (trim no_race (demo_returned False 0))) = []"
  by (simp add: trim_def pool_eval trim_active_def release_backing_def erase_def)

theorem released_only_unused_witness:
  "\<exists>e. snd (pin_binding_consumer (Some 0) (fst (trim no_race (demo_returned False 0)))) = Inl e"
proof -
  let ?st = "demo_returned False 0"
  have step: "acquirer_step (fst ?st, snd ?st) (fst (trim no_race ?st), snd (trim no_race ?st))"
    using acquirer_step.trim [of ?st no_race] by simp
  have reach: "pool_reachable (fst ?st, snd ?st)" using demo_returned_reachable [of 0 False] by simp
  have held: "0 \<in> set (pl_all (fst ?st))" by (simp add: demo_returned_def demo_pool_def)
  have gone: "0 \<notin> set (pl_all (fst (trim no_race ?st)))" unfolding demo_trimmed by simp
  from released_only_unused [OF reach step held gone] show ?thesis by blast
qed

end
