(* ===== verification/PoolTrim.thy ===== *)
theory PoolTrim
  imports PoolProps
begin

text \<open>
  What the pool keeps: the spares an acquire and a trim leave (and that they are those nearest
  the newest contents), the floor it reports to a journal, and what its destructor leaves.
\<close>

section \<open>The spares of a trim\<close>

lemma trim_split_taken:
  assumes "distinct ps"
  shows "set ps - set (trim_split spare cls heap ps n) =
     set (take (spare - n) (filter (\<lambda>p. bk_capacityClass (heap p) = cls) ps))"
  using assms
proof (induction spare cls heap ps n rule: trim_split.induct)
  case (2 spare cls heap p ps n)
  have notin: "p \<notin> set (trim_split spare cls heap ps k)" for k using 2(3) trim_split_subset [of spare cls heap ps k] by auto
  have notin': "p \<notin> set (take k (filter Q ps))" for k Q using 2(3) by (auto dest: in_set_takeD)
  show ?case
  proof (cases "bk_capacityClass (heap p) = cls \<and> n < spare")
    case True
    then have "spare - n = Suc (spare - (n + 1))" by (simp add: Suc_diff_Suc)
    with 2 True notin [of "n + 1"] show ?thesis by auto
  next
    case False
    then have "set (p # ps) - set (trim_split spare cls heap (p # ps) n) = set ps - set (trim_split spare cls heap ps n)"
      using 2(3) by auto
    also have "\<dots> = set (take (spare - n) (filter (\<lambda>p. bk_capacityClass (heap p) = cls) ps))"
      using 2(2) [OF False] 2(3) by simp
    also have "\<dots> = set (take (spare - n) (filter (\<lambda>p. bk_capacityClass (heap p) = cls) (p # ps)))"
      using False by (cases "spare - n") auto
    finally show ?thesis .
  qed
qed simp

text \<open>A sorted list's prefix comes before the rest.\<close>

lemma sorted_take_le:
  fixes f :: "'a \<Rightarrow> 'b::linorder"
  assumes "sorted (map f xs)" and "k \<in> set (take n xs)" and "q \<in> set xs" and "q \<notin> set (take n xs)"
  shows "f k \<le> f q"
proof -
  have "xs = take n xs @ drop n xs" by simp
  then have "q \<in> set (drop n xs)" using assms(3,4) by (metis Un_iff set_append)
  moreover have "sorted (map f (take n xs @ drop n xs))" using assms(1) by simp
  ultimately show ?thesis using assms(2) by (auto simp: sorted_append simp del: append_take_drop_id)
qed

lemma flip_le: "(any_epoch - a \<le> any_epoch - b) = (b \<le> (a :: u64))"
proof -
  have "unat (any_epoch - c) = 2 ^ 64 - 1 - unat c" for c
    by (simp add: any_epoch_def unat_sub unsigned_minus_1_eq_mask mask_eq_exp_minus_1)
  moreover have "unat c \<le> 2 ^ 64 - 1" for c :: u64
    using unsigned_less [where 'a = nat, of c] by simp
  ultimately show ?thesis by (simp add: word_le_nat_alt le_diff_iff')
qed


lemma take_returned_simps:
  "pl_all (take_returned pl) = pl_all pl" "pl_heap (take_returned pl) = pl_heap pl"
  "pl_active (take_returned pl) = pl_active pl" "pl_config (take_returned pl) = pl_config pl"
  by (simp_all add: take_returned_def Let_def)

lemma take_returned_free:
  "lists_ok pl \<Longrightarrow> set (pl_free (take_returned pl)) = {p \<in> set (pl_all pl). bk_leases (pl_heap pl p) = 0}"
  by (auto simp: take_returned_def Let_def lists_ok_def)

definition trim_candidates :: "pool_key \<Rightarrow> pool_state \<Rightarrow> nat set" where
  "trim_candidates key st =
     {q \<in> set (pl_all (fst st)). key_of_backing (pl_heap (fst st) q) = key \<and>
        reusable (pl_heap (fst st) q) (ck_completed (snd st))}"

text \<open>The candidates a trim keeps, as a prefix of the sorted list.\<close>

lemma trim_kept:
  assumes "pool_ok pl" and "trim no_race (pl, ck) = (pl', ck')" and "(key, cls) \<in> set (pl_active pl)"
  obtains cands where "set cands = trim_candidates key (pl, ck)" and "distinct cands"
    and "sorted (map (\<lambda>p. any_epoch - bk_contentEpoch (pl_heap pl p)) cands)"
    and "trim_candidates key (pl, ck) \<inter> set (pl_all pl') =
      set (take (cf_spareFree (pl_config pl)) (filter (\<lambda>p. bk_capacityClass (pl_heap pl p) = cls) cands))"
proof -
  define pl1 where "pl1 = take_returned pl"
  have ok1: "pool_ok pl1" using assms(1) by (auto simp: pl1_def)
  note simps = take_returned_simps [of pl, folded pl1_def]
  define cands where "cands = sort_key (\<lambda>p. any_epoch - bk_contentEpoch (pl_heap pl1 p))
    (filter (\<lambda>p. key_of_backing (pl_heap pl1 p) = key \<and> reusable (pl_heap pl1 p) (ck_completed ck)) (pl_free pl1))"
  have free: "set (pl_free pl1) = {p \<in> set (pl_all pl). bk_leases (pl_heap pl p) = 0}"
    unfolding pl1_def by (rule take_returned_free [OF pool_okD(1) [OF assms(1)]])
  have cset: "set cands = trim_candidates key (pl, ck)"
    by (auto simp: cands_def trim_candidates_def free simps reusable_def)
  have dist: "distinct cands" using lists_okD(2) [OF pool_okD(1) [OF ok1]] by (simp add: cands_def)
  have sorted: "sorted (map (\<lambda>p. any_epoch - bk_contentEpoch (pl_heap pl p)) cands)"
    unfolding cands_def simps by (rule sorted_sort_key)
  have active: "trim_active (ck_completed ck) pl1 (key, cls) =
      trim_split (cf_spareFree (pl_config pl)) cls (pl_heap pl) cands 0"
    by (simp add: trim_active_def cands_def simps)
  have "pl_all pl' = pl_all (fold drop_backing (trim_found (ck_completed ck) pl1) (race no_race pl1))"
    using assms(2) trim_eq [OF assms(1), of no_race ck] by (simp add: pl1_def no_race_def upd_home_def)
  then have all': "set (pl_all pl') = set (pl_all pl) - set (trim_found (ck_completed ck) pl1)"
    by (simp add: fold_drop_simps simps)
  have only: "q \<in> set (trim_found (ck_completed ck) pl1) \<longleftrightarrow> q \<in> set (trim_active (ck_completed ck) pl1 (key, cls))"
    if "q \<in> trim_candidates key (pl, ck)" for q
  proof
    assume "q \<in> set (trim_found (ck_completed ck) pl1)"
    then obtain a where a: "a \<in> set (pl_active pl1)" "q \<in> set (trim_active (ck_completed ck) pl1 a)"
      by (auto simp: trim_found_def)
    then have "fst a = key" using trim_active_props that by (fastforce simp: trim_candidates_def simps)
    moreover have "distinct (map fst (pl_active pl))" using pool_okD(3) [OF assms(1)] by (simp add: kinds_ok_def)
    ultimately have "a = (key, cls)" using a(1) assms(3) by (cases a) (auto simp: simps dest: eq_key_imp_eq_value)
    with a(2) show "q \<in> set (trim_active (ck_completed ck) pl1 (key, cls))" by simp
  next
    assume "q \<in> set (trim_active (ck_completed ck) pl1 (key, cls))"
    then show "q \<in> set (trim_found (ck_completed ck) pl1)" using assms(3) by (auto simp: trim_found_def simps)
  qed
  have "trim_candidates key (pl, ck) \<inter> set (pl_all pl') =
      set cands - set (trim_split (cf_spareFree (pl_config pl)) cls (pl_heap pl) cands 0)"
    using only by (auto simp: all' cset active trim_candidates_def)
  also have "\<dots> = set (take (cf_spareFree (pl_config pl)) (filter (\<lambda>p. bk_capacityClass (pl_heap pl p) = cls) cands))"
    using trim_split_taken [OF dist, of "cf_spareFree (pl_config pl)" cls "pl_heap pl" 0] by simp
  finally show thesis by (rule that [OF cset dist sorted])
qed

text \<open>
  A trim keeps the right spares: for every active key it leaves exactly the first
  \<open>spareFree\<close> of the key's reusable backings that are of the class last asked for, in the
  order of their content epochs (so each kept one is at least as new as each released one),
  and none of another class.
\<close>

theorem trim_keeps_newest_spares:
  assumes "pool_reachable (pl, ck)" and "trim no_race (pl, ck) = (pl', ck')" and "(key, cls) \<in> set (pl_active pl)"
  shows "card (trim_candidates key (pl, ck) \<inter> set (pl_all pl')) =
      min (cf_spareFree (pl_config pl))
        (card {q \<in> trim_candidates key (pl, ck). bk_capacityClass (pl_heap pl q) = cls}) \<and>
    (\<forall>k \<in> trim_candidates key (pl, ck) \<inter> set (pl_all pl'). bk_capacityClass (pl_heap pl k) = cls \<and>
      (\<forall>q \<in> trim_candidates key (pl, ck) - set (pl_all pl').
         bk_capacityClass (pl_heap pl q) = cls \<longrightarrow> bk_contentEpoch (pl_heap pl q) \<le> bk_contentEpoch (pl_heap pl k)))"
proof -
  have ok: "pool_ok pl" using pool_reachable_ok [OF assms(1)] by (simp add: state_ok_def)
  obtain cands where c: "set cands = trim_candidates key (pl, ck)" "distinct cands"
    "sorted (map (\<lambda>p. any_epoch - bk_contentEpoch (pl_heap pl p)) cands)"
    "trim_candidates key (pl, ck) \<inter> set (pl_all pl') =
      set (take (cf_spareFree (pl_config pl)) (filter (\<lambda>p. bk_capacityClass (pl_heap pl p) = cls) cands))"
    by (rule trim_kept [OF ok assms(2,3)])
  define mine where "mine = filter (\<lambda>p. bk_capacityClass (pl_heap pl p) = cls) cands"
  have mine: "set mine = {q \<in> trim_candidates key (pl, ck). bk_capacityClass (pl_heap pl q) = cls}" "distinct mine"
    using c(1,2) by (auto simp: mine_def)
  have "sorted (map (\<lambda>p. any_epoch - bk_contentEpoch (pl_heap pl p)) mine)"
    unfolding mine_def by (rule sorted_filter [OF c(3)])
  then have newest: "bk_contentEpoch (pl_heap pl q) \<le> bk_contentEpoch (pl_heap pl k)"
    if "k \<in> set (take (cf_spareFree (pl_config pl)) mine)" "q \<in> set mine"
      "q \<notin> set (take (cf_spareFree (pl_config pl)) mine)" for k q
    using sorted_take_le [OF _ that, of "\<lambda>p. any_epoch - bk_contentEpoch (pl_heap pl p)"] by (simp add: flip_le)
  have "card (set (take (cf_spareFree (pl_config pl)) mine)) = min (cf_spareFree (pl_config pl)) (card (set mine))"
    using mine(2) by (simp add: distinct_card)
  moreover have "bk_capacityClass (pl_heap pl k) = cls" if "k \<in> set (take (cf_spareFree (pl_config pl)) mine)" for k
    using in_set_takeD [OF that] mine(1) by simp
  ultimately show ?thesis
    using newest unfolding c(4) mine_def [symmetric] mine(1) [symmetric] by (auto simp: mine(1) c(4) [folded mine_def, symmetric])
qed


lemma demo_active: "pl_active (fst (demo_returned r at)) = [(key_of_request demo_rq, 4)]"
  by (simp add: demo_returned_def demo_pool_def)

theorem trim_keeps_newest_spares_witness:
  "trim_candidates (key_of_request demo_rq) (demo_returned False 0) \<inter>
     set (pl_all (fst (trim no_race (demo_returned False 0)))) = {}"
proof -
  let ?st = "demo_returned False 0"
  have reach: "pool_reachable (fst ?st, snd ?st)" using demo_returned_reachable [of 0 False] by simp
  have run: "trim no_race (fst ?st, snd ?st) = (fst (trim no_race ?st), snd (trim no_race ?st))" by simp
  have spare: "cf_spareFree (pl_config (fst ?st)) = 0"
    by (simp add: demo_returned_def demo_pool_def demo_config_def new_pool_def)
  have "finite (trim_candidates (key_of_request demo_rq) ?st)" by (simp add: trim_candidates_def)
  then show ?thesis
    using trim_keeps_newest_spares [OF reach run, of "key_of_request demo_rq" 4] demo_active [of False 0] spare
    by simp
qed

section \<open>The spares of an acquire\<close>

definition shed_ok :: "backing_request \<Rightarrow> u64 \<Rightarrow> pool \<Rightarrow> nat set \<Rightarrow> bool" where
  "shed_ok rq completed pl qs \<longleftrightarrow>
     (\<forall>q \<in> qs. bk_capacityClass (pl_heap pl q) = rq_capacityClass rq) \<and> card qs \<le> cf_spareFree (pl_config pl)"

definition idle_of_key :: "backing_request \<Rightarrow> u64 \<Rightarrow> pool \<Rightarrow> nat set" where
  "idle_of_key rq completed pl =
     {q \<in> set (pl_all pl). key_of_backing (pl_heap pl q) = key_of_request rq \<and> reusable (pl_heap pl q) completed}"

text \<open>After the choice, what is left idle of the key (the chosen one apart) is at most the spares.\<close>

lemma choose_sheds:
  assumes "pool_ok pl" and "choose_backing no_race rq prefer completed (begin_acquire rq pl) = (pl1, ch, n)"
  shows "\<exists>kept. idle_of_key rq completed pl1 - {p. ch = Some p} \<subseteq> set kept \<and>
    length kept \<le> cf_spareFree (pl_config pl) \<and>
    (\<forall>q \<in> set kept. bk_capacityClass (pl_heap pl1 q) = rq_capacityClass rq)"
proof -
  define pl0 where "pl0 = begin_acquire rq pl"
  have ok0: "pool_ok pl0" using assms(1) by (auto simp: pl0_def)
  note ch = assms(2) [folded pl0_def]
  define same where "same = same_class_found rq prefer completed pl0"
  define other where "other = other_class_found rq completed pl0"
  note hold = choose_backing_hold(1) [OF ok0 ch]
  have idle: "q \<in> set same \<union> set other" if "q \<in> idle_of_key rq completed pl1" for q
  proof -
    have all: "q \<in> set (pl_all pl1)" and q: "key_of_backing (pl_heap pl1 q) = key_of_request rq"
      "reusable (pl_heap pl1 q) completed" using that by (auto simp: idle_of_key_def)
    have "q \<in> set (pl_free pl1)"
      by (rule free_after_choice [OF assms(1,2) all]) (use q(2) in \<open>simp add: reusable_def\<close>)
    then have "q \<in> set (pl_free pl0)" using choose_backing_frame(15) [OF ok0 ch] by blast
    with q hold [of q] show ?thesis
      by (auto simp: same_def other_def same_class_found_def other_class_found_def scan_free_props reusable_def same_hold_def)
  qed
  have class_same: "bk_capacityClass (pl_heap pl1 q) = rq_capacityClass rq" if "q \<in> set same" for q
    using that hold [of q] by (simp add: same_def same_class_found_def same_hold_def)
  have config: "pl_config pl0 = pl_config pl" by (simp add: pl0_def begin_acquire_simps)
  obtain gone where g: "pl1 = fold drop_backing gone (chosen_base ch (race no_race pl0))"
    "\<forall>c. ch = Some c \<longrightarrow> no_race c = 0 \<and>
      (\<exists>ys qs. same = ys @ c # qs \<and> (\<forall>y \<in> set ys. 0 < no_race y) \<and>
        set gone = {p \<in> set other \<union> set (drop (cf_spareFree (pl_config pl0)) qs). no_race p = 0})"
    "ch = None \<longrightarrow> (\<forall>p \<in> set same. 0 < no_race p) \<and> set gone = {p \<in> set other. no_race p = 0}"
    by (rule choose_backingE [OF ok0 ch, folded same_def other_def])
  have left: "q \<notin> set gone" if "q \<in> idle_of_key rq completed pl1" for q
    using that by (auto simp: idle_of_key_def g(1) fold_drop_simps)
  show ?thesis
  proof (cases ch)
    case None
    then have "same = []" "set gone = set other" using g(3) by (auto simp: no_race_def)
    then have "idle_of_key rq completed pl1 = {}" using idle left by auto
    then show ?thesis by (intro exI [of _ "[]"]) simp
  next
    case (Some c)
    then obtain ys qs where ys: "same = ys @ c # qs" "\<forall>y \<in> set ys. 0 < no_race y"
      "set gone = {p \<in> set other \<union> set (drop (cf_spareFree (pl_config pl0)) qs). no_race p = 0}"
      using g(2) by blast
    then have same: "same = c # qs" and gone: "set gone = set other \<union> set (drop (cf_spareFree (pl_config pl)) qs)"
      by (auto simp: no_race_def config neq_Nil_conv)
    have "q \<in> set (take (cf_spareFree (pl_config pl)) qs)" if "q \<in> idle_of_key rq completed pl1" "q \<noteq> c" for q
    proof -
      have "q \<in> set qs" "q \<notin> set (drop (cf_spareFree (pl_config pl)) qs)"
        using idle [OF that(1)] left [OF that(1)] that(2) same gone by auto
      then show ?thesis by (metis Un_iff append_take_drop_id set_append)
    qed
    then show ?thesis using Some class_same same
      by (intro exI [of _ "take (cf_spareFree (pl_config pl)) qs"]) (auto dest: in_set_takeD)
  qed
qed


text \<open>What an acquire leaves idle was idle after its choice.\<close>

lemma acquire_idle:
  assumes "state_ok (pl, ck)" and "acquire alloc racing rq prefer (pl, ck) = ((pl', ck'), Inr (lease, info))"
  obtains pl1 ch n where
    "choose_backing (fst racing) rq prefer (ck_completed ck) (begin_acquire rq pl) = (pl1, ch, n)"
    and "\<And>q. q \<in> idle_of_key rq (ck_completed ck) pl' \<Longrightarrow>
      q \<in> idle_of_key rq (ck_completed ck) pl1 - {p. ch = Some p} \<and>
      bk_capacityClass (pl_heap pl' q) = bk_capacityClass (pl_heap pl1 q)"
  using assms(2)
proof (cases rule: acquire_cases)
  have ok: "pool_ok pl" using assms(1) by (simp add: state_ok_def)
  note begin_ok = pool_ok_begin [OF ok, of rq]
  note ok1 = pool_ok_choose [OF begin_ok]
  {
    case (reused pl1 p n)
    have "q \<in> idle_of_key rq (ck_completed ck) pl1 - {x. Some p = Some x} \<and>
      bk_capacityClass (pl_heap pl' q) = bk_capacityClass (pl_heap pl1 q)" if "q \<in> idle_of_key rq (ck_completed ck) pl'" for q
      using that reused(2)
      by (auto simp: idle_of_key_def reuse_heap leased_once_def reusable_def key_of_backing_def split: if_splits)
        (auto simp: reuse_def lease_take_def upd_backing_def Let_def)
    then show thesis by (rule that [OF reused(1)])
  next
    case (bound pl1 n pl2 p)
    note lok = pool_okD(1) [OF ok1 [OF bound(1)]]
    note hold = choose_bound_hold [OF bound(4) lok]
    have "q \<in> idle_of_key rq (ck_completed ck) pl1 - {x. None = Some x} \<and>
      bk_capacityClass (pl_heap pl' q) = bk_capacityClass (pl_heap pl1 q)" if "q \<in> idle_of_key rq (ck_completed ck) pl'" for q
    proof -
      have "pl_all pl' = pl_all pl1" using bound(5) choose_bound_props(1) [OF bound(4) lok]
        by (simp add: reuse_def lease_take_def upd_backing_def Let_def)
      with that hold [of q] bound(5) show ?thesis
        by (auto simp: idle_of_key_def reuse_heap leased_once_def reusable_def key_of_backing_def same_hold_def split: if_splits)
    qed
    then show thesis by (rule that [OF bound(1)])
  next
    case (exhausted pl1 n pl2 pl3 ck1)
    note lok = pool_okD(1) [OF ok1 [OF exhausted(1)]]
    note arm = arm_availability_frame [OF exhausted(5)]
    have pl2: "pl_all pl2 = pl_all pl1 \<and> same_hold (pl_heap pl1 q) (pl_heap pl2 q)" for q
    proof (cases "cf_reuseBound (pl_config pl1)")
      case True
      from choose_bound_props(1) [OF exhausted(3) [OF True] lok] choose_bound_hold [OF exhausted(3) [OF True] lok]
      show ?thesis by simp
    next
      case False
      with exhausted(4) show ?thesis by (simp add: same_hold_def)
    qed
    have "q \<in> idle_of_key rq (ck_completed ck) pl1 - {x. None = Some x} \<and>
      bk_capacityClass (pl_heap pl' q) = bk_capacityClass (pl_heap pl1 q)" if "q \<in> idle_of_key rq (ck_completed ck) pl'" for q
      using that pl2 [of q] exhausted(6) by (auto simp: idle_of_key_def arm reusable_def same_hold_def)
    then show thesis by (rule that [OF exhausted(1)])
  next
    case (failed pl1 n e)
    then show thesis by simp
  next
    case (made pl1 n pl3 p)
    have new: "p = pl_next pl1" "pl_all pl3 = pl_all pl1 @ [p]" "bk_leases (pl_heap pl3 p) = 1"
      using made(3) by (auto simp: allocate_def Let_def pool_defs blank_backing_def split: sum.splits)
    have "q \<in> idle_of_key rq (ck_completed ck) pl1 - {x. None = Some x} \<and>
      bk_capacityClass (pl_heap pl' q) = bk_capacityClass (pl_heap pl1 q)" if "q \<in> idle_of_key rq (ck_completed ck) pl'" for q
    proof -
      have q: "q \<in> set (pl_all pl1)" "q \<noteq> p" using that made(4) new by (auto simp: idle_of_key_def reusable_def)
      then have "q < pl_next pl1" using lists_okD(6) [OF pool_okD(1) [OF ok1 [OF made(1)]]] by blast
      with that q made(4) allocate_heap [OF made(3), of q] show ?thesis by (auto simp: idle_of_key_def)
    qed
    then show thesis by (rule that [OF made(1)])
  }
qed

text \<open>
  An acquire sheds what its key no longer needs: when no pin races it, what it leaves
  idle of the asked key (reusable at the clock's completed point) is of the asked class only,
  and at most \<open>spareFree\<close> of it, whether the acquire reused, allocated or returned none.
\<close>

theorem acquire_sheds_spares:
  assumes "pool_reachable (pl, ck)"
    and "acquire alloc (no_race, pins) rq prefer (pl, ck) = ((pl', ck'), Inr (lease, info))"
  shows "(\<forall>q \<in> idle_of_key rq (ck_completed ck) pl'. bk_capacityClass (pl_heap pl' q) = rq_capacityClass rq) \<and>
    card (idle_of_key rq (ck_completed ck) pl') \<le> cf_spareFree (pl_config pl)"
proof -
  have st: "state_ok (pl, ck)" by (rule pool_reachable_ok [OF assms(1)])
  then have ok: "pool_ok pl" by (simp add: state_ok_def)
  obtain pl1 ch n where c: "choose_backing no_race rq prefer (ck_completed ck) (begin_acquire rq pl) = (pl1, ch, n)"
    and idle: "\<And>q. q \<in> idle_of_key rq (ck_completed ck) pl' \<Longrightarrow>
      q \<in> idle_of_key rq (ck_completed ck) pl1 - {p. ch = Some p} \<and>
      bk_capacityClass (pl_heap pl' q) = bk_capacityClass (pl_heap pl1 q)"
    by (rule acquire_idle [OF st assms(2)]) (simp only: fst_conv)
  obtain kept where k: "idle_of_key rq (ck_completed ck) pl1 - {p. ch = Some p} \<subseteq> set kept"
    "length kept \<le> cf_spareFree (pl_config pl)" "\<forall>q \<in> set kept. bk_capacityClass (pl_heap pl1 q) = rq_capacityClass rq"
    using choose_sheds [OF ok c] by blast
  have sub: "idle_of_key rq (ck_completed ck) pl' \<subseteq> set kept" using idle k(1) by blast
  have "card (idle_of_key rq (ck_completed ck) pl') \<le> card (set kept)" by (rule card_mono [OF _ sub]) simp
  also have "\<dots> \<le> cf_spareFree (pl_config pl)" using card_length [of kept] k(2) by simp
  finally have "card (idle_of_key rq (ck_completed ck) pl') \<le> cf_spareFree (pl_config pl)" .
  moreover have "bk_capacityClass (pl_heap pl' q) = rq_capacityClass rq" if "q \<in> idle_of_key rq (ck_completed ck) pl'" for q
    using idle [OF that] k(1,3) by auto
  ultimately show ?thesis by blast
qed


text \<open>The example asked for a larger class: the smaller backing goes.\<close>

definition demo_larger :: backing_request where
  "demo_larger = demo_rq\<lparr>rq_capacityClass := 8\<rparr>"

lemma demo_larger_made:
  "\<exists>st. acquire demo_alloc (no_race, no_race) demo_larger 9 (demo_returned False 0) =
     (st, Inr (Some 1, no_info\<lparr>ai_allocated := True, ai_released := 1\<rparr>))"
  by (simp add: pool_eval demo_larger_def release_backing_def erase_def)

theorem acquire_sheds_spares_witness:
  "idle_of_key demo_larger 0 (fst (fst (acquire demo_alloc (no_race, no_race) demo_larger 9 (demo_returned False 0)))) = {}"
proof -
  let ?st = "demo_returned False 0"
  obtain st where eq: "acquire demo_alloc (no_race, no_race) demo_larger 9 (fst ?st, snd ?st) =
      ((fst st, snd st), Inr (Some 1, no_info\<lparr>ai_allocated := True, ai_released := 1\<rparr>))"
    using demo_larger_made by (auto simp: prod_eq_iff)
  have reach: "pool_reachable (fst ?st, snd ?st)" using demo_returned_reachable [of 0 False] by simp
  have spare: "cf_spareFree (pl_config (fst ?st)) = 0" "ck_completed (snd ?st) = 0"
    by (simp_all add: demo_returned_def demo_pool_def demo_config_def new_pool_def new_clock_def)
  have fin: "finite (idle_of_key demo_larger 0 (fst st))" by (simp add: idle_of_key_def)
  have "card (idle_of_key demo_larger 0 (fst st)) \<le> 0"
    using acquire_sheds_spares [OF reach eq] unfolding spare by blast
  with fin eq show ?thesis by simp
qed

section \<open>The floor, and the end of the pool\<close>

definition lowest_of :: "u64 option \<Rightarrow> u64 set \<Rightarrow> bool" where
  "lowest_of acc S \<longleftrightarrow> finite S \<and> acc = (if S = {} then None else Some (Min S))"

definition older :: "u64 \<Rightarrow> u64 option \<Rightarrow> u64 option" where
  "older epoch oldest =
     (if epoch \<noteq> 0 \<and> (case oldest of None \<Rightarrow> True | Some e \<Rightarrow> epoch < e) then Some epoch else oldest)"

lemma lowest_of_older:
  assumes "lowest_of acc S"
  shows "lowest_of (older e acc) (S \<union> ({e} - {0}))"
proof (cases "e = 0")
  case True
  with assms show ?thesis by (simp add: older_def)
next
  case False
  then have "older e None = Some e" "older e (Some m) = Some (min e m)" for m
    by (auto simp: older_def min_def)
  with False assms show ?thesis by (cases "S = {}") (simp_all add: lowest_of_def)
qed

lemma lowest_of_fold:
  "lowest_of acc S \<Longrightarrow> lowest_of (fold (\<lambda>p. older (f p)) ps acc) (S \<union> (f ` set ps - {0}))"
proof (induction ps arbitrary: acc S)
  case (Cons p ps)
  have "S \<union> ({f p} - {0}) \<union> (f ` set ps - {0}) = S \<union> (f ` set (p # ps) - {0})" by auto
  with Cons.IH [OF lowest_of_older [OF Cons.prems, of "f p"]] show ?case by simp
qed simp

text \<open>
  The floor a journal may trim to is exact: \<open>OldestContentEpoch\<close> is the smallest
  content epoch of any backing the pool holds, leaving aside those without contents (epoch 0),
  and none when no backing has contents. So no backing needs a journal record at or below it.
\<close>

theorem oldest_content_epoch_exact:
  "oldest_content_epoch pl =
     (let epochs = (\<lambda>p. bk_contentEpoch (pl_heap pl p)) ` set (pl_all pl) - {0}
      in if epochs = {} then None else Some (Min epochs))"
proof -
  have "oldest_content_epoch pl = fold (\<lambda>p. older (bk_contentEpoch (pl_heap pl p))) (pl_all pl) None"
    unfolding oldest_content_epoch_def older_def Let_def ..
  moreover have "lowest_of None {}" by (simp add: lowest_of_def)
  from lowest_of_fold [OF this, of "\<lambda>p. bk_contentEpoch (pl_heap pl p)" "pl_all pl"]
  have "lowest_of (fold (\<lambda>p. older (bk_contentEpoch (pl_heap pl p))) (pl_all pl) None)
      ((\<lambda>p. bk_contentEpoch (pl_heap pl p)) ` set (pl_all pl) - {0})" by simp
  ultimately show ?thesis by (simp add: lowest_of_def Let_def)
qed

text \<open>The destructor's pass over the backings.\<close>

lemma destroy_backing_simps:
  "pl_all (destroy_backing p pl) = pl_all pl" "pl_retireHook (destroy_backing p pl) = pl_retireHook pl"
  "pl_home (destroy_backing p pl) = pl_home pl"
  "q \<noteq> p \<Longrightarrow> pl_heap (destroy_backing p pl) q = pl_heap pl q"
  "bk_retired (pl_heap (destroy_backing p pl) p)"
  "bk_leases (pl_heap (destroy_backing p pl) q) = bk_leases (pl_heap pl q)"
  by (auto simp: destroy_backing_def upd_backing_def Let_def split: bool.splits option.splits)

definition unused_buffer :: "backing \<Rightarrow> nat list" where
  "unused_buffer b =
     (if bk_leases b = 0 \<and> bk_bindingConsumers b = 0 then (case bk_buffer b of None \<Rightarrow> [] | Some x \<Rightarrow> [x]) else [])"

lemma destroy_backing_retired:
  "pl_retireHook pl \<Longrightarrow> pl_retired (destroy_backing p pl) = pl_retired pl @ unused_buffer (pl_heap pl p)"
  by (auto simp: destroy_backing_def upd_backing_def unused_buffer_def Let_def split: bool.splits option.splits)

lemma fold_destroy:
  assumes "distinct ps"
  shows "pl_home (fold destroy_backing ps pl) = pl_home pl \<and> pl_all (fold destroy_backing ps pl) = pl_all pl \<and>
    (\<forall>q \<in> set ps. bk_retired (pl_heap (fold destroy_backing ps pl) q)) \<and>
    (\<forall>q. q \<notin> set ps \<longrightarrow> pl_heap (fold destroy_backing ps pl) q = pl_heap pl q) \<and>
    (pl_retireHook pl \<longrightarrow> pl_retired (fold destroy_backing ps pl) =
       pl_retired pl @ concat (map (\<lambda>p. unused_buffer (pl_heap pl p)) ps))"
  using assms
proof (induction ps arbitrary: pl)
  case (Cons p ps)
  then have p: "p \<notin> set ps" by simp
  have "pl_heap (destroy_backing p pl) q = pl_heap pl q" if "q \<in> set ps" for q
    by (rule destroy_backing_simps(4)) (use that p in blast)
  then have "map (\<lambda>q. unused_buffer (pl_heap (destroy_backing p pl) q)) ps = map (\<lambda>q. unused_buffer (pl_heap pl q)) ps"
    by simp
  with Cons.IH [of "destroy_backing p pl"] Cons.prems p show ?case
    by (auto simp: destroy_backing_simps destroy_backing_retired)
qed simp

text \<open>
  The end of a pool: every backing it held is marked retired, so that no binding
  consumer pins it any more; the host's \<open>retire\<close> hook got exactly the buffers of those that
  have no lease and no binding consumer (the others' go with their last holder); and a lease
  dropped later reaches no return stack.
\<close>

theorem destroy_pool_leaves:
  assumes "pool_reachable (pl, ck)"
  shows "(\<forall>p \<in> set (pl_all pl). bk_retired (pl_heap (destroy_pool pl) p) \<and>
      (\<exists>e. snd (pin_binding_consumer (Some p) (destroy_pool pl)) = Inl e)) \<and>
    (pl_retireHook pl \<longrightarrow> pl_retired (destroy_pool pl) =
       pl_retired pl @ concat (map (\<lambda>p. unused_buffer (pl_heap pl p)) (pl_all pl))) \<and>
    hm_returned (pl_home (lease_reset (Some p) (destroy_pool pl))) = []"
proof -
  have dist: "distinct (pl_all pl)"
    using pool_reachable_ok [OF assms] by (auto simp: state_ok_def pool_ok_def lists_ok_def)
  define pl1 where "pl1 = upd_home (\<lambda>hm. hm\<lparr>hm_closed := True, hm_returned := []\<rparr>) pl"
  have pl1: "pl_all pl1 = pl_all pl" "pl_heap pl1 = pl_heap pl" "pl_retireHook pl1 = pl_retireHook pl"
    "pl_retired pl1 = pl_retired pl" by (simp_all add: pl1_def upd_home_def)
  note f = fold_destroy [OF dist, of pl1, unfolded pl1]
  have d: "destroy_pool pl = upd_home (\<lambda>hm. hm\<lparr>hm_live := 0, hm_free := 0, hm_bytes := 0\<rparr>) (fold destroy_backing (pl_all pl) pl1)"
    by (simp add: destroy_pool_def Let_def pl1_def) (simp add: upd_home_def)
  have heap: "pl_heap (destroy_pool pl) = pl_heap (fold destroy_backing (pl_all pl) pl1)"
    "pl_retired (destroy_pool pl) = pl_retired (fold destroy_backing (pl_all pl) pl1)"
    "hm_returned (pl_home (destroy_pool pl)) = []" "hm_closed (pl_home (destroy_pool pl))"
    using f by (simp_all add: d upd_home_def) (simp_all add: pl1_def upd_home_def)
  have "hm_returned (pl_home (lease_reset (Some p) (destroy_pool pl))) = []"
    using heap(3,4) by (simp add: lease_reset_def returned_def upd_home_def upd_backing_def Let_def)
  moreover have "\<exists>e. snd (pin_binding_consumer (Some p) (destroy_pool pl)) = Inl e" if "p \<in> set (pl_all pl)" for p
    using f that heap(1) by (simp add: pin_binding_consumer_def upd_backing_def Let_def)
  ultimately show ?thesis using f heap by simp
qed

theorem destroy_pool_leaves_witness:
  "pl_retired (destroy_pool (fst (demo_returned False 7))) = [0] \<and>
   pl_retired (destroy_pool (fst (demo_leased False 7))) = []"
proof -
  have reach: "pool_reachable (fst (demo_returned False 7), snd (demo_returned False 7))"
    "pool_reachable (fst (demo_leased False 7), snd (demo_leased False 7))"
    using demo_returned_reachable [of 7 False] demo_bound_reachable [of False] by simp_all
  from destroy_pool_leaves [OF reach(1), of 0] destroy_pool_leaves [OF reach(2), of 0] show ?thesis
    by (simp add: demo_returned_def demo_leased_def demo_pool_def new_pool_def unused_buffer_def demo_backing_def
        blank_backing_def)
qed

end
