(* ===== verification/PinClaim.thy ===== *)
theory PinClaim
  imports Pool
begin

text \<open>
  The lock-free protocol between the pool's claim of a backing (\<open>TryClaim\<close>) and a binding
  consumer's pin (\<open>Pin\<close> and its hold) in \<^verbatim>\<open>src/BackingPool.cpp\<close>, at the granularity of its atomic
  instructions and for any number of pinning threads. \<^verbatim>\<open>Pool.thy\<close> runs a claim in one step with the
  pins before it; here is why that is enough. The instructions are sequentially consistent in
  the source, so an interleaving of them is a run.
\<close>

section \<open>The instructions\<close>

text \<open>
  The acquirer: at rest, after \<open>retired.store(true)\<close>, with the claim won, with the claim lost
  (before and after \<open>retired.store(false)\<close>), or with the backing released. A lost claim
  remembers the count of events at its read.
\<close>

datatype claim_pc = Idle | Marked | Claimed | Losing nat | Lost nat | Gone

text \<open>
  A pinning thread: out, counted by \<open>fetch_add\<close>, pinned, refused (about to take its count
  back), or about to raise the event after its \<open>fetch_sub\<close> read 1.
\<close>

datatype pin_pc = Out | Counted | Pinned | Refused | Waking

record pin_sys =
  ps_retired :: bool
  ps_consumers :: nat
  ps_events :: nat
  ps_claim :: claim_pc
  ps_pins :: "pin_pc list"

definition init_pin_sys :: "nat \<Rightarrow> pin_sys" where
  "init_pin_sys n = \<lparr>ps_retired = False, ps_consumers = 0, ps_events = 0, ps_claim = Idle, ps_pins = replicate n Out\<rparr>"

inductive claim_step :: "pin_sys \<Rightarrow> pin_sys \<Rightarrow> bool" where
  mark: "ps_claim s = Idle \<or> ps_claim s = Lost e \<Longrightarrow>
    claim_step s (s\<lparr>ps_retired := True, ps_claim := Marked\<rparr>)"
| won: "ps_claim s = Marked \<Longrightarrow> ps_consumers s = 0 \<Longrightarrow> claim_step s (s\<lparr>ps_claim := Claimed\<rparr>)"
| lost: "ps_claim s = Marked \<Longrightarrow> ps_consumers s \<noteq> 0 \<Longrightarrow> claim_step s (s\<lparr>ps_claim := Losing (ps_events s)\<rparr>)"
| unmark: "ps_claim s = Losing e \<Longrightarrow> claim_step s (s\<lparr>ps_retired := False, ps_claim := Lost e\<rparr>)"
| reuse: "ps_claim s = Claimed \<Longrightarrow> claim_step s (s\<lparr>ps_retired := False, ps_claim := Idle\<rparr>)"
| release: "ps_claim s = Claimed \<Longrightarrow> claim_step s (s\<lparr>ps_claim := Gone\<rparr>)"

inductive pin_step :: "pin_sys \<Rightarrow> pin_sys \<Rightarrow> bool" where
  count: "i < length (ps_pins s) \<Longrightarrow> ps_pins s ! i = Out \<Longrightarrow>
    pin_step s (s\<lparr>ps_consumers := ps_consumers s + 1, ps_pins := (ps_pins s)[i := Counted]\<rparr>)"
| check: "i < length (ps_pins s) \<Longrightarrow> ps_pins s ! i = Counted \<Longrightarrow>
    pin_step s (s\<lparr>ps_pins := (ps_pins s)[i := (if ps_retired s then Refused else Pinned)]\<rparr>)"
| drop: "i < length (ps_pins s) \<Longrightarrow> ps_pins s ! i = Refused \<or> ps_pins s ! i = Pinned \<Longrightarrow>
    pin_step s (s\<lparr>ps_consumers := ps_consumers s - 1,
      ps_pins := (ps_pins s)[i := (if ps_consumers s = 1 then Waking else Out)]\<rparr>)"
| wake: "i < length (ps_pins s) \<Longrightarrow> ps_pins s ! i = Waking \<Longrightarrow>
    pin_step s (s\<lparr>ps_events := ps_events s + 1, ps_pins := (ps_pins s)[i := Out]\<rparr>)"

inductive pin_reachable :: "pin_sys \<Rightarrow> bool" where
  pin_start: "pin_reachable (init_pin_sys n)"
| pin_claim: "pin_reachable s \<Longrightarrow> claim_step s t \<Longrightarrow> pin_reachable t"
| pin_pin: "pin_reachable s \<Longrightarrow> pin_step s t \<Longrightarrow> pin_reachable t"

section \<open>The invariant\<close>

definition holds_count :: "pin_pc \<Rightarrow> bool" where
  "holds_count pc \<longleftrightarrow> pc = Counted \<or> pc = Pinned \<or> pc = Refused"

definition counted :: "pin_sys \<Rightarrow> bool" where
  "counted s \<longleftrightarrow> ps_consumers s = length (filter holds_count (ps_pins s))"

definition marked :: "pin_sys \<Rightarrow> bool" where
  "marked s \<longleftrightarrow>
     ps_retired s = (case ps_claim s of Idle \<Rightarrow> False | Lost _ \<Rightarrow> False | _ \<Rightarrow> True) \<and>
     ((ps_claim s = Claimed \<or> ps_claim s = Gone) \<longrightarrow> Pinned \<notin> set (ps_pins s))"

definition followed :: "pin_sys \<Rightarrow> bool" where
  "followed s \<longleftrightarrow>
     (\<forall>e. ps_claim s = Losing e \<or> ps_claim s = Lost e \<longrightarrow>
        e \<le> ps_events s \<and> (ps_consumers s \<noteq> 0 \<or> Waking \<in> set (ps_pins s) \<or> e < ps_events s))"

lemma counted_pin_step: "pin_step s t \<Longrightarrow> counted s \<Longrightarrow> counted t"
proof (induction rule: pin_step.induct)
  case (drop i s)
  from filter_length_update [of i "ps_pins s" holds_count "if ps_consumers s = 1 then Waking else Out"] drop
  show ?case by (auto simp: counted_def holds_count_def split: if_splits)
next
  case (count i s)
  with filter_length_update [of i "ps_pins s" holds_count Counted]
  show ?case by (simp add: counted_def holds_count_def)
next
  case (check i s)
  with filter_length_update [of i "ps_pins s" holds_count "if ps_retired s then Refused else Pinned"]
  show ?case by (cases "ps_retired s") (simp_all add: counted_def holds_count_def)
next
  case (wake i s)
  with filter_length_update [of i "ps_pins s" holds_count Out]
  show ?case by (simp add: counted_def holds_count_def)
qed

lemma marked_pin_step: "pin_step s t \<Longrightarrow> marked s \<Longrightarrow> marked t"
  by (induction rule: pin_step.induct) (auto simp: marked_def dest: set_update_in split: if_splits claim_pc.splits)

lemma followed_pin_step: "pin_step s t \<Longrightarrow> counted s \<Longrightarrow> followed s \<Longrightarrow> followed t"
proof (induction rule: pin_step.induct)
  case (drop i s)
  show ?case
  proof (cases "ps_consumers s = 1")
    case True
    with drop show ?thesis using set_update_new [of i "ps_pins s" Waking] by (auto simp: followed_def)
  next
    case False
    have "Waking \<in> set ((ps_pins s)[i := Out])" if "Waking \<in> set (ps_pins s)"
      by (rule set_update_keep [OF that]) (use drop(2) in auto)
    moreover have "holds_count (ps_pins s ! i)" using drop(2) by (auto simp: holds_count_def)
    then have "ps_consumers s \<noteq> 0" using drop(1,3) nth_mem [OF drop(1)] by (auto simp: counted_def filter_empty_conv)
    ultimately show ?thesis using False drop(4) by (auto simp: followed_def)
  qed
next
  case (check i s)
  have "Waking \<in> set ((ps_pins s)[i := x])" if "Waking \<in> set (ps_pins s)" for x
    by (rule set_update_keep [OF that]) (use check(2) in auto)
  with check show ?case by (auto simp: followed_def)
qed (auto simp: followed_def)

lemma claim_step_inv:
  "claim_step s t \<Longrightarrow> counted s \<Longrightarrow> marked s \<Longrightarrow> counted t \<and> marked t \<and> (followed s \<longrightarrow> followed t)"
proof (induction rule: claim_step.induct)
  case (won s)
  then have "Pinned \<notin> set (ps_pins s)" by (auto simp: counted_def filter_empty_conv holds_count_def)
  with won show ?case by (auto simp: counted_def marked_def followed_def)
qed (auto simp: counted_def marked_def followed_def)

lemma pin_inv: "pin_reachable s \<Longrightarrow> counted s \<and> marked s \<and> followed s"
proof (induction rule: pin_reachable.induct)
  case (pin_start n)
  show ?case by (simp add: counted_def marked_def followed_def init_pin_sys_def holds_count_def)
qed (auto dest: claim_step_inv counted_pin_step marked_pin_step followed_pin_step)

section \<open>The properties\<close>

text \<open>
  Claim C5. Claim and pin exclude each other: in every interleaving of the two protocols'
  instructions, while the acquirer has a claimed backing in hand, and for ever once it
  released it, no binding consumer has it pinned; and the consumers' count is exactly the
  threads that hold a count.
\<close>

theorem claim_excludes_pins:
  assumes "pin_reachable s"
  shows "(ps_claim s = Claimed \<or> ps_claim s = Gone \<longrightarrow> Pinned \<notin> set (ps_pins s)) \<and>
    ps_consumers s = length (filter holds_count (ps_pins s))"
  using pin_inv [OF assms] by (simp add: marked_def counted_def)

text \<open>Two threads: one is counted, the acquirer marks and loses, the thread is refused and goes.\<close>

definition pin_demo :: "claim_pc \<Rightarrow> bool \<Rightarrow> nat \<Rightarrow> nat \<Rightarrow> pin_pc \<Rightarrow> pin_sys" where
  "pin_demo c r n e pc = \<lparr>ps_retired = r, ps_consumers = n, ps_events = e, ps_claim = c, ps_pins = [pc]\<rparr>"

lemma pin_demo_counted: "pin_reachable (pin_demo Idle False 1 0 Counted)"
  using pin_pin [OF pin_start [of 1] pin_step.count [of 0]]
  by (simp add: pin_demo_def init_pin_sys_def)

lemma pin_demo_losing: "pin_reachable (pin_demo (Losing 0) True 1 0 Counted)"
proof -
  have "pin_reachable (pin_demo Marked True 1 0 Counted)"
    using pin_claim [OF pin_demo_counted claim_step.mark] by (simp add: pin_demo_def)
  from pin_claim [OF this claim_step.lost] show ?thesis by (simp add: pin_demo_def)
qed

lemma pin_demo_lost: "pin_reachable (pin_demo (Lost 0) False 0 1 Out)"
proof -
  have "pin_reachable (pin_demo (Losing 0) True 1 0 Refused)"
    using pin_pin [OF pin_demo_losing pin_step.check [of 0]] by (simp add: pin_demo_def)
  from pin_pin [OF this pin_step.drop [of 0]] have "pin_reachable (pin_demo (Losing 0) True 0 0 Waking)"
    by (simp add: pin_demo_def)
  from pin_pin [OF this pin_step.wake [of 0]] have "pin_reachable (pin_demo (Losing 0) True 0 1 Out)"
    by (simp add: pin_demo_def)
  from pin_claim [OF this claim_step.unmark] show ?thesis by (simp add: pin_demo_def)
qed

lemma pin_demo_claimed: "pin_reachable (pin_demo Claimed True 0 1 Out)"
proof -
  have "pin_reachable (pin_demo Marked True 0 1 Out)"
    using pin_claim [OF pin_demo_lost claim_step.mark] by (simp add: pin_demo_def)
  from pin_claim [OF this claim_step.won] show ?thesis by (simp add: pin_demo_def)
qed

theorem claim_excludes_pins_witness:
  "pin_reachable (pin_demo Claimed True 0 1 Out) \<and> Pinned \<notin> set (ps_pins (pin_demo Claimed True 0 1 Out))"
  using claim_excludes_pins [OF pin_demo_claimed] pin_demo_claimed by (simp add: pin_demo_def)

text \<open>
  A claim lost to a pin is not forgotten: whenever no thread has the backing
  pinned or is between its instructions any more, the event that makes the waiting acquirers
  look again has been raised after the acquirer read the count that cost it the claim (also
  when that pin was itself refused).
\<close>

theorem lost_claim_followed_by_event:
  assumes "pin_reachable s" and "ps_claim s = Lost e" and "\<forall>pc \<in> set (ps_pins s). pc = Out"
  shows "e < ps_events s \<and> \<not> ps_retired s"
proof -
  have "ps_consumers s = 0" using pin_inv [OF assms(1)] assms(3)
    by (auto simp: counted_def filter_empty_conv holds_count_def)
  then show ?thesis using pin_inv [OF assms(1)] assms(2,3) by (auto simp: followed_def marked_def)
qed

theorem lost_claim_followed_by_event_witness:
  "(0 :: nat) < ps_events (pin_demo (Lost 0) False 0 1 Out)"
  using lost_claim_followed_by_event [OF pin_demo_lost, of 0] by (simp add: pin_demo_def)

end
