(* ===== verification/Version.thy ===== *)
theory Version
  imports Growth Image Pool
begin

text \<open>
  The types the versioned buffers share (\<^verbatim>\<open>include/ORGModuleServices/VersionedBufferBuild.h\<close>): a
  journal's write, a byte range, a published version. A version's lease is the address of its
  backing, its buffer the host's number of it; the host's opaque objects are numbers.
\<close>

datatype revision_mode = Patch | Replace

record buffer_write =
  bw_sequence :: nat
  bw_byteOffset :: nat
  bw_byteSize :: nat

record byte_range =
  br_offset :: nat
  br_size :: nat

record published_version =
  pv_revision :: nat
  pv_writeSequence :: nat
  pv_elementCount :: nat
  pv_capacity :: nat
  pv_elementStride :: nat
  pv_revisionMode :: revision_mode
  pv_contentVersion :: nat
  pv_contentEpoch :: nat
  pv_backingEpoch :: u64
  pv_lease :: "nat option"
  pv_resource :: "nat option"
  pv_image :: "buffer_image option"
  pv_tag :: "nat option"
  pv_uploadedBytes :: nat
  pv_copiedBytes :: nat
  pv_copiedWhole :: bool
  pv_shrinkWindow :: shrink_window
  pv_shrunk :: bool

text \<open>A default-constructed \<open>PublishedBufferVersion\<close>.\<close>

definition blank_version :: published_version where
  "blank_version =
     \<lparr>pv_revision = 0, pv_writeSequence = 0, pv_elementCount = 0, pv_capacity = 0, pv_elementStride = 0,
      pv_revisionMode = Replace, pv_contentVersion = 0, pv_contentEpoch = 0, pv_backingEpoch = 0,
      pv_lease = None, pv_resource = None, pv_image = None, pv_tag = None, pv_uploadedBytes = 0,
      pv_copiedBytes = 0, pv_copiedWhole = False, pv_shrinkWindow = empty_window, pv_shrunk = False\<rparr>"

text \<open>\<open>MaterializeCpuImage\<close>.\<close>

definition materialize_cpu_image :: "published_version \<Rightarrow> byte list option" where
  "materialize_cpu_image v = map_option materialize (pv_image v)"

end
