(* ===== verification/Journal.thy ===== *)
theory Journal
  imports Version
begin

text \<open>
  \<^verbatim>\<open>BufferJournal\<close> (\<^verbatim>\<open>include/ORGModuleServices/BufferJournal.h\<close>, \<^verbatim>\<open>src/BufferJournal.cpp\<close>): the
  desired contents of a buffer as pages that captures share, and the writes since the trim
  floor. Pages live in a store with their use counts (the shared pointers'), because the code
  decides by \<open>use_count()\<close> whether it may write a page in place. Every operation runs under
  the journal's mutex, so it is one step. Positions and sequences are \<open>nat\<close>; the two products
  with the stride that the code does not check are taken modulo 2^64, and an index the code
  does not check (a page past the end) or a loop that would not end is the result \<open>None\<close>.
\<close>

section \<open>The page store\<close>

record page_store =
  pg_mem :: "nat \<Rightarrow> byte list"
  pg_uses :: "nat \<Rightarrow> nat"
  pg_next :: nat

definition empty_store :: page_store where
  "empty_store = \<lparr>pg_mem = (\<lambda>_. []), pg_uses = (\<lambda>_. 0), pg_next = 0\<rparr>"

text \<open>\<open>make_shared\<close>, and the copy and the end of a shared pointer.\<close>

definition make_page :: "byte list \<Rightarrow> page_store \<Rightarrow> page_store \<times> nat" where
  "make_page bytes st =
     (st\<lparr>pg_mem := (pg_mem st)(pg_next st := bytes), pg_uses := (pg_uses st)(pg_next st := 1),
         pg_next := pg_next st + 1\<rparr>, pg_next st)"

definition share_page :: "nat \<Rightarrow> page_store \<Rightarrow> page_store" where
  "share_page a st = st\<lparr>pg_uses := (pg_uses st)(a := pg_uses st a + 1)\<rparr>"

definition drop_page :: "nat \<Rightarrow> page_store \<Rightarrow> page_store" where
  "drop_page a st = st\<lparr>pg_uses := (pg_uses st)(a := pg_uses st a - 1)\<rparr>"

definition write_page :: "nat \<Rightarrow> byte list \<Rightarrow> page_store \<Rightarrow> page_store" where
  "write_page a bytes st = st\<lparr>pg_mem := (pg_mem st)(a := bytes)\<rparr>"

fun make_pages :: "byte list list \<Rightarrow> page_store \<Rightarrow> page_store \<times> nat list" where
  "make_pages [] st = (st, [])"
| "make_pages (bytes # rest) st =
     (case make_page bytes st of (st1, a) \<Rightarrow>
        case make_pages rest st1 of (st2, as) \<Rightarrow> (st2, a # as))"

section \<open>The journal\<close>

record journal =
  jn_elementStride :: nat
  jn_writeSequence :: nat
  jn_elementCount :: nat
  jn_capacity :: nat
  jn_previous :: "published_version option"
  jn_writes :: "buffer_write list"
  jn_journalBaseSequence :: nat
  jn_hasPool :: bool
  jn_byteSize :: nat
  jn_pages :: "nat list"

definition new_journal :: "nat \<Rightarrow> journal" where
  "new_journal stride =
     \<lparr>jn_elementStride = stride, jn_writeSequence = 0, jn_elementCount = 0, jn_capacity = 0,
      jn_previous = None, jn_writes = [], jn_journalBaseSequence = 0, jn_hasPool = False,
      jn_byteSize = 0, jn_pages = []\<rparr>"

type_synonym journal_state = "journal \<times> page_store"

text \<open>The page rebuild of \<open>Initialize\<close> and \<open>ReplaceImage\<close>.\<close>

definition rebuild_pages :: "byte list \<Rightarrow> journal_state \<Rightarrow> journal_state" where
  "rebuild_pages bytes st =
     (case st of (j, ps) \<Rightarrow>
        case make_pages (split_pages bytes 0) (fold drop_page (jn_pages j) ps) of
          (ps1, as) \<Rightarrow> (j\<lparr>jn_byteSize := length bytes, jn_pages := as\<rparr>, ps1))"

definition initialize :: "byte list \<Rightarrow> nat \<Rightarrow> nat \<Rightarrow> journal_state \<Rightarrow> journal_state \<times> unit result" where
  "initialize bytes elementCount capacity st =
     (let j = fst st in
      if jn_elementStride j = 0 \<or> elementCount > capacity \<or> length bytes \<noteq> u64 (elementCount * jn_elementStride j)
      then (st, Inl (InvalidArgument ''invalid buffer journal initial image''))
      else (case rebuild_pages bytes (j\<lparr>jn_previous := None, jn_writes := [], jn_journalBaseSequence := 0\<rparr>, snd st) of
              (j1, ps) \<Rightarrow>
                ((j1\<lparr>jn_elementCount := elementCount, jn_capacity := capacity, jn_writeSequence := 1\<rparr>, ps), Inr ())))"

text \<open>The page vector grows to the desired size (the first loop of \<open>AppendWrite\<close>).\<close>

function grow_pages :: "nat \<Rightarrow> journal_state \<Rightarrow> journal_state" where
  "grow_pages desired (j, ps) =
     (if length (jn_pages j) < page_count desired then
        (let pageSize = min page_bytes (desired - length (jn_pages j) * page_bytes) in
         case make_page (replicate pageSize 0) ps of
           (ps1, a) \<Rightarrow> grow_pages desired (j\<lparr>jn_pages := jn_pages j @ [a]\<rparr>, ps1))
      else (j, ps))"
  by pat_completeness auto
termination
  by (relation "measure (\<lambda>(desired, j, ps). page_count desired - length (jn_pages j))") auto

text \<open>A page that anything else shares is cloned before the journal changes it.\<close>

definition own_page :: "nat \<Rightarrow> journal_state \<Rightarrow> journal_state" where
  "own_page i st =
     (case st of (j, ps) \<Rightarrow>
        if pg_uses ps (jn_pages j ! i) \<noteq> 1
        then (case make_page (pg_mem ps (jn_pages j ! i)) ps of
                (ps1, a) \<Rightarrow> (j\<lparr>jn_pages := (jn_pages j)[i := a]\<rparr>, drop_page (jn_pages j ! i) ps1))
        else (j, ps))"

text \<open>The second loop: the tail pages grow to their newly covered extent, zero-filled.\<close>

definition grow_tail :: "nat \<Rightarrow> nat \<Rightarrow> journal_state \<Rightarrow> journal_state" where
  "grow_tail desired i st =
     (let required = min page_bytes (desired - i * page_bytes) in
      if length (pg_mem (snd st) (jn_pages (fst st) ! i)) \<ge> required then st
      else (case own_page i st of (j, ps) \<Rightarrow>
              let a = jn_pages j ! i; page = pg_mem ps a
              in (j, write_page a (page @ replicate (required - length page) 0) ps)))"

definition grow_tails :: "nat \<Rightarrow> journal_state \<Rightarrow> journal_state" where
  "grow_tails desired st = fold (grow_tail desired) [0..<page_count desired] st"

text \<open>The third loop: the bytes are copied page by page.\<close>

function copy_write :: "byte list \<Rightarrow> nat \<Rightarrow> nat \<Rightarrow> journal_state \<Rightarrow> journal_state option" where
  "copy_write bytes byteOffset sourceOffset st =
     (if sourceOffset < length bytes then
        (let absolute = byteOffset + sourceOffset;
             pageIndex = absolute div page_bytes; pageOffset = absolute mod page_bytes
         in if pageIndex \<ge> length (jn_pages (fst st)) then None
            else (case own_page pageIndex st of (j, ps) \<Rightarrow>
              let a = jn_pages j ! pageIndex; page = pg_mem ps a;
                  copySize = min (length bytes - sourceOffset) (length page - pageOffset)
              in if copySize = 0 then None
                 else copy_write bytes byteOffset (sourceOffset + copySize)
                   (j, write_page a (blit pageOffset (piece sourceOffset copySize bytes) page) ps)))
      else Some st)"
  by pat_completeness auto
termination
  by (relation "measure (\<lambda>(bytes, byteOffset, sourceOffset, st). length bytes - sourceOffset)")
    (auto simp: Let_def)

declare grow_pages.simps [simp del] copy_write.simps [simp del]

definition append_write :: "nat \<Rightarrow> byte list \<Rightarrow> nat \<Rightarrow> journal_state \<Rightarrow> (journal_state \<times> nat result) option" where
  "append_write elementOffset bytes resultingElementCount st =
     (let j = fst st; stride = jn_elementStride j; writeElements = length bytes div stride in
      if stride = 0 \<or> bytes = [] \<or> length bytes mod stride \<noteq> 0
      then Some (st, Inl (InvalidArgument ''buffer journal write is not row aligned''))
      else if elementOffset > u64_max - writeElements \<or> elementOffset + writeElements > resultingElementCount
      then Some (st, Inl (OutOfRange ''buffer journal write exceeds logical extent''))
      else if resultingElementCount > jn_capacity j
      then Some (st, Inl (OutOfRange ''buffer journal write exceeds desired capacity''))
      else
        (let sequence = jn_writeSequence j + 1;
             logicalElementCount = max (jn_elementCount j) resultingElementCount;
             desiredSize = u64 (logicalElementCount * stride);
             byteOffset = u64 (elementOffset * stride)
         in case copy_write bytes byteOffset 0
              (grow_tails desiredSize (grow_pages desiredSize (j\<lparr>jn_writeSequence := sequence\<rparr>, snd st))) of
              None \<Rightarrow> None
            | Some (j1, ps) \<Rightarrow>
                Some ((j1\<lparr>jn_byteSize := desiredSize,
                    jn_writes := jn_writes j1 @
                      [\<lparr>bw_sequence = sequence, bw_byteOffset = byteOffset, bw_byteSize = length bytes\<rparr>],
                    jn_elementCount := logicalElementCount\<rparr>, ps), Inr (jn_writeSequence j1))))"

definition replace_image :: "byte list \<Rightarrow> nat \<Rightarrow> nat \<Rightarrow> journal_state \<Rightarrow> journal_state \<times> nat result" where
  "replace_image bytes elementCount capacity st =
     (let j = fst st in
      if jn_elementStride j = 0 \<or> elementCount > capacity \<or> length bytes \<noteq> u64 (elementCount * jn_elementStride j)
      then (st, Inl (InvalidArgument ''invalid buffer journal replacement image''))
      else
        (let sequence = jn_writeSequence j + 1 in
         case rebuild_pages bytes (j\<lparr>jn_capacity := max (jn_capacity j) capacity,
             jn_elementCount := elementCount, jn_writeSequence := sequence\<rparr>, snd st) of
           (j1, ps) \<Rightarrow>
             ((j1\<lparr>jn_writes := jn_writes j1 @
                 [\<lparr>bw_sequence = sequence, bw_byteOffset = 0, bw_byteSize = length bytes\<rparr>]\<rparr>, ps), Inr sequence)))"

definition request_capacity :: "nat \<Rightarrow> journal \<Rightarrow> journal" where
  "request_capacity capacity j =
     (if capacity \<le> jn_capacity j then j
      else j\<lparr>jn_capacity := capacity, jn_writeSequence := jn_writeSequence j + 1,
             jn_writes := jn_writes j @
               [\<lparr>bw_sequence = jn_writeSequence j + 1, bw_byteOffset = u64 (jn_elementCount j * jn_elementStride j),
                 bw_byteSize = 0\<rparr>]\<rparr>)"

text \<open>
  A capture: the journal's state, its image the shared pages (\<open>FromPages\<close>) and the bytes they
  hold.
\<close>

record capture =
  cp_writeSequence :: nat
  cp_elementCount :: nat
  cp_capacity :: nat
  cp_previous :: "published_version option"
  cp_writes :: "buffer_write list"
  cp_byteSize :: nat
  cp_pages :: "nat list"
  cp_journalBaseSequence :: nat

definition capture_desired :: "journal_state \<Rightarrow> journal_state \<times> capture" where
  "capture_desired st =
     (case st of (j, ps) \<Rightarrow>
        ((j, fold share_page (jn_pages j) ps),
         \<lparr>cp_writeSequence = jn_writeSequence j, cp_elementCount = jn_elementCount j,
          cp_capacity = jn_capacity j, cp_previous = jn_previous j, cp_writes = jn_writes j,
          cp_byteSize = jn_byteSize j, cp_pages = jn_pages j,
          cp_journalBaseSequence = jn_journalBaseSequence j\<rparr>))"

definition capture_image :: "page_store \<Rightarrow> capture \<Rightarrow> buffer_image" where
  "capture_image ps cp = from_pages (map (\<lambda>a. Some (pg_mem ps a)) (cp_pages cp)) (cp_byteSize cp)"

definition release_capture :: "capture \<Rightarrow> page_store \<Rightarrow> page_store" where
  "release_capture cp ps = fold drop_page (cp_pages cp) ps"

definition set_backing_pool :: "bool \<Rightarrow> journal \<Rightarrow> journal" where
  "set_backing_pool hasPool j = j\<lparr>jn_hasPool := hasPool\<rparr>"

text \<open>
  \<open>Acknowledge\<close>: \<open>floor\<close> is what the pool's \<open>OldestContentEpoch\<close> answered, read outside the
  mutex (when the journal has a pool that lives).
\<close>

definition acknowledge :: "published_version option \<Rightarrow> nat option \<Rightarrow> journal \<Rightarrow> journal" where
  "acknowledge version oldest j =
     (case version of
        None \<Rightarrow> j
      | Some v \<Rightarrow>
          let floor = (if jn_hasPool j then oldest else None) in
          if pv_writeSequence v > jn_writeSequence j \<or>
             (\<exists>p \<in> set_option (jn_previous j). pv_writeSequence v \<le> pv_writeSequence p) then j
          else
            let base = (case floor of None \<Rightarrow> pv_writeSequence v | Some f \<Rightarrow> min (pv_writeSequence v) f);
                newBase = max (jn_journalBaseSequence j) base
            in j\<lparr>jn_previous := Some v, jn_journalBaseSequence := newBase,
                 jn_writes := filter (\<lambda>w. \<not> bw_sequence w \<le> newBase) (jn_writes j)\<rparr>)"

definition desired_sequence :: "journal \<Rightarrow> nat" where
  "desired_sequence j = jn_writeSequence j"

definition has_unpublished_changes :: "journal \<Rightarrow> bool" where
  "has_unpublished_changes j \<longleftrightarrow>
     (case jn_previous j of None \<Rightarrow> True | Some v \<Rightarrow> pv_writeSequence v \<noteq> jn_writeSequence j)"

end
