(* ===== verification/JournalOps.thy ===== *)
theory JournalOps
  imports Journal
begin

text \<open>
  What the journal's operations do to the page store and to the bytes the pages hold: a page
  anything else uses is never written (\<open>frozen\<close>), the use counts stay exact (\<open>owns\<close>), and the
  three loops of \<open>AppendWrite\<close> are one overwrite of the zero-extended image.
\<close>

section \<open>Bytes in pages\<close>

definition paged :: "nat \<Rightarrow> byte list list \<Rightarrow> bool" where
  "paged n pages \<longleftrightarrow>
     length pages = page_count n \<and>
     (\<forall>i < length pages. length (pages ! i) = min page_bytes (n - i * page_bytes))"

lemma paged_Nil [simp]: "paged n [] \<longleftrightarrow> n = 0"
  by (cases "n = 0") (auto simp: paged_def page_count_Suc)

lemma paged_Cons:
  "paged n (p # ps) \<longleftrightarrow> 0 < n \<and> length p = min page_bytes n \<and> paged (n - page_bytes) ps"
proof (cases "n = 0")
  case False
  then have "page_count n = Suc (page_count (n - page_bytes))" by (simp add: page_count_Suc)
  moreover have "(\<forall>i < Suc (length ps). length ((p # ps) ! i) = min page_bytes (n - i * page_bytes)) \<longleftrightarrow>
      length p = min page_bytes n \<and>
      (\<forall>i < length ps. length (ps ! i) = min page_bytes (n - page_bytes - i * page_bytes))"
    by (auto simp: All_less_Suc2 diff_diff_left)
  ultimately show ?thesis using False by (auto simp: paged_def)
qed (simp add: paged_def)

lemma paged_concat_length: "paged n pages \<Longrightarrow> length (concat pages) = n"
  by (induction pages arbitrary: n) (auto simp: paged_Cons)

lemma paged_nth:
  "paged n pages \<Longrightarrow> i < n \<Longrightarrow> concat pages ! i = pages ! (i div page_bytes) ! (i mod page_bytes)"
proof (induction pages arbitrary: n i)
  case (Cons p ps)
  show ?case
  proof (cases "i < page_bytes")
    case True
    with Cons.prems show ?thesis by (simp add: paged_Cons nth_append)
  next
    case False
    with Cons.prems have "length p = page_bytes" "paged (n - page_bytes) ps" "i - page_bytes < n - page_bytes"
      by (auto simp: paged_Cons)
    moreover have "i div page_bytes = Suc ((i - page_bytes) div page_bytes)"
      "i mod page_bytes = (i - page_bytes) mod page_bytes"
      using False by (simp_all add: le_div_geq le_mod_geq)
    ultimately show ?thesis using Cons.IH [of "n - page_bytes" "i - page_bytes"] False by (simp add: nth_append)
  qed
qed simp

lemma paged_index: "i < n \<Longrightarrow> i div page_bytes < page_count n"
  by (simp add: page_count_bound div_times_less_eq_dividend [THEN le_less_trans])

lemma paged_offset: "paged n pages \<Longrightarrow> i < n \<Longrightarrow> i mod page_bytes < length (pages ! (i div page_bytes))"
proof -
  assume a: "paged n pages" "i < n"
  then have "length (pages ! (i div page_bytes)) = min page_bytes (n - i div page_bytes * page_bytes)"
    by (simp add: paged_def paged_index)
  moreover have "i mod page_bytes < n - i div page_bytes * page_bytes"
    using a(2) div_mult_mod_eq [of i page_bytes] by linarith
  ultimately show ?thesis by simp
qed

lemma paged_split_pages: "paged (length bytes) (split_pages bytes 0)"
proof -
  have "length (piece (i * page_bytes) page_bytes bytes) = min page_bytes (length bytes - i * page_bytes)" for i
    by simp
  then show ?thesis by (simp add: paged_def split_pages_eq)
qed

lemma paged_update:
  "paged n pages \<Longrightarrow> length page = length (pages ! i) \<Longrightarrow> paged n (pages[i := page])"
  by (cases "i < length pages") (auto simp: paged_def nth_list_update)

text \<open>Writing inside one page is writing the bytes at the page's place.\<close>

lemma concat_page_blit:
  assumes "paged n pages" and "off < n" and "length bs \<le> length (pages ! (off div page_bytes)) - off mod page_bytes"
  shows "concat (pages[off div page_bytes := blit (off mod page_bytes) bs (pages ! (off div page_bytes))]) =
    blit off bs (concat pages)"
proof (rule nth_equalityI)
  let ?k = "off div page_bytes" and ?r = "off mod page_bytes"
  let ?page = "pages ! ?k"
  have k: "?k < length pages" using assms(1,2) by (simp add: paged_def paged_index)
  have r: "?r < length ?page" by (rule paged_offset [OF assms(1,2)])
  have plen: "length ?page \<le> page_bytes" using assms(1) k by (simp add: paged_def)
  have new: "paged n (pages[?k := blit ?r bs ?page])"
    by (rule paged_update [OF assms(1)]) (use assms(3) r in \<open>simp add: blit_simps\<close>)
  have len: "length (concat pages) = n" by (rule paged_concat_length [OF assms(1)])
  have "?k * page_bytes + length ?page \<le> n"
    using assms(1,2) k paged_index [OF assms(2)] by (simp add: paged_def page_count_bound) 
  then have fits: "off + length bs \<le> n"
    using assms(3) r div_mult_mod_eq [of off page_bytes] by linarith
  show "length (concat (pages[?k := blit ?r bs ?page])) = length (blit off bs (concat pages))"
    using paged_concat_length [OF new] len fits by (simp add: blit_simps)
  fix i assume "i < length (concat (pages[?k := blit ?r bs ?page]))"
  then have i: "i < n" using paged_concat_length [OF new] by simp
  have ik: "i div page_bytes < length pages" using i assms(1) by (simp add: paged_def paged_index)
  show "concat (pages[?k := blit ?r bs ?page]) ! i = blit off bs (concat pages) ! i"
  proof (cases "i div page_bytes = ?k")
    case True
    have ir: "i mod page_bytes < length ?page" using paged_offset [OF assms(1) i] True by simp
    obtain m a b where mab: "m = ?k * page_bytes" "a = i mod page_bytes" "b = ?r" by simp
    have "i = m + a" "off = m + b"
      using True div_mult_mod_eq [of i page_bytes] div_mult_mod_eq [of off page_bytes] by (simp_all add: mab)
    then have "b \<le> a \<longleftrightarrow> off \<le> i" "a < b + length bs \<longleftrightarrow> i < off + length bs" "a - b = i - off"
      by linarith+
    then have "?r \<le> i mod page_bytes \<longleftrightarrow> off \<le> i" "i mod page_bytes < ?r + length bs \<longleftrightarrow> i < off + length bs"
      "i mod page_bytes - ?r = i - off" by (simp_all only: mab)
    then show ?thesis
      using True ik i fits ir assms(3) r len
      by (simp add: paged_nth [OF new i] blit_simps paged_nth [OF assms(1) i])
  next
    case False
    have "\<not> (off \<le> i \<and> i < off + length bs)"
    proof
      assume in_range: "off \<le> i \<and> i < off + length bs"
      have "i < ?k * page_bytes + page_bytes"
        using in_range assms(3) plen div_mult_mod_eq [of off page_bytes] r by linarith
      then have "i div page_bytes < Suc ?k" by (simp add: div_less_iff_less_mult)
      moreover have "?k \<le> i div page_bytes" using in_range by (simp add: div_le_mono)
      ultimately show False using False by simp
    qed
    then show ?thesis using False ik i len fits
      by (auto simp: paged_nth [OF new i] paged_nth [OF assms(1) i] nth_blit)
  qed
qed


section \<open>The store\<close>

definition contents :: "journal_state \<Rightarrow> byte list list" where
  "contents st = map (pg_mem (snd st)) (jn_pages (fst st))"

text \<open>\<open>others a\<close>: the references to page \<open>a\<close> outside the journal.\<close>

definition owns :: "(nat \<Rightarrow> nat) \<Rightarrow> journal_state \<Rightarrow> bool" where
  "owns others st \<longleftrightarrow>
     distinct (jn_pages (fst st)) \<and>
     (\<forall>a. a \<in> set (jn_pages (fst st)) \<or> others a \<noteq> 0 \<longrightarrow> a < pg_next (snd st)) \<and>
     (\<forall>a. pg_uses (snd st) a = (if a \<in> set (jn_pages (fst st)) then 1 else 0) + others a)"

definition frozen :: "(nat \<Rightarrow> nat) \<Rightarrow> page_store \<Rightarrow> page_store \<Rightarrow> bool" where
  "frozen others ps ps' \<longleftrightarrow> (\<forall>a. others a \<noteq> 0 \<longrightarrow> pg_mem ps' a = pg_mem ps a)"

lemma frozen_refl [simp]: "frozen others ps ps"
  by (simp add: frozen_def)

lemma frozen_trans: "frozen others ps ps1 \<Longrightarrow> frozen others ps1 ps2 \<Longrightarrow> frozen others ps ps2"
  by (simp add: frozen_def)

text \<open>What a step of the loops leaves: the journal but for its pages.\<close>

definition repaged :: "(nat \<Rightarrow> nat) \<Rightarrow> journal_state \<Rightarrow> journal_state \<Rightarrow> bool" where
  "repaged others st st' \<longleftrightarrow>
     owns others st' \<and> frozen others (snd st) (snd st') \<and> (\<exists>as. fst st' = (fst st)\<lparr>jn_pages := as\<rparr>)"

lemma repaged_refl: "owns others st \<Longrightarrow> repaged others st st"
  by (auto simp: repaged_def intro!: exI [of _ "jn_pages (fst st)"])

lemma repaged_trans: "repaged others st st1 \<Longrightarrow> repaged others st1 st2 \<Longrightarrow> repaged others st st2"
  by (auto simp: repaged_def intro: frozen_trans)

lemma length_contents [simp]: "length (contents st) = length (jn_pages (fst st))"
  by (simp add: contents_def)

text \<open>Making a page owned and writing it changes that page's bytes only.\<close>

lemma own_write:
  assumes "owns others (j, ps)" and "i < length (jn_pages j)" and "own_page i (j, ps) = (j1, ps1)"
  shows "repaged others (j, ps) (j1, write_page (jn_pages j1 ! i) page ps1)"
    and "contents (j1, write_page (jn_pages j1 ! i) page ps1) = (contents (j, ps))[i := page]"
    and "pg_mem ps1 (jn_pages j1 ! i) = contents (j, ps) ! i" and "length (jn_pages j1) = length (jn_pages j)"
proof -
  let ?a = "jn_pages j ! i"
  have a: "?a \<in> set (jn_pages j)" using assms(2) by simp
  have dist: "distinct (jn_pages j)" and fresh: "pg_next ps \<notin> set (jn_pages j)" "others (pg_next ps) = 0"
    and uses: "pg_uses ps b = (if b \<in> set (jn_pages j) then 1 else 0) + others b"
    and bound: "b \<in> set (jn_pages j) \<or> others b \<noteq> 0 \<Longrightarrow> b < pg_next ps" for b
    using assms(1) by (auto simp: owns_def)
  have other_pages: "jn_pages j ! k \<noteq> ?a" if "k < length (jn_pages j)" "k \<noteq> i" for k
    using dist assms(2) that by (simp add: nth_eq_iff_index_eq)
  have "repaged others (j, ps) (j1, write_page (jn_pages j1 ! i) page ps1) \<and>
    contents (j1, write_page (jn_pages j1 ! i) page ps1) = (contents (j, ps))[i := page] \<and>
    pg_mem ps1 (jn_pages j1 ! i) = contents (j, ps) ! i \<and> length (jn_pages j1) = length (jn_pages j)"
  proof (cases "pg_uses ps ?a = 1")
    case True
    with assms(3) have st: "j1 = j" "ps1 = ps" by (simp_all add: own_page_def)
    have "others ?a = 0" using True uses [of ?a] a by simp
    then have "frozen others ps (write_page ?a page ps)" by (auto simp: frozen_def write_page_def)
    moreover have "owns others (j, write_page ?a page ps)" using assms(1) by (simp add: owns_def write_page_def)
    moreover have "contents (j, write_page ?a page ps) = (contents (j, ps))[i := page]"
      by (rule nth_equalityI) (use assms(2) other_pages in \<open>auto simp: contents_def write_page_def nth_list_update\<close>)
    ultimately show ?thesis using assms(2) by (auto simp: st repaged_def contents_def intro!: exI [of _ "jn_pages j"])
  next
    case False
    let ?n = "pg_next ps"
    have st: "j1 = j\<lparr>jn_pages := (jn_pages j)[i := ?n]\<rparr>" "pg_mem ps1 = (pg_mem ps)(?n := pg_mem ps ?a)"
      "pg_uses ps1 = (pg_uses ps)(?n := 1, ?a := pg_uses ps ?a - 1)" "pg_next ps1 = ?n + 1"
      using assms(3) False bound [of ?a] a fresh(1)
      by (auto simp: own_page_def make_page_def drop_page_def)
    have n: "?n \<noteq> ?a" using fresh(1) a by auto
    have set1: "set (jn_pages j1) = insert ?n (set (jn_pages j) - {?a})"
      using assms(2) dist by (simp add: st set_update_distinct)
    have "distinct (jn_pages j1)" using dist fresh(1) by (simp add: st distinct_list_update)
    moreover have "pg_uses ps1 b = (if b \<in> set (jn_pages j1) then 1 else 0) + others b" for b
      using uses [of b] fresh a n by (auto simp: st(3) set1)
    moreover have "b \<in> set (jn_pages j1) \<or> others b \<noteq> 0 \<longrightarrow> b < pg_next ps1" for b
      using bound [of b] by (auto simp: set1 st(4))
    ultimately have "owns others (j1, write_page ?n page ps1)" by (simp add: owns_def write_page_def)
    moreover have "frozen others ps (write_page ?n page ps1)"
      using fresh(2) by (auto simp: frozen_def write_page_def st)
    moreover have "contents (j1, write_page ?n page ps1) = (contents (j, ps))[i := page]"
    proof (rule nth_equalityI)
      fix k assume "k < length (contents (j1, write_page ?n page ps1))"
      then have "k < length (jn_pages j)" by (simp add: st)
      moreover from this have "jn_pages j ! k \<noteq> ?n" using fresh(1) nth_mem by force
      ultimately show "contents (j1, write_page ?n page ps1) ! k = ((contents (j, ps))[i := page]) ! k"
        using assms(2) by (auto simp: contents_def write_page_def st nth_list_update)
    qed (simp add: st)
    ultimately show ?thesis using assms(2) by (auto simp: st repaged_def contents_def)
  qed
  then show "repaged others (j, ps) (j1, write_page (jn_pages j1 ! i) page ps1)"
    and "contents (j1, write_page (jn_pages j1 ! i) page ps1) = (contents (j, ps))[i := page]"
    and "pg_mem ps1 (jn_pages j1 ! i) = contents (j, ps) ! i" and "length (jn_pages j1) = length (jn_pages j)"
    by blast+
qed

text \<open>A new page at the end.\<close>

lemma push_page:
  assumes "owns others (j, ps)" and "make_page bytes ps = (ps1, a)"
  shows "repaged others (j, ps) (j\<lparr>jn_pages := jn_pages j @ [a]\<rparr>, ps1)"
    and "contents (j\<lparr>jn_pages := jn_pages j @ [a]\<rparr>, ps1) = contents (j, ps) @ [bytes]"
proof -
  have a: "a = pg_next ps" "a \<notin> set (jn_pages j)" "others a = 0"
    using assms by (auto simp: owns_def make_page_def)
  show "repaged others (j, ps) (j\<lparr>jn_pages := jn_pages j @ [a]\<rparr>, ps1)"
    using assms a by (auto simp: repaged_def owns_def frozen_def make_page_def less_SucI)
  show "contents (j\<lparr>jn_pages := jn_pages j @ [a]\<rparr>, ps1) = contents (j, ps) @ [bytes]"
    using assms(2) a by (auto simp: contents_def make_page_def)
qed

definition zero_page :: "nat \<Rightarrow> nat \<Rightarrow> byte list" where
  "zero_page desired i = replicate (min page_bytes (desired - i * page_bytes)) 0"

lemma grow_pages_eq:
  "owns others st \<Longrightarrow> repaged others st (grow_pages desired st) \<and>
    contents (grow_pages desired st) =
      contents st @ map (zero_page desired) [length (contents st)..<page_count desired]"
proof (induction desired st rule: grow_pages.induct)
  case (1 desired j ps)
  show ?case
  proof (cases "length (jn_pages j) < page_count desired")
    case True
    define bytes where "bytes = zero_page desired (length (jn_pages j))"
    obtain ps1 a where mk: "make_page bytes ps = (ps1, a)" by (metis prod.exhaust)
    let ?st1 = "(j\<lparr>jn_pages := jn_pages j @ [a]\<rparr>, ps1)"
    have step: "grow_pages desired (j, ps) = grow_pages desired ?st1"
      using True mk by (subst grow_pages.simps) (simp add: Let_def bytes_def zero_page_def)
    note push = push_page [OF 1(2) mk]
    have "repaged others ?st1 (grow_pages desired ?st1) \<and> contents (grow_pages desired ?st1) =
        contents ?st1 @ map (zero_page desired) [length (contents ?st1)..<page_count desired]"
      using 1(1) [OF True, of _ ps1 a] push(1) mk by (simp add: repaged_def bytes_def zero_page_def)
    with push True show ?thesis unfolding step
      by (auto simp: upt_conv_Cons bytes_def intro: repaged_trans)
  next
    case False
    then have "grow_pages desired (j, ps) = (j, ps)" by (subst grow_pages.simps) simp
    with 1(2) False show ?thesis by (simp add: repaged_refl)
  qed
qed

definition pad_page :: "nat \<Rightarrow> nat \<Rightarrow> byte list \<Rightarrow> byte list" where
  "pad_page desired i page = page @ replicate (min page_bytes (desired - i * page_bytes) - length page) 0"

lemma grow_tail_eq:
  assumes "owns others st" and "i < length (jn_pages (fst st))"
  shows "repaged others st (grow_tail desired i st) \<and>
    contents (grow_tail desired i st) = (contents st)[i := pad_page desired i (contents st ! i)]"
proof -
  obtain j ps where st: "st = (j, ps)" by (cases st)
  have page: "pg_mem ps (jn_pages j ! i) = contents st ! i" using assms(2) by (simp add: contents_def st)
  show ?thesis
  proof (cases "length (contents st ! i) \<ge> min page_bytes (desired - i * page_bytes)")
    case True
    then have "grow_tail desired i st = st" using page by (simp add: grow_tail_def st Let_def)
    moreover have "pad_page desired i (contents st ! i) = contents st ! i" using True by (simp add: pad_page_def)
    ultimately show ?thesis using assms by (simp add: repaged_refl)
  next
    case False
    obtain j1 ps1 where own: "own_page i (j, ps) = (j1, ps1)" by (metis prod.exhaust)
    note ow = own_write [OF assms(1) [unfolded st] _ own]
    have "grow_tail desired i st = (j1, write_page (jn_pages j1 ! i) (pad_page desired i (contents st ! i)) ps1)"
      using False page own ow(3) assms(2) by (simp add: grow_tail_def st Let_def pad_page_def)
    with ow assms(2) show ?thesis by (simp add: st)
  qed
qed

lemma grow_tails_upto:
  assumes "owns others st" and "k \<le> length (jn_pages (fst st))"
  shows "repaged others st (fold (grow_tail desired) [0..<k] st) \<and>
    contents (fold (grow_tail desired) [0..<k] st) =
      map (\<lambda>i. pad_page desired i (contents st ! i)) [0..<k] @ drop k (contents st)"
  using assms(2)
proof (induction k)
  case 0
  from assms(1) show ?case by (simp add: repaged_refl)
next
  case (Suc k)
  define st1 where "st1 = fold (grow_tail desired) [0..<k] st"
  from Suc have IH: "repaged others st st1"
    "contents st1 = map (\<lambda>i. pad_page desired i (contents st ! i)) [0..<k] @ drop k (contents st)"
    by (simp_all add: st1_def)
  from arg_cong [OF IH(2), of length] Suc.prems have len: "k < length (jn_pages (fst st1))" by simp
  have "owns others st1" using IH(1) by (simp add: repaged_def)
  note t = grow_tail_eq [OF this len, of desired]
  have "contents st1 ! k = contents st ! k" using Suc.prems by (simp add: IH(2) nth_append)
  moreover have "drop k (contents st) = contents st ! k # drop (Suc k) (contents st)"
    using Suc.prems by (simp add: Cons_nth_drop_Suc)
  ultimately have "contents (grow_tail desired k st1) =
      map (\<lambda>i. pad_page desired i (contents st ! i)) [0..<Suc k] @ drop (Suc k) (contents st)"
    using t by (simp add: IH(2) list_update_append)
  with t IH(1) show ?case by (auto simp: st1_def intro: repaged_trans)
qed


lemma pad_zero: "paged n pages \<Longrightarrow> n \<le> desired \<Longrightarrow> i < n \<Longrightarrow> i div page_bytes < length pages \<and>
    i mod page_bytes < length (pages ! (i div page_bytes))"
  using paged_offset [of n pages i] paged_index [of i n] by (simp add: paged_def)

text \<open>Both loops together: the image extended by zeros.\<close>

lemma grow_eq:
  assumes "owns others st" and "paged n (contents st)" and "n \<le> desired"
  defines "st' \<equiv> grow_tails desired (grow_pages desired st)"
  shows "repaged others st st'" and "paged desired (contents st')"
    and "concat (contents st') = concat (contents st) @ replicate (desired - n) 0"
proof -
  define st1 where "st1 = grow_pages desired st"
  have cnt: "page_count n \<le> page_count desired" using assms(3) by (simp add: page_count_def div_le_mono)
  have len: "length (contents st) = page_count n" using assms(2) by (simp add: paged_def)
  have g1: "repaged others st st1"
    "contents st1 = contents st @ map (zero_page desired) [length (contents st)..<page_count desired]"
    using grow_pages_eq [OF assms(1), of desired] by (simp_all add: st1_def)
  have len1: "length (contents st1) = page_count desired" using g1(2) len cnt by simp
  have "owns others st1" using g1(1) by (simp add: repaged_def)
  from grow_tails_upto [OF this, of "page_count desired" desired] len1
  have g2: "repaged others st1 st'"
    "contents st' = map (\<lambda>i. pad_page desired i (contents st1 ! i)) [0..<page_count desired]"
    by (simp_all add: st'_def st1_def grow_tails_def)
  show "repaged others st st'" by (rule repaged_trans [OF g1(1) g2(1)])
  have page: "contents st' ! i = (if i < page_count n then pad_page desired i (contents st ! i) else zero_page desired i)"
    if "i < page_count desired" for i
    using that len by (auto simp: g2(2) g1(2) nth_append pad_page_def zero_page_def)
  have short: "length (contents st ! i) \<le> min page_bytes (desired - i * page_bytes)" if "i < page_count n" for i
    using that assms(2,3) by (auto simp: paged_def)
  show paged': "paged desired (contents st')"
    using short page by (auto simp: paged_def g2(2) pad_page_def zero_page_def simp del: nth_map)
  show "concat (contents st') = concat (contents st) @ replicate (desired - n) 0"
  proof (rule nth_equalityI)
    show "length (concat (contents st')) = length (concat (contents st) @ replicate (desired - n) 0)"
      using assms(3) paged_concat_length [OF paged'] paged_concat_length [OF assms(2)] by simp
    fix i assume "i < length (concat (contents st'))"
    then have i: "i < desired" using paged_concat_length [OF paged'] by simp
    let ?k = "i div page_bytes" and ?r = "i mod page_bytes"
    have k: "?k < page_count desired" by (rule paged_index [OF i])
    have r: "?r < length (contents st' ! ?k)" by (rule paged_offset [OF paged' i])
    have n: "length (concat (contents st)) = n" by (rule paged_concat_length [OF assms(2)])
    show "concat (contents st') ! i = (concat (contents st) @ replicate (desired - n) 0) ! i"
    proof (cases "i < n")
      case True
      then show ?thesis
        using paged_nth [OF paged' i] page [OF k] pad_zero [OF assms(2,3) True] len n
        by (simp add: nth_append paged_nth [OF assms(2)] pad_page_def)
    next
      case False
      have "contents st' ! ?k ! ?r = 0"
      proof (cases "?k < page_count n")
        case True
        then have "length (contents st ! ?k) = min page_bytes (n - ?k * page_bytes)" using assms(2) len by (simp add: paged_def)
        moreover have "?r < page_bytes" by simp
        moreover have "n - ?k * page_bytes \<le> ?r" using False div_mult_mod_eq [of i page_bytes] by linarith
        ultimately have "length (contents st ! ?k) \<le> ?r" by simp
        with r page [OF k] True show ?thesis by (simp add: pad_page_def nth_append)
      next
        case False
        with r page [OF k] show ?thesis by (simp add: zero_page_def)
      qed
      with False i n show ?thesis by (simp add: paged_nth [OF paged' i] nth_append)
    qed
  qed
qed

lemma copy_write_eq:
  "owns others st \<Longrightarrow> paged n (contents st) \<Longrightarrow> byteOffset + length bytes \<le> n \<Longrightarrow> sourceOffset \<le> length bytes \<Longrightarrow>
    \<exists>st'. copy_write bytes byteOffset sourceOffset st = Some st' \<and> repaged others st st' \<and>
      paged n (contents st') \<and>
      concat (contents st') = blit (byteOffset + sourceOffset) (drop sourceOffset bytes) (concat (contents st))"
proof (induction "length bytes - sourceOffset" arbitrary: sourceOffset st rule: less_induct)
  case (less sourceOffset st)
  show ?case
  proof (cases "sourceOffset < length bytes")
    case False
    with less(5) have "drop sourceOffset bytes = []" by simp
    moreover have "copy_write bytes byteOffset sourceOffset st = Some st" using False by (subst copy_write.simps) simp
    ultimately show ?thesis using less(2,3) by (simp add: repaged_refl)
  next
    case True
    define absolute where "absolute = byteOffset + sourceOffset"
    let ?k = "absolute div page_bytes" and ?r = "absolute mod page_bytes"
    obtain j ps where st: "st = (j, ps)" by (cases st)
    have abs: "absolute < n" using True less(4) by (simp add: absolute_def)
    have k: "?k < length (jn_pages j)" using paged_index [OF abs] less(3) by (simp add: paged_def st)
    have r: "?r < length (contents st ! ?k)" by (rule paged_offset [OF less(3) abs])
    obtain j1 ps1 where own: "own_page ?k (j, ps) = (j1, ps1)" by (metis prod.exhaust)
    note ow = own_write [OF less(2) [unfolded st] k own]
    define copySize where "copySize = min (length bytes - sourceOffset) (length (contents st ! ?k) - ?r)"
    have pos: "0 < copySize" using True r by (simp add: copySize_def)
    define new where "new = blit ?r (piece sourceOffset copySize bytes) (contents st ! ?k)"
    define st1 where "st1 = (j1, write_page (jn_pages j1 ! ?k) new ps1)"
    have step: "copy_write bytes byteOffset sourceOffset st = copy_write bytes byteOffset (sourceOffset + copySize) st1"
      using True k own ow(3) pos
      by (subst copy_write.simps)
        (simp add: Let_def st absolute_def [symmetric] copySize_def [symmetric, unfolded st] new_def st1_def)
    have plen: "length (piece sourceOffset copySize bytes) = copySize" using True by (simp add: copySize_def)
    have rep: "repaged others st st1" and c1: "contents st1 = (contents st)[?k := new]"
      using ow(1) [of new] ow(2) [of new] by (simp_all add: st st1_def)
    have fit: "copySize \<le> length (contents st ! ?k) - ?r" by (simp add: copySize_def)
    have p1: "paged n (contents st1)" unfolding c1
      by (rule paged_update [OF less(3)]) (use fit r plen in \<open>simp add: new_def blit_simps\<close>)
    have cat: "concat (contents st1) = blit absolute (piece sourceOffset copySize bytes) (concat (contents st))"
      unfolding c1 new_def by (rule concat_page_blit [OF less(3) abs]) (use fit plen in simp)
    have len: "length (concat (contents st)) = n" by (rule paged_concat_length [OF less(3)])
    have "\<exists>st'. copy_write bytes byteOffset (sourceOffset + copySize) st1 = Some st' \<and> repaged others st1 st' \<and>
      paged n (contents st') \<and> concat (contents st') =
        blit (byteOffset + (sourceOffset + copySize)) (drop (sourceOffset + copySize) bytes) (concat (contents st1))"
    proof (rule less(1))
      show "owns others st1" using rep by (simp add: repaged_def)
    qed (use True pos p1 less(4) in \<open>simp_all add: copySize_def\<close>)
    then obtain st' where st': "copy_write bytes byteOffset (sourceOffset + copySize) st1 = Some st'"
      "repaged others st1 st'" "paged n (contents st')"
      "concat (contents st') =
        blit (absolute + copySize) (drop (sourceOffset + copySize) bytes) (concat (contents st1))"
      by (auto simp: absolute_def add.assoc)
    have "piece sourceOffset copySize bytes @ drop (sourceOffset + copySize) bytes = drop sourceOffset bytes"
      by (rule piece_append_drop)
    moreover have "blit (absolute + copySize) (drop (sourceOffset + copySize) bytes) (concat (contents st1)) =
        blit absolute (piece sourceOffset copySize bytes @ drop (sourceOffset + copySize) bytes) (concat (contents st))"
      unfolding cat using plen len less(4) True
      by (subst blit_append [of absolute "piece sourceOffset copySize bytes", symmetric])
        (simp_all add: absolute_def copySize_def)
    ultimately show ?thesis
      using step st' repaged_trans [OF rep st'(2)] by (simp add: absolute_def)
  qed
qed

end
