(* ===== verification/JournalProps.thy ===== *)
theory JournalProps
  imports JournalOps
begin

text \<open>
  The journal in its world, with its captures in other hands: the invariant of the page store
  and of the writes, each operation as a step of the specification \<open>desired_step\<close> (one byte
  string with its rows and capacity), runs of operations, and how the writes of a run cover
  what changed in it.
\<close>

section \<open>Rebuilding the pages\<close>

lemma make_pages_eq:
  "owns others (j, ps) \<Longrightarrow> make_pages pages ps = (ps', as) \<Longrightarrow>
    owns others (j\<lparr>jn_pages := jn_pages j @ as\<rparr>, ps') \<and> frozen others ps ps' \<and>
    contents (j\<lparr>jn_pages := jn_pages j @ as\<rparr>, ps') = contents (j, ps) @ pages"
proof (induction pages arbitrary: j ps ps' as)
  case (Cons bytes pages)
  obtain ps1 a where mk: "make_page bytes ps = (ps1, a)" by (metis prod.exhaust)
  obtain ps2 bs where rest: "make_pages pages ps1 = (ps2, bs)" by (metis prod.exhaust)
  have r: "ps' = ps2" "as = a # bs" using Cons.prems(2) mk rest by simp_all
  note push = push_page [OF Cons.prems(1) mk]
  have "owns others (j\<lparr>jn_pages := jn_pages j @ [a]\<rparr>, ps1)" using push(1) by (simp add: repaged_def)
  from Cons.IH [OF this rest] push show ?case by (auto simp: r repaged_def intro: frozen_trans)
qed simp

lemma drop_pages_uses:
  "pg_mem (fold drop_page as ps) = pg_mem ps \<and> pg_next (fold drop_page as ps) = pg_next ps \<and>
   (\<forall>a. pg_uses (fold drop_page as ps) a = pg_uses ps a - count_list as a)"
  by (induction as arbitrary: ps) (auto simp: drop_page_def)

lemma share_pages_uses:
  "pg_mem (fold share_page as ps) = pg_mem ps \<and> pg_next (fold share_page as ps) = pg_next ps \<and>
   (\<forall>a. pg_uses (fold share_page as ps) a = pg_uses ps a + count_list as a)"
  by (induction as arbitrary: ps) (auto simp: share_page_def)

lemma count_list_distinct: "distinct as \<Longrightarrow> count_list as a = (if a \<in> set as then 1 else 0)"
  by (induction as) auto

lemma rebuild_pages_eq:
  assumes "owns others (j, ps)" and "rebuild_pages bytes (j, ps) = (j', ps')"
  shows "owns others (j', ps')" and "frozen others ps ps'" and "contents (j', ps') = split_pages bytes 0"
    and "\<exists>as. j' = j\<lparr>jn_byteSize := length bytes, jn_pages := as\<rparr>"
proof -
  define ps0 where "ps0 = fold drop_page (jn_pages j) ps"
  define j0 where "j0 = j\<lparr>jn_byteSize := length bytes, jn_pages := []\<rparr>"
  obtain as where mk: "make_pages (split_pages bytes 0) ps0 = (ps', as)"
    and j': "j' = j\<lparr>jn_byteSize := length bytes, jn_pages := as\<rparr>"
    using assms(2) by (auto simp: rebuild_pages_def ps0_def split: prod.splits)
  have d: "pg_mem ps0 = pg_mem ps" "pg_next ps0 = pg_next ps"
    "pg_uses ps0 a = pg_uses ps a - count_list (jn_pages j) a" for a
    unfolding ps0_def using drop_pages_uses by blast+
  have "owns others (j0, ps0)"
    using assms(1) by (auto simp: owns_def j0_def d count_list_distinct)
  from make_pages_eq [OF this mk] have m: "owns others (j0\<lparr>jn_pages := as\<rparr>, ps')" "frozen others ps0 ps'"
    "contents (j0\<lparr>jn_pages := as\<rparr>, ps') = split_pages bytes 0"
    by (simp_all add: j0_def contents_def)
  have eq: "j0\<lparr>jn_pages := as\<rparr> = j'" by (simp add: j0_def j')
  show "owns others (j', ps')" "contents (j', ps') = split_pages bytes 0" using m by (simp_all add: eq)
  show "frozen others ps ps'" using m(2) by (simp add: frozen_def d)
  show "\<exists>as. j' = j\<lparr>jn_byteSize := length bytes, jn_pages := as\<rparr>" using j' by blast
qed

section \<open>The world and its specification\<close>

record journal_world =
  jw_journal :: journal
  jw_store :: page_store
  jw_captures :: "capture list"

datatype journal_op =
    Initialize "byte list" nat nat
  | AppendWrite nat "byte list" nat
  | ReplaceImage "byte list" nat nat
  | RequestCapacity nat
  | Capture
  | Release capture
  | Acknowledge "published_version option" "nat option"
  | SetBackingPool bool

definition put_journal :: "journal_state \<Rightarrow> journal_world \<Rightarrow> journal_world" where
  "put_journal st w = w\<lparr>jw_journal := fst st, jw_store := snd st\<rparr>"

definition journal_state_of :: "journal_world \<Rightarrow> journal_state" where
  "journal_state_of w = (jw_journal w, jw_store w)"

text \<open>One operation (\<open>None\<close>: behaviour the language leaves undefined). A throw changes nothing.\<close>

fun journal_op_run :: "journal_op \<Rightarrow> journal_world \<Rightarrow> journal_world option" where
  "journal_op_run (Initialize bytes n c) w = Some (put_journal (fst (initialize bytes n c (journal_state_of w))) w)"
| "journal_op_run (AppendWrite off bytes n) w =
     map_option (\<lambda>r. put_journal (fst r) w) (append_write off bytes n (journal_state_of w))"
| "journal_op_run (ReplaceImage bytes n c) w = Some (put_journal (fst (replace_image bytes n c (journal_state_of w))) w)"
| "journal_op_run (RequestCapacity c) w = Some (w\<lparr>jw_journal := request_capacity c (jw_journal w)\<rparr>)"
| "journal_op_run Capture w =
     (case capture_desired (journal_state_of w) of
        (st, cp) \<Rightarrow> Some ((put_journal st w)\<lparr>jw_captures := cp # jw_captures w\<rparr>))"
| "journal_op_run (Release cp) w =
     Some (if cp \<in> set (jw_captures w)
           then w\<lparr>jw_store := release_capture cp (jw_store w), jw_captures := remove1 cp (jw_captures w)\<rparr> else w)"
| "journal_op_run (Acknowledge v oldest) w = Some (w\<lparr>jw_journal := acknowledge v oldest (jw_journal w)\<rparr>)"
| "journal_op_run (SetBackingPool b) w = Some (w\<lparr>jw_journal := set_backing_pool b (jw_journal w)\<rparr>)"

fun journal_run :: "journal_op list \<Rightarrow> journal_world \<Rightarrow> journal_world option" where
  "journal_run [] w = Some w"
| "journal_run (op # ops) w = (case journal_op_run op w of None \<Rightarrow> None | Some w1 \<Rightarrow> journal_run ops w1)"

text \<open>The references other than the journal's: its captures'.\<close>

definition captured :: "capture list \<Rightarrow> nat \<Rightarrow> nat" where
  "captured cps a = sum_list (map (\<lambda>cp. count_list (cp_pages cp) a) cps)"

text \<open>The bytes the journal's pages hold.\<close>

definition js_bytes :: "journal_world \<Rightarrow> byte list" where
  "js_bytes w = concat (contents (journal_state_of w))"

definition stretched :: "nat \<Rightarrow> byte list \<Rightarrow> byte list" where
  "stretched n bytes = bytes @ replicate (n - length bytes) 0"

text \<open>
  The specification: the desired image as one byte string with its rows and its capacity, and
  what each operation makes of it (nothing, when its guards refuse it).
\<close>

record desired_image =
  ds_stride :: nat
  ds_bytes :: "byte list"
  ds_count :: nat
  ds_capacity :: nat

definition new_desired :: "nat \<Rightarrow> desired_image" where
  "new_desired stride = \<lparr>ds_stride = stride, ds_bytes = [], ds_count = 0, ds_capacity = 0\<rparr>"

definition image_fits :: "byte list \<Rightarrow> nat \<Rightarrow> nat \<Rightarrow> desired_image \<Rightarrow> bool" where
  "image_fits bytes n c d \<longleftrightarrow> ds_stride d \<noteq> 0 \<and> n \<le> c \<and> length bytes = n * ds_stride d"

definition write_fits :: "nat \<Rightarrow> byte list \<Rightarrow> nat \<Rightarrow> desired_image \<Rightarrow> bool" where
  "write_fits off bytes n d \<longleftrightarrow>
     ds_stride d \<noteq> 0 \<and> bytes \<noteq> [] \<and> ds_stride d dvd length bytes \<and>
     off + length bytes div ds_stride d \<le> n \<and> n \<le> ds_capacity d"

fun desired_step :: "journal_op \<Rightarrow> desired_image \<Rightarrow> desired_image" where
  "desired_step (Initialize bytes n c) d =
     (if image_fits bytes n c d then d\<lparr>ds_bytes := bytes, ds_count := n, ds_capacity := c\<rparr> else d)"
| "desired_step (AppendWrite off bytes n) d =
     (if write_fits off bytes n d
      then d\<lparr>ds_count := max (ds_count d) n,
             ds_bytes := blit (off * ds_stride d) bytes (stretched (max (ds_count d) n * ds_stride d) (ds_bytes d))\<rparr>
      else d)"
| "desired_step (ReplaceImage bytes n c) d =
     (if image_fits bytes n c d then d\<lparr>ds_bytes := bytes, ds_count := n, ds_capacity := max (ds_capacity d) c\<rparr> else d)"
| "desired_step (RequestCapacity c) d = d\<lparr>ds_capacity := max (ds_capacity d) c\<rparr>"
| "desired_step _ d = d"

definition desired_of :: "journal_world \<Rightarrow> desired_image" where
  "desired_of w = \<lparr>ds_stride = jn_elementStride (jw_journal w), ds_bytes = js_bytes w,
     ds_count = jn_elementCount (jw_journal w), ds_capacity = jn_capacity (jw_journal w)\<rparr>"

text \<open>Operations whose capacity the address space holds.\<close>

fun op_fits :: "nat \<Rightarrow> journal_op \<Rightarrow> bool" where
  "op_fits stride (Initialize bytes n c) \<longleftrightarrow> c * stride \<le> u64_max"
| "op_fits stride (ReplaceImage bytes n c) \<longleftrightarrow> c * stride \<le> u64_max"
| "op_fits stride (RequestCapacity c) \<longleftrightarrow> c * stride \<le> u64_max"
| "op_fits stride _ \<longleftrightarrow> True"

definition writes_ok :: "journal \<Rightarrow> bool" where
  "writes_ok j \<longleftrightarrow>
     sorted_wrt (<) (map bw_sequence (jn_writes j)) \<and>
     (\<forall>w \<in> set (jn_writes j). jn_journalBaseSequence j < bw_sequence w \<and> bw_sequence w \<le> jn_writeSequence j)"

definition world_ok :: "journal_world \<Rightarrow> bool" where
  "world_ok w \<longleftrightarrow>
     (let j = jw_journal w in
      owns (captured (jw_captures w)) (journal_state_of w) \<and>
      paged (jn_byteSize j) (contents (journal_state_of w)) \<and>
      jn_byteSize j = jn_elementCount j * jn_elementStride j \<and> jn_elementCount j \<le> jn_capacity j \<and>
      jn_capacity j * jn_elementStride j \<le> u64_max \<and> writes_ok j \<and>
      (\<forall>cp \<in> set (jw_captures w). paged (cp_byteSize cp) (map (pg_mem (jw_store w)) (cp_pages cp))))"

definition new_world :: "nat \<Rightarrow> journal_world" where
  "new_world stride = \<lparr>jw_journal = new_journal stride, jw_store = empty_store, jw_captures = []\<rparr>"

lemma new_world_ok: "world_ok (new_world stride)"
  by (simp add: world_ok_def new_world_def new_journal_def empty_store_def owns_def captured_def contents_def
      journal_state_of_def writes_ok_def)

text \<open>A capture's image, as the holder materializes it.\<close>

definition capture_bytes :: "page_store \<Rightarrow> capture \<Rightarrow> byte list" where
  "capture_bytes ps cp = materialize (capture_image ps cp)"

lemma capture_bytes_eq:
  assumes "paged (cp_byteSize cp) (map (pg_mem ps) (cp_pages cp))"
  shows "capture_bytes ps cp = concat (map (pg_mem ps) (cp_pages cp))"
  using materialize_pages [OF paged_concat_length [OF assms]]
  by (simp add: capture_bytes_def capture_image_def comp_def)

lemma captured_pos: "cp \<in> set cps \<Longrightarrow> a \<in> set (cp_pages cp) \<Longrightarrow> captured cps a \<noteq> 0"
proof -
  assume a: "cp \<in> set cps" "a \<in> set (cp_pages cp)"
  from a(2) have "count_list (cp_pages cp) a \<noteq> 0" by (simp add: count_list_0_iff)
  moreover have "count_list (cp_pages cp) a \<le> captured cps a"
    unfolding captured_def by (rule sum_list_map_le [OF a(1), of "\<lambda>cp. count_list (cp_pages cp) a"])
  ultimately show ?thesis by simp
qed

lemma frozen_capture:
  assumes "frozen (captured cps) ps ps'" and "cp \<in> set cps"
  shows "map (pg_mem ps') (cp_pages cp) = map (pg_mem ps) (cp_pages cp)"
  using assms captured_pos [OF assms(2)] by (auto simp: frozen_def)


section \<open>Each operation\<close>

definition step_ok :: "journal_op \<Rightarrow> journal_world \<Rightarrow> journal_world \<Rightarrow> bool" where
  "step_ok op w w' \<longleftrightarrow>
     world_ok w' \<and> desired_of w' = desired_step op (desired_of w) \<and>
     (\<forall>cp \<in> set (jw_captures w). map (pg_mem (jw_store w')) (cp_pages cp) = map (pg_mem (jw_store w)) (cp_pages cp))"

lemma world_okI:
  assumes "world_ok w" and "owns (captured (jw_captures w)) (j, ps)" and "frozen (captured (jw_captures w)) (jw_store w) ps"
    and "paged (jn_byteSize j) (contents (j, ps))" and "jn_byteSize j = jn_elementCount j * jn_elementStride j"
    and "jn_elementCount j \<le> jn_capacity j" and "jn_capacity j * jn_elementStride j \<le> u64_max" and "writes_ok j"
  shows "world_ok (put_journal (j, ps) w)"
proof -
  have "paged (cp_byteSize cp) (map (pg_mem ps) (cp_pages cp))" if "cp \<in> set (jw_captures w)" for cp
    using assms(1) that unfolding frozen_capture [OF assms(3) that] by (simp add: world_ok_def Let_def)
  with assms show ?thesis by (simp add: world_ok_def put_journal_def journal_state_of_def Let_def)
qed

lemma writes_ok_snoc:
  assumes "writes_ok j" and "jn_writes j' = jn_writes j @ [x]" and "bw_sequence x = jn_writeSequence j + 1"
    and "jn_writeSequence j' = jn_writeSequence j + 1" and "jn_journalBaseSequence j' = jn_journalBaseSequence j"
    and "jn_journalBaseSequence j \<le> jn_writeSequence j"
  shows "writes_ok j'"
  using assms by (fastforce simp: writes_ok_def sorted_wrt_append)

lemma fits_product: "n \<le> c \<Longrightarrow> c * s \<le> u64_max \<Longrightarrow> u64 (n * s) = n * s"
  by (rule u64_id) (meson le_trans mult_le_mono1)

text \<open>The base never passes the sequence.\<close>

definition base_ok :: "journal \<Rightarrow> bool" where
  "base_ok j \<longleftrightarrow> jn_journalBaseSequence j \<le> jn_writeSequence j"

lemma step_unchanged: "world_ok w \<Longrightarrow> desired_step op (desired_of w) = desired_of w \<Longrightarrow> step_ok op w w"
  by (simp add: step_ok_def)

lemma put_same [simp]: "put_journal (journal_state_of w) w = w"
  by (simp add: put_journal_def journal_state_of_def)

lemma rebuilt_step:
  assumes ok: "world_ok w" and fresh: "jn_pages j0 = jn_pages (jw_journal w)"
    and rb: "rebuild_pages bytes (j0, jw_store w) = (j1, ps)"
    and j: "jn_byteSize j = jn_byteSize j1" "jn_pages j = jn_pages j1"
      "jn_elementStride j = jn_elementStride (jw_journal w)" "length bytes = jn_elementCount j * jn_elementStride j"
      "jn_elementCount j \<le> jn_capacity j" "jn_capacity j * jn_elementStride j \<le> u64_max" "writes_ok j"
    and spec: "desired_step op (desired_of w) = \<lparr>ds_stride = jn_elementStride j, ds_bytes = bytes,
      ds_count = jn_elementCount j, ds_capacity = jn_capacity j\<rparr>"
  shows "step_ok op w (put_journal (j, ps) w)"
proof -
  let ?o = "captured (jw_captures w)"
  have "owns ?o (j0, jw_store w)"
    using ok fresh by (simp add: world_ok_def Let_def owns_def journal_state_of_def)
  note r = rebuild_pages_eq [OF this rb]
  have own: "owns ?o (j, ps)" using r(1) j(2) by (simp add: owns_def)
  have cont: "contents (j, ps) = split_pages bytes 0" using r(3) j(2) by (simp add: contents_def)
  have size: "jn_byteSize j = length bytes" using r(4) j(1) by auto
  have "world_ok (put_journal (j, ps) w)"
  proof (rule world_okI [OF ok own r(2)])
    show "paged (jn_byteSize j) (contents (j, ps))" unfolding cont size by (rule paged_split_pages)
  qed (use j size in simp_all)
  moreover have "js_bytes (put_journal (j, ps) w) = bytes"
    by (simp add: js_bytes_def put_journal_def journal_state_of_def cont concat_split_pages)
  moreover have "\<forall>cp \<in> set (jw_captures w). map (pg_mem ps) (cp_pages cp) = map (pg_mem (jw_store w)) (cp_pages cp)"
    using frozen_capture [OF r(2)] by blast
  ultimately show ?thesis using spec by (simp add: step_ok_def put_journal_def desired_of_def)
qed

lemma initialize_step:
  assumes "world_ok w" and "op_fits (jn_elementStride (jw_journal w)) (Initialize bytes n c)"
  shows "step_ok (Initialize bytes n c) w (put_journal (fst (initialize bytes n c (journal_state_of w))) w)"
proof -
  let ?j = "jw_journal w"
  show ?thesis
  proof (cases "jn_elementStride ?j \<noteq> 0 \<and> n \<le> c \<and> length bytes = n * jn_elementStride ?j")
    case True
    define j0 where "j0 = ?j\<lparr>jn_previous := None, jn_writes := [], jn_journalBaseSequence := 0\<rparr>"
    obtain j1 ps where rb: "rebuild_pages bytes (j0, jw_store w) = (j1, ps)" by (metis prod.exhaust)
    have f: "u64 (n * jn_elementStride ?j) = n * jn_elementStride ?j" using True assms(2) by (intro fits_product) auto
    have same: "jn_elementStride j1 = jn_elementStride ?j" "jn_writes j1 = []" "jn_journalBaseSequence j1 = 0"
      using rb by (auto simp: rebuild_pages_def j0_def split: prod.splits)
    have "initialize bytes n c (journal_state_of w) =
        ((j1\<lparr>jn_elementCount := n, jn_capacity := c, jn_writeSequence := 1\<rparr>, ps), Inr ())"
      using True f rb by (simp add: initialize_def journal_state_of_def j0_def Let_def)
    then show ?thesis
      using True assms(2) same
      by (auto intro!: rebuilt_step [OF assms(1) _ rb] simp: j0_def writes_ok_def desired_of_def image_fits_def)
  next
    case False
    then have "initialize bytes n c (journal_state_of w) =
        (journal_state_of w, Inl (InvalidArgument ''invalid buffer journal initial image''))"
      using assms(2) fits_product [of n c "jn_elementStride ?j"]
      by (auto simp: initialize_def journal_state_of_def Let_def)
    with False assms(1) show ?thesis by (auto intro!: step_unchanged simp: desired_of_def image_fits_def)
  qed
qed

lemma replace_step:
  assumes "world_ok w" and "op_fits (jn_elementStride (jw_journal w)) (ReplaceImage bytes n c)" and "base_ok (jw_journal w)"
  shows "step_ok (ReplaceImage bytes n c) w (put_journal (fst (replace_image bytes n c (journal_state_of w))) w)"
proof -
  let ?j = "jw_journal w"
  show ?thesis
  proof (cases "jn_elementStride ?j \<noteq> 0 \<and> n \<le> c \<and> length bytes = n * jn_elementStride ?j")
    case True
    define j0 where "j0 = ?j\<lparr>jn_capacity := max (jn_capacity ?j) c, jn_elementCount := n,
      jn_writeSequence := jn_writeSequence ?j + 1\<rparr>"
    obtain j1 ps where rb: "rebuild_pages bytes (j0, jw_store w) = (j1, ps)" by (metis prod.exhaust)
    have f: "u64 (n * jn_elementStride ?j) = n * jn_elementStride ?j" using True assms(2) by (intro fits_product) auto
    have j1: "\<exists>as. j1 = j0\<lparr>jn_byteSize := length bytes, jn_pages := as\<rparr>"
      using rb by (auto simp: rebuild_pages_def split: prod.splits)
    define j where "j = j1\<lparr>jn_writes := jn_writes j1 @
      [\<lparr>bw_sequence = jn_writeSequence ?j + 1, bw_byteOffset = 0, bw_byteSize = length bytes\<rparr>]\<rparr>"
    have "replace_image bytes n c (journal_state_of w) = ((j, ps), Inr (jn_writeSequence ?j + 1))"
      using True f rb by (simp add: replace_image_def journal_state_of_def j0_def j_def Let_def)
    moreover have "writes_ok j"
      by (rule writes_ok_snoc [of ?j _ "\<lparr>bw_sequence = jn_writeSequence ?j + 1, bw_byteOffset = 0, bw_byteSize = length bytes\<rparr>"])
        (use assms j1 in \<open>auto simp: world_ok_def Let_def base_ok_def j_def j0_def\<close>)
    moreover have "max (jn_capacity ?j) c * jn_elementStride ?j \<le> u64_max"
      using assms(1,2) by (simp add: world_ok_def Let_def max_def)
    moreover have "step_ok (ReplaceImage bytes n c) w (put_journal (j, ps) w)"
      by (rule rebuilt_step [OF assms(1) _ rb])
        (use True j1 calculation in \<open>auto simp: j_def j0_def desired_of_def image_fits_def\<close>)
    ultimately show ?thesis by simp
  next
    case False
    then have "replace_image bytes n c (journal_state_of w) =
        (journal_state_of w, Inl (InvalidArgument ''invalid buffer journal replacement image''))"
      using assms(2) fits_product [of n c "jn_elementStride ?j"]
      by (auto simp: replace_image_def journal_state_of_def Let_def)
    with False assms(1) show ?thesis by (auto intro!: step_unchanged simp: desired_of_def image_fits_def)
  qed
qed


text \<open>A write that passes the guards: one overwrite of the zero-extended image.\<close>

lemma append_write_eq:
  assumes "world_ok w" and "jn_elementStride (jw_journal w) \<noteq> 0" and "bytes \<noteq> []"
    and "jn_elementStride (jw_journal w) dvd length bytes"
    and "off + length bytes div jn_elementStride (jw_journal w) \<le> n" and "n \<le> jn_capacity (jw_journal w)"
  defines "j \<equiv> jw_journal w" and "o' \<equiv> captured (jw_captures w)"
  defines "s \<equiv> jn_elementStride j" and "ec \<equiv> max (jn_elementCount j) n" and "q \<equiv> jn_writeSequence j + 1"
  obtains as ps where
    "append_write off bytes n (journal_state_of w) =
      Some ((j\<lparr>jn_writeSequence := q, jn_byteSize := ec * s, jn_pages := as, jn_elementCount := ec,
        jn_writes := jn_writes j @ [\<lparr>bw_sequence = q, bw_byteOffset = off * s, bw_byteSize = length bytes\<rparr>]\<rparr>, ps),
       Inr q)"
    and "owns o' (j\<lparr>jn_pages := as\<rparr>, ps)" and "frozen o' (jw_store w) ps"
    and "paged (ec * s) (map (pg_mem ps) as)"
    and "concat (map (pg_mem ps) as) = blit (off * s) bytes (stretched (ec * s) (js_bytes w))"
proof -
  have ok: "owns o' (j, jw_store w)" "paged (jn_byteSize j) (contents (j, jw_store w))"
    "jn_byteSize j = jn_elementCount j * s" "jn_elementCount j \<le> jn_capacity j" "jn_capacity j * s \<le> u64_max"
    using assms(1) by (auto simp: world_ok_def Let_def o'_def j_def s_def journal_state_of_def)
  have s: "0 < s" using assms(2) by (simp add: s_def j_def)
  have ec: "ec \<le> jn_capacity j" "n \<le> ec" using ok(4) assms(6) by (simp_all add: ec_def j_def)
  have f1: "u64 (ec * s) = ec * s" using ec(1) ok(5) by (rule fits_product)
  have we: "off + length bytes div s \<le> n" using assms(5) by (simp add: s_def j_def)
  then have "off \<le> jn_capacity j" using ec by linarith
  then have f2: "u64 (off * s) = off * s" using ok(5) by (rule fits_product)
  have "jn_capacity j \<le> jn_capacity j * s" using s by simp
  then have "off + length bytes div s \<le> u64_max" using we ec ok(5) by linarith
  then have g: "\<not> u64_max - length bytes div s < off" by simp
  define j0 where "j0 = j\<lparr>jn_writeSequence := q\<rparr>"
  have own0: "owns o' (j0, jw_store w)" and cont0: "contents (j0, jw_store w) = contents (journal_state_of w)"
    using ok(1) by (simp_all add: owns_def j0_def contents_def j_def journal_state_of_def)
  have pg0: "paged (jn_byteSize j) (contents (j0, jw_store w))" 
    using ok(2) by (simp add: contents_def j0_def)
  have grow: "jn_byteSize j \<le> ec * s" by (simp add: ok(3) ec_def)
  define st1 where "st1 = grow_tails (ec * s) (grow_pages (ec * s) (j0, jw_store w))"
  note ge = grow_eq [OF own0 pg0 grow, folded st1_def]
  have own1: "owns o' st1" using ge(1) by (simp add: repaged_def)
  have "off * s + length bytes = (off + length bytes div s) * s"
    using assms(4) by (simp add: add_mult_distrib s_def j_def)
  also have "\<dots> \<le> ec * s" using we ec(2) by (meson le_trans mult_le_mono1)
  finally have fit: "off * s + length bytes \<le> ec * s" .
  from copy_write_eq [OF own1 ge(2) fit, of 0] obtain st2 where
    st2: "copy_write bytes (off * s) 0 st1 = Some st2" "repaged o' st1 st2" "paged (ec * s) (contents st2)"
      "concat (contents st2) = blit (off * s) bytes (concat (contents st1))" by auto
  have rep: "repaged o' (j0, jw_store w) st2" by (rule repaged_trans [OF ge(1) st2(2)])
  obtain as ps where st2eq: "st2 = (j0\<lparr>jn_pages := as\<rparr>, ps)"
    using rep by (cases st2) (auto simp: repaged_def)
  have "length (js_bytes w) = jn_byteSize j"
    using paged_concat_length [OF ok(2)] by (simp add: js_bytes_def contents_def journal_state_of_def j_def)
  then have str: "concat (contents st1) = stretched (ec * s) (js_bytes w)"
    using ge(3) by (simp add: stretched_def js_bytes_def cont0)
  show ?thesis
  proof
    show "append_write off bytes n (journal_state_of w) =
      Some ((j\<lparr>jn_writeSequence := q, jn_byteSize := ec * s, jn_pages := as, jn_elementCount := ec,
        jn_writes := jn_writes j @ [\<lparr>bw_sequence = q, bw_byteOffset = off * s, bw_byteSize = length bytes\<rparr>]\<rparr>, ps),
       Inr q)"
      using assms(2-6) s g f1 f2 st2(1) st1_def we
      by (simp add: append_write_def journal_state_of_def Let_def j_def [symmetric] s_def [symmetric] q_def [symmetric]
        ec_def [symmetric] j0_def [symmetric] st2eq mod_eq_0_iff_dvd not_less)
        (simp add: j0_def q_def)
    show "owns o' (j\<lparr>jn_pages := as\<rparr>, ps)" using rep by (simp add: repaged_def st2eq owns_def j0_def)
    show "frozen o' (jw_store w) ps" using rep by (simp add: repaged_def st2eq)
    show "paged (ec * s) (map (pg_mem ps) as)" using st2(3) by (simp add: st2eq contents_def)
    show "concat (map (pg_mem ps) as) = blit (off * s) bytes (stretched (ec * s) (js_bytes w))"
      using st2(4) str by (simp add: st2eq contents_def)
  qed
qed

lemma append_step:
  assumes "world_ok w" and "base_ok (jw_journal w)"
  obtains w' where "journal_op_run (AppendWrite off bytes n) w = Some w'" and "step_ok (AppendWrite off bytes n) w w'"
proof -
  define j where "j = jw_journal w"
  define s where "s = jn_elementStride j"
  have cap: "jn_capacity j * s \<le> u64_max" using assms(1) by (simp add: world_ok_def Let_def j_def s_def)
  show ?thesis
  proof (cases "s \<noteq> 0 \<and> bytes \<noteq> [] \<and> s dvd length bytes \<and> off + length bytes div s \<le> n \<and> n \<le> jn_capacity j")
    case True
    let ?ec = "max (jn_elementCount j) n" and ?q = "jn_writeSequence j + 1"
    let ?wr = "\<lparr>bw_sequence = ?q, bw_byteOffset = off * s, bw_byteSize = length bytes\<rparr>"
    obtain as ps where e: "append_write off bytes n (journal_state_of w) =
        Some ((j\<lparr>jn_writeSequence := ?q, jn_byteSize := ?ec * s, jn_pages := as, jn_elementCount := ?ec,
          jn_writes := jn_writes j @ [?wr]\<rparr>, ps), Inr ?q)"
      and e2: "owns (captured (jw_captures w)) (j\<lparr>jn_pages := as\<rparr>, ps)"
      "frozen (captured (jw_captures w)) (jw_store w) ps" "paged (?ec * s) (map (pg_mem ps) as)"
      "concat (map (pg_mem ps) as) = blit (off * s) bytes (stretched (?ec * s) (js_bytes w))"
      using append_write_eq [OF assms(1), of bytes off n] True by (auto simp: j_def s_def)
    define j' where "j' = j\<lparr>jn_writeSequence := ?q, jn_byteSize := ?ec * s, jn_pages := as, jn_elementCount := ?ec,
          jn_writes := jn_writes j @ [?wr]\<rparr>"
    have "writes_ok j'"
      by (rule writes_ok_snoc [of j _ ?wr])
        (use assms in \<open>auto simp: world_ok_def Let_def base_ok_def j'_def j_def\<close>)
    then have "world_ok (put_journal (j', ps) w)"
      using e2 True cap assms(1)
      by (intro world_okI) (auto simp: j'_def owns_def contents_def s_def world_ok_def Let_def j_def)
    moreover have "desired_of (put_journal (j', ps) w) = desired_step (AppendWrite off bytes n) (desired_of w)"
      using True e2(4)
      by (simp add: desired_of_def write_fits_def js_bytes_def put_journal_def journal_state_of_def contents_def j'_def s_def j_def)
    ultimately have "step_ok (AppendWrite off bytes n) w (put_journal (j', ps) w)"
      using frozen_capture [OF e2(2)] by (auto simp: step_ok_def put_journal_def j_def)
    moreover have "journal_op_run (AppendWrite off bytes n) w = Some (put_journal (j', ps) w)"
      by (simp add: e j'_def)
    ultimately show ?thesis by (rule that [rotated])
  next
    case False
    have "\<exists>e. append_write off bytes n (journal_state_of w) = Some (journal_state_of w, Inl e)"
      using False cap
      by (auto simp: append_write_def journal_state_of_def Let_def j_def s_def mod_eq_0_iff_dvd)
    then have "journal_op_run (AppendWrite off bytes n) w = Some w" by (auto simp: put_journal_def journal_state_of_def)
    moreover have "desired_step (AppendWrite off bytes n) (desired_of w) = desired_of w"
      using False by (auto simp: desired_of_def write_fits_def s_def j_def)
    ultimately show ?thesis using that step_unchanged [OF assms(1)] by blast
  qed
qed


lemma journal_only_step:
  assumes "world_ok w" and "jn_pages j = jn_pages (jw_journal w)" and "jn_byteSize j = jn_byteSize (jw_journal w)"
    and "jn_elementCount j = jn_elementCount (jw_journal w)" and "jn_elementStride j = jn_elementStride (jw_journal w)"
    and "jn_elementCount j \<le> jn_capacity j" and "jn_capacity j * jn_elementStride j \<le> u64_max" and "writes_ok j"
    and "desired_step op (desired_of w) = (desired_of w)\<lparr>ds_capacity := jn_capacity j\<rparr>"
  shows "step_ok op w (w\<lparr>jw_journal := j\<rparr>)"
  using assms
  by (auto simp: step_ok_def world_ok_def Let_def owns_def journal_state_of_def contents_def js_bytes_def desired_of_def)

lemma request_step:
  assumes "world_ok w" and "op_fits (jn_elementStride (jw_journal w)) (RequestCapacity c)" and "base_ok (jw_journal w)"
  shows "step_ok (RequestCapacity c) w (w\<lparr>jw_journal := request_capacity c (jw_journal w)\<rparr>)"
proof (cases "c \<le> jn_capacity (jw_journal w)")
  case True
  then show ?thesis using assms(1) by (simp add: request_capacity_def step_unchanged desired_of_def)
next
  case False
  let ?j = "jw_journal w"
  have ok: "jn_elementCount ?j \<le> jn_capacity ?j" "writes_ok ?j" using assms(1) by (auto simp: world_ok_def Let_def)
  let ?w = "\<lparr>bw_sequence = jn_writeSequence ?j + 1,
    bw_byteOffset = u64 (jn_elementCount ?j * jn_elementStride ?j), bw_byteSize = 0\<rparr>"
  define j' where "j' = ?j\<lparr>jn_capacity := c, jn_writeSequence := jn_writeSequence ?j + 1, jn_writes := jn_writes ?j @ [?w]\<rparr>"
  have "writes_ok j'" by (rule writes_ok_snoc [OF ok(2), of _ ?w]) (use assms(3) in \<open>simp_all add: j'_def base_ok_def\<close>)
  then have "step_ok (RequestCapacity c) w (w\<lparr>jw_journal := j'\<rparr>)"
    by (intro journal_only_step [OF assms(1)]) (use False assms(2) ok(1) in \<open>simp_all add: j'_def desired_of_def\<close>)
  then show ?thesis using False by (simp add: request_capacity_def j'_def)
qed

lemma acknowledge_fields:
  "jn_pages (acknowledge v f j) = jn_pages j" "jn_byteSize (acknowledge v f j) = jn_byteSize j"
  "jn_elementCount (acknowledge v f j) = jn_elementCount j" "jn_elementStride (acknowledge v f j) = jn_elementStride j"
  "jn_capacity (acknowledge v f j) = jn_capacity j" "jn_writeSequence (acknowledge v f j) = jn_writeSequence j"
  "jn_hasPool (acknowledge v f j) = jn_hasPool j"
  by (auto simp: acknowledge_def Let_def split: option.splits)

lemma acknowledge_cases:
  obtains (same) "acknowledge v f j = j"
  | (moved) x b where "acknowledge v f j = j\<lparr>jn_previous := Some x, jn_journalBaseSequence := b,
        jn_writes := filter (\<lambda>w. \<not> bw_sequence w \<le> b) (jn_writes j)\<rparr>"
      "jn_journalBaseSequence j \<le> b" "base_ok j \<Longrightarrow> b \<le> jn_writeSequence j" "v = Some x"
      "pv_writeSequence x \<le> jn_writeSequence j" "b \<le> max (jn_journalBaseSequence j) (pv_writeSequence x)"
proof (cases v)
  case None
  then show ?thesis using same by (simp add: acknowledge_def)
next
  case (Some x)
  define b where "b = max (jn_journalBaseSequence j)
    (case (if jn_hasPool j then f else None) of None \<Rightarrow> pv_writeSequence x | Some f \<Rightarrow> min (pv_writeSequence x) f)"
  show ?thesis
  proof (cases "pv_writeSequence x > jn_writeSequence j \<or>
      (\<exists>p \<in> set_option (jn_previous j). pv_writeSequence x \<le> pv_writeSequence p)")
    case True
    then show ?thesis using same by (simp add: acknowledge_def Some Let_def)
  next
    case False
    have le: "b \<le> max (jn_journalBaseSequence j) (pv_writeSequence x)" by (auto simp: b_def split: option.split)
    from False have "acknowledge v f j = j\<lparr>jn_previous := Some x, jn_journalBaseSequence := b,
        jn_writes := filter (\<lambda>w. \<not> bw_sequence w \<le> b) (jn_writes j)\<rparr>"
      by (simp add: acknowledge_def Some Let_def b_def)
    then show ?thesis
      by (rule moved) (use False le in \<open>auto simp: b_def base_ok_def Some\<close>)
  qed
qed

lemma acknowledge_writes_ok: "writes_ok j \<Longrightarrow> writes_ok (acknowledge v f j)"
  by (cases rule: acknowledge_cases [of v f j])
    (auto simp: writes_ok_def sorted_wrt_map not_le intro!: sorted_wrt_filter)

lemma acknowledge_step:
  "world_ok w \<Longrightarrow> step_ok (Acknowledge v f) w (w\<lparr>jw_journal := acknowledge v f (jw_journal w)\<rparr>)"
  by (rule journal_only_step) (auto simp: acknowledge_fields world_ok_def Let_def desired_of_def intro: acknowledge_writes_ok)

lemma set_pool_step: "world_ok w \<Longrightarrow> step_ok (SetBackingPool b) w (w\<lparr>jw_journal := set_backing_pool b (jw_journal w)\<rparr>)"
  by (rule journal_only_step) (auto simp: set_backing_pool_def world_ok_def Let_def writes_ok_def desired_of_def)

lemma captured_Cons: "captured (cp # cps) a = count_list (cp_pages cp) a + captured cps a"
  by (simp add: captured_def)

lemma capture_step:
  assumes "world_ok w" and "capture_desired (journal_state_of w) = (st, cp)"
  shows "step_ok Capture w ((put_journal st w)\<lparr>jw_captures := cp # jw_captures w\<rparr>)"
    and "fst st = jw_journal w" and "capture_bytes (snd st) cp = js_bytes w"
    and "cp_writeSequence cp = jn_writeSequence (jw_journal w)"
proof -
  let ?j = "jw_journal w" and ?ps = "jw_store w"
  have st: "st = (?j, fold share_page (jn_pages ?j) ?ps)" and cp: "cp_pages cp = jn_pages ?j" "cp_byteSize cp = jn_byteSize ?j"
    and "cp_writeSequence cp = jn_writeSequence ?j"
    using assms(2) by (auto simp: capture_desired_def journal_state_of_def)
  then show "fst st = ?j" "cp_writeSequence cp = jn_writeSequence ?j" by simp_all
  have sh: "pg_mem (snd st) = pg_mem ?ps" "pg_next (snd st) = pg_next ?ps"
    "pg_uses (snd st) a = pg_uses ?ps a + count_list (jn_pages ?j) a" for a
    using share_pages_uses [of "jn_pages ?j" ?ps] by (simp_all add: st)
  have ok: "owns (captured (jw_captures w)) (?j, ?ps)" "paged (jn_byteSize ?j) (map (pg_mem ?ps) (jn_pages ?j))"
    using assms(1) by (auto simp: world_ok_def Let_def journal_state_of_def contents_def)
  have "owns (captured (cp # jw_captures w)) (?j, snd st)"
    using ok(1) by (auto simp: owns_def captured_Cons sh cp count_list_0_iff)
  then have "world_ok ((put_journal st w)\<lparr>jw_captures := cp # jw_captures w\<rparr>)"
    using assms(1) by (auto simp: world_ok_def Let_def journal_state_of_def put_journal_def contents_def sh cp \<open>fst st = ?j\<close>)
  then show "step_ok Capture w ((put_journal st w)\<lparr>jw_captures := cp # jw_captures w\<rparr>)"
    by (simp add: step_ok_def desired_of_def js_bytes_def put_journal_def journal_state_of_def contents_def sh \<open>fst st = ?j\<close>)
  have "capture_bytes (snd st) cp = concat (map (pg_mem (snd st)) (cp_pages cp))"
    by (rule capture_bytes_eq) (simp add: sh cp ok(2))
  then show "capture_bytes (snd st) cp = js_bytes w"
    by (simp add: js_bytes_def contents_def journal_state_of_def sh cp)
qed

lemma release_step:
  assumes "world_ok w"
  shows "journal_op_run (Release cp) w = Some w' \<Longrightarrow> step_ok (Release cp) w w'"
proof (cases "cp \<in> set (jw_captures w)")
  case False
  assume "journal_op_run (Release cp) w = Some w'"
  with False assms show ?thesis by (simp add: step_unchanged)
next
  case True
  assume run: "journal_op_run (Release cp) w = Some w'"
  let ?j = "jw_journal w" and ?ps = "jw_store w"
  define ps' where "ps' = release_capture cp ?ps"
  have w': "w' = w\<lparr>jw_store := ps', jw_captures := remove1 cp (jw_captures w)\<rparr>" using run True by (simp add: ps'_def)
  have d: "pg_mem ps' = pg_mem ?ps" "pg_next ps' = pg_next ?ps"
    "pg_uses ps' a = pg_uses ?ps a - count_list (cp_pages cp) a" for a
    using drop_pages_uses [of "cp_pages cp" ?ps] by (simp_all add: ps'_def release_capture_def)
  have split: "captured (jw_captures w) a = count_list (cp_pages cp) a + captured (remove1 cp (jw_captures w)) a" for a
    using sum_list_remove1 [OF True, of "\<lambda>cp. count_list (cp_pages cp) a"] by (simp add: captured_def)
  have "owns (captured (jw_captures w)) (?j, ?ps)" using assms by (simp add: world_ok_def Let_def journal_state_of_def)
  then have "owns (captured (remove1 cp (jw_captures w))) (?j, ps')"
    by (auto simp: owns_def d split)
  then have "world_ok w'"
    using assms set_remove1_subset [of cp "jw_captures w"]
    by (auto simp: w' world_ok_def Let_def journal_state_of_def contents_def d)
  then show ?thesis by (simp add: step_ok_def w' desired_of_def js_bytes_def journal_state_of_def contents_def d)
qed


section \<open>Runs\<close>

definition world_inv :: "journal_world \<Rightarrow> bool" where
  "world_inv w \<longleftrightarrow> world_ok w \<and> base_ok (jw_journal w)"

text \<open>What every operation does to the sequence, the base and the writes.\<close>

definition journal_steps :: "journal_op \<Rightarrow> journal \<Rightarrow> journal \<Rightarrow> bool" where
  "journal_steps op j j' \<longleftrightarrow>
     jn_elementStride j' = jn_elementStride j \<and>
     (case op of Initialize _ _ _ \<Rightarrow> True
      | _ \<Rightarrow> jn_writeSequence j \<le> jn_writeSequence j' \<and> jn_journalBaseSequence j \<le> jn_journalBaseSequence j' \<and>
          (\<forall>x \<in> set (jn_writes j). jn_journalBaseSequence j' < bw_sequence x \<longrightarrow> x \<in> set (jn_writes j')))"

lemma initialize_journal:
  "fst (initialize bytes n c (j, ps)) = (j', ps') \<Longrightarrow>
    jn_elementStride j' = jn_elementStride j \<and> (base_ok j \<longrightarrow> base_ok j')"
  by (auto simp: initialize_def rebuild_pages_def base_ok_def Let_def split: if_splits prod.splits)

lemma replace_journal:
  "fst (replace_image bytes n c (j, ps)) = (j', ps') \<Longrightarrow>
    jn_elementStride j' = jn_elementStride j \<and> jn_journalBaseSequence j' = jn_journalBaseSequence j \<and>
    jn_writeSequence j \<le> jn_writeSequence j' \<and> set (jn_writes j) \<subseteq> set (jn_writes j')"
  by (auto simp: replace_image_def rebuild_pages_def Let_def split: if_splits prod.splits)


lemma append_journal:
  assumes "world_ok w" and "append_write off bytes n (journal_state_of w) = Some (st, r)"
  shows "jn_elementStride (fst st) = jn_elementStride (jw_journal w)"
    and "jn_journalBaseSequence (fst st) = jn_journalBaseSequence (jw_journal w)"
    and "jn_writeSequence (jw_journal w) \<le> jn_writeSequence (fst st)"
    and "set (jn_writes (jw_journal w)) \<subseteq> set (jn_writes (fst st))"
    and "write_fits off bytes n (desired_of w) \<Longrightarrow>
      \<lparr>bw_sequence = jn_writeSequence (jw_journal w) + 1, bw_byteOffset = off * jn_elementStride (jw_journal w),
        bw_byteSize = length bytes\<rparr> \<in> set (jn_writes (fst st))"
proof -
  have "jn_elementStride (fst st) = jn_elementStride (jw_journal w) \<and>
    jn_journalBaseSequence (fst st) = jn_journalBaseSequence (jw_journal w) \<and>
    jn_writeSequence (jw_journal w) \<le> jn_writeSequence (fst st) \<and>
    set (jn_writes (jw_journal w)) \<subseteq> set (jn_writes (fst st)) \<and>
    (write_fits off bytes n (desired_of w) \<longrightarrow>
      \<lparr>bw_sequence = jn_writeSequence (jw_journal w) + 1, bw_byteOffset = off * jn_elementStride (jw_journal w),
        bw_byteSize = length bytes\<rparr> \<in> set (jn_writes (fst st)))"
  proof (cases "write_fits off bytes n (desired_of w)")
    case True
    then have t: "jn_elementStride (jw_journal w) \<noteq> 0" "bytes \<noteq> []" "jn_elementStride (jw_journal w) dvd length bytes"
      "off + length bytes div jn_elementStride (jw_journal w) \<le> n" "n \<le> jn_capacity (jw_journal w)"
      by (simp_all add: write_fits_def desired_of_def)
    show ?thesis by (rule append_write_eq [OF assms(1) t]) (use assms(2) in auto)
  next
    case False
    have "jn_capacity (jw_journal w) * jn_elementStride (jw_journal w) \<le> u64_max"
      using assms(1) by (simp add: world_ok_def Let_def)
    then have "st = journal_state_of w"
      using False assms(2)
      by (auto simp: write_fits_def desired_of_def append_write_def journal_state_of_def Let_def mod_eq_0_iff_dvd
          split: if_splits)
    with False show ?thesis by (simp add: journal_state_of_def)
  qed
  then show "jn_elementStride (fst st) = jn_elementStride (jw_journal w)"
    and "jn_journalBaseSequence (fst st) = jn_journalBaseSequence (jw_journal w)"
    and "jn_writeSequence (jw_journal w) \<le> jn_writeSequence (fst st)"
    and "set (jn_writes (jw_journal w)) \<subseteq> set (jn_writes (fst st))"
    and "write_fits off bytes n (desired_of w) \<Longrightarrow>
      \<lparr>bw_sequence = jn_writeSequence (jw_journal w) + 1, bw_byteOffset = off * jn_elementStride (jw_journal w),
        bw_byteSize = length bytes\<rparr> \<in> set (jn_writes (fst st))"
    by blast+
qed

lemma world_step:
  assumes "world_inv w" and "op_fits (jn_elementStride (jw_journal w)) op"
  obtains w' where "journal_op_run op w = Some w'" and "step_ok op w w'" and "world_inv w'"
    and "journal_steps op (jw_journal w) (jw_journal w')"
proof -
  have ok: "world_ok w" "base_ok (jw_journal w)" using assms(1) by (simp_all add: world_inv_def)
  have "\<exists>w'. journal_op_run op w = Some w' \<and> step_ok op w w' \<and> base_ok (jw_journal w') \<and>
    journal_steps op (jw_journal w) (jw_journal w')"
  proof (cases op)
    case (Initialize bytes n c)
    obtain j' ps' where e: "fst (initialize bytes n c (jw_journal w, jw_store w)) = (j', ps')" by (metis prod.exhaust)
    show ?thesis
      using initialize_step [OF ok(1) assms(2) [unfolded Initialize]] initialize_journal [OF e] ok(2) e
      by (simp add: Initialize journal_state_of_def put_journal_def journal_steps_def)
  next
    case (AppendWrite off bytes n)
    obtain w' where w': "journal_op_run op w = Some w'" "step_ok op w w'"
      unfolding AppendWrite by (rule append_step [OF ok])
    then obtain st r where e: "append_write off bytes n (journal_state_of w) = Some (st, r)" "jw_journal w' = fst st"
      by (auto simp: AppendWrite put_journal_def)
    note a = append_journal [OF ok(1) e(1)]
    have "base_ok (jw_journal w')" using ok(2) a(2,3) by (simp add: base_ok_def e(2))
    moreover have "journal_steps op (jw_journal w) (jw_journal w')"
      using a(1-4) by (auto simp: AppendWrite journal_steps_def e(2))
    ultimately show ?thesis using w' by blast
  next
    case (ReplaceImage bytes n c)
    obtain j' ps' where e: "fst (replace_image bytes n c (jw_journal w, jw_store w)) = (j', ps')" by (metis prod.exhaust)
    show ?thesis
      using replace_step [OF ok(1) assms(2) [unfolded ReplaceImage] ok(2)] replace_journal [OF e] ok(2) e
      by (auto simp: ReplaceImage journal_state_of_def put_journal_def journal_steps_def base_ok_def)
  next
    case (RequestCapacity c)
    show ?thesis
      using request_step [OF ok(1) assms(2) [unfolded RequestCapacity] ok(2)] ok(2)
      by (auto simp: RequestCapacity request_capacity_def journal_steps_def base_ok_def)
  next
    case Capture
    obtain st cp where e: "capture_desired (journal_state_of w) = (st, cp)" by (metis prod.exhaust)
    show ?thesis using capture_step(1,2) [OF ok(1) e] ok(2) e by (simp add: Capture put_journal_def journal_steps_def)
  next
    case (Release cp)
    obtain w' where w': "journal_op_run (Release cp) w = Some w'" by simp
    then have "jw_journal w' = jw_journal w" by (auto split: if_splits)
    then show ?thesis using release_step [OF ok(1) w'] w' ok(2) by (auto simp: Release journal_steps_def)
  next
    case (Acknowledge v f)
    show ?thesis
      using acknowledge_step [OF ok(1), of v f] ok(2)
      by (cases rule: acknowledge_cases [of v f "jw_journal w"]) (simp_all add: Acknowledge journal_steps_def base_ok_def)
  next
    case (SetBackingPool b)
    show ?thesis
      using set_pool_step [OF ok(1)] ok(2)
      by (auto simp: SetBackingPool set_backing_pool_def journal_steps_def base_ok_def)
  qed
  then show ?thesis using that by (auto simp: world_inv_def step_ok_def)
qed

lemma world_run:
  assumes "world_inv w" and "\<forall>op \<in> set ops. op_fits (jn_elementStride (jw_journal w)) op"
  shows "\<exists>w'. journal_run ops w = Some w' \<and> world_inv w' \<and> desired_of w' = fold desired_step ops (desired_of w) \<and>
    jn_elementStride (jw_journal w') = jn_elementStride (jw_journal w)"
  using assms
proof (induction ops arbitrary: w)
  case (Cons op ops)
  obtain w1 where w1: "journal_op_run op w = Some w1" "step_ok op w w1" "world_inv w1"
    "journal_steps op (jw_journal w) (jw_journal w1)"
    using world_step [OF Cons.prems(1)] Cons.prems(2) by (metis list.set_intros(1))
  have "jn_elementStride (jw_journal w1) = jn_elementStride (jw_journal w)" using w1(4) by (simp add: journal_steps_def)
  with Cons.IH [OF w1(3)] Cons.prems(2) w1(1,2) show ?case by (simp add: step_ok_def)
qed simp


lemma world_run_append:
  "journal_run (ops @ ops') w = (case journal_run ops w of None \<Rightarrow> None | Some w1 \<Rightarrow> journal_run ops' w1)"
  by (induction ops arbitrary: w) (auto split: option.split)

lemma new_world_inv: "world_inv (new_world stride)"
  by (simp add: world_inv_def new_world_ok base_ok_def) (simp add: new_world_def new_journal_def)

lemma new_world_desired: "desired_of (new_world stride) = new_desired stride"
  by (simp add: desired_of_def new_desired_def new_world_def new_journal_def js_bytes_def contents_def journal_state_of_def)

lemma new_world_stride: "jn_elementStride (jw_journal (new_world stride)) = stride"
  by (simp add: new_world_def new_journal_def)

lemma captures_kept:
  assumes "world_inv w" and "\<forall>op \<in> set ops. op_fits (jn_elementStride (jw_journal w)) op"
    and "journal_run ops w = Some w'" and "cp \<in> set (jw_captures w)" and "Release cp \<notin> set ops"
  shows "cp \<in> set (jw_captures w') \<and> world_inv w' \<and>
    map (pg_mem (jw_store w')) (cp_pages cp) = map (pg_mem (jw_store w)) (cp_pages cp)"
  using assms
proof (induction ops arbitrary: w)
  case (Cons op ops)
  obtain w1 where w1: "journal_op_run op w = Some w1" "step_ok op w w1" "world_inv w1"
    "journal_steps op (jw_journal w) (jw_journal w1)"
    using world_step [OF Cons.prems(1)] Cons.prems(2) by (metis list.set_intros(1))
  have "cp \<in> set (jw_captures w1)"
    using w1(1) Cons.prems(4,5)
    by (cases op) (auto simp: put_journal_def split: if_splits prod.splits)
  moreover have "jn_elementStride (jw_journal w1) = jn_elementStride (jw_journal w)" using w1(4) by (simp add: journal_steps_def)
  moreover have "map (pg_mem (jw_store w1)) (cp_pages cp) = map (pg_mem (jw_store w)) (cp_pages cp)"
    using w1(2) Cons.prems(4) by (simp add: step_ok_def)
  ultimately show ?case using Cons.IH [OF w1(3)] Cons.prems w1(1) by simp
qed simp

section \<open>Catching up from the writes\<close>

text \<open>
  A write leaves no gap for a holder of \<open>len\<close> bytes when it starts inside the rows and brings
  every row it adds, or when the image is already at least as long.
\<close>

fun no_gap :: "nat \<Rightarrow> journal_op \<Rightarrow> desired_image \<Rightarrow> bool" where
  "no_gap len (AppendWrite off bytes n) d \<longleftrightarrow>
     off \<le> ds_count d \<and> n \<le> max (ds_count d) (off + length bytes div ds_stride d) \<or> len \<le> length (ds_bytes d)"
| "no_gap len (Initialize bytes n c) d \<longleftrightarrow> False"
| "no_gap len _ d \<longleftrightarrow> True"

fun no_gaps :: "nat \<Rightarrow> journal_op list \<Rightarrow> desired_image \<Rightarrow> bool" where
  "no_gaps len [] d \<longleftrightarrow> True"
| "no_gaps len (op # ops) d \<longleftrightarrow> no_gap len op d \<and> no_gaps len ops (desired_step op d)"

definition in_write :: "nat \<Rightarrow> buffer_write \<Rightarrow> bool" where
  "in_write i x \<longleftrightarrow> bw_byteOffset x \<le> i \<and> i < bw_byteOffset x + bw_byteSize x"

definition covers :: "byte list \<Rightarrow> nat \<Rightarrow> journal_world \<Rightarrow> bool" where
  "covers old q w \<longleftrightarrow>
     (\<forall>i < min (length old) (length (js_bytes w)). old ! i \<noteq> js_bytes w ! i \<longrightarrow>
        (\<exists>x \<in> set (jn_writes (jw_journal w)). q < bw_sequence x \<and> in_write i x))"

lemma covers_same:
  "covers old q w \<Longrightarrow> js_bytes w' = js_bytes w \<Longrightarrow> journal_steps op (jw_journal w) (jw_journal w') \<Longrightarrow>
    \<not> (\<exists>b n c. op = Initialize b n c) \<Longrightarrow> jn_journalBaseSequence (jw_journal w') \<le> q \<Longrightarrow> covers old q w'"
  unfolding covers_def journal_steps_def
  by (cases op) (force dest: le_less_trans [of _ q])+

lemma blit_stretched_nth:
  assumes "off + length bytes \<le> n" and "length old \<le> n" and "i < n"
  shows "blit off bytes (stretched n old) ! i =
    (if off \<le> i \<and> i < off + length bytes then bytes ! (i - off) else if i < length old then old ! i else 0)"
  using assms by (auto simp: stretched_def nth_blit nth_append)

lemma replace_write:
  assumes "image_fits bytes n c (desired_of w)" and "op_fits (jn_elementStride (jw_journal w)) (ReplaceImage bytes n c)"
    and "journal_op_run (ReplaceImage bytes n c) w = Some w'"
  shows "\<lparr>bw_sequence = jn_writeSequence (jw_journal w) + 1, bw_byteOffset = 0, bw_byteSize = length bytes\<rparr>
    \<in> set (jn_writes (jw_journal w'))"
proof -
  have "u64 (n * jn_elementStride (jw_journal w)) = n * jn_elementStride (jw_journal w)"
    using assms(1,2) by (intro fits_product [of _ c]) (simp_all add: image_fits_def)
  then show ?thesis
    using assms by (auto simp: image_fits_def desired_of_def replace_image_def journal_state_of_def Let_def put_journal_def
        split: prod.splits)
qed

lemma covers_step:
  assumes "world_inv w" and "op_fits (jn_elementStride (jw_journal w)) op" and "journal_op_run op w = Some w'"
    and "step_ok op w w'" and "journal_steps op (jw_journal w) (jw_journal w')"
    and "covers old q w" and "q \<le> jn_writeSequence (jw_journal w)" and "no_gap (length old) op (desired_of w)"
    and "jn_journalBaseSequence (jw_journal w') \<le> q"
  shows "covers old q w'"
proof -
  have d: "desired_of w' = desired_step op (desired_of w)" using assms(4) by (simp add: step_ok_def)
  have not_init: "\<not> (\<exists>b n c. op = Initialize b n c)" using assms(8) by auto
  show ?thesis
  proof (cases "js_bytes w' = js_bytes w")
    case True
    then show ?thesis using covers_same [OF assms(6) _ assms(5) not_init assms(9)] by blast
  next
    case False
    then consider (append) off bytes n where "op = AppendWrite off bytes n" "write_fits off bytes n (desired_of w)"
      | (replace) bytes n c where "op = ReplaceImage bytes n c" "image_fits bytes n c (desired_of w)"
      using d not_init by (cases op) (auto simp: desired_of_def split: if_splits)
    then show ?thesis
    proof cases
      case append
      let ?s = "jn_elementStride (jw_journal w)" and ?ec = "jn_elementCount (jw_journal w)"
      let ?x = "\<lparr>bw_sequence = jn_writeSequence (jw_journal w) + 1, bw_byteOffset = off * ?s, bw_byteSize = length bytes\<rparr>"
      have ok: "world_ok w" using assms(1) by (simp add: world_inv_def)
      obtain st r where e: "append_write off bytes n (journal_state_of w) = Some (st, r)" "jw_journal w' = fst st"
        using assms(3) by (auto simp: append(1) put_journal_def)
      have x: "?x \<in> set (jn_writes (jw_journal w'))" "set (jn_writes (jw_journal w)) \<subseteq> set (jn_writes (jw_journal w'))"
        using append_journal(4,5) [OF ok e(1)] append(2) by (simp_all add: e(2))
      have len: "length (js_bytes w) = ?ec * ?s"
        using ok paged_concat_length [of "?ec * ?s" "contents (journal_state_of w)"]
        by (auto simp: world_ok_def Let_def js_bytes_def)
      have wf: "?s \<noteq> 0" "?s dvd length bytes" "off + length bytes div ?s \<le> n"
        using append(2) by (simp_all add: write_fits_def desired_of_def)
      have new: "js_bytes w' = blit (off * ?s) bytes (stretched (max ?ec n * ?s) (js_bytes w))"
        using d append by (simp add: desired_of_def)
      have end_eq: "off * ?s + length bytes = (off + length bytes div ?s) * ?s" using wf(2) by (simp add: add_mult_distrib)
      also have "\<dots> \<le> max ?ec n * ?s" by (rule mult_le_mono1) (use wf(3) in simp)
      finally have fit: "off * ?s + length bytes \<le> max ?ec n * ?s" .
      have grow: "length (js_bytes w) \<le> max ?ec n * ?s" by (simp add: len)
      have len': "length (js_bytes w') = max ?ec n * ?s"
        unfolding new using fit grow by (simp add: blit_simps stretched_def)
      have "\<exists>x \<in> set (jn_writes (jw_journal w')). q < bw_sequence x \<and> in_write i x"
        if i: "i < length old" "i < max ?ec n * ?s" "old ! i \<noteq> js_bytes w' ! i" for i
      proof (cases "off * ?s \<le> i \<and> i < off * ?s + length bytes")
        case True
        then have "in_write i ?x" "q < bw_sequence ?x" using assms(7) by (simp_all add: in_write_def)
        with x(1) show ?thesis by blast
      next
        case False
        have at: "js_bytes w' ! i = (if i < length (js_bytes w) then js_bytes w ! i else 0)"
          unfolding new blit_stretched_nth [OF fit grow i(2)] using False by auto
        show ?thesis
        proof (cases "i < length (js_bytes w)")
          case True
          then have "\<exists>x \<in> set (jn_writes (jw_journal w)). q < bw_sequence x \<and> in_write i x"
            using assms(6) i at by (simp add: covers_def)
          then show ?thesis using x(2) by blast
        next
          case out: False
          with i(1) have "\<not> length old \<le> length (js_bytes w)" by simp
          then have dense: "off \<le> ?ec" "n \<le> max ?ec (off + length bytes div ?s)"
            using assms(8) by (simp_all add: append(1) desired_of_def)
          have "?ec * ?s \<le> i" using out len by simp
          moreover have "i < max ?ec (off + length bytes div ?s) * ?s"
            using i(2) dense(2) by (meson less_le_trans max.cobounded1 max.boundedI mult_le_mono1)
          ultimately have "i < (off + length bytes div ?s) * ?s" by (auto simp: max_def split: if_splits)
          moreover have "off * ?s \<le> i" using dense(1) \<open>?ec * ?s \<le> i\<close> by (meson le_trans mult_le_mono1)
          ultimately show ?thesis using False end_eq by simp
        qed
      qed
      then show ?thesis by (simp add: covers_def len')
    next
      case replace
      have new: "js_bytes w' = bytes" using d replace by (simp add: desired_of_def)
      let ?x = "\<lparr>bw_sequence = jn_writeSequence (jw_journal w) + 1, bw_byteOffset = 0, bw_byteSize = length bytes\<rparr>"
      have "?x \<in> set (jn_writes (jw_journal w'))"
        using replace_write [OF replace(2)] assms(2,3) replace(1) by simp
      moreover have "q < bw_sequence ?x" using assms(7) by simp
      moreover have "in_write i ?x" if "i < length bytes" for i using that by (simp add: in_write_def)
      ultimately show ?thesis unfolding covers_def new by (metis min_less_iff_conj)
    qed
  qed
qed


lemma covers_run:
  assumes "world_inv w" and "\<forall>op \<in> set ops. op_fits (jn_elementStride (jw_journal w)) op" and "journal_run ops w = Some w'"
    and "no_gaps (length old) ops (desired_of w)" and "covers old q w" and "q \<le> jn_writeSequence (jw_journal w)"
    and "jn_journalBaseSequence (jw_journal w') \<le> q"
  shows "jn_journalBaseSequence (jw_journal w) \<le> jn_journalBaseSequence (jw_journal w') \<and> covers old q w'"
  using assms
proof (induction ops arbitrary: w)
  case (Cons op ops)
  obtain w1 where w1: "journal_op_run op w = Some w1" "step_ok op w w1" "world_inv w1"
    "journal_steps op (jw_journal w) (jw_journal w1)"
    using world_step [OF Cons.prems(1)] Cons.prems(2) by (metis list.set_intros(1))
  have not_init: "\<not> (\<exists>b n c. op = Initialize b n c)" using Cons.prems(4) by auto
  have mono: "jn_journalBaseSequence (jw_journal w) \<le> jn_journalBaseSequence (jw_journal w1)"
    "jn_writeSequence (jw_journal w) \<le> jn_writeSequence (jw_journal w1)"
    "jn_elementStride (jw_journal w1) = jn_elementStride (jw_journal w)"
    using w1(4) not_init by (cases op; simp add: journal_steps_def)+
  have gap: "no_gap (length old) op (desired_of w)" "no_gaps (length old) ops (desired_of w1)"
    using Cons.prems(4) w1(2) by (simp_all add: step_ok_def)
  have run: "journal_run ops w1 = Some w'" using Cons.prems(3) w1(1) by simp
  have fits: "\<forall>op \<in> set ops. op_fits (jn_elementStride (jw_journal w1)) op" using Cons.prems(2) mono(3) by simp
  \<comment> \<open>the base only grows, so it is below the held sequence all along\<close>
  have base: "jn_journalBaseSequence (jw_journal w1) \<le> jn_journalBaseSequence (jw_journal w')"
    using run gap(2) fits w1(3)
  proof (induction ops arbitrary: w1)
    case (Cons op' ops')
    obtain w2 where w2: "journal_op_run op' w1 = Some w2" "step_ok op' w1 w2" "world_inv w2"
      "journal_steps op' (jw_journal w1) (jw_journal w2)"
      using world_step [OF Cons.prems(4)] Cons.prems(3) by (metis list.set_intros(1))
    have "jn_elementStride (jw_journal w2) = jn_elementStride (jw_journal w1)" using w2(4) by (simp add: journal_steps_def)
    then have "jn_journalBaseSequence (jw_journal w2) \<le> jn_journalBaseSequence (jw_journal w')"
      using Cons.IH [of w2] Cons.prems w2 by (simp add: step_ok_def)
    moreover have "jn_journalBaseSequence (jw_journal w1) \<le> jn_journalBaseSequence (jw_journal w2)"
      using w2(4) Cons.prems(2) by (cases op') (auto simp: journal_steps_def)
    ultimately show ?case by simp
  qed simp
  have "covers old q w1"
    by (rule covers_step [OF Cons.prems(1) _ w1(1,2,4) Cons.prems(5,6) gap(1)])
      (use Cons.prems(2,7) base in simp_all)
  then show ?case
    using Cons.IH [OF w1(3) fits run gap(2)] Cons.prems(6,7) mono by simp
qed simp

end
