(* ===== verification/JournalClaims.thy ===== *)
theory JournalClaims
  imports JournalProps
begin

text \<open>
  What the journal promises the builds of its versions: its pages refine one byte string, a
  capture is immutable, and the writes since a sequence bring what was current then up to date;
  with the two uses in which they do not.
\<close>

text \<open>
  Claim C15. The journal's shared pages refine one byte string: whatever sequence of operations
  runs on a fresh journal, with any captures taken, kept and released in between, none reaches
  undefined behaviour (a page index past the end, a copy loop that makes no progress) and a
  capture then taken materializes to exactly the bytes the specification computes: the last
  image, overwritten by each accepted write, zero where the growth was sparse; with the rows,
  the capacity and the size that belong to them. Required of the caller (\<open>op_fits\<close>): each
  capacity given to an operation, times the stride, fits 64 bits. The code does not check it,
  and \<open>wide_append_out_of_bounds\<close> is what happens without.
\<close>

theorem journal_refines_bytes:
  assumes "\<forall>op \<in> set ops. op_fits stride op"
  shows "\<exists>w st cp. journal_run ops (new_world stride) = Some w \<and>
    capture_desired (journal_state_of w) = (st, cp) \<and>
    (let d = fold desired_step ops (new_desired stride) in
      materialize (capture_image (snd st) cp) = ds_bytes d \<and> cp_elementCount cp = ds_count d \<and>
      cp_capacity cp = ds_capacity d \<and> cp_byteSize cp = ds_count d * stride \<and>
      length (ds_bytes d) = ds_count d * stride \<and> ds_count d \<le> ds_capacity d)"
proof -
  obtain w where w: "journal_run ops (new_world stride) = Some w" "world_inv w"
    "desired_of w = fold desired_step ops (new_desired stride)" "jn_elementStride (jw_journal w) = stride"
    using world_run [OF new_world_inv [of stride], of ops] assms by (auto simp: new_world_desired new_world_stride)
  then have ok: "world_ok w" by (simp add: world_inv_def)
  obtain st cp where e: "capture_desired (journal_state_of w) = (st, cp)" by (metis prod.exhaust)
  have fields: "cp_elementCount cp = jn_elementCount (jw_journal w)" "cp_capacity cp = jn_capacity (jw_journal w)"
    "cp_byteSize cp = jn_byteSize (jw_journal w)"
    using e by (auto simp: capture_desired_def journal_state_of_def)
  have d: "ds_bytes (desired_of w) = js_bytes w" "ds_count (desired_of w) = jn_elementCount (jw_journal w)"
    "ds_capacity (desired_of w) = jn_capacity (jw_journal w)" by (simp_all add: desired_of_def)
  have pg: "paged (jn_byteSize (jw_journal w)) (contents (journal_state_of w))"
    and size: "jn_byteSize (jw_journal w) = jn_elementCount (jw_journal w) * stride"
    and cap: "jn_elementCount (jw_journal w) \<le> jn_capacity (jw_journal w)"
    using ok w(4) by (auto simp: world_ok_def Let_def)
  have "length (js_bytes w) = jn_elementCount (jw_journal w) * stride"
    using paged_concat_length [OF pg] size by (simp add: js_bytes_def)
  with w(1) e capture_step(3) [OF ok e] fields size cap show ?thesis
    unfolding w(3) [symmetric] by (cases st) (auto simp: Let_def d capture_bytes_def)
qed

text \<open>
  Claim C16. Captures are immutable: while a capture is held, its image materializes to the
  bytes desired when it was taken, whatever runs on the journal afterwards (appended writes in
  the very pages it shares, replacements, re-initialization, other captures and their release).
  Each capacity an operation gives, times the stride, fits 64 bits (\<open>op_fits\<close>).
\<close>

theorem captures_immutable:
  assumes "\<forall>op \<in> set (before @ after). op_fits stride op"
    and "journal_run (before @ [Capture]) (new_world stride) = Some w"
    and "cp = hd (jw_captures w)"
    and "journal_run after w = Some w'" and "Release cp \<notin> set after"
  shows "materialize (capture_image (jw_store w') cp) = ds_bytes (fold desired_step before (new_desired stride))"
proof -
  obtain w0 where w0: "journal_run before (new_world stride) = Some w0" "world_inv w0"
    "desired_of w0 = fold desired_step before (new_desired stride)" "jn_elementStride (jw_journal w0) = stride"
    using world_run [OF new_world_inv [of stride], of before] assms(1) by (auto simp: new_world_desired new_world_stride)
  have ok: "world_ok w0" using w0(2) by (simp add: world_inv_def)
  obtain st cp0 where e: "capture_desired (journal_state_of w0) = (st, cp0)" by (metis prod.exhaust)
  have w: "w = (put_journal st w0)\<lparr>jw_captures := cp0 # jw_captures w0\<rparr>"
    using assms(2) w0(1) e by (simp add: world_run_append)
  have cp: "cp0 = cp" using assms(3) w by simp
  note cs = capture_step [OF ok e]
  have wok: "world_ok w" using cs(1) by (simp add: step_ok_def w)
  then have inv: "world_inv w" using w0(2) cs(2) by (simp add: world_inv_def w put_journal_def)
  have held: "cp \<in> set (jw_captures w)" by (simp add: w cp)
  have "jn_elementStride (jw_journal w) = stride" using cs(2) w0(4) by (simp add: w put_journal_def)
  then have k: "cp \<in> set (jw_captures w')" "world_inv w'"
    "map (pg_mem (jw_store w')) (cp_pages cp) = map (pg_mem (jw_store w)) (cp_pages cp)"
    using captures_kept [OF inv _ assms(4) held assms(5)] assms(1) by auto
  have "paged (cp_byteSize cp) (map (pg_mem (jw_store w)) (cp_pages cp))"
    using wok held by (simp add: world_ok_def Let_def)
  then have "capture_bytes (jw_store w') cp = capture_bytes (jw_store w) cp"
    using k(3) capture_bytes_eq [of cp "jw_store w"] capture_bytes_eq [of cp "jw_store w'"] by metis
  also have "\<dots> = js_bytes w0" using cs(3) by (simp add: w put_journal_def cp)
  finally show ?thesis using w0(3) by (simp add: capture_bytes_def desired_of_def flip: w0(3))
qed


lemma covered_since:
  assumes "\<forall>op \<in> set (before @ after). op_fits stride op"
    and "journal_run before (new_world stride) = Some w" and "journal_run after w = Some w'"
    and "no_gaps (length (js_bytes w)) after (fold desired_step before (new_desired stride))"
    and "jn_journalBaseSequence (jw_journal w') \<le> jn_writeSequence (jw_journal w)"
    and "i < length (js_bytes w)" and "i < length (js_bytes w')" and "js_bytes w ! i \<noteq> js_bytes w' ! i"
  shows "\<exists>x \<in> set (jn_writes (jw_journal w')).
    jn_writeSequence (jw_journal w) < bw_sequence x \<and> bw_byteOffset x \<le> i \<and> i < bw_byteOffset x + bw_byteSize x"
proof -
  have w: "world_inv w" "desired_of w = fold desired_step before (new_desired stride)" "jn_elementStride (jw_journal w) = stride"
    using world_run [OF new_world_inv [of stride], of before] assms(1,2) by (auto simp: new_world_desired new_world_stride)
  have "covers (js_bytes w) (jn_writeSequence (jw_journal w)) w" by (simp add: covers_def)
  then have "covers (js_bytes w) (jn_writeSequence (jw_journal w)) w'"
    using covers_run [OF w(1) _ assms(3)] assms(1,4,5) w(2,3) by simp
  then show ?thesis using assms(6-8) by (simp add: covers_def in_write_def)
qed

text \<open>
  Claim C17. The journal's writes bring a holder of old bytes up to date: between any moment and
  a later one every byte both images have and that differs lies in a write of the journal newer
  than the earlier moment's sequence, whatever was written, replaced, captured and acknowledged
  (trimmed) in between. Required of the operations in between (\<open>no_gaps\<close>): none initializes the
  journal again, and while the image is shorter than it was at the earlier moment, appended
  writes leave no gap between the rows. Required besides: the base at the later moment is at or
  below the earlier sequence, and each capacity given, times the stride, fits 64 bits
  (\<open>op_fits\<close>). Without the first two, \<open>writes_miss_changes\<close>.
\<close>

theorem writes_cover_changes:
  assumes "\<forall>op \<in> set (before @ after). op_fits stride op"
    and "journal_run before (new_world stride) = Some w" and "journal_run after w = Some w'"
    and "no_gaps (length (js_bytes w)) after (fold desired_step before (new_desired stride))"
    and "jn_journalBaseSequence (jw_journal w') \<le> jn_writeSequence (jw_journal w)"
    and "i < length (js_bytes w)" and "i < length (js_bytes w')" and "js_bytes w ! i \<noteq> js_bytes w' ! i"
  shows "\<exists>x \<in> set (jn_writes (jw_journal w')).
    jn_writeSequence (jw_journal w) < bw_sequence x \<and> bw_byteOffset x \<le> i \<and> i < bw_byteOffset x + bw_byteSize x"
  using assms by (rule covered_since)

definition demo_before :: "journal_op list" where
  "demo_before = [Initialize [1, 2, 3, 4] 4 8, Capture]"

definition demo_after :: "journal_op list" where
  "demo_after = [AppendWrite 1 [9] 2, RequestCapacity 16, ReplaceImage [5, 2] 2 4, AppendWrite 2 [3, 4] 4]"

definition world_view :: "journal_world option \<Rightarrow> (byte list \<times> nat \<times> nat \<times> buffer_write list) option" where
  "world_view = map_option (\<lambda>w. (js_bytes w, jn_journalBaseSequence (jw_journal w), jn_writeSequence (jw_journal w), jn_writes (jw_journal w)))"


lemma split_small: "bytes \<noteq> [] \<Longrightarrow> length bytes \<le> page_bytes \<Longrightarrow> split_pages bytes 0 = [bytes]"
  by (simp add: split_pages.simps [of bytes 0] split_pages.simps [of bytes page_bytes] piece_def min_def)

lemma page_count_small: "0 < n \<Longrightarrow> n \<le> page_bytes \<Longrightarrow> page_count n = Suc 0"
  by (simp add: page_count_Suc)

lemma grow_none: "page_count n \<le> length (jn_pages j) \<Longrightarrow> grow_pages n (j, ps) = (j, ps)"
  by (simp add: grow_pages.simps)

lemma copy_write_one:
  assumes "bytes \<noteq> []" and "jn_pages j \<noteq> []" and "own_page 0 (j, ps) = (j1, ps1)"
    and "off + length bytes \<le> length (pg_mem ps1 (jn_pages j1 ! 0))"
    and "length (pg_mem ps1 (jn_pages j1 ! 0)) \<le> page_bytes"
  shows "copy_write bytes off 0 (j, ps) =
    Some (j1, write_page (jn_pages j1 ! 0) (blit off bytes (pg_mem ps1 (jn_pages j1 ! 0))) ps1)"
proof -
  have "off < page_bytes" using assms(1,4,5) by (cases bytes) auto
  then have "off div page_bytes = 0" "off mod page_bytes = off" by simp_all
  moreover have "min (length bytes) (length (pg_mem ps1 (jn_pages j1 ! 0)) - off) = length bytes" using assms(4) by simp
  ultimately show ?thesis
    using assms(1-3)
    by (subst copy_write.simps) (simp add: Let_def piece_def, subst copy_write.simps, simp)
qed

lemmas journal_eval = new_world_def new_journal_def empty_store_def journal_state_of_def initialize_def rebuild_pages_def
  split_small page_count_small make_page_def put_journal_def u64_def capture_desired_def share_page_def js_bytes_def
  contents_def append_write_def grow_tails_def grow_tail_def grow_none own_page_def copy_write_one write_page_def
  replace_image_def request_capacity_def drop_page_def u64_max_def blit_def world_view_def page_bytes_def Let_def

lemma demo_view:
  "world_view (journal_run demo_before (new_world 1)) = Some ([1, 2, 3, 4], 0, 1, [])"
  by (simp add: demo_before_def journal_eval)

lemma demo_view2:
  "world_view (journal_run (demo_before @ demo_after) (new_world 1)) = Some ([5, 2, 3, 4], 0, 5, 
    [\<lparr>bw_sequence = 2, bw_byteOffset = 1, bw_byteSize = 1\<rparr>, \<lparr>bw_sequence = 3, bw_byteOffset = 4, bw_byteSize = 0\<rparr>,
     \<lparr>bw_sequence = 4, bw_byteOffset = 0, bw_byteSize = 2\<rparr>, \<lparr>bw_sequence = 5, bw_byteOffset = 2, bw_byteSize = 2\<rparr>])"
  by (simp add: demo_before_def demo_after_def journal_eval)


lemma demo_fits: "\<forall>op \<in> set (demo_before @ demo_after). op_fits 1 op"
  by (simp add: demo_before_def demo_after_def u64_max_def)

lemma demo_runs:
  obtains w w' where "journal_run demo_before (new_world 1) = Some w" and "journal_run demo_after w = Some w'"
    and "js_bytes w = [1, 2, 3, 4]" and "jn_writeSequence (jw_journal w) = 1"
    and "js_bytes w' = [5, 2, 3, 4]" and "jn_journalBaseSequence (jw_journal w') = 0"
  using demo_view demo_view2 by (fastforce simp: world_view_def world_run_append split: option.splits)

theorem journal_refines_bytes_witness:
  "\<exists>w st cp. journal_run (demo_before @ demo_after) (new_world 1) = Some w \<and>
    capture_desired (journal_state_of w) = (st, cp) \<and> materialize (capture_image (snd st) cp) = [5, 2, 3, 4]"
  using journal_refines_bytes [OF demo_fits]
  by (fastforce simp: demo_before_def demo_after_def new_desired_def image_fits_def write_fits_def stretched_def blit_def Let_def)

theorem captures_immutable_witness:
  "\<exists>w w'. journal_run demo_before (new_world 1) = Some w \<and> journal_run demo_after w = Some w' \<and>
    js_bytes w' = [5, 2, 3, 4] \<and> materialize (capture_image (jw_store w') (hd (jw_captures w))) = [1, 2, 3, 4]"
proof -
  obtain w w' where w: "journal_run demo_before (new_world 1) = Some w" "journal_run demo_after w = Some w'"
    "js_bytes w' = [5, 2, 3, 4]" by (rule demo_runs)
  moreover have "materialize (capture_image (jw_store w') (hd (jw_captures w))) =
      ds_bytes (fold desired_step [Initialize [1, 2, 3, 4] 4 8] (new_desired 1))"
    by (rule captures_immutable [of _ demo_after 1 w, OF _ _ refl w(2)])
      (use demo_fits w(1) in \<open>auto simp: demo_before_def demo_after_def\<close>)
  ultimately show ?thesis by (auto simp: new_desired_def image_fits_def)
qed

theorem writes_cover_changes_witness:
  "\<exists>w w'. journal_run demo_before (new_world 1) = Some w \<and> journal_run demo_after w = Some w' \<and>
    (\<exists>x \<in> set (jn_writes (jw_journal w')). 1 < bw_sequence x \<and> bw_byteOffset x \<le> 0 \<and> 0 < bw_byteOffset x + bw_byteSize x)"
proof -
  obtain w w' where w: "journal_run demo_before (new_world 1) = Some w" "journal_run demo_after w = Some w'"
    "js_bytes w = [1, 2, 3, 4]" "jn_writeSequence (jw_journal w) = 1"
    "js_bytes w' = [5, 2, 3, 4]" "jn_journalBaseSequence (jw_journal w') = 0" by (rule demo_runs)
  have "no_gaps (length (js_bytes w)) demo_after (fold desired_step demo_before (new_desired 1))"
    by (simp add: w demo_before_def demo_after_def new_desired_def image_fits_def write_fits_def stretched_def blit_def)
  from writes_cover_changes [OF demo_fits w(1,2) this, of 0] w show ?thesis by auto
qed

lemma replicate_2: "replicate 2 x = [x, x]"
  by (simp add: numeral_2_eq_2)

lemma shrunk_then_sparse:
  "\<exists>w w'. journal_run [Initialize [1, 1, 1, 1] 4 4] (new_world 1) = Some w \<and>
     journal_run [ReplaceImage [1] 1 4, AppendWrite 3 [1] 4] w = Some w' \<and>
     js_bytes w = [1, 1, 1, 1] \<and> js_bytes w' = [1, 0, 0, 1] \<and> jn_writeSequence (jw_journal w) = 1 \<and>
     jn_journalBaseSequence (jw_journal w') = 0 \<and>
     jn_writes (jw_journal w') = [\<lparr>bw_sequence = 2, bw_byteOffset = 0, bw_byteSize = 1\<rparr>,
       \<lparr>bw_sequence = 3, bw_byteOffset = 3, bw_byteSize = 1\<rparr>]"
  by (simp add: journal_eval replicate_2)

lemma initialized_twice:
  "\<exists>w w'. journal_run [Initialize [1, 1, 1, 1] 4 4] (new_world 1) = Some w \<and>
     journal_run [Initialize [2, 2, 2, 2] 4 4] w = Some w' \<and>
     js_bytes w = [1, 1, 1, 1] \<and> js_bytes w' = [2, 2, 2, 2] \<and> jn_writeSequence (jw_journal w) = 1 \<and>
     jn_writeSequence (jw_journal w') = 1 \<and> jn_journalBaseSequence (jw_journal w') = 0 \<and> jn_writes (jw_journal w') = []"
  by (simp add: journal_eval)

text \<open>
  The two uses in which they do not. After a replacement by a shorter image, a sparse
  append that brings the image back to its old size leaves zeros no write names: a holder of
  the old image of that size, catching up from the writes, keeps its old bytes there. And a
  second \<open>Initialize\<close> restarts the sequence at 1 with no write and base 0: a holder of the first
  image at sequence 1 is taken for current although every byte changed.
\<close>

theorem writes_miss_changes:
  "(\<exists>w w'. journal_run [Initialize [1, 1, 1, 1] 4 4] (new_world 1) = Some w \<and>
     journal_run [ReplaceImage [1] 1 4, AppendWrite 3 [1] 4] w = Some w' \<and>
     js_bytes w = [1, 1, 1, 1] \<and> js_bytes w' = [1, 0, 0, 1] \<and> jn_writeSequence (jw_journal w) = 1 \<and>
     jn_journalBaseSequence (jw_journal w') = 0 \<and>
     jn_writes (jw_journal w') = [\<lparr>bw_sequence = 2, bw_byteOffset = 0, bw_byteSize = 1\<rparr>,
       \<lparr>bw_sequence = 3, bw_byteOffset = 3, bw_byteSize = 1\<rparr>]) \<and>
   (\<exists>w w'. journal_run [Initialize [1, 1, 1, 1] 4 4] (new_world 1) = Some w \<and>
     journal_run [Initialize [2, 2, 2, 2] 4 4] w = Some w' \<and>
     js_bytes w = [1, 1, 1, 1] \<and> js_bytes w' = [2, 2, 2, 2] \<and> jn_writeSequence (jw_journal w) = 1 \<and>
     jn_writeSequence (jw_journal w') = 1 \<and> jn_journalBaseSequence (jw_journal w') = 0 \<and> jn_writes (jw_journal w') = [])"
  by (intro conjI shrunk_then_sparse initialized_twice)

text \<open>
  A capacity whose bytes do not fit 64 bits: eight bytes appended at row 0 for \<open>2 ^ 61\<close> rows of
  eight bytes wrap the desired size to 0, no page is made, and the copy indexes the empty page
  list (in the model, the undefined result \<open>None\<close>).
\<close>

lemma wide_append_out_of_bounds:
  assumes "length bs = 8"
  shows "journal_run [Initialize [] 0 (2 ^ 62), AppendWrite 0 bs (2 ^ 61)] (new_world 8) = None"
proof -
  have "bs \<noteq> []" using assms by auto
  then show ?thesis using assms
    by (simp add: journal_eval split_pages.simps [of "[]"] page_count_def copy_write.simps [of bs] grow_tails_def)
qed

end
