(* ===== verification/Intervals.thy ===== *)
theory Intervals
  imports Prelude
begin

text \<open>
  \<^verbatim>\<open>ByteIntervals\<close> (\<^verbatim>\<open>src/VersionedBufferBuild.cpp\<close>): disjoint byte intervals in a map keyed by their
  begin, as the list of its pairs in key order. The locale \<open>interval_set\<close> is what the
  predecessor build relies on (adding is union, the gaps are what is left), \<open>later_wins\<close> the
  build's loop over a delta, proved once over the interface: the writes it emits never touch the
  same byte and together are the delta with the later write winning. The class is shown to
  provide the interface.
\<close>

section \<open>The map of intervals\<close>

type_synonym intervals = "(nat \<times> nat) list"

fun absorb :: "intervals \<Rightarrow> nat \<Rightarrow> nat \<times> intervals" where
  "absorb [] finish = (finish, [])"
| "absorb ((b, e) # next) finish =
     (if b \<le> finish then absorb next (max finish e) else (finish, (b, e) # next))"

text \<open>\<open>upper_bound(begin)\<close> splits the map; the interval before it may be merged.\<close>

definition add_interval :: "nat \<Rightarrow> nat \<Rightarrow> intervals \<Rightarrow> intervals" where
  "add_interval begin finish m =
     (if begin \<ge> finish then m
      else
        let before = takeWhile (\<lambda>iv. fst iv \<le> begin) m; next = dropWhile (\<lambda>iv. fst iv \<le> begin) m in
        if before \<noteq> [] \<and> snd (last before) \<ge> begin
        then (case absorb next (max finish (snd (last before))) of
                (e, rest) \<Rightarrow> butlast before @ (fst (last before), e) # rest)
        else (case absorb next finish of (e, rest) \<Rightarrow> before @ (begin, e) # rest))"

fun gap_loop :: "intervals \<Rightarrow> nat \<Rightarrow> nat \<Rightarrow> (nat \<times> nat) list" where
  "gap_loop [] begin finish = (if begin < finish then [(begin, finish)] else [])"
| "gap_loop ((b, e) # next) begin finish =
     (if begin < finish then
        (if b \<ge> finish then [(begin, finish)]
         else (if b > begin then [(begin, b)] else []) @ gap_loop next (max begin e) finish)
      else [])"

text \<open>What \<open>ForEachGap\<close> emits, in order.\<close>

definition interval_gaps :: "nat \<Rightarrow> nat \<Rightarrow> intervals \<Rightarrow> (nat \<times> nat) list" where
  "interval_gaps begin finish m =
     (let before = takeWhile (\<lambda>iv. fst iv \<le> begin) m; next = dropWhile (\<lambda>iv. fst iv \<le> begin) m in
      gap_loop next (if before \<noteq> [] then max begin (snd (last before)) else begin) finish)"

section \<open>Sets of positions\<close>

definition spans :: "(nat \<times> nat) list \<Rightarrow> nat set" where
  "spans ivs = (\<Union>(b, e) \<in> set ivs. {b..<e})"

lemma spans_simps [simp]:
  "spans [] = {}" "spans ((b, e) # ivs) = {b..<e} \<union> spans ivs" "spans (xs @ ys) = spans xs \<union> spans ys"
  by (auto simp: spans_def)

lemma spans_single [simp]: "spans [x] = {fst x..<snd x}"
  by (cases x) simp

text \<open>Nonempty intervals in order, with a hole between any two.\<close>

fun apart :: "intervals \<Rightarrow> bool" where
  "apart [] \<longleftrightarrow> True"
| "apart ((b, e) # ivs) \<longleftrightarrow> b < e \<and> (\<forall>x \<in> set ivs. e < fst x) \<and> apart ivs"

lemma apart_append: "apart (xs @ ys) \<longleftrightarrow> apart xs \<and> apart ys \<and> (\<forall>x \<in> set xs. \<forall>y \<in> set ys. snd x < fst y)"
proof (induction xs)
  case (Cons x xs)
  obtain b e where "x = (b, e)" by fastforce
  with Cons show ?case by (simp add: ball_Un) blast
qed simp

lemma apart_spans: "apart ivs \<Longrightarrow> (c, d) \<in> set ivs \<Longrightarrow> c < d"
  by (induction ivs) auto

lemma absorb_props:
  assumes "apart ivs" and "absorb ivs finish = (e, rest)" and "b < finish" and "\<forall>iv \<in> set ivs. b < fst iv"
  shows "apart ((b, e) # rest) \<and> {b..<e} \<union> spans rest = {b..<finish} \<union> spans ivs \<and> finish \<le> e \<and> set rest \<subseteq> set ivs"
  using assms
proof (induction ivs finish rule: absorb.induct)
  case (2 c d ivs finish)
  show ?case
  proof (cases "c \<le> finish")
    case True
    have "apart ((b, e) # rest) \<and> {b..<e} \<union> spans rest = {b..<max finish d} \<union> spans ivs \<and> max finish d \<le> e \<and>
        set rest \<subseteq> set ivs"
      by (rule "2.IH" [OF True]) (use "2.prems" True in auto)
    moreover have "{b..<max finish d} = {b..<finish} \<union> {c..<d}" using "2.prems"(1,3,4) True by auto
    ultimately show ?thesis by auto
  next
    case False
    have "finish < fst x" if "x \<in> set ivs" for x
    proof -
      have "d < fst x" "c < d" using "2.prems"(1) that by auto
      with False show ?thesis by simp
    qed
    with False "2.prems" show ?thesis by auto
  qed
qed auto

lemma take_last: "before \<noteq> [] \<Longrightarrow> before = butlast before @ [(fst (last before), snd (last before))]"
  by simp

lemma dropWhile_apart:
  assumes "apart m"
  shows "\<forall>iv \<in> set (dropWhile (\<lambda>iv. fst iv \<le> begin) m). begin < fst iv"
  using assms
proof (induction m)
  case (Cons iv m)
  obtain b e where "iv = (b, e)" by fastforce
  with Cons show ?case by auto
qed simp

lemma takeWhile_le: "iv \<in> set (takeWhile (\<lambda>iv. fst iv \<le> begin) m) \<Longrightarrow> fst iv \<le> begin"
  by (auto dest: set_takeWhileD)

lemma add_interval_props:
  assumes m: "apart m"
  shows "apart (add_interval b f m) \<and> spans (add_interval b f m) = spans m \<union> {b..<f}"
proof (cases "b < f")
  case False
  then show ?thesis using m by (simp add: add_interval_def)
next
  case True
  define before nxt where "before = takeWhile (\<lambda>iv. fst iv \<le> b) m" and "nxt = dropWhile (\<lambda>iv. fst iv \<le> b) m"
  have m_eq: "m = before @ nxt" by (simp add: before_def nxt_def)
  have ap: "apart before" "apart nxt" "\<forall>x \<in> set before. \<forall>y \<in> set nxt. snd x < fst y"
    using m by (simp_all add: m_eq apart_append)
  have after: "\<forall>iv \<in> set nxt. b < fst iv" using dropWhile_apart [OF m, of b] by (simp add: nxt_def)
  have le: "\<forall>iv \<in> set before. fst iv \<le> b" using takeWhile_le [of _ b m] by (auto simp: before_def)
  show ?thesis
  proof (cases "before \<noteq> [] \<and> snd (last before) \<ge> b")
    case merge: True
    obtain c d where cd: "last before = (c, d)" by fastforce
    obtain init where init: "before = init @ [(c, d)]" using merge take_last [of before] cd by simp
    obtain e rest where ab: "absorb nxt (max f d) = (e, rest)" by fastforce
    have c: "c \<le> b" "c < d" "b \<le> d" using le ap(1) merge cd by (auto simp: init apart_append)
    have "c < max f d" using True c(1) by simp
    moreover have "\<forall>iv \<in> set nxt. c < fst iv" using after c(1) le_less_trans by blast
    ultimately have p: "apart ((c, e) # rest)" "{c..<e} \<union> spans rest = {c..<max f d} \<union> spans nxt" "max f d \<le> e"
        "set rest \<subseteq> set nxt"
      using absorb_props [OF ap(2) ab, of c] by simp_all
    have eq: "add_interval b f m = init @ (c, e) # rest"
      using True merge ab cd by (simp add: add_interval_def before_def [symmetric] nxt_def [symmetric] init)
    have "\<forall>x \<in> set init. \<forall>y \<in> set ((c, e) # rest). snd x < fst y"
      using ap(1,3) p(4) by (fastforce simp: init apart_append)
    then have "apart (add_interval b f m)" using ap(1) p(1) by (simp add: eq init apart_append)
    moreover have "{c..<max f d} = {c..<d} \<union> {b..<f}" using c True by auto
    moreover have "spans (add_interval b f m) = spans init \<union> ({c..<e} \<union> spans rest)" by (simp add: eq)
    moreover have "spans m = spans init \<union> {c..<d} \<union> spans nxt" by (simp add: m_eq init Un_assoc)
    ultimately show ?thesis using p(2) by auto
  next
    case apart: False
    obtain e rest where ab: "absorb nxt f = (e, rest)" by fastforce
    have p: "apart ((b, e) # rest)" "{b..<e} \<union> spans rest = {b..<f} \<union> spans nxt" "set rest \<subseteq> set nxt"
      using absorb_props [OF ap(2) ab True after] by auto
    have eq: "add_interval b f m = before @ (b, e) # rest"
      using True apart ab unfolding add_interval_def before_def [symmetric] nxt_def [symmetric] by auto
    have "snd x < b" if "x \<in> set before" for x
    proof (cases "x = last before")
      case True
      with that apart show ?thesis by auto
    next
      case False
      have ne: "before \<noteq> []" using that by auto
      have bl: "before = butlast before @ [last before]" using ne by simp
      have "x \<in> set (butlast before)" using that False bl by (metis UnE empty_iff insert_iff list.set(1,2) set_append)
      then have "snd x < fst (last before)" using ap(1) bl by (metis apart_append list.set_intros(1))
      moreover have "fst (last before) \<le> b" using le ne by simp
      ultimately show ?thesis by simp
    qed
    then have "\<forall>x \<in> set before. \<forall>y \<in> set ((b, e) # rest). snd x < fst y" using ap(3) p(3) by fastforce
    then have "apart (before @ (b, e) # rest)" using ap(1) p(1) by (simp add: apart_append)
    moreover have "spans (before @ (b, e) # rest) = spans m \<union> {b..<f}" using p(2) by (simp add: m_eq) blast
    ultimately show ?thesis by (simp add: eq)
  qed
qed

text \<open>Emitted parts: in order, nonempty, none reaching into the nxt.\<close>

fun ascending :: "(nat \<times> nat) list \<Rightarrow> bool" where
  "ascending [] \<longleftrightarrow> True"
| "ascending ((b, e) # ivs) \<longleftrightarrow> b < e \<and> (\<forall>x \<in> set ivs. e \<le> fst x) \<and> ascending ivs"

lemma gap_loop_props:
  assumes "apart ivs"
  shows "ascending (gap_loop ivs start finish) \<and> spans (gap_loop ivs start finish) = {start..<finish} - spans ivs \<and>
    (\<forall>(c, d) \<in> set (gap_loop ivs start finish). start \<le> c \<and> d \<le> finish)"
  using assms
proof (induction ivs start finish rule: gap_loop.induct)
  case (2 b e ivs start finish)
  show ?case
  proof (cases "start < finish \<and> b < finish")
    case True
    have IH: "ascending (gap_loop ivs (max start e) finish)"
      "spans (gap_loop ivs (max start e) finish) = {max start e..<finish} - spans ivs"
      "\<forall>(c, d) \<in> set (gap_loop ivs (max start e) finish). max start e \<le> c \<and> d \<le> finish"
      using "2.IH" True "2.prems" by simp_all
    have out: "i \<notin> spans ivs" if "i < e" for i
      using that "2.prems"(1) by (fastforce simp: spans_def)
    have "b < e" using "2.prems"(1) by simp
    have asc: "\<forall>x \<in> set (gap_loop ivs (max start e) finish). b \<le> fst x"
      using IH(3) \<open>b < e\<close> by fastforce
    then have "ascending (gap_loop ((b, e) # ivs) start finish)"
      using IH(1) True by simp
    moreover have "spans (gap_loop ((b, e) # ivs) start finish) = {start..<finish} - spans ((b, e) # ivs)"
    proof -
      have "spans (gap_loop ((b, e) # ivs) start finish) = {start..<b} \<union> ({max start e..<finish} - spans ivs)"
        using IH(2) True by simp
      also have "\<dots> = {start..<finish} - ({b..<e} \<union> spans ivs)"
      proof (rule set_eqI)
        fix i show "i \<in> {start..<b} \<union> ({max start e..<finish} - spans ivs) \<longleftrightarrow>
            i \<in> {start..<finish} - ({b..<e} \<union> spans ivs)"
          using out [of i] True \<open>b < e\<close> by (cases "i < b"; cases "i < e") auto
      qed
      finally show ?thesis by simp
    qed
    moreover have "start \<le> c \<and> d \<le> finish" if "(c, d) \<in> set (gap_loop ivs (max start e) finish)" for c d
    proof -
      from bspec [OF IH(3) that] show ?thesis by simp
    qed
    then have "\<forall>(c, d) \<in> set (gap_loop ((b, e) # ivs) start finish). start \<le> c \<and> d \<le> finish"
      using True by (auto split: if_splits)
    ultimately show ?thesis by blast
  next
    case False
    show ?thesis
    proof (cases "start < finish")
      case True
      with False have fb: "finish \<le> b" by simp
      have "i \<notin> spans ((b, e) # ivs)" if "i < finish" for i
        using that fb "2.prems"(1) by (fastforce simp: spans_def)
      then have "{start..<finish} - spans ((b, e) # ivs) = {start..<finish}" by auto
      with True fb show ?thesis by simp
    qed simp
  qed
qed auto

lemma interval_gaps_props:
  assumes m: "apart m"
  shows "ascending (interval_gaps b f m) \<and> spans (interval_gaps b f m) = {b..<f} - spans m \<and>
    (\<forall>(c, d) \<in> set (interval_gaps b f m). b \<le> c \<and> d \<le> f)"
proof -
  define before nxt where "before = takeWhile (\<lambda>iv. fst iv \<le> b) m" and "nxt = dropWhile (\<lambda>iv. fst iv \<le> b) m"
  define b' where "b' = (if before \<noteq> [] then max b (snd (last before)) else b)"
  have m_eq: "m = before @ nxt" by (simp add: before_def nxt_def)
  have ap: "apart before" "apart nxt" using m by (simp_all add: m_eq apart_append)
  have le: "\<forall>iv \<in> set before. fst iv \<le> b" using takeWhile_le [of _ b m] by (auto simp: before_def)
  have after: "\<forall>iv \<in> set nxt. b < fst iv" using dropWhile_apart [OF m, of b] by (simp add: nxt_def)
  have g: "ascending (gap_loop nxt b' f)" "spans (gap_loop nxt b' f) = {b'..<f} - spans nxt"
    "\<forall>(c, d) \<in> set (gap_loop nxt b' f). b' \<le> c \<and> d \<le> f"
    using gap_loop_props [OF ap(2)] by blast+
  have below: "{b..<f} - spans before = {b'..<f}"
  proof (cases "before = []")
    case True
    then show ?thesis by (simp add: b'_def)
  next
    case False
    have bl: "before = butlast before @ [(fst (last before), snd (last before))]" using False by simp
    have "snd x < b" if "x \<in> set (butlast before)" for x
    proof -
      have "snd x < fst (last before)" using ap(1) that bl by (metis apart_append fst_conv list.set_intros(1))
      moreover have "fst (last before) \<le> b" using le False by simp
      ultimately show ?thesis by simp
    qed
    then have "spans (butlast before) \<inter> {b..<f} = {}" by (fastforce simp: spans_def)
    moreover have "spans before = spans (butlast before) \<union> {fst (last before)..<snd (last before)}"
      using bl spans_simps(3) [of "butlast before" "[last before]"] by simp
    moreover have "fst (last before) \<le> b" using le False by simp
    ultimately show ?thesis using False by (auto simp: b'_def)
  qed
  have "interval_gaps b f m = gap_loop nxt b' f"
    by (simp add: interval_gaps_def before_def nxt_def b'_def)
  moreover have "b \<le> b'" by (simp add: b'_def)
  ultimately show ?thesis using g below by (fastforce simp: m_eq)
qed


section \<open>Writes to a memory\<close>

text \<open>
  A write is an offset with its bytes. \<open>written ws i\<close> is the byte the first of the writes that
  covers \<open>i\<close> puts there; a memory the writes run over in order ends with the last one's.
\<close>

type_synonym 'a patch = "nat \<times> 'a list"

definition touches :: "nat \<Rightarrow> 'a patch \<Rightarrow> bool" where
  "touches i w \<longleftrightarrow> fst w \<le> i \<and> i < fst w + length (snd w)"

fun written :: "'a patch list \<Rightarrow> nat \<Rightarrow> 'a option" where
  "written [] i = None"
| "written (w # ws) i = (if touches i w then Some (snd w ! (i - fst w)) else written ws i)"

definition run_writes :: "'a patch list \<Rightarrow> 'a list \<Rightarrow> 'a list" where
  "run_writes ws m = fold (\<lambda>w. blit (fst w) (snd w)) ws m"

definition writes_inside :: "nat \<Rightarrow> 'a patch list \<Rightarrow> bool" where
  "writes_inside n ws \<longleftrightarrow> (\<forall>w \<in> set ws. fst w + length (snd w) \<le> n)"

lemma written_append: "written (xs @ ys) i = (case written xs i of None \<Rightarrow> written ys i | Some v \<Rightarrow> Some v)"
  by (induction xs) auto

lemma written_None_iff: "written ws i = None \<longleftrightarrow> (\<forall>w \<in> set ws. \<not> touches i w)"
  by (induction ws) auto

lemma length_run_writes [simp]: "writes_inside (length m) ws \<Longrightarrow> length (run_writes ws m) = length m"
  unfolding run_writes_def by (induction ws arbitrary: m) (simp_all add: writes_inside_def blit_simps)

lemma nth_run_writes:
  "writes_inside (length m) ws \<Longrightarrow> i < length m \<Longrightarrow>
    run_writes ws m ! i = (case written (rev ws) i of None \<Rightarrow> m ! i | Some v \<Rightarrow> v)"
proof (induction ws arbitrary: m)
  case (Cons w ws)
  have w: "fst w + length (snd w) \<le> length m" using Cons.prems(1) by (simp add: writes_inside_def)
  have rest: "writes_inside (length (blit (fst w) (snd w) m)) ws"
    using Cons.prems(1) w by (simp add: writes_inside_def blit_simps)
  have "run_writes (w # ws) m = run_writes ws (blit (fst w) (snd w) m)" by (simp add: run_writes_def)
  with Cons.IH [OF rest] Cons.prems(2) w show ?case
    by (auto simp: blit_simps written_append touches_def split: option.splits)
qed (simp add: run_writes_def)

text \<open>Writes that share no byte: their order does not matter.\<close>

definition disjoint_writes :: "'a patch list \<Rightarrow> bool" where
  "disjoint_writes ws \<longleftrightarrow> (\<forall>i. length (filter (touches i) ws) \<le> 1)"

lemma written_filter: "written ws i = map_option (\<lambda>w. snd w ! (i - fst w)) (List.find (touches i) ws)"
  by (induction ws) auto

lemma find_filter: "List.find P xs = (case filter P xs of [] \<Rightarrow> None | x # _ \<Rightarrow> Some x)"
  by (induction xs) auto

lemma mset_short: "mset xs = mset ys \<Longrightarrow> length ys \<le> 1 \<Longrightarrow> xs = ys"
  by (cases ys) auto

lemma written_perm:
  assumes "disjoint_writes ws" and "mset ws' = mset ws"
  shows "written ws' i = written ws i"
proof -
  have "filter (touches i) ws' = filter (touches i) ws"
    by (rule mset_short) (use assms in \<open>simp_all add: disjoint_writes_def mset_filter\<close>)
  then show ?thesis by (simp add: written_filter find_filter)
qed

lemma run_writes_perm:
  assumes "disjoint_writes ws" and "mset ws' = mset ws" and "writes_inside (length m) ws"
  shows "run_writes ws' m = run_writes ws m"
proof -
  have inside': "writes_inside (length m) ws'"
    using assms(2,3) by (metis mset_eq_setD writes_inside_def)
  have "written (rev ws') i = written (rev ws) i" for i
  proof -
    have "written (rev ws') i = written ws i" by (rule written_perm [OF assms(1)]) (simp add: assms(2))
    moreover have "written (rev ws) i = written ws i" by (rule written_perm [OF assms(1)]) simp
    ultimately show ?thesis by simp
  qed
  with assms(3) inside' show ?thesis by (intro nth_equalityI) (simp_all add: nth_run_writes)
qed

section \<open>What the predecessor build needs of an interval set\<close>

locale interval_set =
  fixes no_bytes :: 's
    and add_bytes :: "nat \<Rightarrow> nat \<Rightarrow> 's \<Rightarrow> 's"
    and gaps_of :: "nat \<Rightarrow> nat \<Rightarrow> 's \<Rightarrow> (nat \<times> nat) list"
    and well_formed :: "'s \<Rightarrow> bool"
    and bytes_of :: "'s \<Rightarrow> nat set"
  assumes none: "well_formed no_bytes" "bytes_of no_bytes = {}"
    and add: "well_formed s \<Longrightarrow> well_formed (add_bytes b e s)"
      "well_formed s \<Longrightarrow> bytes_of (add_bytes b e s) = bytes_of s \<union> {b..<e}"
    and gaps: "well_formed s \<Longrightarrow> ascending (gaps_of b e s)"
      "well_formed s \<Longrightarrow> spans (gaps_of b e s) = {b..<e} - bytes_of s"

interpretation ByteIntervals: interval_set "[]" add_interval interval_gaps apart spans
  by unfold_locales (simp_all add: add_interval_props interval_gaps_props)

text \<open>The pieces a write is cut into.\<close>

definition cut_piece :: "'a patch \<Rightarrow> nat \<times> nat \<Rightarrow> 'a patch" where
  "cut_piece w iv = (fst iv, piece (fst iv - fst w) (snd iv - fst iv) (snd w))"

text \<open>
  The loop over a delta, from the last write to the first: what no later write covers of each
  is emitted, in pieces, and added to the set.
\<close>

fun later_wins ::
  "(nat \<Rightarrow> nat \<Rightarrow> 's \<Rightarrow> 's) \<Rightarrow> (nat \<Rightarrow> nat \<Rightarrow> 's \<Rightarrow> (nat \<times> nat) list) \<Rightarrow>
   'a patch list \<Rightarrow> 's \<Rightarrow> 'a patch list \<times> 's" where
  "later_wins add_bytes gaps_of [] s = ([], s)"
| "later_wins add_bytes gaps_of (w # ws) s =
     (let emitted = map (cut_piece w)
            (gaps_of (fst w) (fst w + length (snd w)) s)
      in case later_wins add_bytes gaps_of ws (add_bytes (fst w) (fst w + length (snd w)) s) of
           (rest, s') \<Rightarrow> (emitted @ rest, s'))"


lemma touches_cut:
  "fst w \<le> b \<Longrightarrow> e \<le> fst w + length (snd w) \<Longrightarrow> touches i (cut_piece w (b, e)) \<longleftrightarrow> b \<le> i \<and> i < e"
  by (auto simp: touches_def cut_piece_def)

lemma ascending_above: "ascending ((b, e) # gs) \<Longrightarrow> i < e \<Longrightarrow> i \<notin> spans gs"
  by (fastforce simp: spans_def)

lemma cut_pieces:
  assumes "ascending gs" and "\<forall>iv \<in> set gs. fst w \<le> fst iv \<and> snd iv \<le> fst w + length (snd w)"
  shows "written (map (cut_piece w) gs) i = (if i \<in> spans gs then Some (snd w ! (i - fst w)) else None) \<and>
    length (filter (touches i) (map (cut_piece w) gs)) = (if i \<in> spans gs then 1 else 0)"
  using assms
proof (induction gs)
  case (Cons iv gs)
  obtain b e where iv: "iv = (b, e)" by fastforce
  have t: "touches i (cut_piece w (b, e)) \<longleftrightarrow> b \<le> i \<and> i < e"
    by (rule touches_cut) (use Cons.prems(2) iv in auto)
  have be: "fst w \<le> b" "e \<le> fst w + length (snd w)" using Cons.prems(2) iv by auto
  have asc: "ascending gs" using Cons.prems(1) iv by simp
  show ?case
  proof (cases "b \<le> i \<and> i < e")
    case True
    have out: "i \<notin> spans gs" by (rule ascending_above) (use Cons.prems(1) iv True in auto)
    have "i - b < e - b" "i - fst w < length (snd w)" using True be by linarith+
    then have "snd (cut_piece w (b, e)) ! (i - b) = snd w ! (i - fst w)"
      using True be nth_piece [of "i - b" "e - b" "b - fst w" "snd w"] by (simp add: cut_piece_def)
    with True t out Cons asc show ?thesis by (simp add: iv) (simp add: cut_piece_def)
  next
    case False
    with t Cons asc show ?thesis by (auto simp: iv)
  qed
qed simp

lemma spans_inside: "ascending gs \<Longrightarrow> spans gs \<subseteq> {b..<e} \<Longrightarrow> iv \<in> set gs \<Longrightarrow> b \<le> fst iv \<and> snd iv \<le> e"
proof -
  assume a: "ascending gs" "spans gs \<subseteq> {b..<e}" "iv \<in> set gs"
  have ne: "fst iv < snd iv" using a(1,3) by (induction gs) auto
  have "{fst iv..<snd iv} \<subseteq> spans gs" using a(3) by (auto simp: spans_def)
  moreover have "fst iv \<in> {fst iv..<snd iv}" "snd iv - 1 \<in> {fst iv..<snd iv}" using ne by auto
  ultimately have "fst iv \<in> spans gs" "snd iv - 1 \<in> spans gs" by blast+
  with a(2) ne show ?thesis by force
qed

context interval_set
begin

text \<open>
  Over any interval set: the writes emitted share no byte with each other or with what the set
  held, and each byte they put down is the one of the latest write.
\<close>

lemma later_wins_props:
  assumes "well_formed s" and "later_wins add_bytes gaps_of ws s = (ups, s')"
  shows "well_formed s' \<and> bytes_of s' = bytes_of s \<union> {i. \<exists>w \<in> set ws. touches i w} \<and>
    (\<forall>i. written ups i = (if i \<in> bytes_of s then None else written ws i)) \<and> disjoint_writes ups \<and>
    (\<forall>u \<in> set ups. snd u \<noteq> [])"
  using assms
proof (induction ws arbitrary: s ups s')
  case Nil
  then show ?case by (simp add: disjoint_writes_def)
next
  case (Cons w ws)
  define gs where "gs = gaps_of (fst w) (fst w + length (snd w)) s"
  define s1 where "s1 = add_bytes (fst w) (fst w + length (snd w)) s"
  obtain rest s2 where r: "later_wins add_bytes gaps_of ws s1 = (rest, s2)" by fastforce
  have ups: "ups = map (cut_piece w) gs @ rest" "s' = s2"
    using Cons.prems(2) r by (auto simp: gs_def s1_def cut_piece_def Let_def case_prod_unfold)
  have g: "ascending gs" "spans gs = {fst w..<fst w + length (snd w)} - bytes_of s"
    using gaps Cons.prems(1) by (simp_all add: gs_def)
  have s1: "well_formed s1" "bytes_of s1 = bytes_of s \<union> {fst w..<fst w + length (snd w)}"
    using add Cons.prems(1) by (simp_all add: s1_def)
  note IH = Cons.IH [OF s1(1) r]
  have inside: "\<forall>iv \<in> set gs. fst w \<le> fst iv \<and> snd iv \<le> fst w + length (snd w)"
    using spans_inside [OF g(1)] g(2) by blast
  have "snd (cut_piece w iv) \<noteq> []" if "iv \<in> set gs" for iv
  proof -
    have "fst iv < snd iv" using g(1) that by (induction gs) auto
    with bspec [OF inside that] have "0 < length (snd (cut_piece w iv))" by (simp add: cut_piece_def)
    then show ?thesis by simp
  qed
  then have ne: "\<forall>u \<in> set ups. snd u \<noteq> []" using IH by (auto simp: ups)
  have cut: "written (map (cut_piece w) gs) i = (if i \<in> spans gs then Some (snd w ! (i - fst w)) else None)"
    "length (filter (touches i) (map (cut_piece w) gs)) = (if i \<in> spans gs then 1 else 0)" for i
    using cut_pieces [OF g(1) inside] by blast+
  have t: "touches i w \<longleftrightarrow> i \<in> {fst w..<fst w + length (snd w)}" for i by (auto simp: touches_def)
  have wr: "written ups i = (if i \<in> bytes_of s then None else written (w # ws) i)" for i
    using IH cut(1) [of i] g(2) s1(2) by (auto simp: ups written_append t)
  have "length (filter (touches i) ups) \<le> 1" for i
  proof (cases "i \<in> spans gs")
    case True
    then have "written rest i = None" using IH g(2) s1(2) by simp
    then have "filter (touches i) rest = []" by (simp add: written_None_iff filter_empty_conv)
    with cut(2) [of i] True show ?thesis by (simp add: ups)
  next
    case False
    have "length (filter (touches i) rest) \<le> 1" using IH by (simp add: disjoint_writes_def)
    with cut(2) [of i] False show ?thesis by (simp add: ups)
  qed
  moreover have "bytes_of s' = bytes_of s \<union> {i. \<exists>w \<in> set (w # ws). touches i w}"
    using IH s1(2) t by (auto simp: ups)
  ultimately show ?case using IH wr ne by (auto simp: ups disjoint_writes_def)
qed

text \<open>What is left of a span once some bytes are taken: the gaps, as a disjoint set of pieces.\<close>

lemma gaps_of_spans:
  assumes "well_formed s"
  shows "spans (concat (map (\<lambda>(b, e). gaps_of b e s) ivs)) = spans ivs - bytes_of s"
  using gaps(2) [OF assms] by (induction ivs) (auto split: prod.splits)

end

end
