(* ===== verification/Build.thy ===== *)
theory Build
  imports Version Intervals
begin

text \<open>
  \<^verbatim>\<open>src/VersionedBufferBuild.cpp\<close>: one version of a versioned buffer. \<open>build\<close> leases a backing
  from the pool and uploads what it lacks of the image; \<open>build_from_predecessor\<close> copies from the
  predecessor's backing what the leased one lacks and uploads the delta. The upload service is
  not under src: \<open>be_serve\<close> says, for the calls it took so far and the next one, whether it
  takes it (its ticket) or not (null), and \<open>exec_calls\<close> is what the calls write once they run.
  The stop requests, the clock's reading, the races in the pool's acquire are arguments too.
  A build is one thread's run on the pool (a leased backing is written by its builder only).
  An index the code does not check is the result \<open>None\<close>.
\<close>

section \<open>Inputs and outcomes\<close>

text \<open>A call of \<open>emitDelta\<close>'s writer: its data (none: null), size and offset.\<close>

record delta_call =
  dc_data :: "byte list option"
  dc_bytes :: nat
  dc_offset :: nat

record build_input =
  bi_uploadService :: bool
  bi_debugName :: string
  bi_writeSequence :: nat
  bi_elementStride :: nat
  bi_elementCount :: nat
  bi_capacity :: nat
  bi_flags :: backing_flags
  bi_gpuWritten :: bool
  bi_tag :: "nat option"
  bi_previous :: "published_version option"
  bi_hasPool :: bool
  bi_writes :: "buffer_write list"
  bi_image :: "buffer_image option"
  bi_journalBaseSequence :: nat
  bi_bytes :: "byte list"
  bi_predecessorCopy :: bool
  bi_changedSince :: "(nat \<Rightarrow> byte_range list option) option"
  bi_emitDelta :: "delta_call list option"
  bi_growth :: "growth_policy option"
  bi_shrink :: shrink_policy

text \<open>\<open>bc_stop k\<close> is what the \<open>k\<close>-th check of \<open>stopRequested\<close> answers.\<close>

record build_context =
  bc_revision :: nat
  bc_stop :: "nat \<Rightarrow> bool"
  bc_allocateSuspension :: "u64 option"
  bc_notifySuspension :: "nat option"

datatype outcome_kind = Ready | Suspended | Failed | Cancelled

record build_outcome =
  bo_kind :: outcome_kind
  bo_version :: "published_version option"
  bo_ready :: "nat list option"
  bo_suspension :: u64
  bo_error :: string

definition blank_outcome :: build_outcome where
  "blank_outcome = \<lparr>bo_kind = Failed, bo_version = None, bo_ready = None, bo_suspension = 0, bo_error = ''''\<rparr>"

definition failed :: "string \<Rightarrow> build_outcome" where
  "failed error = blank_outcome\<lparr>bo_kind := Failed, bo_error := error\<rparr>"

definition cancelled :: build_outcome where
  "cancelled = blank_outcome\<lparr>bo_kind := Cancelled\<rparr>"

text \<open>The calls of the upload service, and what they write to the buffers' memory.\<close>

datatype gpu_call =
    UploadSegments "byte list list" nat nat nat
  | UploadRanges "byte patch list" nat
  | CopyRanges nat "(nat \<times> nat) list" nat

fun exec_call :: "gpu_call \<Rightarrow> (nat \<Rightarrow> byte list) \<Rightarrow> (nat \<Rightarrow> byte list)" where
  "exec_call (UploadSegments segments bytes dst offset) mem =
     mem(dst := blit offset (take bytes (concat segments)) (mem dst))"
| "exec_call (UploadRanges ranges dst) mem = mem(dst := run_writes ranges (mem dst))"
| "exec_call (CopyRanges src ranges dst) mem =
     mem(dst := run_writes (map (\<lambda>(b, e). (b, piece b (e - b) (mem src))) ranges) (mem dst))"

definition exec_calls :: "gpu_call list \<Rightarrow> (nat \<Rightarrow> byte list) \<Rightarrow> (nat \<Rightarrow> byte list)" where
  "exec_calls calls mem = fold exec_call calls mem"

record build_env =
  be_alloc :: "nat \<Rightarrow> backing_request \<Rightarrow> backing_allocation result"
  be_racing :: "(nat \<Rightarrow> nat) \<times> (nat \<Rightarrow> nat)"
  be_now :: int
  be_serve :: "gpu_call list \<Rightarrow> gpu_call \<Rightarrow> nat option"

section \<open>The class\<close>

text \<open>\<open>std::bit_ceil\<close> (above 2^63 the code's is undefined).\<close>

function bit_ceil_from :: "nat \<Rightarrow> nat \<Rightarrow> nat" where
  "bit_ceil_from p n = (if 0 < p \<and> p < n then bit_ceil_from (2 * p) n else p)"
  by pat_completeness auto
termination by (relation "measure (\<lambda>(p, n). n - p)") auto

declare bit_ceil_from.simps [simp del]

definition bit_ceil :: "nat \<Rightarrow> nat" where
  "bit_ceil n = bit_ceil_from 1 n"

definition replacement_capacity :: "build_input \<Rightarrow> nat" where
  "replacement_capacity inp =
     (let required = max (bi_capacity inp) 1; rounded = bit_ceil required in
      case bi_previous inp of
        None \<Rightarrow> rounded
      | Some p \<Rightarrow> max rounded (u64 (pv_capacity p + max (pv_capacity p div 2) 1)))"

record class_choice =
  cc_mode :: revision_mode
  cc_capacityClass :: nat
  cc_window :: shrink_window
  cc_shrunk :: bool

definition copy_growth :: "build_input \<Rightarrow> growth_policy option" where
  "copy_growth inp = (if bi_predecessorCopy inp then bi_growth inp else None)"

definition choose_class :: "build_input \<Rightarrow> int \<Rightarrow> class_choice result" where
  "choose_class inp now =
     (let required = max (bi_capacity inp) 1;
          window = (case bi_previous inp of None \<Rightarrow> empty_window | Some p \<Rightarrow> pv_shrinkWindow p)
      in case bi_previous inp of
           Some p \<Rightarrow>
             if pv_resource p \<noteq> None \<and> bi_capacity inp \<le> pv_capacity p then
               (let fresh = (case copy_growth inp of Some g \<Rightarrow> g | None \<Rightarrow> doubling 1);
                    patch = (\<lambda>w. \<lparr>cc_mode = Patch, cc_capacityClass = pv_capacity p, cc_window = w, cc_shrunk = False\<rparr>)
                in case observe (bi_shrink inp) fresh (pv_capacity p) required now window of
                     (w, Inl e) \<Rightarrow> Inl e
                   | (w, Inr None) \<Rightarrow> Inr (patch w)
                   | (w, Inr (Some target)) \<Rightarrow>
                       if max target required < pv_capacity p
                       then Inr \<lparr>cc_mode = Replace, cc_capacityClass = max target required, cc_window = w, cc_shrunk = True\<rparr>
                       else Inr (patch w))
             else
               (case copy_growth inp of
                  Some g \<Rightarrow>
                    (case next_capacity g (pv_capacity p) required of
                       Inl e \<Rightarrow> Inl e
                     | Inr c \<Rightarrow> Inr \<lparr>cc_mode = Replace, cc_capacityClass = c, cc_window = reset_window window, cc_shrunk = False\<rparr>)
                | None \<Rightarrow>
                    Inr \<lparr>cc_mode = Replace, cc_capacityClass = replacement_capacity inp, cc_window = reset_window window,
                      cc_shrunk = False\<rparr>)
         | None \<Rightarrow>
             (case copy_growth inp of
                Some g \<Rightarrow>
                  (case next_capacity g 0 required of
                     Inl e \<Rightarrow> Inl e
                   | Inr c \<Rightarrow> Inr \<lparr>cc_mode = Replace, cc_capacityClass = c, cc_window = reset_window window, cc_shrunk = False\<rparr>)
              | None \<Rightarrow>
                  Inr \<lparr>cc_mode = Replace, cc_capacityClass = replacement_capacity inp, cc_window = reset_window window,
                    cc_shrunk = False\<rparr>))"

section \<open>The replay\<close>

text \<open>The first loop: the writes follow each other, aligned and inside the rows.\<close>

fun validate_writes :: "build_input \<Rightarrow> nat \<Rightarrow> buffer_write list \<Rightarrow> nat \<Rightarrow> nat option" where
  "validate_writes inp required [] validated = Some validated"
| "validate_writes inp required (w # ws) validated =
     (if bw_sequence w \<le> validated \<or> bw_sequence w > bi_writeSequence inp \<or> bw_byteOffset w > required \<or>
         bw_byteSize w > required - bw_byteOffset w \<or> bw_byteOffset w mod bi_elementStride inp \<noteq> 0 \<or>
         bw_byteSize w mod bi_elementStride inp \<noteq> 0
      then None else validate_writes inp required ws (bw_sequence w))"

fun replay_deltas :: "buffer_write list \<Rightarrow> nat \<Rightarrow> nat option" where
  "replay_deltas [] closed = Some closed"
| "replay_deltas (w # ws) closed =
     (if bw_sequence w \<le> closed then replay_deltas ws closed
      else if bw_byteSize w \<noteq> 0 then None
      else replay_deltas ws (bw_sequence w))"

definition replay_versioned_buffer :: "build_input \<Rightarrow> string + byte list" where
  "replay_versioned_buffer inp =
     (let stride = bi_elementStride inp; required = bi_elementCount inp * stride;
          lowest = (case bi_previous inp of None \<Rightarrow> 0 | Some p \<Rightarrow> min (pv_writeSequence p) (bi_journalBaseSequence inp))
      in
      if stride = 0 \<or> bi_elementCount inp > bi_capacity inp \<or> bi_capacity inp > u32_max
      then Inl ''versioned buffer count/capacity/stride invalid''
      else if bi_elementCount inp > u64_max div stride
      then Inl ''versioned buffer byte count overflows address space''
      else case validate_writes inp required (bi_writes inp) lowest of
        None \<Rightarrow> Inl ''versioned buffer write journal sequence/range invalid''
      | Some validated \<Rightarrow>
          if bi_writes inp \<noteq> [] \<and> validated \<noteq> bi_writeSequence inp
          then Inl ''versioned buffer is not closed through requested write sequence''
          else case bi_image inp of
            Some im \<Rightarrow>
              if im_byteSize im \<noteq> required then Inl ''versioned buffer desired image byte count does not match rows''
              else Inr (materialize im)
          | None \<Rightarrow>
              if bi_bytes inp \<noteq> [] \<and> required \<noteq> length (bi_bytes inp)
              then Inl ''versioned buffer byte count does not match rows''
              else
                (let shadow = (if bi_bytes inp \<noteq> [] then bi_bytes inp
                       else case Option.bind (bi_previous inp) materialize_cpu_image of
                              None \<Rightarrow> replicate required 0
                            | Some previous \<Rightarrow>
                                blit 0 (take (min required (length previous)) previous) (replicate required 0));
                     closed0 = (case bi_previous inp of None \<Rightarrow> 0 | Some p \<Rightarrow> pv_writeSequence p)
                 in case replay_deltas (bi_writes inp) closed0 of
                      None \<Rightarrow> Inl ''versioned buffer deltas require an immutable paged image''
                    | Some closed \<Rightarrow>
                        if bi_bytes inp = [] \<and>
                           ((bi_writes inp \<noteq> [] \<and> closed \<noteq> bi_writeSequence inp) \<or>
                            (bi_writes inp = [] \<and> (\<exists>p \<in> set_option (bi_previous inp). bi_writeSequence inp \<noteq> pv_writeSequence p)))
                        then Inl ''versioned buffer is not closed through requested write sequence''
                        else Inr shadow))"


section \<open>What is uploaded\<close>

text \<open>Ranges sorted by offset: those at most 256 bytes apart become one.\<close>

fun merge_ranges :: "byte_range list \<Rightarrow> byte_range list \<Rightarrow> byte_range list" where
  "merge_ranges merged [] = merged"
| "merge_ranges merged (r # rs) =
     (if merged \<noteq> [] \<and> br_offset r \<le> br_offset (last merged) + br_size (last merged) + 256
      then
        let back = last merged; finish = max (br_offset back + br_size back) (br_offset r + br_size r)
        in merge_ranges (butlast merged @ [back\<lparr>br_size := finish - br_offset back\<rparr>]) rs
      else merge_ranges (merged @ [r]) rs)"

text \<open>The journal reaches back to what the backing holds.\<close>

definition journal_covers :: "build_input \<Rightarrow> buffer_image \<Rightarrow> bool \<Rightarrow> backing \<Rightarrow> bool" where
  "journal_covers inp im allocated b \<longleftrightarrow>
     (let held = unat (bk_contentEpoch b) in
      \<not> allocated \<and> bi_image inp \<noteq> None \<and> held \<noteq> 0 \<and> held \<ge> bi_journalBaseSequence inp \<and>
      held \<le> bi_writeSequence inp \<and>
      (case bk_image b of None \<Rightarrow> False | Some old \<Rightarrow> im_byteSize old = im_byteSize im))"

definition catch_up_ranges :: "build_input \<Rightarrow> nat \<Rightarrow> byte_range list" where
  "catch_up_ranges inp held =
     merge_ranges [] (sort_key br_offset
       (map (\<lambda>w. \<lparr>br_offset = bw_byteOffset w, br_size = bw_byteSize w\<rparr>)
         (filter (\<lambda>w. \<not> (bw_sequence w \<le> held \<or> bw_byteSize w = 0)) (bi_writes inp))))"

definition dirty_ranges :: "build_input \<Rightarrow> buffer_image \<Rightarrow> bool \<Rightarrow> backing \<Rightarrow> byte_range list" where
  "dirty_ranges inp im allocated b =
     (let whole = [\<lparr>br_offset = 0, br_size = im_byteSize im\<rparr>];
          ranges = (if journal_covers inp im allocated b then catch_up_ranges inp (unat (bk_contentEpoch b)) else whole)
      in if length ranges > 128 \<or> sum_list (map br_size ranges) * 2 > im_byteSize im then whole else ranges)"

text \<open>
  The segments of a range, out of the image's pages, with what the pages did not give. A start
  past the end of its page reads outside the page's memory.
\<close>

function gather_segments :: "byte list option list \<Rightarrow> nat \<Rightarrow> nat \<Rightarrow> (byte list list \<times> nat) option" where
  "gather_segments pages offset remaining =
     (if remaining = 0 then Some ([], 0)
      else
        (let pageIndex = offset div page_bytes; pageOffset = offset mod page_bytes in
         if pageIndex \<ge> length pages then Some ([], remaining)
         else case pages ! pageIndex of
           None \<Rightarrow> Some ([], remaining)
         | Some page \<Rightarrow>
             if pageOffset > length page then None
             else
               (let size = min remaining (length page - pageOffset) in
                if size = 0 then Some ([], remaining)
                else case gather_segments pages (offset + size) (remaining - size) of
                       None \<Rightarrow> None
                     | Some (segments, left) \<Rightarrow> Some (piece pageOffset size page # segments, left))))"
  by pat_completeness auto
termination by (relation "measure (\<lambda>(pages, offset, remaining). remaining)") auto

declare gather_segments.simps [simp del]

text \<open>The upload loop: the calls taken and their tickets, or why it stopped.\<close>

fun upload_ranges ::
  "build_env \<Rightarrow> byte list option list \<Rightarrow> nat \<Rightarrow> bool \<Rightarrow> byte_range list \<Rightarrow> gpu_call list \<Rightarrow> nat list \<Rightarrow>
   (gpu_call list \<times> (string + nat list)) option" where
  "upload_ranges env pages buffer retired [] calls tickets = Some (calls, Inr tickets)"
| "upload_ranges env pages buffer retired (r # rs) calls tickets =
     (case gather_segments pages (br_offset r) (br_size r) of
        None \<Rightarrow> None
      | Some (segments, remaining) \<Rightarrow>
          if remaining \<noteq> 0 then Some (calls, Inl ''versioned buffer paged image does not cover upload range'')
          else if retired then Some (calls, Inl ''versioned buffer backing was retired before its upload was queued'')
          else
            let call = UploadSegments segments (br_size r) buffer (br_offset r) in
            case be_serve env calls call of
              None \<Rightarrow> Some (calls, Inl ''versioned buffer streaming upload enqueue failed'')
            | Some ticket \<Rightarrow> upload_ranges env pages buffer retired rs (calls @ [call]) (tickets @ [ticket]))"

section \<open>The build\<close>

definition forget :: "backing \<Rightarrow> backing" where
  "forget b = b\<lparr>bk_image := None, bk_contentEpoch := 0\<rparr>"

text \<open>\<open>TokenForTickets\<close>: null without a ticket.\<close>

definition token_for_tickets :: "nat option list \<Rightarrow> nat list option" where
  "token_for_tickets tickets =
     (let present = map the (filter (\<lambda>t. t \<noteq> None) tickets) in if present = [] then None else Some present)"

text \<open>The token's answers, from what its tickets answer (each an atomic of the ticket's own).\<close>

datatype ticket_state = TicketQueued | TicketClaimed | TicketSubmitted | TicketCompleted | TicketCancelled

definition token_complete :: "(nat \<Rightarrow> ticket_state) \<Rightarrow> nat list \<Rightarrow> bool" where
  "token_complete st tickets \<longleftrightarrow> (\<forall>t \<in> set tickets. st t = TicketCompleted)"

definition token_submitted :: "(nat \<Rightarrow> ticket_state) \<Rightarrow> nat list \<Rightarrow> bool" where
  "token_submitted st tickets \<longleftrightarrow> (\<forall>t \<in> set tickets. st t = TicketSubmitted \<or> st t = TicketCompleted)"

definition token_failed :: "(nat \<Rightarrow> ticket_state) \<Rightarrow> nat list \<Rightarrow> bool" where
  "token_failed st tickets \<longleftrightarrow> (\<exists>t \<in> set tickets. st t = TicketCancelled)"

definition build_request :: "build_input \<Rightarrow> nat \<Rightarrow> backing_request" where
  "build_request inp cls =
     \<lparr>rq_capacityClass = cls, rq_stride = bi_elementStride inp, rq_flags = bi_flags inp, rq_compatibility = 0,
      rq_name = bi_debugName inp, rq_like = None\<rparr>"

fun what :: "exn \<Rightarrow> string" where
  "what (InvalidArgument s) = s"
| "what (OutOfRange s) = s"
| "what (LengthError s) = s"
| "what (LogicError s) = s"
| "what (RuntimeError s) = s"

text \<open>Exhaustion: suspended on the pool's availability, or failed when the caller cannot.\<close>

definition suspend :: "build_context \<Rightarrow> pool_state \<Rightarrow> pool_state \<times> build_outcome" where
  "suspend ctx st =
     (case bc_allocateSuspension ctx of
        None \<Rightarrow> (st, failed ''versioned buffer backing pool exhausted and the caller cannot suspend'')
      | Some identity \<Rightarrow>
          ((if bc_notifySuspension ctx \<noteq> None
            then (subscribe_availability identity (bc_notifySuspension ctx) (fst st), snd st) else st),
           blank_outcome\<lparr>bo_kind := Suspended, bo_suspension := identity,
             bo_error := ''versioned buffer backing pool exhausted''\<rparr>))"

text \<open>A return that lets the lease go.\<close>

definition let_lease_go :: "nat \<Rightarrow> build_outcome \<Rightarrow> pool_state \<Rightarrow> pool_state \<times> build_outcome" where
  "let_lease_go p out st = ((lease_reset (Some p) (fst st), snd st), out)"

definition in_backing :: "nat \<Rightarrow> (backing \<Rightarrow> backing) \<Rightarrow> pool_state \<Rightarrow> pool_state" where
  "in_backing p f st = (upd_backing p f (fst st), snd st)"

definition made_version :: "build_input \<Rightarrow> build_context \<Rightarrow> class_choice \<Rightarrow> nat \<Rightarrow> nat \<Rightarrow> backing \<Rightarrow> published_version" where
  "made_version inp ctx choice p buffer b =
     blank_version\<lparr>pv_revision := bc_revision ctx, pv_writeSequence := bi_writeSequence inp,
       pv_elementCount := bi_elementCount inp, pv_capacity := bk_capacityClass b,
       pv_elementStride := bi_elementStride inp, pv_revisionMode := cc_mode choice,
       pv_contentVersion := bc_revision ctx, pv_contentEpoch := bi_writeSequence inp,
       pv_backingEpoch := bk_generation b, pv_lease := Some p, pv_resource := Some buffer,
       pv_tag := bi_tag inp, pv_shrinkWindow := cc_window choice, pv_shrunk := cc_shrunk choice\<rparr>"

definition needs_content :: "build_input \<Rightarrow> bool" where
  "needs_content inp \<longleftrightarrow>
     \<not> bi_gpuWritten inp \<and>
     \<not> (bf_unorderedAccess (bi_flags inp) \<and> bf_indirectArguments (bi_flags inp) \<and> bi_bytes inp = [] \<and> bi_writes inp = [])"

text \<open>The image to upload: the input's, or the replayed bytes.\<close>

definition build_image :: "build_input \<Rightarrow> string + buffer_image option" where
  "build_image inp =
     (if bi_gpuWritten inp \<or> bi_image inp \<noteq> None then Inr (bi_image inp)
      else case replay_versioned_buffer inp of
             Inl error \<Rightarrow> Inl error
           | Inr bytes \<Rightarrow> Inr (Some (from_bytes bytes)))"

text \<open>Once the contents are queued: the backing holds the image, the version holds the lease.\<close>

definition publish_built ::
  "build_input \<Rightarrow> build_context \<Rightarrow> class_choice \<Rightarrow> nat \<Rightarrow> nat \<Rightarrow> buffer_image option \<Rightarrow> nat list \<Rightarrow> pool_state \<Rightarrow>
   pool_state \<times> build_outcome" where
  "publish_built inp ctx choice p buffer img tickets st =
     (let kept = (if bi_gpuWritten inp then None else img);
          st1 = in_backing p (\<lambda>b. b\<lparr>bk_image := kept, bk_contentEpoch := of_nat (bi_writeSequence inp)\<rparr>) st;
          v = (made_version inp ctx choice p buffer (pl_heap (fst st1) p))\<lparr>pv_image := kept\<rparr>
      in (st1, blank_outcome\<lparr>bo_kind := Ready, bo_version := Some v,
            bo_ready := token_for_tickets (map Some tickets)\<rparr>))"

text \<open>\<open>Build\<close> once it has a lease.\<close>

definition build_leased ::
  "build_input \<Rightarrow> build_context \<Rightarrow> build_env \<Rightarrow> class_choice \<Rightarrow> nat \<Rightarrow> acquire_info \<Rightarrow> pool_state \<Rightarrow>
   ((pool_state \<times> build_outcome) \<times> gpu_call list) option" where
  "build_leased inp ctx env choice p acquired st =
     (let b = pl_heap (fst st) p in
      if u64 (bi_elementCount inp * bi_elementStride inp) > bk_byteCapacity b
      then Some (let_lease_go p (failed ''versioned buffer backing smaller than the version's elements'') st, [])
      else case build_image inp of
        Inl error \<Rightarrow> Some (let_lease_go p (failed error) st, [])
      | Inr img \<Rightarrow>
          if bc_stop ctx 1 then Some (let_lease_go p cancelled st, [])
          else case bk_buffer b of
            None \<Rightarrow> Some (let_lease_go p (failed ''versioned buffer backing has no buffer'') st, [])
          | Some buffer \<Rightarrow>
              case (needs_content inp, img) of
                (True, Some im) \<Rightarrow>
                  if im_byteSize im = 0 then Some (publish_built inp ctx choice p buffer img [] st, [])
                  else
                    (let st1 = in_backing p forget st in
                     case upload_ranges env (im_pages im) buffer (bk_retired b)
                         (dirty_ranges inp im (ai_allocated acquired) b) [] [] of
                       None \<Rightarrow> None
                     | Some (calls, Inl error) \<Rightarrow> Some (let_lease_go p (failed error) st1, calls)
                     | Some (calls, Inr tickets) \<Rightarrow> Some (publish_built inp ctx choice p buffer img tickets st1, calls))
              | _ \<Rightarrow> Some (publish_built inp ctx choice p buffer img [] st, []))"

definition build ::
  "build_input \<Rightarrow> build_context \<Rightarrow> build_env \<Rightarrow> pool_state \<Rightarrow> ((pool_state \<times> build_outcome) \<times> gpu_call list) option" where
  "build inp ctx env st =
     (if \<not> bi_uploadService inp \<or> bi_elementStride inp = 0
      then Some ((st, failed ''versioned buffer input/upload service/stride missing''), [])
      else if \<not> bi_hasPool inp then Some ((st, failed ''versioned buffer input has no backing pool''), [])
      else if bc_stop ctx 0 then Some ((st, cancelled), [])
      else case choose_class inp (be_now env) of
        Inl e \<Rightarrow> Some ((st, failed (what e)), [])
      | Inr choice \<Rightarrow>
          case acquire (be_alloc env) (be_racing env) (build_request inp (cc_capacityClass choice))
              (of_nat (bi_writeSequence inp)) st of
            (st1, Inl e) \<Rightarrow> Some ((st1, failed (what e)), [])
          | (st1, Inr (None, acquired)) \<Rightarrow> Some (suspend ctx st1, [])
          | (st1, Inr (Some p, acquired)) \<Rightarrow> build_leased inp ctx env choice p acquired st1)"


section \<open>The predecessor build\<close>

text \<open>What the writer keeps of \<open>emitDelta\<close>'s calls, and whether all of them are in range.\<close>

definition delta_fits :: "nat \<Rightarrow> delta_call \<Rightarrow> bool" where
  "delta_fits usedBytes c \<longleftrightarrow>
     dc_bytes c = 0 \<or> (dc_data c \<noteq> None \<and> dc_offset c \<le> usedBytes \<and> dc_bytes c \<le> usedBytes - dc_offset c)"

definition delta_writes :: "nat \<Rightarrow> delta_call list \<Rightarrow> byte patch list" where
  "delta_writes usedBytes calls =
     map (\<lambda>c. (dc_offset c, take (dc_bytes c) (the (dc_data c))))
       (filter (\<lambda>c. dc_bytes c \<noteq> 0 \<and> delta_fits usedBytes c) calls)"

text \<open>The later write of a byte wins: the uploads (by offset) and the bytes they cover.\<close>

definition resolve_delta :: "byte patch list \<Rightarrow> byte patch list \<times> intervals" where
  "resolve_delta writes =
     (case later_wins add_interval interval_gaps (rev writes) [] of
        (uploads, delta) \<Rightarrow> (sort_key fst uploads, delta))"

definition clip_range :: "nat \<Rightarrow> byte_range \<Rightarrow> nat \<times> nat" where
  "clip_range limit r = (let start = min (br_offset r) limit in (start, start + min (br_size r) (limit - start)))"

text \<open>What the leased backing lacks of the predecessor, and whether that is all of it.\<close>

definition missing_bytes ::
  "build_input \<Rightarrow> published_version \<Rightarrow> nat \<Rightarrow> bool \<Rightarrow> backing \<Rightarrow> intervals \<times> bool" where
  "missing_bytes inp previous copyLimit allocated b =
     (let held = unat (bk_contentEpoch b);
          stale = allocated \<or> held = 0 \<or> held > pv_writeSequence previous \<or> bk_capacityClass b \<noteq> pv_capacity previous;
          changed = (if stale \<or> held = pv_writeSequence previous then Some []
                     else case bi_changedSince inp of None \<Rightarrow> None | Some f \<Rightarrow> f held);
          whole = (stale \<or> changed = None);
          missing = fold (\<lambda>r m. case clip_range copyLimit r of (s, e) \<Rightarrow> add_interval s e m)
            (case changed of None \<Rightarrow> [] | Some rs \<Rightarrow> rs) []
      in (if whole then add_interval 0 copyLimit missing else missing, whole))"

definition copies_of :: "intervals \<Rightarrow> intervals \<Rightarrow> (nat \<times> nat) list" where
  "copies_of missing delta = concat (map (\<lambda>(s, e). interval_gaps s e delta) missing)"

text \<open>
  The copy first, then the delta: what is queued, or why not. A copy queued before a refused
  upload is cancelled by the code, which may come too late: it stays among the calls.
\<close>

definition queue_batch ::
  "build_env \<Rightarrow> nat option \<Rightarrow> nat \<Rightarrow> (nat \<times> nat) list \<Rightarrow> byte patch list \<Rightarrow> gpu_call list \<times> (string + nat list)" where
  "queue_batch env source buffer copies uploads =
     (let copied = (case (copies, source) of
            (_ # _, Some src) \<Rightarrow>
              (let call = CopyRanges src copies buffer in
               case be_serve env [] call of
                 None \<Rightarrow> ([], Inl ''versioned buffer predecessor copy enqueue failed (the upload service cannot copy)'')
               | Some ticket \<Rightarrow> ([call], Inr [ticket]))
          | _ \<Rightarrow> ([], Inr []))
      in case copied of
           (calls, Inl error) \<Rightarrow> (calls, Inl error)
         | (calls, Inr tickets) \<Rightarrow>
             if uploads = [] then (calls, Inr tickets)
             else
               (let call = UploadRanges uploads buffer in
                case be_serve env calls call of
                  None \<Rightarrow> (calls, Inl ''versioned buffer streaming upload enqueue failed'')
                | Some ticket \<Rightarrow> (calls @ [call], Inr (tickets @ [ticket]))))"

text \<open>\<open>BuildFromPredecessor\<close> once it has a lease.\<close>

definition copy_leased ::
  "build_input \<Rightarrow> build_context \<Rightarrow> build_env \<Rightarrow> class_choice \<Rightarrow> delta_call list \<Rightarrow> nat \<Rightarrow> acquire_info \<Rightarrow> pool_state \<Rightarrow>
   (pool_state \<times> build_outcome) \<times> gpu_call list" where
  "copy_leased inp ctx env choice emitted p acquired st =
     (let b = pl_heap (fst st) p; usedBytes = bi_elementCount inp * bi_elementStride inp; previous = bi_previous inp;
          drop = (\<lambda>out st. (let_lease_go p out st, []))
      in
      if ai_writeAfter acquired \<noteq> 0
      then drop (failed ''versioned buffer predecessor copy needs a pool without reuseBound'') st
      else case bk_buffer b of
        None \<Rightarrow> drop (failed ''versioned buffer backing has no buffer'') st
      | Some buffer \<Rightarrow>
          if \<exists>v \<in> set_option previous. pv_resource v = Some buffer
          then drop (failed ''versioned buffer predecessor copy leased its predecessor's backing'') st
          else if usedBytes > bk_byteCapacity b
          then drop (failed ''versioned buffer backing smaller than the version's used bytes'') st
          else if \<not> list_all (delta_fits usedBytes) emitted
          then drop (failed ''versioned buffer delta write outside the version's bytes'') st
          else if bc_stop ctx 1 then drop cancelled st
          else
            (let writes = delta_writes usedBytes emitted; uploads = fst (resolve_delta writes);
                 delta = snd (resolve_delta writes);
                 copyLimit = (case previous of None \<Rightarrow> 0
                   | Some v \<Rightarrow> min (u64 (pv_elementCount v * pv_elementStride v)) usedBytes);
                 missing = (case previous of None \<Rightarrow> ([], False)
                   | Some v \<Rightarrow> missing_bytes inp v copyLimit (ai_allocated acquired) b);
                 copies = copies_of (fst missing) delta
             in
             if previous = None \<and> usedBytes \<noteq> 0 \<and> delta \<noteq> [(0, usedBytes)]
             then drop (failed ''versioned buffer delta without a predecessor does not cover the version'') st
             else if bc_stop ctx 2 then drop cancelled st
             else
               (let st1 = in_backing p forget st in
                if bk_retired b
                then drop (failed ''versioned buffer backing was retired before its upload was queued'') st1
                else case queue_batch env (Option.bind previous pv_resource) buffer copies uploads of
                  (calls, Inl error) \<Rightarrow> (let_lease_go p (failed error) st1, calls)
                | (calls, Inr tickets) \<Rightarrow>
                    (let st2 = in_backing p (\<lambda>b. b\<lparr>bk_contentEpoch := of_nat (bi_writeSequence inp)\<rparr>) st1;
                         v = (made_version inp ctx choice p buffer (pl_heap (fst st2) p))
                           \<lparr>pv_uploadedBytes := sum_list (map (length \<circ> snd) uploads),
                            pv_copiedBytes := sum_list (map (\<lambda>(s, e). e - s) copies),
                            pv_copiedWhole := snd missing \<and> copyLimit \<noteq> 0\<rparr>
                     in ((st2, blank_outcome\<lparr>bo_kind := Ready, bo_version := Some v,
                           bo_ready := token_for_tickets (map Some tickets)\<rparr>), calls)))))"

definition build_from_predecessor ::
  "build_input \<Rightarrow> build_context \<Rightarrow> build_env \<Rightarrow> pool_state \<Rightarrow> (pool_state \<times> build_outcome) \<times> gpu_call list" where
  "build_from_predecessor inp ctx env st =
     (if \<not> bi_uploadService inp \<or> bi_elementStride inp = 0
      then ((st, failed ''versioned buffer input/upload service/stride missing''), [])
      else if \<not> bi_hasPool inp then ((st, failed ''versioned buffer input has no backing pool''), [])
      else case bi_emitDelta inp of
        None \<Rightarrow> ((st, failed ''versioned buffer predecessor copy has no emitDelta''), [])
      | Some emitted \<Rightarrow>
          if bi_gpuWritten inp then ((st, failed ''versioned buffer predecessor copy cannot be GPU-written''), [])
          else if bi_elementCount inp > bi_capacity inp \<or> bi_elementCount inp > u64_max div bi_elementStride inp
          then ((st, failed ''versioned buffer count/capacity/stride invalid''), [])
          else if \<exists>v \<in> set_option (bi_previous inp). pv_resource v = None \<or> pv_elementStride v \<noteq> bi_elementStride inp
          then ((st, failed ''versioned buffer predecessor copy needs a predecessor with a buffer and the same stride''), [])
          else if bc_stop ctx 0 then ((st, cancelled), [])
          else case choose_class inp (be_now env) of
            Inl e \<Rightarrow> ((st, failed (what e)), [])
          | Inr choice \<Rightarrow>
              case acquire (be_alloc env) (be_racing env) (build_request inp (cc_capacityClass choice))
                  (of_nat (case bi_previous inp of None \<Rightarrow> bi_writeSequence inp | Some v \<Rightarrow> pv_writeSequence v)) st of
                (st1, Inl e) \<Rightarrow> ((st1, failed (what e)), [])
              | (st1, Inr (None, acquired)) \<Rightarrow> (suspend ctx st1, [])
              | (st1, Inr (Some p, acquired)) \<Rightarrow> copy_leased inp ctx env choice emitted p acquired st1)"

definition build_versioned_buffer ::
  "build_input \<Rightarrow> build_context \<Rightarrow> build_env \<Rightarrow> pool_state \<Rightarrow> ((pool_state \<times> build_outcome) \<times> gpu_call list) option" where
  "build_versioned_buffer inp ctx env st =
     (if bi_predecessorCopy inp then Some (build_from_predecessor inp ctx env st) else build inp ctx env st)"

end
