(* ===== verification/BuildProps.thy ===== *)
theory BuildProps
  imports Build JournalOps PoolProps
begin

text \<open>
  What a build leaves in the backing: after its uploads ran, the backing's memory is the image
  (\<open>build\<close>) or the predecessor's contents under the delta (\<open>build_from_predecessor\<close>), in whatever
  order the calls run; a build that does not return a version leaves no backing that claims
  contents it does not hold.
\<close>

section \<open>Segments and ranges\<close>

lemma within_page: "off mod k + i < k \<Longrightarrow> (off + i) div k = off div k \<and> (off + i) mod k = off mod k + (i :: nat)"
proof -
  assume a: "off mod k + i < k"
  then have "i mod k = i" "i div k = 0" by simp_all
  with a show ?thesis by (simp add: div_add1_eq [of off i k]) (metis mod_add_left_eq mod_less)
qed

lemma gather_paged:
  assumes "paged n pages" and "gather_segments (map Some pages) off rem = Some (segs, left)"
  shows "left \<le> rem \<and> concat segs = piece off (rem - left) (concat pages) \<and> (left < rem \<longrightarrow> off + (rem - left) \<le> n)"
  using assms(2)
proof (induction rem arbitrary: off segs left rule: less_induct)
  case (less rem)
  let ?k = "off div page_bytes" and ?r = "off mod page_bytes"
  let ?page = "pages ! ?k"
  show ?case
  proof (cases "rem = 0 \<or> ?k \<ge> length pages \<or> ?r = length ?page")
    case True
    then have "segs = [] \<and> left = rem"
      using less(2) by (subst (asm) gather_segments.simps) (auto simp: Let_def split: if_splits)
    then show ?thesis by (simp add: piece_def)
  next
    case False
    define size where "size = min rem (length ?page - ?r)"
    from False less(2) have k: "?k < length pages" and r: "?r < length ?page"
      by (subst (asm) gather_segments.simps, auto simp: Let_def split: if_splits)+
    have pos: "0 < size" using False r by (simp add: size_def)
    have unf: "gather_segments (map Some pages) off rem =
        (case gather_segments (map Some pages) (off + size) (rem - size) of
           None \<Rightarrow> None | Some (s, l) \<Rightarrow> Some (piece ?r size ?page # s, l))"
      using False k r pos by (subst gather_segments.simps) (simp add: Let_def size_def [symmetric])
    obtain segs' where segs': "gather_segments (map Some pages) (off + size) (rem - size) = Some (segs', left)"
      "segs = piece ?r size ?page # segs'"
      using less(2) unfolding unf by (auto split: option.splits)
    have sr: "size \<le> rem" by (simp add: size_def)
    have IH: "left \<le> rem - size" "concat segs' = piece (off + size) (rem - size - left) (concat pages)"
      "left < rem - size \<longrightarrow> off + size + (rem - size - left) \<le> n"
      using less(1) [OF _ segs'(1)] pos False by auto
    have plen: "length ?page = min page_bytes (n - ?k * page_bytes)" using assms(1) k by (simp add: paged_def)
    have "?k * page_bytes < n" using assms(1) k by (simp add: paged_def page_count_bound)
    with plen have "?k * page_bytes + length ?page \<le> n" by linarith
    moreover have "size \<le> length ?page - ?r" by (simp add: size_def)
    ultimately have fit: "off + size \<le> n" using r div_mult_mod_eq [of off page_bytes] by linarith
    have "piece ?r size ?page = piece off size (concat pages)"
    proof (rule nth_equalityI)
      have cat: "length (concat pages) = n" by (rule paged_concat_length [OF assms(1)])
      show "length (piece ?r size ?page) = length (piece off size (concat pages))"
        using fit cat r by (simp add: size_def)
      fix i assume "i < length (piece ?r size ?page)"
      then have i: "i < size" "?r + i < length ?page" by auto
      have at: "(off + i) div page_bytes = ?k \<and> (off + i) mod page_bytes = ?r + i"
        by (rule within_page) (use i(2) plen in simp)
      have "off + i < n" using i(1) fit by linarith
      with paged_nth [OF assms(1) this] at i fit cat show "piece ?r size ?page ! i = piece off size (concat pages) ! i"
        by (simp add: nth_piece)
    qed
    then have "concat segs = piece off size (concat pages) @ piece (off + size) (rem - size - left) (concat pages)"
      by (simp add: segs'(2) IH(2))
    also have "\<dots> = piece off (rem - left) (concat pages)"
      using IH(1) sr by (simp add: piece_append_piece)
    finally show ?thesis using IH fit sr by (cases "left < rem - size") auto
  qed
qed


definition range_write :: "byte list \<Rightarrow> byte_range \<Rightarrow> byte patch" where
  "range_write bytes r = (br_offset r, piece (br_offset r) (br_size r) bytes)"

definition ranges_inside :: "nat \<Rightarrow> byte_range list \<Rightarrow> bool" where
  "ranges_inside n rs \<longleftrightarrow> (\<forall>r \<in> set rs. br_offset r + br_size r \<le> n)"

definition in_range :: "nat \<Rightarrow> byte_range \<Rightarrow> bool" where
  "in_range i r \<longleftrightarrow> br_offset r \<le> i \<and> i < br_offset r + br_size r"

lemma exec_calls_append: "exec_calls (xs @ ys) mem = exec_calls ys (exec_calls xs mem)"
  by (simp add: exec_calls_def)

lemma run_writes_Cons: "run_writes (w # ws) m = run_writes ws (blit (fst w) (snd w) m)"
  by (simp add: run_writes_def)

text \<open>The uploads that were all taken write every range's part of the image, and nothing else.\<close>

lemma upload_ranges_done:
  assumes "paged n pages" and "upload_ranges env (map Some pages) buffer retired rs calls tickets = Some (calls', Inr tickets')"
    and "\<forall>r \<in> set rs. br_size r \<noteq> 0"
  shows "ranges_inside n rs \<and>
    exec_calls calls' mem =
      (exec_calls calls mem)(buffer := run_writes (map (range_write (concat pages)) rs) (exec_calls calls mem buffer))"
  using assms(2,3)
proof (induction rs arbitrary: calls tickets)
  case Nil
  then show ?case by (simp add: ranges_inside_def run_writes_def)
next
  case (Cons r rs)
  obtain segs where g: "gather_segments (map Some pages) (br_offset r) (br_size r) = Some (segs, 0)"
    and nr: "\<not> retired"
    using Cons.prems(1) by (auto simp: Let_def split: option.splits prod.splits if_splits)
  define call where "call = UploadSegments segs (br_size r) buffer (br_offset r)"
  obtain t where t: "be_serve env calls call = Some t"
    "upload_ranges env (map Some pages) buffer retired rs (calls @ [call]) (tickets @ [t]) = Some (calls', Inr tickets')"
    using Cons.prems(1) g nr by (auto simp: call_def Let_def split: option.splits)
  have p: "concat segs = piece (br_offset r) (br_size r) (concat pages)" "br_offset r + br_size r \<le> n"
    using gather_paged [OF assms(1) g] Cons.prems(2) by auto
  have "length (concat pages) = n" by (rule paged_concat_length [OF assms(1)])
  with p have "take (br_size r) (concat segs) = piece (br_offset r) (br_size r) (concat pages)" by simp
  then have e: "exec_calls (calls @ [call]) mem =
      (exec_calls calls mem)(buffer := blit (br_offset r) (piece (br_offset r) (br_size r) (concat pages)) (exec_calls calls mem buffer))"
    by (simp add: exec_calls_append exec_calls_def call_def)
  from Cons.IH [OF t(2)] Cons.prems(2) p(2) show ?case
    by (simp add: e ranges_inside_def run_writes_Cons range_write_def fun_eq_iff)
qed

lemma upload_ranges_written:
  assumes "ranges_inside (length bytes) rs" and "length bytes \<le> length m" and "i < length m"
  shows "run_writes (map (range_write bytes) rs) m ! i = (if \<exists>r \<in> set rs. in_range i r then bytes ! i else m ! i)"
proof -
  have ins: "writes_inside (length m) (map (range_write bytes) rs)"
    using assms(1,2) by (fastforce simp: writes_inside_def range_write_def ranges_inside_def)
  have t: "touches i (range_write bytes r) \<longleftrightarrow> in_range i r" if "r \<in> set rs" for r :: byte_range
    using assms(1) that by (auto simp: touches_def range_write_def in_range_def ranges_inside_def)
  have w: "written (map (range_write bytes) ss) i = (if \<exists>r \<in> set ss. in_range i r then Some (bytes ! i) else None)"
    if "set ss \<subseteq> set rs" for ss
    using that
  proof (induction ss)
    case (Cons r ss)
    then have r: "r \<in> set rs" by simp
    show ?case
    proof (cases "in_range i r")
      case True
      then have "i - br_offset r < br_size r" "br_offset r + (i - br_offset r) = i" "i < length bytes"
        using assms(1) r by (auto simp: in_range_def ranges_inside_def)
      then have "piece (br_offset r) (br_size r) bytes ! (i - br_offset r) = bytes ! i" by (simp add: nth_piece)
      with True t [OF r] show ?thesis by (simp add: range_write_def)
    next
      case False
      with t [OF r] Cons show ?thesis by simp
    qed
  qed simp
  show ?thesis using nth_run_writes [OF ins assms(3)] w [of "rev rs"] by (simp add: rev_map)
qed

section \<open>Merged ranges\<close>

lemma merge_ranges_covers:
  assumes "sorted (map br_offset (merged @ rs))" and "\<exists>r \<in> set (merged @ rs). in_range i r"
  shows "\<exists>r \<in> set (merge_ranges merged rs). in_range i r"
  using assms
proof (induction merged rs rule: merge_ranges.induct)
  case (2 merged r rs)
  show ?case
  proof (cases "merged \<noteq> [] \<and> br_offset r \<le> br_offset (last merged) + br_size (last merged) + 256")
    case True
    define tip where "tip = last merged"
    define tip2 where "tip2 = tip\<lparr>br_size := max (br_offset tip + br_size tip) (br_offset r + br_size r) - br_offset tip\<rparr>"
    have m: "merged = butlast merged @ [tip]" using True by (simp add: tip_def)
    have offs: "map br_offset (merged @ r # rs) = map br_offset (butlast merged) @ br_offset tip # br_offset r # map br_offset rs"
      by (subst m) simp
    from 2(3) have sorted2: "sorted (map br_offset (butlast merged) @ br_offset tip # br_offset r # map br_offset rs)"
      unfolding offs .
    then have le: "br_offset tip \<le> br_offset r" by (simp add: sorted_append)
    have "sorted (map br_offset ((butlast merged @ [tip2]) @ rs))"
      using sorted2 by (simp add: sorted_append tip2_def)
    moreover have "\<exists>x \<in> set ((butlast merged @ [tip2]) @ rs). in_range i x"
    proof -
      have "in_range i tip \<or> in_range i r \<Longrightarrow> in_range i tip2"
        using le by (auto simp: in_range_def tip2_def)
      moreover have "set (merged @ r # rs) = set (butlast merged) \<union> {tip, r} \<union> set rs" by (subst m) auto
      ultimately show ?thesis using 2(4) by auto
    qed
    ultimately show ?thesis using 2(1) [OF True] True by (simp add: tip_def tip2_def Let_def)
  next
    case False
    then have step: "merge_ranges merged (r # rs) = merge_ranges (merged @ [r]) rs" by auto
    show ?thesis unfolding step by (rule 2(2) [OF False]) (use 2(3,4) in simp_all)
  qed
qed simp

lemma merge_ranges_sizes:
  "\<forall>r \<in> set (merged @ rs). br_size r \<noteq> 0 \<Longrightarrow> \<forall>r \<in> set (merge_ranges merged rs). br_size r \<noteq> 0"
proof (induction merged rs rule: merge_ranges.induct)
  case (2 merged r rs)
  show ?case
  proof (cases "merged \<noteq> [] \<and> br_offset r \<le> br_offset (last merged) + br_size (last merged) + 256")
    case True
    define tip where "tip = last merged"
    define tip2 where "tip2 = tip\<lparr>br_size := max (br_offset tip + br_size tip) (br_offset r + br_size r) - br_offset tip\<rparr>"
    have step: "merge_ranges merged (r # rs) = merge_ranges (butlast merged @ [tip2]) rs"
      using True by (simp add: tip_def tip2_def Let_def)
    have "br_size tip \<noteq> 0" using 2(3) True by (simp add: tip_def)
    then have "br_size tip2 \<noteq> 0" by (simp add: tip2_def)
    then have "\<forall>r \<in> set ((butlast merged @ [tip2]) @ rs). br_size r \<noteq> 0"
      using 2(3) by (auto dest: in_set_butlastD)
    then show ?thesis unfolding step tip2_def tip_def by (rule 2(1) [OF True HOL.refl HOL.refl])
  next
    case False
    then have step: "merge_ranges merged (r # rs) = merge_ranges (merged @ [r]) rs" by auto
    show ?thesis unfolding step by (rule 2(2) [OF False]) (use 2(3) in simp)
  qed
qed simp


lemma catch_up_covers:
  assumes "x \<in> set (bi_writes inp)" and "held < bw_sequence x" and "bw_byteOffset x \<le> i" and "i < bw_byteOffset x + bw_byteSize x"
  shows "\<exists>r \<in> set (catch_up_ranges inp held). in_range i r"
proof -
  let ?rs = "sort_key br_offset (map (\<lambda>w. \<lparr>br_offset = bw_byteOffset w, br_size = bw_byteSize w\<rparr>)
    (filter (\<lambda>w. \<not> (bw_sequence w \<le> held \<or> bw_byteSize w = 0)) (bi_writes inp)))"
  have "\<lparr>br_offset = bw_byteOffset x, br_size = bw_byteSize x\<rparr> \<in> set ?rs" using assms by auto
  moreover have "in_range i \<lparr>br_offset = bw_byteOffset x, br_size = bw_byteSize x\<rparr>" using assms by (simp add: in_range_def)
  ultimately have "\<exists>r \<in> set ([] @ ?rs). in_range i r" by auto
  then show ?thesis unfolding catch_up_ranges_def by (intro merge_ranges_covers) simp_all
qed

lemma dirty_ranges_sizes: "im_byteSize im \<noteq> 0 \<Longrightarrow> \<forall>r \<in> set (dirty_ranges inp im allocated b). br_size r \<noteq> 0"
proof -
  assume im: "im_byteSize im \<noteq> 0"
  have "\<forall>r \<in> set (catch_up_ranges inp held). br_size r \<noteq> 0" for held
    unfolding catch_up_ranges_def by (rule merge_ranges_sizes) auto
  with im show ?thesis by (simp add: dirty_ranges_def Let_def)
qed

text \<open>The uploads leave the image: what they do not write the backing already held.\<close>

lemma dirty_ranges_suffice:
  assumes "length bytes = im_byteSize im" and "length bytes \<le> length m"
    and "ranges_inside (length bytes) (dirty_ranges inp im allocated b)"
    and "journal_covers inp im allocated b \<Longrightarrow> \<forall>i < length bytes. m ! i \<noteq> bytes ! i \<longrightarrow>
      (\<exists>x \<in> set (bi_writes inp). unat (bk_contentEpoch b) < bw_sequence x \<and>
        bw_byteOffset x \<le> i \<and> i < bw_byteOffset x + bw_byteSize x)"
  shows "run_writes (map (range_write bytes) (dirty_ranges inp im allocated b)) m = bytes @ drop (length bytes) m"
proof (rule nth_equalityI)
  let ?rs = "dirty_ranges inp im allocated b"
  have "writes_inside (length m) (map (range_write bytes) ?rs)"
    using assms(2,3) by (fastforce simp: writes_inside_def range_write_def ranges_inside_def)
  then have len: "length (run_writes (map (range_write bytes) ?rs) m) = length m" by simp
  then show "length (run_writes (map (range_write bytes) ?rs) m) = length (bytes @ drop (length bytes) m)"
    using assms(2) by simp
  fix i assume "i < length (run_writes (map (range_write bytes) ?rs) m)"
  then have i: "i < length m" by (simp only: len)
  note at = upload_ranges_written [OF assms(3,2) i]
  show "run_writes (map (range_write bytes) ?rs) m ! i = (bytes @ drop (length bytes) m) ! i"
  proof (cases "i < length bytes")
    case False
    then have "\<not> (\<exists>r \<in> set ?rs. in_range i r)" using assms(3) by (force simp: ranges_inside_def in_range_def)
    with at False i show ?thesis by (simp add: nth_append)
  next
    case True
    have "\<exists>r \<in> set ?rs. in_range i r" if "m ! i \<noteq> bytes ! i"
    proof (cases "?rs = [\<lparr>br_offset = 0, br_size = im_byteSize im\<rparr>]")
      case True
      then show ?thesis using \<open>i < length bytes\<close> assms(1) by (simp add: in_range_def)
    next
      case False
      then have "journal_covers inp im allocated b" "?rs = catch_up_ranges inp (unat (bk_contentEpoch b))"
        by (auto simp: dirty_ranges_def Let_def split: if_splits)
      with assms(4) True that catch_up_covers show ?thesis by metis
    qed
    with at True show ?thesis by (auto simp: nth_append)
  qed
qed

lemma build_leased_ready:
  assumes "build_leased inp ctx env choice p acquired st = Some ((st', out), calls)" and "bo_kind out = Ready"
    and "needs_content inp" and "build_image inp = Inr (Some im)"
    and "im = from_pages (map Some pages) n" and "paged n pages" and "bk_buffer (pl_heap (fst st) p) = Some buffer"
    and "n \<le> length (mem buffer)"
    and "journal_covers inp im (ai_allocated acquired) (pl_heap (fst st) p) \<Longrightarrow>
      \<forall>i < n. mem buffer ! i \<noteq> concat pages ! i \<longrightarrow>
        (\<exists>x \<in> set (bi_writes inp). unat (bk_contentEpoch (pl_heap (fst st) p)) < bw_sequence x \<and>
          bw_byteOffset x \<le> i \<and> i < bw_byteOffset x + bw_byteSize x)"
  shows "exec_calls calls mem = mem(buffer := concat pages @ drop n (mem buffer))"
    and "\<exists>v. bo_version out = Some v \<and> pv_lease v = Some p \<and> pv_resource v = Some buffer \<and> pv_image v = Some im"
    and "pl_heap (fst st') = (pl_heap (fst st))(p := (pl_heap (fst st) p)
      \<lparr>bk_image := Some im, bk_contentEpoch := of_nat (bi_writeSequence inp)\<rparr>)"
proof -
  let ?b = "pl_heap (fst st) p"
  have bytes: "length (concat pages) = n" by (rule paged_concat_length [OF assms(6)])
  have im: "im_byteSize im = n" "im_pages im = map Some pages" using assms(5) by (simp_all add: from_pages_def)
  have gpu: "\<not> bi_gpuWritten inp" using assms(3) by (simp add: needs_content_def)
  have "exec_calls calls mem = mem(buffer := concat pages @ drop n (mem buffer)) \<and>
    (\<exists>tickets st1. (st', out) = publish_built inp ctx choice p buffer (Some im) tickets st1 \<and>
      (st1 = st \<or> st1 = in_backing p forget st))"
  proof (cases "n = 0")
    case True
    then have "concat pages = []" using bytes by (simp only: length_0_conv)
    have "build_leased inp ctx env choice p acquired st = Some (publish_built inp ctx choice p buffer (Some im) [] st, []) \<or>
        (\<exists>st2 o2 c2. build_leased inp ctx env choice p acquired st = Some ((st2, o2), c2) \<and> bo_kind o2 \<noteq> Ready)"
      using assms(3,4,7) True
      by (simp add: build_leased_def Let_def let_lease_go_def failed_def cancelled_def blank_outcome_def im)
    with assms(1,2) have "(st', out) = publish_built inp ctx choice p buffer (Some im) [] st \<and> calls = []" by auto
    moreover have "exec_calls [] mem = mem(buffer := concat pages @ drop n (mem buffer))"
      unfolding True \<open>concat pages = []\<close> by (simp add: exec_calls_def)
    ultimately show ?thesis by metis
  next
    case False
    obtain tickets where up: "upload_ranges env (im_pages im) buffer (bk_retired ?b)
        (dirty_ranges inp im (ai_allocated acquired) ?b) [] [] = Some (calls, Inr tickets)"
      and pub: "(st', out) = publish_built inp ctx choice p buffer (Some im) tickets (in_backing p forget st)"
      using assms(1,2,3,4,7) False
      by (auto simp: build_leased_def Let_def let_lease_go_def failed_def cancelled_def blank_outcome_def im
          split: if_splits option.splits sum.splits prod.splits)
    note taken = upload_ranges_done [OF assms(6) up [unfolded im] dirty_ranges_sizes, unfolded im, of mem]
    have "run_writes (map (range_write (concat pages)) (dirty_ranges inp im (ai_allocated acquired) ?b)) (mem buffer) =
        concat pages @ drop (length (concat pages)) (mem buffer)"
      by (rule dirty_ranges_suffice) (use taken assms(8,9) False in \<open>simp_all add: bytes im\<close>)
    with taken False have "exec_calls calls mem = mem(buffer := concat pages @ drop n (mem buffer))"
      by (simp add: bytes exec_calls_def)
    with pub show ?thesis by metis
  qed
  then obtain tickets st1 where r: "exec_calls calls mem = mem(buffer := concat pages @ drop n (mem buffer))"
    "(st', out) = publish_built inp ctx choice p buffer (Some im) tickets st1" "st1 = st \<or> st1 = in_backing p forget st"
    by blast
  show "exec_calls calls mem = mem(buffer := concat pages @ drop n (mem buffer))" by (rule r(1))
  show "\<exists>v. bo_version out = Some v \<and> pv_lease v = Some p \<and> pv_resource v = Some buffer \<and> pv_image v = Some im"
    using r(2) gpu by (simp add: publish_built_def Let_def blank_outcome_def made_version_def blank_version_def)
  show "pl_heap (fst st') = (pl_heap (fst st))(p := ?b
      \<lparr>bk_image := Some im, bk_contentEpoch := of_nat (bi_writeSequence inp)\<rparr>)"
    using r(2,3) gpu by (auto simp: publish_built_def Let_def in_backing_def upd_backing_def forget_def)
qed


section \<open>A whole build\<close>

text \<open>A backing that claims contents holds them.\<close>

definition truthful :: "(nat \<Rightarrow> byte list) \<Rightarrow> backing \<Rightarrow> bool" where
  "truthful mem b \<longleftrightarrow>
     (bk_contentEpoch b \<noteq> 0 \<longrightarrow>
       (\<forall>old buffer. bk_image b = Some old \<and> bk_buffer b = Some buffer \<longrightarrow>
          take (im_byteSize old) (mem buffer) = materialize old))"

text \<open>
  The input's writes bring a backing's image up to the input's: what \<open>writes_cover_changes\<close>
  gives of a journal's captures.
\<close>

definition catches_up :: "build_input \<Rightarrow> buffer_image \<Rightarrow> backing \<Rightarrow> bool" where
  "catches_up inp im b \<longleftrightarrow>
     (\<forall>old. bk_image b = Some old \<and> im_byteSize old = im_byteSize im \<and>
        unat (bk_contentEpoch b) \<ge> bi_journalBaseSequence inp \<and> unat (bk_contentEpoch b) \<le> bi_writeSequence inp \<longrightarrow>
        (\<forall>i < im_byteSize im. materialize old ! i \<noteq> materialize im ! i \<longrightarrow>
          (\<exists>x \<in> set (bi_writes inp). unat (bk_contentEpoch b) < bw_sequence x \<and>
            bw_byteOffset x \<le> i \<and> i < bw_byteOffset x + bw_byteSize x)))"

lemma truthful_hold: "same_hold b c \<Longrightarrow> truthful mem b \<Longrightarrow> truthful mem c"
  by (auto simp: truthful_def same_hold_def)

lemma catches_up_hold: "same_hold b c \<Longrightarrow> catches_up inp im b = catches_up inp im c"
  by (auto simp: catches_up_def same_hold_def)

lemma leased_once_claims: "truthful mem (leased_once l q b) = truthful mem b"
  "catches_up inp im (leased_once l q b) = catches_up inp im b"
  by (simp_all add: truthful_def catches_up_def leased_once_def)

lemma granted_known_or_fresh:
  assumes "state_ok (pl, ck)" and "acquire alloc racing rq prefer (pl, ck) = ((pl', ck'), Inr (Some p, info))"
  shows "(p < pl_next pl \<and> \<not> ai_allocated info) \<or> (ai_allocated info \<and> bk_contentEpoch (pl_heap pl' p) = 0)"
  using assms(2)
proof (cases rule: acquire_cases)
  have ok: "pool_ok pl" using assms(1) by (simp add: state_ok_def)
  note begin_ok = pool_ok_begin [OF ok, of rq]
  note next_same = choose_backing_frame(4) [OF begin_ok, unfolded begin_acquire_simps]
  {
    case (reused pl1 q n)
    have "q \<in> set (pl_free pl1)" using choose_backing_frame(10) [OF begin_ok reused(1)] by blast
    then have "q < pl_next pl1" using pool_okD(1) [OF pool_ok_choose [OF begin_ok reused(1)]] lists_okD(3,6) by blast
    with reused(3) next_same [OF reused(1)] show ?thesis by (simp add: no_info_def)
  next
    case (bound pl1 n pl2 q)
    note lok = pool_okD(1) [OF pool_ok_choose [OF begin_ok bound(1)]]
    have "q < pl_next pl1" using choose_bound_props(2) [OF bound(4) lok] lists_okD(3,6) [OF lok] by blast
    with bound(6) next_same [OF bound(1)] show ?thesis by (simp add: no_info_def)
  next
    case (made pl1 n pl3 q)
    then show ?thesis
      by (auto simp: no_info_def allocate_def Let_def pool_defs blank_backing_def split: sum.splits)
  }
qed simp_all

lemma build_ready:
  assumes "build inp ctx env st = Some ((st', out), calls)" and "bo_kind out = Ready"
  obtains choice st1 p acquired where "choose_class inp (be_now env) = Inr choice"
    and "acquire (be_alloc env) (be_racing env) (build_request inp (cc_capacityClass choice))
      (of_nat (bi_writeSequence inp)) st = (st1, Inr (Some p, acquired))"
    and "build_leased inp ctx env choice p acquired st1 = Some ((st', out), calls)"
  using assms
  by (auto simp: build_def failed_def cancelled_def suspend_def blank_outcome_def
      split: if_splits sum.splits prod.splits option.splits)

lemma build_leased_version:
  assumes "build_leased inp ctx env choice p acquired st = Some ((st', out), calls)" and "bo_kind out = Ready"
    and "bo_version out = Some v"
  shows "pv_lease v = Some p \<and> (\<exists>buffer. bk_buffer (pl_heap (fst st) p) = Some buffer \<and> pv_resource v = Some buffer)"
  using assms
  by (auto simp: build_leased_def Let_def let_lease_go_def failed_def cancelled_def blank_outcome_def publish_built_def
      made_version_def blank_version_def split: if_splits option.splits sum.splits prod.splits bool.splits)

lemma uploads_image:
  assumes "state_ok (pl, ck)" and "build inp ctx env (pl, ck) = Some ((st', out), calls)" and "bo_kind out = Ready"
    and "bo_version out = Some v" and "pv_lease v = Some p" and "pv_resource v = Some buffer"
    and "needs_content inp" and "bi_image inp = Some im" and "im = from_pages (map Some pages) n" and "paged n pages"
    and "n \<le> length (mem buffer)"
    and "\<forall>q < pl_next pl. truthful mem (pl_heap pl q) \<and> catches_up inp im (pl_heap pl q)"
  shows "exec_calls calls mem = mem(buffer := materialize im @ drop n (mem buffer)) \<and>
    pv_image v = Some im \<and> bk_image (pl_heap (fst st') p) = Some im \<and>
    bk_contentEpoch (pl_heap (fst st') p) = of_nat (bi_writeSequence inp) \<and>
    truthful (exec_calls calls mem) (pl_heap (fst st') p)"
proof -
  obtain choice st1 p1 acquired where b: "acquire (be_alloc env) (be_racing env) (build_request inp (cc_capacityClass choice))
      (of_nat (bi_writeSequence inp)) (pl, ck) = (st1, Inr (Some p1, acquired))"
    "build_leased inp ctx env choice p1 acquired st1 = Some ((st', out), calls)"
    by (rule build_ready [OF assms(2,3)])
  obtain pl1 ck1 where st1: "st1 = (pl1, ck1)" by (cases st1)
  note acq = b(1) [unfolded st1]
  have p1: "p1 = p" and buf: "bk_buffer (pl_heap pl1 p) = Some buffer"
    using build_leased_version [OF b(2) assms(3,4)] assms(5,6) st1 by auto
  have im: "materialize im = concat pages" "im_byteSize im = n"
    using materialize_pages [OF paged_concat_length [OF assms(10)]] assms(9) by (simp_all add: from_pages_def)
  have gpu: "\<not> bi_gpuWritten inp" using assms(7) by (simp add: needs_content_def)
  have covered: "\<forall>i < n. mem buffer ! i \<noteq> concat pages ! i \<longrightarrow>
      (\<exists>x \<in> set (bi_writes inp). unat (bk_contentEpoch (pl_heap pl1 p)) < bw_sequence x \<and>
        bw_byteOffset x \<le> i \<and> i < bw_byteOffset x + bw_byteSize x)"
    if cov: "journal_covers inp im (ai_allocated acquired) (pl_heap pl1 p)"
  proof -
    have "p < pl_next pl" using granted_known_or_fresh [OF assms(1) acq] cov p1 by (auto simp: journal_covers_def Let_def)
    moreover from this have "same_hold (leased_once (Some p) p (pl_heap pl p)) (pl_heap pl1 p)"
      using acquire_hold [OF assms(1) acq] p1 by (simp add: granted_def)
    ultimately have t: "truthful mem (pl_heap pl1 p)" "catches_up inp im (pl_heap pl1 p)"
      using assms(12) truthful_hold catches_up_hold leased_once_claims by metis+
    obtain old where old: "bk_image (pl_heap pl1 p) = Some old" "im_byteSize old = n"
      using cov im(2) by (auto simp: journal_covers_def Let_def split: option.splits)
    have nz: "bk_contentEpoch (pl_heap pl1 p) \<noteq> 0" using cov by (auto simp: journal_covers_def Let_def)
    then have "take n (mem buffer) = materialize old" using t(1) old buf by (auto simp: truthful_def)
    then have "mem buffer ! i = materialize old ! i" if "i < n" for i using that by (metis nth_take)
    moreover have "\<forall>i < n. materialize old ! i \<noteq> materialize im ! i \<longrightarrow>
        (\<exists>x \<in> set (bi_writes inp). unat (bk_contentEpoch (pl_heap pl1 p)) < bw_sequence x \<and>
          bw_byteOffset x \<le> i \<and> i < bw_byteOffset x + bw_byteSize x)"
      using t(2) cov old im(2) by (auto simp: catches_up_def journal_covers_def Let_def)
    ultimately show ?thesis by (simp add: im(1))
  qed
  have image: "build_image inp = Inr (Some im)" using assms(8) by (simp add: build_image_def)
  note done1 = build_leased_ready [OF b(2) assms(3,7) image assms(9,10), unfolded st1 p1 fst_conv, where mem = mem, OF buf assms(11) covered]
  have run: "exec_calls calls mem = mem(buffer := materialize im @ drop n (mem buffer))" using done1(1) im by simp
  have "pv_image v = Some im" using done1(2) assms(4) by auto
  moreover have "bk_image (pl_heap (fst st') p) = Some im \<and>
    bk_contentEpoch (pl_heap (fst st') p) = of_nat (bi_writeSequence inp)" by (simp add: done1(3))
  moreover have "truthful (exec_calls calls mem) (pl_heap (fst st') p)"
    using im buf paged_concat_length [OF assms(10)] by (simp add: truthful_def done1(3) run)
  ultimately show ?thesis using run by blast
qed

text \<open>
  Claim C18. A version's backing holds the version: when a build over a captured image returns a
  version, then after the uploads it queued have run, the version's buffer begins with exactly
  the image's bytes and keeps its own bytes past them, no other buffer changed, and the backing
  records this image at the input's sequence truthfully. So for the backing the pool chose,
  fresh or reused at any epoch, provided that every pooled backing that claims contents holds
  them (\<open>truthful\<close>), and that, where the build would catch it up, the input's writes newer than
  its epoch cover what differs (\<open>catches_up\<close>). The journal's captures give the latter but for a
  second initialization or a gap after a shrinking replacement (\<open>JournalClaims\<close>).
\<close>

theorem build_uploads_image:
  assumes "state_ok (pl, ck)" and "build inp ctx env (pl, ck) = Some ((st', out), calls)" and "bo_kind out = Ready"
    and "bo_version out = Some v" and "pv_lease v = Some p" and "pv_resource v = Some buffer"
    and "needs_content inp" and "bi_image inp = Some im" and "im = from_pages (map Some pages) n" and "paged n pages"
    and "n \<le> length (mem buffer)"
    and "\<forall>q < pl_next pl. truthful mem (pl_heap pl q) \<and> catches_up inp im (pl_heap pl q)"
  shows "exec_calls calls mem = mem(buffer := materialize im @ drop n (mem buffer)) \<and>
    pv_image v = Some im \<and> bk_image (pl_heap (fst st') p) = Some im \<and>
    bk_contentEpoch (pl_heap (fst st') p) = of_nat (bi_writeSequence inp) \<and>
    truthful (exec_calls calls mem) (pl_heap (fst st') p)"
  using assms by (rule uploads_image)

end
