(* ===== verification/CopyProps.thy ===== *)
theory CopyProps
  imports BuildProps
begin

text \<open>
  The predecessor build: its copies and uploads share no byte, so that the one batch they form
  has the same result in any order, and the result is the predecessor's contents under the
  delta, the later write of a byte winning. And what no build, of either kind, leaves behind
  when it returns no version.
\<close>

section \<open>The delta\<close>

lemma resolve_delta_props:
  assumes "resolve_delta writes = (uploads, delta)"
  shows "apart delta" and "spans delta = {i. \<exists>w \<in> set writes. touches i w}" and "disjoint_writes uploads"
    and "written uploads i = written (rev writes) i" and "\<forall>u \<in> set uploads. snd u \<noteq> []"
proof -
  obtain ups where lw: "later_wins add_interval interval_gaps (rev writes) [] = (ups, delta)" and up: "uploads = sort_key fst ups"
    using assms by (auto simp: resolve_delta_def split: prod.splits)
  note p = ByteIntervals.later_wins_props [OF _ lw]
  have q: "apart delta" "spans delta = {i. \<exists>w \<in> set writes. touches i w}" "disjoint_writes ups" "written ups i = written (rev writes) i"
    "\<forall>u \<in> set ups. snd u \<noteq> []" for i using p by auto
  show "apart delta" "spans delta = {i. \<exists>w \<in> set writes. touches i w}" by (rule q(1) q(2))+
  show "\<forall>u \<in> set uploads. snd u \<noteq> []" using q(5) by (simp add: up)
  show "written uploads i = written (rev writes) i"
    using written_perm [OF q(3), of uploads i] q(4) by (simp add: up)
  have "length (filter (touches i) uploads) = length (filter (touches i) ups)" for i
    by (metis mset_filter mset_sort size_mset up)
  then show "disjoint_writes uploads" using q(3) by (simp add: disjoint_writes_def)
qed

section \<open>The copies\<close>

lemma clip_range_spans:
  "clip_range limit r = (s, e) \<Longrightarrow> {s..<e} = {i. in_range i r \<and> i < limit} \<and> (s < e \<longrightarrow> e \<le> limit)"
  by (auto simp: clip_range_def Let_def in_range_def min_def split: if_splits)

lemma add_clipped:
  "apart m \<Longrightarrow> apart (fold (\<lambda>r m. case clip_range limit r of (s, e) \<Rightarrow> add_interval s e m) rs m) \<and>
    spans (fold (\<lambda>r m. case clip_range limit r of (s, e) \<Rightarrow> add_interval s e m) rs m) =
      spans m \<union> {i. i < limit \<and> (\<exists>r \<in> set rs. in_range i r)}"
proof (induction rs arbitrary: m)
  case (Cons r rs)
  obtain s e where c: "clip_range limit r = (s, e)" by fastforce
  note add = add_interval_props [OF Cons.prems, of s e]
  from Cons.IH [of "add_interval s e m"] add clip_range_spans [OF c] show ?case by (auto simp: c)
qed simp

lemma spans_apart_le: "apart ivs \<Longrightarrow> spans ivs \<subseteq> {..<limit} \<Longrightarrow> iv \<in> set ivs \<Longrightarrow> snd iv \<le> limit"
proof -
  assume a: "apart ivs" "spans ivs \<subseteq> {..<limit}" "iv \<in> set ivs"
  have lt: "fst iv < snd iv" using apart_spans [OF a(1), of "fst iv" "snd iv"] a(3) by simp
  have "{fst iv..<snd iv} \<subseteq> spans ivs" using a(3) by (auto simp: spans_def)
  moreover have "snd iv - 1 \<in> {fst iv..<snd iv}" using lt by auto
  ultimately have "snd iv - 1 < limit" using a(2) by blast
  then show ?thesis by simp
qed

lemma copies_written:
  assumes "apart missing" and "apart delta" and "\<forall>iv \<in> set missing. snd iv \<le> length src"
  shows "written (map (cut_piece (0, src)) (copies_of missing delta)) i =
      (if i \<in> spans missing - spans delta then Some (src ! i) else None) \<and>
    length (filter (touches i) (map (cut_piece (0, src)) (copies_of missing delta))) =
      (if i \<in> spans missing - spans delta then 1 else 0)"
  using assms(1,3)
proof (induction missing)
  case (Cons iv missing)
  obtain s e where iv: "iv = (s, e)" by fastforce
  let ?gs = "interval_gaps s e delta"
  have g: "ascending ?gs" "spans ?gs = {s..<e} - spans delta" using interval_gaps_props [OF assms(2)] by blast+
  have "fst iv \<ge> s \<and> snd iv \<le> e" if "iv \<in> set ?gs" for iv
    using spans_inside [OF g(1) _ that, of s e] g(2) by auto
  then have inside: "\<forall>iv \<in> set ?gs. fst (0, src) \<le> fst iv \<and> snd iv \<le> fst (0, src) + length (snd (0, src))"
    using Cons.prems(2) iv by force
  note cut = cut_pieces [OF g(1) inside, of i]
  have ap: "apart missing" "\<forall>c \<in> set missing. e < fst c" using Cons.prems(1) iv by auto
  have IH: "written (map (cut_piece (0, src)) (copies_of missing delta)) i =
      (if i \<in> spans missing - spans delta then Some (src ! i) else None)"
    "length (filter (touches i) (map (cut_piece (0, src)) (copies_of missing delta))) =
      (if i \<in> spans missing - spans delta then 1 else 0)"
    using Cons.IH [OF ap(1)] Cons.prems(2) by simp_all
  have split: "copies_of (iv # missing) delta = ?gs @ copies_of missing delta" by (simp add: copies_of_def iv)
  have dis: "i \<notin> spans missing" if "i < e" using ap(2) that by (fastforce simp: spans_def)
  have mem: "i \<in> spans (iv # missing) - spans delta \<longleftrightarrow> i \<in> spans ?gs \<or> i \<in> spans missing - spans delta"
    using g(2) by (simp add: iv) blast
  show ?case
  proof (cases "i \<in> spans ?gs")
    case True
    then have "i \<notin> spans missing" using g(2) dis by simp
    with True cut IH mem show ?thesis by (simp add: split written_append)
  next
    case False
    with cut IH mem show ?thesis by (simp add: split written_append)
  qed
qed (simp add: copies_of_def)

definition copy_writes :: "byte list \<Rightarrow> (nat \<times> nat) list \<Rightarrow> byte patch list" where
  "copy_writes src copies = map (cut_piece (0, src)) copies"

lemma exec_copy: "exec_call (CopyRanges src copies dst) mem = mem(dst := run_writes (copy_writes (mem src) copies) (mem dst))"
proof -
  have "cut_piece (0, mem src) = (\<lambda>p. (fst p, piece (fst p) (snd p - fst p) (mem src)))"
    by (rule ext) (simp add: cut_piece_def)
  then show ?thesis by (simp add: copy_writes_def case_prod_unfold)
qed

text \<open>The batch as writes to the destination: the predecessor's buffer is another one.\<close>

definition batch_writes :: "(nat \<Rightarrow> byte list) \<Rightarrow> gpu_call list \<Rightarrow> byte patch list" where
  "batch_writes mem calls = concat (map (\<lambda>c. case c of
       UploadSegments segments bytes dst offset \<Rightarrow> [(offset, take bytes (concat segments))]
     | UploadRanges ranges dst \<Rightarrow> ranges
     | CopyRanges src copies dst \<Rightarrow> copy_writes (mem src) copies) calls)"

lemma run_writes_append: "run_writes (xs @ ys) m = run_writes ys (run_writes xs m)"
  by (simp add: run_writes_def)

lemma run_writes_Nil [simp]: "run_writes [] m = m"
  by (simp add: run_writes_def)

lemma queue_batch_done:
  assumes "queue_batch env source buffer copies uploads = (calls, Inr tickets)"
    and "copies \<noteq> [] \<Longrightarrow> source = Some src \<and> src \<noteq> buffer"
  shows "exec_calls calls mem = mem(buffer := run_writes (copy_writes (mem src) copies @ uploads) (mem buffer)) \<and>
    batch_writes mem calls = copy_writes (mem src) copies @ uploads"
proof (cases copies)
  case Nil
  then show ?thesis using assms(1)
    by (auto simp: queue_batch_def Let_def exec_calls_def copy_writes_def batch_writes_def split: option.splits if_splits)
next
  case (Cons c cs)
  with assms(2) have s: "source = Some src" by simp
  show ?thesis using assms(1) Cons
    by (auto simp: queue_batch_def Let_def s exec_calls_def exec_copy run_writes_append batch_writes_def
        split: option.splits if_splits simp del: exec_call.simps(3))
qed


text \<open>What is not copied, the backing holds: nothing changed there since its epoch.\<close>

definition holds_predecessor ::
  "build_input \<Rightarrow> published_version \<Rightarrow> byte list \<Rightarrow> byte list \<Rightarrow> nat \<Rightarrow> backing \<Rightarrow> bool" where
  "holds_predecessor inp previous src m limit b \<longleftrightarrow>
     (let held = unat (bk_contentEpoch b) in
      held \<noteq> 0 \<and> held \<le> pv_writeSequence previous \<and> bk_capacityClass b = pv_capacity previous \<longrightarrow>
      (\<forall>i < limit. m ! i \<noteq> src ! i \<longrightarrow> held \<noteq> pv_writeSequence previous \<and>
         (\<forall>f rs. bi_changedSince inp = Some f \<and> f held = Some rs \<longrightarrow> (\<exists>r \<in> set rs. in_range i r))))"

lemma missing_props:
  assumes "missing_bytes inp previous limit allocated b = (missing, whole)"
  shows "apart missing" and "spans missing \<subseteq> {..<limit}"
    and "holds_predecessor inp previous src m limit b \<Longrightarrow> i < limit \<Longrightarrow> i \<notin> spans missing \<Longrightarrow> m ! i = src ! i"
proof -
  define held where "held = unat (bk_contentEpoch b)"
  define stale where "stale \<longleftrightarrow> allocated \<or> held = 0 \<or> held > pv_writeSequence previous \<or> bk_capacityClass b \<noteq> pv_capacity previous"
  define changed where "changed = (if stale \<or> held = pv_writeSequence previous then Some []
    else case bi_changedSince inp of None \<Rightarrow> None | Some f \<Rightarrow> f held)"
  define m0 where "m0 = fold (\<lambda>r m. case clip_range limit r of (s, e) \<Rightarrow> add_interval s e m)
    (case changed of None \<Rightarrow> [] | Some rs \<Rightarrow> rs) []"
  have eq: "missing = (if stale \<or> changed = None then add_interval 0 limit m0 else m0)"
    using assms unfolding missing_bytes_def Let_def held_def [symmetric] stale_def [symmetric] changed_def [symmetric]
      m0_def [symmetric] by auto
  have m0: "apart m0" "spans m0 = {i. i < limit \<and> (\<exists>r \<in> set (case changed of None \<Rightarrow> [] | Some rs \<Rightarrow> rs). in_range i r)}"
    using add_clipped [of "[]" limit] by (simp_all add: m0_def)
  note whole = add_interval_props [OF m0(1), of 0 limit]
  show "apart missing" using m0 whole by (simp add: eq)
  show "spans missing \<subseteq> {..<limit}" using m0(2) whole by (auto simp: eq)
  assume h: "holds_predecessor inp previous src m limit b" and i: "i < limit" "i \<notin> spans missing"
  then have ns: "\<not> stale" "changed \<noteq> None" "i \<notin> spans m0" using whole by (auto simp: eq split: if_splits)
  have "held \<noteq> 0 \<and> held \<le> pv_writeSequence previous \<and> bk_capacityClass b = pv_capacity previous"
    using ns(1) by (simp add: stale_def)
  with h i(1) have "m ! i \<noteq> src ! i \<longrightarrow> held \<noteq> pv_writeSequence previous \<and>
      (\<forall>f rs. bi_changedSince inp = Some f \<and> f held = Some rs \<longrightarrow> (\<exists>r \<in> set rs. in_range i r))"
    unfolding holds_predecessor_def Let_def held_def [symmetric] by blast
  with ns i(1) m0(2) show "m ! i = src ! i"
    by (auto simp: changed_def split: if_splits option.splits)
qed

section \<open>The contents of a version built on its predecessor\<close>

text \<open>The bytes of the new version: the delta's, else the predecessor's up to \<open>limit\<close>, else the old ones.\<close>

definition patched :: "byte patch list \<Rightarrow> byte list \<Rightarrow> nat \<Rightarrow> byte list \<Rightarrow> nat \<Rightarrow> byte" where
  "patched writes src limit m i =
     (case written (rev writes) i of Some v \<Rightarrow> v | None \<Rightarrow> if i < limit then src ! i else m ! i)"

lemma batch_disjoint:
  assumes "apart missing" and "apart delta" and "\<forall>iv \<in> set missing. snd iv \<le> length src"
    and "disjoint_writes uploads" and "\<And>i. written uploads i = None \<longleftrightarrow> i \<notin> spans delta"
  shows "disjoint_writes (copy_writes src (copies_of missing delta) @ uploads)"
    and "written (copy_writes src (copies_of missing delta) @ uploads) i =
      (if i \<in> spans delta then written uploads i else if i \<in> spans missing then Some (src ! i) else None)"
proof -
  note c = copies_written [OF assms(1-3), folded copy_writes_def]
  have "length (filter (touches i) (copy_writes src (copies_of missing delta) @ uploads)) \<le> 1" for i
  proof (cases "i \<in> spans delta")
    case True
    with c [of i] assms(4) show ?thesis by (simp add: disjoint_writes_def)
  next
    case False
    then have "filter (touches i) uploads = []" using assms(5) [of i] by (simp add: written_None_iff filter_empty_conv)
    with c [of i] show ?thesis by simp
  qed
  then show "disjoint_writes (copy_writes src (copies_of missing delta) @ uploads)" by (simp add: disjoint_writes_def)
  show "written (copy_writes src (copies_of missing delta) @ uploads) i =
      (if i \<in> spans delta then written uploads i else if i \<in> spans missing then Some (src ! i) else None)"
    using c [of i] assms(5) [of i] by (simp add: written_append)
qed

lemma delta_writes_inside: "writes_inside used (delta_writes used emitted)"
  by (auto simp: writes_inside_def delta_writes_def delta_fits_def)

lemma written_inside:
  "(\<And>i. written ws i \<noteq> None \<Longrightarrow> i < n) \<Longrightarrow> (\<forall>w \<in> set ws. snd w \<noteq> []) \<Longrightarrow> writes_inside n ws"
proof -
  assume a: "\<And>i. written ws i \<noteq> None \<Longrightarrow> i < n" "\<forall>w \<in> set ws. snd w \<noteq> []"
  have "fst w + length (snd w) \<le> n" if "w \<in> set ws" for w
  proof -
    have "touches (fst w + (length (snd w) - 1)) w" using a(2) that by (auto simp: touches_def)
    then have "written ws (fst w + (length (snd w) - 1)) \<noteq> None" using that by (metis written_None_iff)
    then have "fst w + (length (snd w) - 1) < n" by (rule a(1))
    moreover have "length (snd w) \<noteq> 0" using a(2) that by simp
    ultimately show ?thesis by linarith
  qed
  then show ?thesis by (simp add: writes_inside_def)
qed


lemma ascending_lt: "ascending gs \<Longrightarrow> iv \<in> set gs \<Longrightarrow> fst iv < snd iv"
  by (induction gs) auto

lemma copy_writes_inside:
  assumes "apart missing" and "apart delta" and "spans missing \<subseteq> {..<limit}" and "limit \<le> length src"
  shows "writes_inside limit (copy_writes src (copies_of missing delta))"
proof -
  have iv: "\<forall>iv \<in> set missing. snd iv \<le> length src"
    using spans_apart_le [OF assms(1,3)] assms(4) by (meson le_trans)
  have "fst iv < snd iv \<and> snd iv \<le> limit" if iv: "iv \<in> set (copies_of missing delta)" for iv
  proof -
    obtain s e where se: "(s, e) \<in> set missing" "iv \<in> set (interval_gaps s e delta)" using iv by (auto simp: copies_of_def)
    have asc: "ascending (interval_gaps s e delta)" using interval_gaps_props [OF assms(2)] by blast
    have "snd iv \<le> e" using interval_gaps_props [OF assms(2), of s e] se(2) by (cases iv) auto
    moreover have "e \<le> limit" using spans_apart_le [OF assms(1,3) se(1)] by simp
    moreover have "fst iv < snd iv" by (rule ascending_lt [OF asc se(2)])
    ultimately show ?thesis by simp
  qed
  with assms(4) show ?thesis by (fastforce simp: writes_inside_def copy_writes_def cut_piece_def)
qed

text \<open>What \<open>copy_leased\<close> returned a version for.\<close>

lemma copy_leased_ready:
  assumes "copy_leased inp ctx env choice emitted p acquired st = ((st', out), calls)" and "bo_kind out = Ready"
    and "\<And>v. bi_previous inp = Some v \<Longrightarrow> pv_resource v = Some src"
  defines "b \<equiv> pl_heap (fst st) p" and "used \<equiv> bi_elementCount inp * bi_elementStride inp"
  defines "limit \<equiv> (case bi_previous inp of None \<Rightarrow> 0 | Some v \<Rightarrow> min (u64 (pv_elementCount v * pv_elementStride v)) used)"
  obtains buffer uploads delta missing whole tickets v where "bk_buffer b = Some buffer"
    and "bi_previous inp \<noteq> None \<longrightarrow> src \<noteq> buffer"
    and "resolve_delta (delta_writes used emitted) = (uploads, delta)"
    and "(case bi_previous inp of None \<Rightarrow> ([], False) | Some v \<Rightarrow> missing_bytes inp v limit (ai_allocated acquired) b) = (missing, whole)"
    and "bi_previous inp = None \<and> used \<noteq> 0 \<longrightarrow> delta = [(0, used)]" and "used \<le> bk_byteCapacity b"
    and "queue_batch env (Option.bind (bi_previous inp) pv_resource) buffer (copies_of missing delta) uploads = (calls, Inr tickets)"
    and "bo_version out = Some v" and "pv_lease v = Some p" and "pv_resource v = Some buffer"
    and "bk_contentEpoch (pl_heap (fst st') p) = of_nat (bi_writeSequence inp)" and "bk_image (pl_heap (fst st') p) = None"
    and "pv_uploadedBytes v = sum_list (map (length \<circ> snd) uploads)"
    and "pv_copiedBytes v = sum_list (map (\<lambda>(s, e). e - s) (copies_of missing delta))"
proof -
  obtain uploads delta where rd: "resolve_delta (delta_writes used emitted) = (uploads, delta)" by fastforce
  obtain missing whole where ms: "(case bi_previous inp of None \<Rightarrow> ([], False)
      | Some v \<Rightarrow> missing_bytes inp v limit (ai_allocated acquired) b) = (missing, whole)" by fastforce
  note un = assms(1) [unfolded copy_leased_def Let_def, folded b_def used_def, folded limit_def, unfolded rd ms fst_conv snd_conv]
  obtain buffer where buf: "bk_buffer b = Some buffer"
    using un assms(2) by (auto simp: let_lease_go_def failed_def cancelled_def blank_outcome_def split: if_splits option.splits)
  have ok: "\<not> (\<exists>v \<in> set_option (bi_previous inp). pv_resource v = Some buffer)" "used \<le> bk_byteCapacity b"
    "bi_previous inp = None \<and> used \<noteq> 0 \<longrightarrow> delta = [(0, used)]"
    using un assms(2) buf
    by (auto simp: let_lease_go_def failed_def cancelled_def blank_outcome_def split: if_splits)
  obtain tickets where q: "queue_batch env (Option.bind (bi_previous inp) pv_resource) buffer (copies_of missing delta) uploads =
      (calls, Inr tickets)"
    using un assms(2) buf
    by (auto simp: let_lease_go_def failed_def cancelled_def blank_outcome_def split: if_splits prod.splits sum.splits)
  obtain v where v: "bo_version out = Some v" "pv_lease v = Some p" "pv_resource v = Some buffer"
    "bk_contentEpoch (pl_heap (fst st') p) = of_nat (bi_writeSequence inp)" "bk_image (pl_heap (fst st') p) = None"
    "pv_uploadedBytes v = sum_list (map (length \<circ> snd) uploads)"
    "pv_copiedBytes v = sum_list (map (\<lambda>(s, e). e - s) (copies_of missing delta))"
    using un assms(2) buf q
    by (auto simp: let_lease_go_def failed_def cancelled_def blank_outcome_def made_version_def blank_version_def
        in_backing_def upd_backing_def forget_def split: if_splits)
  have "bi_previous inp \<noteq> None \<longrightarrow> src \<noteq> buffer" using ok(1) assms(3) by auto
  with buf rd ms ok q v show ?thesis by (intro that) auto
qed


text \<open>The bytes of the predecessor that a version takes over.\<close>

definition copy_limit :: "build_input \<Rightarrow> nat" where
  "copy_limit inp = (case bi_previous inp of None \<Rightarrow> 0
     | Some v \<Rightarrow> min (u64 (pv_elementCount v * pv_elementStride v)) (bi_elementCount inp * bi_elementStride inp))"

lemma copy_leased_contents:
  assumes run: "copy_leased inp ctx env choice emitted p acquired st = ((st', out), calls)" "bo_kind out = Ready"
    and version: "bo_version out = Some v" "pv_resource v = Some buffer"
    and src: "\<And>u. bi_previous inp = Some u \<Longrightarrow> pv_resource u = Some src"
    and room: "bi_elementCount inp * bi_elementStride inp \<le> length (mem buffer)" "copy_limit inp \<le> length (mem src)"
    and held: "\<And>u. bi_previous inp = Some u \<Longrightarrow>
      holds_predecessor inp u (mem src) (mem buffer) (copy_limit inp) (pl_heap (fst st) p)"
  defines "writes \<equiv> delta_writes (bi_elementCount inp * bi_elementStride inp) emitted"
  shows "\<exists>m'. exec_calls calls mem = mem(buffer := m') \<and> length m' = length (mem buffer) \<and>
    (\<forall>i < length m'. m' ! i = patched writes (mem src) (copy_limit inp) (mem buffer) i) \<and>
    (\<forall>ws. mset ws = mset (batch_writes mem calls) \<longrightarrow> run_writes ws (mem buffer) = m')"
    and "bi_previous inp = None \<Longrightarrow> i < bi_elementCount inp * bi_elementStride inp \<Longrightarrow> written (rev writes) i \<noteq> None"
proof -
  define used where "used = bi_elementCount inp * bi_elementStride inp"
  have limit: "(case bi_previous inp of None \<Rightarrow> 0 | Some v \<Rightarrow> min (u64 (pv_elementCount v * pv_elementStride v)) used) =
      copy_limit inp" unfolding copy_limit_def used_def by (rule HOL.refl)
  obtain buffer' uploads delta missing whole tickets v' where r: "bi_previous inp \<noteq> None \<longrightarrow> src \<noteq> buffer'"
    "resolve_delta writes = (uploads, delta)"
    "(case bi_previous inp of None \<Rightarrow> ([], False)
      | Some v \<Rightarrow> missing_bytes inp v (copy_limit inp) (ai_allocated acquired) (pl_heap (fst st) p)) = (missing, whole)"
    "bi_previous inp = None \<and> used \<noteq> 0 \<longrightarrow> delta = [(0, used)]"
    "queue_batch env (Option.bind (bi_previous inp) pv_resource) buffer' (copies_of missing delta) uploads = (calls, Inr tickets)"
    "bo_version out = Some v'" "pv_resource v' = Some buffer'"
    by (rule copy_leased_ready [OF run src, folded used_def, unfolded limit])
      (unfold writes_def used_def, blast)
  have buf: "buffer' = buffer" using r(6,7) version by simp
  have lim: "copy_limit inp \<le> used" by (simp add: copy_limit_def used_def split: option.split)
  note rd = resolve_delta_props [OF r(2)]
  have miss: "apart missing" "spans missing \<subseteq> {..<copy_limit inp}"
    "i < copy_limit inp \<Longrightarrow> i \<notin> spans missing \<Longrightarrow> mem buffer ! i = mem src ! i" for i
    using r(3) held missing_props(1,2) missing_props(3) [where src = "mem src" and m = "mem buffer"]
    by (fastforce simp: copy_limit_def split: option.splits)+
  have iv: "\<forall>iv \<in> set missing. snd iv \<le> length (mem src)"
    using spans_apart_le [OF miss(1,2)] room(2) by (meson le_trans)
  have up_None: "written uploads i = None \<longleftrightarrow> i \<notin> spans delta" for i
    unfolding rd(4) rd(2) by (auto simp: written_None_iff)
  define batch where "batch = copy_writes (mem src) (copies_of missing delta) @ uploads"
  note bd = batch_disjoint [OF miss(1) rd(1) iv rd(3) up_None, folded batch_def]
  have "i < used" if "written uploads i \<noteq> None" for i
    using that delta_writes_inside [of used emitted] unfolding rd(4)
    by (auto simp: written_None_iff writes_def used_def writes_inside_def touches_def dest: bspec)
  then have "writes_inside used uploads" by (rule written_inside [OF _ rd(5)])
  moreover have "writes_inside (copy_limit inp) (copy_writes (mem src) (copies_of missing delta))"
    by (rule copy_writes_inside [OF miss(1) rd(1) miss(2) room(2)])
  ultimately have inside: "writes_inside (length (mem buffer)) batch"
    using lim room(1) by (fastforce simp: batch_def writes_inside_def used_def)
  have nosrc: "bi_previous inp = None \<Longrightarrow> copies_of missing delta = []" using r(3) by (simp add: copies_of_def)
  have q: "exec_calls calls mem = mem(buffer := run_writes batch (mem buffer)) \<and> batch_writes mem calls = batch"
    unfolding batch_def buf [symmetric]
    by (rule queue_batch_done [OF r(5)]) (use nosrc src r(1) in \<open>cases "bi_previous inp"; auto\<close>)
  have at: "run_writes batch (mem buffer) ! i = patched writes (mem src) (copy_limit inp) (mem buffer) i"
    if i: "i < length (mem buffer)" for i
  proof -
    have "written (rev batch) i = written batch i" by (rule written_perm [OF bd(1)]) simp
    then have "run_writes batch (mem buffer) ! i = (case written batch i of None \<Rightarrow> mem buffer ! i | Some v \<Rightarrow> v)"
      using nth_run_writes [OF inside i] by simp
    moreover have "written batch i = (case written (rev writes) i of Some v \<Rightarrow> Some v
        | None \<Rightarrow> if i \<in> spans missing then Some (mem src ! i) else None)"
      using bd(2) [of i] up_None [of i] rd(4) [of i] by (cases "written (rev writes) i") simp_all
    moreover have "i \<in> spans missing \<longrightarrow> i < copy_limit inp" using miss(2) by auto
    ultimately show ?thesis
      using miss(3) [of i] by (cases "written (rev writes) i") (auto simp: patched_def)
  qed
  have perm: "run_writes ws (mem buffer) = run_writes batch (mem buffer)" if "mset ws = mset batch" for ws
    by (rule run_writes_perm [OF bd(1) that inside])
  show "\<exists>m'. exec_calls calls mem = mem(buffer := m') \<and> length m' = length (mem buffer) \<and>
    (\<forall>i < length m'. m' ! i = patched writes (mem src) (copy_limit inp) (mem buffer) i) \<and>
    (\<forall>ws. mset ws = mset (batch_writes mem calls) \<longrightarrow> run_writes ws (mem buffer) = m')"
  proof (intro exI conjI allI impI)
    show "exec_calls calls mem = mem(buffer := run_writes batch (mem buffer))" using q by (rule conjunct1)
    show len: "length (run_writes batch (mem buffer)) = length (mem buffer)" using inside by (rule length_run_writes)
    show "run_writes batch (mem buffer) ! i = patched writes (mem src) (copy_limit inp) (mem buffer) i"
      if "i < length (run_writes batch (mem buffer))" for i using that at unfolding len by blast
    show "run_writes ws (mem buffer) = run_writes batch (mem buffer)" if "mset ws = mset (batch_writes mem calls)" for ws
      using that q perm by metis
  qed
  assume none: "bi_previous inp = None" and "i < bi_elementCount inp * bi_elementStride inp"
  then have "i < used" by (simp only: used_def)
  with none r(4) have "delta = [(0, used)]" by linarith
  with \<open>i < used\<close> have "i \<in> spans delta" by simp
  with up_None [of i] rd(4) [of i] show "written (rev writes) i \<noteq> None" by simp
qed


lemma predecessor_ready:
  assumes "build_from_predecessor inp ctx env st = ((st', out), calls)" and "bo_kind out = Ready"
  obtains emitted choice st1 p acquired where "bi_emitDelta inp = Some emitted"
    and "\<forall>u. bi_previous inp = Some u \<longrightarrow> pv_resource u \<noteq> None \<and> pv_elementStride u = bi_elementStride inp"
    and "choose_class inp (be_now env) = Inr choice"
    and "acquire (be_alloc env) (be_racing env) (build_request inp (cc_capacityClass choice))
      (of_nat (case bi_previous inp of None \<Rightarrow> bi_writeSequence inp | Some v \<Rightarrow> pv_writeSequence v)) st =
        (st1, Inr (Some p, acquired))"
    and "copy_leased inp ctx env choice emitted p acquired st1 = ((st', out), calls)"
  using assms
  by (auto simp: build_from_predecessor_def failed_def cancelled_def suspend_def blank_outcome_def
      split: if_splits sum.splits prod.splits option.splits)

lemma holds_predecessor_hold:
  "same_hold b c \<Longrightarrow> holds_predecessor inp u src m limit b = holds_predecessor inp u src m limit c"
  by (simp add: holds_predecessor_def same_hold_def)

text \<open>
  Claim C19. A version built on its predecessor is the predecessor with the delta applied: when
  the build returns a version, then after the copy and the uploads it queued have run, in any
  order (no two write the same byte), every byte of the version's buffer is the one the last
  delta write of it put there, or else the predecessor's byte where the version takes it over,
  or else untouched, and no other buffer changed. Required: a reused backing of the
  predecessor's class holds the predecessor's bytes but for what \<open>changedSince\<close> names.
\<close>

theorem predecessor_patched:
  assumes "state_ok (pl, ck)" and "build_from_predecessor inp ctx env (pl, ck) = ((st', out), calls)"
    and "bo_kind out = Ready" and "bo_version out = Some v" and "pv_resource v = Some buffer"
    and "bi_emitDelta inp = Some emitted" and "bi_previous inp = Some u" and "pv_resource u = Some src"
    and "bi_elementCount inp * bi_elementStride inp \<le> length (mem buffer)" and "copy_limit inp \<le> length (mem src)"
    and "\<forall>q < pl_next pl. bk_buffer (pl_heap pl q) = Some buffer \<longrightarrow>
      holds_predecessor inp u (mem src) (mem buffer) (copy_limit inp) (pl_heap pl q)"
  shows "\<exists>m'. exec_calls calls mem = mem(buffer := m') \<and> length m' = length (mem buffer) \<and>
    (\<forall>i < length m'. m' ! i = (case written (rev (delta_writes (bi_elementCount inp * bi_elementStride inp) emitted)) i of
        Some byte \<Rightarrow> byte | None \<Rightarrow> if i < copy_limit inp then mem src ! i else mem buffer ! i)) \<and>
    (\<forall>ws. mset ws = mset (batch_writes mem calls) \<longrightarrow> run_writes ws (mem buffer) = m')"
proof -
  obtain emitted' choice st1 p acquired where e: "bi_emitDelta inp = Some emitted'"
    and b0: "acquire (be_alloc env) (be_racing env) (build_request inp (cc_capacityClass choice))
      (of_nat (case bi_previous inp of None \<Rightarrow> bi_writeSequence inp | Some v \<Rightarrow> pv_writeSequence v)) (pl, ck) =
        (st1, Inr (Some p, acquired))"
    "copy_leased inp ctx env choice emitted' p acquired st1 = ((st', out), calls)"
    by (rule predecessor_ready [OF assms(2,3)])
  have b: "acquire (be_alloc env) (be_racing env) (build_request inp (cc_capacityClass choice))
      (of_nat (pv_writeSequence u)) (pl, ck) = (st1, Inr (Some p, acquired))"
    "copy_leased inp ctx env choice emitted p acquired st1 = ((st', out), calls)"
    using b0 e assms(6,7) by simp_all
  obtain pl1 ck1 where st1: "st1 = (pl1, ck1)" by (cases st1)
  note acq = b(1) [unfolded st1]
  have src: "pv_resource u' = Some src" if "bi_previous inp = Some u'" for u' using that assms(7,8) by simp
  have buf: "bk_buffer (pl_heap pl1 p) = Some buffer"
  proof -
    obtain buffer' v' where "bk_buffer (pl_heap (fst st1) p) = Some buffer'" "bo_version out = Some v'" "pv_resource v' = Some buffer'"
      by (rule copy_leased_ready [OF b(2) assms(3) src]) (assumption, rule that)
    then show ?thesis using assms(4,5) by (simp add: st1)
  qed
  have held: "holds_predecessor inp u' (mem src) (mem buffer) (copy_limit inp) (pl_heap (fst st1) p)"
    if "bi_previous inp = Some u'" for u'
  proof -
    from granted_known_or_fresh [OF assms(1) acq] show ?thesis
    proof
      assume known: "p < pl_next pl \<and> \<not> ai_allocated acquired"
      then have h: "same_hold (leased_once (Some p) p (pl_heap pl p)) (pl_heap pl1 p)"
        using acquire_hold [OF assms(1) acq] by (simp add: granted_def)
      then have "bk_buffer (pl_heap pl p) = Some buffer" using buf by (auto simp: same_hold_def leased_once_def)
      then have "holds_predecessor inp u' (mem src) (mem buffer) (copy_limit inp) (leased_once (Some p) p (pl_heap pl p))"
        using assms(7,11) known that by (simp add: holds_predecessor_def leased_once_def)
      then show ?thesis using holds_predecessor_hold [OF h] by (simp add: st1)
    next
      assume "ai_allocated acquired \<and> bk_contentEpoch (pl_heap pl1 p) = 0"
      then show ?thesis by (simp add: holds_predecessor_def st1)
    qed
  qed
  from copy_leased_contents(1) [OF b(2) assms(3,4,5) src assms(9,10) held] show ?thesis by (simp add: patched_def)
qed

end
