(* ===== verification/BuildClaims.thy ===== *)
theory BuildClaims
  imports CopyProps
begin

text \<open>
  A build that returns no version, the class it asks the pool for, the replay of an input, and
  the builds of an example pool.
\<close>

section \<open>Builds that return no version\<close>

definition only_writes :: "nat \<Rightarrow> gpu_call list \<Rightarrow> bool" where
  "only_writes buffer calls \<longleftrightarrow>
     (\<forall>c \<in> set calls. case c of UploadSegments _ _ dst _ \<Rightarrow> dst = buffer | UploadRanges _ dst \<Rightarrow> dst = buffer
       | CopyRanges _ _ dst \<Rightarrow> dst = buffer)"

lemma only_writes_exec: "only_writes buffer calls \<Longrightarrow> b \<noteq> buffer \<Longrightarrow> exec_calls calls mem b = mem b"
proof (induction calls arbitrary: mem)
  case (Cons c calls)
  then have "exec_call c mem b = mem b" by (cases c) (auto simp: only_writes_def)
  moreover have "exec_calls calls (exec_call c mem) b = exec_call c mem b" using Cons by (simp add: only_writes_def)
  ultimately show ?case by (simp add: exec_calls_def)
qed (simp add: exec_calls_def)

lemma upload_ranges_only:
  "upload_ranges env pages buffer retired rs calls tickets = Some (calls', r) \<Longrightarrow> only_writes buffer calls \<Longrightarrow>
    only_writes buffer calls'"
proof (induction rs arbitrary: calls tickets)
  case (Cons x rs)
  then show ?case
    by (auto simp: Let_def only_writes_def split: option.splits prod.splits if_splits)
qed simp

lemma queue_batch_only: "queue_batch env source buffer copies uploads = (calls, r) \<Longrightarrow> only_writes buffer calls"
  by (auto simp: queue_batch_def Let_def only_writes_def split: list.splits option.splits if_splits)

text \<open>A return that lets the lease go: the contents untouched and nothing queued, or forgotten.\<close>

definition gave_up :: "nat \<Rightarrow> pool_state \<Rightarrow> pool_state \<times> build_outcome \<Rightarrow> gpu_call list \<Rightarrow> bool" where
  "gave_up p st result calls \<longleftrightarrow>
     (\<exists>out. bo_version out = None \<and>
       (result = let_lease_go p out st \<and> calls = [] \<or>
        (result = let_lease_go p out (in_backing p forget st) \<and>
          (\<exists>buffer. bk_buffer (pl_heap (fst st) p) = Some buffer \<and> only_writes buffer calls))))"

lemma gave_upI1: "bo_version out = None \<Longrightarrow> gave_up p st (let_lease_go p out st) []"
  by (auto simp: gave_up_def)

lemma gave_upI2:
  "bo_version out = None \<Longrightarrow> bk_buffer (pl_heap (fst st) p) = Some buffer \<Longrightarrow> only_writes buffer calls \<Longrightarrow>
    gave_up p st (let_lease_go p out (in_backing p forget st)) calls"
  by (auto simp: gave_up_def)

lemma outcome_versions [simp]:
  "bo_version (failed e) = None" "bo_version cancelled = None" "bo_version blank_outcome = None"
  "bo_kind (failed e) = Failed" "bo_kind cancelled = Cancelled"
  by (simp_all add: failed_def cancelled_def blank_outcome_def)

lemma publish_ready: "publish_built inp ctx choice p buffer img tickets st = (st', out) \<Longrightarrow> bo_kind out = Ready"
  by (auto simp: publish_built_def Let_def)

lemma only_writes_Nil [simp]: "only_writes buffer []"
  by (simp add: only_writes_def)

lemma build_leased_gave_up:
  assumes "build_leased inp ctx env choice p acquired st = Some ((st', out), calls)" and "bo_kind out \<noteq> Ready"
  shows "gave_up p st (st', out) calls"
  using assms
  by (auto simp: build_leased_def Let_def split: if_splits option.splits sum.splits prod.splits bool.splits
      intro!: gave_upI1 gave_upI2 [OF outcome_versions(1)] elim!: upload_ranges_only
      dest!: publish_ready sym [where s = "let_lease_go x y z" for x y z])

lemma copy_leased_gave_up:
  assumes "copy_leased inp ctx env choice emitted p acquired st = ((st', out), calls)" and "bo_kind out \<noteq> Ready"
  shows "gave_up p st (st', out) calls"
  using assms
  by (auto simp: copy_leased_def Let_def split: if_splits option.splits sum.splits prod.splits
      intro!: gave_upI1 gave_upI2 elim!: queue_batch_only
      dest!: sym [where s = "let_lease_go x y z" for x y z])


text \<open>What a block claims of its buffer, and who holds it.\<close>

definition same_claims :: "backing \<Rightarrow> backing \<Rightarrow> bool" where
  "same_claims b c \<longleftrightarrow> bk_image b = bk_image c \<and> bk_contentEpoch b = bk_contentEpoch c \<and>
     (bk_buffer c = bk_buffer b \<or> bk_buffer c = None)"

lemma lease_reset_heap:
  "pl_heap (lease_reset (Some p) pl) q =
    (if q = p then (pl_heap pl q)\<lparr>bk_leases := bk_leases (pl_heap pl q) - 1\<rparr> else pl_heap pl q)"
  by (simp add: lease_reset_def upd_backing_def upd_home_def Let_def)

lemma let_go_heap:
  "pl_heap (fst (fst (let_lease_go p out st))) q =
    (if q = p then (pl_heap (fst st) q)\<lparr>bk_leases := bk_leases (pl_heap (fst st) q) - 1\<rparr> else pl_heap (fst st) q)"
  by (simp only: let_lease_go_def lease_reset_heap fst_conv)

lemma forget_heap:
  "pl_heap (fst (in_backing p forget st)) q = (if q = p then forget (pl_heap (fst st) q) else pl_heap (fst st) q)"
  by (simp add: in_backing_def upd_backing_def)

lemma gave_up_heap:
  assumes "gave_up p st (st', out) calls"
  shows "bo_version out = None"
    and "bk_leases (pl_heap (fst st') q) = (if q = p then bk_leases (pl_heap (fst st) q) - 1 else bk_leases (pl_heap (fst st) q))"
    and "(calls = [] \<and> same_claims (pl_heap (fst st) q) (pl_heap (fst st') q)) \<or>
      (\<exists>buffer. bk_buffer (pl_heap (fst st') p) = Some buffer \<and> bk_contentEpoch (pl_heap (fst st') p) = 0 \<and>
        only_writes buffer calls \<and> (q \<noteq> p \<longrightarrow> same_claims (pl_heap (fst st) q) (pl_heap (fst st') q)))"
proof -
  obtain out' where o: "bo_version out' = None" and
    cs: "(st', out) = let_lease_go p out' st \<and> calls = [] \<or>
      ((st', out) = let_lease_go p out' (in_backing p forget st) \<and>
        (\<exists>buffer. bk_buffer (pl_heap (fst st) p) = Some buffer \<and> only_writes buffer calls))"
    using assms by (auto simp: gave_up_def)
  have out: "out = out'" using cs by (auto simp: let_lease_go_def)
  show "bo_version out = None" using o out by simp
  have heap: "(calls = [] \<and> pl_heap (fst st') = pl_heap (fst (fst (let_lease_go p out' st)))) \<or>
      (pl_heap (fst st') = pl_heap (fst (fst (let_lease_go p out' (in_backing p forget st)))) \<and>
        (\<exists>buffer. bk_buffer (pl_heap (fst st) p) = Some buffer \<and> only_writes buffer calls))"
    using cs by (metis fst_conv)
  show "bk_leases (pl_heap (fst st') q) = (if q = p then bk_leases (pl_heap (fst st) q) - 1 else bk_leases (pl_heap (fst st) q))"
    using heap by (elim disjE conjE) (simp_all add: let_go_heap forget_heap forget_def)
  show "(calls = [] \<and> same_claims (pl_heap (fst st) q) (pl_heap (fst st') q)) \<or>
      (\<exists>buffer. bk_buffer (pl_heap (fst st') p) = Some buffer \<and> bk_contentEpoch (pl_heap (fst st') p) = 0 \<and>
        only_writes buffer calls \<and> (q \<noteq> p \<longrightarrow> same_claims (pl_heap (fst st) q) (pl_heap (fst st') q)))"
    using heap by (elim disjE conjE exE) (simp_all add: let_go_heap forget_heap forget_def same_claims_def)
qed

lemma same_claims_truthful: "same_claims b c \<Longrightarrow> truthful mem b \<Longrightarrow> truthful mem c"
  by (auto simp: truthful_def same_claims_def)

text \<open>A backing that an acquire allocates is the one it grants: one lease, no contents.\<close>

lemma acquire_fresh:
  assumes "state_ok (pl, ck)" and "acquire alloc racing rq prefer (pl, ck) = ((pl', ck'), r)"
    and "\<not> q < pl_next pl" and "q < pl_next pl'"
  shows "granted r = Some q \<and> bk_leases (pl_heap pl' q) = 1 \<and> bk_contentEpoch (pl_heap pl' q) = 0"
  using assms(2)
proof (cases rule: acquire_cases)
  have ok: "pool_ok pl" using assms(1) by (simp add: state_ok_def)
  note begin_ok = pool_ok_begin [OF ok, of rq]
  note ok1 = pool_ok_choose [OF begin_ok]
  note next1 = choose_backing_frame(4) [OF begin_ok, unfolded begin_acquire_simps]
  {
    case (reused pl1 p n)
    with next1 [OF reused(1)] assms(3,4) show ?thesis
      by (simp add: reuse_def upd_home_def lease_take_def upd_backing_def Let_def)
  next
    case (bound pl1 n pl2 p)
    with next1 [OF bound(1)] choose_bound_props(1) [OF bound(4) pool_okD(1) [OF ok1 [OF bound(1)]]] assms(3,4) show ?thesis
      by (simp add: reuse_def upd_home_def lease_take_def upd_backing_def Let_def)
  next
    case (exhausted pl1 n pl2 pl3 ck1)
    have "pl_next pl2 = pl_next pl1"
      using choose_bound_props(1) [OF exhausted(3) pool_okD(1) [OF ok1 [OF exhausted(1)]]] exhausted(4)
      by (cases "cf_reuseBound (pl_config pl1)") simp_all
    with next1 [OF exhausted(1)] exhausted(6) arm_availability_frame [OF exhausted(5)] assms(3,4) show ?thesis
      by (simp add: upd_home_def)
  next
    case (failed pl1 n e)
    with next1 [OF failed(1)] assms(3,4) show ?thesis by simp
  next
    case (made pl1 n pl3 p)
    with next1 [OF made(1)] assms(3,4) show ?thesis
      by (auto simp: allocate_def upd_home_def lease_take_def upd_backing_def blank_backing_def granted_def Let_def split: sum.splits)
  }
qed

text \<open>
  What is left of a backing \<open>q\<close>: one the pool \<open>pl\<close> had holds its leases and claims no more than
  it did; one it did not have is leased by nobody and claims nothing.
\<close>

definition claims_kept :: "pool \<Rightarrow> nat \<Rightarrow> backing \<Rightarrow> bool" where
  "claims_kept pl q b \<longleftrightarrow> (if q < pl_next pl then same_claims (pl_heap pl q) b else bk_contentEpoch b = 0)"

definition leases_before :: "pool \<Rightarrow> nat \<Rightarrow> nat" where
  "leases_before pl q = (if q < pl_next pl then bk_leases (pl_heap pl q) else 0)"

definition cleaned_up :: "pool \<Rightarrow> pool_state \<times> build_outcome \<Rightarrow> gpu_call list \<Rightarrow> bool" where
  "cleaned_up pl result calls \<longleftrightarrow>
     (let heap = pl_heap (fst (fst result)); n = pl_next (fst (fst result)) in
      bo_version (snd result) = None \<and> pl_next pl \<le> n \<and>
      (\<forall>q < n. bk_leases (heap q) = leases_before pl q) \<and>
      (calls = [] \<and> (\<forall>q < n. claims_kept pl q (heap q)) \<or>
       (\<exists>p buffer. bk_buffer (heap p) = Some buffer \<and> bk_contentEpoch (heap p) = 0 \<and> only_writes buffer calls \<and>
          (\<forall>q < n. q \<noteq> p \<longrightarrow> claims_kept pl q (heap q)))))"

lemma cleaned_up_nothing: "bo_version out = None \<Longrightarrow> cleaned_up pl ((pl, ck), out) []"
  by (simp add: cleaned_up_def claims_kept_def leases_before_def same_claims_def Let_def)

text \<open>An acquire keeps every backing's claims, and gives one more lease of what it grants.\<close>

lemma acquire_keeps:
  assumes "state_ok (pl, ck)" and "acquire alloc racing rq prefer (pl, ck) = ((pl1, ck1), r)" and "q < pl_next pl1"
  shows "bk_leases (pl_heap pl1 q) = leases_before pl q + (if granted r = Some q then 1 else 0)"
    and "claims_kept pl q (pl_heap pl1 q)"
proof -
  have "bk_leases (pl_heap pl1 q) = leases_before pl q + (if granted r = Some q then 1 else 0) \<and> claims_kept pl q (pl_heap pl1 q)"
  proof (cases "q < pl_next pl")
    case True
    with acquire_hold [OF assms(1,2) True] show ?thesis
      by (auto simp: leases_before_def claims_kept_def same_hold_def leased_once_def same_claims_def split: if_splits)
  next
    case False
    with acquire_fresh [OF assms(1,2) False assms(3)] show ?thesis by (simp add: leases_before_def claims_kept_def)
  qed
  then show "bk_leases (pl_heap pl1 q) = leases_before pl q + (if granted r = Some q then 1 else 0)"
    and "claims_kept pl q (pl_heap pl1 q)" by blast+
qed

lemma claims_kept_trans: "claims_kept pl q b \<Longrightarrow> same_claims b c \<Longrightarrow> claims_kept pl q c"
  by (auto simp: claims_kept_def same_claims_def split: if_splits)

lemma gave_up_next: "gave_up p st (st', out) calls \<Longrightarrow> pl_next (fst st') = pl_next (fst st)"
  by (auto simp: gave_up_def let_lease_go_def lease_reset_def in_backing_def upd_backing_def upd_home_def Let_def)

lemma acquired_gave_up:
  assumes "state_ok (pl, ck)" and "acquire alloc racing rq prefer (pl, ck) = ((pl1, ck1), Inr (Some p, info))"
    and "gave_up p (pl1, ck1) (st', out) calls"
  shows "cleaned_up pl (st', out) calls"
proof -
  note g = gave_up_heap [OF assms(3), unfolded fst_conv]
  have n: "pl_next (fst st') = pl_next pl1" using gave_up_next [OF assms(3)] by simp
  have more: "pl_next pl \<le> pl_next pl1" using acquire_frame [OF assms(1,2)] by blast
  note keep = acquire_keeps [OF assms(1,2)]
  have leases: "bk_leases (pl_heap (fst st') q) = leases_before pl q" if "q < pl_next pl1" for q
    using g(2) [of q] keep(1) [OF that] by (cases "q = p") (simp_all add: granted_def)
  have claims: "claims_kept pl q (pl_heap (fst st') q)" if "q < pl_next pl1" "same_claims (pl_heap pl1 q) (pl_heap (fst st') q)" for q
    using claims_kept_trans keep(2) that by blast
  have "calls = [] \<and> (\<forall>q < pl_next pl1. claims_kept pl q (pl_heap (fst st') q)) \<or>
       (\<exists>p buffer. bk_buffer (pl_heap (fst st') p) = Some buffer \<and> bk_contentEpoch (pl_heap (fst st') p) = 0 \<and>
          only_writes buffer calls \<and> (\<forall>q < pl_next pl1. q \<noteq> p \<longrightarrow> claims_kept pl q (pl_heap (fst st') q)))"
  proof (cases "calls = [] \<and> (\<forall>q. same_claims (pl_heap pl1 q) (pl_heap (fst st') q))")
    case True
    then show ?thesis using claims by blast
  next
    case False
    then have "\<exists>buffer. bk_buffer (pl_heap (fst st') p) = Some buffer \<and> bk_contentEpoch (pl_heap (fst st') p) = 0 \<and>
        only_writes buffer calls"
      using g(3) by blast
    moreover have "claims_kept pl q (pl_heap (fst st') q)" if "q < pl_next pl1" "q \<noteq> p" for q
      using claims [OF that(1)] g(3) [of q] that(2) by blast
    ultimately show ?thesis by blast
  qed
  then show ?thesis using g(1) more leases by (simp add: cleaned_up_def Let_def n)
qed


lemma suspend_blocks:
  "suspend ctx (pl, ck) = (st', out) \<Longrightarrow> pl_heap (fst st') = pl_heap pl \<and> pl_next (fst st') = pl_next pl \<and> bo_version out = None \<and>
    (bo_kind out = Suspended \<and> bc_allocateSuspension ctx = Some (bo_suspension out) \<and>
       (\<forall>w. bc_notifySuspension ctx = Some w \<longrightarrow>
          st' = (subscribe_availability (bo_suspension out) (Some w) pl, ck)) \<or>
     bo_kind out = Failed \<and> bc_allocateSuspension ctx = None)"
  by (auto simp: suspend_def failed_def blank_outcome_def subscribe_availability_def Let_def split: option.splits)

lemma acquire_none_cleaned:
  assumes "state_ok (pl, ck)" and "acquire alloc racing rq prefer (pl, ck) = (st1, r)" and "granted r = None"
    and "pl_heap (fst st') = pl_heap (fst st1)" and "pl_next (fst st') = pl_next (fst st1)" and "bo_version out = None"
  shows "cleaned_up pl (st', out) []"
proof -
  obtain pl1 ck1 where st1: "st1 = (pl1, ck1)" by (cases st1)
  note acq = assms(2) [unfolded st1]
  show ?thesis
    using acquire_keeps [OF assms(1) acq] acquire_frame [OF assms(1) acq] assms(3-6) by (simp add: cleaned_up_def Let_def st1)
qed

lemma acquire_failed_cleaned:
  "state_ok (pl, ck) \<Longrightarrow> acquire alloc racing rq prefer (pl, ck) = (st1, Inl e) \<Longrightarrow> bo_version out = None \<Longrightarrow>
    cleaned_up pl (st1, out) []"
  by (rule acquire_none_cleaned [where r = "Inl e"]) (simp_all add: granted_def)

lemma acquire_suspended_cleaned:
  assumes "state_ok (pl, ck)" and "acquire alloc racing rq prefer (pl, ck) = ((pl1, ck1), Inr (None, info))"
    and "suspend ctx (pl1, ck1) = (st', out)"
  shows "cleaned_up pl (st', out) []"
  using suspend_blocks [OF assms(3)]
  by (intro acquire_none_cleaned [OF assms(1,2)]) (simp_all add: granted_def)

lemma not_suspended [simp]: "bo_kind (failed e) \<noteq> Suspended" "bo_kind cancelled \<noteq> Suspended"
  by (simp_all add: failed_def cancelled_def blank_outcome_def)

lemma build_cleaned:
  assumes ok: "state_ok (pl, ck)" and run: "build inp ctx env (pl, ck) = Some ((st', out), calls)" and no: "bo_kind out \<noteq> Ready"
  shows "cleaned_up pl (st', out) calls"
proof (cases "\<exists>choice st1 p acquired. choose_class inp (be_now env) = Inr choice \<and>
    acquire (be_alloc env) (be_racing env) (build_request inp (cc_capacityClass choice)) (of_nat (bi_writeSequence inp)) (pl, ck) =
      (st1, Inr (Some p, acquired)) \<and> build_leased inp ctx env choice p acquired st1 = Some ((st', out), calls)")
  case True
  then obtain choice pl1 ck1 p acquired where
    a: "acquire (be_alloc env) (be_racing env) (build_request inp (cc_capacityClass choice)) (of_nat (bi_writeSequence inp)) (pl, ck) =
      ((pl1, ck1), Inr (Some p, acquired))" and b: "build_leased inp ctx env choice p acquired (pl1, ck1) = Some ((st', out), calls)"
    by auto
  show ?thesis by (rule acquired_gave_up [OF ok a build_leased_gave_up [OF b no]])
next
  case False
  with run show ?thesis
    by (auto simp: build_def cleaned_up_nothing intro: acquire_failed_cleaned [OF ok] acquire_suspended_cleaned [OF ok] split: if_splits sum.splits prod.splits option.splits)
qed

lemma predecessor_cleaned:
  assumes ok: "state_ok (pl, ck)" and run: "build_from_predecessor inp ctx env (pl, ck) = ((st', out), calls)"
    and no: "bo_kind out \<noteq> Ready"
  shows "cleaned_up pl (st', out) calls"
proof (cases "\<exists>choice st1 p acquired emitted. choose_class inp (be_now env) = Inr choice \<and>
    acquire (be_alloc env) (be_racing env) (build_request inp (cc_capacityClass choice))
      (of_nat (case bi_previous inp of None \<Rightarrow> bi_writeSequence inp | Some v \<Rightarrow> pv_writeSequence v)) (pl, ck) =
      (st1, Inr (Some p, acquired)) \<and> copy_leased inp ctx env choice emitted p acquired st1 = ((st', out), calls)")
  case True
  then obtain choice pl1 ck1 p acquired emitted where
    a: "acquire (be_alloc env) (be_racing env) (build_request inp (cc_capacityClass choice))
      (of_nat (case bi_previous inp of None \<Rightarrow> bi_writeSequence inp | Some v \<Rightarrow> pv_writeSequence v)) (pl, ck) =
      ((pl1, ck1), Inr (Some p, acquired))" and b: "copy_leased inp ctx env choice emitted p acquired (pl1, ck1) = ((st', out), calls)"
    by auto
  show ?thesis by (rule acquired_gave_up [OF ok a copy_leased_gave_up [OF b no]])
next
  case False
  with run show ?thesis
    by (auto simp: build_from_predecessor_def cleaned_up_nothing intro: acquire_failed_cleaned [OF ok] acquire_suspended_cleaned [OF ok] split: if_splits sum.splits prod.splits option.splits)
qed


lemma cleaned_up_truthful:
  assumes "cleaned_up pl (st', out) calls" and "q < pl_next (fst st')" and "q < pl_next pl \<longrightarrow> truthful mem (pl_heap pl q)"
    and "\<forall>r. r \<noteq> q \<longrightarrow> bk_buffer (pl_heap (fst st') r) \<noteq> bk_buffer (pl_heap (fst st') q)"
  shows "truthful (exec_calls calls mem) (pl_heap (fst st') q)"
proof -
  have t: "truthful mem (pl_heap (fst st') q)" if "claims_kept pl q (pl_heap (fst st') q)"
  proof (cases "q < pl_next pl")
    case True
    then show ?thesis using that assms(3) same_claims_truthful [of "pl_heap pl q"] by (simp add: claims_kept_def)
  next
    case False
    then show ?thesis using that by (simp add: claims_kept_def truthful_def)
  qed
  consider "calls = []" "claims_kept pl q (pl_heap (fst st') q)"
    | buffer p where "bk_buffer (pl_heap (fst st') p) = Some buffer" "bk_contentEpoch (pl_heap (fst st') p) = 0"
      "only_writes buffer calls" "q \<noteq> p \<longrightarrow> claims_kept pl q (pl_heap (fst st') q)"
    using assms(1,2) unfolding cleaned_up_def Let_def fst_conv by blast
  then show ?thesis
  proof cases
    case 1
    then show ?thesis using t by (simp add: exec_calls_def)
  next
    case (2 buffer p)
    show ?thesis
    proof (cases "q = p")
      case True
      with 2(2) show ?thesis by (simp add: truthful_def)
    next
      case False
      have "exec_calls calls mem b = mem b" if "bk_buffer (pl_heap (fst st') q) = Some b" for b
        using only_writes_exec [OF 2(3)] assms(4) False that 2(1) by metis
      then show ?thesis using t 2(4) False by (simp add: truthful_def)
    qed
  qed
qed

lemma snd_let_go [simp]: "snd (let_lease_go p out st) = out"
  by (simp add: let_lease_go_def)

lemma snd_publish [simp]: "bo_kind (snd (publish_built inp ctx choice p buffer img tickets st)) = Ready"
  by (simp add: publish_built_def Let_def)

lemma copy_leased_kind: "bo_kind (snd (fst (copy_leased inp ctx env choice emitted p acquired st))) \<noteq> Suspended"
  by (simp add: copy_leased_def Let_def split: option.split sum.split prod.split)

lemma build_leased_kind:
  "build_leased inp ctx env choice p acquired st = Some r \<Longrightarrow> bo_kind (snd (fst r)) \<noteq> Suspended"
  unfolding build_leased_def Let_def
  by (auto split: if_split_asm option.split_asm sum.split_asm prod.split_asm bool.split_asm)

lemma suspended_identity:
  assumes "build_versioned_buffer inp ctx env st = Some ((st', out), calls)" and "bo_kind out = Suspended"
  shows "bc_allocateSuspension ctx = Some (bo_suspension out) \<and>
    (\<forall>w. bc_notifySuspension ctx = Some w \<longrightarrow>
      (\<exists>st1. st' = (subscribe_availability (bo_suspension out) (Some w) (fst st1), snd st1)))"
proof -
  have leased: "copy_leased inp ctx env choice emitted p acquired st1 \<noteq> ((st', out), calls)"
    "build_leased inp ctx env choice p acquired st1 \<noteq> Some ((st', out), calls)" for choice emitted p acquired st1
    using assms(2) copy_leased_kind build_leased_kind by (metis fst_conv snd_conv)+
  show ?thesis
    using assms leased
    by (auto simp: build_versioned_buffer_def build_def build_from_predecessor_def dest!: suspend_blocks
        split: if_split_asm sum.split_asm prod.split_asm option.split_asm)
qed

text \<open>
  Claim C20. A build that returns no version leaves nothing half done, on every path: each
  backing the pool had has the leases it had, and one the build allocated has none; the calls
  that did go out write one buffer only, whose backing no longer claims any contents, and what
  any backing of the pool claims, an allocated one's included, is true of the memory after them
  when it was before (for a backing that shares its buffer with no other); a suspended build carries the identity it was given and has subscribed it
  to the pool's availability.
\<close>

theorem build_failure_safe:
  assumes "state_ok (pl, ck)" and "build_versioned_buffer inp ctx env (pl, ck) = Some ((st', out), calls)"
    and "bo_kind out \<noteq> Ready"
  shows "bo_version out = None \<and>
    pl_next pl \<le> pl_next (fst st') \<and>
    (\<forall>q < pl_next (fst st'). bk_leases (pl_heap (fst st') q) = (if q < pl_next pl then bk_leases (pl_heap pl q) else 0)) \<and>
    (\<forall>q < pl_next (fst st'). (q < pl_next pl \<longrightarrow> truthful mem (pl_heap pl q)) \<and>
        (\<forall>r. r \<noteq> q \<longrightarrow> bk_buffer (pl_heap (fst st') r) \<noteq> bk_buffer (pl_heap (fst st') q)) \<longrightarrow>
        truthful (exec_calls calls mem) (pl_heap (fst st') q)) \<and>
    (calls \<noteq> [] \<longrightarrow> (\<exists>p buffer. bk_buffer (pl_heap (fst st') p) = Some buffer \<and> bk_contentEpoch (pl_heap (fst st') p) = 0 \<and>
        (\<forall>b. b \<noteq> buffer \<longrightarrow> exec_calls calls mem b = mem b))) \<and>
    (bo_kind out = Suspended \<longrightarrow> bc_allocateSuspension ctx = Some (bo_suspension out) \<and>
        (\<forall>w. bc_notifySuspension ctx = Some w \<longrightarrow>
          (\<exists>st1. st' = (subscribe_availability (bo_suspension out) (Some w) (fst st1), snd st1))))"
proof -
  have c: "cleaned_up pl (st', out) calls"
    using assms(2) build_cleaned [OF assms(1) _ assms(3)] predecessor_cleaned [OF assms(1) _ assms(3)]
    by (auto simp: build_versioned_buffer_def split: if_splits)
  then have "\<exists>p buffer. bk_buffer (pl_heap (fst st') p) = Some buffer \<and> bk_contentEpoch (pl_heap (fst st') p) = 0 \<and>
      only_writes buffer calls" if "calls \<noteq> []"
    using that by (auto simp: cleaned_up_def Let_def)
  with c show ?thesis
    using cleaned_up_truthful [OF c] suspended_identity [OF assms(2)] only_writes_exec
    by (fastforce simp: cleaned_up_def leases_before_def Let_def)
qed

section \<open>The class\<close>

lemma bit_ceil_from_props: "0 < p \<Longrightarrow> n \<le> bit_ceil_from p n \<and> (p = 2 ^ k \<longrightarrow> (\<exists>j. bit_ceil_from p n = 2 ^ j)) \<and>
    (bit_ceil_from p n < 2 * n \<or> bit_ceil_from p n = p)"
proof (induction p n arbitrary: k rule: bit_ceil_from.induct)
  case (1 p n)
  show ?case
  proof (cases "p < n")
    case True
    then have e: "bit_ceil_from p n = bit_ceil_from (2 * p) n" using 1(2) by (simp add: bit_ceil_from.simps [of p])
    from 1(1) [of "Suc k"] True 1(2) show ?thesis unfolding e by auto
  next
    case False
    then have e: "bit_ceil_from p n = p" by (simp add: bit_ceil_from.simps [of p])
    with False show ?thesis by auto
  qed
qed

lemma bit_ceil_props: "n \<le> bit_ceil n" "\<exists>j. bit_ceil n = 2 ^ j" "0 < n \<Longrightarrow> bit_ceil n < 2 * n"
  using bit_ceil_from_props [of 1 n 0] by (auto simp: bit_ceil_def)


lemma choose_class_shape:
  assumes "choose_class inp now = Inr c"
  obtains (patch) v where "bi_previous inp = Some v" "pv_resource v \<noteq> None" "bi_capacity inp \<le> pv_capacity v"
      "cc_mode c = Patch" "cc_capacityClass c = pv_capacity v" "\<not> cc_shrunk c"
  | (shrink) v w g target where "bi_previous inp = Some v" "pv_resource v \<noteq> None" "bi_capacity inp \<le> pv_capacity v"
      "observe (bi_shrink inp) g (pv_capacity v) (max (bi_capacity inp) 1) now (pv_shrinkWindow v) = (w, Inr (Some target))"
      "cc_mode c = Replace" "cc_capacityClass c = max target (max (bi_capacity inp) 1)" "cc_capacityClass c < pv_capacity v"
      "cc_shrunk c"
  | (grown) g cur where "\<forall>v. bi_previous inp = Some v \<longrightarrow> pv_resource v = None \<or> pv_capacity v < bi_capacity inp"
      "cur = (case bi_previous inp of None \<Rightarrow> 0 | Some v \<Rightarrow> pv_capacity v)"
      "copy_growth inp = Some g" "next_capacity g cur (max (bi_capacity inp) 1) = Inr (cc_capacityClass c)"
      "cc_mode c = Replace" "\<not> cc_shrunk c"
  | (rounded) "\<forall>v. bi_previous inp = Some v \<longrightarrow> pv_resource v = None \<or> pv_capacity v < bi_capacity inp"
      "copy_growth inp = None" "cc_capacityClass c = replacement_capacity inp" "cc_mode c = Replace" "\<not> cc_shrunk c"
proof (cases "bi_previous inp")
  case None
  with assms show ?thesis
    by (cases "copy_growth inp")
      (auto simp: choose_class_def Let_def split: sum.split_asm intro: grown rounded)
next
  case (Some v)
  note pat = patch [OF Some] and shr = shrink [OF Some]
  show ?thesis
  proof (cases "pv_resource v \<noteq> None \<and> bi_capacity inp \<le> pv_capacity v")
    case True
    from assms Some True show ?thesis unfolding choose_class_def Let_def
      by (auto split: prod.split_asm sum.split_asm option.split_asm if_split_asm intro: pat shr)
  next
    case False
    with assms Some show ?thesis
      by (cases "copy_growth inp")
        (auto simp: choose_class_def Let_def split: sum.split_asm if_split_asm intro: grown rounded)
  qed
qed

text \<open>
  The class a build asks the pool for always holds its rows: it is never below the
  input's capacity; \<open>Patch\<close> means exactly that the predecessor's class is kept; a shrunk class
  is a smaller one than the predecessor's, asked only after a low need; a need above the
  predecessor's class is a replacement above it; and a first version without a policy gets the
  least power of two.
\<close>

theorem class_holds_rows:
  assumes "choose_class inp now = Inr c" and "bi_capacity inp \<le> u64_max"
  shows "bi_capacity inp \<le> cc_capacityClass c \<and>
    (cc_mode c = Patch \<longleftrightarrow> (\<exists>v. bi_previous inp = Some v \<and> pv_resource v \<noteq> None \<and> bi_capacity inp \<le> pv_capacity v) \<and> \<not> cc_shrunk c) \<and>
    (cc_mode c = Patch \<longrightarrow> map_option pv_capacity (bi_previous inp) = Some (cc_capacityClass c)) \<and>
    (cc_shrunk c \<longrightarrow> (\<exists>v. bi_previous inp = Some v \<and> cc_capacityClass c < pv_capacity v \<and>
        low_ask (bi_shrink inp) (pv_capacity v) (max (bi_capacity inp) 1))) \<and>
    (\<forall>v. bi_previous inp = Some v \<and> pv_capacity v < bi_capacity inp \<longrightarrow> cc_mode c = Replace \<and> pv_capacity v < cc_capacityClass c) \<and>
    (bi_previous inp = None \<and> copy_growth inp = None \<longrightarrow>
        (\<exists>j. cc_capacityClass c = 2 ^ j) \<and> cc_capacityClass c < 2 * max (bi_capacity inp) 1)"
  using assms(1)
proof (cases rule: choose_class_shape)
  case (patch v)
  then show ?thesis by simp
next
  case (shrink v w g target)
  from observe_SomeD(3) [OF shrink(4)] shrink show ?thesis by simp
next
  case (grown g cur)
  have "max (bi_capacity inp) 1 \<le> cc_capacityClass c"
    using next_capacity_ge [OF grown(4)] assms(2) by (simp add: u64_max_def)
  with grown show ?thesis by auto
next
  case rounded
  have "max (bi_capacity inp) 1 \<le> bit_ceil (max (bi_capacity inp) 1)" by (rule bit_ceil_props)
  moreover have "bit_ceil (max (bi_capacity inp) 1) \<le> replacement_capacity inp"
    by (simp add: replacement_capacity_def Let_def split: option.split)
  ultimately have le: "bi_capacity inp \<le> cc_capacityClass c" unfolding rounded(3) by linarith
  have none: "bi_previous inp = None \<longrightarrow> cc_capacityClass c = bit_ceil (max (bi_capacity inp) 1)"
    unfolding rounded(3) by (simp add: replacement_capacity_def)
  show ?thesis using le none rounded bit_ceil_props(2,3) [of "max (bi_capacity inp) 1"] by auto
qed


section \<open>The replay\<close>

definition write_fits :: "build_input \<Rightarrow> nat \<Rightarrow> buffer_write \<Rightarrow> bool" where
  "write_fits inp required w \<longleftrightarrow> bw_sequence w \<le> bi_writeSequence inp \<and> bw_byteOffset w + bw_byteSize w \<le> required \<and>
     bi_elementStride inp dvd bw_byteOffset w \<and> bi_elementStride inp dvd bw_byteSize w"

lemma validate_writes_iff:
  "validate_writes inp required ws v = Some r \<longleftrightarrow>
     sorted_wrt (<) (v # map bw_sequence ws) \<and> (\<forall>w \<in> set ws. write_fits inp required w) \<and> r = last (v # map bw_sequence ws)"
proof (induction ws arbitrary: v)
  case (Cons w ws)
  show ?case
  proof (cases "v < bw_sequence w \<and> write_fits inp required w")
    case True
    then have "validate_writes inp required (w # ws) v = validate_writes inp required ws (bw_sequence w)"
      by (auto simp: write_fits_def)
    with Cons True show ?thesis by auto
  next
    case False
    then have "validate_writes inp required (w # ws) v = None" by (auto simp: write_fits_def dvd_eq_mod_eq_0)
    with False show ?thesis by auto
  qed
qed auto

lemma replay_deltas_iff:
  assumes "sorted_wrt (<) (map bw_sequence ws)"
  shows "replay_deltas ws closed = Some r \<longleftrightarrow>
     (\<forall>w \<in> set ws. closed < bw_sequence w \<longrightarrow> bw_byteSize w = 0) \<and>
     r = (if ws = [] then closed else max closed (bw_sequence (last ws)))"
  using assms
proof (induction ws arbitrary: closed)
  case (Cons w ws)
  have sorted: "sorted_wrt (<) (map bw_sequence ws)" and later: "\<forall>x \<in> set ws. bw_sequence w < bw_sequence x"
    using Cons.prems by auto
  have tail: "ws \<noteq> [] \<longrightarrow> bw_sequence w < bw_sequence (last ws)" using later by simp
  consider "bw_sequence w \<le> closed" | "closed < bw_sequence w" "bw_byteSize w \<noteq> 0" | "closed < bw_sequence w" "bw_byteSize w = 0"
    by linarith
  then show ?case
  proof cases
    case 1
    with Cons.IH [OF sorted, of closed] tail show ?thesis by (cases "ws = []") auto
  next
    case 2
    then show ?thesis by auto
  next
    case 3
    then have "(\<forall>x \<in> set ws. closed < bw_sequence x \<longrightarrow> bw_byteSize x = 0) \<longleftrightarrow>
        (\<forall>x \<in> set ws. bw_sequence w < bw_sequence x \<longrightarrow> bw_byteSize x = 0)"
      using later by fastforce
    with 3 Cons.IH [OF sorted, of "bw_sequence w"] tail show ?thesis by (cases "ws = []") auto
  qed
qed auto

text \<open>Which inputs replay.\<close>

definition replayable :: "build_input \<Rightarrow> bool" where
  "replayable inp \<longleftrightarrow>
     (let required = bi_elementCount inp * bi_elementStride inp;
          held = (case bi_previous inp of None \<Rightarrow> 0 | Some v \<Rightarrow> pv_writeSequence v);
          lowest = (case bi_previous inp of None \<Rightarrow> 0 | Some v \<Rightarrow> min (pv_writeSequence v) (bi_journalBaseSequence inp));
          ws = bi_writes inp
      in bi_elementStride inp \<noteq> 0 \<and> bi_elementCount inp \<le> bi_capacity inp \<and> bi_capacity inp \<le> u32_max \<and> required \<le> u64_max \<and>
         sorted_wrt (<) (lowest # map bw_sequence ws) \<and> (\<forall>w \<in> set ws. write_fits inp required w) \<and>
         (ws \<noteq> [] \<longrightarrow> bw_sequence (last ws) = bi_writeSequence inp) \<and>
         (case bi_image inp of
            Some im \<Rightarrow> im_byteSize im = required
          | None \<Rightarrow>
              (\<forall>w \<in> set ws. held < bw_sequence w \<longrightarrow> bw_byteSize w = 0) \<and>
              (if bi_bytes inp \<noteq> [] then length (bi_bytes inp) = required
               else if ws \<noteq> [] then held \<le> bi_writeSequence inp
               else bi_previous inp = None \<or> held = bi_writeSequence inp)))"

lemma div_fits: "stride \<noteq> 0 \<Longrightarrow> (n > m div stride) = (n * stride > (m :: nat))"
  by (metis div_less_iff_less_mult not_less bot_nat_0.not_eq_extremum)

lemma replay_iff: "(\<exists>bytes. replay_versioned_buffer inp = Inr bytes) \<longleftrightarrow> replayable inp"
proof -
  define lowest where "lowest = (case bi_previous inp of None \<Rightarrow> 0 | Some v \<Rightarrow> min (pv_writeSequence v) (bi_journalBaseSequence inp))"
  define held where "held = (case bi_previous inp of None \<Rightarrow> 0 | Some v \<Rightarrow> pv_writeSequence v)"
  define required where "required = bi_elementCount inp * bi_elementStride inp"
  define bounds where "bounds \<longleftrightarrow> bi_elementStride inp \<noteq> 0 \<and> bi_elementCount inp \<le> bi_capacity inp \<and> bi_capacity inp \<le> u32_max \<and>
    required \<le> u64_max"
  define valid where "valid \<longleftrightarrow> sorted_wrt (<) (lowest # map bw_sequence (bi_writes inp)) \<and>
    (\<forall>w \<in> set (bi_writes inp). write_fits inp required w)"
  define closes where "closes \<longleftrightarrow> (bi_writes inp \<noteq> [] \<longrightarrow> bw_sequence (last (bi_writes inp)) = bi_writeSequence inp)"
  define empty where "empty \<longleftrightarrow> (\<forall>w \<in> set (bi_writes inp). held < bw_sequence w \<longrightarrow> bw_byteSize w = 0)"
  have spec: "replayable inp \<longleftrightarrow> bounds \<and> valid \<and> closes \<and> (case bi_image inp of Some im \<Rightarrow> im_byteSize im = required
      | None \<Rightarrow> empty \<and> (if bi_bytes inp \<noteq> [] then length (bi_bytes inp) = required
          else if bi_writes inp \<noteq> [] then held \<le> bi_writeSequence inp else bi_previous inp = None \<or> held = bi_writeSequence inp))"
    unfolding replayable_def Let_def bounds_def valid_def closes_def empty_def required_def lowest_def held_def by blast
  have val: "validate_writes inp required (bi_writes inp) lowest =
      (if valid then Some (last (lowest # map bw_sequence (bi_writes inp))) else None)"
    using validate_writes_iff [of inp required "bi_writes inp" lowest] unfolding valid_def
    by (cases "validate_writes inp required (bi_writes inp) lowest") auto
  have deltas: "replay_deltas (bi_writes inp) held =
      (if empty then Some (if bi_writes inp = [] then held else max held (bw_sequence (last (bi_writes inp)))) else None)" if valid
    using replay_deltas_iff [of "bi_writes inp" held] that unfolding valid_def empty_def
    by (cases "replay_deltas (bi_writes inp) held") auto
  have closed: "closes \<longleftrightarrow> \<not> (bi_writes inp \<noteq> [] \<and> last (lowest # map bw_sequence (bi_writes inp)) \<noteq> bi_writeSequence inp)"
    by (auto simp: closes_def last_map)
  have no_bounds: "\<exists>e. replay_versioned_buffer inp = Inl e" if "\<not> bounds"
    using that unfolding replay_versioned_buffer_def Let_def bounds_def
    by (cases "bi_elementStride inp = 0 \<or> bi_elementCount inp > bi_capacity inp \<or> bi_capacity inp > u32_max")
      (auto simp: div_fits required_def)
  have no_valid: "\<exists>e. replay_versioned_buffer inp = Inl e" if "bounds" "\<not> valid"
    using that val unfolding replay_versioned_buffer_def Let_def required_def [symmetric] lowest_def [symmetric] by simp
  have no_close: "\<exists>e. replay_versioned_buffer inp = Inl e" if "bounds" "valid" "\<not> closes"
  proof -
    have v: "validate_writes inp required (bi_writes inp) lowest = Some (last (lowest # map bw_sequence (bi_writes inp)))"
      using val that(2) by simp
    have open': "bi_writes inp \<noteq> [] \<and> last (lowest # map bw_sequence (bi_writes inp)) \<noteq> bi_writeSequence inp"
      using that(3) closed by blast
    show ?thesis
      unfolding replay_versioned_buffer_def Let_def required_def [symmetric] lowest_def [symmetric] v option.case if_P [OF open']
      by simp
  qed
  have out: "\<nexists>bytes. replay_versioned_buffer inp = Inr bytes" if "\<not> (bounds \<and> valid \<and> closes)"
    using that no_bounds no_valid no_close by (metis Inl_Inr_False)
  show ?thesis
  proof (cases "bounds \<and> valid \<and> closes")
    case False
    with out spec show ?thesis by blast
  next
    case True
    then have ins: "\<not> (bi_elementStride inp = 0 \<or> bi_elementCount inp > bi_capacity inp \<or> bi_capacity inp > u32_max)"
      "\<not> bi_elementCount inp > u64_max div bi_elementStride inp" "valid" "bounds"
      by (auto simp: bounds_def div_fits required_def)
    have shut: "\<not> (bi_writes inp \<noteq> [] \<and> last (lowest # map bw_sequence (bi_writes inp)) \<noteq> bi_writeSequence inp)"
      using True closed by blast
    have step: "replay_versioned_buffer inp = (case bi_image inp of
        Some im \<Rightarrow> if im_byteSize im \<noteq> required then Inl ''versioned buffer desired image byte count does not match rows''
          else Inr (materialize im)
      | None \<Rightarrow> if bi_bytes inp \<noteq> [] \<and> required \<noteq> length (bi_bytes inp)
          then Inl ''versioned buffer byte count does not match rows''
          else if \<not> empty then Inl ''versioned buffer deltas require an immutable paged image''
          else if bi_bytes inp = [] \<and>
             ((bi_writes inp \<noteq> [] \<and> max held (bw_sequence (last (bi_writes inp))) \<noteq> bi_writeSequence inp) \<or>
              (bi_writes inp = [] \<and> (\<exists>p \<in> set_option (bi_previous inp). bi_writeSequence inp \<noteq> pv_writeSequence p)))
          then Inl ''versioned buffer is not closed through requested write sequence''
          else Inr (if bi_bytes inp \<noteq> [] then bi_bytes inp
             else case Option.bind (bi_previous inp) materialize_cpu_image of
               None \<Rightarrow> replicate required 0
             | Some previous \<Rightarrow> blit 0 (take (min required (length previous)) previous) (replicate required 0)))"
      unfolding replay_versioned_buffer_def Let_def required_def [symmetric] lowest_def [symmetric] held_def [symmetric]
        if_not_P [OF ins(1)] if_not_P [OF ins(2)] val if_P [OF ins(3)] option.case if_not_P [OF shut]
        deltas [OF ins(3)]
      by (cases "bi_image inp"; cases empty; cases "bi_writes inp = []"; simp)
    have last: "bi_writes inp \<noteq> [] \<Longrightarrow> bw_sequence (last (bi_writes inp)) = bi_writeSequence inp" using True by (simp add: closes_def)
    have none: "(\<exists>p \<in> set_option (bi_previous inp). bi_writeSequence inp \<noteq> pv_writeSequence p) \<longleftrightarrow>
        \<not> (bi_previous inp = None \<or> held = bi_writeSequence inp)"
      by (auto simp: held_def split: option.splits)
    show ?thesis
      unfolding step spec none using True last
      by (cases "bi_image inp"; cases "bi_bytes inp = []"; cases "bi_writes inp = []") (auto simp: max_def)
  qed
qed


lemma replay_bytes:
  assumes "replay_versioned_buffer inp = Inr bytes"
  defines "required \<equiv> bi_elementCount inp * bi_elementStride inp"
  shows "bytes = (case bi_image inp of Some im \<Rightarrow> materialize im
    | None \<Rightarrow> if bi_bytes inp \<noteq> [] then bi_bytes inp
        else case Option.bind (bi_previous inp) materialize_cpu_image of
          None \<Rightarrow> replicate required 0
        | Some previous \<Rightarrow> blit 0 (take (min required (length previous)) previous) (replicate required 0))"
  using assms(1) unfolding replay_versioned_buffer_def Let_def required_def
  by (simp split: if_split_asm option.split_asm)

text \<open>
  \<open>ReplayVersionedBuffer\<close> accepts exactly the inputs that are closed: rows that fit the
  capacity and 64 bits, writes in ascending sequence above what the predecessor and the journal
  share, aligned and inside the rows, ending at the requested sequence, and bytes for every
  delta. Its result is the image's bytes, or the given bytes, or the predecessor's bytes cut to
  the rows with zeroes after them; every other input is an error.
\<close>

theorem replay_accepts:
  "((\<exists>bytes. replay_versioned_buffer inp = Inr bytes) \<longleftrightarrow> replayable inp) \<and>
   (\<forall>bytes. replay_versioned_buffer inp = Inr bytes \<longrightarrow>
      (case bi_image inp of
         Some im \<Rightarrow> bytes = materialize im
       | None \<Rightarrow>
           length bytes = bi_elementCount inp * bi_elementStride inp \<and>
           (if bi_bytes inp \<noteq> [] then bytes = bi_bytes inp
            else \<forall>i < length bytes. bytes ! i =
                  (case Option.bind (bi_previous inp) materialize_cpu_image of
                     None \<Rightarrow> 0
                   | Some old \<Rightarrow> if i < length old then old ! i else 0))))"
proof (intro conjI allI impI)
  show "(\<exists>bytes. replay_versioned_buffer inp = Inr bytes) \<longleftrightarrow> replayable inp" by (rule replay_iff)
  fix bytes assume r: "replay_versioned_buffer inp = Inr bytes"
  note b = replay_bytes [OF r]
  have "replayable inp" using r replay_iff by blast
  then have "length (bi_bytes inp) = bi_elementCount inp * bi_elementStride inp" if "bi_image inp = None" "bi_bytes inp \<noteq> []"
    using that by (simp add: replayable_def Let_def)
  then show "case bi_image inp of
         Some im \<Rightarrow> bytes = materialize im
       | None \<Rightarrow>
           length bytes = bi_elementCount inp * bi_elementStride inp \<and>
           (if bi_bytes inp \<noteq> [] then bytes = bi_bytes inp
            else \<forall>i < length bytes. bytes ! i =
                  (case Option.bind (bi_previous inp) materialize_cpu_image of
                     None \<Rightarrow> 0
                   | Some old \<Rightarrow> if i < length old then old ! i else 0))"
    unfolding b by (auto simp: nth_blit length_blit split: option.split)
qed

end
