(* ===== verification/BuildDemo.thy ===== *)
theory BuildDemo
  imports BuildClaims
begin

text \<open>
  Builds of an example pool: a first version, a first version whose upload is refused, a version
  on its predecessor. Each build theorem is applied to one of them.
\<close>

section \<open>An example pool\<close>

definition demo_pages :: "byte list list" where
  "demo_pages = [[1, 2, 3, 4, 5, 6, 7, 8]]"

definition demo_image :: buffer_image where
  "demo_image = from_pages (map Some demo_pages) 8"

definition demo_input :: build_input where
  "demo_input =
     \<lparr>bi_uploadService = True, bi_debugName = [], bi_writeSequence = 9, bi_elementStride = 8, bi_elementCount = 1,
      bi_capacity = 4, bi_flags = no_flags, bi_gpuWritten = False, bi_tag = None, bi_previous = None, bi_hasPool = True,
      bi_writes = [], bi_image = Some demo_image, bi_journalBaseSequence = 0, bi_bytes = [], bi_predecessorCopy = False,
      bi_changedSince = None, bi_emitDelta = None, bi_growth = None, bi_shrink = never\<rparr>"

definition demo_context :: build_context where
  "demo_context = \<lparr>bc_revision = 3, bc_stop = (\<lambda>_. False), bc_allocateSuspension = Some 1, bc_notifySuspension = Some 5\<rparr>"

text \<open>An upload service that takes its first \<open>n\<close> calls.\<close>

definition demo_env :: "nat \<Rightarrow> build_env" where
  "demo_env n = \<lparr>be_alloc = demo_alloc, be_racing = (no_race, no_race), be_now = 0,
     be_serve = (\<lambda>calls call. if length calls < n then Some (length calls) else None)\<rparr>"

lemma demo_class: "choose_class demo_input 0 = Inr \<lparr>cc_mode = Replace, cc_capacityClass = 4, cc_window = empty_window, cc_shrunk = False\<rparr>"
  by (simp add: choose_class_def demo_input_def copy_growth_def replacement_capacity_def Let_def bit_ceil_def bit_ceil_from.simps
      reset_window_def empty_window_def)

lemma demo_acquire:
  "acquire (be_alloc (demo_env n)) (be_racing (demo_env n)) (build_request demo_input 4) (of_nat 9) (demo_start False) =
     (demo_leased False 0, Inr (Some 0, no_info\<lparr>ai_allocated := True\<rparr>))"
proof -
  have "build_request demo_input 4 = demo_rq" by (simp add: build_request_def demo_input_def demo_rq_def)
  then show ?thesis using demo_made [of False] by (simp add: demo_env_def demo_ask_def)
qed

lemma demo_backing_is: "pl_heap (fst (demo_leased False 0)) 0 = demo_backing\<lparr>bk_leases := 1\<rparr>"
  by (simp add: demo_leased_def demo_pool_def demo_backing_def blank_backing_def)

lemmas build_eval = demo_pages_def demo_image_def from_pages_def gather_segments.simps dirty_ranges_def journal_covers_def
  no_info_def demo_backing_def blank_backing_def page_bytes_def Let_def piece_def demo_env_def demo_context_def needs_content_def
  build_image_def u64_def

lemma demo_uploads:
  "upload_ranges (demo_env n) (im_pages demo_image) 0 (bk_retired (demo_backing\<lparr>bk_leases := 1\<rparr>))
     (dirty_ranges demo_input demo_image True (demo_backing\<lparr>bk_leases := 1\<rparr>)) [] [] =
   Some (if n = 0 then ([], Inl ''versioned buffer streaming upload enqueue failed'') else ([UploadSegments demo_pages 8 0 0], Inr [0]))"
  by (simp add: build_eval)

lemma demo_build:
  "build demo_input demo_context (demo_env n) (demo_start False) =
     Some (if n = 0
       then (let_lease_go 0 (failed ''versioned buffer streaming upload enqueue failed'') (in_backing 0 forget (demo_leased False 0)), [])
       else (publish_built demo_input demo_context
          \<lparr>cc_mode = Replace, cc_capacityClass = 4, cc_window = empty_window, cc_shrunk = False\<rparr> 0 0 (Some demo_image) [0]
          (in_backing 0 forget (demo_leased False 0)), [UploadSegments demo_pages 8 0 0]))"
proof -
  have i: "bi_uploadService demo_input" "bi_elementStride demo_input \<noteq> 0" "bi_hasPool demo_input" "bi_writeSequence demo_input = 9"
    "be_now (demo_env n) = 0" "\<not> bc_stop demo_context k" "build_image demo_input = Inr (Some demo_image)" "needs_content demo_input"
    "im_byteSize demo_image = 8" "u64 (bi_elementCount demo_input * bi_elementStride demo_input) = 8" for k
    by (simp_all add: demo_input_def demo_context_def demo_env_def build_image_def needs_content_def demo_image_def from_pages_def u64_def no_flags_def)
  have b: "bk_byteCapacity demo_backing = 32" "bk_buffer demo_backing = Some 0"
    by (simp_all add: demo_backing_def blank_backing_def)
  have l: "build_leased demo_input demo_context (demo_env n) \<lparr>cc_mode = Replace, cc_capacityClass = 4, cc_window = empty_window, cc_shrunk = False\<rparr>
      0 (no_info\<lparr>ai_allocated := True\<rparr>) (demo_leased False 0) =
     Some (if n = 0
       then (let_lease_go 0 (failed ''versioned buffer streaming upload enqueue failed'') (in_backing 0 forget (demo_leased False 0)), [])
       else (publish_built demo_input demo_context
          \<lparr>cc_mode = Replace, cc_capacityClass = 4, cc_window = empty_window, cc_shrunk = False\<rparr> 0 0 (Some demo_image) [0]
          (in_backing 0 forget (demo_leased False 0)), [UploadSegments demo_pages 8 0 0]))"
    using demo_uploads [of n] unfolding build_leased_def Let_def demo_backing_is
    by (simp add: i b)
  show ?thesis unfolding build_def using i demo_class demo_acquire [of n] l by simp
qed


lemma demo_start_ok: "state_ok (demo_start False)"
  by (rule pool_reachable_ok [OF demo_start_reachable])

subsection \<open>A backing that holds earlier contents\<close>

text \<open>The pool once its backing was filled at some epoch, and once it was returned: it is free, with its contents.\<close>

definition demo_filled :: "u64 \<Rightarrow> buffer_image option \<Rightarrow> pool_state" where
  "demo_filled epoch img = (demo_pool False demo_home (demo_backing\<lparr>bk_leases := 1, bk_contentEpoch := epoch, bk_image := img\<rparr>) [], new_clock)"

definition demo_held :: "u64 \<Rightarrow> buffer_image option \<Rightarrow> pool_state" where
  "demo_held epoch img = (demo_pool False (demo_home\<lparr>hm_free := 1, hm_returned := [0], hm_events := 1\<rparr>)
     (demo_backing\<lparr>bk_contentEpoch := epoch, bk_image := img\<rparr>) [], new_clock)"

lemma demo_held_reachable: "pool_reachable (demo_held epoch img)"
proof -
  have l: "bk_leases (pl_heap (fst (demo_leased False 0)) 0) = 1" by (rule demo_leased_lease)
  have f: "(upd_backing 0 (\<lambda>b. b\<lparr>bk_contentEpoch := epoch, bk_sealedBytes := 0, bk_image := img\<rparr>) (fst (demo_leased False 0)),
      snd (demo_leased False 0)) = demo_filled epoch img"
    by (simp add: pool_eval demo_filled_def)
  have "other_step (demo_leased False 0) 0 (demo_filled epoch img)"
    using other_step.fill [where pl = "fst (demo_leased False 0)" and p = 0 and ck = "snd (demo_leased False 0)" and epoch = epoch and sealed = 0 and img = img] l f by simp
  then have filled: "pool_reachable (demo_filled epoch img)"
    using pool_reachable.step [OF demo_leased_reachable [of False]] pool_step.other by blast
  have m: "bk_leases (pl_heap (fst (demo_filled epoch img)) 0) = 1" by (simp add: demo_filled_def demo_pool_def)
  have r: "(lease_reset (Some 0) (fst (demo_filled epoch img)), snd (demo_filled epoch img)) = demo_held epoch img"
    by (simp add: pool_eval demo_filled_def demo_held_def)
  have "other_step (demo_filled epoch img) 1 (demo_held epoch img)"
    using other_step.reset [of "fst (demo_filled epoch img)" 0 "snd (demo_filled epoch img)"] m r by simp
  then show ?thesis using pool_reachable.step [OF filled] pool_step.other by blast
qed

lemma demo_held_ok: "state_ok (demo_held epoch img)"
  by (rule pool_reachable_ok [OF demo_held_reachable])

lemma demo_held_eval: "pl_next (fst (demo_held epoch img)) = 1"
  "pl_heap (fst (demo_held epoch img)) 0 = demo_backing\<lparr>bk_contentEpoch := epoch, bk_image := img\<rparr>"
  by (simp_all add: demo_held_def demo_pool_def)

text \<open>An acquire takes that backing, whatever it holds, and the build sees what it holds.\<close>

lemma demo_held_acquire:
  obtains st where "acquire demo_alloc (no_race, no_race) demo_rq prefer (demo_held epoch img) = (st, Inr (Some 0, no_info))"
    and "pl_heap (fst st) 0 = demo_backing\<lparr>bk_leases := 1, bk_contentEpoch := epoch, bk_image := img\<rparr>"
  by (simp add: pool_eval demo_held_def)

subsection \<open>A version on the backing's earlier contents\<close>

text \<open>Four rows, of which the second was written at sequence 2: the backing holds the contents of sequence 1.\<close>

definition demo_old :: "byte list" where
  "demo_old = replicate 32 1"

definition demo_new :: "byte list" where
  "demo_new = replicate 8 1 @ replicate 8 2 @ replicate 16 1"

definition image_of :: "byte list \<Rightarrow> buffer_image" where
  "image_of bytes = from_pages (map Some [bytes]) 32"

definition demo_catch_up :: build_input where
  "demo_catch_up = demo_input\<lparr>bi_writeSequence := 2, bi_elementCount := 4, bi_image := Some (image_of demo_new),
     bi_writes := [\<lparr>bw_sequence = 2, bw_byteOffset = 8, bw_byteSize = 8\<rparr>]\<rparr>"

definition demo_range_calls :: "gpu_call list" where
  "demo_range_calls = [UploadSegments [replicate 8 2] 8 0 8]"

abbreviation demo_replace :: class_choice where
  "demo_replace \<equiv> \<lparr>cc_mode = Replace, cc_capacityClass = 4, cc_window = empty_window, cc_shrunk = False\<rparr>"

lemma demo_paged: "length bytes = 32 \<Longrightarrow> paged 32 [bytes]"
  by (simp add: paged_def page_bytes_def page_count_def)

lemma demo_materialize: "length bytes = 32 \<Longrightarrow> materialize (image_of bytes) = bytes"
  using materialize_pages [OF paged_concat_length [OF demo_paged]] by (simp add: image_of_def from_pages_def)

lemma demo_lengths [simp]: "length demo_old = 32" "length demo_new = 32"
  by (simp_all add: demo_old_def demo_new_def)

lemma demo_range_uploads:
  "upload_ranges (demo_env 1) (im_pages (image_of demo_new)) 0 False
     (dirty_ranges demo_catch_up (image_of demo_new) False (demo_backing\<lparr>bk_leases := 1, bk_contentEpoch := 1, bk_image := Some (image_of demo_old)\<rparr>)) [] [] =
   Some (demo_range_calls, Inr [0])"
proof -
  let ?b = "demo_backing\<lparr>bk_leases := 1, bk_contentEpoch := 1, bk_image := Some (image_of demo_old)\<rparr>"
  have d: "dirty_ranges demo_catch_up (image_of demo_new) False ?b = [\<lparr>br_offset = 8, br_size = 8\<rparr>]"
    by (simp add: dirty_ranges_def journal_covers_def catch_up_ranges_def demo_catch_up_def demo_input_def image_of_def from_pages_def Let_def)
  have p: "piece 8 8 demo_new = replicate 8 2" by (simp add: piece_def demo_new_def)
  have g: "gather_segments (im_pages (image_of demo_new)) 8 8 = Some ([replicate 8 2], 0)"
    by (simp add: gather_segments.simps image_of_def from_pages_def page_bytes_def Let_def p)
  show ?thesis unfolding d
    by (simp add: g demo_env_def demo_range_calls_def Let_def)
qed

lemma demo_catch_up_build:
  obtains st where "build demo_catch_up demo_context (demo_env 1) (demo_held 1 (Some (image_of demo_old))) =
     Some (publish_built demo_catch_up demo_context demo_replace 0 0 (Some (image_of demo_new)) [0] (in_backing 0 forget st), demo_range_calls)"
proof -
  have i: "bi_uploadService demo_catch_up" "bi_elementStride demo_catch_up \<noteq> 0" "bi_hasPool demo_catch_up" "bi_writeSequence demo_catch_up = 2"
    "be_now (demo_env 1) = 0" "\<not> bc_stop demo_context k" "build_image demo_catch_up = Inr (Some (image_of demo_new))" "needs_content demo_catch_up"
    "im_byteSize (image_of demo_new) = 32" "u64 (bi_elementCount demo_catch_up * bi_elementStride demo_catch_up) = 32" for k
    by (simp_all add: demo_catch_up_def demo_input_def demo_context_def demo_env_def build_image_def needs_content_def image_of_def
        from_pages_def u64_def no_flags_def)
  have c: "choose_class demo_catch_up 0 = Inr demo_replace"
    by (simp add: choose_class_def demo_catch_up_def demo_input_def copy_growth_def replacement_capacity_def Let_def bit_ceil_def bit_ceil_from.simps
        reset_window_def empty_window_def)
  have rq: "build_request demo_catch_up 4 = demo_rq" by (simp add: build_request_def demo_catch_up_def demo_input_def demo_rq_def)
  obtain st where a: "acquire demo_alloc (no_race, no_race) demo_rq 2 (demo_held 1 (Some (image_of demo_old))) = (st, Inr (Some 0, no_info))"
    and h: "pl_heap (fst st) 0 = demo_backing\<lparr>bk_leases := 1, bk_contentEpoch := 1, bk_image := Some (image_of demo_old)\<rparr>"
    by (rule demo_held_acquire)
  have b: "bk_byteCapacity demo_backing = 32" "bk_buffer demo_backing = Some 0" "\<not> bk_retired demo_backing" "\<not> ai_allocated no_info"
    by (simp_all add: demo_backing_def blank_backing_def no_info_def)
  have l: "build_leased demo_catch_up demo_context (demo_env 1) demo_replace 0 no_info st =
      Some (publish_built demo_catch_up demo_context demo_replace 0 0 (Some (image_of demo_new)) [0] (in_backing 0 forget st), demo_range_calls)"
    using demo_range_uploads unfolding build_leased_def Let_def h by (simp add: i b)
  have e: "be_alloc (demo_env 1) = demo_alloc" "be_racing (demo_env 1) = (no_race, no_race)" by (simp_all add: demo_env_def)
  have "build demo_catch_up demo_context (demo_env 1) (demo_held 1 (Some (image_of demo_old))) =
     Some (publish_built demo_catch_up demo_context demo_replace 0 0 (Some (image_of demo_new)) [0] (in_backing 0 forget st), demo_range_calls)"
    unfolding build_def using i c rq a l e by simp
  then show ?thesis by (rule that)
qed

lemma demo_publish:
  obtains st' out v where "publish_built inp demo_context choice 0 0 img [0] st = (st', out)"
    and "bo_kind out = Ready" and "bo_version out = Some v" and "pv_lease v = Some 0" and "pv_resource v = Some 0"
  by (simp add: publish_built_def Let_def made_version_def blank_version_def blank_outcome_def)

text \<open>The memory: the buffer of the backing holds the old contents, and two bytes more.\<close>

definition demo_memory :: "nat \<Rightarrow> byte list" where
  "demo_memory = (\<lambda>_. demo_old @ [5, 6])"

lemma demo_held_contents:
  assumes "demo_held 1 (Some (image_of demo_old)) = (pl, ck)" and "q < pl_next pl"
  shows "truthful demo_memory (pl_heap pl q)" and "catches_up demo_catch_up (image_of demo_new) (pl_heap pl q)"
proof -
  have pl: "pl = fst (demo_held 1 (Some (image_of demo_old)))" using assms(1) by simp
  have b: "pl_heap pl q = demo_backing\<lparr>bk_contentEpoch := 1, bk_image := Some (image_of demo_old)\<rparr>" "bk_buffer demo_backing = Some 0"
    using assms(2) demo_held_eval [of 1 "Some (image_of demo_old)"] unfolding pl
    by (simp_all add: demo_backing_def blank_backing_def)
  have sz: "im_byteSize (image_of bytes) = 32" for bytes by (simp add: image_of_def from_pages_def)
  show "truthful demo_memory (pl_heap pl q)" by (simp add: truthful_def b demo_memory_def demo_materialize sz)
  have "demo_old ! i = demo_new ! i" if "i < 32" "\<not> (8 \<le> i \<and> i < 16)" for i
    using that by (auto simp: demo_old_def demo_new_def nth_append)
  then show "catches_up demo_catch_up (image_of demo_new) (pl_heap pl q)"
    by (auto simp: catches_up_def b demo_catch_up_def demo_materialize sz)
qed

theorem build_uploads_image_witness:
  "\<exists>st' out. build demo_catch_up demo_context (demo_env 1) (demo_held 1 (Some (image_of demo_old))) = Some ((st', out), demo_range_calls) \<and>
     bo_kind out = Ready \<and> exec_calls demo_range_calls demo_memory 0 = demo_new @ [5, 6] \<and>
     bk_contentEpoch (pl_heap (fst st') 0) = 2"
proof -
  obtain st where b0: "build demo_catch_up demo_context (demo_env 1) (demo_held 1 (Some (image_of demo_old))) =
     Some (publish_built demo_catch_up demo_context demo_replace 0 0 (Some (image_of demo_new)) [0] (in_backing 0 forget st), demo_range_calls)"
    by (rule demo_catch_up_build)
  obtain st' out v where p: "publish_built demo_catch_up demo_context demo_replace 0 0 (Some (image_of demo_new)) [0] (in_backing 0 forget st) = (st', out)"
    "bo_kind out = Ready" "bo_version out = Some v" "pv_lease v = Some 0" "pv_resource v = Some 0"
    by (rule demo_publish)
  have b: "build demo_catch_up demo_context (demo_env 1) (demo_held 1 (Some (image_of demo_old))) = Some ((st', out), demo_range_calls)"
    using b0 p(1) by simp
  obtain pl ck where s: "demo_held 1 (Some (image_of demo_old)) = (pl, ck)" by (cases "demo_held 1 (Some (image_of demo_old))")
  have i: "needs_content demo_catch_up" "bi_image demo_catch_up = Some (image_of demo_new)" "bi_writeSequence demo_catch_up = 2"
    by (simp_all add: needs_content_def demo_catch_up_def demo_input_def no_flags_def)
  have room: "32 \<le> length (demo_memory 0)" by (simp add: demo_memory_def)
  have held: "\<forall>q < pl_next pl. truthful demo_memory (pl_heap pl q) \<and> catches_up demo_catch_up (image_of demo_new) (pl_heap pl q)"
    using demo_held_contents [OF s] by blast
  have ok: "state_ok (pl, ck)" using demo_held_ok s by metis
  note t = build_uploads_image [OF ok b [unfolded s] p(2-5) i(1,2) image_of_def demo_paged room held]
  then have "exec_calls demo_range_calls demo_memory 0 = demo_new @ drop 32 (demo_memory 0)" by (simp add: demo_materialize)
  with b p(2) t show ?thesis by (simp add: i(3) demo_memory_def)
qed

text \<open>The build allocates a backing, leases it and fails: the backing is there, free.\<close>

theorem build_failure_safe_witness:
  "\<exists>st' out. build_versioned_buffer demo_input demo_context (demo_env 0) (demo_start False) = Some ((st', out), []) \<and>
     bo_kind out = Failed \<and> bo_version out = None \<and> pl_next (fst st') = 1 \<and> bk_leases (pl_heap (fst st') 0) = 0"
proof -
  obtain pl ck where st: "demo_start False = (pl, ck)" by (cases "demo_start False")
  obtain st' out where b: "build_versioned_buffer demo_input demo_context (demo_env 0) (pl, ck) = Some ((st', out), [])"
    and k: "bo_kind out = Failed" and n: "pl_next (fst st') = 1"
    using demo_build [of 0] st
    by (simp add: build_versioned_buffer_def demo_input_def let_lease_go_def in_backing_def upd_backing_def lease_reset_def upd_home_def
        demo_leased_def demo_pool_def Let_def)
  have "\<not> 0 < pl_next pl" using st by (auto simp: demo_start_def new_pool_def)
  moreover have "bo_kind out \<noteq> Ready" using k by simp
  ultimately show ?thesis using build_failure_safe [OF demo_start_ok [unfolded st] b] b k n st by auto
qed

theorem class_holds_rows_witness:
  "bi_capacity demo_input \<le> cc_capacityClass \<lparr>cc_mode = Replace, cc_capacityClass = 4, cc_window = empty_window, cc_shrunk = False\<rparr>"
  using class_holds_rows [OF demo_class] by (simp add: demo_input_def u64_max_def)

theorem replay_accepts_witness:
  "replay_versioned_buffer (demo_input\<lparr>bi_image := None, bi_bytes := [7, 7, 7, 7, 7, 7, 7, 7]\<rparr>) = Inr [7, 7, 7, 7, 7, 7, 7, 7]"
proof -
  let ?inp = "demo_input\<lparr>bi_image := None, bi_bytes := [7, 7, 7, 7, 7, 7, 7, 7]\<rparr>"
  have "replayable ?inp" by (simp add: replayable_def demo_input_def u64_max_def u32_max_def)
  with replay_accepts [of ?inp] obtain bytes where r: "replay_versioned_buffer ?inp = Inr bytes" by blast
  from replay_accepts [of ?inp] r show ?thesis by (auto simp: demo_input_def)
qed


subsection \<open>A version on its predecessor\<close>

definition demo_previous :: published_version where
  "demo_previous = blank_version\<lparr>pv_writeSequence := 9, pv_elementCount := 1, pv_capacity := 4, pv_elementStride := 8,
     pv_resource := Some 7\<rparr>"

definition demo_delta :: "delta_call list" where
  "demo_delta = [\<lparr>dc_data = Some [9, 9], dc_bytes = 2, dc_offset = 2\<rparr>, \<lparr>dc_data = Some [5], dc_bytes = 1, dc_offset = 3\<rparr>]"

definition demo_changed :: "nat \<Rightarrow> byte_range list option" where
  "demo_changed held = (if held = 8 then Some [\<lparr>br_offset = 6, br_size = 2\<rparr>] else None)"

text \<open>The backing holds what the predecessor was at sequence 8; two bytes changed to sequence 9.\<close>

definition demo_copy :: build_input where
  "demo_copy = demo_input\<lparr>bi_writeSequence := 10, bi_previous := Some demo_previous, bi_image := None,
     bi_predecessorCopy := True, bi_changedSince := Some demo_changed, bi_emitDelta := Some demo_delta\<rparr>"

abbreviation demo_patch :: class_choice where
  "demo_patch \<equiv> \<lparr>cc_mode = Patch, cc_capacityClass = 4, cc_window = empty_window, cc_shrunk = False\<rparr>"

definition demo_calls :: "gpu_call list" where
  "demo_calls = [CopyRanges 7 [(6, 8)] 0, UploadRanges [(2, [9]), (3, [5])] 0]"

lemma demo_copy_class: "choose_class demo_copy 0 = Inr demo_patch"
  by (simp add: choose_class_def demo_copy_def demo_input_def demo_previous_def blank_version_def Let_def observe_def never_def
      shrinks_def)

lemma demo_resolved: "resolve_delta (delta_writes 8 demo_delta) = ([(2, [9]), (3, [5])], [(2, 4)])"
  by (simp add: demo_delta_def delta_writes_def delta_fits_def resolve_delta_def interval_gaps_def add_interval_def cut_piece_def
      piece_def)


lemma demo_missing: "missing_bytes demo_copy demo_previous 8 False (demo_backing\<lparr>bk_leases := n, bk_contentEpoch := 8, bk_image := None\<rparr>) = ([(6, 8)], False)"
  by (simp add: missing_bytes_def Let_def add_interval_def demo_previous_def blank_version_def demo_copy_def demo_changed_def clip_range_def
      demo_backing_def)

lemma demo_copies: "copies_of [(6, 8)] [(2, 4)] = [(6, 8)]"
  by (simp add: copies_of_def interval_gaps_def)

lemma demo_batch: "queue_batch (demo_env 2) (Some 7) 0 [(6, 8)] [(2, [9]), (3, [5])] = (demo_calls, Inr [0, 1])"
  by (simp add: queue_batch_def demo_env_def demo_calls_def)

lemma demo_predecessor:
  obtains st' out v where "build_from_predecessor demo_copy demo_context (demo_env 2) (demo_held 8 None) = ((st', out), demo_calls)"
    and "bo_kind out = Ready" and "bo_version out = Some v" and "pv_resource v = Some 0" and "pv_copiedBytes v = 2"
proof -
  have i: "bi_uploadService demo_copy" "bi_elementStride demo_copy = 8" "bi_hasPool demo_copy" "bi_elementCount demo_copy = 1"
    "\<not> bi_gpuWritten demo_copy" "bi_capacity demo_copy = 4" "be_now (demo_env 2) = 0" "bi_emitDelta demo_copy = Some demo_delta"
    "bi_previous demo_copy = Some demo_previous" "pv_resource demo_previous = Some 7" "pv_elementStride demo_previous = 8"
    "pv_elementCount demo_previous = 1" "pv_writeSequence demo_previous = 9" "\<not> bc_stop demo_context k" for k
    by (simp_all add: demo_copy_def demo_input_def demo_env_def demo_context_def demo_previous_def blank_version_def)
  have b: "bk_byteCapacity demo_backing = 32" "bk_buffer demo_backing = Some 0" "\<not> bk_retired demo_backing"
    "list_all (delta_fits 8) demo_delta" "u64 8 = 8" "ai_writeAfter no_info = 0" "\<not> ai_allocated no_info"
    by (simp_all add: demo_backing_def blank_backing_def demo_delta_def delta_fits_def u64_def no_info_def)
  have rq: "build_request demo_copy 4 = demo_rq" by (simp add: build_request_def demo_copy_def demo_input_def demo_rq_def)
  obtain st where a: "acquire demo_alloc (no_race, no_race) demo_rq 9 (demo_held 8 None) = (st, Inr (Some 0, no_info))"
    and h: "pl_heap (fst st) 0 = demo_backing\<lparr>bk_leases := 1, bk_contentEpoch := 8, bk_image := None\<rparr>"
    by (rule demo_held_acquire)
  have e: "be_alloc (demo_env 2) = demo_alloc" "be_racing (demo_env 2) = (no_race, no_race)" by (simp_all add: demo_env_def)
  have u: "fst (resolve_delta (delta_writes 8 demo_delta)) = [(2, [9]), (3, [5])]" "snd (resolve_delta (delta_writes 8 demo_delta)) = [(2, 4)]"
    by (simp_all add: demo_resolved)
  obtain st' out v where c: "copy_leased demo_copy demo_context (demo_env 2) demo_patch demo_delta 0 no_info st = ((st', out), demo_calls)"
    "bo_kind out = Ready" "bo_version out = Some v" "pv_resource v = Some 0" "pv_copiedBytes v = 2"
    unfolding copy_leased_def Let_def h
    by (simp add: i b u demo_missing demo_copies demo_batch made_version_def blank_version_def blank_outcome_def)
  have "build_from_predecessor demo_copy demo_context (demo_env 2) (demo_held 8 None) = ((st', out), demo_calls)"
    unfolding build_from_predecessor_def using i demo_copy_class rq a e c(1) by (simp add: u64_max_def)
  then show ?thesis using c(2-5) by (rule that)
qed

text \<open>Buffer 7 is the predecessor's; the reused backing's buffer 0 lacks its last two bytes.\<close>

definition demo_buffers :: "nat \<Rightarrow> byte list" where
  "demo_buffers = (\<lambda>b. if b = 7 then replicate 32 1 else replicate 6 1 @ replicate 26 0)"

lemma demo_buffers_differ: "i < 8 \<Longrightarrow> demo_buffers 0 ! i \<noteq> demo_buffers 7 ! i \<Longrightarrow> 6 \<le> i"
  by (auto simp: demo_buffers_def nth_append split: if_splits)

theorem predecessor_patched_witness:
  "\<exists>st' out. build_from_predecessor demo_copy demo_context (demo_env 2) (demo_held 8 None) = ((st', out), demo_calls) \<and>
     bo_kind out = Ready \<and>
     (\<exists>m'. exec_calls demo_calls demo_buffers 0 = m' \<and> m' ! 0 = 1 \<and> m' ! 2 = 9 \<and> m' ! 3 = 5 \<and> m' ! 6 = 1 \<and> m' ! 9 = 0)"
proof -
  obtain st' out v where p: "build_from_predecessor demo_copy demo_context (demo_env 2) (demo_held 8 None) = ((st', out), demo_calls)"
    "bo_kind out = Ready" "bo_version out = Some v" "pv_resource v = Some 0" "pv_copiedBytes v = 2"
    by (rule demo_predecessor)
  obtain pl ck where st: "demo_held 8 None = (pl, ck)" by (cases "demo_held 8 None")
  have pl: "pl = fst (demo_held 8 None)" using st by simp
  have i: "bi_emitDelta demo_copy = Some demo_delta" "bi_previous demo_copy = Some demo_previous" "pv_resource demo_previous = Some 7"
    "bi_elementCount demo_copy * bi_elementStride demo_copy \<le> length (demo_buffers 0)" "copy_limit demo_copy = 8"
    "bi_elementCount demo_copy * bi_elementStride demo_copy = 8"
    by (simp_all add: demo_copy_def demo_input_def demo_previous_def blank_version_def demo_buffers_def copy_limit_def u64_def)
  have room: "copy_limit demo_copy \<le> length (demo_buffers 7)" by (simp add: i demo_buffers_def)
  have one: "pl_next pl = 1" "pl_heap pl 0 = demo_backing\<lparr>bk_contentEpoch := 8, bk_image := None\<rparr>"
    using demo_held_eval [of 8 None] by (simp_all add: pl)
  have "holds_predecessor demo_copy demo_previous (demo_buffers 7) (demo_buffers 0) 8 (demo_backing\<lparr>bk_contentEpoch := 8, bk_image := None\<rparr>)"
    using demo_buffers_differ
    by (auto simp: holds_predecessor_def demo_copy_def demo_previous_def blank_version_def demo_changed_def in_range_def Let_def)
  then have held: "\<forall>q < pl_next pl. bk_buffer (pl_heap pl q) = Some 0 \<longrightarrow>
      holds_predecessor demo_copy demo_previous (demo_buffers 7) (demo_buffers 0) (copy_limit demo_copy) (pl_heap pl q)"
    by (simp add: one i(5))
  have ok: "state_ok (pl, ck)" using demo_held_ok st by metis
  from predecessor_patched [OF ok p(1) [unfolded st] p(2-4) i(1-4) room held]
  obtain m' where m': "exec_calls demo_calls demo_buffers = demo_buffers(0 := m')" "length m' = 32"
    "\<forall>i < length m'. m' ! i = (case written (rev (delta_writes 8 demo_delta)) i of
        Some byte \<Rightarrow> byte | None \<Rightarrow> if i < 8 then demo_buffers 7 ! i else demo_buffers 0 ! i)"
    unfolding i(5,6) by (auto simp: demo_buffers_def)
  have w: "delta_writes 8 demo_delta = [(2, [9, 9]), (3, [5])]" by (simp add: demo_delta_def delta_writes_def delta_fits_def)
  have "m' ! 0 = 1 \<and> m' ! 2 = 9 \<and> m' ! 3 = 5 \<and> m' ! 6 = 1 \<and> m' ! 9 = 0"
    using m'(2,3) by (simp add: w touches_def demo_buffers_def nth_append)
  with p(1,2) m'(1) show ?thesis by auto
qed

end
