(* ===== verification/VersionGrowth.thy ===== *)
theory VersionGrowth
  imports Build
begin

text \<open>
  \<^verbatim>\<open>include/ORGModuleServices/VersionFill.h\<close>, \<^verbatim>\<open>GrowableBufferTypes.h\<close> (extents and requirements) and
  \<^verbatim>\<open>src/VersionedBufferGrowth.cpp\<close>: a growth leases a backing for each request, makes it the
  buffer's next version (which owns a lease of its own) and queues its fills. The versioned
  buffers and the upload service are not under src: \<open>ge_get\<close> and \<open>ge_size\<close> are what a buffer
  answers, \<open>ge_serve\<close> whether the service takes a call. A version is named by the number of its
  allocation. A throw is \<open>Inl\<close>, in the state that the unwinding leaves.
\<close>

section \<open>Sizes\<close>

record buffer_extent =
  be_fixedBytes :: nat
  be_unitBytes :: nat
  be_structuredStride :: nat

definition bytes_for :: "buffer_extent \<Rightarrow> nat \<Rightarrow> nat" where
  "bytes_for x units = u64 (be_fixedBytes x + units * be_unitBytes x)"

definition units_in :: "buffer_extent \<Rightarrow> nat \<Rightarrow> nat" where
  "units_in x bytes =
     (if be_unitBytes x \<noteq> 0 \<and> bytes > be_fixedBytes x then (bytes - be_fixedBytes x) div be_unitBytes x else 0)"

definition elements_for :: "buffer_extent \<Rightarrow> nat \<Rightarrow> nat" where
  "elements_for x units =
     (if be_structuredStride x \<noteq> 0
      then u64 (bytes_for x units + (be_structuredStride x - 1)) div be_structuredStride x else 0)"

definition capacity_class_for :: "buffer_extent \<Rightarrow> nat \<Rightarrow> nat" where
  "capacity_class_for x units = (if be_structuredStride x \<noteq> 0 then elements_for x units else bytes_for x units)"

record requirement =
  rq_units :: nat
  rq_newerThan :: nat

definition merge_requirement :: "requirement \<Rightarrow> requirement \<Rightarrow> requirement" where
  "merge_requirement r other =
     \<lparr>rq_units = (if rq_units r > rq_units other then rq_units r else rq_units other),
      rq_newerThan = (if rq_newerThan r > rq_newerThan other then rq_newerThan r else rq_newerThan other)\<rparr>"

definition met_by :: "requirement \<Rightarrow> nat \<Rightarrow> nat \<Rightarrow> bool" where
  "met_by r heldUnits serial \<longleftrightarrow> heldUnits \<ge> rq_units r \<and> serial > rq_newerThan r"

definition grow_to :: "requirement \<Rightarrow> growth_policy \<Rightarrow> nat \<Rightarrow> nat result" where
  "grow_to r policy heldUnits =
     (if heldUnits \<ge> rq_units r then Inr heldUnits else next_capacity policy heldUnits (rq_units r))"

section \<open>Fills\<close>

record version_fill =
  vf_offset :: nat
  vf_segments :: "byte list list"

definition zero_page_bytes :: nat where
  "zero_page_bytes = 64 * 1024"

function zero_segments :: "nat \<Rightarrow> nat \<Rightarrow> byte list list" where
  "zero_segments bytes pos =
     (if pos < bytes
      then replicate (min zero_page_bytes (bytes - pos)) 0 # zero_segments bytes (pos + zero_page_bytes)
      else [])"
  by pat_completeness auto
termination by (relation "measure (\<lambda>(bytes, pos). bytes - pos)") (auto simp: zero_page_bytes_def)

declare zero_segments.simps [simp del]

definition zero_fill :: "nat \<Rightarrow> version_fill" where
  "zero_fill bytes = \<lparr>vf_offset = 0, vf_segments = zero_segments bytes 0\<rparr>"

section \<open>Growths\<close>

record buffer_version =
  ve_number :: nat
  ve_buffer :: nat
  ve_pool :: nat
  ve_lease :: nat

record growth_request =
  gr_buffer :: "nat option"
  gr_elements :: nat
  gr_bytes :: nat
  gr_fills :: "version_fill list"
  gr_contentsOf :: "(buffer_version \<Rightarrow> (version_fill list \<times> nat option) result) option"
  gr_uploads :: bool
  gr_pool :: "nat option"
  gr_capacityClass :: nat
  gr_stride :: nat
  gr_flags :: backing_flags
  gr_compatibility :: nat
  gr_name :: string

record grown_version =
  gv_version :: buffer_version
  gv_lease :: nat
  gv_stamp :: "nat option"

record growth_env =
  ge_alloc :: "nat \<Rightarrow> nat \<Rightarrow> backing_request \<Rightarrow> backing_allocation result"
  ge_racing :: "nat \<Rightarrow> (nat \<Rightarrow> nat) \<times> (nat \<Rightarrow> nat)"
  ge_get :: "nat \<Rightarrow> nat option"
  ge_size :: "nat \<Rightarrow> nat"
  ge_serve :: "gpu_call list \<Rightarrow> gpu_call \<Rightarrow> nat option"

text \<open>The pools (each with its clock), the calls queued and the versions made so far.\<close>

record growth_state =
  go_pools :: "nat \<Rightarrow> pool_state"
  go_calls :: "gpu_call list"
  go_versions :: nat

definition in_pool :: "nat \<Rightarrow> (pool \<Rightarrow> pool) \<Rightarrow> growth_state \<Rightarrow> growth_state" where
  "in_pool i f st = st\<lparr>go_pools := (go_pools st)(i := (f (fst (go_pools st i)), snd (go_pools st i)))\<rparr>"

text \<open>The last reference to a version and its maker's copy of the lease go.\<close>

definition release_version :: "buffer_version \<Rightarrow> growth_state \<Rightarrow> growth_state" where
  "release_version v = in_pool (ve_pool v) (lease_reset (Some (ve_lease v)))"

definition drop_grown :: "grown_version \<Rightarrow> growth_state \<Rightarrow> growth_state" where
  "drop_grown g st =
     release_version (gv_version g) (in_pool (ve_pool (gv_version g)) (lease_reset (Some (gv_lease g))) st)"

fun queue_fills ::
  "growth_env \<Rightarrow> nat \<Rightarrow> nat \<Rightarrow> version_fill list \<Rightarrow> growth_state \<Rightarrow> nat list \<Rightarrow> growth_state \<times> nat list result" where
  "queue_fills env buffer room [] st tickets = (st, Inr tickets)"
| "queue_fills env buffer room (fill # fills) st tickets =
     (let bytes = sum_list (map length (vf_segments fill)) in
      if bytes = 0 then queue_fills env buffer room fills st tickets
      else if u64 (vf_offset fill + bytes) > room
      then (st, Inl (OutOfRange ''GrowVersion: a fill past the new version''))
      else
        let call = UploadSegments (vf_segments fill) bytes buffer (vf_offset fill) in
        case ge_serve env (go_calls st) call of
          None \<Rightarrow> (st, Inl (RuntimeError ''GrowVersion: the uploader refused a fill''))
        | Some ticket \<Rightarrow>
            queue_fills env buffer room fills (st\<lparr>go_calls := go_calls st @ [call]\<rparr>) (tickets @ [ticket]))"

definition growth_backing :: "growth_request \<Rightarrow> nat option \<Rightarrow> backing_request" where
  "growth_backing r like =
     \<lparr>rq_capacityClass = (if gr_capacityClass r \<noteq> 0 then gr_capacityClass r
        else if gr_elements r \<noteq> 0 then gr_elements r else gr_bytes r),
      rq_stride = gr_stride r, rq_flags = gr_flags r, rq_compatibility = gr_compatibility r, rq_name = gr_name r, rq_like = like\<rparr>"

text \<open>\<open>MakeAndFill\<close> once the backing is leased and has a buffer.\<close>

definition fill_version ::
  "growth_env \<Rightarrow> growth_request \<Rightarrow> nat \<Rightarrow> nat \<Rightarrow> nat \<Rightarrow> growth_state \<Rightarrow> nat list \<Rightarrow>
   growth_state \<times> (grown_version \<times> nat list) result" where
  "fill_version env r i p buffer st0 tickets =
     (let st = (in_pool i (lease_take p) st0)\<lparr>go_versions := go_versions st0 + 1\<rparr>;
          v = \<lparr>ve_number = go_versions st0, ve_buffer = buffer, ve_pool = i, ve_lease = p\<rparr>;
          out = \<lparr>gv_version = v, gv_lease = p, gv_stamp = None\<rparr>;
          contents = (case gr_contentsOf r of None \<Rightarrow> Inr (gr_fills r, None) | Some f \<Rightarrow> f v)
      in case contents of
           Inl e \<Rightarrow> (drop_grown out st, Inl e)
         | Inr (fills, stamp) \<Rightarrow>
             if fills = [] then (st, Inr (out\<lparr>gv_stamp := stamp\<rparr>, tickets))
             else if \<not> gr_uploads r
             then (drop_grown out st, Inl (InvalidArgument ''GrowVersion: contents without an upload service''))
             else case queue_fills env buffer (ge_size env buffer) fills st tickets of
                    (st1, Inl e) \<Rightarrow> (drop_grown out st1, Inl e)
                  | (st1, Inr tickets') \<Rightarrow> (st1, Inr (out\<lparr>gv_stamp := stamp\<rparr>, tickets')))"

definition make_and_fill ::
  "growth_env \<Rightarrow> growth_request \<Rightarrow> growth_state \<Rightarrow> nat list \<Rightarrow> growth_state \<times> (grown_version \<times> nat list) result" where
  "make_and_fill env r st tickets =
     (case (gr_buffer r, gr_pool r) of
        (None, _) \<Rightarrow> (st, Inl (InvalidArgument ''GrowVersion: no buffer''))
      | (Some b, None) \<Rightarrow> (st, Inl (InvalidArgument ''GrowVersion: has no pool''))
      | (Some b, Some i) \<Rightarrow>
          let backing = growth_backing r (ge_get env b) in
          if rq_capacityClass backing = 0
          then (st, Inl (InvalidArgument ''GrowVersion: asks for an empty version''))
          else if gr_elements r \<noteq> 0 \<and> gr_stride r = 0
          then (st, Inl (InvalidArgument ''GrowVersion: is structured without a stride''))
          else case acquire (ge_alloc env i) (ge_racing env i) backing (- 1) (go_pools st i) of
            (pst, acquired) \<Rightarrow>
              let st1 = st\<lparr>go_pools := (go_pools st)(i := pst)\<rparr>;
                  none = RuntimeError ''GrowVersion: no backing''
              in case acquired of
                   Inl e \<Rightarrow> (st1, Inl e)
                 | Inr (None, info) \<Rightarrow> (st1, Inl none)
                 | Inr (Some p, info) \<Rightarrow>
                     (case bk_buffer (pl_heap (fst pst) p) of
                        None \<Rightarrow> (in_pool i (lease_reset (Some p)) st1, Inl none)
                      | Some buffer \<Rightarrow> fill_version env r i p buffer st1 tickets))"

definition grow_version :: "growth_env \<Rightarrow> growth_request \<Rightarrow> growth_state \<Rightarrow> growth_state \<times> (grown_version \<times> nat list option) result" where
  "grow_version env r st =
     (case make_and_fill env r st [] of
        (st', Inl e) \<Rightarrow> (st', Inl e)
      | (st', Inr (g, tickets)) \<Rightarrow> (st', Inr (g, token_for_tickets (map Some tickets))))"

text \<open>The loop of \<open>GrowVersions\<close>: a throw lets go what the earlier requests made.\<close>

fun grow_loop ::
  "growth_env \<Rightarrow> growth_request list \<Rightarrow> growth_state \<Rightarrow> grown_version list \<Rightarrow> nat list \<Rightarrow>
   growth_state \<times> (grown_version list \<times> nat list) result" where
  "grow_loop env [] st made tickets = (st, Inr (made, tickets))"
| "grow_loop env (r # rs) st made tickets =
     (case make_and_fill env r st tickets of
        (st', Inl e) \<Rightarrow> (fold drop_grown made st', Inl e)
      | (st', Inr (g, tickets')) \<Rightarrow> grow_loop env rs st' (made @ [g]) tickets')"

definition grow_versions ::
  "growth_env \<Rightarrow> growth_request list \<Rightarrow> growth_state \<Rightarrow> growth_state \<times> (grown_version list \<times> nat list option) result" where
  "grow_versions env rs st =
     (case grow_loop env rs st [] [] of
        (st', Inl e) \<Rightarrow> (st', Inl e)
      | (st', Inr (made, tickets)) \<Rightarrow> (st', Inr (made, token_for_tickets (map Some tickets))))"

section \<open>A zero fill is the whole version\<close>

lemma zero_segments_concat: "concat (zero_segments bytes pos) = replicate (bytes - pos) 0"
proof (induction bytes pos rule: zero_segments.induct)
  case (1 bytes pos)
  show ?case
  proof (cases "pos < bytes")
    case True
    have "min zero_page_bytes (bytes - pos) + (bytes - (pos + zero_page_bytes)) = bytes - pos" by simp
    then show ?thesis using 1 True
      by (simp add: zero_segments.simps [of bytes pos] flip: replicate_add)
  next
    case False
    then show ?thesis by (simp add: zero_segments.simps [of bytes pos])
  qed
qed

lemma zero_segments_small: "s \<in> set (zero_segments bytes pos) \<Longrightarrow> 0 < length s \<and> length s \<le> zero_page_bytes"
proof (induction bytes pos rule: zero_segments.induct)
  case (1 bytes pos)
  have "0 < zero_page_bytes" by (simp add: zero_page_bytes_def)
  with 1 show ?case by (auto simp: zero_segments.simps [of bytes pos] split: if_split_asm)
qed

lemma sum_lengths: "sum_list (map length xs) = length (concat xs)"
  by (simp add: length_concat)

lemma zero_fill_runs:
  assumes "ge_serve env (go_calls st) (UploadSegments (zero_segments bytes 0) bytes buffer 0) = Some t" and "0 < bytes" and "bytes < 2 ^ 64"
  shows "queue_fills env buffer bytes [zero_fill bytes] st tickets =
    (st\<lparr>go_calls := go_calls st @ [UploadSegments (zero_segments bytes 0) bytes buffer 0]\<rparr>, Inr (tickets @ [t]))"
  using assms by (simp add: zero_fill_def sum_lengths zero_segments_concat u64_def)

section \<open>Leases\<close>

text \<open>The leases of every backing, as one table.\<close>

definition leases_of :: "growth_state \<Rightarrow> nat \<Rightarrow> nat \<Rightarrow> nat" where
  "leases_of st i p = bk_leases (pl_heap (fst (go_pools st i)) p)"

end
