(* ===== verification/GrowSet.thy ===== *)
theory GrowSet
  imports VersionGrowth
begin

text \<open>
  \<^verbatim>\<open>include/ORGModuleServices/GrowableBufferSet.h\<close> and \<^verbatim>\<open>src/GrowableBufferSet.cpp\<close>: growable
  buffers named by one sealed set. The producer's calls are functions on \<open>grow_set\<close>; registrations
  (any thread) push on \<open>gs_registered\<close>, and a growth's \<open>done\<close> (\<open>settle_batch\<close>) is a step between them.
  The host's objects are numbers: a versioned buffer, its key (an address), a buffer, a latch
  block. What the host answers is a \<open>grow_host\<close>. The process-wide serial sequence is the counter
  \<open>gs_serials\<close>, from which other sets take too (\<open>others_take\<close>). The clock's \<open>now\<close> is an argument.
\<close>

section \<open>Registrations\<close>

datatype growable_contents = Fresh | Zero | Capture

record growable_registration =
  gb_name :: string
  gb_buffer :: "nat option"
  gb_extent :: buffer_extent
  gb_policy :: growth_policy
  gb_shrink :: shrink_policy
  gb_contents :: growable_contents
  gb_capture :: "(buffer_version \<Rightarrow> nat \<Rightarrow> (version_fill list \<times> nat) result) option"
  gb_address :: bool
  gb_pool :: "nat option"

record latch_registration =
  lr_name :: string
  lr_slots :: nat
  lr_policy :: growth_policy

text \<open>The host: which buffers live, their keys and current versions, and the devices' answers.\<close>

record grow_host =
  gh_live :: "nat \<Rightarrow> bool"
  gh_key :: "nat \<Rightarrow> nat"
  gh_current :: "nat \<Rightarrow> buffer_version option"
  gh_size :: "nat \<Rightarrow> nat"
  gh_srv :: "nat \<Rightarrow> nat option"
  gh_addressOf :: "(nat \<Rightarrow> nat) option"
  gh_uploads :: bool
  gh_pool :: "nat option"
  gh_latchStride :: "nat \<Rightarrow> nat"

record named_entry =
  ne_version :: "buffer_version option"
  ne_serial :: nat
  ne_units :: nat
  ne_bytes :: nat
  ne_deviceAddress :: nat
  ne_srvIndex :: nat
  ne_contentsStamp :: "nat option"
  ne_lease :: "(nat \<times> nat) option"

definition empty_entry :: named_entry where
  "empty_entry = \<lparr>ne_version = None, ne_serial = 0, ne_units = 0, ne_bytes = 0, ne_deviceAddress = 0, ne_srvIndex = 0,
     ne_contentsStamp = None, ne_lease = None\<rparr>"

record latch_block =
  lb_number :: nat
  lb_stride :: nat

section \<open>Named versions\<close>

record named_versions =
  nv_serial :: nat
  nv_entries :: "named_entry list"
  nv_buffers :: "nat option list"
  nv_byKey :: "(nat \<times> nat) list"
  nv_latches :: "latch_block option list"

text \<open>\<open>std::lower_bound\<close> on the keys.\<close>

definition lower_bound :: "nat \<Rightarrow> (nat \<times> nat) list \<Rightarrow> (nat \<times> nat) list" where
  "lower_bound key entries = dropWhile (\<lambda>e. fst e < key) entries"

definition index_of :: "nat \<Rightarrow> (nat \<times> nat) list \<Rightarrow> nat option" where
  "index_of key entries =
     (case lower_bound key entries of
        [] \<Rightarrow> None
      | e # _ \<Rightarrow> if fst e = key then Some (snd e) else None)"

text \<open>\<open>Find\<close>: the version, and whether it was a miss.\<close>

definition find_version :: "nat \<Rightarrow> named_versions \<Rightarrow> buffer_version option \<times> bool" where
  "find_version key nv =
     (case index_of key (nv_byKey nv) of
        Some i \<Rightarrow> (ne_version (nv_entries nv ! i), False)
      | None \<Rightarrow> (None, True))"

definition names_handle :: "nat \<Rightarrow> named_versions \<Rightarrow> bool" where
  "names_handle h nv \<longleftrightarrow> h < length (nv_entries nv) \<and> ne_version (nv_entries nv ! h) \<noteq> None"

definition not_named :: exn where
  "not_named = OutOfRange ''NamedVersions: the set names no version of this buffer''"

definition of_handle :: "nat \<Rightarrow> named_versions \<Rightarrow> named_entry result" where
  "of_handle h nv = (if \<not> names_handle h nv then Inl not_named else Inr (nv_entries nv ! h))"

definition of_buffer :: "nat option \<Rightarrow> named_versions \<Rightarrow> named_entry result" where
  "of_buffer key nv =
     (case key of
        None \<Rightarrow> Inl (InvalidArgument ''NamedVersions: no buffer'')
      | Some k \<Rightarrow>
          (case index_of k (nv_byKey nv) of None \<Rightarrow> Inl not_named | Some i \<Rightarrow> Inr (nv_entries nv ! i)))"

definition latch_of :: "nat \<Rightarrow> named_versions \<Rightarrow> latch_block option" where
  "latch_of h nv = (if h < length (nv_latches nv) then nv_latches nv ! h else None)"

text \<open>\<open>AdoptAll\<close>: the owners' current versions after it, and how many were not current already.\<close>

fun adopt_all ::
  "grow_host \<Rightarrow> (named_entry \<times> nat option) list \<Rightarrow> (nat \<Rightarrow> buffer_version option) \<Rightarrow> nat \<Rightarrow>
   (nat \<Rightarrow> buffer_version option) \<times> nat" where
  "adopt_all host [] current adopted = (current, adopted)"
| "adopt_all host ((e, b) # es) current adopted =
     (case (ne_version e, b) of
        (Some v, Some buffer) \<Rightarrow>
          if \<not> gh_live host buffer \<or> current buffer = Some v then adopt_all host es current adopted
          else adopt_all host es (current(buffer := Some v)) (adopted + 1)
      | _ \<Rightarrow> adopt_all host es current adopted)"

definition adopt :: "grow_host \<Rightarrow> named_versions \<Rightarrow> (nat \<Rightarrow> buffer_version option) \<times> nat" where
  "adopt host nv = adopt_all host (zip (nv_entries nv) (nv_buffers nv)) (gh_current host) 0"

text \<open>\<open>Bind\<close>: every named lease.\<close>

definition bind_named :: "named_versions \<Rightarrow> u64 \<Rightarrow> growth_state \<Rightarrow> growth_state" where
  "bind_named nv safeAt st =
     fold (\<lambda>e st. case ne_lease e of None \<Rightarrow> st | Some (i, p) \<Rightarrow> in_pool i (lease_bind (Some p) safeAt) st) (nv_entries nv) st"

section \<open>The set\<close>

record slot =
  sl_registration :: "growable_registration option"
  sl_buffer :: "nat option"
  sl_key :: nat
  sl_current :: named_entry
  sl_asked :: nat
  sl_made :: bool
  sl_window :: shrink_window

definition empty_slot :: slot where
  "empty_slot = \<lparr>sl_registration = None, sl_buffer = None, sl_key = 0, sl_current = empty_entry, sl_asked = 0, sl_made = False,
     sl_window = empty_window\<rparr>"

record latch_slot =
  ls_registration :: "latch_registration option"
  ls_block :: "latch_block option"
  ls_layoutKey :: nat

definition empty_latch :: latch_slot where
  "empty_latch = \<lparr>ls_registration = None, ls_block = None, ls_layoutKey = 0\<rparr>"

datatype registered =
    TakenBuffer nat growable_registration "nat option" nat
  | TakenLatch nat latch_registration

datatype batch_state = Pending | Grown "grown_version list" | Broken string

record batch =
  ba_slots :: "nat list"
  ba_requests :: "growth_request list"
  ba_state :: batch_state

record set_stats =
  ss_batches :: nat
  ss_grown :: nat
  ss_failed :: nat
  ss_latches :: nat
  ss_sealed :: nat
  ss_kept :: nat
  ss_shrunk :: nat

definition no_stats :: set_stats where
  "no_stats = \<lparr>ss_batches = 0, ss_grown = 0, ss_failed = 0, ss_latches = 0, ss_sealed = 0, ss_kept = 0, ss_shrunk = 0\<rparr>"

record grow_set =
  gs_registered :: "registered list"
  gs_nextHandle :: nat
  gs_nextLatch :: nat
  gs_slots :: "slot list"
  gs_latchSlots :: "latch_slot list"
  gs_handles :: "(nat \<times> nat) list"
  gs_batch :: "batch option"
  gs_changed :: bool
  gs_last :: "named_versions option"
  gs_failure :: string
  gs_stats :: set_stats
  gs_serials :: nat
  gs_blocks :: nat

definition new_set :: "nat \<Rightarrow> grow_set" where
  "new_set serials = \<lparr>gs_registered = [], gs_nextHandle = 0, gs_nextLatch = 0, gs_slots = [], gs_latchSlots = [], gs_handles = [],
     gs_batch = None, gs_changed = True, gs_last = None, gs_failure = [], gs_stats = no_stats, gs_serials = serials, gs_blocks = 0\<rparr>"

definition others_take :: "nat \<Rightarrow> grow_set \<Rightarrow> grow_set" where
  "others_take n gs = gs\<lparr>gs_serials := gs_serials gs + n\<rparr>"

definition bump :: "(set_stats \<Rightarrow> set_stats) \<Rightarrow> grow_set \<Rightarrow> grow_set" where
  "bump f gs = gs\<lparr>gs_stats := f (gs_stats gs)\<rparr>"

definition upd_slot :: "nat \<Rightarrow> (slot \<Rightarrow> slot) \<Rightarrow> grow_set \<Rightarrow> grow_set" where
  "upd_slot i f gs = gs\<lparr>gs_slots := (gs_slots gs)[i := f (gs_slots gs ! i)]\<rparr>"

subsection \<open>Registering\<close>

definition register_buffer :: "grow_host \<Rightarrow> growable_registration \<Rightarrow> grow_set \<Rightarrow> grow_set \<times> nat result" where
  "register_buffer host r gs =
     (if gb_buffer r = None then (gs, Inl (InvalidArgument ''GrowableBufferSet: has no buffer''))
      else if be_unitBytes (gb_extent r) = 0 then (gs, Inl (InvalidArgument ''GrowableBufferSet: has no unit size''))
      else if gb_contents r = Capture \<and> gb_capture r = None
      then (gs, Inl (InvalidArgument ''GrowableBufferSet: captures without a capture''))
      else
        let r1 = (if gb_pool r = None then r\<lparr>gb_pool := gh_pool host\<rparr> else r) in
        if gb_pool r1 = None then (gs, Inl (InvalidArgument ''GrowableBufferSet: has no pool (neither its own nor the set's)''))
        else
          let index = gs_nextHandle gs; key = gs_serials gs + 1 in
          (gs\<lparr>gs_nextHandle := index + 1, gs_serials := key,
             gs_registered := TakenBuffer index (r1\<lparr>gb_buffer := None\<rparr>) (gb_buffer r) key # gs_registered gs\<rparr>,
           Inr index))"

definition register_latch :: "latch_registration \<Rightarrow> grow_set \<Rightarrow> grow_set \<times> nat result" where
  "register_latch r gs =
     (if lr_slots r = 0 then (gs, Inl (InvalidArgument ''GrowableBufferSet: latch has no slots''))
      else (gs\<lparr>gs_nextLatch := gs_nextLatch gs + 1, gs_registered := TakenLatch (gs_nextLatch gs) r # gs_registered gs\<rparr>,
            Inr (gs_nextLatch gs)))"

definition entry_of ::
  "grow_host \<Rightarrow> growable_registration \<Rightarrow> buffer_version option \<Rightarrow> nat option \<Rightarrow> (nat \<times> nat) option \<Rightarrow> nat \<Rightarrow>
   named_entry \<times> nat" where
  "entry_of host r version stamp lease serials =
     (case version of
        None \<Rightarrow> (empty_entry, serials)
      | Some v \<Rightarrow>
          let buffer = ve_buffer v; bytes = gh_size host buffer in
          (\<lparr>ne_version = Some v, ne_serial = serials + 1, ne_units = units_in (gb_extent r) bytes, ne_bytes = bytes,
            ne_deviceAddress = (case (gb_address r, gh_addressOf host) of (True, Some f) \<Rightarrow> f buffer | _ \<Rightarrow> 0),
            ne_srvIndex = (case gh_srv host buffer of Some i \<Rightarrow> i | None \<Rightarrow> 0),
            ne_contentsStamp = stamp, ne_lease = lease\<rparr>, serials + 1))"

definition resized :: "nat \<Rightarrow> 'a \<Rightarrow> 'a list \<Rightarrow> 'a list" where
  "resized n x xs = xs @ replicate (n - length xs) x"

definition insert_handle :: "nat \<times> nat \<Rightarrow> (nat \<times> nat) list \<Rightarrow> (nat \<times> nat) list" where
  "insert_handle h hs =
     (let before = takeWhile (\<lambda>e. fst e < fst h \<or> (fst e = fst h \<and> snd e < snd h)) hs in before @ h # drop (length before) hs)"

definition take_one :: "grow_host \<Rightarrow> registered \<Rightarrow> grow_set \<Rightarrow> grow_set" where
  "take_one host taken gs =
     (case taken of
        TakenBuffer index r versioned key \<Rightarrow>
          let gs1 = gs\<lparr>gs_slots := resized (index + 1) empty_slot (gs_slots gs)\<rparr>;
              slot = (gs_slots gs1 ! index)\<lparr>sl_registration := Some r, sl_buffer := versioned, sl_key := key, sl_made := False\<rparr>
          in (case versioned of
                Some b \<Rightarrow>
                  if gh_live host b then
                    (case entry_of host r (gh_current host b) None None (gs_serials gs1) of
                       (entry, serials) \<Rightarrow>
                         gs1\<lparr>gs_slots := (gs_slots gs1)[index := slot\<lparr>sl_current := entry\<rparr>], gs_serials := serials,
                           gs_handles := insert_handle (gh_key host b, index) (gs_handles gs1), gs_changed := True\<rparr>)
                  else gs1\<lparr>gs_slots := (gs_slots gs1)[index := slot], gs_changed := True\<rparr>
              | None \<Rightarrow> gs1\<lparr>gs_slots := (gs_slots gs1)[index := slot], gs_changed := True\<rparr>)
      | TakenLatch index r \<Rightarrow>
          let gs1 = gs\<lparr>gs_latchSlots := resized (index + 1) empty_latch (gs_latchSlots gs)\<rparr>
          in gs1\<lparr>gs_latchSlots := (gs_latchSlots gs1)[index := (gs_latchSlots gs1 ! index)\<lparr>ls_registration := Some r\<rparr>],
               gs_changed := True\<rparr>)"

definition take_registered :: "grow_host \<Rightarrow> grow_set \<Rightarrow> grow_set" where
  "take_registered host gs = fold (take_one host) (gs_registered gs) (gs\<lparr>gs_registered := []\<rparr>)"

definition handle_of :: "grow_host \<Rightarrow> nat \<Rightarrow> grow_set \<Rightarrow> grow_set \<times> nat result" where
  "handle_of host key gs =
     (let gs1 = take_registered host gs in
      case index_of key (gs_handles gs1) of
        None \<Rightarrow> (gs1, Inl (OutOfRange ''GrowableBufferSet: a buffer not in the set''))
      | Some i \<Rightarrow> (gs1, Inr i))"

subsection \<open>A batch settles\<close>

text \<open>The growth's \<open>done\<close>, on its own lane.\<close>

definition settle_batch :: "grown_version list option \<Rightarrow> string \<Rightarrow> batch \<Rightarrow> batch" where
  "settle_batch grown error ba =
     (case grown of
        Some vs \<Rightarrow>
          if length vs = length (ba_slots ba) then ba\<lparr>ba_state := Grown vs\<rparr>
          else ba\<lparr>ba_state := Broken (if error = [] then ''a growth made the wrong versions'' else error)\<rparr>
      | None \<Rightarrow> ba\<lparr>ba_state := Broken (if error = [] then ''a growth made the wrong versions'' else error)\<rparr>)"

definition settle_slot :: "grow_host \<Rightarrow> nat \<times> grown_version option \<Rightarrow> grow_set \<Rightarrow> grow_set" where
  "settle_slot host x gs =
     (case x of (index, grown) \<Rightarrow>
        let gs1 = upd_slot index (\<lambda>s. s\<lparr>sl_asked := 0\<rparr>) gs in
        case (grown, sl_registration (gs_slots gs1 ! index)) of
          (Some g, Some r) \<Rightarrow>
            (case entry_of host r (Some (gv_version g)) (gv_stamp g) (Some (ve_pool (gv_version g), gv_lease g)) (gs_serials gs1) of
               (entry, serials) \<Rightarrow>
                 bump (\<lambda>s. s\<lparr>ss_grown := ss_grown s + 1\<rparr>)
                   ((upd_slot index (\<lambda>s. s\<lparr>sl_current := entry, sl_made := True\<rparr>) gs1)\<lparr>gs_serials := serials, gs_changed := True\<rparr>))
        | _ \<Rightarrow> gs1)"

definition settle :: "grow_host \<Rightarrow> grow_set \<Rightarrow> grow_set" where
  "settle host gs =
     (case gs_batch gs of
        None \<Rightarrow> gs
      | Some ba \<Rightarrow>
          (case ba_state ba of
             Pending \<Rightarrow> gs
           | Grown vs \<Rightarrow> (fold (settle_slot host) (zip (ba_slots ba) (map Some vs)) gs)\<lparr>gs_batch := None\<rparr>
           | Broken error \<Rightarrow>
               (bump (\<lambda>s. s\<lparr>ss_failed := ss_failed s + 1\<rparr>)
                 (fold (settle_slot host) (map (\<lambda>i. (i, None)) (ba_slots ba)) gs))\<lparr>gs_failure := error, gs_batch := None\<rparr>))"

definition expired :: "grow_host \<Rightarrow> slot \<Rightarrow> bool" where
  "expired host s \<longleftrightarrow> (case sl_buffer s of None \<Rightarrow> True | Some b \<Rightarrow> \<not> gh_live host b)"

definition drop_expired :: "grow_host \<Rightarrow> nat \<Rightarrow> grow_set \<Rightarrow> grow_set" where
  "drop_expired host i gs =
     (if sl_registration (gs_slots gs ! i) \<noteq> None \<and> expired host (gs_slots gs ! i)
      then gs\<lparr>gs_slots := (gs_slots gs)[i := empty_slot], gs_handles := filter (\<lambda>h. snd h \<noteq> i) (gs_handles gs), gs_changed := True\<rparr>
      else gs)"

definition begin_build :: "grow_host \<Rightarrow> grow_set \<Rightarrow> grow_set" where
  "begin_build host gs =
     (let gs1 = settle host (take_registered host gs) in fold (drop_expired host) [0..<length (gs_slots gs1)] gs1)"


section \<open>A build's requirements\<close>

record latch_ask =
  la_asked :: bool
  la_bytes :: nat
  la_layoutKey :: nat

definition no_ask :: latch_ask where
  "no_ask = \<lparr>la_asked = False, la_bytes = 0, la_layoutKey = 0\<rparr>"

definition no_requirement :: requirement where
  "no_requirement = \<lparr>rq_units = 0, rq_newerThan = 0\<rparr>"

record build_asks =
  ba_required :: "requirement list"
  ba_latches :: "latch_ask list"

definition merge_ask :: "nat option \<Rightarrow> requirement \<Rightarrow> build_asks \<Rightarrow> build_asks \<times> unit result" where
  "merge_ask handle r bd =
     (case handle of
        None \<Rightarrow> (bd, Inl (InvalidArgument ''GrowableBufferSet: a requirement without a buffer''))
      | Some h \<Rightarrow>
          let required = resized (h + 1) no_requirement (ba_required bd) in
          (bd\<lparr>ba_required := required[h := merge_requirement (required ! h) r]\<rparr>, Inr ()))"

definition require :: "nat option \<Rightarrow> nat \<Rightarrow> build_asks \<Rightarrow> build_asks \<times> unit result" where
  "require handle units = merge_ask handle \<lparr>rq_units = units, rq_newerThan = 0\<rparr>"

definition require_newer :: "nat option \<Rightarrow> nat \<Rightarrow> build_asks \<Rightarrow> build_asks \<times> unit result" where
  "require_newer handle serial = merge_ask handle \<lparr>rq_units = 0, rq_newerThan = serial\<rparr>"

definition require_latch :: "nat option \<Rightarrow> nat \<Rightarrow> nat \<Rightarrow> build_asks \<Rightarrow> build_asks \<times> unit result" where
  "require_latch handle bytes layoutKey bd =
     (case handle of
        None \<Rightarrow> (bd, Inl (InvalidArgument ''GrowableBufferSet: a requirement without a latch''))
      | Some h \<Rightarrow>
          let latches = resized (h + 1) no_ask (ba_latches bd); ask = latches ! h;
              build1 = bd\<lparr>ba_latches := latches\<rparr>
          in if la_asked ask \<and> la_layoutKey ask \<noteq> layoutKey
             then (build1, Inl (LogicError ''GrowableBufferSet: one latch asked with two layouts''))
             else (bd\<lparr>ba_latches := latches[h := \<lparr>la_asked = True, la_bytes = max (la_bytes ask) bytes, la_layoutKey = layoutKey\<rparr>]\<rparr>,
                   Inr ()))"

definition build_units :: "nat \<Rightarrow> grow_set \<Rightarrow> nat" where
  "build_units h gs = (if h < length (gs_slots gs) then ne_units (sl_current (gs_slots gs ! h)) else 0)"

definition build_asked :: "nat \<Rightarrow> build_asks \<Rightarrow> grow_set \<Rightarrow> nat" where
  "build_asked h bd gs =
     max (if h < length (ba_required bd) then rq_units (ba_required bd ! h) else 0)
       (if h < length (gs_slots gs) then sl_asked (gs_slots gs ! h) else 0)"

definition build_serial :: "nat \<Rightarrow> grow_set \<Rightarrow> nat" where
  "build_serial h gs = (if h < length (gs_slots gs) then ne_serial (sl_current (gs_slots gs ! h)) else 0)"

section \<open>Posting a batch\<close>

definition contents_of :: "grow_host \<Rightarrow> growable_registration \<Rightarrow> (buffer_version \<Rightarrow> (version_fill list \<times> nat option) result) option" where
  "contents_of host r =
     (case gb_contents r of
        Fresh \<Rightarrow> None
      | Zero \<Rightarrow> Some (\<lambda>v. Inr ([zero_fill (gh_size host (ve_buffer v))], None))
      | Capture \<Rightarrow>
          Some (\<lambda>v. case (the (gb_capture r)) v
              (case (gb_address r, gh_addressOf host) of (True, Some f) \<Rightarrow> f (ve_buffer v) | _ \<Rightarrow> 0) of
            Inl e \<Rightarrow> Inl e
          | Inr (fills, stamp) \<Rightarrow> Inr (fills, Some stamp)))"

definition slot_request :: "grow_host \<Rightarrow> slot \<Rightarrow> growable_registration \<Rightarrow> nat \<Rightarrow> nat \<Rightarrow> growth_request" where
  "slot_request host s r b units =
     (let x = gb_extent r; structured = be_structuredStride x \<noteq> 0 in
      \<lparr>gr_buffer = Some b, gr_elements = (if structured then elements_for x units else 0),
       gr_bytes = (if structured then 0 else bytes_for x units), gr_fills = [], gr_contentsOf = contents_of host r,
       gr_uploads = gb_contents r \<noteq> Fresh \<and> gh_uploads host, gr_pool = gb_pool r, gr_capacityClass = capacity_class_for x units,
       gr_stride = be_structuredStride x, gr_flags = no_flags\<lparr>bf_deviceAddress := gb_address r\<rparr>, gr_compatibility = sl_key s,
       gr_name = gb_name r\<rparr>)"

fun post_loop :: "grow_host \<Rightarrow> (nat \<times> nat) list \<Rightarrow> grow_set \<Rightarrow> nat list \<Rightarrow> growth_request list \<Rightarrow>
   grow_set \<times> (nat list \<times> growth_request list) result" where
  "post_loop host [] gs slots requests = (gs, Inr (slots, requests))"
| "post_loop host ((index, units) # asks) gs slots requests =
     (let s = gs_slots gs ! index in
      case (sl_buffer s, sl_registration s) of
        (Some b, Some r) \<Rightarrow>
          if \<not> gh_live host b then post_loop host asks gs slots requests
          else
            let gs1 = (if units < ne_units (sl_current s) then bump (\<lambda>t. t\<lparr>ss_shrunk := ss_shrunk t + 1\<rparr>) gs else gs) in
            if be_structuredStride (gb_extent r) \<noteq> 0 \<and> elements_for (gb_extent r) units > u32_max
            then (gs1, Inl (LengthError ''GrowableBufferSet: past a structured buffer's elements''))
            else if gb_contents r \<noteq> Fresh \<and> \<not> gh_uploads host
            then (gs1, Inl (LogicError ''GrowableBufferSet: fills without an uploader''))
            else post_loop host asks (upd_slot index (\<lambda>s. s\<lparr>sl_asked := units\<rparr>) gs1) (slots @ [index])
                   (requests @ [slot_request host s r b units])
      | _ \<Rightarrow> post_loop host asks gs slots requests)"

text \<open>\<open>accepts\<close>: whether the host's graph takes the batch.\<close>

definition post :: "grow_host \<Rightarrow> (growth_request list \<Rightarrow> bool) \<Rightarrow> (nat \<times> nat) list \<Rightarrow> grow_set \<Rightarrow> grow_set \<times> bool result" where
  "post host accepts asks gs =
     (case post_loop host asks gs [] [] of
        (gs1, Inl e) \<Rightarrow> (gs1, Inl e)
      | (gs1, Inr (slots, requests)) \<Rightarrow>
          if requests = [] then (gs1, Inr True)
          else
            let gs2 = bump (\<lambda>t. t\<lparr>ss_batches := ss_batches t + 1\<rparr>)
                  (gs1\<lparr>gs_batch := Some \<lparr>ba_slots = slots, ba_requests = requests, ba_state = Pending\<rparr>\<rparr>)
            in if accepts requests then (gs2, Inr True)
               else
                 (bump (\<lambda>t. t\<lparr>ss_failed := ss_failed t + 1\<rparr>)
                    (fold (\<lambda>i. upd_slot i (\<lambda>s. s\<lparr>sl_asked := 0\<rparr>)) slots (gs2\<lparr>gs_batch := None\<rparr>)), Inr False))"

section \<open>Seal\<close>

record sealed =
  sd_named :: "named_versions option"
  sd_pending :: bool
  sd_error :: string

text \<open>The unmet requirements, in handle order: a requirement of a buffer not in the set throws.\<close>

fun unmet_loop :: "grow_set \<Rightarrow> requirement list \<Rightarrow> nat \<Rightarrow> nat list result" where
  "unmet_loop gs [] i = Inr []"
| "unmet_loop gs (r # rs) i =
     (if rq_units r = 0 \<and> rq_newerThan r = 0 then unmet_loop gs rs (i + 1)
      else if i \<ge> length (gs_slots gs) \<or> sl_registration (gs_slots gs ! i) = None
      then Inl (LogicError ''GrowableBufferSet: a requirement of a buffer not in the set'')
      else case unmet_loop gs rs (i + 1) of
             Inl e \<Rightarrow> Inl e
           | Inr ixs \<Rightarrow>
               Inr (if met_by r (ne_units (sl_current (gs_slots gs ! i))) (ne_serial (sl_current (gs_slots gs ! i)))
                    then ixs else i # ixs))"

definition zero_unmade :: "grow_host \<Rightarrow> slot \<Rightarrow> bool" where
  "zero_unmade host s \<longleftrightarrow>
     (case sl_registration s of None \<Rightarrow> False | Some r \<Rightarrow> \<not> sl_made s \<and> gb_contents r = Zero \<and> \<not> expired host s)"

definition with_zeros :: "grow_host \<Rightarrow> grow_set \<Rightarrow> nat list \<Rightarrow> nat list" where
  "with_zeros host gs unmet =
     unmet @ filter (\<lambda>i. zero_unmade host (gs_slots gs ! i) \<and> i \<notin> set unmet) [0..<length (gs_slots gs)]"

text \<open>The asks of the unmet: each window reset, then the units grown to (a policy may throw).\<close>

fun growth_asks :: "requirement list \<Rightarrow> nat list \<Rightarrow> grow_set \<Rightarrow> grow_set \<times> (nat \<times> nat) list result" where
  "growth_asks required [] gs = (gs, Inr [])"
| "growth_asks required (i # ixs) gs =
     (let gs1 = upd_slot i (\<lambda>s. s\<lparr>sl_window := reset_window (sl_window s)\<rparr>) gs; s = gs_slots gs1 ! i in
      case grow_to (required ! i) (gb_policy (the (sl_registration s))) (ne_units (sl_current s)) of
        Inl e \<Rightarrow> (gs1, Inl e)
      | Inr units \<Rightarrow>
          (case growth_asks required ixs gs1 of
             (gs2, Inl e) \<Rightarrow> (gs2, Inl e)
           | (gs2, Inr asks) \<Rightarrow> (gs2, Inr ((i, units) # asks))))"

fun shrink_asks :: "int \<Rightarrow> requirement list \<Rightarrow> nat list \<Rightarrow> grow_set \<Rightarrow> grow_set \<times> (nat \<times> nat) list result" where
  "shrink_asks now required [] gs = (gs, Inr [])"
| "shrink_asks now required (i # ixs) gs =
     (let s = gs_slots gs ! i; units = rq_units (required ! i) in
      case sl_registration s of
        None \<Rightarrow> shrink_asks now required ixs gs
      | Some r \<Rightarrow>
          if units = 0 \<or> ne_version (sl_current s) = None \<or> \<not> shrinks (gb_shrink r) then shrink_asks now required ixs gs
          else
            (case observe (gb_shrink r) (gb_policy r) (ne_units (sl_current s)) units now (sl_window s) of
               (w, observed) \<Rightarrow>
                 let gs1 = upd_slot i (\<lambda>s. s\<lparr>sl_window := w\<rparr>) gs in
                 (case observed of
                    Inl e \<Rightarrow> (gs1, Inl e)
                  | Inr None \<Rightarrow> shrink_asks now required ixs gs1
                  | Inr (Some target) \<Rightarrow>
                      (case shrink_asks now required ixs gs1 of
                         (gs2, Inl e) \<Rightarrow> (gs2, Inl e)
                       | (gs2, Inr asks) \<Rightarrow> (gs2, Inr ((i, target) # asks))))))"

fun seal_latches :: "grow_host \<Rightarrow> latch_ask list \<Rightarrow> nat \<Rightarrow> grow_set \<Rightarrow> grow_set \<times> unit result" where
  "seal_latches host [] i gs = (gs, Inr ())"
| "seal_latches host (ask # asks) i gs =
     (if \<not> la_asked ask then seal_latches host asks (i + 1) gs
      else if i \<ge> length (gs_latchSlots gs) \<or> ls_registration (gs_latchSlots gs ! i) = None
      then (gs, Inl (LogicError ''GrowableBufferSet: a requirement of a latch not in the set''))
      else
        let s = gs_latchSlots gs ! i; r = the (ls_registration s);
            held = (case ls_block s of Some b \<Rightarrow> if ls_layoutKey s = la_layoutKey ask then Some (lb_stride b) else None | None \<Rightarrow> None)
        in if (case held of Some stride \<Rightarrow> stride \<ge> la_bytes ask | None \<Rightarrow> False) then seal_latches host asks (i + 1) gs
           else case next_as u32_max (lr_policy r) (case held of Some stride \<Rightarrow> stride | None \<Rightarrow> 0) (la_bytes ask) of
                  Inl e \<Rightarrow> (gs, Inl e)
                | Inr bytes \<Rightarrow>
                    seal_latches host asks (i + 1)
                      (bump (\<lambda>t. t\<lparr>ss_latches := ss_latches t + 1\<rparr>)
                        (gs\<lparr>gs_latchSlots := (gs_latchSlots gs)[i := s\<lparr>ls_layoutKey := la_layoutKey ask,
                              ls_block := Some \<lparr>lb_number = gs_blocks gs, lb_stride = gh_latchStride host bytes\<rparr>\<rparr>],
                            gs_blocks := gs_blocks gs + 1, gs_changed := True\<rparr>)))"

definition named_slot :: "slot \<Rightarrow> bool" where
  "named_slot s \<longleftrightarrow>
     (case sl_registration s of
        None \<Rightarrow> False
      | Some r \<Rightarrow> ne_version (sl_current s) \<noteq> None \<and> \<not> (\<not> sl_made s \<and> gb_contents r = Zero))"

definition name_versions :: "grow_host \<Rightarrow> grow_set \<Rightarrow> named_versions" where
  "name_versions host gs =
     \<lparr>nv_serial = gs_serials gs + 1,
      nv_entries = map (\<lambda>s. if named_slot s then sl_current s else empty_entry) (gs_slots gs),
      nv_buffers = map (\<lambda>s. if named_slot s then sl_buffer s else None) (gs_slots gs),
      nv_byKey = sort_key fst (concat (map (\<lambda>i. let s = gs_slots gs ! i in
          case sl_buffer s of Some b \<Rightarrow> if named_slot s \<and> gh_live host b then [(gh_key host b, i)] else [] | None \<Rightarrow> [])
        [0..<length (gs_slots gs)])),
      nv_latches = map ls_block (gs_latchSlots gs)\<rparr>"

text \<open>The last part of \<open>Seal\<close>: the same set, or a new one.\<close>

definition seal_named :: "grow_host \<Rightarrow> grow_set \<Rightarrow> grow_set \<times> sealed" where
  "seal_named host gs =
     (case (gs_changed gs, gs_last gs) of
        (False, Some nv) \<Rightarrow>
          (bump (\<lambda>t. t\<lparr>ss_kept := ss_kept t + 1\<rparr>) gs, \<lparr>sd_named = Some nv, sd_pending = False, sd_error = []\<rparr>)
      | _ \<Rightarrow>
          let nv = name_versions host gs in
          (bump (\<lambda>t. t\<lparr>ss_sealed := ss_sealed t + 1\<rparr>)
             (gs\<lparr>gs_last := Some nv, gs_changed := False, gs_serials := gs_serials gs + 1\<rparr>),
           \<lparr>sd_named = Some nv, sd_pending = False, sd_error = []\<rparr>))"

text \<open>Once every requirement is met: the shrinks, the latches, the names.\<close>

definition seal_met ::
  "grow_host \<Rightarrow> (growth_request list \<Rightarrow> bool) \<Rightarrow> int \<Rightarrow> requirement list \<Rightarrow> latch_ask list \<Rightarrow> grow_set \<Rightarrow> grow_set \<times> sealed result" where
  "seal_met host accepts now required latches gs =
     (case (if gs_batch gs \<noteq> None then (gs, Inr ())
            else case shrink_asks now required [0..<min (length required) (length (gs_slots gs))] gs of
              (gs1, Inl e) \<Rightarrow> (gs1, Inl e)
            | (gs1, Inr asks) \<Rightarrow>
                if asks = [] then (gs1, Inr ())
                else (case post host accepts asks gs1 of
                        (gs2, Inl e) \<Rightarrow> (gs2, Inl e)
                      | (gs2, Inr accepted) \<Rightarrow>
                          (if accepted then gs2 else gs2\<lparr>gs_failure := ''the shrink batch was refused''\<rparr>, Inr ()))) of
        (gs3, Inl e) \<Rightarrow> (gs3, Inl e)
      | (gs3, Inr _) \<Rightarrow>
          (case seal_latches host latches 0 gs3 of
             (gs4, Inl e) \<Rightarrow> (gs4, Inl e)
           | (gs4, Inr _) \<Rightarrow> (case seal_named host gs4 of (gs5, sd) \<Rightarrow> (gs5, Inr sd))))"

definition seal ::
  "grow_host \<Rightarrow> (growth_request list \<Rightarrow> bool) \<Rightarrow> int \<Rightarrow> build_asks \<Rightarrow> grow_set \<Rightarrow> grow_set \<times> sealed result" where
  "seal host accepts now bd gs0 =
     (let gs = take_registered host gs0 in
      case unmet_loop gs (ba_required bd) 0 of
        Inl e \<Rightarrow> (gs, Inl e)
      | Inr lacking \<Rightarrow>
          let unmet = with_zeros host gs lacking;
              required = resized (length (gs_slots gs)) no_requirement (ba_required bd);
              pending = (\<lambda>error. \<lparr>sd_named = None, sd_pending = True, sd_error = error\<rparr>)
          in if unmet = [] then seal_met host accepts now required (ba_latches bd) gs
             else if gs_batch gs \<noteq> None then (gs, Inr (pending []))
             else
               let gs1 = gs\<lparr>gs_failure := []\<rparr> in
               (case growth_asks required unmet gs1 of
                  (gs2, Inl e) \<Rightarrow> (gs2, Inl e)
                | (gs2, Inr asks) \<Rightarrow>
                    (case post host accepts asks gs2 of
                       (gs3, Inl e) \<Rightarrow> (gs3, Inl e)
                     | (gs3, Inr False) \<Rightarrow>
                         (gs3, Inr \<lparr>sd_named = None, sd_pending = False, sd_error = ''the growth batch was refused''\<rparr>)
                     | (gs3, Inr True) \<Rightarrow>
                         if gs_batch gs3 \<noteq> None then (gs3, Inr (pending (gs_failure gs)))
                         else seal_met host accepts now required (ba_latches bd) gs3)))"

definition shrink_pending :: "int \<Rightarrow> grow_set \<Rightarrow> bool" where
  "shrink_pending now gs =
     (if gs_changed gs then True
      else case gs_batch gs of
        Some ba \<Rightarrow> ba_state ba \<noteq> Pending
      | None \<Rightarrow> list_ex (\<lambda>s. case sl_registration s of None \<Rightarrow> False | Some r \<Rightarrow> due (sl_window s) (gb_shrink r) now) (gs_slots gs))"

definition take_stats :: "grow_set \<Rightarrow> grow_set \<times> set_stats" where
  "take_stats gs = (gs\<lparr>gs_stats := no_stats\<rparr>, gs_stats gs)"

end
