(* ===== verification/GrowSetProps.thy ===== *)
theory GrowSetProps
  imports GrowSet
begin

text \<open>
  The set over any run of its operations, with any host at each of them: what a sealed set names
  holds every requirement, and a serial names one version.
\<close>

section \<open>Runs\<close>

inductive set_step :: "grow_set \<Rightarrow> grow_set \<Rightarrow> bool" where
  register: "set_step gs (fst (register_buffer host r gs))"
| register_latch: "set_step gs (fst (register_latch lr gs))"
| others: "set_step gs (others_take n gs)"
| handle: "set_step gs (fst (handle_of host key gs))"
| begin_build: "set_step gs (begin_build host gs)"
| seal: "set_step gs (fst (seal host accepts now bd gs))"
| settle: "gs_batch gs = Some ba \<Longrightarrow> ba_state ba = Pending \<Longrightarrow>
    set_step gs (gs\<lparr>gs_batch := Some (settle_batch grown error ba)\<rparr>)"
| stats: "set_step gs (fst (take_stats gs))"

section \<open>What a step may do to the entries\<close>

definition entry_at :: "nat \<Rightarrow> grow_set \<Rightarrow> named_entry" where
  "entry_at i gs = (if i < length (gs_slots gs) then sl_current (gs_slots gs ! i) else empty_entry)"

text \<open>Each entry is kept, emptied or of a serial taken since; and so is the last set.\<close>

definition moved_on :: "grow_set \<Rightarrow> grow_set \<Rightarrow> bool" where
  "moved_on gs gs' \<longleftrightarrow> gs_serials gs \<le> gs_serials gs' \<and> length (gs_slots gs) \<le> length (gs_slots gs') \<and>
     (\<forall>i. entry_at i gs' = entry_at i gs \<or> entry_at i gs' = empty_entry \<or>
        gs_serials gs < ne_serial (entry_at i gs') \<and> ne_serial (entry_at i gs') \<le> gs_serials gs') \<and>
     (\<forall>i j. i \<noteq> j \<longrightarrow> gs_serials gs < ne_serial (entry_at i gs') \<longrightarrow> ne_serial (entry_at i gs') \<noteq> ne_serial (entry_at j gs')) \<and>
     (gs_last gs' = gs_last gs \<or> (\<exists>nv. gs_last gs' = Some nv \<and> gs_serials gs < nv_serial nv \<and> nv_serial nv \<le> gs_serials gs'))"

definition serials_ok :: "grow_set \<Rightarrow> bool" where
  "serials_ok gs \<longleftrightarrow>
     (\<forall>i. ne_serial (entry_at i gs) \<le> gs_serials gs \<and> (ne_version (entry_at i gs) = None \<longrightarrow> entry_at i gs = empty_entry) \<and>
        (ne_version (entry_at i gs) \<noteq> None \<longrightarrow> ne_serial (entry_at i gs) \<noteq> 0)) \<and>
     (\<forall>i j. i \<noteq> j \<longrightarrow> ne_serial (entry_at i gs) \<noteq> 0 \<longrightarrow> ne_serial (entry_at i gs) \<noteq> ne_serial (entry_at j gs)) \<and>
     (\<forall>nv. gs_last gs = Some nv \<longrightarrow> nv_serial nv \<le> gs_serials gs)"

definition slot_names :: "grow_set \<Rightarrow> named_entry list" where
  "slot_names gs = map (\<lambda>s. if named_slot s then sl_current s else empty_entry) (gs_slots gs)"

definition last_ok :: "grow_set \<Rightarrow> bool" where
  "last_ok gs \<longleftrightarrow> (\<not> gs_changed gs \<longrightarrow> (\<forall>nv. gs_last gs = Some nv \<longrightarrow>
     nv_entries nv = slot_names gs \<and> nv_latches nv = map ls_block (gs_latchSlots gs)))"

lemma empty_entry_simps [simp]: "ne_serial empty_entry = 0" "ne_version empty_entry = None"
  by (simp_all add: empty_entry_def)

text \<open>A step that leaves the entries, the names and the counters alone.\<close>

definition quiet :: "grow_set \<Rightarrow> grow_set \<Rightarrow> bool" where
  "quiet gs gs' \<longleftrightarrow> gs_serials gs' = gs_serials gs \<and> gs_changed gs' = gs_changed gs \<and> gs_last gs' = gs_last gs \<and>
     gs_latchSlots gs' = gs_latchSlots gs \<and> length (gs_slots gs') = length (gs_slots gs) \<and>
     (\<forall>i < length (gs_slots gs). sl_current (gs_slots gs' ! i) = sl_current (gs_slots gs ! i) \<and>
        sl_registration (gs_slots gs' ! i) = sl_registration (gs_slots gs ! i) \<and>
        sl_made (gs_slots gs' ! i) = sl_made (gs_slots gs ! i) \<and> sl_buffer (gs_slots gs' ! i) = sl_buffer (gs_slots gs ! i))"

lemma quiet_refl [simp]: "quiet gs gs"
  by (simp add: quiet_def)

lemma quiet_trans: "quiet a b \<Longrightarrow> quiet b c \<Longrightarrow> quiet a c"
  by (simp add: quiet_def)

lemma quiet_entries: "quiet gs gs' \<Longrightarrow> entry_at i gs' = entry_at i gs"
  by (simp add: quiet_def entry_at_def)

lemma quiet_names: "quiet gs gs' \<Longrightarrow> slot_names gs' = slot_names gs"
proof -
  assume q: "quiet gs gs'"
  then have "named_slot (gs_slots gs' ! i) = named_slot (gs_slots gs ! i)" if "i < length (gs_slots gs)" for i
    using that by (simp add: quiet_def named_slot_def split: option.split)
  with q show ?thesis by (intro nth_equalityI) (simp_all add: quiet_def slot_names_def)
qed

lemma quiet_keeps:
  assumes "quiet gs gs'"
  shows "serials_ok gs \<Longrightarrow> serials_ok gs'" and "last_ok gs \<Longrightarrow> last_ok gs'"
  using assms quiet_entries [OF assms] quiet_names [OF assms]
  by (simp_all add: serials_ok_def last_ok_def quiet_def)

lemma serials_okD: "serials_ok gs \<Longrightarrow> ne_serial (entry_at i gs) \<le> gs_serials gs"
  by (simp add: serials_ok_def)

lemma moved_on_refl:
  assumes "serials_ok gs"
  shows "moved_on gs gs"
  using assms by (auto simp: moved_on_def serials_ok_def not_less)

lemma moved_on_trans:
  assumes "serials_ok a" and ab: "moved_on a b" and "serials_ok b" and bc: "moved_on b c" and ok: "serials_ok c"
  shows "moved_on a c"
proof -
  have "gs_serials a \<le> gs_serials c" "length (gs_slots a) \<le> length (gs_slots c)" using ab bc by (auto simp: moved_on_def)
  moreover have "entry_at i c = entry_at i a \<or> entry_at i c = empty_entry \<or>
      gs_serials a < ne_serial (entry_at i c) \<and> ne_serial (entry_at i c) \<le> gs_serials c" for i
    using ab bc unfolding moved_on_def by (metis le_trans le_less_trans)
  moreover have "i \<noteq> j \<Longrightarrow> gs_serials a < ne_serial (entry_at i c) \<Longrightarrow> ne_serial (entry_at i c) \<noteq> ne_serial (entry_at j c)" for i j
    using ok unfolding serials_ok_def by (metis not_less0)
  moreover have "gs_last c = gs_last a \<or> (\<exists>nv. gs_last c = Some nv \<and> gs_serials a < nv_serial nv \<and> nv_serial nv \<le> gs_serials c)"
    using ab bc unfolding moved_on_def by (metis le_trans le_less_trans)
  ultimately show ?thesis by (simp add: moved_on_def)
qed

lemma moved_on_ok:
  assumes "serials_ok gs" and "moved_on gs gs'"
    and "\<forall>i. gs_serials gs < ne_serial (entry_at i gs') \<longrightarrow> ne_version (entry_at i gs') \<noteq> None"
  shows "serials_ok gs'"
proof -
  have m: "gs_serials gs \<le> gs_serials gs'" and e: "entry_at i gs' = entry_at i gs \<or> entry_at i gs' = empty_entry \<or>
      gs_serials gs < ne_serial (entry_at i gs') \<and> ne_serial (entry_at i gs') \<le> gs_serials gs'" for i
    using assms(2) by (simp_all add: moved_on_def)
  have le: "ne_serial (entry_at i gs') \<le> gs_serials gs'" for i
    using e [of i] serials_okD [OF assms(1), of i] m by (metis empty_entry_simps(1) le_trans zero_le)
  have v: "(ne_version (entry_at i gs') = None \<longrightarrow> entry_at i gs' = empty_entry) \<and>
      (ne_version (entry_at i gs') \<noteq> None \<longrightarrow> ne_serial (entry_at i gs') \<noteq> 0)" for i
    using e [of i] assms(1,3) unfolding serials_ok_def by (metis empty_entry_simps(2) not_less0)
  have d: "ne_serial (entry_at i gs') \<noteq> ne_serial (entry_at j gs')" if "i \<noteq> j" "ne_serial (entry_at i gs') \<noteq> 0" for i j
  proof (cases "gs_serials gs < ne_serial (entry_at i gs')")
    case True
    with assms(2) that(1) show ?thesis unfolding moved_on_def by blast
  next
    case False
    then have i: "entry_at i gs' = entry_at i gs" using e [of i] that(2) by auto
    show ?thesis
    proof (cases "gs_serials gs < ne_serial (entry_at j gs')")
      case True
      with False show ?thesis by linarith
    next
      case False
      then have "entry_at j gs' = entry_at j gs \<or> entry_at j gs' = empty_entry" using e [of j] by auto
      with i that assms(1) show ?thesis unfolding serials_ok_def by (metis empty_entry_simps(1))
    qed
  qed
  have "nv_serial nv \<le> gs_serials gs'" if "gs_last gs' = Some nv" for nv
    using assms(1,2) that m unfolding moved_on_def serials_ok_def by (metis le_trans option.inject)
  with le v d show ?thesis by (simp add: serials_ok_def)
qed


section \<open>Every operation is such a step\<close>

definition fine :: "grow_set \<Rightarrow> grow_set \<Rightarrow> bool" where
  "fine gs gs' \<longleftrightarrow> (serials_ok gs \<and> last_ok gs \<longrightarrow> moved_on gs gs' \<and> serials_ok gs' \<and> last_ok gs')"

lemma fine_refl [simp]: "fine gs gs"
  by (simp add: fine_def moved_on_refl)

lemma fine_trans: "fine a b \<Longrightarrow> fine b c \<Longrightarrow> fine a c"
  unfolding fine_def using moved_on_trans by blast

lemma fine_quiet: "quiet gs gs' \<Longrightarrow> fine gs gs'"
  unfolding fine_def
proof (intro impI conjI)
  assume q: "quiet gs gs'" and ok: "serials_ok gs \<and> last_ok gs"
  show "serials_ok gs'" "last_ok gs'" using quiet_keeps [OF q] ok by blast+
  show "moved_on gs gs'" using moved_on_refl [of gs] ok quiet_entries [OF q] q by (simp add: moved_on_def quiet_def)
qed

lemma fine_fold: "(\<And>x gs. x \<in> set xs \<Longrightarrow> fine gs (f x gs)) \<Longrightarrow> fine gs (fold f xs gs)"
  by (induction xs arbitrary: gs) (auto intro: fine_trans)

text \<open>One entry changes.\<close>

lemma fine_entry:
  assumes "gs_serials gs \<le> gs_serials gs'" and "length (gs_slots gs) \<le> length (gs_slots gs')" and "gs_last gs' = gs_last gs"
    and "\<And>j. j \<noteq> i \<Longrightarrow> entry_at j gs' = entry_at j gs"
    and "entry_at i gs' = entry_at i gs \<or> entry_at i gs' = empty_entry \<or>
      ne_serial (entry_at i gs') = gs_serials gs + 1 \<and> ne_version (entry_at i gs') \<noteq> None \<and> gs_serials gs' = gs_serials gs + 1"
    and "gs_changed gs' \<or> (slot_names gs' = slot_names gs \<and> map ls_block (gs_latchSlots gs') = map ls_block (gs_latchSlots gs) \<and>
      gs_changed gs' = gs_changed gs)"
  shows "fine gs gs'"
  unfolding fine_def
proof (intro impI)
  assume ok: "serials_ok gs \<and> last_ok gs"
  have le: "ne_serial (entry_at j gs) \<le> gs_serials gs" for j using ok serials_okD by blast
  have others: "j \<noteq> i \<Longrightarrow> ne_serial (entry_at j gs') \<le> gs_serials gs" for j using assms(4) le by simp
  have at_i: "ne_serial (entry_at i gs') \<le> gs_serials gs \<or>
      ne_serial (entry_at i gs') = gs_serials gs + 1 \<and> ne_version (entry_at i gs') \<noteq> None \<and> gs_serials gs' = gs_serials gs + 1"
    using assms(5) le [of i] by auto
  have m: "moved_on gs gs'"
    unfolding moved_on_def
  proof (intro conjI allI impI)
    show "gs_serials gs \<le> gs_serials gs'" "length (gs_slots gs) \<le> length (gs_slots gs')" by (rule assms(1,2))+
    show "entry_at j gs' = entry_at j gs \<or> entry_at j gs' = empty_entry \<or>
        gs_serials gs < ne_serial (entry_at j gs') \<and> ne_serial (entry_at j gs') \<le> gs_serials gs'" for j
      using assms(4,5) by (cases "j = i") auto
    show "ne_serial (entry_at j gs') \<noteq> ne_serial (entry_at k gs')"
      if "j \<noteq> k" "gs_serials gs < ne_serial (entry_at j gs')" for j k
      using that others [of j] others [of k] by (cases "j = i") auto
    show "gs_last gs' = gs_last gs \<or> (\<exists>nv. gs_last gs' = Some nv \<and> gs_serials gs < nv_serial nv \<and> nv_serial nv \<le> gs_serials gs')"
      using assms(3) by simp
  qed
  moreover have "\<forall>j. gs_serials gs < ne_serial (entry_at j gs') \<longrightarrow> ne_version (entry_at j gs') \<noteq> None"
    using others at_i by (metis leD)
  with m ok have "serials_ok gs'" using moved_on_ok by blast
  moreover have "last_ok gs'" using ok assms(3,6) by (auto simp: last_ok_def)
  ultimately show "moved_on gs gs' \<and> serials_ok gs' \<and> last_ok gs'" by blast
qed

lemma length_resized [simp]: "length (resized n x xs) = max n (length xs)"
  by (simp add: resized_def)

lemma nth_resized: "i < length xs \<Longrightarrow> resized n x xs ! i = xs ! i" "length xs \<le> i \<Longrightarrow> i < n \<Longrightarrow> resized n x xs ! i = x"
  by (simp_all add: resized_def nth_append)

lemma entry_resized: "entry_at i (gs\<lparr>gs_slots := resized n empty_slot (gs_slots gs)\<rparr>) = entry_at i gs"
  by (auto simp: entry_at_def nth_resized empty_slot_def not_less)

lemma entry_of_props:
  "entry_of host r version stamp lease serials = (e, serials') \<Longrightarrow>
    e = empty_entry \<and> serials' = serials \<and> version = None \<or>
    ne_serial e = serials + 1 \<and> serials' = serials + 1 \<and> ne_version e = version \<and> version \<noteq> None"
  by (auto simp: entry_of_def Let_def split: option.splits)

lemma fine_take_one: "fine gs (take_one host taken gs)"
proof (cases taken)
  case (TakenLatch index r)
  show ?thesis
    by (rule fine_entry [where i = 0]) (simp_all add: TakenLatch take_one_def Let_def entry_at_def)
next
  case (TakenBuffer index r versioned key)
  let ?slots = "resized (index + 1) empty_slot (gs_slots gs)"
  have at: "entry_at j gs = (if j < length ?slots then sl_current (?slots ! j) else empty_entry)" for j
    by (auto simp: entry_at_def nth_resized empty_slot_def not_less)
  show ?thesis
  proof (cases "\<exists>b. versioned = Some b \<and> gh_live host b")
    case True
    then obtain b where b: "versioned = Some b" "gh_live host b" by blast
    obtain e serials where e: "entry_of host r (gh_current host b) None None (gs_serials gs) = (e, serials)" by fastforce
    from entry_of_props [OF e] show ?thesis
      by (intro fine_entry [where i = index])
        (auto simp: TakenBuffer take_one_def Let_def b e entry_at_def [where gs = "_\<lparr>gs_slots := _\<rparr>"] at nth_list_update
          entry_at_def [where gs = "_\<lparr>gs_changed := _\<rparr>"] entry_at_def [where gs = "_\<lparr>gs_serials := _\<rparr>"] split: if_splits)
  next
    case False
    then have t: "take_one host taken gs = gs\<lparr>gs_slots := ?slots[index := (?slots ! index)\<lparr>sl_registration := Some r,
        sl_buffer := versioned, sl_key := key, sl_made := False\<rparr>], gs_changed := True\<rparr>"
      by (auto simp: TakenBuffer take_one_def Let_def split: option.split)
    show ?thesis unfolding t
      by (rule fine_entry [where i = index]) (auto simp: at entry_at_def [where gs = "_\<lparr>gs_slots := _\<rparr>"] nth_list_update
          entry_at_def [where gs = "_\<lparr>gs_changed := _\<rparr>"])
  qed
qed

lemma fine_take_registered: "fine gs (take_registered host gs)"
  unfolding take_registered_def
  by (rule fine_trans [OF fine_quiet fine_fold]) (simp_all add: quiet_def fine_take_one)


lemma quiet_bump [simp]: "quiet gs (bump f gs)"
  by (simp add: quiet_def bump_def)

lemma quiet_upd:
  assumes "\<And>s. sl_current (f s) = sl_current s \<and> sl_registration (f s) = sl_registration s \<and> sl_made (f s) = sl_made s \<and>
    sl_buffer (f s) = sl_buffer s"
  shows "quiet gs (upd_slot i f gs)"
proof -
  have "sl_current ((gs_slots gs)[i := f (gs_slots gs ! i)] ! j) = sl_current (gs_slots gs ! j) \<and>
      sl_registration ((gs_slots gs)[i := f (gs_slots gs ! i)] ! j) = sl_registration (gs_slots gs ! j) \<and>
      sl_made ((gs_slots gs)[i := f (gs_slots gs ! i)] ! j) = sl_made (gs_slots gs ! j) \<and>
      sl_buffer ((gs_slots gs)[i := f (gs_slots gs ! i)] ! j) = sl_buffer (gs_slots gs ! j)" if "j < length (gs_slots gs)" for j
    using that assms by (cases "j = i") simp_all
  then show ?thesis by (simp add: quiet_def upd_slot_def)
qed

lemma quiet_asked [simp]: "quiet gs (upd_slot i (\<lambda>s. s\<lparr>sl_asked := u s\<rparr>) gs)"
  by (rule quiet_upd) simp

lemma quiet_window [simp]: "quiet gs (upd_slot i (\<lambda>s. s\<lparr>sl_window := u s\<rparr>) gs)"
  by (rule quiet_upd) simp

lemma quiet_fold: "(\<And>x gs. quiet gs (f x gs)) \<Longrightarrow> quiet gs (fold f xs gs)"
  by (induction xs arbitrary: gs) (auto intro: quiet_trans)

lemma fine_settle_slot: "fine gs (settle_slot host x gs)"
proof (cases x)
  case (Pair index grown)
  let ?gs1 = "upd_slot index (\<lambda>s. s\<lparr>sl_asked := 0\<rparr>) gs"
  have q: "quiet gs ?gs1" by simp
  show ?thesis
  proof (cases "\<exists>g r. grown = Some g \<and> sl_registration (gs_slots ?gs1 ! index) = Some r")
    case False
    then have "settle_slot host x gs = ?gs1" by (auto simp: settle_slot_def Pair Let_def split: option.splits)
    then show ?thesis using fine_quiet [OF q] by simp
  next
    case True
    then obtain g r where gr: "grown = Some g" "sl_registration (gs_slots ?gs1 ! index) = Some r" by blast
    obtain e serials where e: "entry_of host r (Some (gv_version g)) (gv_stamp g) (Some (ve_pool (gv_version g), gv_lease g))
        (gs_serials ?gs1) = (e, serials)" by fastforce
    let ?gs2 = "(upd_slot index (\<lambda>s. s\<lparr>sl_current := e, sl_made := True\<rparr>) ?gs1)\<lparr>gs_serials := serials, gs_changed := True\<rparr>"
    have s: "settle_slot host x gs = bump (\<lambda>s. s\<lparr>ss_grown := ss_grown s + 1\<rparr>) ?gs2"
      using gr e by (simp add: settle_slot_def Pair Let_def)
    have "fine ?gs1 ?gs2"
      by (rule fine_entry [where i = index]) (use entry_of_props [OF e] in \<open>auto simp: upd_slot_def entry_at_def nth_list_update\<close>)
    then show ?thesis unfolding s using fine_trans [OF fine_quiet [OF q]] fine_trans fine_quiet quiet_bump by blast
  qed
qed

lemma quiet_batch [simp]: "quiet gs (gs\<lparr>gs_batch := ba\<rparr>)" "quiet gs (gs\<lparr>gs_failure := f\<rparr>)" "quiet gs (gs\<lparr>gs_failure := f, gs_batch := ba\<rparr>)"
  "quiet gs (gs\<lparr>gs_stats := t\<rparr>)"
  by (simp_all add: quiet_def)

lemma fine_settle: "fine gs (settle host gs)"
proof (cases "gs_batch gs")
  case (Some ba)
  have "fine gs (fold (settle_slot host) xs gs)" for xs by (rule fine_fold) (rule fine_settle_slot)
  moreover have "fine b (bump f b\<lparr>gs_failure := e, gs_batch := None\<rparr>)" "fine b (b\<lparr>gs_batch := None\<rparr>)" for b e f
    using fine_quiet quiet_trans quiet_bump quiet_batch by blast+
  ultimately have "fine gs (bump f (fold (settle_slot host) xs gs)\<lparr>gs_failure := e, gs_batch := None\<rparr>)"
    "fine gs ((fold (settle_slot host) xs gs)\<lparr>gs_batch := None\<rparr>)" for e f xs
    by (blast intro: fine_trans)+
  then show ?thesis by (simp add: settle_def Some split: batch_state.split)
qed (simp add: settle_def)

lemma fine_drop_expired: "fine gs (drop_expired host i gs)"
  by (rule fine_entry [where i = i]) (auto simp: drop_expired_def entry_at_def nth_list_update empty_slot_def slot_names_def)

lemma fine_begin_build: "fine gs (begin_build host gs)"
proof -
  have "fine b (fold (drop_expired host) xs b)" for b xs by (rule fine_fold) (rule fine_drop_expired)
  then show ?thesis
    unfolding begin_build_def Let_def by (meson fine_settle fine_take_registered fine_trans)
qed

text \<open>The parts of \<open>Seal\<close>.\<close>

lemma quiet_growth_asks: "quiet gs (fst (growth_asks required ixs gs))"
proof (induction ixs arbitrary: gs)
  case (Cons i ixs)
  let ?gs1 = "upd_slot i (\<lambda>s. s\<lparr>sl_window := reset_window (sl_window s)\<rparr>) gs"
  have "quiet gs (fst (growth_asks required ixs ?gs1))" by (rule quiet_trans [OF quiet_window Cons.IH])
  then show ?case by (auto simp: Let_def split: sum.splits prod.splits)
qed simp

lemma quiet_shrink_asks: "quiet gs (fst (shrink_asks now required ixs gs))"
proof (induction ixs arbitrary: gs)
  case (Cons i ixs)
  have w: "quiet gs (upd_slot i (sl_window_update (\<lambda>_. w)) gs)" for w by (rule quiet_window)
  have "quiet gs (fst (shrink_asks now required ixs (upd_slot i (sl_window_update (\<lambda>_. w)) gs)))" for w
    by (rule quiet_trans [OF w Cons.IH])
  moreover from this have "shrink_asks now required ixs (upd_slot i (sl_window_update (\<lambda>_. w)) gs) = (gs2, r) \<Longrightarrow> quiet gs gs2" for w gs2 r
    by (metis fst_conv)
  ultimately show ?case using Cons.IH w by (auto simp: Let_def split: sum.split prod.split option.split)
qed simp

lemma quiet_post_loop: "quiet gs (fst (post_loop host asks gs slots requests))"
proof (induction asks arbitrary: gs slots requests)
  case (Cons ask asks)
  obtain index units where ask: "ask = (index, units)" by fastforce
  have q: "quiet gs (upd_slot index (sl_asked_update (\<lambda>_. units)) gs)" "quiet gs (upd_slot index (sl_asked_update (\<lambda>_. units)) (bump f gs))" for f
    by (rule quiet_asked quiet_trans [OF quiet_bump quiet_asked])+
  show ?case
    using Cons.IH quiet_trans [OF q(1) Cons.IH] quiet_trans [OF q(2) Cons.IH] by (auto simp: ask Let_def split: option.split)
qed simp

lemma quiet_post: "quiet gs (fst (post host accepts asks gs))"
proof -
  obtain gs1 r where p: "post_loop host asks gs [] [] = (gs1, r)" by fastforce
  have q: "quiet gs gs1" using quiet_post_loop [of gs host asks "[]" "[]"] by (simp add: p)
  have f: "quiet b (fold (\<lambda>i. upd_slot i (\<lambda>s. s\<lparr>sl_asked := 0\<rparr>)) xs b)" for b :: grow_set and xs
    by (rule quiet_fold) simp
  have b: "quiet gs1 (bump t (gs1\<lparr>gs_batch := ba\<rparr>))" for t ba using quiet_trans [OF quiet_batch(1) quiet_bump] .
  have d: "quiet gs1 (bump u (fold (\<lambda>i. upd_slot i (\<lambda>s. s\<lparr>sl_asked := 0\<rparr>)) xs (bump t (gs1\<lparr>gs_batch := ba\<rparr>)\<lparr>gs_batch := None\<rparr>)))"
    for t u ba xs
    using quiet_trans [OF b quiet_trans [OF quiet_batch(1) quiet_trans [OF f quiet_bump]]] .
  show ?thesis
    using quiet_trans [OF q b] quiet_trans [OF q d] q by (simp add: post_def p Let_def split: sum.split prod.split)
qed

lemma fine_seal_latches: "fine gs (fst (seal_latches host asks i gs))"
proof (induction asks arbitrary: i gs)
  case (Cons ask asks)
  have step: "fine gs (bump t (gs\<lparr>gs_latchSlots := ls, gs_blocks := n, gs_changed := True\<rparr>))" for t ls n
    by (rule fine_trans [OF fine_entry [where i = 0] fine_quiet [OF quiet_bump]]) (simp_all add: entry_at_def)
  have "fine gs (fst (seal_latches host asks j (bump t (gs\<lparr>gs_latchSlots := ls, gs_blocks := n, gs_changed := True\<rparr>))))" for j t ls n
    by (rule fine_trans [OF step Cons.IH])
  with Cons.IH show ?case by (auto simp: Let_def split: sum.split option.split)
qed simp

lemma fine_seal_named: "fine gs (fst (seal_named host gs))"
proof (cases "\<not> gs_changed gs \<and> gs_last gs \<noteq> None")
  case True
  then show ?thesis using fine_quiet [OF quiet_bump] by (auto simp: seal_named_def)
next
  case False
  define nv where "nv = name_versions host gs"
  have nv: "nv_serial nv = gs_serials gs + 1" "nv_entries nv = slot_names gs" "nv_latches nv = map ls_block (gs_latchSlots gs)"
    by (simp_all add: nv_def name_versions_def slot_names_def)
  define gs1 where "gs1 = gs\<lparr>gs_last := Some nv, gs_changed := False, gs_serials := gs_serials gs + 1\<rparr>"
  have s: "fst (seal_named host gs) = bump (\<lambda>t. t\<lparr>ss_sealed := ss_sealed t + 1\<rparr>) gs1"
    using False by (auto simp: seal_named_def Let_def gs1_def nv_def split: bool.split option.split)
  have e: "entry_at i gs1 = entry_at i gs" for i by (simp add: entry_at_def gs1_def)
  have g: "gs_serials gs1 = gs_serials gs + 1" "gs_slots gs1 = gs_slots gs" "gs_last gs1 = Some nv" "\<not> gs_changed gs1"
    "gs_latchSlots gs1 = gs_latchSlots gs"
    by (simp_all add: gs1_def)
  have "fine gs gs1"
    unfolding fine_def
  proof (intro impI conjI)
    assume ok: "serials_ok gs \<and> last_ok gs"
    have le: "ne_serial (entry_at i gs) \<le> gs_serials gs" for i using ok serials_okD by blast
    then have "\<not> gs_serials gs < ne_serial (entry_at i gs)" for i using not_less by blast
    then show m: "moved_on gs gs1" by (simp add: moved_on_def e g nv)
    show "serials_ok gs1" using ok le by (auto simp: serials_ok_def e g nv le_SucI)
    show "last_ok gs1" by (simp add: last_ok_def nv g slot_names_def)
  qed
  then show ?thesis unfolding s using fine_trans fine_quiet [OF quiet_bump] by blast
qed

lemma quiet_shrink_post:
  "quiet gs (fst (if gs_batch gs \<noteq> None then (gs, Inr ())
            else case shrink_asks now required ixs gs of
              (gs1, Inl e) \<Rightarrow> (gs1, Inl e)
            | (gs1, Inr asks) \<Rightarrow>
                if asks = [] then (gs1, Inr ())
                else (case post host accepts asks gs1 of
                        (gs2, Inl e) \<Rightarrow> (gs2, Inl e)
                      | (gs2, Inr accepted) \<Rightarrow>
                          (if accepted then gs2 else gs2\<lparr>gs_failure := f\<rparr>, Inr ()))))"
proof -
  obtain gs1 r where s: "shrink_asks now required ixs gs = (gs1, r)" by fastforce
  have q: "quiet gs gs1" using quiet_shrink_asks [where gs = gs and now = now and required = required and ixs = ixs] by (simp add: s)
  have "quiet gs (fst (post host accepts asks gs1))" for asks by (rule quiet_trans [OF q quiet_post])
  moreover from this have "quiet gs ((fst (post host accepts asks gs1))\<lparr>gs_failure := f\<rparr>)" for asks
    by (rule quiet_trans [OF _ quiet_batch(2)])
  ultimately show ?thesis using q by (auto simp: s split: sum.split prod.split) (metis fst_conv)+
qed

lemma fine_seal_met: "fine gs (fst (seal_met host accepts now required latches gs))"
proof -
  obtain gs3 r where s: "(if gs_batch gs \<noteq> None then (gs, Inr ())
            else case shrink_asks now required [0..<min (length required) (length (gs_slots gs))] gs of
              (gs1, Inl e) \<Rightarrow> (gs1, Inl e)
            | (gs1, Inr asks) \<Rightarrow>
                if asks = [] then (gs1, Inr ())
                else (case post host accepts asks gs1 of
                        (gs2, Inl e) \<Rightarrow> (gs2, Inl e)
                      | (gs2, Inr accepted) \<Rightarrow>
                          (if accepted then gs2 else gs2\<lparr>gs_failure := ''the shrink batch was refused''\<rparr>, Inr ()))) = (gs3, r)"
    by fastforce
  have q: "fine gs gs3"
    using fine_quiet [OF quiet_shrink_post [where gs = gs and now = now and required = required and
      ixs = "[0..<min (length required) (length (gs_slots gs))]" and host = host and accepts = accepts and
      f = "''the shrink batch was refused''"]] unfolding s by simp
  obtain gs4 r4 where l: "seal_latches host latches 0 gs3 = (gs4, r4)" by fastforce
  have f: "fine gs gs4" using fine_trans [OF q fine_seal_latches [of gs3 host latches 0]] by (simp add: l)
  have "fine gs (fst (seal_named host gs4))" by (rule fine_trans [OF f fine_seal_named])
  with q f show ?thesis
    unfolding seal_met_def s by (auto simp: l split: sum.split prod.split)
qed

lemma fine_seal: "fine gs (fst (seal host accepts now bd gs))"
proof -
  define g where "g = take_registered host gs"
  have t: "fine gs g" by (simp add: g_def fine_take_registered)
  have "fine gs (g\<lparr>gs_failure := []\<rparr>)" by (rule fine_trans [OF t fine_quiet [OF quiet_batch(2)]])
  then have a: "fine gs (fst (growth_asks required unmet (g\<lparr>gs_failure := []\<rparr>)))" for required unmet
    by (rule fine_trans [OF _ fine_quiet [OF quiet_growth_asks]])
  have p: "fine gs (fst (post host accepts asks (fst (growth_asks required unmet (g\<lparr>gs_failure := []\<rparr>)))))" for asks required unmet
    by (rule fine_trans [OF a fine_quiet [OF quiet_post]])
  have m: "fine gs (fst (seal_met host accepts now r2 l (fst (post host accepts asks (fst (growth_asks required unmet (g\<lparr>gs_failure := []\<rparr>)))))))"
    for r2 l asks required unmet by (rule fine_trans [OF p fine_seal_met])
  have m0: "fine gs (fst (seal_met host accepts now required l g))" for required l by (rule fine_trans [OF t fine_seal_met])
  show ?thesis
    unfolding seal_def Let_def g_def [symmetric]
    using t m0 by (auto split: sum.split prod.split bool.split) (metis a p m fst_conv)+
qed


lemma set_step_fine: "set_step gs gs' \<Longrightarrow> fine gs gs'"
proof (induction rule: set_step.induct)
  case (register gs host r)
  show ?case by (rule fine_entry [where i = 0])
    (simp_all add: register_buffer_def Let_def entry_at_def slot_names_def)
next
  case (register_latch gs lr)
  show ?case by (rule fine_entry [where i = 0]) (simp_all add: register_latch_def entry_at_def slot_names_def)
next
  case (others gs n)
  show ?case by (rule fine_entry [where i = 0]) (simp_all add: others_take_def entry_at_def slot_names_def)
next
  case (handle gs host key)
  have "fst (handle_of host key gs) = take_registered host gs" by (simp add: handle_of_def Let_def split: option.split)
  then show ?case by (simp add: fine_take_registered)
next
  case (begin_build gs host)
  show ?case by (rule fine_begin_build)
next
  case (seal gs host accepts now bd)
  show ?case by (rule fine_seal)
next
  case (settle gs ba grown error)
  show ?case by (rule fine_quiet) (rule quiet_batch)
next
  case (stats gs)
  show ?case by (rule fine_quiet) (simp add: take_stats_def)
qed

lemma set_run_fine: "set_step\<^sup>*\<^sup>* gs gs' \<Longrightarrow> fine gs gs'"
  by (induction rule: rtranclp_induct) (auto intro: fine_trans set_step_fine)

lemma new_set_ok: "serials_ok (new_set n) \<and> last_ok (new_set n)"
  by (simp add: serials_ok_def last_ok_def new_set_def entry_at_def)

lemma reachable_ok: "set_step\<^sup>*\<^sup>* (new_set n) gs \<Longrightarrow> serials_ok gs \<and> last_ok gs"
  using set_run_fine new_set_ok unfolding fine_def by blast

section \<open>What a seal names\<close>

lemma seal_latches_slots: "gs_slots (fst (seal_latches host asks i gs)) = gs_slots gs"
proof (induction asks arbitrary: i gs)
  case (Cons ask asks)
  then show ?case by (simp add: Let_def bump_def split: sum.split option.split)
qed simp

lemma seal_named_last:
  assumes "seal_named host gs = (gs', sd)"
  obtains nv where "sd_named sd = Some nv" and "gs_last gs' = Some nv" and "gs_slots gs' = gs_slots gs" and "\<not> gs_changed gs'"
  using assms by (auto simp: seal_named_def Let_def bump_def split: bool.splits option.splits)

lemma seal_met_names:
  assumes ok: "serials_ok gs" "last_ok gs" and run: "seal_met host accepts now required latches gs = (gs', Inr sd)"
  obtains nv where "sd_named sd = Some nv" and "gs_last gs' = Some nv" and "nv_entries nv = slot_names gs"
    and "slot_names gs' = slot_names gs" and "\<And>i. entry_at i gs' = entry_at i gs"
proof -
  obtain gs3 r where s: "(if gs_batch gs \<noteq> None then (gs, Inr ())
            else case shrink_asks now required [0..<min (length required) (length (gs_slots gs))] gs of
              (gs1, Inl e) \<Rightarrow> (gs1, Inl e)
            | (gs1, Inr asks) \<Rightarrow>
                if asks = [] then (gs1, Inr ())
                else (case post host accepts asks gs1 of
                        (gs2, Inl e) \<Rightarrow> (gs2, Inl e)
                      | (gs2, Inr accepted) \<Rightarrow>
                          (if accepted then gs2 else gs2\<lparr>gs_failure := ''the shrink batch was refused''\<rparr>, Inr ()))) = (gs3, r)"
    by fastforce
  have q: "quiet gs gs3"
    using quiet_shrink_post [where gs = gs and now = now and required = required and
      ixs = "[0..<min (length required) (length (gs_slots gs))]" and host = host and accepts = accepts and
      f = "''the shrink batch was refused''"] unfolding s by simp
  obtain gs4 where l: "seal_latches host latches 0 gs3 = (gs4, Inr ())" and n: "seal_named host gs4 = (gs', sd)"
    using run unfolding seal_met_def s by (auto split: sum.splits prod.splits)
  have slots: "gs_slots gs4 = gs_slots gs3" using seal_latches_slots [of host latches 0 gs3] by (simp add: l)
  obtain nv where nv: "sd_named sd = Some nv" "gs_last gs' = Some nv" "gs_slots gs' = gs_slots gs4" "\<not> gs_changed gs'"
    by (rule seal_named_last [OF n])
  have "last_ok gs'" using fine_seal_met [of gs host accepts now required latches] ok run by (simp add: fine_def)
  then have "nv_entries nv = slot_names gs'" using nv(2,4) by (simp add: last_ok_def)
  moreover have "slot_names gs' = slot_names gs" using nv(3) slots quiet_names [OF q] by (simp add: slot_names_def)
  moreover have "entry_at i gs' = entry_at i gs3" for i using nv(3) slots by (simp add: entry_at_def)
  then have "entry_at i gs' = entry_at i gs" for i using quiet_entries [OF q] by simp
  ultimately show ?thesis using nv(1,2) that by simp
qed

definition dead :: "grow_host \<Rightarrow> slot \<Rightarrow> bool" where
  "dead host s \<longleftrightarrow> sl_registration s = None \<or> expired host s"

lemma post_loop_grows: "post_loop host asks gs slots requests = (gs', Inr (slots', requests')) \<Longrightarrow> length requests \<le> length requests'"
proof (induction asks arbitrary: gs slots requests)
  case (Cons ask asks)
  then show ?case by (cases ask) (auto simp: Let_def split: option.splits if_splits dest!: Cons.IH)
qed simp

lemma post_loop_dead:
  "post_loop host asks gs slots [] = (gs', Inr (slots', [])) \<Longrightarrow> (\<forall>x \<in> set asks. dead host (gs_slots gs ! fst x)) \<and> gs' = gs"
proof (induction asks arbitrary: gs slots)
  case (Cons ask asks)
  obtain index units where ask: "ask = (index, units)" by fastforce
  have no: "post_loop host asks g sl [q] \<noteq> (gs', Inr (slots', []))" for g sl q using post_loop_grows by fastforce
  show ?case using Cons.prems no
    by (auto simp: ask Let_def dead_def expired_def split: option.splits if_splits dest!: Cons.IH)
qed simp

lemma growth_asks_fst: "growth_asks required ixs gs = (gs', Inr asks) \<Longrightarrow> map fst asks = ixs"
proof (induction ixs arbitrary: gs asks)
  case (Cons i ixs)
  then show ?case by (auto simp: Let_def split: sum.splits prod.splits)
qed simp

lemma unmet_loop_props:
  "unmet_loop gs rs i = Inr ixs \<Longrightarrow> j < length rs \<Longrightarrow> rq_units (rs ! j) \<noteq> 0 \<or> rq_newerThan (rs ! j) \<noteq> 0 \<Longrightarrow>
    i + j < length (gs_slots gs) \<and> sl_registration (gs_slots gs ! (i + j)) \<noteq> None \<and>
    (i + j \<in> set ixs \<or> met_by (rs ! j) (ne_units (entry_at (i + j) gs)) (ne_serial (entry_at (i + j) gs)))"
proof (induction rs arbitrary: i j ixs)
  case (Cons r rs)
  show ?case
  proof (cases j)
    case 0
    with Cons.prems show ?thesis by (auto simp: entry_at_def split: if_splits sum.splits)
  next
    case (Suc k)
    have "\<exists>ixs'. unmet_loop gs rs (i + 1) = Inr ixs' \<and> set ixs' \<subseteq> set ixs"
      using Cons.prems(1) by (auto split: if_splits sum.splits)
    then obtain ixs' where "unmet_loop gs rs (i + 1) = Inr ixs'" "set ixs' \<subseteq> set ixs" by blast
    with Cons.IH [of "i + 1" ixs' k] Cons.prems(2,3) Suc show ?thesis by auto
  qed
qed simp

lemma unmet_loop_inside: "unmet_loop gs rs i = Inr ixs \<Longrightarrow> x \<in> set ixs \<Longrightarrow> x < length (gs_slots gs)"
proof (induction rs arbitrary: i ixs)
  case (Cons r rs)
  then show ?case by (auto split: if_split_asm sum.split_asm)
qed simp

text \<open>Where a seal names a set: nothing live is unmet.\<close>

lemma seal_names:
  assumes ok: "serials_ok gs0" "last_ok gs0" and run: "seal host accepts now bd gs0 = (gs', Inr sd)" and named: "sd_named sd = Some nv"
  defines "gs \<equiv> take_registered host gs0"
  obtains lacking where "unmet_loop gs (ba_required bd) 0 = Inr lacking"
    and "\<forall>i \<in> set (with_zeros host gs lacking). dead host (gs_slots gs ! i)"
    and "gs_last gs' = Some nv" and "nv_entries nv = slot_names gs" and "slot_names gs' = slot_names gs"
    and "\<And>i. entry_at i gs' = entry_at i gs"
proof -
  have okt: "serials_ok gs" "last_ok gs" using fine_take_registered [of gs0 host] ok by (auto simp: gs_def fine_def)
  obtain lacking where l: "unmet_loop gs (ba_required bd) 0 = Inr lacking"
    using run by (auto simp: seal_def Let_def gs_def split: sum.splits)
  let ?unmet = "with_zeros host gs lacking" and ?required = "resized (length (gs_slots gs)) no_requirement (ba_required bd)"
  show ?thesis
  proof (cases "?unmet = []")
    case True
    then have m: "seal_met host accepts now ?required (ba_latches bd) gs = (gs', Inr sd)"
      using run l by (simp add: seal_def Let_def gs_def)
    obtain nv' where n: "sd_named sd = Some nv'" "gs_last gs' = Some nv'" "nv_entries nv' = slot_names gs"
      "slot_names gs' = slot_names gs" "\<And>i. entry_at i gs' = entry_at i gs"
      by (rule seal_met_names [OF okt m]) blast
    show ?thesis by (rule that [OF l]) (use n True named in simp_all)
  next
    case False
    obtain gs2 asks gs3 where a: "growth_asks ?required ?unmet (gs\<lparr>gs_failure := []\<rparr>) = (gs2, Inr asks)"
      and p: "post host accepts asks gs2 = (gs3, Inr True)" and b: "gs_batch gs3 = None"
      and m: "seal_met host accepts now ?required (ba_latches bd) gs3 = (gs', Inr sd)"
      using run l False named by (auto simp: seal_def Let_def gs_def split: if_splits sum.splits prod.splits bool.splits)
    have q2: "quiet gs gs2"
    proof -
      have "quiet (gs\<lparr>gs_failure := []\<rparr>) gs2" using quiet_growth_asks [of "gs\<lparr>gs_failure := []\<rparr>" ?required ?unmet] a by simp
      then show ?thesis using quiet_trans [OF quiet_batch(2)] by blast
    qed
    have q: "quiet gs gs3" using quiet_trans [OF q2 quiet_post] p by (metis fst_conv)
    obtain slots where pl: "post_loop host asks gs2 [] [] = (gs3, Inr (slots, []))"
      using p b by (auto simp: post_def Let_def bump_def split: sum.splits prod.splits if_splits)
    have dead2: "\<forall>x \<in> set asks. dead host (gs_slots gs2 ! fst x)" using post_loop_dead [OF pl] by blast
    have fsts: "map fst asks = ?unmet" by (rule growth_asks_fst [OF a])
    have "dead host (gs_slots gs ! i)" if i: "i \<in> set ?unmet" for i
    proof -
      have "i \<in> fst ` set asks" using i fsts by (metis list.set_map)
      then have d: "dead host (gs_slots gs2 ! i)" using dead2 by auto
      have "i < length (gs_slots gs)"
      proof (rule ccontr)
        assume "\<not> i < length (gs_slots gs)"
        then have "i \<in> set lacking" using i by (auto simp: with_zeros_def)
        then show False using unmet_loop_inside [OF l] \<open>\<not> i < length (gs_slots gs)\<close> by blast
      qed
      with d q2 show ?thesis by (simp add: dead_def expired_def quiet_def)
    qed
    then have all: "\<forall>i \<in> set ?unmet. dead host (gs_slots gs ! i)" by blast
    obtain nv' where n: "sd_named sd = Some nv'" "gs_last gs' = Some nv'" "nv_entries nv' = slot_names gs3"
      "slot_names gs' = slot_names gs3" "\<And>i. entry_at i gs' = entry_at i gs3"
      by (rule seal_met_names [OF quiet_keeps(1) [OF q okt(1)] quiet_keeps(2) [OF q okt(2)] m]) blast
    show ?thesis by (rule that [OF l all]) (use n named quiet_names [OF q] quiet_entries [OF q] in simp_all)
  qed
qed


text \<open>
  Claim C21. A requirement a set cannot meet is not sealed: whenever, after any run of the set's
  operations on any hosts, a seal names a set, then for every requirement of the build whose
  buffer lives the set names a version with at least the required units and newer than the
  required serial.
\<close>

theorem sealed_meets_requirements:
  assumes "set_step\<^sup>*\<^sup>* (new_set n) gs" and "seal host accepts now bd gs = (gs', Inr sd)" and "sd_named sd = Some nv"
    and "i < length (ba_required bd)" and "rq_units (ba_required bd ! i) \<noteq> 0 \<or> rq_newerThan (ba_required bd ! i) \<noteq> 0"
    and "\<not> expired host (gs_slots (take_registered host gs) ! i)"
  shows "\<exists>e. of_handle i nv = Inr e \<and> rq_units (ba_required bd ! i) \<le> ne_units e \<and> rq_newerThan (ba_required bd ! i) < ne_serial e"
proof -
  let ?gs = "take_registered host gs"
  have ok: "serials_ok gs" "last_ok gs" using reachable_ok [OF assms(1)] by blast+
  have okt: "serials_ok ?gs" using fine_take_registered [of gs host] ok by (simp add: fine_def)
  obtain lacking where l: "unmet_loop ?gs (ba_required bd) 0 = Inr lacking"
    and d: "\<forall>i \<in> set (with_zeros host ?gs lacking). dead host (gs_slots ?gs ! i)" and e: "nv_entries nv = slot_names ?gs"
    by (rule seal_names [OF ok assms(2,3)])
  have u: "i < length (gs_slots ?gs)" "sl_registration (gs_slots ?gs ! i) \<noteq> None"
    "i \<in> set lacking \<or> met_by (ba_required bd ! i) (ne_units (entry_at i ?gs)) (ne_serial (entry_at i ?gs))"
    using unmet_loop_props [OF l assms(4,5)] by simp_all
  have alive: "\<not> dead host (gs_slots ?gs ! i)" using u(2) assms(6) by (simp add: dead_def)
  then have nin: "i \<notin> set (with_zeros host ?gs lacking)" using d by blast
  then have met: "met_by (ba_required bd ! i) (ne_units (entry_at i ?gs)) (ne_serial (entry_at i ?gs))"
    using u(3) by (auto simp: with_zeros_def)
  then have "ne_serial (entry_at i ?gs) \<noteq> 0" by (simp add: met_by_def)
  then have v: "ne_version (entry_at i ?gs) \<noteq> None" using okt unfolding serials_ok_def by (metis empty_entry_simps(1))
  have "\<not> zero_unmade host (gs_slots ?gs ! i)" using nin u(1) by (auto simp: with_zeros_def)
  then have named: "named_slot (gs_slots ?gs ! i)"
    using u v alive by (auto simp: named_slot_def zero_unmade_def dead_def entry_at_def split: option.splits)
  have "nv_entries nv ! i = entry_at i ?gs" "length (nv_entries nv) = length (gs_slots ?gs)"
    using u(1) named by (simp_all add: e slot_names_def entry_at_def)
  then show ?thesis using met v u(1) by (simp add: of_handle_def names_handle_def met_by_def)
qed

text \<open>
  Claim C22. A serial names one thing for the whole process: of two sets sealed at any two times,
  with any run between them, the later's serial is at least the earlier's, equal exactly when
  it is the very same set; and entries with equal serials are the same entry, of the same handle.
\<close>

theorem serials_name_versions:
  assumes "set_step\<^sup>*\<^sup>* (new_set n) gs" and "seal host accepts now bd gs = (gs1, Inr sd)" and "sd_named sd = Some nv"
    and "set_step\<^sup>*\<^sup>* gs1 gs2" and "seal host' accepts' now' bd' gs2 = (gs3, Inr sd')" and "sd_named sd' = Some nv'"
  shows "nv_serial nv \<le> nv_serial nv' \<and> (nv_serial nv = nv_serial nv' \<longleftrightarrow> nv' = nv) \<and>
    (\<forall>i j e e'. of_handle i nv = Inr e \<and> of_handle j nv' = Inr e' \<and> ne_serial e = ne_serial e' \<longrightarrow> i = j \<and> e' = e)"
proof -
  have ok: "serials_ok gs" "last_ok gs" using reachable_ok [OF assms(1)] by blast+
  have ok1: "serials_ok gs1" "last_ok gs1" using fine_seal [of gs host accepts now bd] assms(2) ok by (simp_all add: fine_def)
  have ok2: "serials_ok gs2" "last_ok gs2" using set_run_fine [OF assms(4)] ok1 by (simp_all add: fine_def)
  have m: "moved_on gs1 gs3"
    using fine_trans [OF set_run_fine [OF assms(4)] fine_seal [of gs2 host' accepts' now' bd']] assms(5) ok1 by (simp add: fine_def)
  obtain lacking where a: "gs_last gs1 = Some nv" "nv_entries nv = slot_names gs1"
    by (rule seal_names [OF ok assms(2,3)]) simp
  obtain lacking' where b: "gs_last gs3 = Some nv'" "nv_entries nv' = slot_names gs3"
    by (rule seal_names [OF ok2 assms(5,6)]) simp
  have "nv_serial nv \<le> gs_serials gs1" using ok1(1) a(1) by (simp add: serials_ok_def)
  moreover have "nv' = nv \<or> gs_serials gs1 < nv_serial nv'" using m a(1) b(1) by (auto simp: moved_on_def)
  ultimately have sets: "nv_serial nv \<le> nv_serial nv' \<and> (nv_serial nv = nv_serial nv' \<longleftrightarrow> nv' = nv)" by auto
  have ent: "x = entry_at k g \<and> ne_version x \<noteq> None" if "of_handle k v = Inr x" "nv_entries v = slot_names g" for k v x g
    using that by (auto simp: of_handle_def names_handle_def slot_names_def entry_at_def split: if_splits)
  have "i = j \<and> e' = e" if i: "of_handle i nv = Inr e" and j: "of_handle j nv' = Inr e'" and s: "ne_serial e = ne_serial e'" for i j e e'
  proof -
    note ei = ent [OF i a(2)] and ej = ent [OF j b(2)]
    have le: "ne_serial e \<le> gs_serials gs1" and nz: "ne_serial e \<noteq> 0" using ok1(1) ei by (auto simp: serials_ok_def)
    have "entry_at j gs3 = entry_at j gs1"
      using m ej s le unfolding moved_on_def by (metis empty_entry_simps(2) leD)
    then have "e' = entry_at j gs1" using ej by simp
    with ei s nz ok1(1) show ?thesis unfolding serials_ok_def by metis
  qed
  with sets show ?thesis by blast
qed


section \<open>An example set\<close>

definition demo_version :: buffer_version where
  "demo_version = \<lparr>ve_number = 0, ve_buffer = 3, ve_pool = 0, ve_lease = 0\<rparr>"

definition demo_host :: grow_host where
  "demo_host = \<lparr>gh_live = (\<lambda>_. True), gh_key = (\<lambda>b. b), gh_current = (\<lambda>_. Some demo_version), gh_size = (\<lambda>_. 64),
     gh_srv = (\<lambda>_. None), gh_addressOf = None, gh_uploads = True, gh_pool = Some 0, gh_latchStride = (\<lambda>n. n)\<rparr>"

definition demo_registration :: growable_registration where
  "demo_registration = \<lparr>gb_name = ''rows'', gb_buffer = Some 5,
     gb_extent = \<lparr>be_fixedBytes = 0, be_unitBytes = 4, be_structuredStride = 0\<rparr>, gb_policy = doubling 1, gb_shrink = never,
     gb_contents = Fresh, gb_capture = None, gb_address = False, gb_pool = None\<rparr>"

definition demo_registered :: grow_set where
  "demo_registered = fst (register_buffer demo_host demo_registration (new_set 0))"

definition demo_seal :: "nat \<Rightarrow> grow_set \<Rightarrow> grow_set \<times> sealed result" where
  "demo_seal units = seal demo_host (\<lambda>_. True) 0 \<lparr>ba_required = [\<lparr>rq_units = units, rq_newerThan = 0\<rparr>], ba_latches = []\<rparr>"

lemmas set_eval = demo_seal_def demo_registered_def demo_registration_def demo_host_def demo_version_def register_buffer_def new_set_def
  seal_def take_registered_def take_one_def resized_def empty_slot_def entry_of_def units_in_def insert_handle_def met_by_def
  with_zeros_def zero_unmade_def seal_met_def no_requirement_def never_def shrinks_def seal_named_def name_versions_def named_slot_def
  bump_def no_stats_def expired_def Let_def

lemma demo_sealed:
  obtains gs' sd nv where "demo_seal 10 demo_registered = (gs', Inr sd)" and "sd_named sd = Some nv" and "nv_serial nv = 3"
  by (simp add: set_eval)

lemma demo_run: "set_step\<^sup>*\<^sup>* (new_set 0) demo_registered"
  unfolding demo_registered_def by (rule r_into_rtranclp) (rule set_step.register)

theorem sealed_meets_requirements_witness:
  "\<exists>gs' sd nv e. demo_seal 10 demo_registered = (gs', Inr sd) \<and> sd_named sd = Some nv \<and> of_handle 0 nv = Inr e \<and> 10 \<le> ne_units e"
proof -
  obtain gs' sd nv where s: "demo_seal 10 demo_registered = (gs', Inr sd)" "sd_named sd = Some nv" "nv_serial nv = 3"
    by (rule demo_sealed)
  have alive: "\<not> expired demo_host (gs_slots (take_registered demo_host demo_registered) ! 0)" by (simp add: set_eval)
  from sealed_meets_requirements [OF demo_run s(1) [unfolded demo_seal_def] s(2) _ _ alive] s show ?thesis by auto
qed

theorem serials_name_versions_witness:
  "\<exists>gs1 sd nv gs2 sd' nv'. demo_seal 10 demo_registered = (gs1, Inr sd) \<and> sd_named sd = Some nv \<and>
     demo_seal 11 gs1 = (gs2, Inr sd') \<and> sd_named sd' = Some nv' \<and> nv' = nv \<and> nv_serial nv = 3"
proof -
  obtain gs1 sd nv where s: "demo_seal 10 demo_registered = (gs1, Inr sd)" "sd_named sd = Some nv" "nv_serial nv = 3"
    by (rule demo_sealed)
  obtain gs2 sd' nv' where t: "demo_seal 11 gs1 = (gs2, Inr sd')" "sd_named sd' = Some nv'" "nv_serial nv' = 3"
    using s(1) by (auto simp: set_eval)
  from serials_name_versions [OF demo_run s(1) [unfolded demo_seal_def] s(2) rtranclp.rtrancl_refl t(1) [unfolded demo_seal_def] t(2)]
  have "nv' = nv" using s(3) t(3) by simp
  with s t show ?thesis by blast
qed

end
