(* ===== verification/GrowthProps.thy ===== *)
theory GrowthProps
  imports VersionGrowth BuildDemo
begin

text \<open>
  Growths on pools: what they hold when they return, and that a growth that throws has let go of
  everything it leased.
\<close>

section \<open>Fills\<close>

lemma queue_fills_pools: "queue_fills env buffer room fills st tickets = (st', r) \<Longrightarrow> go_pools st' = go_pools st"
proof (induction fills arbitrary: st tickets)
  case (Cons fill fills)
  then show ?case by (auto simp: Let_def split: if_splits option.splits dest!: Cons.IH)
qed simp

text \<open>
  What was queued since, each call within the version: the code's check sums offset and bytes in
  64 bits, so a copy ends inside its version unless that sum wraps.
\<close>

definition calls_fit :: "growth_env \<Rightarrow> gpu_call list \<Rightarrow> bool" where
  "calls_fit env calls \<longleftrightarrow>
     (\<forall>c \<in> set calls. \<exists>segments bytes dst offset. c = UploadSegments segments bytes dst offset \<and>
        bytes = length (concat segments) \<and>
        (offset + bytes \<le> ge_size env dst \<or> 2 ^ 64 \<le> offset + bytes \<and> u64 (offset + bytes) \<le> ge_size env dst))"

lemma u64_check: "\<not> room < u64 n \<Longrightarrow> n \<le> room \<or> 2 ^ 64 \<le> n \<and> u64 n \<le> room"
  by (cases "n < 2 ^ 64") (simp_all add: u64_def)

lemma queue_fills_fit:
  "queue_fills env buffer (ge_size env buffer) fills st tickets = (st', r) \<Longrightarrow>
    \<exists>cs. go_calls st' = go_calls st @ cs \<and> calls_fit env cs"
proof (induction fills arbitrary: st tickets)
  case Nil
  then show ?case by (simp add: calls_fit_def)
next
  case (Cons fill fills)
  define n where "n = sum_list (map length (vf_segments fill))"
  show ?case
  proof (cases "n = 0 \<or> ge_size env buffer < u64 (vf_offset fill + n) \<or>
      ge_serve env (go_calls st) (UploadSegments (vf_segments fill) n buffer (vf_offset fill)) = None")
    case True
    then show ?thesis
      using Cons.prems Cons.IH [of st tickets] by (auto simp: n_def [symmetric] Let_def calls_fit_def split: if_splits option.splits)
  next
    case False
    define call where "call = UploadSegments (vf_segments fill) n buffer (vf_offset fill)"
    obtain t where t: "ge_serve env (go_calls st) call = Some t" using False by (auto simp: call_def)
    have "queue_fills env buffer (ge_size env buffer) fills (st\<lparr>go_calls := go_calls st @ [call]\<rparr>) (tickets @ [t]) = (st', r)"
      using Cons.prems False t by (simp add: n_def [symmetric] call_def Let_def)
    from Cons.IH [OF this] obtain cs where "go_calls st' = go_calls st @ call # cs" "calls_fit env cs" by auto
    moreover have "calls_fit env (call # cs)"
      using u64_check [of "ge_size env buffer" "vf_offset fill + n"] False \<open>calls_fit env cs\<close>
      by (auto simp: calls_fit_def call_def n_def sum_lengths)
    ultimately show ?thesis by blast
  qed
qed

section \<open>Leases\<close>

definition pools_ok :: "growth_state \<Rightarrow> bool" where
  "pools_ok st \<longleftrightarrow> (\<forall>i. state_ok (go_pools st i))"

definition known :: "growth_state \<Rightarrow> nat \<Rightarrow> nat \<Rightarrow> bool" where
  "known st i q \<longleftrightarrow> q < pl_next (fst (go_pools st i))"

text \<open>The leases a list of versions holds: the version's own and its maker's copy.\<close>

definition held_by :: "grown_version list \<Rightarrow> nat \<Rightarrow> nat \<Rightarrow> nat" where
  "held_by made i q = 2 * length (filter (\<lambda>g. ve_pool (gv_version g) = i \<and> gv_lease g = q) made)"

definition own_lease :: "grown_version \<Rightarrow> bool" where
  "own_lease g \<longleftrightarrow> ve_lease (gv_version g) = gv_lease g"

text \<open>The leases of every backing, the ones a pool has not allocated (yet) having none.\<close>

definition live_leases :: "growth_state \<Rightarrow> nat \<Rightarrow> nat \<Rightarrow> nat" where
  "live_leases st i q = (if known st i q then leases_of st i q else 0)"

lemma next_in_pool [simp]: "pl_next (fst (go_pools (in_pool i (lease_reset r) st) j)) = pl_next (fst (go_pools st j))"
  "pl_next (fst (go_pools (in_pool i (lease_take p) st) j)) = pl_next (fst (go_pools st j))"
  by (simp_all add: in_pool_def lease_reset_def lease_take_def upd_backing_def upd_home_def Let_def split: option.split)

lemma leases_reset: "live_leases (in_pool i (lease_reset (Some p)) st) j q = live_leases st j q - (if j = i \<and> q = p then 1 else 0)"
  by (auto simp: live_leases_def known_def) (simp_all add: leases_of_def in_pool_def lease_reset_heap)

lemma leases_take: "live_leases st i p \<noteq> 0 \<Longrightarrow>
    live_leases (in_pool i (lease_take p) st) j q = live_leases st j q + (if j = i \<and> q = p then 1 else 0)"
  by (auto simp: live_leases_def known_def split: if_splits) (simp_all add: leases_of_def in_pool_def lease_take_def upd_backing_def)

lemma leases_calls [simp]: "live_leases (st\<lparr>go_calls := cs\<rparr>) = live_leases st" "live_leases (st\<lparr>go_versions := n\<rparr>) = live_leases st"
  by (intro ext; simp add: live_leases_def leases_of_def known_def)+

lemma leases_drop: "own_lease g \<Longrightarrow> live_leases (drop_grown g st) i q = live_leases st i q - held_by [g] i q"
  by (auto simp: drop_grown_def release_version_def leases_reset own_lease_def held_by_def)

lemma leases_drops:
  "\<forall>g \<in> set made. own_lease g \<Longrightarrow> live_leases (fold drop_grown made st) i q = live_leases st i q - held_by made i q"
proof (induction made arbitrary: st)
  case (Cons g made)
  then show ?case by (simp add: leases_drop) (simp add: held_by_def)
qed (simp add: held_by_def)

text \<open>An acquire from one of the pools.\<close>

lemma acquire_leases:
  assumes ok: "pools_ok st" and acq: "acquire alloc racing rq prefer (go_pools st i) = (pst, r)"
  defines "st1 \<equiv> st\<lparr>go_pools := (go_pools st)(i := pst)\<rparr>"
  shows "pools_ok st1" and "live_leases st1 j q = live_leases st j q + (if j = i \<and> granted r = Some q then 1 else 0)"
    and "known st j q \<Longrightarrow> known st1 j q"
proof -
  obtain pl ck pl' ck' where s: "go_pools st i = (pl, ck)" "pst = (pl', ck')" by (cases "go_pools st i"; cases pst) auto
  have pok: "state_ok (pl, ck)" using ok s by (metis pools_ok_def)
  note a = acq [unfolded s]
  have "state_ok (pl', ck')" by (rule acquire_ok [OF pok a])
  then show "pools_ok st1" using ok by (simp add: pools_ok_def st1_def s)
  have more: "pl_next pl \<le> pl_next pl'" using acquire_frame [OF pok a] by blast
  then show "known st j q \<Longrightarrow> known st1 j q" using s by (auto simp: known_def st1_def)
  have new: "q < pl_next pl'" if "granted r = Some q"
  proof -
    have "\<exists>info. r = Inr (Some q, info)" using that by (cases r) (auto simp: granted_def)
    then have "q \<in> set (pl_all pl')" using acquire_grant [OF pok] a by blast
    then show ?thesis using \<open>state_ok (pl', ck')\<close> by (simp add: state_ok_def pool_ok_def lists_okD(6))
  qed
  show "live_leases st1 j q = live_leases st j q + (if j = i \<and> granted r = Some q then 1 else 0)"
  proof (cases "j = i")
    case True
    show ?thesis
    proof (cases "q < pl_next pl'")
      case alloc: True
      then show ?thesis using acquire_keeps(1) [OF pok a alloc] True s
        by (simp add: live_leases_def leases_of_def known_def leases_before_def st1_def)
    next
      case False
      then show ?thesis using more new True s by (auto simp: live_leases_def known_def st1_def)
    qed
  qed (simp add: live_leases_def leases_of_def known_def st1_def)
qed


lemma state_ok_take:
  assumes "pools_ok st" and "live_leases st i p \<noteq> 0"
  shows "pools_ok (in_pool i (lease_take p) st)"
proof -
  obtain pl ck where s: "go_pools st i = (pl, ck)" by (cases "go_pools st i")
  have "other_step (pl, ck) 0 (lease_take p pl, ck)" by (rule other_step.copy) (use assms(2) s in \<open>simp add: live_leases_def leases_of_def split: if_splits\<close>)
  then have "state_ok (lease_take p pl, ck)" using other_step_ok assms(1) s unfolding pools_ok_def by metis
  then show ?thesis using assms(1) s by (simp add: pools_ok_def in_pool_def)
qed

lemma known_frames [simp]: "known (in_pool i (lease_take p) st) j q = known st j q"
  "known (st\<lparr>go_versions := n\<rparr>) j q = known st j q" "pools_ok (st\<lparr>go_versions := n\<rparr>) = pools_ok st"
  by (auto simp: known_def in_pool_def lease_take_def upd_backing_def pools_ok_def)

lemma fill_version_leases:
  assumes run: "fill_version env r i p buffer st tickets = (st', out)" and ok: "pools_ok st" and one: "live_leases st i p \<noteq> 0"
  shows "case out of
      Inl e \<Rightarrow> live_leases st' j q = live_leases st j q - (if j = i \<and> q = p then 1 else 0)
    | Inr (g, _) \<Rightarrow> pools_ok st' \<and> own_lease g \<and> ve_pool (gv_version g) = i \<and> gv_lease g = p \<and>
        live_leases st' j q = live_leases st j q + (if j = i \<and> q = p then 1 else 0)"
proof -
  define st1 where "st1 = (in_pool i (lease_take p) st)\<lparr>go_versions := go_versions st + 1\<rparr>"
  define v where "v = \<lparr>ve_number = go_versions st, ve_buffer = buffer, ve_pool = i, ve_lease = p\<rparr>"
  define g where "g = \<lparr>gv_version = v, gv_lease = p, gv_stamp = None\<rparr>"
  have st1: "live_leases st1 j q = live_leases st j q + (if j = i \<and> q = p then 1 else 0)" "pools_ok st1" for j q
    using state_ok_take [OF ok one] by (simp_all add: st1_def leases_take [OF one])
  have own: "own_lease (g\<lparr>gv_stamp := s\<rparr>)" "ve_pool (gv_version (g\<lparr>gv_stamp := s\<rparr>)) = i" "gv_lease (g\<lparr>gv_stamp := s\<rparr>) = p" for s
    by (simp_all add: g_def v_def own_lease_def)
  have gone: "live_leases (drop_grown g s) j q = live_leases s j q - (if j = i \<and> q = p then 2 else 0)" for s j q
    using leases_drop [of g s j q] by (auto simp: g_def v_def own_lease_def held_by_def)
  define same where "same s \<longleftrightarrow> live_leases s = live_leases st1 \<and> pools_ok s" for s
  have same1: "same st1" using st1(2) by (simp add: same_def)
  have queued: "same s" if "queue_fills env buffer room fills st1 tickets = (s, x)" for s x room fills
    using queue_fills_pools [OF that] st1(2) unfolding same_def by (intro conjI ext) (simp_all add: live_leases_def leases_of_def pools_ok_def known_def)
  have "(\<exists>s e. out = Inl e \<and> st' = drop_grown g s \<and> same s) \<or> (\<exists>stamp ts. out = Inr (g\<lparr>gv_stamp := stamp\<rparr>, ts) \<and> same st')"
    using run same1 unfolding fill_version_def Let_def st1_def [symmetric] v_def [symmetric] g_def [symmetric]
    by (auto split: sum.splits prod.splits option.splits if_splits dest!: queued)
  then show ?thesis using gone st1 own by (auto simp: same_def)
qed

text \<open>One request: two leases more on its backing, or everything as before.\<close>

lemma make_and_fill_leases:
  assumes run: "make_and_fill env r st tickets = (st', out)" and ok: "pools_ok st"
  shows "case out of
      Inl e \<Rightarrow> live_leases st' j q = live_leases st j q
    | Inr (g, _) \<Rightarrow> pools_ok st' \<and> own_lease g \<and> live_leases st' j q = live_leases st j q + held_by [g] j q"
proof (cases "\<exists>b i pst p info buffer. gr_buffer r = Some b \<and> gr_pool r = Some i \<and>
    acquire (ge_alloc env i) (ge_racing env i) (growth_backing r (ge_get env b)) (- 1) (go_pools st i) = (pst, Inr (Some p, info)) \<and>
    bk_buffer (pl_heap (fst pst) p) = Some buffer \<and>
    fill_version env r i p buffer (st\<lparr>go_pools := (go_pools st)(i := pst)\<rparr>) tickets = (st', out)")
  case True
  then obtain b i pst p info buffer where
    a: "acquire (ge_alloc env i) (ge_racing env i) (growth_backing r (ge_get env b)) (- 1) (go_pools st i) = (pst, Inr (Some p, info))"
    and f: "fill_version env r i p buffer (st\<lparr>go_pools := (go_pools st)(i := pst)\<rparr>) tickets = (st', out)" by blast
  note acq = acquire_leases [OF ok a]
  have one: "live_leases (st\<lparr>go_pools := (go_pools st)(i := pst)\<rparr>) i p \<noteq> 0" using acq(2) by (simp add: granted_def)
  from fill_version_leases [OF f acq(1) one, of j q] acq(2) show ?thesis
    by (auto simp: granted_def held_by_def split: sum.splits prod.splits if_splits)
next
  case False
  note failed = run [unfolded make_and_fill_def Let_def]
  consider "\<exists>e. out = Inl e" "st' = st"
    | i pst res rq e where "acquire (ge_alloc env i) (ge_racing env i) rq (- 1) (go_pools st i) = (pst, res)" "granted res = None"
      "out = Inl e" "st' = st\<lparr>go_pools := (go_pools st)(i := pst)\<rparr>"
    | i pst p info rq e where "acquire (ge_alloc env i) (ge_racing env i) rq (- 1) (go_pools st i) = (pst, Inr (Some p, info))"
      "out = Inl e" "st' = in_pool i (lease_reset (Some p)) (st\<lparr>go_pools := (go_pools st)(i := pst)\<rparr>)"
    using failed False by (fastforce simp: granted_def split: option.splits if_splits prod.splits sum.splits)
  then show ?thesis
  proof cases
    case 1
    then show ?thesis by auto
  next
    case (2 i pst res rq e)
    from acquire_leases(2) [OF ok 2(1)] 2 show ?thesis by simp
  next
    case (3 i pst p info rq e)
    from acquire_leases(2) [OF ok 3(1)] 3(2,3) show ?thesis by (simp add: leases_reset granted_def)
  qed
qed


section \<open>Growths that go together\<close>

lemma held_by_append: "held_by (xs @ ys) i q = held_by xs i q + held_by ys i q"
  by (simp add: held_by_def)

lemma grow_loop_leases:
  assumes "grow_loop env rs st made tickets = (st', out)" and "pools_ok st" and "\<forall>g \<in> set made. own_lease g"
  shows "case out of
      Inl e \<Rightarrow> live_leases st' i q = live_leases st i q - held_by made i q
    | Inr (made', _) \<Rightarrow> pools_ok st' \<and> (\<exists>new. made' = made @ new \<and> length new = length rs \<and> 
        live_leases st' i q = live_leases st i q + held_by new i q)"
  using assms
proof (induction rs arbitrary: st made tickets)
  case Nil
  then show ?case by (auto simp: held_by_def)
next
  case (Cons r rs)
  obtain st1 res where m: "make_and_fill env r st tickets = (st1, res)" by fastforce
  note one = make_and_fill_leases [OF m Cons.prems(2)]
  show ?case
  proof (cases res)
    case (Inl e)
    then have "out = Inl e" "st' = fold drop_grown made st1" using Cons.prems(1) m by simp_all
    then show ?thesis using one leases_drops [OF Cons.prems(3)] Inl by simp
  next
    case (Inr x)
    obtain g ts where x: "x = (g, ts)" by (cases x)
    have o: "pools_ok st1" "own_lease g" "live_leases st1 i q = live_leases st i q + held_by [g] i q"
      using one Inr x by simp_all
    have "grow_loop env rs st1 (made @ [g]) ts = (st', out)" using Cons.prems(1) m Inr x by simp
    from Cons.IH [OF this o(1)] o(2) Cons.prems(3)
    have "case out of
        Inl e \<Rightarrow> live_leases st' i q = live_leases st1 i q - held_by (made @ [g]) i q
      | Inr (made', _) \<Rightarrow> pools_ok st' \<and> (\<exists>new. made' = (made @ [g]) @ new \<and> length new = length rs \<and>
          live_leases st' i q = live_leases st1 i q + held_by new i q)" by simp
    moreover have "live_leases st1 i q - held_by (made @ [g]) i q = live_leases st i q - held_by made i q"
      using o(3) by (simp add: held_by_append)
    moreover have "live_leases st1 i q + held_by new i q = live_leases st i q + held_by (g # new) i q" for new
      using o(3) held_by_append [of "[g]" new] by simp
    ultimately show ?thesis
      by (cases out) (simp, force)
  qed
qed

lemma drop_calls [simp]: "go_calls (drop_grown g st) = go_calls st" "go_calls (in_pool i f st) = go_calls st"
  by (simp_all add: drop_grown_def release_version_def in_pool_def)

lemma fold_drop_calls [simp]: "go_calls (fold drop_grown made st) = go_calls st"
  by (induction made arbitrary: st) simp_all

lemma make_and_fill_calls: "make_and_fill env r st tickets = (st', out) \<Longrightarrow> \<exists>cs. go_calls st' = go_calls st @ cs \<and> calls_fit env cs"
proof -
  assume run: "make_and_fill env r st tickets = (st', out)"
  have none: "\<exists>cs. go_calls st = go_calls st @ cs \<and> calls_fit env cs" for st by (rule exI [of _ "[]"]) (simp add: calls_fit_def)
  have fill: "\<exists>cs. go_calls s' = go_calls s @ cs \<and> calls_fit env cs" if "fill_version env r i p buffer s tickets = (s', x)" for i p buffer s s' x
    using that none [of s]
    by (auto simp: fill_version_def Let_def split: sum.splits prod.splits option.splits if_splits dest!: queue_fills_fit)
  show ?thesis using run none [of st] by (auto simp: make_and_fill_def Let_def split: option.splits if_splits prod.splits sum.splits dest!: fill)
qed

lemma calls_fit_append: "calls_fit env (xs @ ys) = (calls_fit env xs \<and> calls_fit env ys)"
  by (auto simp: calls_fit_def)

lemma grow_loop_calls: "grow_loop env rs st made tickets = (st', out) \<Longrightarrow> \<exists>cs. go_calls st' = go_calls st @ cs \<and> calls_fit env cs"
proof (induction rs arbitrary: st made tickets)
  case Nil
  then show ?case by (simp add: calls_fit_def)
next
  case (Cons r rs)
  obtain st1 res where m: "make_and_fill env r st tickets = (st1, res)" by fastforce
  obtain cs where cs: "go_calls st1 = go_calls st @ cs" "calls_fit env cs" using make_and_fill_calls [OF m] by blast
  show ?case
  proof (cases res)
    case (Inl e)
    then show ?thesis using Cons.prems m cs by auto
  next
    case (Inr x)
    obtain g ts where x: "x = (g, ts)" by (cases x)
    have "grow_loop env rs st1 (made @ [g]) ts = (st', out)" using Cons.prems m Inr x by simp
    from Cons.IH [OF this] obtain cs' where "go_calls st' = go_calls st1 @ cs'" "calls_fit env cs'" by blast
    then have "go_calls st' = go_calls st @ (cs @ cs') \<and> calls_fit env (cs @ cs')" using cs by (simp add: calls_fit_append)
    then show ?thesis by blast
  qed
qed

text \<open>No pool forgets a backing.\<close>

lemma drop_next [simp]: "pl_next (fst (go_pools (drop_grown g st) i)) = pl_next (fst (go_pools st i))"
  by (simp add: drop_grown_def release_version_def)

lemma fold_drop_next [simp]: "pl_next (fst (go_pools (fold drop_grown made st) i)) = pl_next (fst (go_pools st i))"
  by (induction made arbitrary: st) simp_all

lemma fill_version_next:
  "fill_version env r i p buffer st tickets = (st', out) \<Longrightarrow> pl_next (fst (go_pools st' j)) = pl_next (fst (go_pools st j))"
  by (auto simp: fill_version_def Let_def split: sum.splits prod.splits option.splits if_splits dest!: queue_fills_pools)

lemma make_and_fill_next:
  assumes "make_and_fill env r st tickets = (st', out)" and "pools_ok st" and "known st j q"
  shows "known st' j q"
proof -
  have k: "known (st\<lparr>go_pools := (go_pools st)(i := pst)\<rparr>) j q"
    if "acquire alloc racing rq prefer (go_pools st i) = (pst, r)" for alloc racing rq "prefer" i pst r
    by (rule acquire_leases(3) [OF assms(2) that assms(3)])
  show ?thesis using assms(1,3)
    by (auto simp: make_and_fill_def Let_def split: option.splits if_splits prod.splits sum.splits
        dest!: k fill_version_next [where j = j]) (simp_all add: known_def)
qed

lemma grow_loop_next:
  "grow_loop env rs st made tickets = (st', out) \<Longrightarrow> pools_ok st \<Longrightarrow> known st j q \<Longrightarrow> known st' j q"
proof (induction rs arbitrary: st made tickets)
  case (Cons r rs)
  obtain st1 res where m: "make_and_fill env r st tickets = (st1, res)" by fastforce
  note k = make_and_fill_next [OF m Cons.prems(2,3)] and o = make_and_fill_leases [OF m Cons.prems(2)]
  show ?case
  proof (cases res)
    case (Inl e)
    then show ?thesis using Cons.prems(1) m k by (auto simp: known_def)
  next
    case (Inr x)
    obtain g ts where x: "x = (g, ts)" by (cases x)
    have "grow_loop env rs st1 (made @ [g]) ts = (st', out)" "pools_ok st1" using Cons.prems(1) m Inr x o by simp_all
    then show ?thesis using Cons.IH k by blast
  qed
qed simp

text \<open>
  Claim C23. Versions that grow together are made all or not at all: whatever request throws
  (no buffer, no pool, an exhausted pool, a capture that throws, a refused or misplaced fill),
  every backing of every pool has the leases it had, and those allocated on the way have none
  (\<open>live_leases\<close> is 0 for a backing that is not allocated); when they return, there is a version
  for each request and each holds exactly two leases of its backing, its own and its maker's,
  whether that was reused or allocated, and no other backing has one more. Each copy queued passed the code's
  check against the size of its version: it ends inside the version, unless its offset and size
  add up past 64 bits, where that check wraps.
\<close>

theorem growths_all_or_nothing:
  assumes "pools_ok st" and "grow_versions env rs st = (st', out)"
  shows "(\<exists>cs. go_calls st' = go_calls st @ cs \<and> calls_fit env cs) \<and>
    (\<forall>i q. known st i q \<longrightarrow> known st' i q) \<and>
    (case out of
       Inl e \<Rightarrow> \<forall>i q. live_leases st' i q = live_leases st i q
     | Inr (made, ready) \<Rightarrow> length made = length rs \<and>
         (\<forall>i q. live_leases st' i q = live_leases st i q + held_by made i q))"
proof -
  obtain res where l: "grow_loop env rs st [] [] = (st', res)"
    and out: "out = (case res of Inl e \<Rightarrow> Inl e | Inr (made, ts) \<Rightarrow> Inr (made, token_for_tickets (map Some ts)))"
    using assms(2) by (auto simp: grow_versions_def split: prod.splits sum.splits)
  have n: "length made = length rs" if "res = Inr (made, ts)" for made ts
  proof -
    have "grow_loop env rs st made0 ts0 = (st', Inr (made, ts)) \<Longrightarrow> length made = length made0 + length rs" for st made0 ts0
    proof (induction rs arbitrary: st made0 ts0)
      case (Cons r rs)
      then show ?case by (fastforce split: prod.splits sum.splits dest: Cons.IH)
    qed simp
    with l that show ?thesis by fastforce
  qed
  have "case out of
       Inl e \<Rightarrow> live_leases st' i q = live_leases st i q
     | Inr (made, ready) \<Rightarrow> live_leases st' i q = live_leases st i q + held_by made i q" for i q
    using grow_loop_leases [OF l assms(1), of i q] by (auto simp: out held_by_def split: sum.splits prod.splits)
  then show ?thesis
    using grow_loop_calls [OF l] grow_loop_next [OF l assms(1)] n by (auto simp: out split: sum.splits prod.splits)
qed

text \<open>The check of a fill wraps: two bytes at offset \<open>2 ^ 64 - 1\<close> pass it.\<close>

lemma wrapped_fill_passes:
  assumes "ge_serve env (go_calls st) (UploadSegments [[1, 2]] 2 buffer (2 ^ 64 - 1)) = Some t"
  shows "queue_fills env buffer 1 [\<lparr>vf_offset = 2 ^ 64 - 1, vf_segments = [[1, 2]]\<rparr>] st [] =
    (st\<lparr>go_calls := go_calls st @ [UploadSegments [[1, 2]] 2 buffer (2 ^ 64 - 1)]\<rparr>, Inr [t])"
  using assms by (simp add: u64_def Let_def flip: numeral_2_eq_2)

definition demo_growth :: "nat \<Rightarrow> growth_request" where
  "demo_growth offset = \<lparr>gr_buffer = Some 0, gr_elements = 4, gr_bytes = 0,
     gr_fills = [\<lparr>vf_offset = offset, vf_segments = [[1, 2]]\<rparr>], gr_contentsOf = None, gr_uploads = True, gr_pool = Some 0,
     gr_capacityClass = 4, gr_stride = 8, gr_flags = no_flags, gr_compatibility = 0, gr_name = []\<rparr>"

definition demo_growth_env :: growth_env where
  "demo_growth_env = \<lparr>ge_alloc = (\<lambda>_. demo_alloc), ge_racing = (\<lambda>_. (no_race, no_race)), ge_get = (\<lambda>_. None),
     ge_size = (\<lambda>_. 32), ge_serve = (\<lambda>calls _. Some (length calls))\<rparr>"

definition demo_growth_state :: "pool_state \<Rightarrow> growth_state" where
  "demo_growth_state pst = \<lparr>go_pools = (\<lambda>_. pst), go_calls = [], go_versions = 0\<rparr>"

text \<open>The second request has no pool: what the first leased goes back.\<close>

theorem growths_all_or_nothing_witness:
  "\<exists>st' e. grow_versions demo_growth_env [demo_growth 0, (demo_growth 0)\<lparr>gr_pool := None\<rparr>]
       (demo_growth_state (demo_returned False 0)) = (st', Inl e) \<and> live_leases st' 0 0 = 0"
proof -
  let ?st = "demo_growth_state (demo_returned False 0)"
  have ok: "pools_ok ?st"
    using pool_reachable_ok [OF demo_returned_reachable [of 0 False]] by (simp add: pools_ok_def demo_growth_state_def)
  obtain st' out where g: "grow_versions demo_growth_env [demo_growth 0, (demo_growth 0)\<lparr>gr_pool := None\<rparr>] ?st = (st', out)"
    by fastforce
  have "make_and_fill demo_growth_env ((demo_growth 0)\<lparr>gr_pool := None\<rparr>) st ts = (st, Inl (InvalidArgument ''GrowVersion: has no pool''))"
    for st ts by (simp add: make_and_fill_def demo_growth_def)
  then obtain e where e: "out = Inl e" using g by (auto simp: grow_versions_def split: prod.splits sum.splits)
  have none: "live_leases ?st 0 0 = 0"
    by (simp add: live_leases_def known_def leases_of_def demo_growth_state_def demo_returned_def demo_pool_def demo_backing_def blank_backing_def)
  from growths_all_or_nothing [OF ok g] e none g show ?thesis by auto
qed

end
