(* ===== verification/JournaledSet.thy ===== *)
theory JournaledSet
  imports VersionGrowth
begin

text \<open>
  \<^verbatim>\<open>src/JournaledBufferSet.cpp\<close>: buffers published together by journal catch-up. Each part has a pool
  (part \<open>i\<close>'s is pool \<open>i\<close> of a \<open>growth_state\<close>). A part's \<open>emit\<close> is host code: what it does is a
  function from its target to the writes it makes through the sink, in order, and what it returns
  or throws after them; a write that throws ends it. The upload service answers a call with a
  ticket or null, and \<open>js_cancelled\<close> says which tickets are cancelled at once.
\<close>

section \<open>The sink\<close>

datatype sink_write =
    WriteRun "byte list" nat
  | WriteSegments "byte list list" nat
  | WriteRanges "byte patch list"

record sink =
  sk_tickets :: "nat list"
  sk_bytes :: nat
  sk_runs :: nat
  sk_firstByte :: "nat option"

definition new_sink :: "nat list \<Rightarrow> sink" where
  "new_sink tickets = \<lparr>sk_tickets = tickets, sk_bytes = 0, sk_runs = 0, sk_firstByte = None\<rparr>"

record sink_env =
  js_serve :: "gpu_call list \<Rightarrow> gpu_call \<Rightarrow> nat option"
  js_cancelled :: "nat \<Rightarrow> bool"

definition check_range :: "backing \<Rightarrow> nat \<Rightarrow> nat \<Rightarrow> nat \<Rightarrow> exn option" where
  "check_range target floor' offset bytes =
     (if offset > bk_byteCapacity target \<or> bytes > bk_byteCapacity target - offset
      then Some (OutOfRange ''JournaledSink: a write past its backing'')
      else if offset < floor' then Some (LogicError ''JournaledSink: an append below its backing's sealed mark'')
      else None)"

definition lowest_byte :: "nat option \<Rightarrow> nat \<Rightarrow> nat option" where
  "lowest_byte first offset = (case first of None \<Rightarrow> Some offset | Some f \<Rightarrow> Some (min f offset))"

text \<open>What both kinds of \<open>Write\<close> share once the ranges are checked: the backing, the call, its ticket.\<close>

definition queue_write ::
  "sink_env \<Rightarrow> backing \<Rightarrow> (nat \<Rightarrow> gpu_call) \<Rightarrow> bool \<Rightarrow> gpu_call list \<Rightarrow> gpu_call list \<times> nat result" where
  "queue_write env target call refuses_cancelled calls =
     (case bk_buffer target of
        None \<Rightarrow> (calls, Inl (LogicError ''JournaledSink: the backing has no buffer''))
      | Some buffer \<Rightarrow>
          if bk_retired target then (calls, Inl (LogicError ''JournaledSink: the backing was retired before its write''))
          else case js_serve env calls (call buffer) of
            None \<Rightarrow> (calls, Inl (RuntimeError ''JournaledSink: the uploader refused a write''))
          | Some t \<Rightarrow>
              if refuses_cancelled \<and> js_cancelled env t
              then (calls, Inl (RuntimeError ''JournaledSink: the uploader refused a write''))
              else (calls @ [call buffer], Inr t))"

definition write_segments ::
  "sink_env \<Rightarrow> backing \<Rightarrow> nat \<Rightarrow> byte list list \<Rightarrow> nat \<Rightarrow> gpu_call list \<Rightarrow> sink \<Rightarrow> gpu_call list \<times> sink result" where
  "write_segments env target floor' segments offset calls s =
     (let amount = length (concat segments) in
      if amount = 0 then (calls, Inr s)
      else case check_range target floor' offset amount of
        Some e \<Rightarrow> (calls, Inl e)
      | None \<Rightarrow>
          (case queue_write env target (\<lambda>b. UploadSegments segments amount b offset) False calls of
             (calls', Inl e) \<Rightarrow> (calls', Inl e)
           | (calls', Inr t) \<Rightarrow>
               (calls', Inr \<lparr>sk_tickets = sk_tickets s @ [t], sk_bytes = sk_bytes s + amount, sk_runs = sk_runs s + 1,
                  sk_firstByte = lowest_byte (sk_firstByte s) offset\<rparr>)))"

text \<open>The loop over the ranges: each checked, empty ones skipped.\<close>

fun scan_ranges ::
  "backing \<Rightarrow> nat \<Rightarrow> byte patch list \<Rightarrow> nat \<times> nat \<times> nat option \<Rightarrow> (nat \<times> nat \<times> nat option) result" where
  "scan_ranges target floor' [] found = Inr found"
| "scan_ranges target floor' (r # rs) (amount, runs, first) =
     (if snd r = [] then scan_ranges target floor' rs (amount, runs, first)
      else case check_range target floor' (fst r) (length (snd r)) of
        Some e \<Rightarrow> Inl e
      | None \<Rightarrow> scan_ranges target floor' rs (amount + length (snd r), runs + 1, lowest_byte first (fst r)))"

definition write_ranges ::
  "sink_env \<Rightarrow> backing \<Rightarrow> nat \<Rightarrow> byte patch list \<Rightarrow> gpu_call list \<Rightarrow> sink \<Rightarrow> gpu_call list \<times> sink result" where
  "write_ranges env target floor' ranges calls s =
     (case scan_ranges target floor' ranges (0, 0, None) of
        Inl e \<Rightarrow> (calls, Inl e)
      | Inr (amount, runs, first) \<Rightarrow>
          if amount = 0 then (calls, Inr s)
          else (case queue_write env target (UploadRanges ranges) True calls of
             (calls', Inl e) \<Rightarrow> (calls', Inl e)
           | (calls', Inr t) \<Rightarrow>
               (calls', Inr \<lparr>sk_tickets = sk_tickets s @ [t], sk_bytes = sk_bytes s + amount, sk_runs = sk_runs s + runs,
                  sk_firstByte = (case first of None \<Rightarrow> sk_firstByte s | Some f \<Rightarrow> lowest_byte (sk_firstByte s) f)\<rparr>)))"

fun sink_one ::
  "sink_env \<Rightarrow> backing \<Rightarrow> nat \<Rightarrow> sink_write \<Rightarrow> gpu_call list \<Rightarrow> sink \<Rightarrow> gpu_call list \<times> sink result" where
  "sink_one env target floor' (WriteRun data offset) calls s =
     (if data = [] then (calls, Inr s) else write_segments env target floor' [data] offset calls s)"
| "sink_one env target floor' (WriteSegments segments offset) calls s = write_segments env target floor' segments offset calls s"
| "sink_one env target floor' (WriteRanges ranges) calls s = write_ranges env target floor' ranges calls s"

fun sink_all ::
  "sink_env \<Rightarrow> backing \<Rightarrow> nat \<Rightarrow> sink_write list \<Rightarrow> gpu_call list \<Rightarrow> sink \<Rightarrow> gpu_call list \<times> sink result" where
  "sink_all env target floor' [] calls s = (calls, Inr s)"
| "sink_all env target floor' (w # ws) calls s =
     (case sink_one env target floor' w calls s of
        (calls', Inl e) \<Rightarrow> (calls', Inl e)
      | (calls', Inr s') \<Rightarrow> sink_all env target floor' ws calls' s')"

section \<open>The set\<close>

record part_config =
  pc_name :: string
  pc_stride :: nat
  pc_flags :: backing_flags
  pc_policy :: growth_policy

record part_state =
  pt_config :: part_config
  pt_highWater :: nat

record journaled_target =
  jt_contentEpoch :: u64
  jt_address :: nat
  jt_srvIndex :: nat
  jt_capacityUnits :: nat
  jt_allocated :: bool

record part_request =
  pr_units :: nat
  pr_preferEpoch :: u64
  pr_emit :: "(journaled_target \<Rightarrow> sink_write list \<times> u64 result) option"
  pr_appendInto :: "nat option"

record part_version =
  jv_lease :: "nat option"
  jv_address :: nat
  jv_srvIndex :: nat
  jv_units :: nat
  jv_capacityUnits :: nat
  jv_caughtUpFrom :: u64
  jv_contentEpoch :: u64
  jv_bytes :: nat
  jv_runs :: nat
  jv_allocated :: bool
  jv_appended :: bool
  jv_sealedFrom :: nat
  jv_firstByte :: "nat option"

definition absent_part :: part_version where
  "absent_part = \<lparr>jv_lease = None, jv_address = 0, jv_srvIndex = 0, jv_units = 0, jv_capacityUnits = 0, jv_caughtUpFrom = 0,
     jv_contentEpoch = 0, jv_bytes = 0, jv_runs = 0, jv_allocated = False, jv_appended = False, jv_sealedFrom = 0, jv_firstByte = None\<rparr>"

record journaled_publication =
  jp_parts :: "part_version list"
  jp_ready :: "nat list option"
  jp_bytes :: nat
  jp_runs :: nat

definition create_parts :: "part_config list \<Rightarrow> part_state list result" where
  "create_parts configs =
     (if \<exists>c \<in> set configs. pc_name c = [] then Inl (InvalidArgument ''JournaledBufferSet: a part without a name'')
      else Inr (map (\<lambda>c. \<lparr>pt_config = c, pt_highWater = 0\<rparr>) configs))"

definition unit_bytes :: "part_config \<Rightarrow> nat \<Rightarrow> nat" where
  "unit_bytes c units = (if pc_stride c \<noteq> 0 then u64 (units * pc_stride c) else units)"

text \<open>Whom a part writes into: its backing, whether it is an append, and what the acquire said.\<close>

definition part_backing ::
  "growth_env \<Rightarrow> nat \<Rightarrow> part_state \<Rightarrow> part_request \<Rightarrow> growth_state \<Rightarrow>
   growth_state \<times> part_state \<times> (nat \<times> bool \<times> nat \<times> bool) result" where
  "part_backing env i pt r st =
     (let c = pt_config pt; pl = fst (go_pools st i);
          other = (case pr_appendInto r of
            None \<Rightarrow> False
          | Some h \<Rightarrow> bk_stride (pl_heap pl h) \<noteq> pc_stride c \<or> bk_flags (pl_heap pl h) \<noteq> pc_flags c)
      in
      if other then (st, pt, Inl (InvalidArgument ''JournaledBufferSet::Publish: appends into another part's backing''))
      else case (case pr_appendInto r of
            None \<Rightarrow> None | Some h \<Rightarrow> if pr_units r \<le> bk_capacityClass (pl_heap pl h) then Some h else None) of
        Some h \<Rightarrow> (in_pool i (lease_take h) st, pt, Inr (h, True, bk_capacityClass (pl_heap pl h), False))
      | None \<Rightarrow>
          (case next_capacity (pc_policy c) (pt_highWater pt) (pr_units r) of
             Inl e \<Rightarrow> (st, pt, Inl e)
           | Inr cls \<Rightarrow>
               let pt1 = pt\<lparr>pt_highWater := max (pt_highWater pt) cls\<rparr>;
                   rq = \<lparr>rq_capacityClass = cls, rq_stride = pc_stride c, rq_flags = pc_flags c, rq_compatibility = 0,
                         rq_name = pc_name c, rq_like = None\<rparr>
               in case acquire (ge_alloc env i) (ge_racing env i) rq (pr_preferEpoch r) (go_pools st i) of
                    (pst, Inl e) \<Rightarrow> (st\<lparr>go_pools := (go_pools st)(i := pst)\<rparr>, pt1, Inl e)
                  | (pst, Inr (None, info)) \<Rightarrow>
                      (st\<lparr>go_pools := (go_pools st)(i := pst)\<rparr>, pt1,
                       Inl (RuntimeError ''JournaledBufferSet::Publish: exhausted its pool (Config::maxPerClass)''))
                  | (pst, Inr (Some p, info)) \<Rightarrow>
                      (in_pool i (upd_backing p (\<lambda>b. b\<lparr>bk_sealedBytes := 0\<rparr>)) (st\<lparr>go_pools := (go_pools st)(i := pst)\<rparr>), pt1,
                       Inr (p, False, cls, ai_allocated info))))"

text \<open>Once it has its backing: the emit, and the version. The lease taken is in the result, thrown or not.\<close>

definition write_part ::
  "sink_env \<Rightarrow> nat \<Rightarrow> part_config \<Rightarrow> part_request \<Rightarrow> (journaled_target \<Rightarrow> sink_write list \<times> u64 result) \<Rightarrow>
   nat \<times> bool \<times> nat \<times> bool \<Rightarrow> growth_state \<Rightarrow> nat list \<Rightarrow> growth_state \<times> (part_version \<times> nat list) result" where
  "write_part senv i c r writer lease st tickets =
     (case lease of (p, appending, cls, allocated) \<Rightarrow>
        let b = pl_heap (fst (go_pools st i)) p;
            sealedFrom = (if appending then bk_sealedBytes b else 0);
            target = \<lparr>jt_contentEpoch = (if allocated then 0 else bk_contentEpoch b), jt_address = bk_address b,
              jt_srvIndex = bk_srvIndex b, jt_capacityUnits = cls, jt_allocated = allocated\<rparr>;
            st1 = in_pool i (upd_backing p (\<lambda>b. b\<lparr>bk_contentEpoch := 0\<rparr>)) st
        in case sink_all senv b sealedFrom (fst (writer target)) (go_calls st1) (new_sink tickets) of
             (calls, Inl e) \<Rightarrow> (st1\<lparr>go_calls := calls\<rparr>, Inl e)
           | (calls, Inr s) \<Rightarrow>
               (let st2 = st1\<lparr>go_calls := calls\<rparr> in
                case snd (writer target) of
                  Inl e \<Rightarrow> (st2, Inl e)
                | Inr epoch \<Rightarrow>
                    (in_pool i (upd_backing p (\<lambda>b. b\<lparr>bk_contentEpoch := epoch, bk_sealedBytes := max sealedFrom (unit_bytes c (pr_units r))\<rparr>)) st2,
                     Inr (\<lparr>jv_lease = Some p, jv_address = bk_address b, jv_srvIndex = bk_srvIndex b, jv_units = pr_units r,
                       jv_capacityUnits = cls, jv_caughtUpFrom = jt_contentEpoch target, jv_contentEpoch = epoch, jv_bytes = sk_bytes s,
                       jv_runs = sk_runs s, jv_allocated = allocated, jv_appended = appending, jv_sealedFrom = sealedFrom,
                       jv_firstByte = sk_firstByte s\<rparr>, sk_tickets s))))"

text \<open>A backing that holds nothing any more; and then its lease gone.\<close>

definition mark_nothing :: "nat \<times> nat \<Rightarrow> growth_state \<Rightarrow> growth_state" where
  "mark_nothing lease st =
     (case lease of (i, p) \<Rightarrow> in_pool i (upd_backing p (\<lambda>b. b\<lparr>bk_contentEpoch := 0\<rparr>)) st)"

definition abandon :: "(nat \<times> nat) list \<Rightarrow> growth_state \<Rightarrow> growth_state" where
  "abandon leases st =
     fold (\<lambda>(i, p). in_pool i (lease_reset (Some p))) leases (fold mark_nothing leases st)"

text \<open>The loop over the parts: \<open>leases\<close> are those the publication holds so far.\<close>

fun publish_loop ::
  "growth_env \<Rightarrow> sink_env \<Rightarrow> nat \<Rightarrow> (part_state \<times> part_request) list \<Rightarrow> growth_state \<Rightarrow> part_state list \<Rightarrow>
   part_version list \<Rightarrow> (nat \<times> nat) list \<Rightarrow> nat list \<Rightarrow>
   growth_state \<times> part_state list \<times> (part_version list \<times> nat list) result" where
  "publish_loop env senv i [] st pts vs leases tickets = (st, pts, Inr (vs, tickets))"
| "publish_loop env senv i ((pt, r) # rest) st pts vs leases tickets =
     (case pr_emit r of
        None \<Rightarrow>
          if pr_units r = 0 then publish_loop env senv (i + 1) rest st (pts @ [pt]) (vs @ [absent_part]) leases tickets
          else (abandon leases st, pts @ pt # map fst rest, Inl (InvalidArgument ''JournaledBufferSet::Publish: has units and no emit''))
      | Some writer \<Rightarrow>
          (case part_backing env i pt r st of
             (st1, pt1, Inl e) \<Rightarrow> (abandon leases st1, pts @ pt1 # map fst rest, Inl e)
           | (st1, pt1, Inr lease) \<Rightarrow>
               (case write_part senv i (pt_config pt) r writer lease st1 tickets of
                  (st2, Inl e) \<Rightarrow> (abandon (leases @ [(i, fst lease)]) st2, pts @ pt1 # map fst rest, Inl e)
                | (st2, Inr (v, tickets')) \<Rightarrow>
                    publish_loop env senv (i + 1) rest st2 (pts @ [pt1]) (vs @ [v]) (leases @ [(i, fst lease)]) tickets')))"

definition publish ::
  "growth_env \<Rightarrow> sink_env \<Rightarrow> part_request list \<Rightarrow> growth_state \<times> part_state list \<Rightarrow>
   (growth_state \<times> part_state list) \<times> journaled_publication result" where
  "publish env senv requests set' =
     (case set' of (st, parts) \<Rightarrow>
        if length requests \<noteq> length parts
        then ((st, parts), Inl (InvalidArgument ''JournaledBufferSet::Publish: requests for parts''))
        else case publish_loop env senv 0 (zip parts requests) st [] [] [] [] of
          (st', parts', Inl e) \<Rightarrow> ((st', parts'), Inl e)
        | (st', parts', Inr (vs, tickets)) \<Rightarrow>
            ((st', parts'), Inr \<lparr>jp_parts = vs, jp_ready = token_for_tickets (map Some tickets),
               jp_bytes = sum_list (map jv_bytes vs), jp_runs = sum_list (map jv_runs vs)\<rparr>))"

definition publication_leases :: "journaled_publication \<Rightarrow> (nat \<times> nat) list" where
  "publication_leases pb =
     concat (map (\<lambda>(i, v). case jv_lease v of None \<Rightarrow> [] | Some p \<Rightarrow> [(i, p)]) (zip [0..<length (jp_parts pb)] (jp_parts pb)))"

definition discard :: "journaled_publication \<Rightarrow> growth_state \<Rightarrow> growth_state" where
  "discard pb st = fold mark_nothing (publication_leases pb) st"

definition bind_publication :: "journaled_publication \<Rightarrow> u64 \<Rightarrow> growth_state \<Rightarrow> growth_state" where
  "bind_publication pb safeAt st = fold (\<lambda>(i, p). in_pool i (lease_bind (Some p) safeAt)) (publication_leases pb) st"

end
