(* ===== verification/JournaledProps.thy ===== *)
theory JournaledProps
  imports JournaledSet GrowthProps
begin

text \<open>
  A publication writes only backings no published version names, or past the sealed mark of one:
  what a reader of a version sees never changes.
\<close>

section \<open>Calls above a mark\<close>

definition above :: "nat \<Rightarrow> nat \<Rightarrow> gpu_call \<Rightarrow> bool" where
  "above b m c \<longleftrightarrow>
     (case c of
        UploadSegments segments bytes dst offset \<Rightarrow> dst = b \<longrightarrow> m \<le> offset
      | UploadRanges ranges dst \<Rightarrow> dst = b \<longrightarrow> (\<forall>r \<in> set ranges. snd r = [] \<or> m \<le> fst r)
      | CopyRanges src ranges dst \<Rightarrow> dst \<noteq> b)"

lemma blit_above: "m \<le> off \<Longrightarrow> m \<le> length x \<Longrightarrow> take m (blit off bs x) = take m x \<and> m \<le> length (blit off bs x)"
  by (auto simp: blit_def min_def)

lemma blit_empty: "blit off [] x = x"
  by (simp add: blit_def)

lemma run_writes_above:
  "\<forall>r \<in> set ranges. snd r = [] \<or> m \<le> fst r \<Longrightarrow> m \<le> length x \<Longrightarrow>
    take m (run_writes ranges x) = take m x \<and> m \<le> length (run_writes ranges x)"
proof (induction ranges arbitrary: x)
  case (Cons r ranges)
  have "take m (blit (fst r) (snd r) x) = take m x \<and> m \<le> length (blit (fst r) (snd r) x)"
    using Cons.prems blit_above [of m "fst r" x "snd r"] blit_empty [of "fst r" x] by auto
  with Cons.IH [of "blit (fst r) (snd r) x"] Cons.prems(1) show ?case by (simp add: run_writes_Cons)
qed (simp add: run_writes_def)

lemma exec_above:
  assumes "above b m c" and "m \<le> length (mem b)"
  shows "take m (exec_call c mem b) = take m (mem b) \<and> m \<le> length (exec_call c mem b)"
proof (cases c)
  case (UploadRanges ranges dst)
  with assms run_writes_above [of ranges m "mem b"] show ?thesis by (auto simp: above_def)
qed (use assms blit_above in \<open>auto simp: above_def\<close>)

lemma exec_calls_above:
  "\<forall>c \<in> set cs. above b m c \<Longrightarrow> m \<le> length (mem b) \<Longrightarrow> take m (exec_calls cs mem b) = take m (mem b)"
proof (induction cs arbitrary: mem)
  case (Cons c cs)
  with exec_above [of b m c mem] Cons.IH [of "exec_call c mem"] show ?case by (simp add: exec_calls_def)
qed (simp add: exec_calls_def)

section \<open>The sink writes at or past its floor\<close>

lemma check_range_floor: "check_range target fl offset bytes = None \<Longrightarrow> fl \<le> offset"
  by (simp add: check_range_def split: if_splits)

lemma scan_ranges_floor:
  "scan_ranges target fl ranges found = Inr found' \<Longrightarrow> \<forall>r \<in> set ranges. snd r = [] \<or> fl \<le> fst r"
proof (induction ranges arbitrary: found)
  case (Cons r ranges)
  then show ?case by (cases found) (auto split: if_splits option.splits dest: check_range_floor)
qed simp

lemma queue_write_calls:
  "queue_write env target call x calls = (calls', r) \<Longrightarrow>
    calls' = calls \<or> (\<exists>buffer. bk_buffer target = Some buffer \<and> calls' = calls @ [call buffer])"
  by (auto simp: queue_write_def split: option.splits if_splits)

definition added :: "nat \<Rightarrow> nat \<Rightarrow> gpu_call list \<Rightarrow> gpu_call list \<Rightarrow> bool" where
  "added b m calls calls' \<longleftrightarrow> (\<exists>cs. calls' = calls @ cs \<and> (\<forall>c \<in> set cs. above b m c))"

lemma added_refl [simp]: "added b m calls calls"
  by (simp add: added_def)

lemma added_trans: "added b m x y \<Longrightarrow> added b m y z \<Longrightarrow> added b m x z"
  by (auto simp: added_def)

lemma sink_one_above:
  assumes "sink_one env target fl w calls s = (calls', r)" and "bk_buffer target = Some b \<Longrightarrow> m \<le> fl"
  shows "added b m calls calls'"
proof -
  have segs: "added b m calls calls'" if run: "write_segments env target fl segments offset calls s = (calls', r)" for segments offset
  proof (cases "concat segments = [] \<or> check_range target fl offset (length (concat segments)) \<noteq> None")
    case True
    then show ?thesis using run by (auto simp: write_segments_def Let_def split: if_splits)
  next
    case False
    then have fl: "fl \<le> offset" using check_range_floor by blast
    obtain q where "queue_write env target (\<lambda>b. UploadSegments segments (length (concat segments)) b offset) False calls = (calls', q)"
      using run False by (auto simp: write_segments_def Let_def split: prod.splits sum.splits if_splits)
    from queue_write_calls [OF this] fl assms(2) show ?thesis by (auto simp: added_def above_def)
  qed
  have ranges: "added b m calls calls'" if run: "write_ranges env target fl rs calls s = (calls', r)" for rs
  proof (cases "scan_ranges target fl rs (0, 0, None)")
    case (Inl e)
    then show ?thesis using run by (simp add: write_ranges_def)
  next
    case (Inr found)
    obtain q where "calls' = calls \<or> queue_write env target (UploadRanges rs) True calls = (calls', q)"
      using run Inr by (cases found) (auto simp: write_ranges_def split: if_splits prod.splits sum.splits)
    then show ?thesis
      using queue_write_calls [of env target "UploadRanges rs" True calls calls' q] scan_ranges_floor [OF Inr] assms(2)
      by (fastforce simp: added_def above_def)
  qed
  show ?thesis using assms(1) segs ranges by (cases w) (auto split: if_splits)
qed

lemma sink_all_above:
  "sink_all env target fl ws calls s = (calls', r) \<Longrightarrow> (bk_buffer target = Some b \<Longrightarrow> m \<le> fl) \<Longrightarrow> added b m calls calls'"
proof (induction ws arbitrary: calls s)
  case (Cons w ws)
  obtain c1 r1 where one: "sink_one env target fl w calls s = (c1, r1)" by fastforce
  note a = sink_one_above [OF one Cons.prems(2)]
  show ?case
  proof (cases r1)
    case (Inl e)
    then show ?thesis using Cons.prems(1) one a by simp
  next
    case (Inr s1)
    then have "sink_all env target fl ws c1 s1 = (calls', r)" using Cons.prems(1) one by simp
    from added_trans [OF a Cons.IH [OF this Cons.prems(2)]] show ?thesis .
  qed
qed simp


section \<open>Parts\<close>

lemma in_pool_other: "go_pools (in_pool i f st) j = (if j = i then (f (fst (go_pools st i)), snd (go_pools st i)) else go_pools st j)"
  by (simp add: in_pool_def)

lemma fresh_buffer:
  assumes "acquire alloc racing rq prefer (pl, ck) = ((pl', ck'), Inr (Some p, info))" and "ai_allocated info"
  shows "\<exists>a. alloc p rq = Inr a \<and> bk_buffer (pl_heap pl' p) = al_buffer a"
  using assms(1)
proof (cases rule: acquire_cases)
  case (made pl1 n pl3 q)
  then show ?thesis by (auto simp: allocate_def Let_def pool_defs blank_backing_def split: sum.splits)
qed (use assms(2) in \<open>auto simp: no_info_def\<close>)

text \<open>
  What the theorem assumes of a backing \<open>(i, p)\<close> that published versions name: leased, the only
  one of the pools with its buffer, which no allocation makes again; and a part appends only
  into a leased backing.
\<close>

definition named_backing :: "growth_env \<Rightarrow> part_request list \<Rightarrow> growth_state \<Rightarrow> nat \<Rightarrow> nat \<Rightarrow> nat \<Rightarrow> bool" where
  "named_backing env requests st i p b \<longleftrightarrow>
     leases_of st i p \<noteq> 0 \<and> bk_buffer (pl_heap (fst (go_pools st i)) p) = Some b \<and>
     (\<forall>j q. q \<in> set (pl_all (fst (go_pools st j))) \<and> bk_buffer (pl_heap (fst (go_pools st j)) q) = Some b \<longrightarrow> j = i \<and> q = p) \<and>
     (\<forall>j q rq a. ge_alloc env j q rq = Inr a \<longrightarrow> al_buffer a \<noteq> Some b) \<and>
     (\<forall>j < length requests. \<forall>h. pr_appendInto (requests ! j) = Some h \<longrightarrow> leases_of st j h \<noteq> 0)"

lemma part_backing_frame:
  "part_backing env i pt r st = (st', pt', out) \<Longrightarrow> go_calls st' = go_calls st \<and> (\<forall>j. j \<noteq> i \<longrightarrow> go_pools st' j = go_pools st j)"
  by (auto simp: part_backing_def Let_def in_pool_other split: if_splits option.splits sum.splits prod.splits)

lemma write_part_frame: "write_part senv i c r writer lease st tickets = (st', out) \<Longrightarrow> j \<noteq> i \<Longrightarrow> go_pools st' j = go_pools st j"
  by (auto simp: write_part_def Let_def in_pool_other split: sum.splits prod.splits)

text \<open>The backing a part writes into: not the named buffer, or that backing with its mark as the floor.\<close>

lemma part_backing_safe:
  assumes ok: "state_ok (go_pools st j)" and run: "part_backing env j pt r st = (st', pt', Inr (q, appending, cls, allocated))"
    and uniq: "\<forall>q. q \<in> set (pl_all (fst (go_pools st j))) \<and> bk_buffer (pl_heap (fst (go_pools st j)) q) = Some b \<longrightarrow> j = i \<and> q = p"
    and fresh: "\<forall>q rq a. ge_alloc env j q rq = Inr a \<longrightarrow> al_buffer a \<noteq> Some b"
    and appends: "\<forall>h. pr_appendInto r = Some h \<longrightarrow> leases_of st j h \<noteq> 0"
    and held: "leases_of st i p \<noteq> 0" and buffer: "bk_buffer (pl_heap (fst (go_pools st' j)) q) = Some b"
  shows "appending \<and> j = i \<and> bk_sealedBytes (pl_heap (fst (go_pools st' j)) q) = bk_sealedBytes (pl_heap (fst (go_pools st i)) p)"
proof -
  obtain pl ck where s: "go_pools st j = (pl, ck)" by (cases "go_pools st j")
  have lok: "lists_ok pl" using ok s by (simp add: state_ok_def pool_ok_def)
  consider h where "pr_appendInto r = Some h" "q = h" "appending" "st' = in_pool j (lease_take h) st"
    | rq pst info where "acquire (ge_alloc env j) (ge_racing env j) rq (pr_preferEpoch r) (go_pools st j) = (pst, Inr (Some q, info))"
      "st' = in_pool j (upd_backing q (\<lambda>b. b\<lparr>bk_sealedBytes := 0\<rparr>)) (st\<lparr>go_pools := (go_pools st)(j := pst)\<rparr>)" "\<not> appending"
    using run by (auto simp: part_backing_def Let_def split: if_splits option.splits sum.splits prod.splits)
  then show ?thesis
  proof cases
    case (1 h)
    have "bk_leases (pl_heap pl h) \<noteq> 0" using appends 1(1) s by (simp add: leases_of_def)
    then have "h \<in> set (pl_all pl)" by (rule lists_ok_leased(1) [OF lok])
    moreover have "bk_buffer (pl_heap pl h) = Some b"
      using buffer 1(2,4) s by (simp add: in_pool_other lease_take_def upd_backing_def)
    ultimately have "j = i \<and> h = p" using uniq s by simp
    then show ?thesis using 1 s by (simp add: in_pool_other lease_take_def upd_backing_def)
  next
    case (2 rq pst info)
    obtain pl' ck' where pst: "pst = (pl', ck')" by (cases pst)
    note acq = 2(1) [unfolded s pst]
    have buf: "bk_buffer (pl_heap pl' q) = Some b" using buffer 2(2) pst by (simp add: in_pool_other upd_backing_def)
    note grant = acquire_grant [OF ok [unfolded s] acq]
    show ?thesis
    proof (cases "ai_allocated info")
      case True
      then obtain a where "ge_alloc env j q rq = Inr a" "al_buffer a = Some b" using fresh_buffer [OF acq] buf by auto
      with fresh show ?thesis by blast
    next
      case False
      then have q: "q \<in> set (pl_all pl)" "bk_leases (pl_heap pl q) = 0" using grant by simp_all
      then have "q < pl_next pl" using lok by (auto simp: lists_ok_def)
      then have "same_hold (leased_once (Some q) q (pl_heap pl q)) (pl_heap pl' q)"
        using acquire_hold [OF ok [unfolded s] acq] by (simp add: granted_def)
      then have "bk_buffer (pl_heap pl q) = Some b" using buf by (auto simp: same_hold_def leased_once_def)
      then have "j = i \<and> q = p" using uniq s q(1) by simp
      then show ?thesis using held q(2) s by (simp add: leases_of_def)
    qed
  qed
qed

lemma write_part_above:
  assumes "write_part senv j c r writer (q, appending, cls, allocated) st tickets = (st', out)"
    and "bk_buffer (pl_heap (fst (go_pools st j)) q) = Some b \<Longrightarrow> appending \<and> m \<le> bk_sealedBytes (pl_heap (fst (go_pools st j)) q)"
  shows "added b m (go_calls st) (go_calls st')"
proof -
  define target where "target = pl_heap (fst (go_pools st j)) q"
  obtain ws calls res where s: "sink_all senv target (if appending then bk_sealedBytes target else 0) ws (go_calls st) (new_sink tickets) = (calls, res)"
    and calls: "go_calls st' = calls"
    unfolding target_def using assms(1) by (auto simp: write_part_def Let_def split: prod.splits sum.splits)
  show ?thesis unfolding calls
    by (rule sink_all_above [OF s]) (use assms(2) in \<open>simp add: target_def\<close>)
qed

lemma abandon_calls [simp]: "go_calls (abandon leases st) = go_calls st"
proof -
  have "go_calls (fold mark_nothing leases st) = go_calls st" for st
    by (induction leases arbitrary: st) (auto simp: mark_nothing_def in_pool_def split: prod.splits)
  moreover have "go_calls (fold (\<lambda>(i, p). in_pool i (lease_reset (Some p))) leases st) = go_calls st" for st
    by (induction leases arbitrary: st) (auto simp: in_pool_def split: prod.splits)
  ultimately show ?thesis by (simp add: abandon_def)
qed

lemma publish_loop_above:
  assumes ok: "pools_ok st0" and named: "named_backing env requests st0 i p b"
    and m: "m \<le> bk_sealedBytes (pl_heap (fst (go_pools st0 i)) p)"
    and run: "publish_loop env senv k rest st pts vs leases tickets = (st', pts', out)"
    and rest: "k + length rest = length requests" "\<forall>j < length rest. snd (rest ! j) = requests ! (k + j)"
    and same: "\<forall>j \<ge> k. go_pools st j = go_pools st0 j"
  shows "added b m (go_calls st) (go_calls st')"
  using run rest same
proof (induction rest arbitrary: k st pts vs leases tickets)
  case (Cons x rest)
  obtain pt r where x: "x = (pt, r)" by (cases x)
  have r: "r = requests ! k" "k < length requests" using Cons.prems(2,3) x by auto
  have rest': "k + 1 + length rest = length requests" "\<forall>j < length rest. snd (rest ! j) = requests ! (k + 1 + j)"
    using Cons.prems(2,3) by auto
  show ?case
  proof (cases "pr_emit r")
    case None
    show ?thesis
    proof (cases "pr_units r = 0")
      case True
      then show ?thesis using Cons.IH [OF _ rest'] Cons.prems(1,4) x None by simp
    next
      case False
      then have "st' = abandon leases st" using Cons.prems(1) x None by auto
      then show ?thesis by simp
    qed
  next
    case (Some writer)
    obtain st1 pt1 got where pb: "part_backing env k pt r st = (st1, pt1, got)" by (cases "part_backing env k pt r st")
    note frame = part_backing_frame [OF pb]
    show ?thesis
    proof (cases got)
      case (Inl e)
      then have "st' = abandon leases st1" using Cons.prems(1) x Some pb by auto
      with frame show ?thesis by simp
    next
      case (Inr lease)
      obtain q appending cls allocated where lease: "lease = (q, appending, cls, allocated)" by (cases lease)
      obtain st2 res where wp: "write_part senv k (pt_config pt) r writer lease st1 tickets = (st2, res)" by fastforce
      have pool: "go_pools st k = go_pools st0 k" using Cons.prems(4) by simp
      have n: "leases_of st0 i p \<noteq> 0" "\<forall>q. q \<in> set (pl_all (fst (go_pools st0 k))) \<and> bk_buffer (pl_heap (fst (go_pools st0 k)) q) = Some b \<longrightarrow> k = i \<and> q = p"
        "\<forall>q rq a. ge_alloc env k q rq = Inr a \<longrightarrow> al_buffer a \<noteq> Some b" "\<forall>h. pr_appendInto r = Some h \<longrightarrow> leases_of st0 k h \<noteq> 0"
        using named r by (auto simp: named_backing_def)
      have pb0: "\<exists>s0. part_backing env k pt r st0 = (s0, pt1, Inr lease) \<and> go_pools s0 k = go_pools st1 k"
        using pb pool Inr by (auto simp: part_backing_def Let_def in_pool_other split: if_splits option.splits sum.splits prod.splits)
      have safe: "appending \<and> m \<le> bk_sealedBytes (pl_heap (fst (go_pools st1 k)) q)"
        if buffer: "bk_buffer (pl_heap (fst (go_pools st1 k)) q) = Some b"
      proof -
        obtain s0 where s0: "part_backing env k pt r st0 = (s0, pt1, Inr (q, appending, cls, allocated))" "go_pools s0 k = go_pools st1 k"
          using pb0 lease by auto
        have okk: "state_ok (go_pools st0 k)" using ok by (simp add: pools_ok_def)
        have "bk_buffer (pl_heap (fst (go_pools s0 k)) q) = Some b" using buffer s0(2) by simp
        from part_backing_safe [OF okk s0(1) n(2,3,4,1) this] s0(2) m show ?thesis by (elim conjE) simp
      qed
      have a: "added b m (go_calls st1) (go_calls st2)" by (rule write_part_above [OF wp [unfolded lease] safe])
      show ?thesis
      proof (cases res)
        case (Inl e)
        then have "st' = abandon (leases @ [(k, fst lease)]) st2" using Cons.prems(1) x Some pb Inr wp by auto
        with a frame show ?thesis by simp
      next
        case (Inr y)
        obtain v ts where y: "y = (v, ts)" by (cases y)
        have next': "publish_loop env senv (k + 1) rest st2 (pts @ [pt1]) (vs @ [v]) (leases @ [(k, fst lease)]) ts = (st', pts', out)"
          using Cons.prems(1) x Some pb \<open>got = Inr lease\<close> wp Inr y by simp
        have "\<forall>j \<ge> k + 1. go_pools st2 j = go_pools st0 j"
          using write_part_frame [OF wp] frame Cons.prems(4) by auto
        from added_trans [OF a Cons.IH [OF next' rest' this]] frame show ?thesis by simp
      qed
    qed
  qed
qed simp

text \<open>
  Claim C24. What a published version names never changes under it: for a backing that is leased
  (a version, a frame or a revision holds it), no publication, whether it returns or throws,
  writes a byte of its buffer below its sealed mark, which is the most any version names. Only
  an append into it writes its buffer at all, from the mark on.
\<close>

theorem published_bytes_stay:
  assumes "pools_ok st" and "publish env senv requests (st, parts) = ((st', parts'), out)"
    and "named_backing env requests st i p b" and "m \<le> bk_sealedBytes (pl_heap (fst (go_pools st i)) p)"
  shows "\<exists>cs. go_calls st' = go_calls st @ cs \<and>
    (\<forall>mem. m \<le> length (mem b) \<longrightarrow> take m (exec_calls cs mem b) = take m (mem b))"
proof (cases "length requests = length parts")
  case False
  then show ?thesis using assms(2) by (auto simp: publish_def exec_calls_def)
next
  case True
  obtain res where run: "publish_loop env senv 0 (zip parts requests) st [] [] [] [] = (st', parts', res)"
    using assms(2) True by (auto simp: publish_def split: prod.splits sum.splits)
  have "added b m (go_calls st) (go_calls st')"
    by (rule publish_loop_above [OF assms(1,3,4) run]) (use True in simp_all)
  then obtain cs where "go_calls st' = go_calls st @ cs" "\<forall>c \<in> set cs. above b m c" by (auto simp: added_def)
  then show ?thesis using exec_calls_above by blast
qed


section \<open>An example append\<close>

text \<open>The head is backing 0 of pool 0, leased by a version that names its first 8 bytes; a part appends the next 8.\<close>

definition demo_head :: growth_state where
  "demo_head = \<lparr>go_pools = (\<lambda>i. if i = 0 then (upd_backing 0 (\<lambda>b. b\<lparr>bk_contentEpoch := 3, bk_sealedBytes := 8, bk_image := None\<rparr>)
       (fst (demo_leased False 0)), snd (demo_leased False 0)) else demo_start False), go_calls = [], go_versions = 0\<rparr>"

definition demo_part :: part_state where
  "demo_part = \<lparr>pt_config = \<lparr>pc_name = ''rows'', pc_stride = 8, pc_flags = no_flags, pc_policy = doubling 4\<rparr>, pt_highWater = 4\<rparr>"

definition demo_append :: part_request where
  "demo_append = \<lparr>pr_units = 2, pr_preferEpoch = 4, pr_emit = Some (\<lambda>_. ([WriteRun [9] 8], Inr 4)), pr_appendInto = Some 0\<rparr>"

definition demo_sink :: sink_env where
  "demo_sink = \<lparr>js_serve = (\<lambda>calls _. Some (length calls)), js_cancelled = (\<lambda>_. False)\<rparr>"

definition demo_part_env :: growth_env where
  "demo_part_env = \<lparr>ge_alloc = (\<lambda>i p rq. Inl (RuntimeError [])), ge_racing = (\<lambda>_. (no_race, no_race)), ge_get = (\<lambda>_. None),
     ge_size = (\<lambda>_. 32), ge_serve = (\<lambda>_ _. None)\<rparr>"

lemma demo_head_ok: "pools_ok demo_head"
proof -
  have "other_step (demo_leased False 0) 0 (upd_backing 0 (\<lambda>b. b\<lparr>bk_contentEpoch := 3, bk_sealedBytes := 8, bk_image := None\<rparr>)
      (fst (demo_leased False 0)), snd (demo_leased False 0))"
    using other_step.fill [where pl = "fst (demo_leased False 0)" and p = 0 and ck = "snd (demo_leased False 0)" and epoch = 3 and
        sealed = 8 and img = None] demo_leased_lease by simp
  then have "state_ok (upd_backing 0 (\<lambda>b. b\<lparr>bk_contentEpoch := 3, bk_sealedBytes := 8, bk_image := None\<rparr>)
      (fst (demo_leased False 0)), snd (demo_leased False 0))"
    using other_step_ok pool_reachable_ok [OF demo_leased_reachable] by blast
  then show ?thesis using demo_start_ok by (simp add: pools_ok_def demo_head_def)
qed

lemma demo_head_eval:
  "fst (go_pools demo_head 0) = (demo_pool False demo_home
     (demo_backing\<lparr>bk_leases := 1, bk_contentEpoch := 3, bk_sealedBytes := 8\<rparr>) [])"
  "j \<noteq> 0 \<Longrightarrow> go_pools demo_head j = demo_start False" "go_calls demo_head = []"
  by (simp_all add: demo_head_def demo_leased_def demo_pool_def upd_backing_def demo_backing_def blank_backing_def)

theorem published_bytes_stay_witness:
  "\<exists>st' parts' pb. publish demo_part_env demo_sink [demo_append] (demo_head, [demo_part]) = ((st', parts'), Inr pb) \<and>
     go_calls st' = [UploadSegments [[9]] 1 0 8] \<and>
     take 8 (exec_calls [UploadSegments [[9]] 1 0 8] (\<lambda>_. replicate 32 1) 0) = replicate 8 1"
proof -
  have named: "named_backing demo_part_env [demo_append] demo_head 0 0 0"
    unfolding named_backing_def
  proof (intro conjI allI impI)
    show "leases_of demo_head 0 0 \<noteq> 0" "bk_buffer (pl_heap (fst (go_pools demo_head 0)) 0) = Some 0"
      by (simp_all add: leases_of_def demo_head_eval demo_pool_def demo_backing_def blank_backing_def)
    show "al_buffer a \<noteq> Some 0" if "ge_alloc demo_part_env j q rq = Inr a" for j q rq a
      using that by (simp add: demo_part_env_def)
    show "leases_of demo_head j h \<noteq> 0" if "j < length [demo_append]" "pr_appendInto ([demo_append] ! j) = Some h" for j h
      using that by (simp add: demo_append_def leases_of_def demo_head_eval demo_pool_def)
    have only: "j = 0 \<and> q = 0" if "q \<in> set (pl_all (fst (go_pools demo_head j)))" for j q
      using that by (cases "j = 0") (simp_all add: demo_head_eval demo_pool_def demo_start_def new_pool_def)
    show "j = 0" "q = 0" if "q \<in> set (pl_all (fst (go_pools demo_head j))) \<and> bk_buffer (pl_heap (fst (go_pools demo_head j)) q) = Some 0"
      for j q using only [of q j] that by simp_all
  qed
  have mark: "8 \<le> bk_sealedBytes (pl_heap (fst (go_pools demo_head 0)) 0)" by (simp add: demo_head_eval demo_pool_def)
  obtain st' parts' pb where run: "publish demo_part_env demo_sink [demo_append] (demo_head, [demo_part]) = ((st', parts'), Inr pb)"
    and calls: "go_calls st' = [UploadSegments [[9]] 1 0 8]"
    by (simp add: publish_def demo_part_def demo_append_def part_backing_def Let_def demo_head_eval demo_pool_def demo_backing_def
        blank_backing_def write_part_def in_pool_def upd_backing_def lease_take_def write_segments_def check_range_def
        queue_write_def demo_sink_def new_sink_def)
  from published_bytes_stay [OF demo_head_ok run named mark] calls demo_head_eval(3)
  have "take 8 (exec_calls [UploadSegments [[9]] 1 0 8] (\<lambda>_. replicate 32 1) 0) = take 8 (replicate 32 (1 :: byte))" by auto
  then have "take 8 (exec_calls [UploadSegments [[9]] 1 0 8] (\<lambda>_. replicate 32 1) 0) = replicate 8 (1 :: byte)"
    by simp
  with run calls show ?thesis by blast
qed

end
