(* ===== verification/Exchange.thy ===== *)
theory Exchange
  imports Prelude "HOL-Library.Sublist"
begin

text \<open>
  \<^verbatim>\<open>include/ORGModuleServices/Async/PublicationExchange.h\<close>: three slots between one coordinator,
  which publishes immutable successors, and one frame owner, which selects them. Each load, store
  and exchange of an atomic, and each access to a slot's value, is one step; the two threads'
  places are program counters, and any interleaving is a run. A lease is a number. The lists of
  what was published and what was selected are kept for the statements only.
\<close>

section \<open>The exchange\<close>

datatype slot_state = EmptySlot | ReadySlot | ActiveSlot | RetiredSlot

datatype producer_call = TryPublish | TryReplace | ReclaimRetired

text \<open>Where the coordinator stands: the call, its candidate, the slot.\<close>

datatype producer_pc =
    PIdle
  | PNull producer_call
  | PTake nat
  | PRetire nat nat
  | PCheck producer_call nat
  | PReclaim producer_call nat nat
  | PReset producer_call nat nat
  | PEmpty producer_call nat nat
  | PScan producer_call nat nat
  | PFill producer_call nat nat
  | PMark producer_call nat nat
  | PPost producer_call nat nat
  | PReturn producer_call bool

datatype consumer_pc =
    CIdle
  | CAccept nat
  | CReject nat
  | CMove nat
  | CActivate nat "nat option"
  | CRetire nat

record exchange =
  ex_state :: "nat \<Rightarrow> slot_state"
  ex_value :: "nat \<Rightarrow> nat option"
  ex_ready :: "nat option"
  ex_active :: "nat option"
  ex_producer :: producer_pc
  ex_consumer :: consumer_pc
  ex_published :: "nat list"
  ex_selected :: "nat list"

definition new_exchange :: exchange where
  "new_exchange = \<lparr>ex_state = (\<lambda>_. EmptySlot), ex_value = (\<lambda>_. None), ex_ready = None, ex_active = None,
     ex_producer = PIdle, ex_consumer = CIdle, ex_published = [], ex_selected = []\<rparr>"

text \<open>\<open>TryPublish\<close>, \<open>TryReplace\<close> and \<open>ReclaimRetired\<close>, an instruction a step.\<close>

inductive producer_step :: "exchange \<Rightarrow> exchange \<Rightarrow> bool" where
  null_candidate: "ex_producer s = PIdle \<Longrightarrow> k \<noteq> ReclaimRetired \<Longrightarrow> producer_step s (s\<lparr>ex_producer := PNull k\<rparr>)"
| return_null: "ex_producer s = PNull k \<Longrightarrow> producer_step s (s\<lparr>ex_producer := PIdle\<rparr>)"
| publish: "ex_producer s = PIdle \<Longrightarrow> producer_step s (s\<lparr>ex_producer := PCheck TryPublish c\<rparr>)"
| replace: "ex_producer s = PIdle \<Longrightarrow> producer_step s (s\<lparr>ex_producer := PTake c\<rparr>)"
| reclaim_only: "ex_producer s = PIdle \<Longrightarrow> producer_step s (s\<lparr>ex_producer := PReclaim ReclaimRetired 0 0\<rparr>)"
| take_none: "ex_producer s = PTake c \<Longrightarrow> ex_ready s = None \<Longrightarrow> producer_step s (s\<lparr>ex_producer := PCheck TryReplace c\<rparr>)"
| take_back: "ex_producer s = PTake c \<Longrightarrow> ex_ready s = Some r \<Longrightarrow>
    producer_step s (s\<lparr>ex_ready := None, ex_producer := PRetire c r\<rparr>)"
| retire: "ex_producer s = PRetire c r \<Longrightarrow>
    producer_step s (s\<lparr>ex_state := (ex_state s)(r := RetiredSlot), ex_producer := PCheck TryReplace c\<rparr>)"
| check_ready: "ex_producer s = PCheck k c \<Longrightarrow> ex_ready s \<noteq> None \<Longrightarrow> producer_step s (s\<lparr>ex_producer := PReturn k False\<rparr>)"
| check_none: "ex_producer s = PCheck k c \<Longrightarrow> ex_ready s = None \<Longrightarrow> producer_step s (s\<lparr>ex_producer := PReclaim k c 0\<rparr>)"
| reclaim_skip: "ex_producer s = PReclaim k c i \<Longrightarrow> i < 3 \<Longrightarrow> ex_state s i \<noteq> RetiredSlot \<Longrightarrow>
    producer_step s (s\<lparr>ex_producer := PReclaim k c (i + 1)\<rparr>)"
| reclaim_one: "ex_producer s = PReclaim k c i \<Longrightarrow> i < 3 \<Longrightarrow> ex_state s i = RetiredSlot \<Longrightarrow>
    producer_step s (s\<lparr>ex_producer := PReset k c i\<rparr>)"
| reclaim_done: "ex_producer s = PReclaim k c 3 \<Longrightarrow>
    producer_step s (s\<lparr>ex_producer := (if k = ReclaimRetired then PIdle else PScan k c 0)\<rparr>)"
| reset_value: "ex_producer s = PReset k c i \<Longrightarrow>
    producer_step s (s\<lparr>ex_value := (ex_value s)(i := None), ex_producer := PEmpty k c i\<rparr>)"
| empty: "ex_producer s = PEmpty k c i \<Longrightarrow>
    producer_step s (s\<lparr>ex_state := (ex_state s)(i := EmptySlot), ex_producer := PReclaim k c (i + 1)\<rparr>)"
| scan_skip: "ex_producer s = PScan k c i \<Longrightarrow> i < 3 \<Longrightarrow> ex_state s i \<noteq> EmptySlot \<Longrightarrow>
    producer_step s (s\<lparr>ex_producer := PScan k c (i + 1)\<rparr>)"
| scan_found: "ex_producer s = PScan k c i \<Longrightarrow> i < 3 \<Longrightarrow> ex_state s i = EmptySlot \<Longrightarrow>
    producer_step s (s\<lparr>ex_producer := PFill k c i\<rparr>)"
| scan_done: "ex_producer s = PScan k c 3 \<Longrightarrow> producer_step s (s\<lparr>ex_producer := PReturn k False\<rparr>)"
| fill: "ex_producer s = PFill k c i \<Longrightarrow>
    producer_step s (s\<lparr>ex_value := (ex_value s)(i := Some c), ex_producer := PMark k c i\<rparr>)"
| mark: "ex_producer s = PMark k c i \<Longrightarrow>
    producer_step s (s\<lparr>ex_state := (ex_state s)(i := ReadySlot), ex_producer := PPost k c i\<rparr>)"
| post: "ex_producer s = PPost k c i \<Longrightarrow>
    producer_step s (s\<lparr>ex_ready := Some i, ex_published := ex_published s @ [c], ex_producer := PReturn k True\<rparr>)"
| return: "ex_producer s = PReturn k ok \<Longrightarrow> producer_step s (s\<lparr>ex_producer := PIdle\<rparr>)"

text \<open>\<open>TrySelect\<close> (the admission predicate may answer either way) and \<open>ClearActive\<close>.\<close>

inductive consumer_step :: "exchange \<Rightarrow> exchange \<Rightarrow> bool" where
  unchanged: "ex_consumer s = CIdle \<Longrightarrow> ex_ready s = None \<Longrightarrow> consumer_step s s"
| take: "ex_consumer s = CIdle \<Longrightarrow> ex_ready s = Some r \<Longrightarrow>
    consumer_step s (s\<lparr>ex_ready := None, ex_consumer := CAccept r\<rparr>)"
| refuse: "ex_consumer s = CAccept r \<Longrightarrow> consumer_step s (s\<lparr>ex_consumer := CReject r\<rparr>)"
| accept: "ex_consumer s = CAccept r \<Longrightarrow> consumer_step s (s\<lparr>ex_consumer := CMove r\<rparr>)"
| reject: "ex_consumer s = CReject r \<Longrightarrow>
    consumer_step s (s\<lparr>ex_state := (ex_state s)(r := RetiredSlot), ex_consumer := CIdle\<rparr>)"
| move: "ex_consumer s = CMove r \<Longrightarrow>
    consumer_step s (s\<lparr>ex_active := Some r, ex_selected := ex_selected s @ [the (ex_value s r)], ex_consumer := CActivate r (ex_active s)\<rparr>)"
| activate: "ex_consumer s = CActivate r previous \<Longrightarrow>
    consumer_step s (s\<lparr>ex_state := (ex_state s)(r := ActiveSlot),
      ex_consumer := (case previous of None \<Rightarrow> CIdle | Some p \<Rightarrow> CRetire p)\<rparr>)"
| retire_previous: "ex_consumer s = CRetire p \<Longrightarrow>
    consumer_step s (s\<lparr>ex_state := (ex_state s)(p := RetiredSlot), ex_consumer := CIdle\<rparr>)"
| clear: "ex_consumer s = CIdle \<Longrightarrow> ex_active s = Some p \<Longrightarrow>
    consumer_step s (s\<lparr>ex_active := None, ex_consumer := CRetire p\<rparr>)"

inductive exchange_step :: "exchange \<Rightarrow> exchange \<Rightarrow> bool" where
  producer: "producer_step s t \<Longrightarrow> exchange_step s t"
| consumer: "consumer_step s t \<Longrightarrow> exchange_step s t"

text \<open>\<open>Active\<close> and \<open>AcquireActive\<close>.\<close>

definition active_value :: "exchange \<Rightarrow> nat option" where
  "active_value s = (case ex_active s of None \<Rightarrow> None | Some i \<Rightarrow> ex_value s i)"

section \<open>Who has each slot\<close>

fun producer_hand :: "producer_pc \<Rightarrow> nat list" where
  "producer_hand (PRetire c r) = [r]"
| "producer_hand (PReset k c i) = [i]"
| "producer_hand (PEmpty k c i) = [i]"
| "producer_hand (PFill k c i) = [i]"
| "producer_hand (PMark k c i) = [i]"
| "producer_hand (PPost k c i) = [i]"
| "producer_hand _ = []"

fun consumer_hand :: "consumer_pc \<Rightarrow> nat list" where
  "consumer_hand (CAccept r) = [r]"
| "consumer_hand (CReject r) = [r]"
| "consumer_hand (CMove r) = [r]"
| "consumer_hand (CActivate r (Some p)) = [p]"
| "consumer_hand (CRetire p) = [p]"
| "consumer_hand _ = []"

fun opt_list :: "'a option \<Rightarrow> 'a list" where
  "opt_list None = []"
| "opt_list (Some x) = [x]"

text \<open>What a slot is, by whose hand it is in.\<close>

definition owned :: "exchange \<Rightarrow> nat list" where
  "owned s = opt_list (ex_active s) @ consumer_hand (ex_consumer s)"

definition hands :: "exchange \<Rightarrow> nat list" where
  "hands s = opt_list (ex_ready s) @ producer_hand (ex_producer s) @ owned s"

fun producer_slot :: "producer_pc \<Rightarrow> nat \<Rightarrow> slot_state \<Rightarrow> nat option \<Rightarrow> bool" where
  "producer_slot (PRetire c r) i st v = (i = r \<longrightarrow> st = ReadySlot \<and> v \<noteq> None)"
| "producer_slot (PReset k c r) i st v = (i = r \<longrightarrow> st = RetiredSlot)"
| "producer_slot (PEmpty k c r) i st v = (i = r \<longrightarrow> st = RetiredSlot \<and> v = None)"
| "producer_slot (PFill k c r) i st v = (i = r \<longrightarrow> st = EmptySlot \<and> v = None)"
| "producer_slot (PMark k c r) i st v = (i = r \<longrightarrow> st = EmptySlot \<and> v = Some c)"
| "producer_slot (PPost k c r) i st v = (i = r \<longrightarrow> st = ReadySlot \<and> v = Some c)"
| "producer_slot _ i st v = True"

fun consumer_slot :: "consumer_pc \<Rightarrow> nat option \<Rightarrow> nat \<Rightarrow> slot_state \<Rightarrow> nat option \<Rightarrow> bool" where
  "consumer_slot (CActivate r p) a i st v \<longleftrightarrow>
     a = Some r \<and> (i = r \<longrightarrow> st = ReadySlot \<and> v \<noteq> None) \<and> (p = Some i \<longrightarrow> st = ActiveSlot \<and> v \<noteq> None)"
| "consumer_slot (CRetire p) a i st v \<longleftrightarrow> ((i = p \<or> a = Some i) \<longrightarrow> st = ActiveSlot \<and> v \<noteq> None)"
| "consumer_slot CIdle a i st v \<longleftrightarrow> (a = Some i \<longrightarrow> st = ActiveSlot \<and> v \<noteq> None)"
| "consumer_slot (CAccept r) a i st v \<longleftrightarrow> (i = r \<longrightarrow> st = ReadySlot \<and> v \<noteq> None) \<and> (a = Some i \<longrightarrow> st = ActiveSlot \<and> v \<noteq> None)"
| "consumer_slot (CReject r) a i st v \<longleftrightarrow> (i = r \<longrightarrow> st = ReadySlot \<and> v \<noteq> None) \<and> (a = Some i \<longrightarrow> st = ActiveSlot \<and> v \<noteq> None)"
| "consumer_slot (CMove r) a i st v \<longleftrightarrow> (i = r \<longrightarrow> st = ReadySlot \<and> v \<noteq> None) \<and> (a = Some i \<longrightarrow> st = ActiveSlot \<and> v \<noteq> None)"

definition hands_ok :: "exchange \<Rightarrow> bool" where
  "hands_ok s \<longleftrightarrow> distinct (hands s) \<and> set (hands s) \<subseteq> {..<3}"

definition slot_ok :: "exchange \<Rightarrow> nat \<Rightarrow> bool" where
  "slot_ok s i \<longleftrightarrow> (ex_ready s = Some i \<longrightarrow> ex_state s i = ReadySlot \<and> ex_value s i \<noteq> None) \<and>
     producer_slot (ex_producer s) i (ex_state s i) (ex_value s i) \<and>
     consumer_slot (ex_consumer s) (ex_active s) i (ex_state s i) (ex_value s i) \<and>
     (i \<notin> set (hands s) \<longrightarrow> ex_state s i = EmptySlot \<and> ex_value s i = None \<or> ex_state s i = RetiredSlot)"

definition slots_ok :: "exchange \<Rightarrow> bool" where
  "slots_ok s \<longleftrightarrow> hands_ok s \<and> (\<forall>i. slot_ok s i)"

text \<open>A slot is left for the candidate: the owner has two at most.\<close>

fun room :: "producer_pc \<Rightarrow> exchange \<Rightarrow> bool" where
  "room (PReclaim k c i) s = (i \<le> 3 \<and> (k \<noteq> ReclaimRetired \<longrightarrow>
     ex_ready s = None \<and> (\<exists>j < 3. j \<notin> set (owned s) \<and> (j < i \<longrightarrow> ex_state s j = EmptySlot))))"
| "room (PReset k c i) s = (i < 3 \<and> (k \<noteq> ReclaimRetired \<longrightarrow>
     ex_ready s = None \<and> (\<exists>j < 3. j \<notin> set (owned s) \<and> (j < i \<longrightarrow> ex_state s j = EmptySlot))))"
| "room (PEmpty k c i) s = (i < 3 \<and> (k \<noteq> ReclaimRetired \<longrightarrow>
     ex_ready s = None \<and> (\<exists>j < 3. j \<notin> set (owned s) \<and> (j < i \<longrightarrow> ex_state s j = EmptySlot))))"
| "room (PScan k c i) s = (ex_ready s = None \<and> k \<noteq> ReclaimRetired \<and> (\<exists>j < 3. i \<le> j \<and> ex_state s j = EmptySlot))"
| "room (PFill k c i) s = (ex_ready s = None \<and> i < 3)"
| "room (PMark k c i) s = (ex_ready s = None \<and> i < 3)"
| "room (PPost k c i) s = (ex_ready s = None \<and> i < 3)"
| "room (PCheck k c) s = (k \<noteq> ReclaimRetired \<and> (k = TryReplace \<longrightarrow> ex_ready s = None))"
| "room (PRetire c r) s = (ex_ready s = None)"
| "room (PReturn k ok) s = (k = TryReplace \<longrightarrow> ok)"
| "room _ s = True"

text \<open>What was selected, is about to be, or is ready: in the order it was published.\<close>

fun candidate_hand :: "consumer_pc \<Rightarrow> nat list" where
  "candidate_hand (CAccept r) = [r]"
| "candidate_hand (CReject r) = [r]"
| "candidate_hand (CMove r) = [r]"
| "candidate_hand _ = []"

definition coming :: "exchange \<Rightarrow> nat list" where
  "coming s = map (\<lambda>i. the (ex_value s i)) (candidate_hand (ex_consumer s) @ opt_list (ex_ready s))"

lemma free_slot: "length xs \<le> 2 \<Longrightarrow> \<exists>j < (3::nat). j \<notin> set xs"
proof (rule ccontr)
  assume "length xs \<le> 2" "\<not> (\<exists>j < (3::nat). j \<notin> set xs)"
  then have "{..<3} \<subseteq> set xs" by auto
  then have "card {..<3::nat} \<le> card (set xs)" by (intro card_mono) auto
  then show False using card_length [of xs] \<open>length xs \<le> 2\<close> by simp
qed

lemma owned_two: "length (owned s) \<le> 2"
  unfolding owned_def
  by (cases "ex_active s"; cases "ex_consumer s" rule: consumer_hand.cases) auto

lemma owned_room: "\<exists>j < 3. j \<notin> set (owned s)"
  using free_slot owned_two by blast

text \<open>What a step of either side leaves of the slots.\<close>

lemma in_opt_list [simp]: "i \<in> set (opt_list x) \<longleftrightarrow> x = Some i"
  by (cases x) auto

lemma owned_state:
  "slot_ok s i \<Longrightarrow> i \<in> set (owned s) \<Longrightarrow> ex_state s i \<in> {ReadySlot, ActiveSlot} \<and> ex_value s i \<noteq> None"
  by (cases "ex_consumer s" rule: consumer_hand.cases; cases "ex_active s") (auto simp: slot_ok_def owned_def)

lemma hands_ok_producer: "producer_step s t \<Longrightarrow> hands_ok s \<Longrightarrow> \<forall>i. slot_ok s i \<Longrightarrow> room (ex_producer s) s \<Longrightarrow> hands_ok t"
proof (induction rule: producer_step.induct)
  case (reclaim_one s k c i)
  then have ok: "slot_ok s i" by simp
  then have "i \<notin> set (owned s)" using owned_state [of s i] reclaim_one by auto
  moreover have "ex_ready s \<noteq> Some i" using ok reclaim_one by (auto simp: slot_ok_def)
  ultimately have "i \<notin> set (owned s)" "ex_ready s \<noteq> Some i" .
  with reclaim_one show ?case by (simp add: hands_ok_def hands_def owned_def)
next
  case (scan_found s k c i)
  then have ok: "slot_ok s i" by simp
  then have "i \<notin> set (owned s)" using owned_state [of s i] scan_found by auto
  moreover have "ex_ready s \<noteq> Some i" using ok scan_found by (auto simp: slot_ok_def)
  ultimately have "i \<notin> set (owned s)" "ex_ready s \<noteq> Some i" .
  with scan_found show ?case by (simp add: hands_ok_def hands_def owned_def)
qed (auto simp: hands_ok_def hands_def owned_def)

lemma consumer_slot_other:
  "i \<notin> set (owned s) \<Longrightarrow> consumer_slot (ex_consumer s) (ex_active s) i st v = consumer_slot (ex_consumer s) (ex_active s) i st' v'"
  by (cases "ex_consumer s" rule: consumer_hand.cases; cases "ex_active s") (auto simp: owned_def)

text \<open>A producer's step on the slot in its hand.\<close>

lemma producer_keeps_slot:
  assumes "slot_ok s i" "r \<notin> set (owned s)" "ex_ready t \<noteq> Some r" "producer_slot (ex_producer t) i (ex_state t i) (ex_value t i)"
    and "i \<noteq> r \<Longrightarrow> ex_state t i = ex_state s i" "i \<noteq> r \<Longrightarrow> ex_value t i = ex_value s i"
    and "ex_consumer t = ex_consumer s" "ex_active t = ex_active s" "ex_ready t = ex_ready s \<or> ex_ready t = None"
    and "set (hands s) \<subseteq> set (hands t) \<union> {r}"
    and "i = r \<Longrightarrow> r \<notin> set (hands t) \<Longrightarrow> ex_state t r = EmptySlot \<and> ex_value t r = None \<or> ex_state t r = RetiredSlot"
  shows "slot_ok t i"
proof (cases "i = r")
  case True
  then have "consumer_slot (ex_consumer t) (ex_active t) i (ex_state t i) (ex_value t i)"
    using assms(1,2,7,8) consumer_slot_other [of i s "ex_state s i" "ex_value s i"] by (simp add: slot_ok_def)
  then show ?thesis using True assms(3,4,11) by (simp add: slot_ok_def)
next
  case False
  then have same: "ex_state t i = ex_state s i" "ex_value t i = ex_value s i" using assms(5,6) by auto
  have hands: "i \<notin> set (hands t) \<Longrightarrow> i \<notin> set (hands s)" using assms(10) False by blast
  show ?thesis
    using assms(1,4,9) hands unfolding slot_ok_def same assms(7,8) by auto
qed

lemma producer_hand_alone:
  "hands_ok s \<Longrightarrow> producer_hand (ex_producer s) = [r] \<Longrightarrow> r \<notin> set (owned s) \<and> ex_ready s \<noteq> Some r \<and> r < 3"
  by (auto simp: hands_ok_def hands_def)

lemma slot_ok_producer:
  assumes "producer_step s t" "slot_ok s i" "hands_ok s" "room (ex_producer s) s"
  shows "slot_ok t i"
  using assms
proof (induction rule: producer_step.induct)
  case (take_back s c r)
  then show ?case by (auto simp: hands_def owned_def slot_ok_def)
next
  case (retire s c r)
  note alone = producer_hand_alone [of s r]
  show ?case
    by (rule producer_keeps_slot [of s i r]) (use retire alone in \<open>auto simp: hands_def owned_def\<close>)
next
  case (reset_value s k c r)
  note alone = producer_hand_alone [of s r]
  show ?case
    by (rule producer_keeps_slot [of s i r]) (use reset_value alone in \<open>auto simp: hands_def owned_def slot_ok_def\<close>)
next
  case (empty s k c r)
  note alone = producer_hand_alone [of s r]
  show ?case
    by (rule producer_keeps_slot [of s i r]) (use empty alone in \<open>auto simp: hands_def owned_def slot_ok_def\<close>)
next
  case (fill s k c r)
  note alone = producer_hand_alone [of s r]
  show ?case
    by (rule producer_keeps_slot [of s i r]) (use fill alone in \<open>auto simp: hands_def owned_def slot_ok_def\<close>)
next
  case (mark s k c r)
  note alone = producer_hand_alone [of s r]
  show ?case
    by (rule producer_keeps_slot [of s i r]) (use mark alone in \<open>auto simp: hands_def owned_def slot_ok_def\<close>)
next
  case (scan_found s k c r)
  then have "ex_state s r = EmptySlot \<Longrightarrow> r = i \<Longrightarrow> r \<notin> set (owned s)"
    using owned_state [of s r] by (auto simp: slot_ok_def)
  with scan_found show ?case by (auto simp: hands_def owned_def slot_ok_def)
qed (auto simp: hands_def owned_def slot_ok_def)

text \<open>And the frame owner's.\<close>

lemma producer_slot_other: "i \<notin> set (producer_hand pc) \<Longrightarrow> producer_slot pc i st v"
  by (cases pc) auto

lemma hands_ok_consumer:
  assumes "consumer_step s t" "hands_ok s" "\<And>i. slot_ok s i"
  shows "hands_ok t"
  using assms(1,2)
proof (induction rule: consumer_step.induct)
  case (move s r)
  then show ?case by (cases "ex_active s") (auto simp: hands_ok_def hands_def owned_def)
next
  case (activate s r p)
  then show ?case by (cases p) (auto simp: hands_ok_def hands_def owned_def)
qed (auto simp: hands_ok_def hands_def owned_def)

lemma consumer_hand_alone:
  "hands_ok s \<Longrightarrow> r \<in> set (consumer_hand (ex_consumer s)) \<Longrightarrow>
     r \<notin> set (producer_hand (ex_producer s)) \<and> ex_ready s \<noteq> Some r \<and> ex_active s \<noteq> Some r"
  by (auto simp: hands_ok_def hands_def owned_def)

lemma consumer_keeps_slot:
  assumes "slot_ok s i" "r \<notin> set (producer_hand (ex_producer s))" "ex_ready s \<noteq> Some r"
    and "consumer_slot (ex_consumer t) (ex_active t) i (ex_state t i) (ex_value s i)"
    and "i \<noteq> r \<Longrightarrow> ex_state t i = ex_state s i" "ex_value t = ex_value s"
    and "ex_producer t = ex_producer s" "ex_ready t = ex_ready s"
    and "set (hands s) \<subseteq> set (hands t) \<union> {r}"
    and "i = r \<Longrightarrow> r \<notin> set (hands t) \<Longrightarrow> ex_state t r = RetiredSlot"
  shows "slot_ok t i"
proof (cases "i = r")
  case True
  then show ?thesis using assms producer_slot_other [of i "ex_producer s"] by (simp add: slot_ok_def)
next
  case False
  then have hands: "i \<notin> set (hands t) \<Longrightarrow> i \<notin> set (hands s)" using assms(9) by blast
  show ?thesis
    using assms(1,4,5) False hands unfolding slot_ok_def assms(6,7,8) by auto
qed

lemma slot_ok_consumer:
  assumes "consumer_step s t" "slot_ok s i" "hands_ok s"
  shows "slot_ok t i"
  using assms
proof (induction rule: consumer_step.induct)
  case (take s r)
  then show ?case by (auto simp: hands_def owned_def slot_ok_def)
next
  case (reject s r)
  note alone = consumer_hand_alone [of s r]
  show ?case
    by (rule consumer_keeps_slot [of s i r]) (use reject alone in \<open>auto simp: hands_def owned_def slot_ok_def\<close>)
next
  case (move s r)
  note alone = consumer_hand_alone [of s r]
  show ?case
    by (rule consumer_keeps_slot [of s i r]; cases "ex_active s") (use move alone in \<open>auto simp: hands_def owned_def slot_ok_def\<close>)
next
  case (activate s r p)
  then have active: "ex_active s = Some r" by (simp add: slot_ok_def)
  show ?case
  proof (cases p)
    case None
    then have "r \<notin> set (producer_hand (ex_producer s)) \<and> ex_ready s \<noteq> Some r"
      using activate active by (auto simp: hands_ok_def hands_def owned_def)
    note alone = this
    show ?thesis
      by (rule consumer_keeps_slot [of s i r]) (use activate active None alone in \<open>auto simp: hands_def owned_def slot_ok_def\<close>)
  next
    case (Some q)
    then have "r \<notin> set (producer_hand (ex_producer s)) \<and> ex_ready s \<noteq> Some r \<and> q \<noteq> r"
      using activate active by (auto simp: hands_ok_def hands_def owned_def)
    note alone = this
    show ?thesis
      by (rule consumer_keeps_slot [of s i r]) (use activate active Some alone in \<open>auto simp: hands_def owned_def slot_ok_def\<close>)
  qed
next
  case (retire_previous s r)
  note alone = consumer_hand_alone [of s r]
  show ?case
    by (rule consumer_keeps_slot [of s i r]) (use retire_previous alone in \<open>auto simp: hands_def owned_def slot_ok_def\<close>)
next
  case (clear s r)
  then have "r \<notin> set (producer_hand (ex_producer s)) \<and> ex_ready s \<noteq> Some r"
    by (auto simp: hands_ok_def hands_def owned_def)
  note alone = this
  show ?case
    by (rule consumer_keeps_slot [of s i r]) (use clear alone in \<open>auto simp: hands_def owned_def slot_ok_def\<close>)
qed (auto simp: hands_def owned_def slot_ok_def)

text \<open>A slot stays free for the candidate.\<close>

lemma room_producer:
  assumes "producer_step s t" "room (ex_producer s) s" "hands_ok s" "\<forall>i. slot_ok s i"
  shows "room (ex_producer t) t"
  using assms
proof (induction rule: producer_step.induct)
  case (check_none s k c)
  then show ?case using owned_room [of s] by (auto simp: owned_def)
next
  case (reclaim_skip s k c i)
  then have "i \<notin> set (owned s) \<Longrightarrow> ex_ready s = None \<Longrightarrow> ex_state s i = EmptySlot"
    by (auto simp: slot_ok_def hands_def dest!: spec [of _ i])
  then show ?case using reclaim_skip by (auto simp: less_Suc_eq owned_def)
next
  case (empty s k c r)
  then have "r \<notin> set (owned s)" using producer_hand_alone [of s r] by simp
  then show ?case using empty by (auto simp: less_Suc_eq owned_def)
next
  case (scan_skip s k c i)
  then obtain j where "j < 3" "i \<le> j" "ex_state s j = EmptySlot" by auto
  then show ?case using scan_skip by (auto intro!: exI [of _ j] simp: Suc_le_eq) (metis le_neq_implies_less)
qed (auto simp: owned_def)

lemma consumer_owned:
  "consumer_step s t \<Longrightarrow> \<forall>i. slot_ok s i \<Longrightarrow> ex_ready s = None \<Longrightarrow>
     ex_ready t = None \<and> set (owned t) \<subseteq> set (owned s)"
proof (induction rule: consumer_step.induct)
  case (move s r)
  then show ?case by (cases "ex_active s") (auto simp: owned_def)
qed (auto simp: owned_def split: option.splits)

lemma consumer_state:
  "consumer_step s t \<Longrightarrow> slot_ok s i \<Longrightarrow> ex_producer t = ex_producer s \<and> (i \<notin> set (owned s) \<longrightarrow> ex_state t i = ex_state s i)"
  by (induction rule: consumer_step.induct) (auto simp: owned_def slot_ok_def)

lemma room_consumer:
  assumes "consumer_step s t" "room (ex_producer s) s" "\<forall>i. slot_ok s i"
  shows "room (ex_producer t) t"
proof -
  have owned: "ex_ready s = None \<Longrightarrow> ex_ready t = None \<and> (\<forall>j. j \<notin> set (owned s) \<longrightarrow> j \<notin> set (owned t))"
    using consumer_owned [OF assms(1,3)] by blast
  have pc: "ex_producer t = ex_producer s" using consumer_state [OF assms(1)] assms(3) by blast
  have empty: "ex_state s j = EmptySlot \<Longrightarrow> ex_state t j = EmptySlot" for j
    using owned_state [of s j] consumer_state [OF assms(1), of j] assms(3) by auto
  show ?thesis
  proof (cases "ex_producer s")
    case (PReclaim k c i)
    then show ?thesis using assms(2) owned empty unfolding pc by (simp, meson)
  next
    case (PReset k c i)
    then show ?thesis using assms(2) owned empty unfolding pc by (simp, meson)
  next
    case (PEmpty k c i)
    then show ?thesis using assms(2) owned empty unfolding pc by (simp, meson)
  qed (use assms(2) owned empty in \<open>auto simp: pc\<close>)
qed

text \<open>The owner selects in the order of publication.\<close>

lemma coming_own:
  "hands_ok s \<Longrightarrow> \<forall>i. slot_ok s i \<Longrightarrow> i \<in> set (candidate_hand (ex_consumer s) @ opt_list (ex_ready s)) \<Longrightarrow>
     i \<notin> set (producer_hand (ex_producer s))"
  by (cases "ex_consumer s") (auto simp: hands_ok_def hands_def owned_def)

lemma subseq_append_drop: "subseq (xs @ ys @ zs) us \<Longrightarrow> subseq (xs @ zs) us"
  using subseq_order.order_trans [of "xs @ zs" "xs @ ys @ zs" us] list_emb_append2 [of "(=)" zs zs ys]
  by (simp add: subseq_append')

lemma in_order_producer:
  assumes "producer_step s t" "hands_ok s" "\<forall>i. slot_ok s i" "subseq (ex_selected s @ coming s) (ex_published s)" "room (ex_producer s) s"
  shows "subseq (ex_selected t @ coming t) (ex_published t)"
  using assms
proof (induction rule: producer_step.induct)
  case (take_back s c r)
  then show ?case using subseq_append_drop [of "ex_selected s @ map (\<lambda>i. the (ex_value s i)) (candidate_hand (ex_consumer s))" "[the (ex_value s r)]" "[]"]
    by (simp add: coming_def)
next
  case (reset_value s k c r)
  then have "r \<notin> set (candidate_hand (ex_consumer s) @ opt_list (ex_ready s))" using coming_own by fastforce
  then have "coming (s\<lparr>ex_value := (ex_value s)(r := None), ex_producer := PEmpty k c r\<rparr>) = coming s"
    by (auto simp: coming_def)
  then show ?case using reset_value by simp
next
  case (fill s k c r)
  then have "r \<notin> set (candidate_hand (ex_consumer s) @ opt_list (ex_ready s))" using coming_own by fastforce
  then have "coming (s\<lparr>ex_value := (ex_value s)(r := Some c), ex_producer := PMark k c r\<rparr>) = coming s"
    by (auto simp: coming_def)
  then show ?case using fill by simp
next
  case (post s k c r)
  then have "ex_value s r = Some c" by (auto simp: slot_ok_def)
  then show ?case using post list_emb_append_mono [OF post(4), of "[c]" "[c]"] by (simp add: coming_def)
qed (auto simp: coming_def)

lemma in_order_consumer:
  assumes "consumer_step s t" "subseq (ex_selected s @ coming s) (ex_published s)"
  shows "subseq (ex_selected t @ coming t) (ex_published t)"
  using assms
proof (induction rule: consumer_step.induct)
  case (reject s r)
  then show ?case using subseq_append_drop [of "ex_selected s" "[the (ex_value s r)]" "map (\<lambda>i. the (ex_value s i)) (opt_list (ex_ready s))"]
    by (simp add: coming_def)
qed (auto simp: coming_def split: option.splits)

definition shows_last :: "exchange \<Rightarrow> bool" where
  "shows_last s \<longleftrightarrow> (\<forall>i. ex_active s = Some i \<longrightarrow> ex_selected s \<noteq> [] \<and> ex_value s i = Some (last (ex_selected s)))"

lemma shows_last_producer:
  "producer_step s t \<Longrightarrow> hands_ok s \<Longrightarrow> shows_last s \<Longrightarrow> shows_last t"
  by (induction rule: producer_step.induct) (auto simp: shows_last_def hands_ok_def hands_def owned_def)

lemma shows_last_consumer: "consumer_step s t \<Longrightarrow> \<forall>i. slot_ok s i \<Longrightarrow> shows_last s \<Longrightarrow> shows_last t"
proof (induction rule: consumer_step.induct)
  case (move s r)
  then have "ex_value s r \<noteq> None" by (auto simp: slot_ok_def)
  then show ?case by (auto simp: shows_last_def)
qed (auto simp: shows_last_def)

definition exchange_ok :: "exchange \<Rightarrow> bool" where
  "exchange_ok s \<longleftrightarrow> slots_ok s \<and> room (ex_producer s) s \<and> shows_last s \<and>
     subseq (ex_selected s @ coming s) (ex_published s)"

lemma new_exchange_ok: "exchange_ok new_exchange"
  by (simp add: exchange_ok_def slots_ok_def hands_ok_def slot_ok_def hands_def owned_def new_exchange_def coming_def
      shows_last_def)

lemma exchange_ok_step:
  assumes "exchange_step s t" "exchange_ok s"
  shows "exchange_ok t"
  using assms
proof (induction rule: exchange_step.induct)
  case (producer s t)
  then show ?case
    using hands_ok_producer slot_ok_producer room_producer shows_last_producer in_order_producer
    by (auto simp: exchange_ok_def slots_ok_def)
next
  case (consumer s t)
  then show ?case
    using hands_ok_consumer slot_ok_consumer room_consumer shows_last_consumer in_order_consumer
    by (auto simp: exchange_ok_def slots_ok_def)
qed

lemma exchange_ok_run: "exchange_step\<^sup>*\<^sup>* new_exchange s \<Longrightarrow> exchange_ok s"
  by (induction rule: rtranclp_induct) (auto intro: new_exchange_ok exchange_ok_step)

section \<open>The contract\<close>

text \<open>
  Claim C25. In every interleaving of the coordinator's and the frame owner's atomic instructions:
  no slot is in two hands, so neither side writes a value the other may read; what the owner
  selects is a subsequence of what was published, in its order; the active value is the last one
  selected; \<open>TryReplace\<close> never refuses a candidate, and the scan for a free slot
  never runs out, so \<open>TryPublish\<close> refuses one only while a successor is ready.
\<close>

theorem exchange_latest_wins:
  assumes "exchange_step\<^sup>*\<^sup>* new_exchange s"
  shows "distinct (hands s) \<and> subseq (ex_selected s) (ex_published s) \<and>
     (ex_active s = None \<or> ex_selected s \<noteq> [] \<and> active_value s = Some (last (ex_selected s))) \<and>
     ex_producer s \<noteq> PReturn TryReplace False \<and> ex_producer s \<noteq> PScan k c 3"
proof -
  have ok: "exchange_ok s" using assms by (rule exchange_ok_run)
  have "subseq (ex_selected s) (ex_selected s @ coming s)"
    using list_emb_append2 [of "(=)" "[]" "[]" "coming s"] subseq_append' [of "ex_selected s" "[]"] by simp
  with ok have "subseq (ex_selected s) (ex_published s)"
    using subseq_order.order_trans by (auto simp: exchange_ok_def)
  with ok show ?thesis
    by (auto simp: exchange_ok_def slots_ok_def hands_ok_def shows_last_def active_value_def split: option.splits)
qed

lemma exchange_latest_wins_witness:
  "\<exists>s. exchange_step\<^sup>*\<^sup>* new_exchange s \<and> ex_published s = [7] \<and> ex_selected s = [7] \<and> subseq (ex_selected s) (ex_published s)"
proof -
  have "\<exists>s. exchange_step\<^sup>*\<^sup>* new_exchange s \<and> ex_published s = [7] \<and> ex_selected s = [7]"
    apply (rule exI, rule conjI)
     apply (rule converse_rtranclp_into_rtranclp, rule producer, rule publish [where c = 7], simp add: new_exchange_def)
     apply (rule converse_rtranclp_into_rtranclp, rule producer, rule check_none, simp, simp add: new_exchange_def)
     apply (rule converse_rtranclp_into_rtranclp, rule producer, rule reclaim_skip, simp, simp, simp add: new_exchange_def)
     apply (rule converse_rtranclp_into_rtranclp, rule producer, rule reclaim_skip, simp, simp, simp add: new_exchange_def)
     apply (rule converse_rtranclp_into_rtranclp, rule producer, rule reclaim_skip, simp, simp, simp add: new_exchange_def)
     apply (rule converse_rtranclp_into_rtranclp, rule producer, rule reclaim_done, simp)
     apply (rule converse_rtranclp_into_rtranclp, rule producer, rule scan_found, simp, simp, simp add: new_exchange_def)
     apply (rule converse_rtranclp_into_rtranclp, rule producer, rule fill, simp)
     apply (rule converse_rtranclp_into_rtranclp, rule producer, rule mark, simp)
     apply (rule converse_rtranclp_into_rtranclp, rule producer, rule post, simp)
     apply (rule converse_rtranclp_into_rtranclp, rule consumer, rule take, simp add: new_exchange_def, simp)
     apply (rule converse_rtranclp_into_rtranclp, rule consumer, rule accept, simp)
     apply (rule converse_rtranclp_into_rtranclp, rule consumer, rule move, simp)
     apply (rule rtranclp.rtrancl_refl)
    apply (simp add: new_exchange_def)
    done
  then obtain s where "exchange_step\<^sup>*\<^sup>* new_exchange s" "ex_published s = [7]" "ex_selected s = [7]" by blast
  then show ?thesis using exchange_latest_wins [of s] by blast
qed

end
