(* ===== verification/Pump.thy ===== *)
theory Pump
  imports Prelude
begin

text \<open>
  \<^verbatim>\<open>include/ORGModuleServices/Async/SerializedTaskPump.h\<close>: producers notify, one consumer drains.
  Any number of threads run the pump's operations; each load, compare-exchange, fetch and locked
  section is one step, and any interleaving is a run. A step acts on the pump and on one thread's
  program counter; the statistics counters, which decide nothing, move with the step beside them.
  The executor accepts a task or refuses it; an accepted task waits in \<open>pm_tasks\<close> until a thread
  runs it (a submitter that runs it at once is a thread that does so while the caller waits).
\<close>

section \<open>The word\<close>

datatype pump_state = PumpIdle | PumpScheduled | PumpRunning | PumpStopping

primrec state_code :: "pump_state \<Rightarrow> nat" where
  "state_code PumpIdle = 0"
| "state_code PumpScheduled = 1"
| "state_code PumpRunning = 2"
| "state_code PumpStopping = 3"

text \<open>The state in the low two bits, the requested epoch above them, in 64 bits.\<close>

definition make_word :: "pump_state \<Rightarrow> nat \<Rightarrow> nat" where
  "make_word st epoch = u64 (4 * epoch) + state_code st"

definition state_of :: "nat \<Rightarrow> pump_state" where
  "state_of w = (if w mod 4 = 0 then PumpIdle else if w mod 4 = 1 then PumpScheduled
     else if w mod 4 = 2 then PumpRunning else PumpStopping)"

definition epoch_range :: nat where
  "epoch_range = 2 ^ 62"

definition epoch_of :: "nat \<Rightarrow> nat" where
  "epoch_of w = w div 4"

text \<open>\<open>fetch_or(kStateMask)\<close>.\<close>

definition stop_bits :: "nat \<Rightarrow> nat" where
  "stop_bits w = w - w mod 4 + 3"

lemma state_of_make [simp]: "state_of (make_word st e) = st"
proof -
  have "u64 (4 * e) mod 4 = 0" unfolding u64_def by (simp add: mod_mod_cancel)
  then have "make_word st e mod 4 = state_code st mod 4"
    unfolding make_word_def by (metis add_cancel_left_left mod_add_left_eq)
  then show ?thesis by (cases st) (simp_all add: state_of_def)
qed

lemma epoch_of_make [simp]: "epoch_of (make_word st e) = e mod epoch_range"
proof -
  have "u64 (4 * e) = 4 * (e mod 2 ^ 62)"
    using mult_mod_right [of 4 e "2 ^ 62"] by (simp add: u64_def)
  then show ?thesis by (cases st) (simp_all add: make_word_def epoch_of_def epoch_range_def)
qed

lemma state_of_stop [simp]: "state_of (stop_bits w) = PumpStopping"
proof -
  have "(w - w mod 4 + 3) mod 4 = 3"
    by (metis mod_mult_self3 minus_mod_eq_mult_div mult.commute numeral_less_iff mod_less semiring_norm(76,78,81))
  then show ?thesis by (simp add: state_of_def stop_bits_def)
qed

lemma epoch_of_stop [simp]: "epoch_of (stop_bits w) = epoch_of w"
  unfolding epoch_of_def stop_bits_def by (simp add: minus_mod_eq_mult_div)

lemma epoch_small: "a mod epoch_range = b mod epoch_range \<Longrightarrow> b \<le> a \<Longrightarrow> a < epoch_range \<Longrightarrow> a = (b :: nat)"
  by simp

section \<open>The pump\<close>

record pump_stats =
  st_drainedEpoch :: nat
  st_notifications :: nat
  st_coalescedNotifications :: nat
  st_drainPasses :: nat
  st_handoffRetries :: nat
  st_handoffResubmissions :: nat
  st_delayedRequests :: nat
  st_delayedCoalesced :: nat
  st_delayedFired :: nat
  st_staleDelayed :: nat
  st_rejected :: nat

text \<open>
  \<open>pm_asked\<close>, \<open>pm_seen\<close> and \<open>pm_done\<close> are for the statements: how many epochs were
  requested, how many when the consumer last began a pass, how many when its last finished pass
  began. \<open>pm_tasks\<close> and \<open>pm_timers\<close> are the executor's: accepted tasks and timers not run yet.
\<close>

record pump =
  pm_word :: nat
  pm_stats :: pump_stats
  pm_delayedGeneration :: u64
  pm_delayedDue :: "nat option"
  pm_submit :: bool
  pm_submitDelayed :: bool
  pm_drain :: bool
  pm_resubmit :: bool
  pm_tasks :: nat
  pm_timers :: "u64 list"
  pm_asked :: nat
  pm_seen :: nat
  pm_done :: nat

definition zero_stats :: pump_stats where
  "zero_stats = \<lparr>st_drainedEpoch = 0, st_notifications = 0, st_coalescedNotifications = 0, st_drainPasses = 0,
     st_handoffRetries = 0, st_handoffResubmissions = 0, st_delayedRequests = 0, st_delayedCoalesced = 0,
     st_delayedFired = 0, st_staleDelayed = 0, st_rejected = 0\<rparr>"

text \<open>\<open>Configure\<close>, before the pump is shared.\<close>

definition configure :: "bool \<Rightarrow> bool \<Rightarrow> bool \<Rightarrow> bool \<Rightarrow> u64 \<Rightarrow> pump" where
  "configure submit drain delayed resubmit generation =
     \<lparr>pm_word = make_word PumpIdle 0, pm_stats = zero_stats, pm_delayedGeneration = generation + 1, pm_delayedDue = None,
      pm_submit = submit, pm_submitDelayed = delayed, pm_drain = drain, pm_resubmit = resubmit,
      pm_tasks = 0, pm_timers = [], pm_asked = 0, pm_seen = 0, pm_done = 0\<rparr>"

abbreviation pm_state :: "pump \<Rightarrow> pump_state" where
  "pm_state p \<equiv> state_of (pm_word p)"

definition is_idle :: "pump \<Rightarrow> bool" where
  "is_idle p \<longleftrightarrow> pm_state p = PumpIdle"

text \<open>\<open>GetStats\<close>: the requested epoch, whether a runner is active, whether a delay is armed.\<close>

definition get_stats :: "pump \<Rightarrow> nat \<times> pump_stats \<times> bool \<times> bool" where
  "get_stats p = (epoch_of (pm_word p), pm_stats p, pm_state p = PumpScheduled \<or> pm_state p = PumpRunning,
     pm_delayedDue p \<noteq> None)"

text \<open>The counters that move.\<close>

definition count_notify :: "bool \<Rightarrow> pump_stats \<Rightarrow> pump_stats" where
  "count_notify scheduled st = st\<lparr>st_notifications := u64 (st_notifications st + 1),
     st_coalescedNotifications := (if scheduled then st_coalescedNotifications st else u64 (st_coalescedNotifications st + 1))\<rparr>"

definition count_drain :: "nat \<Rightarrow> pump_stats \<Rightarrow> pump_stats" where
  "count_drain epoch st = st\<lparr>st_drainedEpoch := epoch, st_drainPasses := u64 (st_drainPasses st + 1)\<rparr>"

definition count_handoff :: "bool \<Rightarrow> pump_stats \<Rightarrow> pump_stats" where
  "count_handoff resubmit st = st\<lparr>st_handoffRetries := u64 (st_handoffRetries st + 1),
     st_handoffResubmissions := (if resubmit then u64 (st_handoffResubmissions st + 1) else st_handoffResubmissions st)\<rparr>"

definition count_delayed :: "bool \<Rightarrow> pump_stats \<Rightarrow> pump_stats" where
  "count_delayed coalesced st = st\<lparr>st_delayedRequests := u64 (st_delayedRequests st + 1),
     st_delayedCoalesced := (if coalesced then u64 (st_delayedCoalesced st + 1) else st_delayedCoalesced st)\<rparr>"

definition count_rejected :: "pump_stats \<Rightarrow> pump_stats" where
  "count_rejected st = st\<lparr>st_rejected := u64 (st_rejected st + 1)\<rparr>"

section \<open>The threads\<close>

datatype pump_pc =
    PRest
  | Notifying
  | NLoop nat
  | NSubmit
  | Failing
  | TLoop nat
  | RStart
  | RLoop nat
  | OTop
  | ODrain nat
  | OFail
  | ODrained nat
  | OLoop nat nat
  | OSubmit
  | OClosing
  | DArm u64
  | DFire u64
  | Stopped
  | Answer bool

definition closed :: "pump \<Rightarrow> nat \<Rightarrow> bool" where
  "closed p w \<longleftrightarrow> state_of w = PumpStopping \<or> \<not> pm_submit p \<or> \<not> pm_drain p"

definition taken :: "nat \<Rightarrow> bool" where
  "taken w \<longleftrightarrow> state_of w = PumpStopping \<or> state_of w = PumpRunning"

text \<open>The compare-exchange of \<open>Notify\<close>, that of \<open>TryRunInline\<close>, and \<open>Fail\<close>.\<close>

definition request_epoch :: "nat \<Rightarrow> pump \<Rightarrow> pump" where
  "request_epoch w p =
     (let schedule = (state_of w = PumpIdle) in
      p\<lparr>pm_word := make_word (if schedule then PumpScheduled else state_of w) (epoch_of w + 1),
        pm_asked := pm_asked p + 1, pm_stats := count_notify schedule (pm_stats p)\<rparr>)"

definition claim_inline :: "nat \<Rightarrow> pump \<Rightarrow> pump" where
  "claim_inline w p = p\<lparr>pm_word := make_word PumpRunning (epoch_of w + 1), pm_asked := pm_asked p + 1\<rparr>"

definition fail :: "pump \<Rightarrow> pump" where
  "fail p = p\<lparr>pm_word := stop_bits (pm_word p), pm_stats := count_rejected (pm_stats p)\<rparr>"

text \<open>What is called: \<open>Notify\<close>, \<open>TryRunInline\<close>, \<open>NotifyAfter\<close>, \<open>Stop\<close>.\<close>

inductive call_act :: "pump \<Rightarrow> pump_pc \<Rightarrow> pump \<Rightarrow> pump_pc \<Rightarrow> bool" where
  answer: "call_act p (Answer ok) p PRest"
  \<comment> \<open>Notify\<close>
| notify: "call_act p PRest p Notifying"
| notify_load: "call_act p Notifying p (NLoop (pm_word p))"
| notify_closed: "closed p w \<Longrightarrow> call_act p (NLoop w) p (Answer False)"
| notify_swap: "\<not> closed p w \<Longrightarrow> pm_word p = w \<Longrightarrow>
    call_act p (NLoop w) (request_epoch w p) (if state_of w = PumpIdle then NSubmit else Answer True)"
| notify_again: "\<not> closed p w \<Longrightarrow> call_act p (NLoop w) p (NLoop (pm_word p))"
| submit: "call_act p NSubmit (p\<lparr>pm_tasks := pm_tasks p + 1\<rparr>) (Answer True)"
| submit_refused: "call_act p NSubmit p Failing"
| fail_notify: "call_act p Failing (fail p) (Answer False)"
  \<comment> \<open>TryRunInline\<close>
| inline_load: "call_act p PRest p (TLoop (pm_word p))"
| inline_no: "taken w \<or> \<not> pm_drain p \<Longrightarrow> call_act p (TLoop w) p (Answer False)"
| inline_swap: "\<not> taken w \<Longrightarrow> pm_drain p \<Longrightarrow> pm_word p = w \<Longrightarrow> call_act p (TLoop w) (claim_inline w p) OTop"
| inline_again: "\<not> taken w \<Longrightarrow> pm_drain p \<Longrightarrow> call_act p (TLoop w) p (TLoop (pm_word p))"
  \<comment> \<open>NotifyAfter, with the deadline it computed\<close>
| after_no: "pm_state p = PumpStopping \<or> \<not> pm_submitDelayed p \<Longrightarrow> call_act p PRest p (Answer False)"
| after_coalesced: "pm_state p \<noteq> PumpStopping \<Longrightarrow> pm_submitDelayed p \<Longrightarrow> pm_delayedDue p = Some d \<Longrightarrow> d \<le> due \<Longrightarrow>
    call_act p PRest (p\<lparr>pm_stats := count_delayed True (pm_stats p)\<rparr>) (Answer True)"
| after_arm: "pm_state p \<noteq> PumpStopping \<Longrightarrow> pm_submitDelayed p \<Longrightarrow> pm_delayedDue p = None \<or> (\<exists>d. pm_delayedDue p = Some d \<and> due < d) \<Longrightarrow>
    call_act p PRest (p\<lparr>pm_stats := count_delayed False (pm_stats p), pm_delayedGeneration := pm_delayedGeneration p + 1,
      pm_delayedDue := Some due\<rparr>) (DArm (pm_delayedGeneration p + 1))"
| armed: "call_act p (DArm g) (p\<lparr>pm_timers := g # pm_timers p\<rparr>) (Answer True)"
| arm_refused: "call_act p (DArm g) (p\<lparr>pm_delayedDue := (if pm_delayedGeneration p = g then None else pm_delayedDue p),
      pm_stats := count_rejected (pm_stats p)\<rparr>) (Answer False)"
  \<comment> \<open>Stop\<close>
| stop: "call_act p PRest (p\<lparr>pm_word := stop_bits (pm_word p)\<rparr>) Stopped"
| stop_delayed: "call_act p Stopped (p\<lparr>pm_delayedGeneration := pm_delayedGeneration p + 1, pm_delayedDue := None\<rparr>) PRest"

text \<open>What the executor runs: timers and tasks.\<close>

inductive run_act :: "pump \<Rightarrow> pump_pc \<Rightarrow> pump \<Rightarrow> pump_pc \<Rightarrow> bool" where
  \<comment> \<open>FireDelayed, as an accepted timer\<close>
  fire: "g \<in> set (pm_timers p) \<Longrightarrow> run_act p PRest (p\<lparr>pm_timers := remove1 g (pm_timers p)\<rparr>) (DFire g)"
| fire_stopped: "pm_state p = PumpStopping \<Longrightarrow> run_act p (DFire g) p PRest"
| fire_stale: "pm_state p \<noteq> PumpStopping \<Longrightarrow> pm_delayedDue p = None \<or> g \<noteq> pm_delayedGeneration p \<Longrightarrow>
    run_act p (DFire g) (p\<lparr>pm_stats := (pm_stats p)\<lparr>st_staleDelayed := u64 (st_staleDelayed (pm_stats p) + 1)\<rparr>\<rparr>) PRest"
| fire_due: "pm_state p \<noteq> PumpStopping \<Longrightarrow> pm_delayedDue p \<noteq> None \<Longrightarrow> g = pm_delayedGeneration p \<Longrightarrow>
    run_act p (DFire g) (p\<lparr>pm_delayedDue := None,
      pm_stats := (pm_stats p)\<lparr>st_delayedFired := u64 (st_delayedFired (pm_stats p) + 1)\<rparr>\<rparr>) Notifying"
  \<comment> \<open>Run, as an accepted task\<close>
| run: "pm_tasks p > 0 \<Longrightarrow> run_act p PRest (p\<lparr>pm_tasks := pm_tasks p - 1\<rparr>) RStart"
| run_load: "run_act p RStart p (RLoop (pm_word p))"
| run_no: "taken w \<Longrightarrow> run_act p (RLoop w) p PRest"
| run_swap: "\<not> taken w \<Longrightarrow> pm_word p = w \<Longrightarrow>
    run_act p (RLoop w) (p\<lparr>pm_word := make_word PumpRunning (epoch_of w)\<rparr>) OTop"
| run_again: "\<not> taken w \<Longrightarrow> run_act p (RLoop w) p (RLoop (pm_word p))"
  \<comment> \<open>RunOwned\<close>
| owner_stopped: "pm_state p = PumpStopping \<Longrightarrow> run_act p OTop p PRest"
| owner_load: "pm_state p \<noteq> PumpStopping \<Longrightarrow>
    run_act p OTop (p\<lparr>pm_seen := pm_asked p\<rparr>) (ODrain (epoch_of (pm_word p)))"
| drain_throws: "run_act p (ODrain e) p OFail"
| fail_owner: "run_act p OFail (fail p) PRest"
| drain_returns: "run_act p (ODrain e) (p\<lparr>pm_done := pm_seen p, pm_stats := count_drain e (pm_stats p)\<rparr>) (ODrained e)"
| reload: "run_act p (ODrained e) p (OLoop e (pm_word p))"
| owner_stopping: "state_of w = PumpStopping \<Longrightarrow> run_act p (OLoop e w) p PRest"
| to_idle: "state_of w \<noteq> PumpStopping \<Longrightarrow> epoch_of w = e \<Longrightarrow> pm_word p = w \<Longrightarrow>
    run_act p (OLoop e w) (p\<lparr>pm_word := make_word PumpIdle e\<rparr>) PRest"
| to_idle_again: "state_of w \<noteq> PumpStopping \<Longrightarrow> epoch_of w = e \<Longrightarrow> run_act p (OLoop e w) p (OLoop e (pm_word p))"
| handoff_inline: "state_of w \<noteq> PumpStopping \<Longrightarrow> epoch_of w \<noteq> e \<Longrightarrow> \<not> pm_resubmit p \<Longrightarrow>
    run_act p (OLoop e w) (p\<lparr>pm_stats := count_handoff False (pm_stats p)\<rparr>) OTop"
| handoff_swap: "state_of w \<noteq> PumpStopping \<Longrightarrow> epoch_of w \<noteq> e \<Longrightarrow> pm_resubmit p \<Longrightarrow> pm_word p = w \<Longrightarrow>
    run_act p (OLoop e w) (p\<lparr>pm_word := make_word PumpScheduled (epoch_of w), pm_stats := count_handoff True (pm_stats p)\<rparr>) OSubmit"
| handoff_again: "state_of w \<noteq> PumpStopping \<Longrightarrow> epoch_of w \<noteq> e \<Longrightarrow> pm_resubmit p \<Longrightarrow>
    run_act p (OLoop e w) p (OLoop e (pm_word p))"
| resubmit: "run_act p OSubmit (p\<lparr>pm_tasks := pm_tasks p + 1\<rparr>) PRest"
| resubmit_refused: "run_act p OSubmit p OClosing"
| fail_late: "run_act p OClosing (fail p) PRest"

definition pump_act :: "pump \<Rightarrow> pump_pc \<Rightarrow> pump \<Rightarrow> pump_pc \<Rightarrow> bool" where
  "pump_act p pc q pc' \<longleftrightarrow> call_act p pc q pc' \<or> run_act p pc q pc'"

type_synonym pump_sys = "pump \<times> pump_pc list"

inductive pump_step :: "pump_sys \<Rightarrow> pump_sys \<Rightarrow> bool" where
  thread: "i < length ts \<Longrightarrow> pump_act p (ts ! i) q pc \<Longrightarrow> pump_step (p, ts) (q, ts[i := pc])"

abbreviation pump_run :: "pump_sys \<Rightarrow> pump_sys \<Rightarrow> bool" where
  "pump_run \<equiv> pump_step\<^sup>*\<^sup>*"

section \<open>The invariant\<close>

text \<open>The consumer: between its claim and the transition that gives the role up.\<close>

fun owner :: "pump_pc \<Rightarrow> bool" where
  "owner OTop = True"
| "owner (ODrain e) = True"
| "owner OFail = True"
| "owner (ODrained e) = True"
| "owner (OLoop e w) = True"
| "owner _ = False"

definition owners :: "pump_pc list \<Rightarrow> nat" where
  "owners ts = length (filter owner ts)"

text \<open>The threads that still owe a scheduled pump its run.\<close>

fun will_run :: "pump_pc \<Rightarrow> bool" where
  "will_run NSubmit = True"
| "will_run Failing = True"
| "will_run OSubmit = True"
| "will_run OClosing = True"
| "will_run RStart = True"
| "will_run (RLoop w) = (\<not> taken w)"
| "will_run _ = False"

text \<open>What the consumer knows of the epochs.\<close>

fun observed :: "pump \<Rightarrow> pump_pc \<Rightarrow> bool" where
  "observed p (ODrain e) \<longleftrightarrow> e = pm_seen p mod epoch_range"
| "observed p (ODrained e) \<longleftrightarrow> e = pm_seen p mod epoch_range \<and> pm_done p = pm_seen p"
| "observed p (OLoop e w) \<longleftrightarrow> e = pm_seen p mod epoch_range \<and> pm_done p = pm_seen p \<and>
     (state_of w = PumpStopping \<longrightarrow> pm_state p = PumpStopping)"
| "observed p _ \<longleftrightarrow> True"

fun arms :: "u64 \<Rightarrow> pump_pc \<Rightarrow> bool" where
  "arms g (DArm h) = (g = h)"
| "arms g (DFire h) = (g = h)"
| "arms g _ = False"

definition epochs_ok :: "pump \<Rightarrow> bool" where
  "epochs_ok p \<longleftrightarrow> epoch_of (pm_word p) = pm_asked p mod epoch_range \<and> pm_seen p \<le> pm_asked p \<and>
     (pm_asked p < epoch_range \<and> pm_state p = PumpIdle \<longrightarrow> pm_done p = pm_asked p)"

definition owners_ok :: "pump_sys \<Rightarrow> bool" where
  "owners_ok s \<longleftrightarrow> owners (snd s) \<le> 1 \<and> (pm_state (fst s) = PumpRunning \<longrightarrow> owners (snd s) = 1) \<and>
     (pm_state (fst s) = PumpIdle \<or> pm_state (fst s) = PumpScheduled \<longrightarrow> owners (snd s) = 0)"

definition scheduled_ok :: "pump_sys \<Rightarrow> bool" where
  "scheduled_ok s \<longleftrightarrow> (pm_state (fst s) = PumpScheduled \<longrightarrow> pm_tasks (fst s) > 0 \<or> (\<exists>pc \<in> set (snd s). will_run pc))"

definition delayed_ok :: "pump_sys \<Rightarrow> bool" where
  "delayed_ok s \<longleftrightarrow> (pm_state (fst s) \<noteq> PumpStopping \<and> pm_delayedDue (fst s) \<noteq> None \<longrightarrow>
     pm_delayedGeneration (fst s) \<in> set (pm_timers (fst s)) \<or> (\<exists>pc \<in> set (snd s). arms (pm_delayedGeneration (fst s)) pc))"

definition observed_ok :: "pump_sys \<Rightarrow> bool" where
  "observed_ok s \<longleftrightarrow> (\<forall>pc \<in> set (snd s). observed (fst s) pc)"

named_theorems pump_simps \<open>what the pump's operations do to its fields\<close>

lemma taken_iff [pump_simps]: "taken w \<longleftrightarrow> state_of w \<noteq> PumpIdle \<and> state_of w \<noteq> PumpScheduled"
  by (cases "state_of w") (simp_all add: taken_def)

lemma pump_actE: "pump_act p pc q pc' \<Longrightarrow> (call_act p pc q pc' \<Longrightarrow> P) \<Longrightarrow> (run_act p pc q pc' \<Longrightarrow> P) \<Longrightarrow> P"
  by (auto simp: pump_act_def)

declare request_epoch_def [pump_simps] claim_inline_def [pump_simps] fail_def [pump_simps] closed_def [pump_simps]
  Let_def [pump_simps]

lemma act_stopping: "pump_act p pc q pc' \<Longrightarrow> pm_state p = PumpStopping \<Longrightarrow> pm_state q = PumpStopping"
proof (erule pump_actE)
  show "call_act p pc q pc' \<Longrightarrow> pm_state p = PumpStopping \<Longrightarrow> pm_state q = PumpStopping"
    by (induction rule: call_act.induct) (auto simp: pump_simps)
  show "run_act p pc q pc' \<Longrightarrow> pm_state p = PumpStopping \<Longrightarrow> pm_state q = PumpStopping"
    by (induction rule: run_act.induct) (auto simp: pump_simps)
qed

text \<open>The consumer's role changes hands with the state.\<close>

definition role_moves :: "pump \<Rightarrow> pump_pc \<Rightarrow> pump \<Rightarrow> pump_pc \<Rightarrow> bool" where
  "role_moves p pc q pc' \<longleftrightarrow>
     owner pc' = owner pc \<and> (pm_state q = pm_state p \<or> pm_state q = PumpStopping \<or> pm_state p = PumpIdle \<and> pm_state q = PumpScheduled) \<or>
     \<not> owner pc \<and> owner pc' \<and> (pm_state p = PumpIdle \<or> pm_state p = PumpScheduled) \<and> pm_state q = PumpRunning \<or>
     owner pc \<and> \<not> owner pc' \<and> pm_state q \<noteq> PumpRunning"

lemma act_owner:
  assumes "pump_act p pc q pc'" "owner pc \<longrightarrow> pm_state p = PumpRunning \<or> pm_state p = PumpStopping" "observed p pc"
  shows "role_moves p pc q pc'"
  using assms(1)
proof (rule pump_actE)
  show "role_moves p pc q pc'" if "call_act p pc q pc'"
    using that assms(2,3) by (induction rule: call_act.induct) (auto simp: role_moves_def pump_simps)
  show "role_moves p pc q pc'" if "run_act p pc q pc'"
    using that assms(2,3) by (induction rule: run_act.induct) (auto simp: role_moves_def pump_simps)
qed

lemma owner_excludes: "owners_ok (p, ts) \<Longrightarrow> pc \<in> set ts \<Longrightarrow> owner pc \<Longrightarrow> pm_state p = PumpRunning \<or> pm_state p = PumpStopping"
  by (cases "pm_state p") (auto simp: owners_ok_def owners_def filter_empty_conv)

lemma owners_step:
  assumes "i < length ts" "pump_act p (ts ! i) q pc" "owners_ok (p, ts)" "observed p (ts ! i)"
  shows "owners_ok (q, ts[i := pc])"
proof -
  have "owner (ts ! i) \<longrightarrow> pm_state p = PumpRunning \<or> pm_state p = PumpStopping"
    using owner_excludes [OF assms(3), of "ts ! i"] assms(1) by auto
  note move = act_owner [OF assms(2) this assms(4), unfolded role_moves_def]
  have count: "owners (ts[i := pc]) + (if owner (ts ! i) then 1 else 0) = owners ts + (if owner pc then 1 else 0)"
    unfolding owners_def by (rule filter_length_update [OF assms(1)])
  show ?thesis
    using move count assms(3) by (cases "pm_state p"; cases "pm_state q") (auto simp: owners_ok_def)
qed

text \<open>The epochs.\<close>

lemma epochs_idle:
  assumes "epoch_of w = e" "pm_word p = w" "epochs_ok p" "observed p (OLoop e w)"
  shows "epochs_ok (p\<lparr>pm_word := make_word PumpIdle e\<rparr>)"
proof -
  have asked: "epoch_of w = pm_asked p mod epoch_range" "pm_seen p \<le> pm_asked p"
    using assms(2,3) unfolding epochs_ok_def by blast+
  have seen: "e = pm_seen p mod epoch_range" "pm_done p = pm_seen p" using assms(4) by simp_all
  have "pm_asked p mod epoch_range = pm_seen p mod epoch_range" using asked(1) seen(1) assms(1) by argo
  then have "pm_asked p < epoch_range \<Longrightarrow> pm_asked p = pm_seen p" using epoch_small asked(2) by blast
  with asked seen assms(1) show ?thesis unfolding epochs_ok_def by simp
qed

lemma act_epochs:
  assumes "pump_act p pc q pc'" "epochs_ok p" "observed p pc" "owner pc \<longrightarrow> pm_state p \<noteq> PumpIdle"
  shows "epochs_ok q \<and> observed q pc'"
  using assms(1)
proof (rule pump_actE)
  show "epochs_ok q \<and> observed q pc'" if "call_act p pc q pc'"
    using that assms(2-)
  proof (induction rule: call_act.induct)
    case (notify_swap p w)
    then show ?case by (cases "state_of w") (auto simp: epochs_ok_def pump_simps mod_Suc_eq)
  qed (auto simp: epochs_ok_def pump_simps mod_Suc_eq)
  show "epochs_ok q \<and> observed q pc'" if "run_act p pc q pc'"
    using that assms(2-)
  proof (induction rule: run_act.induct)
    case (to_idle w e p)
    then show ?case using epochs_idle by simp
  qed (auto simp: epochs_ok_def pump_simps mod_Suc_eq)
qed

lemma act_keeps_seen:
  assumes "pump_act p pc q pc'" "\<not> owner pc"
  shows "pm_seen q = pm_seen p \<and> pm_done q = pm_done p"
  using assms(1)
proof (rule pump_actE)
  show "pm_seen q = pm_seen p \<and> pm_done q = pm_done p" if "call_act p pc q pc'"
    using that by (induction rule: call_act.induct) (auto simp: pump_simps)
  show "pm_seen q = pm_seen p \<and> pm_done q = pm_done p" if "run_act p pc q pc'"
    using that assms(2) by (induction rule: run_act.induct) (auto simp: pump_simps)
qed

lemma act_observed: "pump_act p pc q pc' \<Longrightarrow> \<not> owner pc \<Longrightarrow> observed p other \<Longrightarrow> observed q other"
  using act_keeps_seen [of p pc q pc'] act_stopping [of p pc q pc'] by (cases other) auto

lemma owner_alone:
  assumes "owners ts \<le> 1" "i < length ts" "j < length ts" "owner (ts ! i)" "owner (ts ! j)"
  shows "i = j"
proof (rule ccontr)
  assume "i \<noteq> j"
  then have "owner (ts[i := PRest] ! j)" "j < length (ts[i := PRest])" using assms(3,5) by simp_all
  then have "owners (ts[i := PRest]) \<noteq> 0" unfolding owners_def length_0_conv filter_empty_conv using nth_mem by blast
  moreover have "owners (ts[i := PRest]) + 1 = owners ts"
    using filter_length_update [OF assms(2), of owner PRest] assms(4) by (simp add: owners_def)
  ultimately show False using assms(1) by simp
qed

lemma observed_not_owner: "\<not> owner pc \<Longrightarrow> observed p pc"
  by (cases pc) auto

lemma observed_step:
  assumes "i < length ts" "pump_act p (ts ! i) q pc" "owners_ok (p, ts)" "observed_ok (p, ts)" "epochs_ok p"
  shows "epochs_ok q \<and> observed_ok (q, ts[i := pc])"
proof -
  have "owner (ts ! i) \<longrightarrow> pm_state p \<noteq> PumpIdle"
    using owner_excludes [OF assms(3), of "ts ! i"] assms(1) by auto
  then have here: "epochs_ok q \<and> observed q pc"
    using act_epochs [OF assms(2,5)] assms(1,4) by (auto simp: observed_ok_def)
  have "observed q (ts ! j)" if j: "j < length ts" "j \<noteq> i" for j
  proof (cases "owner (ts ! i)")
    case True
    then have "\<not> owner (ts ! j)" using owner_alone [of ts i j] assms(1,3) j by (auto simp: owners_ok_def)
    then show ?thesis by (rule observed_not_owner)
  next
    case False
    then show ?thesis using act_observed [OF assms(2)] assms(4) j by (auto simp: observed_ok_def)
  qed
  then show ?thesis using here assms(1)
    by (auto simp: observed_ok_def set_conv_nth nth_list_update)
qed

text \<open>A scheduled pump is owed its run; an armed delay its timer.\<close>

lemma act_scheduled:
  assumes "pump_act p pc q pc'" "pm_state q = PumpScheduled"
  shows "will_run pc' \<or> pm_tasks q > 0 \<or> pm_state p = PumpScheduled \<and> \<not> will_run pc \<and> pm_tasks q = pm_tasks p" (is ?run)
  using assms(1)
proof (rule pump_actE)
  show ?run if "call_act p pc q pc'"
    using that assms(2) by (induction rule: call_act.induct) (auto simp: pump_simps split: if_splits)
  show ?run if "run_act p pc q pc'"
    using that assms(2) by (induction rule: run_act.induct) (auto simp: pump_simps)
qed

lemma scheduled_step:
  assumes "i < length ts" "pump_act p (ts ! i) q pc" "scheduled_ok (p, ts)"
  shows "scheduled_ok (q, ts[i := pc])"
proof (cases "pm_state q = PumpScheduled")
  case True
  consider "will_run pc \<or> pm_tasks q > 0"
    | "pm_state p = PumpScheduled" "\<not> will_run (ts ! i)" "pm_tasks q = pm_tasks p"
    using act_scheduled [OF assms(2) True] by argo
  then show ?thesis
  proof cases
    case 1
    then show ?thesis using set_update_new [OF assms(1), of pc] by (auto simp: scheduled_ok_def)
  next
    case 2
    then have "pm_tasks q > 0 \<or> (\<exists>pc \<in> set ts. will_run pc)" using assms(3) by (simp add: scheduled_ok_def)
    then show ?thesis
    proof
      assume "\<exists>other \<in> set ts. will_run other"
      then obtain other where "other \<in> set ts" "will_run other" by blast
      then have "other \<in> set (ts[i := pc])" using 2(2) by (intro set_update_keep) auto
      then show ?thesis using \<open>will_run other\<close> by (auto simp: scheduled_ok_def)
    qed (simp add: scheduled_ok_def)
  qed
qed (simp add: scheduled_ok_def)

lemma act_delayed:
  assumes "pump_act p pc q pc'" "pm_state q \<noteq> PumpStopping" "pm_delayedDue q \<noteq> None"
  shows "arms (pm_delayedGeneration q) pc' \<or> pm_delayedGeneration q \<in> set (pm_timers q) \<or>
     pm_state p \<noteq> PumpStopping \<and> pm_delayedDue p \<noteq> None \<and> pm_delayedGeneration q = pm_delayedGeneration p \<and>
       \<not> arms (pm_delayedGeneration p) pc \<and> pm_delayedGeneration p \<notin> set (pm_timers p)" (is ?timer)
  using assms(1)
proof (rule pump_actE)
  show ?timer if "call_act p pc q pc'"
    using that assms(2,3) by (induction rule: call_act.induct) (auto simp: pump_simps split: if_splits)
  show ?timer if "run_act p pc q pc'"
    using that assms(2,3) by (induction rule: run_act.induct) (auto simp: pump_simps in_set_remove1)
qed

lemma delayed_step:
  assumes "i < length ts" "pump_act p (ts ! i) q pc" "delayed_ok (p, ts)"
  shows "delayed_ok (q, ts[i := pc])"
proof (cases "pm_state q \<noteq> PumpStopping \<and> pm_delayedDue q \<noteq> None")
  case True
  let ?g = "pm_delayedGeneration q"
  consider "arms ?g pc \<or> ?g \<in> set (pm_timers q)"
    | other where "other \<in> set ts" "arms ?g other" "\<not> arms ?g (ts ! i)"
    using act_delayed [OF assms(2)] True assms(3) by (auto simp: delayed_ok_def)
  then show ?thesis
  proof cases
    case 1
    then show ?thesis using set_update_new [OF assms(1), of pc] by (auto simp: delayed_ok_def)
  next
    case (2 other)
    then have "other \<in> set (ts[i := pc])" by (intro set_update_keep) auto
    then show ?thesis using 2(2) by (auto simp: delayed_ok_def)
  qed
qed (auto simp: delayed_ok_def)

definition pump_ok :: "pump_sys \<Rightarrow> bool" where
  "pump_ok s \<longleftrightarrow> owners_ok s \<and> epochs_ok (fst s) \<and> observed_ok s \<and> scheduled_ok s \<and> delayed_ok s"

lemma pump_ok_step: "pump_step s t \<Longrightarrow> pump_ok s \<Longrightarrow> pump_ok t"
proof (induction rule: pump_step.induct)
  case (thread i ts p q pc)
  then have "observed p (ts ! i)" by (auto simp: pump_ok_def observed_ok_def)
  with thread show ?case
    using owners_step observed_step scheduled_step delayed_step by (simp add: pump_ok_def)
qed

definition started :: "bool \<Rightarrow> bool \<Rightarrow> bool \<Rightarrow> bool \<Rightarrow> u64 \<Rightarrow> nat \<Rightarrow> pump_sys" where
  "started submit drain delayed resubmit generation n =
     (configure submit drain delayed resubmit generation, replicate n PRest)"

lemma started_ok: "pump_ok (started a b c d g n)"
  by (simp add: pump_ok_def started_def owners_ok_def owners_def epochs_ok_def observed_ok_def scheduled_ok_def
      delayed_ok_def configure_def)

lemma pump_run_ok: "pump_run (started a b c d g n) s \<Longrightarrow> pump_ok s"
  by (induction rule: rtranclp_induct) (auto intro: started_ok pump_ok_step)

text \<open>
  Claim C26. In every interleaving of any number of threads: at most one of them holds the consumer
  role, and one does while the word says Running; whenever the pump is Idle, a drain that began
  after the last requested epoch has finished (of fewer than \<open>2\<^sup>6\<^sup>2\<close>, after which the word's
  epochs repeat); whenever it is Scheduled, an accepted task waits or a thread is on its way to
  submit, run or fail it; and an armed delay that Stop did not revoke has its timer.
\<close>

theorem pump_loses_nothing:
  assumes "pump_run (started submit drain delayed resubmit generation n) (p, ts)"
  shows "owners ts \<le> 1 \<and> (pm_state p = PumpRunning \<longrightarrow> owners ts = 1) \<and>
     (is_idle p \<and> pm_asked p < epoch_range \<longrightarrow> pm_done p = pm_asked p) \<and>
     (pm_state p = PumpScheduled \<longrightarrow> pm_tasks p > 0 \<or> (\<exists>pc \<in> set ts. will_run pc)) \<and>
     (pm_state p \<noteq> PumpStopping \<and> pm_delayedDue p \<noteq> None \<longrightarrow>
        pm_delayedGeneration p \<in> set (pm_timers p) \<or> (\<exists>pc \<in> set ts. arms (pm_delayedGeneration p) pc))"
  using pump_run_ok [OF assms]
  by (simp add: pump_ok_def owners_ok_def epochs_ok_def scheduled_ok_def delayed_ok_def is_idle_def)

text \<open>One thread notifies, runs its own task and drains: the pump is idle again, all seen.\<close>

lemma one_thread: "pump_act p pc q pc' \<Longrightarrow> pump_run (q, [pc']) s \<Longrightarrow> pump_run (p, [pc]) s"
  using thread [of 0 "[pc]" p q pc'] by (auto intro: converse_rtranclp_into_rtranclp)

lemma called: "call_act p pc q pc' \<Longrightarrow> pump_act p pc q pc'"
  and ran: "run_act p pc q pc' \<Longrightarrow> pump_act p pc q pc'"
  by (simp_all add: pump_act_def)

lemma pump_loses_nothing_witness:
  "\<exists>p ts. pump_run (started True True True False 0 1) (p, ts) \<and> pm_asked p = 1 \<and> is_idle p \<and> pm_done p = 1"
proof -
  have "\<exists>p ts. pump_run (started True True True False 0 1) (p, ts) \<and> pm_asked p = 1 \<and> is_idle p"
    unfolding started_def One_nat_def replicate.simps
    apply (rule exI, rule exI, rule conjI)
     apply (rule one_thread, rule called, rule notify)
     apply (rule one_thread, rule called, rule notify_load)
     apply (rule one_thread, rule called, rule notify_swap, simp add: configure_def closed_def, rule HOL.refl)
     apply (simp add: configure_def)
     apply (rule one_thread, rule called, rule submit)
     apply (rule one_thread, rule called, rule answer)
     apply (rule one_thread, rule ran, rule run, simp)
     apply (rule one_thread, rule ran, rule run_load)
     apply (rule one_thread, rule ran, rule run_swap, simp add: request_epoch_def taken_def Let_def, rule HOL.refl)
     apply (rule one_thread, rule ran, rule owner_load, simp)
     apply (rule one_thread, rule ran, rule drain_returns)
     apply (rule one_thread, rule ran, rule reload)
     apply (rule one_thread, rule ran, rule to_idle, simp, simp, rule HOL.refl)
     apply (rule rtranclp.rtrancl_refl)
    apply (simp add: is_idle_def request_epoch_def Let_def)
    done
  then obtain p ts where run: "pump_run (started True True True False 0 1) (p, ts)" and p: "pm_asked p = 1" "is_idle p" by blast
  have "pm_done p = 1" using pump_loses_nothing [OF run] p by (simp add: epoch_range_def)
  with run p show ?thesis by blast
qed

end
