(* ===== verification/ShaderFiles.thy ===== *)
theory ShaderFiles
  imports Prelude "HOL-Library.Sublist"
begin

text \<open>
  How the pipeline registry compares shader file names (\<^verbatim>\<open>src/PipelineRegistry.cpp\<close>,
  \<open>NormalizeShaderPath\<close> and \<open>SameShaderFile\<close>), with the relation on path components it
  comes down to.
\<close>

section \<open>The code\<close>

definition lower_char :: "char \<Rightarrow> char" where
  "lower_char c = (if 65 \<le> (of_char c :: nat) \<and> (of_char c :: nat) \<le> 90 then char_of ((of_char c :: nat) + 32) else c)"

definition slash_lower :: "char \<Rightarrow> char" where
  "slash_lower c = (if c = CHR 0x5C then CHR ''/'' else lower_char c)"

text \<open>\<open>std::string::rfind\<close>.\<close>

fun rfind :: "string \<Rightarrow> string \<Rightarrow> nat option" where
  "rfind pat [] = (if pat = [] then Some 0 else None)"
| "rfind pat (c # cs) = (case rfind pat cs of Some i \<Rightarrow> Some (i + 1)
     | None \<Rightarrow> if prefix pat (c # cs) then Some 0 else None)"

definition shader_dir :: string where
  "shader_dir = ''data/shaders/''"

definition here :: string where
  "here = ''./''"

lemma here_shorter [termination_simp]: "prefix here s \<Longrightarrow> length s - 2 < length s"
  by (drule prefix_length_le) (simp add: here_def)

function strip_here :: "string \<Rightarrow> string" where
  "strip_here s = (if prefix here s then strip_here (drop 2 s) else s)"
  by auto

termination by (relation "measure length") (simp_all add: here_shorter)

declare strip_here.simps [simp del]

definition normalize_shader_path :: "string \<Rightarrow> string" where
  "normalize_shader_path path =
     (let out = map slash_lower path;
          out1 = (case rfind shader_dir out of None \<Rightarrow> out | Some i \<Rightarrow> drop (i + length shader_dir) out)
      in strip_here out1)"

definition same_shader_file :: "string \<Rightarrow> string \<Rightarrow> bool" where
  "same_shader_file changed source =
     (if source = [] then False
      else if changed = source then True
      else length changed > length source \<and> suffix source changed \<and>
        changed ! (length changed - length source - 1) = CHR ''/'')"

section \<open>Names and components\<close>

text \<open>The reference: a path is its components.\<close>

fun components :: "string \<Rightarrow> string list" where
  "components [] = [[]]"
| "components (c # cs) = (if c = CHR ''/'' then [] # components cs
     else (c # hd (components cs)) # tl (components cs))"

lemma components_ne [simp]: "components s \<noteq> []"
  by (cases s rule: components.cases) auto

lemma components_join: "components (xs @ CHR ''/'' # ys) = components xs @ components ys"
  by (induction xs) auto

fun join :: "string list \<Rightarrow> string" where
  "join [] = []"
| "join [x] = x"
| "join (x # xs) = x @ CHR ''/'' # join xs"

lemma join_Cons: "xs \<noteq> [] \<Longrightarrow> join (x # xs) = x @ CHR ''/'' # join xs"
  by (cases xs) auto

lemma join_components [simp]: "join (components s) = s"
proof (induction s)
  case (Cons c cs)
  obtain x xs where x: "components cs = x # xs" by (cases "components cs") auto
  show ?case using Cons x by (cases xs) auto
qed simp

lemma join_append: "xs \<noteq> [] \<Longrightarrow> ys \<noteq> [] \<Longrightarrow> join (xs @ ys) = join xs @ CHR ''/'' # join ys"
  by (induction xs rule: join.induct) (auto simp: join_Cons)

lemma same_file_suffix: "same_shader_file changed source \<longleftrightarrow> source \<noteq> [] \<and> suffix (components source) (components changed)"
proof (cases "source = [] \<or> changed = source")
  case False
  have "same_shader_file changed source \<longleftrightarrow> (\<exists>xs. changed = xs @ CHR ''/'' # source)"
  proof
    assume same: "same_shader_file changed source"
    then obtain zs where zs: "changed = zs @ source" using False by (auto simp: same_shader_file_def suffix_def)
    then have "zs \<noteq> []" "zs ! (length zs - 1) = CHR ''/''"
      using same False by (auto simp: same_shader_file_def nth_append split: if_splits)
    then have "zs = butlast zs @ [CHR ''/'']" by (metis append_butlast_last_id last_conv_nth)
    then show "\<exists>xs. changed = xs @ CHR ''/'' # source" using zs by (metis append.assoc append_Cons append_Nil)
  next
    assume "\<exists>xs. changed = xs @ CHR ''/'' # source"
    then obtain xs where "changed = xs @ CHR ''/'' # source" ..
    then show "same_shader_file changed source" using False by (auto simp: same_shader_file_def suffix_def)
  qed
  also have "\<dots> \<longleftrightarrow> suffix (components source) (components changed)"
  proof
    assume "suffix (components source) (components changed)"
    then obtain xs where xs: "components changed = xs @ components source" by (auto simp: suffix_def)
    then have "xs \<noteq> []" using False join_components by (metis append_Nil)
    then have "changed = join xs @ CHR ''/'' # source"
      using join_append [of xs "components source"] xs join_components by (metis components_ne)
    then show "\<exists>xs. changed = xs @ CHR ''/'' # source" ..
  qed (auto simp: components_join suffix_def)
  finally show ?thesis using False by simp
qed (auto simp: same_shader_file_def)

section \<open>Normal names\<close>

lemma lower_char_range: "65 \<le> (of_char c :: nat) \<Longrightarrow> (of_char c :: nat) \<le> 90 \<Longrightarrow> (of_char (lower_char c) :: nat) = of_char c + 32"
  by (simp add: lower_char_def take_bit_nat_eq_self)

lemma slash_lower_idem [simp]: "slash_lower (slash_lower c) = slash_lower c"
proof (cases "65 \<le> (of_char c :: nat) \<and> (of_char c :: nat) \<le> 90")
  case True
  then have range: "(of_char (lower_char c) :: nat) = of_char c + 32" using lower_char_range by blast
  then have "lower_char c \<noteq> CHR 0x5C" using True by auto
  moreover have "lower_char (lower_char c) = lower_char c" using range True by (simp add: lower_char_def [of "lower_char c"])
  moreover have "c \<noteq> CHR 0x5C" using True by auto
  ultimately show ?thesis by (simp add: slash_lower_def)
next
  case False
  then show ?thesis by (auto simp: slash_lower_def lower_char_def)
qed

lemma rfind_NoneD: "pat \<noteq> [] \<Longrightarrow> rfind pat s = None \<longleftrightarrow> \<not> sublist pat s"
  by (induction s) (auto simp: sublist_Cons_right split: option.splits)

lemma rfind_SomeD: "pat \<noteq> [] \<Longrightarrow> rfind pat s = Some i \<Longrightarrow> prefix pat (drop i s) \<and> rfind pat (drop (i + 1) s) = None"
  by (induction s arbitrary: i) (auto split: option.splits if_splits)

lemma rfind_rest: "pat \<noteq> [] \<Longrightarrow> rfind pat s = Some i \<Longrightarrow> \<not> sublist pat (drop (i + length pat) s)"
proof
  assume pat: "pat \<noteq> []" "rfind pat s = Some i" and sub: "sublist pat (drop (i + length pat) s)"
  obtain k where k: "length pat = Suc k" using pat(1) by (cases pat) auto
  have "suffix (drop (i + length pat) s) (drop (i + 1) s)"
    using suffix_drop [of k "drop (i + 1) s"] by (simp add: k add.commute)
  then have "sublist pat (drop (i + 1) s)"
    using sub sublist_order.order_trans suffix_imp_sublist by blast
  then show False using rfind_SomeD [OF pat] rfind_NoneD [OF pat(1)] by blast
qed

lemma strip_here_suffix: "suffix (strip_here s) s"
proof (induction s rule: strip_here.induct)
  case (1 s)
  show ?case
  proof (cases "prefix here s")
    case True
    then show ?thesis using 1 suffix_drop suffix_order.order_trans strip_here.simps [of s] by metis
  qed (simp add: strip_here.simps)
qed

lemma strip_here_done: "\<not> prefix here (strip_here s)"
proof (induction s rule: strip_here.induct)
  case (1 s)
  then show ?case by (cases "prefix here s") (simp_all add: strip_here.simps [of s])
qed

lemma shader_dir_ne [simp]: "shader_dir \<noteq> []"
  by (simp add: shader_dir_def)

lemma normalize_shape:
  "\<exists>t. normalize_shader_path p = strip_here t \<and> suffix t (map slash_lower p) \<and> \<not> sublist shader_dir t"
proof (cases "rfind shader_dir (map slash_lower p)")
  case None
  then have "\<not> sublist shader_dir (map slash_lower p)" by (simp add: rfind_NoneD)
  with None show ?thesis by (auto simp: normalize_shader_path_def)
next
  case (Some i)
  then show ?thesis using rfind_rest [OF shader_dir_ne Some] suffix_drop
    by (auto simp: normalize_shader_path_def Let_def)
qed

lemma suffix_mapped: "suffix t (map slash_lower p) \<Longrightarrow> map slash_lower t = t"
  by (auto simp: suffix_def map_eq_append_conv)

lemma normal_fixed: "map slash_lower t = t \<Longrightarrow> \<not> sublist shader_dir t \<Longrightarrow> \<not> prefix here t \<Longrightarrow> normalize_shader_path t = t"
  by (simp add: normalize_shader_path_def rfind_NoneD [symmetric] strip_here.simps)

lemma normalize_idem: "normalize_shader_path (normalize_shader_path p) = normalize_shader_path p"
proof -
  obtain t where t: "normalize_shader_path p = strip_here t" "suffix t (map slash_lower p)" "\<not> sublist shader_dir t"
    using normalize_shape by blast
  have "suffix (strip_here t) (map slash_lower p)" using strip_here_suffix t(2) suffix_order.order_trans by blast
  moreover have "\<not> sublist shader_dir (strip_here t)"
    using t(3) strip_here_suffix suffix_imp_sublist sublist_order.order_trans by blast
  ultimately show ?thesis unfolding t(1) using normal_fixed suffix_mapped strip_here_done by blast
qed

text \<open>The directory part goes, whatever its case, its slashes and what is before it.\<close>

lemma dir_no_overlap: "0 < k \<Longrightarrow> k < length shader_dir \<Longrightarrow> \<not> prefix shader_dir (drop k shader_dir @ ys)"
proof -
  assume k: "0 < k" "k < length shader_dir"
  then have "k < 13" by (simp add: shader_dir_def)
  with k(1) have "k \<in> {1,2,3,4,5,6,7,8,9,10,11,12}" unfolding insert_iff empty_iff by presburger
  then show ?thesis by (elim insertE emptyE) (simp_all add: shader_dir_def)
qed

lemma rfind_append: "rfind pat (xs @ s) = (case rfind pat s of Some i \<Rightarrow> Some (length xs + i) | None \<Rightarrow>
    (case rfind pat (xs @ s) of Some i \<Rightarrow> Some i | None \<Rightarrow> None))"
  by (induction xs) (auto split: option.splits)

lemma rfind_in_dir:
  assumes "\<not> sublist shader_dir q" "n \<le> length shader_dir"
  shows "n < length shader_dir \<Longrightarrow> rfind shader_dir (drop (Suc n) shader_dir @ q) = None"
proof (induction "length shader_dir - n" arbitrary: n)
  case (Suc d)
  show ?case
  proof (cases "Suc n = length shader_dir")
    case True
    then show ?thesis using assms(1) by (simp add: rfind_NoneD)
  next
    case False
    with Suc(3) have n: "Suc n < length shader_dir" by simp
    then have "rfind shader_dir (drop (Suc (Suc n)) shader_dir @ q) = None" using Suc by simp
    moreover have "drop (Suc n) shader_dir = shader_dir ! Suc n # drop (Suc (Suc n)) shader_dir"
      using n by (simp add: Cons_nth_drop_Suc)
    ultimately show ?thesis using dir_no_overlap [of "Suc n" q] n by simp
  qed
qed simp

lemma normalize_below_dir:
  assumes "map slash_lower dir = shader_dir"
  shows "normalize_shader_path (root @ dir @ q) = normalize_shader_path q"
proof -
  let ?q = "map slash_lower q"
  have out: "map slash_lower (root @ dir @ q) = map slash_lower root @ shader_dir @ ?q" using assms by simp
  show ?thesis
  proof (cases "rfind shader_dir ?q")
    case (Some i)
    then have "rfind shader_dir (map slash_lower root @ shader_dir @ ?q) = Some (length root + length shader_dir + i)"
      using rfind_append [of shader_dir "map slash_lower root @ shader_dir" ?q] by simp
    then show ?thesis using Some unfolding normalize_shader_path_def out by (simp add: Let_def)
  next
    case None
    have none: "rfind shader_dir (drop (Suc 0) shader_dir @ ?q) = None"
      using rfind_in_dir [of ?q 0] None by (simp add: rfind_NoneD shader_dir_def)
    have "rfind shader_dir (shader_dir @ ?q) = Some 0"
    proof -
      have "shader_dir = hd shader_dir # drop (Suc 0) shader_dir" by (simp add: shader_dir_def)
      then have "rfind shader_dir (shader_dir @ ?q) = rfind shader_dir (hd shader_dir # (drop (Suc 0) shader_dir @ ?q))"
        by (metis append_Cons)
      also have "\<dots> = Some 0" using none by (simp add: shader_dir_def)
      finally show ?thesis .
    qed
    then have "rfind shader_dir (map slash_lower root @ shader_dir @ ?q) = Some (length root)"
      using rfind_append [of shader_dir "map slash_lower root" "shader_dir @ ?q"] by simp
    then show ?thesis using None unfolding normalize_shader_path_def out by (simp add: Let_def)
  qed
qed

text \<open>
  Claim C27. A changed file matches a source exactly when the components of the source are the last
  components of the file; a name's normal form is its own; and a path below a shader directory
  (either slash, any case, whatever is before it) has the normal form of the path below it.
\<close>

theorem shader_file_matching:
  "(same_shader_file changed source \<longleftrightarrow> source \<noteq> [] \<and> suffix (components source) (components changed)) \<and>
   normalize_shader_path (normalize_shader_path p) = normalize_shader_path p \<and>
   (map slash_lower dir = shader_dir \<longrightarrow> normalize_shader_path (root @ dir @ p) = normalize_shader_path p)"
  using same_file_suffix normalize_idem normalize_below_dir by blast

lemma shader_file_matching_witness:
  "normalize_shader_path (''C:/Mod/'' @ ''Data/Shaders/'' @ ''./Sky.HLSL'') = normalize_shader_path ''./Sky.HLSL''"
proof -
  have "map slash_lower ''Data/Shaders/'' = shader_dir" by code_simp
  then show ?thesis
    using shader_file_matching [of "[]" "[]" "''./Sky.HLSL''" "''Data/Shaders/''" "''C:/Mod/''"] by blast
qed

end
