(* ===== verification/Registry.thy ===== *)
theory Registry
  imports ShaderFiles
begin

text \<open>
  \<^verbatim>\<open>PipelineRegistry.h\<close> and \<^verbatim>\<open>PipelineRegistry.cpp\<close>: the live pipelines of the
  modules, reloaded from their changed shader files. A payload is a number; a slot or an entry is
  an address; a slot's strong references outside the registry are one flag. Each locked section,
  and each completion of a rebuild, is one operation; a registration, a request, a completion and a
  retirement may come from any thread between the owner's operations. The count of
  results a reload waits for is a 32-bit word; the counts of an outcome are numbers.
\<close>

section \<open>State\<close>

record live_slot =
  ls_payload :: "nat option"
  ls_held :: bool

record live_build =
  lb_payload :: "nat option"
  lb_fingerprint :: u64
  lb_error :: string

record rebuild_request =
  rr_fingerprint :: u64
  rr_force :: bool

text \<open>The rebuild function is only called: here it is there or it is not.\<close>

record live_desc =
  ld_id :: string
  ld_sources :: "string list"
  ld_rebuild :: bool

record live_entry =
  en_slot :: nat
  en_desc :: live_desc
  en_fingerprint :: u64
  en_stale :: bool
  en_inBatch :: bool

record reload_batch =
  ba_entries :: "nat list"
  ba_requests :: "rebuild_request list"
  ba_results :: "live_build option list"
  ba_remaining :: u32

record staged =
  sg_slot :: nat
  sg_entry :: nat
  sg_payload :: nat
  sg_fingerprint :: u64

record reload_request =
  rq_asked :: bool
  rq_all :: bool
  rq_force :: bool
  rq_files :: "string list"

record reload_outcome =
  oc_serial :: u64
  oc_entries :: nat
  oc_rebuilt :: nat
  oc_failed :: nat
  oc_unchanged :: nat
  oc_errors :: "string list"

text \<open>
  \<open>rg_told\<close> counts the calls of each listener; \<open>rg_freed\<close> lists, for the statements, what
  was given up for good: the payload, its retirement point, the completed point (none: drained).
\<close>

record registry =
  rg_entries :: "nat list"
  rg_entry :: "nat \<Rightarrow> live_entry"
  rg_slot :: "nat \<Rightarrow> live_slot"
  rg_next :: nat
  rg_pruneAt :: nat
  rg_request :: reload_request
  rg_asked :: bool
  rg_running :: "reload_batch option"
  rg_staged :: "staged list"
  rg_listeners :: nat
  rg_told :: nat
  rg_outcome :: reload_outcome
  rg_generation :: u64
  rg_sourcesGeneration :: u64
  rg_retired :: "(u64 \<times> nat option) list"
  rg_freed :: "(u64 \<times> nat option \<times> u64 option) list"

definition no_request :: reload_request where
  "no_request = \<lparr>rq_asked = False, rq_all = False, rq_force = False, rq_files = []\<rparr>"

definition no_outcome :: reload_outcome where
  "no_outcome = \<lparr>oc_serial = 0, oc_entries = 0, oc_rebuilt = 0, oc_failed = 0, oc_unchanged = 0, oc_errors = []\<rparr>"

definition new_registry :: registry where
  "new_registry = \<lparr>rg_entries = [],
     rg_entry = (\<lambda>_. \<lparr>en_slot = 0, en_desc = \<lparr>ld_id = [], ld_sources = [], ld_rebuild = False\<rparr>, en_fingerprint = 0,
       en_stale = False, en_inBatch = False\<rparr>),
     rg_slot = (\<lambda>_. \<lparr>ls_payload = None, ls_held = False\<rparr>), rg_next = 0, rg_pruneAt = 64, rg_request = no_request,
     rg_asked = False, rg_running = None, rg_staged = [], rg_listeners = 0, rg_told = 0, rg_outcome = no_outcome,
     rg_generation = 0, rg_sourcesGeneration = 0, rg_retired = [], rg_freed = []\<rparr>"

definition live :: "registry \<Rightarrow> nat \<Rightarrow> bool" where
  "live reg e \<longleftrightarrow> ls_held (rg_slot reg (en_slot (rg_entry reg e)))"

definition upd_entry :: "nat \<Rightarrow> (live_entry \<Rightarrow> live_entry) \<Rightarrow> registry \<Rightarrow> registry" where
  "upd_entry e f reg = reg\<lparr>rg_entry := (rg_entry reg)(e := f (rg_entry reg e))\<rparr>"

section \<open>Registration and requests\<close>

definition prune :: "registry \<Rightarrow> registry" where
  "prune reg =
     (let kept = filter (\<lambda>e. live reg e \<or> en_inBatch (rg_entry reg e)) (rg_entries reg) in
      reg\<lparr>rg_entries := kept, rg_pruneAt := max 64 (length kept * 2)\<rparr>)"

text \<open>The slot and the entry are made at \<open>rg_next\<close>; the caller holds the slot.\<close>

definition register_pipeline :: "live_desc \<Rightarrow> nat option \<Rightarrow> u64 \<Rightarrow> u64 \<Rightarrow> registry \<Rightarrow> registry \<times> nat" where
  "register_pipeline desc payload fingerprint builtFor reg =
     (let n = rg_next reg;
          stale = (builtFor < rg_sourcesGeneration reg);
          entry = \<lparr>en_slot = n, en_desc = desc\<lparr>ld_sources := map normalize_shader_path (ld_sources desc)\<rparr>,
            en_fingerprint = fingerprint, en_stale = stale, en_inBatch = False\<rparr>;
          reg1 = reg\<lparr>rg_next := n + 1, rg_slot := (rg_slot reg)(n := \<lparr>ls_payload = payload, ls_held = True\<rparr>)\<rparr>;
          reg2 = (if length (rg_entries reg1) \<ge> rg_pruneAt reg1 then prune reg1 else reg1)
      in (reg2\<lparr>rg_entry := (rg_entry reg2)(n := entry), rg_entries := rg_entries reg2 @ [n],
            rg_asked := rg_asked reg2 \<or> stale\<rparr>, n))"

definition request_reload :: "string \<Rightarrow> bool \<Rightarrow> registry \<Rightarrow> registry" where
  "request_reload changedFile force reg =
     (let rq = (rg_request reg)\<lparr>rq_asked := True, rq_force := rq_force (rg_request reg) \<or> force\<rparr>;
          rq1 = (if changedFile = [] then rq\<lparr>rq_all := True\<rparr>
                 else if \<not> rq_all rq
                 then (let file = normalize_shader_path changedFile in
                       if file \<in> set (rq_files rq) then rq else rq\<lparr>rq_files := rq_files rq @ [file]\<rparr>)
                 else rq)
      in reg\<lparr>rg_request := rq1, rg_asked := True\<rparr>)"

definition add_listener :: "bool \<Rightarrow> registry \<Rightarrow> registry" where
  "add_listener listener reg = (if listener then reg\<lparr>rg_listeners := rg_listeners reg + 1\<rparr> else reg)"

definition notify_listeners :: "registry \<Rightarrow> registry" where
  "notify_listeners reg = reg\<lparr>rg_told := rg_told reg + 1\<rparr>"

section \<open>A reload\<close>

text \<open>\<open>Batch::Complete\<close>: the first call of an index counts.\<close>

definition complete_result :: "nat \<Rightarrow> live_build \<Rightarrow> reload_batch \<Rightarrow> reload_batch" where
  "complete_result i b ba =
     (if i < length (ba_results ba) \<and> ba_results ba ! i = None
      then ba\<lparr>ba_results := (ba_results ba)[i := Some b], ba_remaining := ba_remaining ba - 1\<rparr>
      else ba)"

definition failed_build :: "string \<Rightarrow> live_build" where
  "failed_build msg = \<lparr>lb_payload = None, lb_fingerprint = 0, lb_error = msg\<rparr>"

text \<open>What calling a rebuild does before it returns: it throws, answers at once, or answers later.\<close>

datatype rebuild_call =
    RebuildThrew "string option"
  | Answered live_build
  | AnswersLater

definition run_rebuild :: "nat \<Rightarrow> rebuild_call \<Rightarrow> registry \<Rightarrow> reload_batch \<Rightarrow> reload_batch" where
  "run_rebuild i call reg ba =
     (if \<not> ld_rebuild (en_desc (rg_entry reg (ba_entries ba ! i)))
      then complete_result i (failed_build ''no rebuild function'') ba
      else case call of
        RebuildThrew (Some what) \<Rightarrow> complete_result i (failed_build what) ba
      | RebuildThrew None \<Rightarrow> complete_result i (failed_build ''the rebuild threw'') ba
      | Answered b \<Rightarrow> complete_result i b ba
      | AnswersLater \<Rightarrow> ba)"

text \<open>The submitted task: a list says what the calls do, in turn (as far as it has come).\<close>

fun run_task :: "nat \<Rightarrow> rebuild_call list \<Rightarrow> registry \<Rightarrow> reload_batch \<Rightarrow> reload_batch" where
  "run_task i [] reg ba = ba"
| "run_task i (c # cs) reg ba = (if i < length (ba_entries ba) then run_task (i + 1) cs reg (run_rebuild i c reg ba) else ba)"

fun refuse_all :: "nat \<Rightarrow> reload_batch \<Rightarrow> reload_batch" where
  "refuse_all 0 ba = ba"
| "refuse_all (Suc n) ba = complete_result n (failed_build ''the registry's submitter refused the reload'') (refuse_all n ba)"

definition names_file :: "registry \<Rightarrow> string \<Rightarrow> nat \<Rightarrow> bool" where
  "names_file reg file e \<longleftrightarrow> list_ex (\<lambda>source. same_shader_file file source) (ld_sources (en_desc (rg_entry reg e)))"

text \<open>An undeclared file asks for every entry.\<close>

definition asks_all :: "reload_request \<Rightarrow> registry \<Rightarrow> bool" where
  "asks_all rq reg \<longleftrightarrow> rq_all rq \<or> list_ex (\<lambda>file. \<not> list_ex (names_file reg file) (rg_entries reg)) (rq_files rq)"

definition picked :: "reload_request \<Rightarrow> registry \<Rightarrow> nat \<Rightarrow> bool" where
  "picked rq reg e \<longleftrightarrow> rq_asked rq \<and> (asks_all rq reg \<or> list_ex (\<lambda>file. names_file reg file e) (rq_files rq))"

definition in_reload :: "reload_request \<Rightarrow> registry \<Rightarrow> nat \<Rightarrow> bool" where
  "in_reload rq reg e \<longleftrightarrow> \<not> (en_inBatch (rg_entry reg e) \<or> \<not> live reg e) \<and> (picked rq reg e \<or> en_stale (rg_entry reg e))"

text \<open>\<open>StartBatch\<close> up to the submission: the locked section, the batch, the listeners told.\<close>

definition open_batch :: "registry \<Rightarrow> registry" where
  "open_batch reg =
     (let rq = rg_request reg;
          reg1 = prune (reg\<lparr>rg_request := no_request, rg_asked := False\<rparr>);
          es = filter (in_reload rq reg1) (rg_entries reg1);
          reg2 = reg1\<lparr>rg_entry := (\<lambda>e. if e \<in> set es then (rg_entry reg1 e)\<lparr>en_stale := False, en_inBatch := True\<rparr> else rg_entry reg1 e),
            rg_sourcesGeneration := (if rq_asked rq then rg_sourcesGeneration reg1 + 1 else rg_sourcesGeneration reg1),
            rg_running := Some \<lparr>ba_entries = es,
              ba_requests = map (\<lambda>e. \<lparr>rr_fingerprint = en_fingerprint (rg_entry reg1 e), rr_force = (picked rq reg1 e \<and> rq_force rq)\<rparr>) es,
              ba_results = replicate (length es) None, ba_remaining = of_nat (length es)\<rparr>\<rparr>
      in if rq_asked rq then notify_listeners reg2 else reg2)"

definition upd_batch :: "(reload_batch \<Rightarrow> reload_batch) \<Rightarrow> registry \<Rightarrow> registry" where
  "upd_batch f reg = reg\<lparr>rg_running := map_option f (rg_running reg)\<rparr>"

text \<open>The submission: refused, or as much of the task as ran before the owner went on.\<close>

definition start_batch :: "rebuild_call list option \<Rightarrow> registry \<Rightarrow> registry" where
  "start_batch launch reg =
     (let reg1 = open_batch reg in
      upd_batch (\<lambda>ba. if ba_entries ba = [] then ba
                      else case launch of
                        None \<Rightarrow> refuse_all (length (ba_entries ba)) ba
                      | Some cs \<Rightarrow> run_task 0 cs reg1 ba) reg1)"

definition max_errors :: nat where
  "max_errors = 8"

definition finish_one :: "nat \<Rightarrow> live_build \<Rightarrow> registry \<times> reload_outcome \<Rightarrow> registry \<times> reload_outcome" where
  "finish_one e b st =
     (case st of (reg, oc) \<Rightarrow>
        let reg1 = upd_entry e (\<lambda>en. en\<lparr>en_inBatch := False\<rparr>) reg; en = rg_entry reg e in
        case lb_payload b of
          Some p \<Rightarrow> (reg1\<lparr>rg_staged := rg_staged reg1 @ [\<lparr>sg_slot = en_slot en, sg_entry = e, sg_payload = p, sg_fingerprint = lb_fingerprint b\<rparr>]\<rparr>,
             oc\<lparr>oc_rebuilt := oc_rebuilt oc + 1\<rparr>)
        | None \<Rightarrow>
            if lb_error b \<noteq> []
            then (reg1, oc\<lparr>oc_failed := oc_failed oc + 1,
                    oc_errors := (if length (oc_errors oc) < max_errors
                      then oc_errors oc @ [ld_id (en_desc en) @ '': '' @ lb_error b] else oc_errors oc)\<rparr>)
            else (reg1, oc\<lparr>oc_unchanged := oc_unchanged oc + 1\<rparr>))"

text \<open>A result not written is the empty build (only when the 32-bit count wrapped).\<close>

definition result_of :: "live_build option \<Rightarrow> live_build" where
  "result_of r = (case r of Some b \<Rightarrow> b | None \<Rightarrow> failed_build [])"

definition finish_batch :: "registry \<Rightarrow> registry" where
  "finish_batch reg =
     (case rg_running reg of
        None \<Rightarrow> reg
      | Some ba \<Rightarrow>
          (case fold (\<lambda>(e, r). finish_one e (result_of r)) (zip (ba_entries ba) (ba_results ba))
                  (reg\<lparr>rg_running := None\<rparr>,
                   no_outcome\<lparr>oc_entries := length (ba_entries ba), oc_serial := oc_serial (rg_outcome reg) + 1\<rparr>) of
             (reg1, oc) \<Rightarrow> reg1\<lparr>rg_outcome := oc\<rparr>))"

definition all_in :: "registry \<Rightarrow> bool" where
  "all_in reg = (case rg_running reg of None \<Rightarrow> False | Some ba \<Rightarrow> ba_remaining ba = 0)"

text \<open>The answer: a reload finished, payloads are staged.\<close>

definition service :: "rebuild_call list option \<Rightarrow> registry \<Rightarrow> registry \<times> bool \<times> bool" where
  "service launch reg =
     (let done1 = all_in reg;
          reg1 = (if done1 then finish_batch reg else reg);
          starts = (rg_running reg1 = None \<and> rg_asked reg1);
          reg2 = (if starts then start_batch launch reg1 else reg1);
          done2 = (starts \<and> all_in reg2);
          reg3 = (if done2 then finish_batch reg2 else reg2)
      in (reg3, done1 \<or> done2, rg_staged reg3 \<noteq> []))"

section \<open>Publication and retirement\<close>

text \<open>\<open>Exchange\<close> into a slot still held; the entry, when it still is, takes the fingerprint.\<close>

definition entry_kept :: "registry \<Rightarrow> nat \<Rightarrow> bool" where
  "entry_kept reg e \<longleftrightarrow> e \<in> set (rg_entries reg) \<or> (case rg_running reg of None \<Rightarrow> False | Some ba \<Rightarrow> e \<in> set (ba_entries ba))"

definition publish_one :: "u64 \<Rightarrow> staged \<Rightarrow> registry \<times> (u64 \<times> nat option) list \<Rightarrow> registry \<times> (u64 \<times> nat option) list" where
  "publish_one point item st =
     (case st of (reg, replaced) \<Rightarrow>
        let s = rg_slot reg (sg_slot item) in
        if \<not> ls_held s then (reg, replaced)
        else
          let reg1 = reg\<lparr>rg_slot := (rg_slot reg)(sg_slot item := s\<lparr>ls_payload := Some (sg_payload item)\<rparr>)\<rparr> in
          (if entry_kept reg1 (sg_entry item)
             then upd_entry (sg_entry item) (\<lambda>en. en\<lparr>en_fingerprint := sg_fingerprint item\<rparr>) reg1 else reg1,
           replaced @ [(point, ls_payload s)]))"

definition publish_staged :: "u64 \<Rightarrow> registry \<Rightarrow> registry \<times> nat" where
  "publish_staged point reg =
     (if rg_staged reg = [] then (reg, 0)
      else case fold (publish_one point) (rg_staged reg) (reg\<lparr>rg_staged := []\<rparr>, []) of
        (reg1, replaced) \<Rightarrow>
          let reg2 = reg1\<lparr>rg_retired := rg_retired reg1 @ replaced\<rparr> in
          (if replaced = [] then reg2 else notify_listeners (reg2\<lparr>rg_generation := rg_generation reg2 + 1\<rparr>), length replaced))"

definition retire_payloads :: "u64 \<Rightarrow> registry \<Rightarrow> registry" where
  "retire_payloads completed reg =
     (let out = takeWhile (\<lambda>r. fst r \<le> completed) (rg_retired reg) in
      reg\<lparr>rg_retired := dropWhile (\<lambda>r. fst r \<le> completed) (rg_retired reg),
        rg_freed := rg_freed reg @ map (\<lambda>(point, p). (point, p, Some completed)) out\<rparr>)"

definition drain_retired :: "registry \<Rightarrow> registry" where
  "drain_retired reg = reg\<lparr>rg_retired := [], rg_staged := [],
     rg_freed := rg_freed reg @ map (\<lambda>(point, p). (point, p, None)) (rg_retired reg)\<rparr>"

definition entry_count :: "registry \<Rightarrow> nat" where
  "entry_count reg = length (rg_entries reg)"

definition last_reload :: "registry \<Rightarrow> reload_outcome" where
  "last_reload reg = rg_outcome reg"

text \<open>The last holder of a slot lets it go.\<close>

definition drop_slot :: "nat \<Rightarrow> registry \<Rightarrow> registry" where
  "drop_slot s reg = reg\<lparr>rg_slot := (rg_slot reg)(s := (rg_slot reg s)\<lparr>ls_held := False\<rparr>)\<rparr>"

section \<open>Runs\<close>

text \<open>What happens to a registry, by its owner or another thread.\<close>

datatype registry_event =
    Register live_desc "nat option" u64 u64
  | RequestReload string bool
  | Service "rebuild_call list option"
  | Completes nat live_build
  | Publish u64
  | Retire u64
  | Drain
  | DropSlot nat
  | AddListener bool

fun registry_step :: "registry_event \<Rightarrow> registry \<Rightarrow> registry" where
  "registry_step (Register desc payload fingerprint builtFor) reg = fst (register_pipeline desc payload fingerprint builtFor reg)"
| "registry_step (RequestReload file force) reg = request_reload file force reg"
| "registry_step (Service launch) reg = fst (service launch reg)"
| "registry_step (Completes i b) reg = upd_batch (complete_result i b) reg"
| "registry_step (Publish point) reg = fst (publish_staged point reg)"
| "registry_step (Retire completed) reg = retire_payloads completed reg"
| "registry_step Drain reg = drain_retired reg"
| "registry_step (DropSlot s) reg = drop_slot s reg"
| "registry_step (AddListener l) reg = add_listener l reg"

definition registry_run :: "registry_event list \<Rightarrow> registry" where
  "registry_run evs = fold registry_step evs new_registry"

end
