(* ===== verification/RegistryProps.thy ===== *)
theory RegistryProps
  imports Registry
begin

text \<open>
  The pipeline registry over any run: which entries a reload takes, that none stays behind, that a
  reload ends when all its results are in and accounts for each, and that a replaced payload is
  kept until its retirement point.
\<close>

section \<open>The invariant\<close>

definition missing :: "reload_batch \<Rightarrow> nat" where
  "missing ba = length (filter (\<lambda>r. r = None) (ba_results ba))"

definition batch_ok :: "registry \<Rightarrow> bool" where
  "batch_ok reg \<longleftrightarrow> (case rg_running reg of
       None \<Rightarrow> \<forall>e \<in> set (rg_entries reg). \<not> en_inBatch (rg_entry reg e)
     | Some ba \<Rightarrow> length (ba_results ba) = length (ba_entries ba) \<and> length (ba_requests ba) = length (ba_entries ba) \<and>
         ba_remaining ba = of_nat (missing ba) \<and> set (ba_entries ba) \<subseteq> set (rg_entries reg) \<and>
         (\<forall>e \<in> set (rg_entries reg). en_inBatch (rg_entry reg e) \<longleftrightarrow> e \<in> set (ba_entries ba)))"

definition entries_ok :: "registry \<Rightarrow> bool" where
  "entries_ok reg \<longleftrightarrow> distinct (rg_entries reg) \<and> (\<forall>e \<in> set (rg_entries reg). e < rg_next reg \<and> en_slot (rg_entry reg e) = e \<and>
     (live reg e \<and> en_stale (rg_entry reg e) \<longrightarrow> rg_asked reg))"

definition accounts :: "reload_outcome \<Rightarrow> bool" where
  "accounts oc \<longleftrightarrow> oc_entries oc = oc_rebuilt oc + oc_failed oc + oc_unchanged oc \<and> length (oc_errors oc) = min (oc_failed oc) max_errors"

definition freed_late :: "registry \<Rightarrow> bool" where
  "freed_late reg \<longleftrightarrow> (\<forall>(point, p, c) \<in> set (rg_freed reg). \<forall>completed. c = Some completed \<longrightarrow> point \<le> completed)"

definition registry_ok :: "registry \<Rightarrow> bool" where
  "registry_ok reg \<longleftrightarrow> entries_ok reg \<and> batch_ok reg \<and> accounts (rg_outcome reg)"

lemma new_registry_ok: "registry_ok new_registry"
  by (simp add: registry_ok_def entries_ok_def batch_ok_def accounts_def new_registry_def no_outcome_def)

section \<open>Each operation\<close>

lemma prune_simps [simp]:
  "rg_entry (prune reg) = rg_entry reg" "rg_slot (prune reg) = rg_slot reg" "rg_running (prune reg) = rg_running reg"
  "rg_asked (prune reg) = rg_asked reg" "rg_next (prune reg) = rg_next reg" "rg_outcome (prune reg) = rg_outcome reg"
  "rg_entries (prune reg) = filter (\<lambda>e. live reg e \<or> en_inBatch (rg_entry reg e)) (rg_entries reg)"
  "rg_sourcesGeneration (prune reg) = rg_sourcesGeneration reg" "rg_request (prune reg) = rg_request reg"
  "rg_staged (prune reg) = rg_staged reg"
  by (simp_all add: prune_def Let_def)

lemma live_cong: "rg_entry reg' e = rg_entry reg e \<Longrightarrow> rg_slot reg' = rg_slot reg \<Longrightarrow> live reg' e = live reg e"
  by (simp add: live_def)

lemma prune_ok: "registry_ok reg \<Longrightarrow> registry_ok (prune reg)"
  unfolding registry_ok_def
proof (elim conjE, intro conjI)
  assume ok: "entries_ok reg" "batch_ok reg" "accounts (rg_outcome reg)"
  show "entries_ok (prune reg)" using ok(1) by (auto simp: entries_ok_def live_def)
  show "batch_ok (prune reg)" using ok(2) by (auto simp: batch_ok_def split: option.splits)
  show "accounts (rg_outcome (prune reg))" using ok(3) by simp
qed

lemma register_ok:
  assumes "registry_ok reg"
  shows "registry_ok (fst (register_pipeline desc payload fingerprint builtFor reg))"
proof -
  define n where "n = rg_next reg"
  define reg1 where "reg1 = reg\<lparr>rg_next := n + 1, rg_slot := (rg_slot reg)(n := \<lparr>ls_payload = payload, ls_held = True\<rparr>)\<rparr>"
  define reg2 where "reg2 = (if length (rg_entries reg1) \<ge> rg_pruneAt reg1 then prune reg1 else reg1)"
  have below: "\<forall>e \<in> set (rg_entries reg). e < n \<and> en_slot (rg_entry reg e) = e"
    using assms by (simp add: registry_ok_def entries_ok_def n_def)
  have "registry_ok reg1"
    using assms below
    by (fastforce simp: registry_ok_def entries_ok_def batch_ok_def live_def reg1_def n_def split: option.splits)
  then have ok2: "registry_ok reg2" unfolding reg2_def using prune_ok by simp
  have sub: "set (rg_entries reg2) \<subseteq> set (rg_entries reg)" "rg_entry reg2 = rg_entry reg" "rg_running reg2 = rg_running reg"
      "rg_next reg2 = n + 1" "rg_slot reg2 = rg_slot reg1"
    by (auto simp: reg2_def reg1_def)
  then have new: "n \<notin> set (rg_entries reg2)" using below by auto
  have inb: "n \<notin> set (ba_entries ba)" if "rg_running reg2 = Some ba" for ba
    using ok2 that new by (auto simp: registry_ok_def batch_ok_def)
  define reg3 where "reg3 = fst (register_pipeline desc payload fingerprint builtFor reg)"
  have reg3: "rg_entries reg3 = rg_entries reg2 @ [n]" "rg_next reg3 = n + 1" "rg_slot reg3 = rg_slot reg2"
      "rg_running reg3 = rg_running reg2" "rg_outcome reg3 = rg_outcome reg2"
      "\<And>e. e \<noteq> n \<Longrightarrow> rg_entry reg3 e = rg_entry reg2 e" "en_slot (rg_entry reg3 n) = n" "\<not> en_inBatch (rg_entry reg3 n)"
      "rg_asked reg3 = (rg_asked reg2 \<or> en_stale (rg_entry reg3 n))"
    using sub(4) by (simp_all add: reg3_def register_pipeline_def Let_def reg2_def reg1_def n_def)
  have old: "e \<noteq> n" if "e \<in> set (rg_entries reg2)" for e using that new by auto
  have "entries_ok reg3"
    using ok2 new old reg3 sub(4) by (auto simp: registry_ok_def entries_ok_def live_def)
  moreover have "batch_ok reg3"
    using ok2 old reg3 inb new by (auto simp: registry_ok_def batch_ok_def split: option.splits)
  ultimately show ?thesis using ok2 reg3(5) by (simp add: registry_ok_def reg3_def)
qed

lemma request_ok: "registry_ok reg \<Longrightarrow> registry_ok (request_reload file force reg)"
  by (auto simp: registry_ok_def entries_ok_def batch_ok_def request_reload_def Let_def live_def split: option.splits)

lemma complete_missing:
  "i < length (ba_results ba) \<Longrightarrow> ba_results ba ! i = None \<Longrightarrow> missing (ba\<lparr>ba_results := (ba_results ba)[i := Some b]\<rparr>) + 1 = missing ba"
  using filter_length_update [of i "ba_results ba" "\<lambda>r. r = None" "Some b"] by (simp add: missing_def)

definition counted_batch :: "reload_batch \<Rightarrow> bool" where
  "counted_batch ba \<longleftrightarrow> length (ba_results ba) = length (ba_entries ba) \<and> ba_remaining ba = of_nat (missing ba)"

lemma complete_counted:
  assumes "counted_batch ba"
  shows "counted_batch (complete_result i b ba) \<and> ba_entries (complete_result i b ba) = ba_entries ba \<and>
     ba_requests (complete_result i b ba) = ba_requests ba"
proof (cases "i < length (ba_results ba) \<and> ba_results ba ! i = None")
  case True
  define m where "m = missing (ba\<lparr>ba_results := (ba_results ba)[i := Some b]\<rparr>)"
  have m: "missing ba = m + 1" using complete_missing [of i ba b] True by (simp add: m_def)
  then show ?thesis using True assms by (simp add: counted_batch_def complete_result_def m_def missing_def)
next
  case False
  then have "complete_result i b ba = ba" unfolding complete_result_def by (rule if_not_P)
  then show ?thesis using assms by simp
qed

lemma run_task_counted:
  "counted_batch ba \<Longrightarrow> counted_batch (run_task i cs reg ba) \<and> ba_entries (run_task i cs reg ba) = ba_entries ba \<and>
     ba_requests (run_task i cs reg ba) = ba_requests ba"
proof (induction cs arbitrary: i ba)
  case (Cons c cs)
  have "counted_batch (run_rebuild i c reg ba) \<and> ba_entries (run_rebuild i c reg ba) = ba_entries ba \<and>
      ba_requests (run_rebuild i c reg ba) = ba_requests ba"
    using complete_counted [OF Cons.prems] Cons.prems by (auto simp: run_rebuild_def split: rebuild_call.splits option.splits)
  then show ?case using Cons by simp
qed simp

lemma refuse_all_counted:
  "counted_batch ba \<Longrightarrow> counted_batch (refuse_all n ba) \<and> ba_entries (refuse_all n ba) = ba_entries ba \<and>
     ba_requests (refuse_all n ba) = ba_requests ba"
  using complete_counted by (induction n) auto

lemma upd_batch_ok:
  assumes "registry_ok reg" "\<And>ba. counted_batch ba \<Longrightarrow> counted_batch (f ba) \<and> ba_entries (f ba) = ba_entries ba \<and> ba_requests (f ba) = ba_requests ba"
  shows "registry_ok (upd_batch f reg)"
proof (cases "rg_running reg")
  case (Some ba)
  then have "counted_batch ba" using assms(1) by (simp add: registry_ok_def batch_ok_def counted_batch_def)
  from assms(2) [OF this] show ?thesis using assms(1) Some
    by (auto simp: registry_ok_def entries_ok_def batch_ok_def upd_batch_def counted_batch_def live_def)
qed (use assms(1) in \<open>auto simp: registry_ok_def entries_ok_def batch_ok_def upd_batch_def live_def\<close>)

lemma notify_simps [simp]:
  "rg_entries (notify_listeners reg) = rg_entries reg" "rg_entry (notify_listeners reg) = rg_entry reg"
  "rg_slot (notify_listeners reg) = rg_slot reg" "rg_running (notify_listeners reg) = rg_running reg"
  "rg_asked (notify_listeners reg) = rg_asked reg" "rg_next (notify_listeners reg) = rg_next reg"
  "rg_outcome (notify_listeners reg) = rg_outcome reg" "rg_freed (notify_listeners reg) = rg_freed reg"
  "rg_retired (notify_listeners reg) = rg_retired reg" "rg_staged (notify_listeners reg) = rg_staged reg"
  by (simp_all add: notify_listeners_def)

text \<open>Which entries a reload takes: every live one that is stale, named, or asked for by an undeclared file.\<close>

definition wanted :: "registry \<Rightarrow> nat \<Rightarrow> bool" where
  "wanted reg e \<longleftrightarrow> en_stale (rg_entry reg e) \<or> rq_asked (rg_request reg) \<and> (rq_all (rg_request reg) \<or>
     (\<exists>file \<in> set (rq_files (rg_request reg)). names_file reg file e \<or>
        (\<forall>other \<in> set (rg_entries reg). live reg other \<longrightarrow> \<not> names_file reg file other)))"

lemma open_batch_taken:
  assumes "batch_ok reg" "rg_running reg = None"
  shows "\<exists>ba. rg_running (open_batch reg) = Some ba \<and>
     ba_entries ba = filter (\<lambda>e. live reg e \<and> wanted reg e) (rg_entries reg) \<and>
     ba_results ba = replicate (length (ba_entries ba)) None \<and> ba_remaining ba = of_nat (length (ba_entries ba)) \<and>
     length (ba_requests ba) = length (ba_entries ba) \<and>
     rg_entries (open_batch reg) = filter (live reg) (rg_entries reg) \<and>
     rg_entry (open_batch reg) = (\<lambda>e. if e \<in> set (ba_entries ba) then (rg_entry reg e)\<lparr>en_stale := False, en_inBatch := True\<rparr> else rg_entry reg e) \<and>
     rg_slot (open_batch reg) = rg_slot reg \<and> rg_next (open_batch reg) = rg_next reg \<and> rg_outcome (open_batch reg) = rg_outcome reg"
proof -
  define reg1 where "reg1 = prune (reg\<lparr>rg_request := no_request, rg_asked := False\<rparr>)"
  have idle: "\<forall>e \<in> set (rg_entries reg). \<not> en_inBatch (rg_entry reg e)" using assms by (simp add: batch_ok_def)
  have entries: "rg_entries reg1 = filter (live reg) (rg_entries reg)"
    using idle unfolding reg1_def by (auto simp: live_def intro!: filter_cong)
  have same: "rg_entry reg1 = rg_entry reg" "rg_slot reg1 = rg_slot reg" by (simp_all add: reg1_def)
  have names: "names_file reg1 f e = names_file reg f e" for f e by (simp add: names_file_def same)
  have "in_reload (rg_request reg) reg1 e \<longleftrightarrow> wanted reg e" if "e \<in> set (rg_entries reg1)" for e
  proof -
    have e: "e \<in> set (rg_entries reg)" "live reg e" "\<not> en_inBatch (rg_entry reg e)" using that idle entries by auto
    have "asks_all (rg_request reg) reg1 \<longleftrightarrow> rq_all (rg_request reg) \<or>
        (\<exists>file \<in> set (rq_files (rg_request reg)). \<forall>other \<in> set (rg_entries reg). live reg other \<longrightarrow> \<not> names_file reg file other)"
      by (auto simp: asks_all_def list_ex_iff entries names)
    then have "picked (rg_request reg) reg1 e \<longleftrightarrow> rq_asked (rg_request reg) \<and> (rq_all (rg_request reg) \<or>
        (\<exists>file \<in> set (rq_files (rg_request reg)). names_file reg file e \<or>
          (\<forall>other \<in> set (rg_entries reg). live reg other \<longrightarrow> \<not> names_file reg file other)))"
      by (auto simp: picked_def list_ex_iff names)
    moreover have "live reg1 e" using e(2) by (simp add: live_def same)
    ultimately show ?thesis using e by (auto simp: in_reload_def wanted_def same)
  qed
  then have taken: "filter (in_reload (rg_request reg) reg1) (rg_entries reg1) = filter (\<lambda>e. live reg e \<and> wanted reg e) (rg_entries reg)"
    unfolding entries by (auto simp: conj_commute intro!: filter_cong)
  show ?thesis
    unfolding open_batch_def reg1_def [symmetric] Let_def taken
    by (auto simp: same entries) (simp_all add: reg1_def)
qed

lemma open_batch_ok:
  assumes "registry_ok reg" "rg_running reg = None"
  shows "registry_ok (open_batch reg)"
proof -
  obtain ba where ba: "rg_running (open_batch reg) = Some ba"
     "ba_entries ba = filter (\<lambda>e. live reg e \<and> wanted reg e) (rg_entries reg)"
     "ba_results ba = replicate (length (ba_entries ba)) None" "ba_remaining ba = of_nat (length (ba_entries ba))"
     "length (ba_requests ba) = length (ba_entries ba)"
     "rg_entries (open_batch reg) = filter (live reg) (rg_entries reg)"
     "rg_entry (open_batch reg) = (\<lambda>e. if e \<in> set (ba_entries ba) then (rg_entry reg e)\<lparr>en_stale := False, en_inBatch := True\<rparr> else rg_entry reg e)"
     "rg_slot (open_batch reg) = rg_slot reg" "rg_next (open_batch reg) = rg_next reg" "rg_outcome (open_batch reg) = rg_outcome reg"
    using open_batch_taken [of reg] assms by (auto simp: registry_ok_def)
  have "missing ba = length (ba_entries ba)" by (simp add: missing_def ba(3))
  then have "batch_ok (open_batch reg)"
    using assms by (auto simp: batch_ok_def ba registry_ok_def)
  moreover have "entries_ok (open_batch reg)"
    using assms(1) by (auto simp: entries_ok_def ba registry_ok_def live_def wanted_def)
  ultimately show ?thesis using assms(1) by (simp add: registry_ok_def ba)
qed

lemma start_batch_ok:
  assumes "registry_ok reg" "rg_running reg = None"
  shows "registry_ok (start_batch launch reg)"
  unfolding start_batch_def Let_def
  by (rule upd_batch_ok [OF open_batch_ok [OF assms]])
    (use run_task_counted refuse_all_counted in \<open>auto split: option.splits\<close>)

text \<open>The end of a reload.\<close>

lemma finish_one_effect:
  assumes "finish_one e b (reg, oc) = (reg', oc')"
  shows "rg_entries reg' = rg_entries reg \<and> rg_slot reg' = rg_slot reg \<and> rg_next reg' = rg_next reg \<and> rg_asked reg' = rg_asked reg \<and>
     rg_running reg' = rg_running reg \<and> rg_entry reg' = (rg_entry reg)(e := (rg_entry reg e)\<lparr>en_inBatch := False\<rparr>) \<and>
     oc_entries oc' = oc_entries oc \<and>
     oc_rebuilt oc' + oc_failed oc' + oc_unchanged oc' = oc_rebuilt oc + oc_failed oc + oc_unchanged oc + 1 \<and>
     (length (oc_errors oc) = min (oc_failed oc) max_errors \<longrightarrow> length (oc_errors oc') = min (oc_failed oc') max_errors)"
  using assms by (auto simp: finish_one_def Let_def upd_entry_def split: option.splits if_splits)

lemma finish_all_effect:
  "fold (\<lambda>(e, r). finish_one e (result_of r)) ers (reg, oc) = (reg', oc') \<Longrightarrow>
     rg_entries reg' = rg_entries reg \<and> rg_slot reg' = rg_slot reg \<and> rg_next reg' = rg_next reg \<and> rg_asked reg' = rg_asked reg \<and>
     rg_running reg' = rg_running reg \<and>
     rg_entry reg' = (\<lambda>e. if e \<in> fst ` set ers then (rg_entry reg e)\<lparr>en_inBatch := False\<rparr> else rg_entry reg e) \<and>
     oc_entries oc' = oc_entries oc \<and>
     oc_rebuilt oc' + oc_failed oc' + oc_unchanged oc' = oc_rebuilt oc + oc_failed oc + oc_unchanged oc + length ers \<and>
     (length (oc_errors oc) = min (oc_failed oc) max_errors \<longrightarrow> length (oc_errors oc') = min (oc_failed oc') max_errors)"
proof (induction ers arbitrary: reg oc)
  case (Cons er ers)
  obtain e r where er: "er = (e, r)" by (cases er)
  obtain reg1 oc1 where one: "finish_one e (result_of r) (reg, oc) = (reg1, oc1)" by (cases "finish_one e (result_of r) (reg, oc)")
  have run: "fold (\<lambda>(e, r). finish_one e (result_of r)) ers (reg1, oc1) = (reg', oc')" using Cons.prems er one by simp
  show ?case using Cons.IH [OF run] finish_one_effect [OF one] er by (auto simp: fun_eq_iff)
qed auto

lemma finish_batch_ok:
  assumes "registry_ok reg"
  shows "registry_ok (finish_batch reg) \<and> rg_running (finish_batch reg) = None"
proof (cases "rg_running reg")
  case (Some ba)
  let ?oc = "no_outcome\<lparr>oc_entries := length (ba_entries ba), oc_serial := oc_serial (rg_outcome reg) + 1\<rparr>"
  obtain reg1 oc where run: "fold (\<lambda>(e, r). finish_one e (result_of r)) (zip (ba_entries ba) (ba_results ba)) (reg\<lparr>rg_running := None\<rparr>, ?oc) = (reg1, oc)"
    by (cases "fold (\<lambda>(e, r). finish_one e (result_of r)) (zip (ba_entries ba) (ba_results ba)) (reg\<lparr>rg_running := None\<rparr>, ?oc)")
  have finish: "finish_batch reg = reg1\<lparr>rg_outcome := oc\<rparr>" using run by (simp add: finish_batch_def Some)
  have ba: "length (ba_results ba) = length (ba_entries ba)"
      "\<forall>e \<in> set (rg_entries reg). en_inBatch (rg_entry reg e) \<longleftrightarrow> e \<in> set (ba_entries ba)"
    using assms Some by (auto simp: registry_ok_def batch_ok_def)
  have fst: "fst ` set (zip (ba_entries ba) (ba_results ba)) = set (ba_entries ba)"
    using ba(1) by (metis map_fst_zip list.set_map)
  note effect = finish_all_effect [OF run, unfolded fst]
  have "entries_ok (finish_batch reg)" using assms effect finish by (auto simp: registry_ok_def entries_ok_def live_def)
  moreover have "batch_ok (finish_batch reg)" using effect finish ba(2) by (auto simp: batch_ok_def)
  moreover have "accounts oc" using effect ba(1) by (simp add: accounts_def no_outcome_def)
  ultimately show ?thesis using effect finish by (simp add: registry_ok_def)
qed (use assms in \<open>simp add: finish_batch_def\<close>)

lemma service_ok: "registry_ok reg \<Longrightarrow> registry_ok (fst (service launch reg))"
  using finish_batch_ok start_batch_ok by (simp add: service_def Let_def)

text \<open>Publications and retirements.\<close>

lemma publish_one_effect:
  assumes "publish_one point item (reg, rs) = (reg', rs')"
  shows "rg_entries reg' = rg_entries reg \<and> rg_next reg' = rg_next reg \<and> rg_asked reg' = rg_asked reg \<and> rg_running reg' = rg_running reg \<and>
     rg_outcome reg' = rg_outcome reg \<and> rg_retired reg' = rg_retired reg \<and> rg_freed reg' = rg_freed reg \<and>
     (\<forall>e. en_slot (rg_entry reg' e) = en_slot (rg_entry reg e) \<and> en_stale (rg_entry reg' e) = en_stale (rg_entry reg e) \<and>
        en_inBatch (rg_entry reg' e) = en_inBatch (rg_entry reg e)) \<and>
     (\<forall>s. ls_held (rg_slot reg' s) = ls_held (rg_slot reg s) \<and>
        (ls_payload (rg_slot reg' s) = ls_payload (rg_slot reg s) \<or> (point, ls_payload (rg_slot reg s)) \<in> set rs')) \<and> set rs \<subseteq> set rs'"
  using assms by (auto simp: publish_one_def Let_def upd_entry_def split: if_splits)

lemma publish_all_effect:
  "fold (publish_one point) items (reg, rs) = (reg', rs') \<Longrightarrow>
     rg_entries reg' = rg_entries reg \<and> rg_next reg' = rg_next reg \<and> rg_asked reg' = rg_asked reg \<and> rg_running reg' = rg_running reg \<and>
     rg_outcome reg' = rg_outcome reg \<and> rg_retired reg' = rg_retired reg \<and> rg_freed reg' = rg_freed reg \<and>
     (\<forall>e. en_slot (rg_entry reg' e) = en_slot (rg_entry reg e) \<and> en_stale (rg_entry reg' e) = en_stale (rg_entry reg e) \<and>
        en_inBatch (rg_entry reg' e) = en_inBatch (rg_entry reg e)) \<and>
     (\<forall>s. ls_held (rg_slot reg' s) = ls_held (rg_slot reg s) \<and>
        (ls_payload (rg_slot reg' s) = ls_payload (rg_slot reg s) \<or> (point, ls_payload (rg_slot reg s)) \<in> set rs')) \<and> set rs \<subseteq> set rs'"
proof (induction items arbitrary: reg rs)
  case (Cons item items)
  obtain reg1 rs1 where one: "publish_one point item (reg, rs) = (reg1, rs1)" by (cases "publish_one point item (reg, rs)")
  have run: "fold (publish_one point) items (reg1, rs1) = (reg', rs')" using Cons.prems one by simp
  have first: "ls_payload (rg_slot reg1 s) = ls_payload (rg_slot reg s) \<or> (point, ls_payload (rg_slot reg s)) \<in> set rs1" for s
    using publish_one_effect [OF one] by blast
  have later: "ls_payload (rg_slot reg' s) = ls_payload (rg_slot reg1 s) \<or> (point, ls_payload (rg_slot reg1 s)) \<in> set rs'" for s
    using Cons.IH [OF run] by blast
  have "set rs1 \<subseteq> set rs'" using Cons.IH [OF run] by blast
  then have slots: "ls_payload (rg_slot reg' s) = ls_payload (rg_slot reg s) \<or> (point, ls_payload (rg_slot reg s)) \<in> set rs'" for s
    using first [of s] later [of s] by auto
  show ?case using Cons.IH [OF run] publish_one_effect [OF one] slots by auto
qed auto

lemma publish_effect:
  assumes "publish_staged point reg = (reg', n)"
  shows "rg_entries reg' = rg_entries reg \<and> rg_next reg' = rg_next reg \<and> rg_asked reg' = rg_asked reg \<and> rg_running reg' = rg_running reg \<and>
     rg_outcome reg' = rg_outcome reg \<and> set (rg_retired reg) \<subseteq> set (rg_retired reg') \<and> rg_freed reg' = rg_freed reg \<and>
     (\<forall>e. en_slot (rg_entry reg' e) = en_slot (rg_entry reg e) \<and> en_stale (rg_entry reg' e) = en_stale (rg_entry reg e) \<and>
        en_inBatch (rg_entry reg' e) = en_inBatch (rg_entry reg e)) \<and>
     (\<forall>s. ls_held (rg_slot reg' s) = ls_held (rg_slot reg s) \<and>
        (ls_payload (rg_slot reg' s) = ls_payload (rg_slot reg s) \<or> (point, ls_payload (rg_slot reg s)) \<in> set (rg_retired reg')))"
proof (cases "rg_staged reg = []")
  case False
  obtain reg1 rs where run: "fold (publish_one point) (rg_staged reg) (reg\<lparr>rg_staged := []\<rparr>, []) = (reg1, rs)"
    by (cases "fold (publish_one point) (rg_staged reg) (reg\<lparr>rg_staged := []\<rparr>, [])")
  have "reg' = (if rs = [] then reg1\<lparr>rg_retired := rg_retired reg1 @ rs\<rparr>
      else notify_listeners (reg1\<lparr>rg_retired := rg_retired reg1 @ rs, rg_generation := rg_generation reg1 + 1\<rparr>))"
    using assms False run by (auto simp: publish_staged_def Let_def)
  then show ?thesis using publish_all_effect [OF run] by auto
qed (use assms in \<open>simp add: publish_staged_def\<close>)

lemma publish_ok: "registry_ok reg \<Longrightarrow> registry_ok (fst (publish_staged point reg))"
proof -
  obtain reg' n where run: "publish_staged point reg = (reg', n)" by (cases "publish_staged point reg")
  assume "registry_ok reg"
  then show ?thesis using publish_effect [OF run] run
    by (auto simp: registry_ok_def entries_ok_def batch_ok_def live_def split: option.splits)
qed

lemma plain_ok:
  "registry_ok reg \<Longrightarrow> registry_ok (retire_payloads c reg)" "registry_ok reg \<Longrightarrow> registry_ok (drain_retired reg)"
  "registry_ok reg \<Longrightarrow> registry_ok (add_listener l reg)" "registry_ok reg \<Longrightarrow> registry_ok (drop_slot s reg)"
  by (auto simp: registry_ok_def entries_ok_def batch_ok_def live_def retire_payloads_def drain_retired_def add_listener_def drop_slot_def Let_def
      split: option.splits)

lemma registry_step_ok: "registry_ok reg \<Longrightarrow> registry_ok (registry_step ev reg)"
  using complete_counted by (cases ev) (auto intro: register_ok request_ok service_ok publish_ok plain_ok upd_batch_ok)

lemma registry_run_ok: "registry_ok (registry_run evs)"
proof -
  have "registry_ok (fold registry_step evs reg)" if "registry_ok reg" for reg
    using that by (induction evs arbitrary: reg) (auto intro: registry_step_ok)
  then show ?thesis using new_registry_ok by (simp add: registry_run_def)
qed

section \<open>Reloads\<close>

text \<open>
  Claim C28. In every run: a live entry built for files read before the last reload has the owner
  asked to reload; and the reload the owner starts when none runs takes exactly the live entries
  that are stale, that name an asked file, or all when everything, or a file no live entry names,
  was asked for.
\<close>

theorem reload_takes_asked:
  assumes "reg = registry_run evs"
  shows "(\<forall>e \<in> set (rg_entries reg). live reg e \<and> en_stale (rg_entry reg e) \<longrightarrow> rg_asked reg) \<and>
     (rg_running reg = None \<longrightarrow> (\<exists>ba. rg_running (open_batch reg) = Some ba \<and>
        ba_entries ba = filter (\<lambda>e. live reg e \<and> wanted reg e) (rg_entries reg)))"
proof -
  have ok: "registry_ok reg" unfolding assms by (rule registry_run_ok)
  then show ?thesis using open_batch_taken [of reg] by (auto simp: registry_ok_def entries_ok_def)
qed

definition demo_desc :: "string \<Rightarrow> live_desc" where
  "demo_desc name = \<lparr>ld_id = name, ld_sources = [name @ ''.hlsl''], ld_rebuild = True\<rparr>"

definition demo_events :: "registry_event list" where
  "demo_events = [Register (demo_desc ''Sky'') (Some 1) 5 0, Register (demo_desc ''Fog'') (Some 2) 6 0, RequestReload ''Data/Shaders/Fog.hlsl'' False]"

lemma demo_registry:
  "rg_entries (registry_run demo_events) = [0, 1]" "rg_running (registry_run demo_events) = None"
  "filter (\<lambda>e. live (registry_run demo_events) e \<and> wanted (registry_run demo_events) e) [0, 1] = [1]"
  by code_simp+

lemma reload_takes_asked_witness:
  "\<exists>ba. rg_running (open_batch (registry_run demo_events)) = Some ba \<and> ba_entries ba = [1]"
  using reload_takes_asked [OF HOL.refl, of demo_events] demo_registry by simp

text \<open>
  Claim C29. In every run: a running reload of fewer than \<open>2\<^sup>3\<^sup>2\<close> entries is finished only when
  each of its results is in, its entries are exactly those marked, and the last finished reload
  accounts for each of its entries once, as rebuilt, failed (with the first eight errors) or
  unchanged.
\<close>

theorem reload_accounts:
  assumes "reg = registry_run evs"
  shows "accounts (last_reload reg) \<and>
     (case rg_running reg of
        None \<Rightarrow> \<forall>e \<in> set (rg_entries reg). \<not> en_inBatch (rg_entry reg e)
      | Some ba \<Rightarrow> (length (ba_entries ba) < 2 ^ 32 \<and> all_in reg \<longrightarrow> None \<notin> set (ba_results ba)) \<and>
          (\<forall>e \<in> set (rg_entries reg). en_inBatch (rg_entry reg e) \<longleftrightarrow> e \<in> set (ba_entries ba)))"
proof -
  have ok: "batch_ok reg" "accounts (rg_outcome reg)"
    using registry_run_ok [of evs] assms by (simp_all add: registry_ok_def)
  have "None \<notin> set (ba_results ba)" if run: "rg_running reg = Some ba" "length (ba_entries ba) < 2 ^ 32" "all_in reg" for ba
  proof -
    have "missing ba \<le> length (ba_results ba)" by (simp add: missing_def)
    then have "missing ba < 2 ^ 32" and "(of_nat (missing ba) :: u32) = 0" using ok(1) run by (simp_all add: batch_ok_def all_in_def)
    moreover have "unat (of_nat (missing ba) :: u32) = missing ba" using \<open>missing ba < 2 ^ 32\<close> by (simp add: unat_of_nat)
    ultimately have "missing ba = 0" by simp
    then show ?thesis by (auto simp: missing_def filter_empty_conv)
  qed
  then show ?thesis using ok by (auto simp: batch_ok_def last_reload_def split: option.splits)
qed

lemma reload_accounts_witness:
  "oc_entries (last_reload (registry_run (demo_events @ [Service (Some [Answered \<lparr>lb_payload = Some 3, lb_fingerprint = 7, lb_error = []\<rparr>])]))) = 1 \<and>
   oc_rebuilt (last_reload (registry_run (demo_events @ [Service (Some [Answered \<lparr>lb_payload = Some 3, lb_fingerprint = 7, lb_error = []\<rparr>])]))) +
   oc_failed (last_reload (registry_run (demo_events @ [Service (Some [Answered \<lparr>lb_payload = Some 3, lb_fingerprint = 7, lb_error = []\<rparr>])]))) +
   oc_unchanged (last_reload (registry_run (demo_events @ [Service (Some [Answered \<lparr>lb_payload = Some 3, lb_fingerprint = 7, lb_error = []\<rparr>])]))) = 1"
  (is "?one = 1 \<and> ?sum = 1")
proof -
  have "?one = 1" by code_simp
  moreover have "?one = ?sum"
    using reload_accounts [OF HOL.refl, of "demo_events @ [Service (Some [Answered \<lparr>lb_payload = Some 3, lb_fingerprint = 7, lb_error = []\<rparr>])]"]
    unfolding accounts_def by blast
  ultimately show ?thesis by simp
qed

section \<open>Replaced payloads\<close>

text \<open>A payload given up at a point waits, or was freed no earlier than the point (or drained).\<close>

definition waits :: "u64 \<Rightarrow> nat option \<Rightarrow> registry \<Rightarrow> bool" where
  "waits point p reg \<longleftrightarrow> (point, p) \<in> set (rg_retired reg) \<or>
     (point, p, None) \<in> set (rg_freed reg) \<or> (\<exists>completed. (point, p, Some completed) \<in> set (rg_freed reg) \<and> point \<le> completed)"

definition same_given :: "registry \<Rightarrow> registry \<Rightarrow> bool" where
  "same_given reg reg' \<longleftrightarrow> rg_retired reg' = rg_retired reg \<and> rg_freed reg' = rg_freed reg"

lemma finish_one_given: "finish_one e b (reg, oc) = (reg', oc') \<Longrightarrow> same_given reg reg'"
  by (cases "lb_payload b"; cases "lb_error b = []") (auto simp: same_given_def finish_one_def Let_def upd_entry_def)

lemma finish_all_given: "fold (\<lambda>(e, r). finish_one e (result_of r)) ers (reg, oc) = (reg', oc') \<Longrightarrow> same_given reg reg'"
proof (induction ers arbitrary: reg oc)
  case (Cons er ers)
  obtain e r where er: "er = (e, r)" by (cases er)
  obtain reg1 oc1 where one: "finish_one e (result_of r) (reg, oc) = (reg1, oc1)" by (cases "finish_one e (result_of r) (reg, oc)")
  have "fold (\<lambda>(e, r). finish_one e (result_of r)) ers (reg1, oc1) = (reg', oc')" using Cons.prems er one by simp
  then show ?case using Cons.IH finish_one_given [OF one] by (fastforce simp: same_given_def)
qed (simp add: same_given_def)

lemma finish_batch_given: "same_given reg (finish_batch reg)"
proof (cases "rg_running reg")
  case (Some ba)
  let ?oc = "no_outcome\<lparr>oc_entries := length (ba_entries ba), oc_serial := oc_serial (rg_outcome reg) + 1\<rparr>"
  obtain reg1 oc where run: "fold (\<lambda>(e, r). finish_one e (result_of r)) (zip (ba_entries ba) (ba_results ba)) (reg\<lparr>rg_running := None\<rparr>, ?oc) = (reg1, oc)"
    by (cases "fold (\<lambda>(e, r). finish_one e (result_of r)) (zip (ba_entries ba) (ba_results ba)) (reg\<lparr>rg_running := None\<rparr>, ?oc)")
  then show ?thesis using finish_all_given [OF run] by (simp add: finish_batch_def Some same_given_def)
qed (simp add: finish_batch_def same_given_def)

lemma prune_given: "rg_retired (prune reg) = rg_retired reg" "rg_freed (prune reg) = rg_freed reg"
  by (simp_all add: prune_def Let_def)

lemma start_batch_given: "same_given reg (start_batch launch reg)"
  by (simp add: same_given_def start_batch_def open_batch_def upd_batch_def Let_def prune_given)

lemma service_given: "same_given reg (fst (service launch reg))"
proof -
  define reg1 where "reg1 = (if all_in reg then finish_batch reg else reg)"
  define reg2 where "reg2 = (if rg_running reg1 = None \<and> rg_asked reg1 then start_batch launch reg1 else reg1)"
  have "same_given reg reg1" "same_given reg1 reg2"
    using finish_batch_given start_batch_given by (simp_all add: reg1_def reg2_def same_given_def)
  moreover have "fst (service launch reg) = reg2 \<or> fst (service launch reg) = finish_batch reg2"
    by (simp add: service_def Let_def reg1_def reg2_def)
  ultimately show ?thesis using finish_batch_given [of reg2] by (auto simp: same_given_def)
qed

lemma waits_step: "waits point p reg \<Longrightarrow> waits point p (registry_step ev reg)"
proof (cases ev)
  case (Service launch)
  then show "waits point p reg \<Longrightarrow> ?thesis" using service_given [of reg launch] by (simp add: same_given_def waits_def)
next
  case (Publish c)
  obtain reg' n where run: "publish_staged c reg = (reg', n)" by (cases "publish_staged c reg")
  show "waits point p reg \<Longrightarrow> ?thesis" using publish_effect [OF run] Publish run by (auto simp: waits_def)
next
  case (Retire c)
  have "r \<in> set (takeWhile P rs) \<and> P r \<or> r \<in> set (dropWhile P rs)" if "r \<in> set rs" for r :: "u64 \<times> nat option" and P rs
    using that by (induction rs) auto
  from this [of "(point, p)" "rg_retired reg" "\<lambda>r. fst r \<le> c"]
  show "waits point p reg \<Longrightarrow> ?thesis" using Retire by (force simp: waits_def retire_payloads_def Let_def)
next
  case Drain
  then show "waits point p reg \<Longrightarrow> ?thesis" by (force simp: waits_def drain_retired_def)
qed (auto simp: waits_def register_pipeline_def request_reload_def upd_batch_def drop_slot_def add_listener_def Let_def prune_given)

text \<open>
  Claim C30. A payload that a publication takes out of a slot waits in the registry: whatever
  happens afterwards, it is still held, or a retirement passed the publication's point, or the
  registry was drained.
\<close>

theorem replaced_payloads_wait:
  assumes "ls_payload (rg_slot reg s) \<noteq> ls_payload (rg_slot (fst (publish_staged point reg)) s)"
  shows "waits point (ls_payload (rg_slot reg s)) (fold registry_step evs (fst (publish_staged point reg)))"
proof -
  obtain reg' n where run: "publish_staged point reg = (reg', n)" by (cases "publish_staged point reg")
  have "waits point p (fold registry_step evs r)" if "waits point p r" for p r
    using that by (induction evs arbitrary: r) (auto intro: waits_step)
  moreover have "ls_payload (rg_slot reg' s) = ls_payload (rg_slot reg s) \<or> (point, ls_payload (rg_slot reg s)) \<in> set (rg_retired reg')"
    using publish_effect [OF run] by blast
  then have "waits point (ls_payload (rg_slot reg s)) reg'"
    using assms run by (simp add: waits_def)
  ultimately show ?thesis using run by simp
qed

definition demo_reloaded :: registry where
  "demo_reloaded = registry_run (demo_events @ [Service (Some [Answered \<lparr>lb_payload = Some 3, lb_fingerprint = 7, lb_error = []\<rparr>])])"

lemma replaced_payloads_wait_witness:
  "waits 10 (Some 2) (fold registry_step [Retire 9, Service None, Retire 10] (fst (publish_staged 10 demo_reloaded)))"
proof -
  have before: "ls_payload (rg_slot demo_reloaded 1) = Some 2" by code_simp
  have after: "ls_payload (rg_slot (fst (publish_staged 10 demo_reloaded)) 1) = Some 3" by code_simp
  show ?thesis using replaced_payloads_wait [of demo_reloaded 1 10 "[Retire 9, Service None, Retire 10]"] before after by simp
qed

end
