(* ===== verification/Pipelines.thy ===== *)
theory Pipelines
  imports Prelude
begin

text \<open>
  \<^verbatim>\<open>PipelineService.h\<close>, \<^verbatim>\<open>PipelineService.cpp\<close> and the \<^verbatim>\<open>CompletionFlight.h\<close> it
  runs on: pipelines built once per key, their requesters called back, and published one per recipe
  id. A payload and a callback are numbers, a flight an address. A request is one operation (its
  locked section, the attach, the submission); the build, the completion of the flight and the
  calls of its callbacks are separate ones, between which any other may come.
\<close>

section \<open>Keys\<close>

definition mix :: "u64 \<Rightarrow> u64 \<Rightarrow> u64" where
  "mix seed value =
     (let v1 = xor value (drop_bit 30 value) * 0xbf58476d1ce4e5b9;
          v2 = xor v1 (drop_bit 27 v1) * 0x94d049bb133111eb;
          v3 = xor v2 (drop_bit 31 v2)
      in xor seed (v3 + 0x9e3779b97f4a7c15 + push_bit 6 seed + drop_bit 2 seed))"

fun hash_from :: "u64 \<Rightarrow> string \<Rightarrow> u64" where
  "hash_from hash [] = hash"
| "hash_from hash (c # cs) = hash_from (xor hash (of_char c) * 1099511628211) cs"

definition hash_string :: "string \<Rightarrow> u64" where
  "hash_string value = hash_from 1469598103934665603 value"

text \<open>The factory is called by the build (\<open>factory_call\<close>): here it is there or it is not.\<close>

record pipeline_recipe =
  pr_id :: string
  pr_layoutKey :: u64
  pr_shaderKey :: u64
  pr_fixedFunctionKey :: u64
  pr_deviceKey :: u64
  pr_build :: bool

definition build_key :: "pipeline_recipe \<Rightarrow> u64" where
  "build_key r = mix (mix (mix (mix (hash_string (pr_id r)) (pr_layoutKey r)) (pr_shaderKey r)) (pr_fixedFunctionKey r)) (pr_deviceKey r)"

record pipeline_artifact =
  pa_key :: u64
  pa_generation :: u64
  pa_payload :: "nat option"
  pa_error :: string

definition no_artifact :: pipeline_artifact where
  "no_artifact = \<lparr>pa_key = 0, pa_generation = 0, pa_payload = None, pa_error = []\<rparr>"

section \<open>A flight\<close>

text \<open>The future's value; a failed future rethrows, its requesters receive \<open>fl_failure\<close>.\<close>

record flight =
  fl_future :: "pipeline_artifact option"
  fl_failed :: bool
  fl_failure :: pipeline_artifact
  fl_done :: bool
  fl_callbacks :: "nat list"

definition new_flight :: flight where
  "new_flight = \<lparr>fl_future = None, fl_failed = False, fl_failure = no_artifact, fl_done = False, fl_callbacks = []\<rparr>"

definition flight_result :: "flight \<Rightarrow> pipeline_artifact" where
  "flight_result fl = (if fl_failed fl then fl_failure fl else the (fl_future fl))"

text \<open>The second part is the call made at once.\<close>

definition attach :: "nat option \<Rightarrow> flight \<Rightarrow> flight \<times> (nat \<times> pipeline_artifact) list" where
  "attach callback fl =
     (case callback of
        None \<Rightarrow> (fl, [])
      | Some cb \<Rightarrow> if \<not> fl_done fl then (fl\<lparr>fl_callbacks := fl_callbacks fl @ [cb]\<rparr>, []) else (fl, [(cb, flight_result fl)]))"

text \<open>\<open>Complete\<close> sets the promise, then finishes.\<close>

definition set_value :: "pipeline_artifact \<Rightarrow> flight \<Rightarrow> flight" where
  "set_value a fl = fl\<lparr>fl_future := Some a\<rparr>"

definition finish :: "flight \<Rightarrow> flight \<times> (nat \<times> pipeline_artifact) list" where
  "finish fl = (fl\<lparr>fl_done := True, fl_callbacks := []\<rparr>, map (\<lambda>cb. (cb, flight_result fl)) (fl_callbacks fl))"

section \<open>The service\<close>

record build_task =
  bt_flight :: nat
  bt_key :: u64
  bt_generation :: u64
  bt_build :: bool

text \<open>
  \<open>sv_tasks\<close> are the accepted builds not run yet, \<open>sv_finishing\<close> the flights whose promise is
  set and whose callbacks are still to be taken. For the statements: the flight's key, every
  callback with the key it was requested for, and the calls made.
\<close>

record pipeline_service =
  sv_nextGeneration :: u64
  sv_inFlight :: "u64 \<rightharpoonup> nat"
  sv_active :: "u64 \<rightharpoonup> pipeline_artifact"
  sv_idsByKey :: "u64 \<rightharpoonup> string"
  sv_activeKeyById :: "string \<rightharpoonup> u64"
  sv_retired :: "(u64 \<times> nat) list"
  sv_flight :: "nat \<Rightarrow> flight"
  sv_flights :: nat
  sv_tasks :: "build_task list"
  sv_finishing :: "nat list"
  sv_flightKey :: "nat \<Rightarrow> u64"
  sv_asked :: "(nat \<times> u64) list"
  sv_calls :: "(nat \<times> pipeline_artifact) list"

definition new_service :: pipeline_service where
  "new_service = \<lparr>sv_nextGeneration = 1, sv_inFlight = Map.empty, sv_active = Map.empty, sv_idsByKey = Map.empty,
     sv_activeKeyById = Map.empty, sv_retired = [], sv_flight = (\<lambda>_. new_flight), sv_flights = 0, sv_tasks = [],
     sv_finishing = [], sv_flightKey = (\<lambda>_. 0), sv_asked = [], sv_calls = []\<rparr>"

definition upd_flight :: "nat \<Rightarrow> flight \<Rightarrow> pipeline_service \<Rightarrow> pipeline_service" where
  "upd_flight f fl sv = sv\<lparr>sv_flight := (sv_flight sv)(f := fl)\<rparr>"

definition note_asked :: "nat option \<Rightarrow> u64 \<Rightarrow> pipeline_service \<Rightarrow> pipeline_service" where
  "note_asked callback key sv = (case callback of None \<Rightarrow> sv | Some cb \<Rightarrow> sv\<lparr>sv_asked := (cb, key) # sv_asked sv\<rparr>)"

text \<open>\<open>onComplete\<close> of the future made ready at once.\<close>

definition call_now :: "nat option \<Rightarrow> pipeline_artifact \<Rightarrow> pipeline_service \<Rightarrow> pipeline_service" where
  "call_now callback a sv = (case callback of None \<Rightarrow> sv | Some cb \<Rightarrow> sv\<lparr>sv_calls := (cb, a) # sv_calls sv\<rparr>)"

definition attach_to :: "nat option \<Rightarrow> nat \<Rightarrow> pipeline_service \<Rightarrow> pipeline_service" where
  "attach_to callback f sv =
     (case attach callback (sv_flight sv f) of (fl, calls) \<Rightarrow> (upd_flight f fl sv)\<lparr>sv_calls := calls @ sv_calls sv\<rparr>)"

definition set_flight :: "nat \<Rightarrow> pipeline_artifact \<Rightarrow> pipeline_service \<Rightarrow> pipeline_service" where
  "set_flight f a sv = (upd_flight f (set_value a (sv_flight sv f)) sv)\<lparr>sv_finishing := f # sv_finishing sv\<rparr>"

text \<open>A new flight for the key, in the locked section.\<close>

definition opened :: "u64 \<Rightarrow> string \<Rightarrow> pipeline_service \<Rightarrow> pipeline_service" where
  "opened key ident sv = sv\<lparr>sv_nextGeneration := sv_nextGeneration sv + 1, sv_idsByKey := (sv_idsByKey sv)(key \<mapsto> ident),
     sv_flights := sv_flights sv + 1, sv_flight := (sv_flight sv)(sv_flights sv := new_flight),
     sv_flightKey := (sv_flightKey sv)(sv_flights sv := key), sv_inFlight := (sv_inFlight sv)(key \<mapsto> sv_flights sv)\<rparr>"

text \<open>\<open>Request\<close>; \<open>accepts\<close> is what the submitter answers (a throw counts as a refusal).\<close>

definition request_pipeline :: "pipeline_recipe \<Rightarrow> nat option \<Rightarrow> bool \<Rightarrow> pipeline_service \<Rightarrow> pipeline_service" where
  "request_pipeline recipe callback accepts sv0 =
     (let key = build_key recipe; sv = note_asked callback key sv0 in
      case sv_active sv key of
        Some a \<Rightarrow> call_now callback a sv
      | None \<Rightarrow>
          (case sv_inFlight sv key of
             Some f \<Rightarrow> attach_to callback f sv
           | None \<Rightarrow>
               let f = sv_flights sv; generation = sv_nextGeneration sv;
                   sv2 = attach_to callback f (opened key (pr_id recipe) sv)
               in if accepts
                  then sv2\<lparr>sv_tasks := \<lparr>bt_flight = f, bt_key = key, bt_generation = generation, bt_build = pr_build recipe\<rparr> # sv_tasks sv2\<rparr>
                  else set_flight f \<lparr>pa_key = key, pa_generation = generation, pa_payload = None,
                         pa_error = ''the pipeline submitter refused the request''\<rparr> sv2))"

text \<open>What the factory does: it returns a payload or none, or throws (a standard exception or not).\<close>

datatype factory_call = Returned "nat option" | ThrewError string | ThrewOther

definition built_artifact :: "build_task \<Rightarrow> factory_call \<Rightarrow> pipeline_artifact" where
  "built_artifact t call =
     (let result = \<lparr>pa_key = bt_key t, pa_generation = bt_generation t, pa_payload = None, pa_error = []\<rparr> in
      if \<not> bt_build t then result\<lparr>pa_error := ''pipeline recipe has no factory''\<rparr>
      else case call of
        Returned (Some p) \<Rightarrow> result\<lparr>pa_payload := Some p\<rparr>
      | Returned None \<Rightarrow> result\<lparr>pa_error := ''pipeline factory returned no payload''\<rparr>
      | ThrewError what \<Rightarrow> result\<lparr>pa_error := what\<rparr>
      | ThrewOther \<Rightarrow> result\<lparr>pa_error := ''pipeline factory failed''\<rparr>)"

definition run_build :: "build_task \<Rightarrow> factory_call \<Rightarrow> pipeline_service \<Rightarrow> pipeline_service" where
  "run_build t call sv = set_flight (bt_flight t) (built_artifact t call) (sv\<lparr>sv_tasks := remove1 t (sv_tasks sv)\<rparr>)"

definition finish_flight :: "nat \<Rightarrow> pipeline_service \<Rightarrow> pipeline_service" where
  "finish_flight f sv =
     (case finish (sv_flight sv f) of (fl, calls) \<Rightarrow>
        (upd_flight f fl sv)\<lparr>sv_calls := calls @ sv_calls sv, sv_finishing := remove1 f (sv_finishing sv)\<rparr>)"

text \<open>\<open>PublishReady\<close>: each flight in turn, in the order the map has them.\<close>

definition displace :: "u64 \<Rightarrow> string \<Rightarrow> u64 \<Rightarrow> pipeline_service \<Rightarrow> pipeline_service" where
  "displace fence ident key sv =
     (case sv_activeKeyById sv ident of
        None \<Rightarrow> sv
      | Some prior \<Rightarrow>
          if prior = key then sv
          else (case sv_active sv prior of
                  None \<Rightarrow> sv
                | Some a \<Rightarrow> sv\<lparr>sv_retired := sv_retired sv @ (case pa_payload a of None \<Rightarrow> [] | Some p \<Rightarrow> [(fence, p)]),
                    sv_active := (sv_active sv)(prior := None)\<rparr>)
               \<lparr>sv_idsByKey := (sv_idsByKey sv)(prior := None)\<rparr>)"

definition publish_flight :: "u64 \<Rightarrow> u64 \<Rightarrow> pipeline_service \<Rightarrow> pipeline_service" where
  "publish_flight fence key sv =
     (case sv_inFlight sv key of
        None \<Rightarrow> sv
      | Some f \<Rightarrow>
          (case fl_future (sv_flight sv f) of
             None \<Rightarrow> sv
           | Some a \<Rightarrow>
               let sv1 =
                 (case (pa_payload a, sv_idsByKey sv key) of
                    (Some p, Some ident) \<Rightarrow>
                      let sv2 = displace fence ident key sv;
                          sv3 = (case sv_active sv2 key of
                                   Some old \<Rightarrow> sv2\<lparr>sv_retired := sv_retired sv2 @ (case pa_payload old of None \<Rightarrow> [] | Some q \<Rightarrow> [(fence, q)])\<rparr>
                                 | None \<Rightarrow> sv2)
                      in sv3\<lparr>sv_active := (sv_active sv3)(key \<mapsto> a), sv_activeKeyById := (sv_activeKeyById sv3)(ident \<mapsto> key)\<rparr>
                  | (_, Some ident) \<Rightarrow>
                      if sv_active sv key = None then sv\<lparr>sv_idsByKey := (sv_idsByKey sv)(key := None)\<rparr> else sv
                  | (_, None) \<Rightarrow> sv)
               in sv1\<lparr>sv_inFlight := (sv_inFlight sv1)(key := None)\<rparr>))"

definition publish_ready :: "u64 \<Rightarrow> u64 list \<Rightarrow> pipeline_service \<Rightarrow> pipeline_service" where
  "publish_ready fence order sv = fold (publish_flight fence) order sv"

definition find_pipeline :: "u64 \<Rightarrow> pipeline_service \<Rightarrow> pipeline_artifact" where
  "find_pipeline key sv = (case sv_active sv key of None \<Rightarrow> no_artifact | Some a \<Rightarrow> a)"

definition retire_pipelines :: "u64 \<Rightarrow> pipeline_service \<Rightarrow> pipeline_service" where
  "retire_pipelines completed sv = sv\<lparr>sv_retired := dropWhile (\<lambda>r. fst r \<le> completed) (sv_retired sv)\<rparr>"

inductive service_step :: "pipeline_service \<Rightarrow> pipeline_service \<Rightarrow> bool" where
  request: "service_step sv (request_pipeline recipe callback accepts sv)"
| build: "t \<in> set (sv_tasks sv) \<Longrightarrow> service_step sv (run_build t call sv)"
| finishing: "f \<in> set (sv_finishing sv) \<Longrightarrow> service_step sv (finish_flight f sv)"
| publish: "distinct order \<Longrightarrow> set order = dom (sv_inFlight sv) \<Longrightarrow> service_step sv (publish_ready fence order sv)"
| retire: "service_step sv (retire_pipelines completed sv)"

end
