(* ===== verification/PipelineProps.thy ===== *)
theory PipelineProps
  imports Pipelines
begin

text \<open>
  The pipeline service over any run: every callback is called exactly once, with an artifact of the
  key it asked for; and at most one pipeline is active per recipe id.
\<close>

section \<open>The invariants\<close>

definition flight_ok :: "pipeline_service \<Rightarrow> nat \<Rightarrow> bool" where
  "flight_ok sv f \<longleftrightarrow>
     (case fl_future (sv_flight sv f) of
        None \<Rightarrow> f \<in> bt_flight ` set (sv_tasks sv) \<and> f \<notin> set (sv_finishing sv) \<and> \<not> fl_done (sv_flight sv f)
      | Some a \<Rightarrow> pa_key a = sv_flightKey sv f \<and> f \<notin> bt_flight ` set (sv_tasks sv) \<and> (fl_done (sv_flight sv f) \<longleftrightarrow> f \<notin> set (sv_finishing sv))) \<and>
     (fl_done (sv_flight sv f) \<longrightarrow> fl_callbacks (sv_flight sv f) = []) \<and> \<not> fl_failed (sv_flight sv f)"

definition flights_ok :: "pipeline_service \<Rightarrow> bool" where
  "flights_ok sv \<longleftrightarrow> (\<forall>f < sv_flights sv. flight_ok sv f) \<and>
     (\<forall>t \<in> set (sv_tasks sv). bt_flight t < sv_flights sv \<and> bt_key t = sv_flightKey sv (bt_flight t)) \<and> distinct (map bt_flight (sv_tasks sv)) \<and>
     (\<forall>f \<in> set (sv_finishing sv). f < sv_flights sv) \<and> distinct (sv_finishing sv) \<and>
     (\<forall>k f. sv_inFlight sv k = Some f \<longrightarrow> f < sv_flights sv \<and> sv_flightKey sv f = k)"

definition ids_ok :: "pipeline_service \<Rightarrow> bool" where
  "ids_ok sv \<longleftrightarrow>
     (\<forall>k a. sv_active sv k = Some a \<longrightarrow> pa_key a = k \<and> pa_payload a \<noteq> None \<and> sv_inFlight sv k = None \<and>
        (\<exists>ident. sv_idsByKey sv k = Some ident \<and> sv_activeKeyById sv ident = Some k)) \<and>
     (\<forall>ident k. sv_activeKeyById sv ident = Some k \<longrightarrow> sv_active sv k \<noteq> None \<and> sv_idsByKey sv k = Some ident) \<and>
     (\<forall>k. sv_idsByKey sv k = None \<longleftrightarrow> sv_active sv k = None \<and> sv_inFlight sv k = None)"

definition queued :: "pipeline_service \<Rightarrow> nat \<Rightarrow> (nat \<times> u64) multiset" where
  "queued sv f = mset (map (\<lambda>cb. (cb, sv_flightKey sv f)) (fl_callbacks (sv_flight sv f)))"

definition called_for :: "(nat \<times> pipeline_artifact) list \<Rightarrow> (nat \<times> u64) multiset" where
  "called_for calls = mset (map (\<lambda>(cb, a). (cb, pa_key a)) calls)"

definition answered :: "pipeline_service \<Rightarrow> bool" where
  "answered sv \<longleftrightarrow> mset (sv_asked sv) = called_for (sv_calls sv) + (\<Sum>f < sv_flights sv. queued sv f)"

definition service_ok :: "pipeline_service \<Rightarrow> bool" where
  "service_ok sv \<longleftrightarrow> flights_ok sv \<and> ids_ok sv \<and> answered sv"

lemma new_service_ok: "service_ok new_service"
  by (simp add: service_ok_def flights_ok_def ids_ok_def answered_def called_for_def new_service_def)

section \<open>Each operation\<close>

lemma flight_ok_cong:
  assumes "sv_flight sv' f = sv_flight sv f" "sv_flightKey sv' f = sv_flightKey sv f"
    and "f \<in> bt_flight ` set (sv_tasks sv') \<longleftrightarrow> f \<in> bt_flight ` set (sv_tasks sv)" "f \<in> set (sv_finishing sv') \<longleftrightarrow> f \<in> set (sv_finishing sv)"
  shows "flight_ok sv' f = flight_ok sv f"
  unfolding flight_ok_def assms ..

lemma flights_ok_cong:
  assumes "sv_flight sv' = sv_flight sv" "sv_flightKey sv' = sv_flightKey sv" "sv_tasks sv' = sv_tasks sv"
    "sv_finishing sv' = sv_finishing sv" "sv_flights sv' = sv_flights sv"
    "\<And>k f. sv_inFlight sv' k = Some f \<Longrightarrow> sv_inFlight sv k = Some f"
  shows "flights_ok sv \<Longrightarrow> flights_ok sv'"
proof -
  assume ok: "flights_ok sv"
  have "flight_ok sv' f = flight_ok sv f" for f using assms by (intro flight_ok_cong) simp_all
  moreover have "f < sv_flights sv \<and> sv_flightKey sv f = k" if "sv_inFlight sv' k = Some f" for k f
    using ok assms(6) [OF that] by (simp add: flights_ok_def)
  ultimately show ?thesis using ok assms(1-5) by (simp add: flights_ok_def)
qed

text \<open>A flight that changes, the rest staying.\<close>

lemma attach_to_ok:
  assumes "flights_ok sv" "f < sv_flights sv"
  shows "flights_ok (attach_to callback f sv) \<and>
     called_for (sv_calls (attach_to callback f sv)) + (\<Sum>i < sv_flights sv. queued (attach_to callback f sv) i) =
     called_for (sv_calls sv) + (\<Sum>i < sv_flights sv. queued sv i) + (case callback of None \<Rightarrow> {#} | Some cb \<Rightarrow> {#(cb, sv_flightKey sv f)#})"
proof (cases callback)
  case None
  have "attach_to None f sv = sv" by (simp add: attach_to_def attach_def upd_flight_def)
  with None assms show ?thesis by simp
next
  case (Some cb)
  have ok: "flight_ok sv f" using assms by (simp add: flights_ok_def)
  show ?thesis
  proof (cases "fl_done (sv_flight sv f)")
    case True
    then obtain a where a: "fl_future (sv_flight sv f) = Some a" "pa_key a = sv_flightKey sv f" "\<not> fl_failed (sv_flight sv f)"
      using ok by (auto simp: flight_ok_def split: option.splits)
    then have "attach_to callback f sv = sv\<lparr>sv_calls := (cb, a) # sv_calls sv\<rparr>"
      using True by (simp add: attach_to_def attach_def upd_flight_def Some flight_result_def)
    moreover have "flights_ok (sv\<lparr>sv_calls := (cb, a) # sv_calls sv\<rparr>)" by (rule flights_ok_cong [OF _ _ _ _ _ _ assms(1)]) simp_all
    ultimately show ?thesis using a(2) Some by (simp add: queued_def called_for_def)
  next
    case False
    let ?fl = "(sv_flight sv f)\<lparr>fl_callbacks := fl_callbacks (sv_flight sv f) @ [cb]\<rparr>"
    have eq: "attach_to callback f sv = upd_flight f ?fl sv"
      using False by (simp add: attach_to_def attach_def upd_flight_def Some)
    have "flight_ok (upd_flight f ?fl sv) i = flight_ok sv i" for i
      using False by (auto simp: flight_ok_def upd_flight_def split: option.splits)
    then have "flights_ok (upd_flight f ?fl sv)" using assms(1) by (simp add: flights_ok_def upd_flight_def)
    moreover have "(\<Sum>i < sv_flights sv. queued (upd_flight f ?fl sv) i) + queued sv f =
        (\<Sum>i < sv_flights sv. queued sv i) + queued (upd_flight f ?fl sv) f"
      by (rule sum_one_changed [OF assms(2)]) (simp add: queued_def upd_flight_def)
    moreover have "queued (upd_flight f ?fl sv) f = queued sv f + {#(cb, sv_flightKey sv f)#}"
      by (simp add: queued_def upd_flight_def)
    ultimately show ?thesis unfolding eq by (simp add: Some upd_flight_def called_for_def)
  qed
qed

lemma attach_to_same:
  "sv_inFlight (attach_to c f sv) = sv_inFlight sv" "sv_active (attach_to c f sv) = sv_active sv"
  "sv_idsByKey (attach_to c f sv) = sv_idsByKey sv" "sv_activeKeyById (attach_to c f sv) = sv_activeKeyById sv"
  "sv_asked (attach_to c f sv) = sv_asked sv" "sv_flights (attach_to c f sv) = sv_flights sv"
  "sv_flightKey (attach_to c f sv) = sv_flightKey sv" "sv_tasks (attach_to c f sv) = sv_tasks sv"
  "sv_finishing (attach_to c f sv) = sv_finishing sv"
  by (simp_all add: attach_to_def upd_flight_def split: prod.splits)

lemma ids_ok_cong:
  "sv_active sv' = sv_active sv \<Longrightarrow> sv_inFlight sv' = sv_inFlight sv \<Longrightarrow> sv_idsByKey sv' = sv_idsByKey sv \<Longrightarrow>
     sv_activeKeyById sv' = sv_activeKeyById sv \<Longrightarrow> ids_ok sv' = ids_ok sv"
  by (simp add: ids_ok_def)

text \<open>A flight's promise is set: it is no task's any more, and waits for its finish.\<close>

lemma set_flight_ok:
  assumes tasks: "\<forall>i < sv_flights sv. i \<noteq> f \<longrightarrow> flight_ok sv i"
    and f: "f < sv_flights sv" "f \<notin> bt_flight ` set (sv_tasks sv)" "f \<notin> set (sv_finishing sv)" "\<not> fl_done (sv_flight sv f)" "\<not> fl_failed (sv_flight sv f)"
    and rest: "\<forall>t \<in> set (sv_tasks sv). bt_flight t < sv_flights sv \<and> bt_key t = sv_flightKey sv (bt_flight t)" "distinct (map bt_flight (sv_tasks sv))"
      "\<forall>f \<in> set (sv_finishing sv). f < sv_flights sv" "distinct (sv_finishing sv)"
      "\<forall>k f. sv_inFlight sv k = Some f \<longrightarrow> f < sv_flights sv \<and> sv_flightKey sv f = k"
    and key: "pa_key a = sv_flightKey sv f"
  shows "flights_ok (set_flight f a sv)"
proof -
  have "flight_ok (set_flight f a sv) i" if "i < sv_flights sv" for i
    using that tasks f key by (cases "i = f") (auto simp: flight_ok_def set_flight_def upd_flight_def set_value_def split: option.splits)
  then show ?thesis using f rest by (simp add: flights_ok_def set_flight_def upd_flight_def)
qed

lemma set_flight_queued: "queued (set_flight f a sv) i = queued sv i"
  by (simp add: queued_def set_flight_def upd_flight_def set_value_def)

lemma call_now_answered:
  "pa_key a = k \<Longrightarrow> called_for (sv_calls (call_now callback a sv)) =
     called_for (sv_calls sv) + (case callback of None \<Rightarrow> {#} | Some cb \<Rightarrow> {#(cb, k)#})"
  by (cases callback) (simp_all add: call_now_def called_for_def)

lemma note_asked_simps:
  "mset (sv_asked (note_asked callback key sv)) = mset (sv_asked sv) + (case callback of None \<Rightarrow> {#} | Some cb \<Rightarrow> {#(cb, key)#})"
  "sv_calls (note_asked callback key sv) = sv_calls sv" "sv_flight (note_asked callback key sv) = sv_flight sv"
  "sv_flights (note_asked callback key sv) = sv_flights sv" "sv_active (note_asked callback key sv) = sv_active sv"
  "sv_inFlight (note_asked callback key sv) = sv_inFlight sv" "sv_flightKey (note_asked callback key sv) = sv_flightKey sv"
  "sv_idsByKey (note_asked callback key sv) = sv_idsByKey sv" "sv_activeKeyById (note_asked callback key sv) = sv_activeKeyById sv"
  "sv_tasks (note_asked callback key sv) = sv_tasks sv" "sv_finishing (note_asked callback key sv) = sv_finishing sv"
  by (cases callback; simp add: note_asked_def)+

lemma note_asked_ok:
  "flights_ok sv \<Longrightarrow> flights_ok (note_asked callback key sv)" "ids_ok sv \<Longrightarrow> ids_ok (note_asked callback key sv)"
  "queued (note_asked callback key sv) = queued sv"
  using flights_ok_cong [of "note_asked callback key sv" sv] ids_ok_cong [of "note_asked callback key sv" sv]
  by (simp_all add: note_asked_simps queued_def fun_eq_iff)

text \<open>A new flight, with its requester's callback queued.\<close>

definition with_callback :: "u64 \<Rightarrow> string \<Rightarrow> nat option \<Rightarrow> pipeline_service \<Rightarrow> pipeline_service" where
  "with_callback key ident callback sv = upd_flight (sv_flights sv)
     (new_flight\<lparr>fl_callbacks := (case callback of None \<Rightarrow> [] | Some cb \<Rightarrow> [cb])\<rparr>) (opened key ident sv)"

lemma attach_opened: "attach_to callback (sv_flights sv) (opened key ident sv) = with_callback key ident callback sv"
  by (cases callback) (simp_all add: attach_to_def attach_def opened_def with_callback_def upd_flight_def new_flight_def)

lemma with_callback_simps:
  "sv_flights (with_callback key ident callback sv) = sv_flights sv + 1"
  "sv_tasks (with_callback key ident callback sv) = sv_tasks sv" "sv_finishing (with_callback key ident callback sv) = sv_finishing sv"
  "sv_calls (with_callback key ident callback sv) = sv_calls sv" "sv_asked (with_callback key ident callback sv) = sv_asked sv"
  "sv_active (with_callback key ident callback sv) = sv_active sv" "sv_activeKeyById (with_callback key ident callback sv) = sv_activeKeyById sv"
  "sv_inFlight (with_callback key ident callback sv) = (sv_inFlight sv)(key \<mapsto> sv_flights sv)"
  "sv_idsByKey (with_callback key ident callback sv) = (sv_idsByKey sv)(key \<mapsto> ident)"
  "sv_flightKey (with_callback key ident callback sv) = (sv_flightKey sv)(sv_flights sv := key)"
  "sv_flight (with_callback key ident callback sv) = (sv_flight sv)(sv_flights sv :=
     new_flight\<lparr>fl_callbacks := (case callback of None \<Rightarrow> [] | Some cb \<Rightarrow> [cb])\<rparr>)"
  by (simp_all add: with_callback_def opened_def upd_flight_def)

lemma new_flight_ok:
  assumes ok: "flights_ok sv" "ids_ok sv" and free: "sv_active sv key = None" "sv_inFlight sv key = None"
    and asked: "mset (sv_asked sv) = called_for (sv_calls sv) + (\<Sum>f < sv_flights sv. queued sv f) +
       (case callback of None \<Rightarrow> {#} | Some cb \<Rightarrow> {#(cb, key)#})"
  shows "service_ok (let sv2 = attach_to callback (sv_flights sv) (opened key ident sv) in
     if accepts then sv2\<lparr>sv_tasks := \<lparr>bt_flight = sv_flights sv, bt_key = key, bt_generation = g, bt_build = b\<rparr> # sv_tasks sv2\<rparr>
     else set_flight (sv_flights sv) \<lparr>pa_key = key, pa_generation = g, pa_payload = None, pa_error = err\<rparr> sv2)" (is "service_ok ?sv")
proof -
  let ?n = "sv_flights sv"
  let ?sv2 = "with_callback key ident callback sv"
  have old: "flight_ok ?sv2 i" if "i < ?n" for i
    using ok(1) that flight_ok_cong [of ?sv2 i sv] by (simp add: flights_ok_def with_callback_simps)
  have new: "?n \<notin> bt_flight ` set (sv_tasks sv)" "?n \<notin> set (sv_finishing sv)"
    using ok(1) by (auto simp: flights_ok_def)
  have "sv_activeKeyById sv i \<noteq> Some key" for i using ok(2) free(1) unfolding ids_ok_def by metis
  then have ids: "ids_ok ?sv2" using ok(2) free by (auto simp: ids_ok_def with_callback_simps)
  have queue: "(\<Sum>f < Suc ?n. queued ?sv2 f) = (\<Sum>f < ?n. queued sv f) + (case callback of None \<Rightarrow> {#} | Some cb \<Rightarrow> {#(cb, key)#})"
    by (cases callback) (simp_all add: queued_def with_callback_simps)
  have keys: "\<forall>t \<in> set (sv_tasks ?sv2). bt_flight t < sv_flights ?sv2 \<and> bt_key t = sv_flightKey ?sv2 (bt_flight t)"
    "distinct (map bt_flight (sv_tasks ?sv2))" "\<forall>f \<in> set (sv_finishing ?sv2). f < sv_flights ?sv2" "distinct (sv_finishing ?sv2)"
    "\<forall>k f. sv_inFlight ?sv2 k = Some f \<longrightarrow> f < sv_flights ?sv2 \<and> sv_flightKey ?sv2 f = k"
    using ok(1) by (auto simp: flights_ok_def with_callback_simps less_Suc_eq)
  show ?thesis
  proof (cases accepts)
    case True
    let ?t = "\<lparr>bt_flight = ?n, bt_key = key, bt_generation = g, bt_build = b\<rparr>"
    let ?sv3 = "?sv2\<lparr>sv_tasks := ?t # sv_tasks ?sv2\<rparr>"
    have "flight_ok ?sv3 i" if "i < Suc ?n" for i
    proof (cases "i = ?n")
      case False
      then show ?thesis using old [of i] that flight_ok_cong [of ?sv3 i ?sv2] by auto
    qed (use new in \<open>simp add: flight_ok_def with_callback_simps new_flight_def\<close>)
    moreover have "bt_key t = sv_flightKey ?sv3 (bt_flight t)" if "t \<in> set (sv_tasks ?sv3)" for t
      using that keys(1) by (auto simp: with_callback_simps)
    ultimately have "flights_ok ?sv3" using keys new by (auto simp: flights_ok_def with_callback_simps)
    moreover have "answered ?sv3" using asked queue by (simp add: answered_def queued_def with_callback_simps add_ac)
    moreover have "ids_ok ?sv3" using ids by (simp add: ids_ok_def)
    ultimately show ?thesis using True by (simp add: service_ok_def attach_opened Let_def)
  next
    case False
    let ?a = "\<lparr>pa_key = key, pa_generation = g, pa_payload = None, pa_error = err\<rparr>"
    have "flights_ok (set_flight ?n ?a ?sv2)"
      by (rule set_flight_ok) (use old keys new in \<open>auto simp: with_callback_simps new_flight_def less_Suc_eq\<close>)
    moreover have "answered (set_flight ?n ?a ?sv2)"
      using asked queue by (simp add: answered_def set_flight_queued) (simp add: set_flight_def upd_flight_def with_callback_simps add_ac)
    moreover have "ids_ok (set_flight ?n ?a ?sv2)" using ids by (simp add: ids_ok_def set_flight_def upd_flight_def)
    ultimately show ?thesis using False by (simp add: service_ok_def attach_opened Let_def)
  qed
qed

lemma pipeline_request_ok:
  assumes "service_ok sv0"
  shows "service_ok (request_pipeline recipe callback accepts sv0)"
proof -
  define key where "key = build_key recipe"
  define sv where "sv = note_asked callback key sv0"
  let ?new = "case callback of None \<Rightarrow> {#} | Some cb \<Rightarrow> {#(cb, key)#}"
  have ok: "flights_ok sv" "ids_ok sv" using assms by (simp_all add: sv_def note_asked_ok service_ok_def)
  have asked: "mset (sv_asked sv) = called_for (sv_calls sv) + (\<Sum>f < sv_flights sv. queued sv f) + ?new"
    using assms by (simp add: sv_def note_asked_ok note_asked_simps service_ok_def answered_def)
  show ?thesis
  proof (cases "sv_active sv key")
    case (Some a)
    then have eq: "request_pipeline recipe callback accepts sv0 = call_now callback a sv"
      by (simp add: request_pipeline_def key_def [symmetric] sv_def [symmetric] Let_def)
    have "pa_key a = key" using ok(2) Some by (simp add: ids_ok_def)
    then have "answered (call_now callback a sv)" using asked call_now_answered [of a key callback sv]
      by (cases callback) (simp_all add: answered_def call_now_def queued_def add_ac)
    moreover have "flights_ok (call_now callback a sv)" by (rule flights_ok_cong [OF _ _ _ _ _ _ ok(1)]) (auto simp: call_now_def split: option.splits)
    moreover have "ids_ok (call_now callback a sv)" using ok(2) by (cases callback) (simp_all add: call_now_def ids_ok_def)
    ultimately show ?thesis by (simp add: eq service_ok_def)
  next
    case None
    note inactive = None
    show ?thesis
    proof (cases "sv_inFlight sv key")
      case (Some f)
      then have eq: "request_pipeline recipe callback accepts sv0 = attach_to callback f sv"
        using inactive by (simp add: request_pipeline_def key_def [symmetric] sv_def [symmetric] Let_def)
      have f: "f < sv_flights sv" "sv_flightKey sv f = key" using ok(1) Some by (auto simp: flights_ok_def)
      have "ids_ok (attach_to callback f sv)" using ok(2) ids_ok_cong attach_to_same by metis
      then show ?thesis using attach_to_ok [OF ok(1) f(1), of callback, unfolded f(2)] asked
        by (simp add: eq service_ok_def answered_def attach_to_same)
    next
      case None
      show ?thesis
        using new_flight_ok [OF ok inactive None asked] inactive None
        by (simp add: request_pipeline_def key_def [symmetric] sv_def [symmetric] Let_def)
    qed
  qed
qed

lemma run_build_ok:
  assumes "service_ok sv" "t \<in> set (sv_tasks sv)"
  shows "service_ok (run_build t call sv)"
proof -
  let ?sv = "sv\<lparr>sv_tasks := remove1 t (sv_tasks sv)\<rparr>"
  let ?f = "bt_flight t"
  have ok: "flights_ok sv" using assms(1) by (simp add: service_ok_def)
  have f: "?f < sv_flights sv" "bt_key t = sv_flightKey sv ?f" "distinct (map bt_flight (sv_tasks sv))"
    using ok assms(2) by (auto simp: flights_ok_def)
  have "flight_ok sv ?f" using ok f(1) by (simp add: flights_ok_def)
  then have unset: "?f \<notin> set (sv_finishing sv)" "\<not> fl_done (sv_flight sv ?f)" "\<not> fl_failed (sv_flight sv ?f)"
    using assms(2) by (auto simp: flight_ok_def split: option.splits)
  have gone: "bt_flight ` set (remove1 t (sv_tasks sv)) = bt_flight ` set (sv_tasks sv) - {?f}"
  proof -
    have "distinct (sv_tasks sv)" "inj_on bt_flight (set (sv_tasks sv))" using f(3) by (simp_all add: distinct_map)
    then show ?thesis using assms(2) by (auto simp: inj_on_def)
  qed
  have "flight_ok ?sv i" if "i < sv_flights sv" "i \<noteq> ?f" for i
    using ok that gone flight_ok_cong [of ?sv i sv] by (simp add: flights_ok_def)
  moreover have "distinct (map bt_flight (remove1 t (sv_tasks sv)))"
    using f(3) by (simp add: distinct_map inj_on_diff)
  moreover have "bt_flight u < sv_flights sv \<and> bt_key u = sv_flightKey sv (bt_flight u)" if "u \<in> set (remove1 t (sv_tasks sv))" for u
    using ok that set_remove1_subset [of t "sv_tasks sv"] by (auto simp: flights_ok_def)
  moreover have "pa_key (built_artifact t call) = sv_flightKey sv ?f"
    using f(2) by (simp add: built_artifact_def Let_def split: factory_call.splits option.splits)
  ultimately have "flights_ok (set_flight ?f (built_artifact t call) ?sv)"
    using f unset gone ok by (intro set_flight_ok) (simp_all add: flights_ok_def)
  moreover have "answered (set_flight ?f (built_artifact t call) ?sv)"
    using assms(1) by (simp add: service_ok_def answered_def set_flight_queued) (simp add: set_flight_def upd_flight_def queued_def)
  moreover have "ids_ok (set_flight ?f (built_artifact t call) ?sv)"
    using assms(1) ids_ok_cong [of "set_flight ?f (built_artifact t call) ?sv" sv] by (simp add: service_ok_def set_flight_def upd_flight_def)
  ultimately show ?thesis by (simp add: service_ok_def run_build_def)
qed

lemma finish_flight_ok:
  assumes "service_ok sv" "f \<in> set (sv_finishing sv)"
  shows "service_ok (finish_flight f sv)"
proof -
  have ok: "flights_ok sv" using assms(1) by (simp add: service_ok_def)
  have f: "f < sv_flights sv" "distinct (sv_finishing sv)" using ok assms(2) by (auto simp: flights_ok_def)
  then have "flight_ok sv f" using ok by (simp add: flights_ok_def)
  then obtain a where a: "fl_future (sv_flight sv f) = Some a" "pa_key a = sv_flightKey sv f" "\<not> fl_failed (sv_flight sv f)"
      "f \<notin> bt_flight ` set (sv_tasks sv)"
    using assms(2) by (auto simp: flight_ok_def split: option.splits)
  let ?sv = "finish_flight f sv"
  let ?fl = "(sv_flight sv f)\<lparr>fl_done := True, fl_callbacks := []\<rparr>"
  have eq: "?sv = sv\<lparr>sv_flight := (sv_flight sv)(f := ?fl), sv_finishing := remove1 f (sv_finishing sv),
      sv_calls := map (\<lambda>cb. (cb, a)) (fl_callbacks (sv_flight sv f)) @ sv_calls sv\<rparr>"
    using a by (simp add: finish_flight_def finish_def flight_result_def upd_flight_def)
  have fields: "sv_flight ?sv = (sv_flight sv)(f := ?fl)" "sv_finishing ?sv = remove1 f (sv_finishing sv)" "sv_tasks ?sv = sv_tasks sv"
      "sv_flightKey ?sv = sv_flightKey sv" "sv_flights ?sv = sv_flights sv" "sv_inFlight ?sv = sv_inFlight sv"
      "sv_calls ?sv = map (\<lambda>cb. (cb, a)) (fl_callbacks (sv_flight sv f)) @ sv_calls sv" "sv_asked ?sv = sv_asked sv"
    by (simp_all add: eq)
  have "flight_ok ?sv i" if "i < sv_flights sv" for i
  proof (cases "i = f")
    case True
    then show ?thesis using a f by (simp add: flight_ok_def fields)
  next
    case False
    have old: "flight_ok sv i" using ok that by (simp add: flights_ok_def)
    have "flight_ok ?sv i = flight_ok sv i" by (rule flight_ok_cong) (use False f in \<open>simp_all add: fields\<close>)
    with old show ?thesis by simp
  qed
  then have "flights_ok ?sv" using ok by (auto simp: flights_ok_def fields dest: in_set_remove1 [THEN iffD1, rotated] set_remove1_subset [THEN subsetD])
  moreover have "answered ?sv"
  proof -
    have "(\<Sum>i < sv_flights sv. queued ?sv i) + queued sv f = (\<Sum>i < sv_flights sv. queued sv i) + queued ?sv f"
      by (rule sum_one_changed [OF f(1)]) (simp add: queued_def fields)
    moreover have "queued ?sv f = {#}" by (simp add: queued_def fields)
    moreover have "called_for (sv_calls ?sv) = queued sv f + called_for (sv_calls sv)"
      by (simp add: called_for_def queued_def fields comp_def a(2))
    ultimately show ?thesis using assms(1) by (simp add: service_ok_def answered_def fields add_ac)
  qed
  moreover have "ids_ok ?sv" using assms(1) ids_ok_cong [of ?sv sv] by (simp add: service_ok_def eq)
  ultimately show ?thesis by (simp add: service_ok_def)
qed

text \<open>A publication changes no flight.\<close>

definition same_flights :: "pipeline_service \<Rightarrow> pipeline_service \<Rightarrow> bool" where
  "same_flights sv sv' \<longleftrightarrow> sv_flight sv' = sv_flight sv \<and> sv_flightKey sv' = sv_flightKey sv \<and> sv_tasks sv' = sv_tasks sv \<and>
     sv_finishing sv' = sv_finishing sv \<and> sv_flights sv' = sv_flights sv \<and> sv_calls sv' = sv_calls sv \<and> sv_asked sv' = sv_asked sv"

lemma displace_same: "same_flights sv (displace fence ident key sv)" "sv_inFlight (displace fence ident key sv) = sv_inFlight sv"
  by (simp_all add: same_flights_def displace_def split: option.splits)

lemma publish_flight_same:
  "same_flights sv (publish_flight fence key sv) \<and> (\<forall>k. k \<noteq> key \<longrightarrow> sv_inFlight (publish_flight fence key sv) k = sv_inFlight sv k)"
proof -
  have active: "same_flights sv (case sv_active (displace fence i key sv) key of
        Some old \<Rightarrow> (displace fence i key sv)\<lparr>sv_retired := sv_retired (displace fence i key sv) @ (case pa_payload old of None \<Rightarrow> [] | Some q \<Rightarrow> [(fence, q)])\<rparr>
      | None \<Rightarrow> displace fence i key sv)" for i
    using displace_same(1) [of sv fence i key] by (simp add: same_flights_def split: option.splits)
  show ?thesis
    using active displace_same unfolding publish_flight_def Let_def
    by (auto simp: same_flights_def split: option.splits)
qed

text \<open>The pipeline of a recipe id gives way to the one published for it.\<close>

lemma activated_ok:
  assumes ok: "ids_ok sv" and key: "sv_active sv key = None" "sv_inFlight sv key \<noteq> None" "sv_idsByKey sv key = Some ident"
    and a: "pa_key a = key" "pa_payload a \<noteq> None"
    and active: "\<And>k. sv_active sv' k = (if k = key then Some a else if sv_activeKeyById sv ident = Some k then None else sv_active sv k)"
    and ids: "\<And>k. sv_idsByKey sv' k = (if sv_activeKeyById sv ident = Some k then None else sv_idsByKey sv k)"
    and names: "sv_activeKeyById sv' = (sv_activeKeyById sv)(ident \<mapsto> key)"
    and flying: "sv_inFlight sv' = (sv_inFlight sv)(key := None)"
  shows "ids_ok sv'"
proof -
  have A: "\<And>k a. sv_active sv k = Some a \<Longrightarrow> pa_key a = k \<and> pa_payload a \<noteq> None \<and> sv_inFlight sv k = None \<and>
        (\<exists>ident. sv_idsByKey sv k = Some ident \<and> sv_activeKeyById sv ident = Some k)"
    and B: "\<And>ident k. sv_activeKeyById sv ident = Some k \<Longrightarrow> sv_active sv k \<noteq> None \<and> sv_idsByKey sv k = Some ident"
    and C: "\<And>k. sv_idsByKey sv k = None \<longleftrightarrow> sv_active sv k = None \<and> sv_inFlight sv k = None"
    using ok unfolding ids_ok_def by blast+
  have other: "sv_activeKeyById sv i \<noteq> Some key" for i using B key(1) by blast
  have "pa_key b = k \<and> pa_payload b \<noteq> None \<and> sv_inFlight sv' k = None \<and>
      (\<exists>i. sv_idsByKey sv' k = Some i \<and> sv_activeKeyById sv' i = Some k)" if b: "sv_active sv' k = Some b" for k b
  proof (cases "k = key")
    case True
    then show ?thesis using b a key other active flying names ids by auto
  next
    case False
    then have k: "sv_active sv k = Some b" "sv_activeKeyById sv ident \<noteq> Some k" using b active by (auto split: if_splits)
    then obtain i where i: "sv_idsByKey sv k = Some i" "sv_activeKeyById sv i = Some k" using A by blast
    then have "i \<noteq> ident" using k(2) by blast
    then show ?thesis using A [OF k(1)] i k(2) False ids names flying by auto
  qed
  moreover have "sv_active sv' k \<noteq> None \<and> sv_idsByKey sv' k = Some i" if i: "sv_activeKeyById sv' i = Some k" for i k
  proof (cases "i = ident")
    case True
    then show ?thesis using i names active ids key other by auto
  next
    case False
    then have "sv_activeKeyById sv i = Some k" using i names by simp
    moreover from this have "sv_activeKeyById sv ident \<noteq> Some k" using B False by (metis option.inject)
    ultimately show ?thesis using B [of i k] active ids other by auto
  qed
  moreover have "sv_idsByKey sv' k = None \<longleftrightarrow> sv_active sv' k = None \<and> sv_inFlight sv' k = None" for k
  proof (cases "sv_activeKeyById sv ident = Some k")
    case True
    then have "k \<noteq> key" "sv_inFlight sv k = None" using other B A by blast+
    then show ?thesis using True ids active flying by simp
  next
    case False
    then show ?thesis using C [of k] key ids active flying by (cases "k = key") simp_all
  qed
  ultimately show ?thesis unfolding ids_ok_def by blast
qed

lemma publish_flight_ids:
  assumes ok: "flights_ok sv" "ids_ok sv"
  shows "ids_ok (publish_flight fence key sv)"
proof (cases "sv_inFlight sv key")
  case None
  then show ?thesis using ok(2) by (simp add: publish_flight_def)
next
  case (Some f)
  note flying = Some
  have f: "flight_ok sv f" "sv_flightKey sv f = key" using ok(1) Some by (auto simp: flights_ok_def)
  have inactive: "sv_active sv key = None" using ok(2) Some by (cases "sv_active sv key") (auto simp: ids_ok_def)
  obtain ident where ident: "sv_idsByKey sv key = Some ident" using ok(2) Some by (cases "sv_idsByKey sv key") (auto simp: ids_ok_def)
  show ?thesis
  proof (cases "fl_future (sv_flight sv f)")
    case None
    then show ?thesis using ok(2) flying by (simp add: publish_flight_def)
  next
    case (Some a)
    then have key: "pa_key a = key" using f by (simp add: flight_ok_def)
    have other: "sv_activeKeyById sv i \<noteq> Some key" for i using ok(2) inactive unfolding ids_ok_def by metis
    show ?thesis
    proof (cases "pa_payload a")
      case None
      then have "publish_flight fence key sv = sv\<lparr>sv_idsByKey := (sv_idsByKey sv)(key := None), sv_inFlight := (sv_inFlight sv)(key := None)\<rparr>"
        using Some flying inactive ident by (simp add: publish_flight_def Let_def)
      then show ?thesis using ok(2) inactive other by (auto simp: ids_ok_def)
    next
      case payload: (Some p)
      have prior: "sv_active sv prior \<noteq> None \<and> prior \<noteq> key" if "sv_activeKeyById sv ident = Some prior" for prior
        using ok(2) that other unfolding ids_ok_def by blast
      define sv' where "sv' = publish_flight fence key sv"
      have sv': "sv_active sv' k = (if k = key then Some a else if sv_activeKeyById sv ident = Some k then None else sv_active sv k)"
          "sv_idsByKey sv' k = (if sv_activeKeyById sv ident = Some k then None else sv_idsByKey sv k)"
          "sv_activeKeyById sv' = (sv_activeKeyById sv)(ident \<mapsto> key)" "sv_inFlight sv' = (sv_inFlight sv)(key := None)" for k
        using Some payload flying inactive ident prior
        by (auto simp: sv'_def publish_flight_def Let_def displace_def split: option.splits)
      show ?thesis unfolding sv'_def [symmetric]
        by (rule activated_ok [OF ok(2) inactive _ ident key _ sv']) (use flying payload in simp_all)
    qed
  qed
qed

lemma publish_flight_ok: "service_ok sv \<Longrightarrow> service_ok (publish_flight fence key sv)"
proof -
  assume ok: "service_ok sv"
  have same: "same_flights sv (publish_flight fence key sv)" using publish_flight_same by blast
  have sub: "sv_inFlight (publish_flight fence key sv) k = Some f \<Longrightarrow> sv_inFlight sv k = Some f" for k f
    using publish_flight_same [of sv fence key] displace_same
    by (cases "k = key") (auto simp: publish_flight_def Let_def split: option.splits)
  have "flights_ok (publish_flight fence key sv)"
    using same ok sub by (intro flights_ok_cong [of "publish_flight fence key sv" sv]) (simp_all add: same_flights_def service_ok_def)
  moreover have "ids_ok (publish_flight fence key sv)" using ok publish_flight_ids by (simp add: service_ok_def)
  moreover have "answered (publish_flight fence key sv)"
    using same ok by (simp add: same_flights_def service_ok_def answered_def queued_def)
  ultimately show ?thesis by (simp add: service_ok_def)
qed

lemma service_step_ok: "service_step sv sv' \<Longrightarrow> service_ok sv \<Longrightarrow> service_ok sv'"
proof (induction rule: service_step.induct)
  case (publish order sv fence)
  have "service_ok (fold (publish_flight fence) order sv)"
    using publish(3) by (induction order arbitrary: sv) (auto intro: publish_flight_ok)
  then show ?case by (simp add: publish_ready_def)
next
  case (retire sv completed)
  then show ?case
    using flights_ok_cong [of "retire_pipelines completed sv" sv] ids_ok_cong [of "retire_pipelines completed sv" sv]
    by (simp add: service_ok_def retire_pipelines_def answered_def queued_def)
qed (auto intro: pipeline_request_ok run_build_ok finish_flight_ok)

lemma service_run_ok: "service_step\<^sup>*\<^sup>* new_service sv \<Longrightarrow> service_ok sv"
  by (induction rule: rtranclp_induct) (auto intro: new_service_ok service_step_ok)

section \<open>The contract\<close>

text \<open>
  Claim C31. In every run, whatever builds, completions and publications come between: no callback
  is called more often than it was given, each call brings an artifact of the key it asked for, and
  once no build waits and no completion is under way every callback was called.
\<close>

theorem requests_answered_once:
  assumes "service_step\<^sup>*\<^sup>* new_service sv"
  shows "called_for (sv_calls sv) \<subseteq># mset (sv_asked sv) \<and>
     (sv_tasks sv = [] \<and> sv_finishing sv = [] \<longrightarrow> called_for (sv_calls sv) = mset (sv_asked sv))"
proof -
  have ok: "flights_ok sv" "answered sv" using service_run_ok [OF assms] by (simp_all add: service_ok_def)
  have "queued sv f = {#}" if "sv_tasks sv = []" "sv_finishing sv = []" "f < sv_flights sv" for f
  proof -
    have "flight_ok sv f" using ok(1) that(3) by (simp add: flights_ok_def)
    then show ?thesis using that by (auto simp: flight_ok_def queued_def split: option.splits)
  qed
  then show ?thesis using ok(2) by (auto simp: answered_def)
qed

text \<open>
  Claim C32. In every run: no two active pipelines have the same recipe id, an active pipeline is of
  its key, has a payload and is not being built, and \<open>Find\<close> gives exactly the active ones.
\<close>

theorem one_pipeline_per_id:
  assumes "service_step\<^sup>*\<^sup>* new_service sv"
  shows "(\<forall>k l. sv_active sv k \<noteq> None \<and> sv_active sv l \<noteq> None \<and> sv_idsByKey sv k = sv_idsByKey sv l \<longrightarrow> k = l) \<and>
     (\<forall>k. sv_active sv k \<noteq> None \<longleftrightarrow> pa_payload (find_pipeline k sv) \<noteq> None) \<and>
     (\<forall>k. sv_active sv k \<noteq> None \<longrightarrow> pa_key (find_pipeline k sv) = k \<and> sv_inFlight sv k = None)"
proof -
  have ok: "ids_ok sv" using service_run_ok [OF assms] by (simp add: service_ok_def)
  have "k = l" if "sv_active sv k \<noteq> None" "sv_active sv l \<noteq> None" "sv_idsByKey sv k = sv_idsByKey sv l" for k l
  proof -
    have name: "\<exists>ident. sv_idsByKey sv m = Some ident \<and> sv_activeKeyById sv ident = Some m" if "sv_active sv m \<noteq> None" for m
      using ok that by (auto simp: ids_ok_def)
    show ?thesis using name [OF that(1)] name [OF that(2)] that(3) by auto
  qed
  moreover have "(sv_active sv k \<noteq> None \<longleftrightarrow> pa_payload (find_pipeline k sv) \<noteq> None) \<and>
      (sv_active sv k \<noteq> None \<longrightarrow> pa_key (find_pipeline k sv) = k \<and> sv_inFlight sv k = None)" for k
    using ok by (cases "sv_active sv k") (auto simp: ids_ok_def find_pipeline_def no_artifact_def)
  ultimately show ?thesis by blast
qed

text \<open>Two requests of one recipe, its build, its completion, its publication.\<close>

definition demo_recipe :: pipeline_recipe where
  "demo_recipe = \<lparr>pr_id = ''sky'', pr_layoutKey = 1, pr_shaderKey = 2, pr_fixedFunctionKey = 3, pr_deviceKey = 4, pr_build = True\<rparr>"

lemma demo_recipe_simps: "pr_id demo_recipe = ''sky''" "pr_build demo_recipe"
  by (simp_all add: demo_recipe_def)

definition demo_task :: build_task where
  "demo_task = \<lparr>bt_flight = 0, bt_key = build_key demo_recipe, bt_generation = 1, bt_build = True\<rparr>"

definition demo_built :: pipeline_service where
  "demo_built = finish_flight 0 (run_build demo_task (Returned (Some 9))
     (request_pipeline demo_recipe (Some 6) True (request_pipeline demo_recipe (Some 5) True new_service)))"

lemma demo_first: "sv_tasks (request_pipeline demo_recipe (Some 6) True (request_pipeline demo_recipe (Some 5) True new_service)) = [demo_task]"
  by (simp add: request_pipeline_def note_asked_def new_service_def Let_def attach_to_def attach_def opened_def upd_flight_def
      new_flight_def demo_task_def demo_recipe_simps)

lemma demo_built_run: "service_step\<^sup>*\<^sup>* new_service demo_built"
proof -
  let ?asked = "request_pipeline demo_recipe (Some 6) True (request_pipeline demo_recipe (Some 5) True new_service)"
  let ?built = "run_build demo_task (Returned (Some 9)) ?asked"
  have "service_step\<^sup>*\<^sup>* new_service ?asked" by (meson rtranclp.rtrancl_into_rtrancl rtranclp.rtrancl_refl service_step.request)
  moreover have "service_step ?asked ?built" by (rule service_step.build) (simp add: demo_first)
  moreover have "service_step ?built demo_built" unfolding demo_built_def
    by (rule service_step.finishing) (simp add: run_build_def set_flight_def demo_task_def)
  ultimately show ?thesis by (meson rtranclp.rtrancl_into_rtrancl)
qed

lemma demo_built_state:
  "sv_tasks demo_built = []" "sv_finishing demo_built = []" "sv_asked demo_built = [(6, build_key demo_recipe), (5, build_key demo_recipe)]"
  "sv_inFlight demo_built = [build_key demo_recipe \<mapsto> 0]" "fl_future (sv_flight demo_built 0) = Some (built_artifact demo_task (Returned (Some 9)))"
  "sv_active demo_built = Map.empty" "sv_idsByKey demo_built (build_key demo_recipe) = Some ''sky''" "sv_activeKeyById demo_built = Map.empty"
  by (simp_all add: demo_built_def request_pipeline_def note_asked_def new_service_def Let_def attach_to_def attach_def opened_def upd_flight_def
      new_flight_def demo_task_def demo_recipe_simps run_build_def set_flight_def set_value_def finish_flight_def finish_def)

lemma requests_answered_once_witness:
  "called_for (sv_calls demo_built) = {#(5, build_key demo_recipe), (6, build_key demo_recipe)#}"
  using requests_answered_once [OF demo_built_run] by (simp add: demo_built_state)

lemma one_pipeline_per_id_witness:
  "pa_payload (find_pipeline (build_key demo_recipe) (publish_ready 3 [build_key demo_recipe] demo_built)) = Some 9 \<and>
   pa_key (find_pipeline (build_key demo_recipe) (publish_ready 3 [build_key demo_recipe] demo_built)) = build_key demo_recipe"
proof -
  let ?sv = "publish_ready 3 [build_key demo_recipe] demo_built"
  have "service_step demo_built ?sv" by (rule service_step.publish) (simp_all add: demo_built_state)
  then have run: "service_step\<^sup>*\<^sup>* new_service ?sv" using demo_built_run by (rule rtranclp.rtrancl_into_rtrancl [rotated])
  have "sv_active ?sv (build_key demo_recipe) = Some (built_artifact demo_task (Returned (Some 9)))"
    by (simp add: publish_ready_def publish_flight_def demo_built_state built_artifact_def demo_task_def displace_def)
  moreover from this have "pa_payload (find_pipeline (build_key demo_recipe) ?sv) = Some 9"
    by (simp add: find_pipeline_def built_artifact_def demo_task_def)
  ultimately show ?thesis using one_pipeline_per_id [OF run] by blast
qed

end
