(* ===== verification/RevisionAssembly.thy ===== *)
theory RevisionAssembly
  imports Prelude
begin

text \<open>
  \<^verbatim>\<open>include/ORGModuleServices/Async/RevisionAssembly.h\<close>: a coordinator seals revisions that name
  one fragment per slot, producers settle fragments from any thread, and a complete revision is
  handed to the frame. Fragments and values are numbers, a revision is its sequence number. Each
  atomic instruction of a settlement, an attach and a count is a step; a seal's checks, a
  collection and a selection are one step each (only the coordinator and the frame owner see what
  they change). The publication exchange is used by its contract: it takes every candidate, in the
  place of one not selected yet.
\<close>

section \<open>Fragments and revisions\<close>

datatype fragment_state = Pending | Ready | Failed

text \<open>The waiter list: closed by the settlement, or the revisions that wait.\<close>

datatype waiters = Closed | Waiting "nat list"

record fragment =
  fr_requirements :: "(nat \<times> nat option) list"
  fr_claimed :: bool
  fr_state :: fragment_state
  fr_value :: "nat option"
  fr_error :: "nat option"
  fr_waiters :: waiters

definition new_fragment :: "(nat \<times> nat option) list \<Rightarrow> fragment" where
  "new_fragment reqs = \<lparr>fr_requirements = reqs, fr_claimed = False, fr_state = Pending, fr_value = None, fr_error = None,
     fr_waiters = Waiting []\<rparr>"

type_synonym slots = "nat option list"

record revision =
  rv_slots :: slots
  rv_remaining :: nat
  rv_failed :: bool
  rv_error :: "nat option"

text \<open>\<open>AssembledRevision\<close>: what the frame selects.\<close>

type_synonym assembled = "nat \<times> slots"

record assembly_stats =
  an_sealed :: nat
  an_published :: nat
  an_failed :: nat
  an_superseded :: nat
  an_abandoned :: nat

record assembler =
  as_frag :: "nat \<Rightarrow> fragment"
  as_frags :: nat
  as_rev :: "nat \<Rightarrow> revision"
  as_completed :: "nat list"
  as_latest :: slots
  as_latestSequence :: nat
  as_publishedSequence :: nat
  as_pending :: "nat list"
  as_held :: "assembled option"
  as_stats :: assembly_stats
  as_ready :: "assembled option"
  as_active :: "assembled option"
  as_failures :: "(nat \<times> nat option) list"

definition new_assembler :: "nat \<Rightarrow> assembler" where
  "new_assembler slots = \<lparr>as_frag = (\<lambda>_. new_fragment []), as_frags = 0,
     as_rev = (\<lambda>_. \<lparr>rv_slots = [], rv_remaining = 0, rv_failed = False, rv_error = None\<rparr>), as_completed = [],
     as_latest = replicate slots None, as_latestSequence = 0, as_publishedSequence = 0, as_pending = [], as_held = None,
     as_stats = \<lparr>an_sealed = 0, an_published = 0, an_failed = 0, an_superseded = 0, an_abandoned = 0\<rparr>,
     as_ready = None, as_active = None, as_failures = []\<rparr>"

definition upd_frag :: "nat \<Rightarrow> (fragment \<Rightarrow> fragment) \<Rightarrow> assembler \<Rightarrow> assembler" where
  "upd_frag f g a = a\<lparr>as_frag := (as_frag a)(f := g (as_frag a f))\<rparr>"

definition upd_rev :: "nat \<Rightarrow> (revision \<Rightarrow> revision) \<Rightarrow> assembler \<Rightarrow> assembler" where
  "upd_rev r g a = a\<lparr>as_rev := (as_rev a)(r := g (as_rev a r))\<rparr>"

abbreviation state_of_frag :: "assembler \<Rightarrow> nat \<Rightarrow> fragment_state" where
  "state_of_frag a f \<equiv> fr_state (as_frag a f)"

text \<open>\<open>Value\<close> (of the resolved type) and \<open>Error\<close>.\<close>

definition fragment_value :: "fragment \<Rightarrow> nat option" where
  "fragment_value fr = (if fr_state fr = Ready then fr_value fr else None)"

definition fragment_error :: "fragment \<Rightarrow> nat option" where
  "fragment_error fr = (if fr_state fr = Failed then fr_error fr else None)"

text \<open>What a settlement brings: a value, or an error.\<close>

datatype outcome = Resolves nat | Fails nat

definition settle_fragment :: "outcome \<Rightarrow> fragment \<Rightarrow> fragment" where
  "settle_fragment out fr =
     (case out of
        Resolves v \<Rightarrow> fr\<lparr>fr_value := Some v, fr_error := None, fr_state := Ready\<rparr>
      | Fails e \<Rightarrow> fr\<lparr>fr_value := None, fr_error := Some e, fr_state := Failed\<rparr>)"

section \<open>Sealing and collecting\<close>

text \<open>The draft is the base sequence and its slots.\<close>

definition begin_draft :: "assembler \<Rightarrow> nat \<times> slots" where
  "begin_draft a = (as_latestSequence a, as_latest a)"

definition set_slot :: "nat \<Rightarrow> nat option \<Rightarrow> nat \<times> slots \<Rightarrow> (nat \<times> slots) result" where
  "set_slot slot fragment draft =
     (if slot < length (snd draft) then Inr (fst draft, (snd draft)[slot := fragment]) else Inl (OutOfRange ''vector::at''))"

definition closed_slots :: "(nat \<Rightarrow> fragment) \<Rightarrow> slots \<Rightarrow> bool" where
  "closed_slots frag slots \<longleftrightarrow> (\<forall>f \<in> set (List.map_filter id slots).
     \<forall>(slot, g) \<in> set (fr_requirements (frag f)). slot < length slots \<and> slots ! slot = g)"

text \<open>The distinct fragments, in the order of their first slots.\<close>

definition distinct_fragments :: "slots \<Rightarrow> nat list" where
  "distinct_fragments slots = rev (remdups (rev (List.map_filter id slots)))"

definition seal_draft :: "nat \<times> slots \<Rightarrow> assembler \<Rightarrow> (assembler \<times> nat \<times> nat list) result" where
  "seal_draft draft a =
     (if fst draft \<noteq> as_latestSequence a then Inl (LogicError ''RevisionAssembler::Seal: draft begun before another seal'')
      else if \<not> closed_slots (as_frag a) (snd draft)
      then Inl (LogicError ''RevisionAssembler::Seal: a fragment's required version is not in the revision'')
      else
        let fs = distinct_fragments (snd draft); r = as_latestSequence a + 1 in
        Inr (a\<lparr>as_latestSequence := r, as_latest := snd draft, as_pending := as_pending a @ [r],
              as_rev := (as_rev a)(r := \<lparr>rv_slots = snd draft, rv_remaining = length fs + 1, rv_failed = False, rv_error = None\<rparr>),
              as_stats := (as_stats a)\<lparr>an_sealed := an_sealed (as_stats a) + 1\<rparr>\<rparr>, r, fs))"

text \<open>One completed revision of the stack; \<open>newest\<close> is the newest complete one so far.\<close>

definition collect_one :: "nat \<Rightarrow> assembler \<times> nat option \<Rightarrow> assembler \<times> nat option" where
  "collect_one r st =
     (case st of (a, newest) \<Rightarrow>
        if r \<notin> set (as_pending a) then (a, newest)
        else
          let a1 = a\<lparr>as_pending := removeAll r (as_pending a)\<rparr>; stats = as_stats a in
          if rv_failed (as_rev a r)
          then (a1\<lparr>as_failures := as_failures a @ [(r, rv_error (as_rev a r))], as_stats := stats\<lparr>an_failed := an_failed stats + 1\<rparr>\<rparr>, newest)
          else if r \<le> as_publishedSequence a \<or> (\<exists>n. newest = Some n \<and> r < n)
          then (a1\<lparr>as_stats := stats\<lparr>an_superseded := an_superseded stats + 1\<rparr>\<rparr>, newest)
          else (a1\<lparr>as_stats := (if newest = None then stats else stats\<lparr>an_superseded := an_superseded stats + 1\<rparr>)\<rparr>, Some r))"

text \<open>The newest is published: older pending ones are abandoned.\<close>

definition publish_newest :: "nat option \<Rightarrow> assembler \<Rightarrow> assembler" where
  "publish_newest newest a =
     (case newest of
        None \<Rightarrow> a
      | Some r \<Rightarrow>
          let kept = filter (\<lambda>p. \<not> p < r) (as_pending a); stats = as_stats a in
          a\<lparr>as_publishedSequence := r, as_held := Some (r, rv_slots (as_rev a r)), as_pending := kept,
            as_stats := stats\<lparr>an_published := an_published stats + 1,
              an_abandoned := an_abandoned stats + (length (as_pending a) - length kept)\<rparr>\<rparr>)"

text \<open>The held one goes to the frame, in the place of one it has not selected.\<close>

definition hand_over :: "assembler \<Rightarrow> assembler" where
  "hand_over a = (case as_held a of None \<Rightarrow> a | Some held \<Rightarrow> a\<lparr>as_ready := Some held, as_held := None\<rparr>)"

definition collect :: "assembler \<Rightarrow> assembler" where
  "collect a =
     (case fold collect_one (as_completed a) (a\<lparr>as_completed := []\<rparr>, None) of
        (a1, newest) \<Rightarrow> hand_over (publish_newest newest a1))"

text \<open>\<open>TrySelect\<close>: the frame takes the ready one, accepting it or not.\<close>

definition select_ready :: "bool \<Rightarrow> assembler \<Rightarrow> assembler" where
  "select_ready accepts a =
     (case as_ready a of
        None \<Rightarrow> a
      | Some r \<Rightarrow> if accepts then a\<lparr>as_ready := None, as_active := Some r\<rparr> else a\<lparr>as_ready := None\<rparr>)"

text \<open>\<open>Get\<close> of an assembled revision.\<close>

definition get_value :: "assembler \<Rightarrow> assembled \<Rightarrow> nat \<Rightarrow> nat option" where
  "get_value a version slot =
     (if slot < length (snd version) then case snd version ! slot of None \<Rightarrow> None | Some f \<Rightarrow> fragment_value (as_frag a f) else None)"

section \<open>The threads\<close>

text \<open>
  \<open>Walk f rs\<close>: the settler of \<open>f\<close> with the waiters left; \<open>Attaching r fs\<close>: the coordinator
  with the fragments left to attach, then the seal's own count. The others are \<open>SettleWaiter\<close>
  and \<open>CountDown\<close>, for a fragment or (None) for the seal, and what comes after.
\<close>

datatype assembly_pc =
    Idle
  | Claimed nat outcome
  | Stored nat
  | Walk nat "nat list"
  | Attaching nat "nat list"
  | Noting nat nat assembly_pc
  | Erring nat nat assembly_pc
  | Counting "nat option" nat assembly_pc
  | Pushing nat assembly_pc

inductive settle_act :: "assembler \<Rightarrow> assembly_pc \<Rightarrow> assembler \<Rightarrow> assembly_pc \<Rightarrow> bool" where
  \<comment> \<open>Settle\<close>
  claim: "f < as_frags a \<Longrightarrow> \<not> fr_claimed (as_frag a f) \<Longrightarrow>
    settle_act a Idle (upd_frag f (\<lambda>fr. fr\<lparr>fr_claimed := True\<rparr>) a) (Claimed f out)"
| claimed_already: "f < as_frags a \<Longrightarrow> fr_claimed (as_frag a f) \<Longrightarrow> settle_act a Idle a Idle"
| store: "settle_act a (Claimed f out) (upd_frag f (settle_fragment out) a) (Stored f)"
| close: "fr_waiters (as_frag a f) = Waiting rs \<Longrightarrow>
    settle_act a (Stored f) (upd_frag f (\<lambda>fr. fr\<lparr>fr_waiters := Closed\<rparr>) a) (Walk f rs)"
| walk: "settle_act a (Walk f (r # rs)) a (Noting f r (Walk f rs))"
| walk_expired: "r \<notin> set (as_pending a) \<Longrightarrow> settle_act a (Walk f (r # rs)) a (Walk f rs)"
| walked: "settle_act a (Walk f []) a Idle"
  \<comment> \<open>Attach\<close>
| attach_closed: "fr_waiters (as_frag a f) = Closed \<Longrightarrow>
    settle_act a (Attaching r (f # fs)) a (Noting f r (Attaching r fs))"
| attach_push: "fr_waiters (as_frag a f) = Waiting rs \<Longrightarrow>
    settle_act a (Attaching r (f # fs)) (upd_frag f (\<lambda>fr. fr\<lparr>fr_waiters := Waiting (r # rs)\<rparr>) a) (Attaching r fs)"
| attached: "settle_act a (Attaching r []) a (Counting None r Idle)"

text \<open>\<open>SettleWaiter\<close> and \<open>CountDown\<close>.\<close>

inductive count_act :: "assembler \<Rightarrow> assembly_pc \<Rightarrow> assembler \<Rightarrow> assembly_pc \<Rightarrow> bool" where
  note_ready: "state_of_frag a f \<noteq> Failed \<Longrightarrow> count_act a (Noting f r k) a (Counting (Some f) r k)"
| note_failed: "state_of_frag a f = Failed \<Longrightarrow> \<not> rv_failed (as_rev a r) \<Longrightarrow>
    count_act a (Noting f r k) (upd_rev r (\<lambda>rv. rv\<lparr>rv_failed := True\<rparr>) a) (Erring f r k)"
| note_again: "state_of_frag a f = Failed \<Longrightarrow> rv_failed (as_rev a r) \<Longrightarrow> count_act a (Noting f r k) a (Counting (Some f) r k)"
| err: "count_act a (Erring f r k) (upd_rev r (\<lambda>rv. rv\<lparr>rv_error := fragment_error (as_frag a f)\<rparr>) a) (Counting (Some f) r k)"
| count: "rv_remaining (as_rev a r) \<noteq> 1 \<Longrightarrow>
    count_act a (Counting x r k) (upd_rev r (\<lambda>rv. rv\<lparr>rv_remaining := rv_remaining rv - 1\<rparr>) a) k"
| count_last: "rv_remaining (as_rev a r) = 1 \<Longrightarrow>
    count_act a (Counting x r k) (upd_rev r (\<lambda>rv. rv\<lparr>rv_remaining := rv_remaining rv - 1\<rparr>) a) (Pushing r k)"
| push: "count_act a (Pushing r k) (a\<lparr>as_completed := r # as_completed a\<rparr>) k"

type_synonym assembly_sys = "assembler \<times> assembly_pc list"

text \<open>Thread 0 is the coordinator's; the frame owner selects, and anyone makes fragments.\<close>

inductive assembly_step :: "assembly_sys \<Rightarrow> assembly_sys \<Rightarrow> bool" where
  settles: "i < length ts \<Longrightarrow> settle_act a (ts ! i) b pc \<Longrightarrow> assembly_step (a, ts) (b, ts[i := pc])"
| counts: "i < length ts \<Longrightarrow> count_act a (ts ! i) b pc \<Longrightarrow> assembly_step (a, ts) (b, ts[i := pc])"
| makes: "\<forall>s g. (s, Some g) \<in> set reqs \<longrightarrow> g < as_frags a \<Longrightarrow>
    assembly_step (a, ts) (a\<lparr>as_frag := (as_frag a)(as_frags a := new_fragment reqs), as_frags := as_frags a + 1\<rparr>, ts)"
| seals: "ts \<noteq> [] \<Longrightarrow> ts ! 0 = Idle \<Longrightarrow> length (snd draft) = length (as_latest a) \<Longrightarrow> \<forall>f. Some f \<in> set (snd draft) \<longrightarrow> f < as_frags a \<Longrightarrow>
    seal_draft draft a = Inr (b, r, fs) \<Longrightarrow> assembly_step (a, ts) (b, ts[0 := Attaching r fs])"
| collects: "ts \<noteq> [] \<Longrightarrow> ts ! 0 = Idle \<Longrightarrow> assembly_step (a, ts) (collect a, ts)"
| selects: "assembly_step (a, ts) (select_ready accepts a, ts)"

end
