(* ===== verification/AssemblyInv.thy ===== *)
theory AssemblyInv
  imports RevisionAssembly
begin

text \<open>
  The invariant of revision assembly: the count of a pending revision is the number of
  settlements still owed to it, as a multiset of tokens held by fragments and threads; and that
  the atomic instructions of settlements and counts keep it.
\<close>


section \<open>Owed settlements\<close>

text \<open>A token is a settlement (or the seal's own count, None) a revision still waits for.\<close>

type_synonym token = "nat option \<times> nat"

fun tokens :: "assembly_pc \<Rightarrow> token multiset" where
  "tokens (Walk f rs) = image_mset (Pair (Some f)) (mset rs)"
| "tokens (Attaching r fs) = image_mset (\<lambda>f. (Some f, r)) (mset fs) + {#(None, r)#}"
| "tokens (Noting f r k) = {#(Some f, r)#} + tokens k"
| "tokens (Erring f r k) = {#(Some f, r)#} + tokens k"
| "tokens (Counting x r k) = {#(x, r)#} + tokens k"
| "tokens (Pushing r k) = tokens k"
| "tokens _ = {#}"

definition waiting :: "assembler \<Rightarrow> nat \<Rightarrow> token multiset" where
  "waiting a f = (case fr_waiters (as_frag a f) of Closed \<Rightarrow> {#} | Waiting rs \<Rightarrow> image_mset (Pair (Some f)) (mset rs))"

definition owed :: "assembly_sys \<Rightarrow> token multiset" where
  "owed s = (\<Sum>f < as_frags (fst s). waiting (fst s) f) + (\<Sum>pc \<in># mset (snd s). tokens pc)"

definition owed_to :: "token multiset \<Rightarrow> nat \<Rightarrow> nat" where
  "owed_to M r = size (filter_mset (\<lambda>t. snd t = r) M)"

lemma owed_to_add [simp]: "owed_to (M + N) r = owed_to M r + owed_to N r" "owed_to (add_mset t M) r = (if snd t = r then 1 else 0) + owed_to M r"
  "owed_to {#} r = 0"
  by (simp_all add: owed_to_def)

section \<open>What a thread knows\<close>

abbreviation settled :: "assembler \<Rightarrow> nat \<Rightarrow> bool" where
  "settled a f \<equiv> state_of_frag a f \<noteq> Pending"

text \<open>What a settlement returns to.\<close>

fun resumes :: "assembly_pc \<Rightarrow> bool" where
  "resumes Idle = True"
| "resumes (Walk f rs) = True"
| "resumes (Attaching r fs) = True"
| "resumes _ = False"

fun pc_ok :: "assembler \<Rightarrow> assembly_pc \<Rightarrow> bool" where
  "pc_ok a (Claimed f out) \<longleftrightarrow> f < as_frags a"
| "pc_ok a (Stored f) \<longleftrightarrow> f < as_frags a \<and> settled a f"
| "pc_ok a (Walk f rs) \<longleftrightarrow> f < as_frags a \<and> settled a f \<and> (\<forall>r \<in> set rs. r \<le> as_latestSequence a)"
| "pc_ok a (Attaching r fs) \<longleftrightarrow> set fs \<subseteq> {..<as_frags a} \<and> r \<le> as_latestSequence a"
| "pc_ok a (Noting f r k) \<longleftrightarrow> f < as_frags a \<and> settled a f \<and> r \<le> as_latestSequence a \<and> resumes k \<and> pc_ok a k"
| "pc_ok a (Erring f r k) \<longleftrightarrow> f < as_frags a \<and> state_of_frag a f = Failed \<and> r \<le> as_latestSequence a \<and> rv_failed (as_rev a r) \<and> resumes k \<and> pc_ok a k"
| "pc_ok a (Counting x r k) \<longleftrightarrow> r \<le> as_latestSequence a \<and> resumes k \<and> pc_ok a k \<and>
     (\<forall>f. x = Some f \<longrightarrow> f < as_frags a \<and> settled a f \<and> (state_of_frag a f = Failed \<longrightarrow> rv_failed (as_rev a r)))"
| "pc_ok a (Pushing r k) \<longleftrightarrow> r \<le> as_latestSequence a \<and> (r \<in> set (as_pending a) \<longrightarrow> rv_remaining (as_rev a r) = 0) \<and> resumes k \<and> pc_ok a k"
| "pc_ok a Idle \<longleftrightarrow> True"

fun pushes :: "nat \<Rightarrow> assembly_pc \<Rightarrow> bool" where
  "pushes r (Pushing q k) = (q = r)"
| "pushes r _ = False"

fun errs :: "nat \<Rightarrow> assembly_pc \<Rightarrow> bool" where
  "errs r (Erring f q k) = (q = r)"
| "errs r _ = False"

fun claims :: "nat \<Rightarrow> assembly_pc \<Rightarrow> bool" where
  "claims f (Claimed g out) = (g = f)"
| "claims f _ = False"

definition frag_ok :: "assembler \<Rightarrow> nat \<Rightarrow> bool" where
  "frag_ok a f \<longleftrightarrow> (fr_waiters (as_frag a f) = Closed \<longrightarrow> settled a f) \<and>
     (state_of_frag a f = Failed \<longrightarrow> fr_error (as_frag a f) \<noteq> None) \<and> (state_of_frag a f = Ready \<longrightarrow> fr_value (as_frag a f) \<noteq> None) \<and>
     (\<not> fr_claimed (as_frag a f) \<longrightarrow> \<not> settled a f) \<and> (\<forall>s g. (s, Some g) \<in> set (fr_requirements (as_frag a f)) \<longrightarrow> g < as_frags a)"

definition claims_ok :: "assembly_sys \<Rightarrow> bool" where
  "claims_ok s \<longleftrightarrow> (\<forall>f. length (filter (claims f) (snd s)) \<le>
     (if f < as_frags (fst s) \<and> fr_claimed (as_frag (fst s) f) \<and> \<not> settled (fst s) f then 1 else 0))"

definition named :: "assembler \<Rightarrow> nat \<Rightarrow> nat set" where
  "named a r = {f. Some f \<in> set (rv_slots (as_rev a r))}"

text \<open>A pending revision, with what is owed.\<close>

definition rev_ok :: "assembly_sys \<Rightarrow> nat \<Rightarrow> bool" where
  "rev_ok s r \<longleftrightarrow> (case s of (a, ts) \<Rightarrow>
     rv_remaining (as_rev a r) = owed_to (owed s) r \<and> as_publishedSequence a < r \<and> r \<le> as_latestSequence a \<and>
     named a r \<subseteq> {..<as_frags a} \<and> closed_slots (as_frag a) (rv_slots (as_rev a r)) \<and>
     (\<forall>f \<in> named a r. (Some f, r) \<in># owed s \<or> settled a f \<and> (state_of_frag a f = Failed \<longrightarrow> rv_failed (as_rev a r))) \<and>
     (rv_failed (as_rev a r) \<longrightarrow> (\<exists>f \<in> named a r. state_of_frag a f = Failed) \<and>
        (rv_error (as_rev a r) \<noteq> None \<or> (\<exists>pc \<in> set ts. errs r pc))) \<and>
     (rv_remaining (as_rev a r) = 0 \<longrightarrow> r \<in> set (as_completed a) \<or> (\<exists>pc \<in> set ts. pushes r pc)) \<and>
     (r \<in> set (as_completed a) \<longrightarrow> rv_remaining (as_rev a r) = 0))"

definition owed_ok :: "assembly_sys \<Rightarrow> bool" where
  "owed_ok s \<longleftrightarrow> (\<forall>(x, r) \<in># owed s. r \<le> as_latestSequence (fst s) \<and>
     (\<forall>f. x = Some f \<longrightarrow> f \<in> named (fst s) r))"

text \<open>What the frame may get.\<close>

definition version_ok :: "assembler \<Rightarrow> assembled \<Rightarrow> bool" where
  "version_ok a v \<longleftrightarrow> fst v \<le> as_publishedSequence a \<and> closed_slots (as_frag a) (snd v) \<and>
     (\<forall>f. Some f \<in> set (snd v) \<longrightarrow> f < as_frags a \<and> state_of_frag a f = Ready)"

definition frame_ok :: "assembler \<Rightarrow> bool" where
  "frame_ok a \<longleftrightarrow> as_held a = None \<and> as_publishedSequence a \<le> as_latestSequence a \<and>
     (\<forall>v. as_ready a = Some v \<or> as_active a = Some v \<longrightarrow> version_ok a v) \<and>
     (\<forall>v w. as_ready a = Some v \<and> as_active a = Some w \<longrightarrow> fst w < fst v) \<and>
     (\<forall>(r, e) \<in> set (as_failures a). e \<noteq> None)"

text \<open>A settled fragment's waiters are taken, or its settler is about to take them.\<close>

definition taken_ok :: "assembly_sys \<Rightarrow> bool" where
  "taken_ok s \<longleftrightarrow> (\<forall>f < as_frags (fst s). settled (fst s) f \<longrightarrow> fr_waiters (as_frag (fst s) f) = Closed \<or> Stored f \<in> set (snd s))"

definition assembly_ok :: "assembly_sys \<Rightarrow> bool" where
  "assembly_ok s \<longleftrightarrow> taken_ok s \<and> (\<forall>r \<in> set (as_completed (fst s)). r \<le> as_latestSequence (fst s)) \<and> (\<forall>f < as_frags (fst s). frag_ok (fst s) f) \<and> claims_ok s \<and> (\<forall>pc \<in> set (snd s). pc_ok (fst s) pc) \<and>
     (\<forall>r \<in> set (as_pending (fst s)). rev_ok s r) \<and> owed_ok s \<and> distinct (as_pending (fst s)) \<and>
     (\<forall>f. Some f \<in> set (as_latest (fst s)) \<longrightarrow> f < as_frags (fst s)) \<and> frame_ok (fst s)"

section \<open>Nothing settled is unsettled\<close>

definition evolves :: "assembler \<Rightarrow> assembler \<Rightarrow> bool" where
  "evolves a b \<longleftrightarrow> as_frags a \<le> as_frags b \<and> as_latestSequence a \<le> as_latestSequence b \<and>
     (\<forall>f < as_frags a. fr_requirements (as_frag b f) = fr_requirements (as_frag a f) \<and> (settled a f \<longrightarrow> state_of_frag b f = state_of_frag a f)) \<and>
     (\<forall>r \<le> as_latestSequence a. rv_slots (as_rev b r) = rv_slots (as_rev a r) \<and> (rv_failed (as_rev a r) \<longrightarrow> rv_failed (as_rev b r)) \<and>
        (r \<in> set (as_pending b) \<longrightarrow> r \<in> set (as_pending a) \<and> (rv_remaining (as_rev a r) = 0 \<longrightarrow> rv_remaining (as_rev b r) = 0)))"

lemma pc_evolves: "evolves a b \<Longrightarrow> pc_ok a pc \<Longrightarrow> pc_ok b pc"
  by (induction pc) (auto simp: evolves_def)

lemma closed_evolves: "evolves a b \<Longrightarrow> \<forall>f. Some f \<in> set sl \<longrightarrow> f < as_frags a \<Longrightarrow> closed_slots (as_frag a) sl \<Longrightarrow> closed_slots (as_frag b) sl"
  by (auto simp: evolves_def closed_slots_def List.map_filter_def)

lemma version_evolves:
  "evolves a b \<Longrightarrow> as_publishedSequence a \<le> as_publishedSequence b \<Longrightarrow> version_ok a v \<Longrightarrow> version_ok b v"
  using closed_evolves [of a b "snd v"] by (fastforce simp: version_ok_def evolves_def)

section \<open>Steps of the threads\<close>

definition held_waiters :: "assembler \<Rightarrow> token multiset" where
  "held_waiters a = (\<Sum>f < as_frags a. waiting a f)"

lemma owed_split: "owed (a, ts) = held_waiters a + sum_list (map tokens ts)"
  by (simp add: owed_def held_waiters_def flip: sum_mset_sum_list)

lemma owed_update:
  assumes "i < length ts"
  shows "owed (b, ts[i := pc]) + tokens (ts ! i) + held_waiters a = owed (a, ts) + tokens pc + held_waiters b"
  using sum_list_map_update [OF assms, of tokens pc] by (simp add: owed_split add_ac)

lemma upd_frag_simps [simp]:
  "as_frag (upd_frag f g a) h = (if h = f then g (as_frag a f) else as_frag a h)" "as_frags (upd_frag f g a) = as_frags a"
  "as_rev (upd_frag f g a) = as_rev a" "as_completed (upd_frag f g a) = as_completed a" "as_latest (upd_frag f g a) = as_latest a"
  "as_latestSequence (upd_frag f g a) = as_latestSequence a" "as_publishedSequence (upd_frag f g a) = as_publishedSequence a"
  "as_pending (upd_frag f g a) = as_pending a" "as_held (upd_frag f g a) = as_held a" "as_ready (upd_frag f g a) = as_ready a"
  "as_active (upd_frag f g a) = as_active a" "as_failures (upd_frag f g a) = as_failures a"
  by (simp_all add: upd_frag_def)

lemma upd_rev_simps [simp]:
  "as_rev (upd_rev r g a) q = (if q = r then g (as_rev a r) else as_rev a q)" "as_frags (upd_rev r g a) = as_frags a"
  "as_frag (upd_rev r g a) = as_frag a" "as_completed (upd_rev r g a) = as_completed a" "as_latest (upd_rev r g a) = as_latest a"
  "as_latestSequence (upd_rev r g a) = as_latestSequence a" "as_publishedSequence (upd_rev r g a) = as_publishedSequence a"
  "as_pending (upd_rev r g a) = as_pending a" "as_held (upd_rev r g a) = as_held a" "as_ready (upd_rev r g a) = as_ready a"
  "as_active (upd_rev r g a) = as_active a" "as_failures (upd_rev r g a) = as_failures a"
  by (simp_all add: upd_rev_def)

lemma held_waiters_upd:
  assumes "f < as_frags a"
  shows "held_waiters (upd_frag f g a) + waiting a f = held_waiters a + waiting (upd_frag f g a) f"
  unfolding held_waiters_def upd_frag_simps
  by (rule sum_one_changed [OF assms]) (simp add: waiting_def)

lemma held_waiters_same: "fr_waiters (g (as_frag a f)) = fr_waiters (as_frag a f) \<Longrightarrow> held_waiters (upd_frag f g a) = held_waiters a"
  unfolding held_waiters_def upd_frag_simps by (rule sum.cong) (simp_all add: waiting_def)

text \<open>A settlement moves its tokens on, or drops that of a revision nobody waits for.\<close>

lemma settle_owed:
  assumes "settle_act a pc b pc'" "pc_ok a pc"
  shows "held_waiters b + tokens pc' = held_waiters a + tokens pc \<or>
     (\<exists>f r. held_waiters b + tokens pc' + {#(Some f, r)#} = held_waiters a + tokens pc \<and> r \<notin> set (as_pending a))"
  using assms
proof (induction rule: settle_act.induct)
  case (store a f out)
  then show ?case by (simp add: held_waiters_same settle_fragment_def split: outcome.splits)
next
  case (close a f rs)
  then have "held_waiters (upd_frag f (\<lambda>fr. fr\<lparr>fr_waiters := Closed\<rparr>) a) + image_mset (Pair (Some f)) (mset rs) = held_waiters a"
    using held_waiters_upd [of f a "\<lambda>fr. fr\<lparr>fr_waiters := Closed\<rparr>"] by (simp add: waiting_def)
  then show ?case by simp
next
  case (attach_push a f rs r fs)
  then have "held_waiters (upd_frag f (\<lambda>fr. fr\<lparr>fr_waiters := Waiting (r # rs)\<rparr>) a) = held_waiters a + {#(Some f, r)#}"
    using held_waiters_upd [of f a "\<lambda>fr. fr\<lparr>fr_waiters := Waiting (r # rs)\<rparr>"] by (simp add: waiting_def)
  then show ?case by simp
qed (auto simp: held_waiters_same)

definition same_revisions :: "assembler \<Rightarrow> assembler \<Rightarrow> bool" where
  "same_revisions a b \<longleftrightarrow> as_rev b = as_rev a \<and> as_completed b = as_completed a \<and> as_latest b = as_latest a \<and>
     as_latestSequence b = as_latestSequence a \<and> as_publishedSequence b = as_publishedSequence a \<and> as_pending b = as_pending a \<and>
     as_held b = as_held a \<and> as_ready b = as_ready a \<and> as_active b = as_active a \<and> as_failures b = as_failures a \<and> as_frags b = as_frags a"

lemma settle_same: "settle_act a pc b pc' \<Longrightarrow> same_revisions a b"
  by (induction rule: settle_act.induct) (simp_all add: same_revisions_def)

lemma settle_evolves: "settle_act a pc b pc' \<Longrightarrow> \<forall>f out. pc = Claimed f out \<longrightarrow> \<not> settled a f \<Longrightarrow> evolves a b"
  by (induction rule: settle_act.induct) (auto simp: evolves_def settle_fragment_def split: outcome.splits)

lemma waiting_held:
  assumes "f < as_frags a"
  shows "waiting a f \<subseteq># held_waiters a"
proof -
  have "held_waiters a = waiting a f + (\<Sum>g \<in> {..<as_frags a} - {f}. waiting a g)"
    unfolding held_waiters_def using assms by (intro sum.remove) auto
  then show ?thesis by simp
qed

lemma settle_pc:
  assumes "settle_act a pc b pc'" "pc_ok a pc" "\<forall>f < as_frags a. frag_ok a f" "\<forall>t \<in># held_waiters a + tokens pc. snd t \<le> as_latestSequence a"
  shows "pc_ok b pc'"
  using assms
proof (induction rule: settle_act.induct)
  case (close a f rs)
  have "(Some f, r) \<in># held_waiters a" if "r \<in> set rs" for r
    using mset_subset_eqD [OF waiting_held [of f a], of "(Some f, r)"] close(1,2) that by (auto simp: waiting_def)
  then have "\<forall>r \<in> set rs. r \<le> as_latestSequence a" using close(4) by fastforce
  then show ?case using close by simp
qed (auto simp: settle_fragment_def frag_ok_def split: outcome.splits)

lemma settle_frag:
  assumes "settle_act a pc b pc'" "pc_ok a pc" "f < as_frags a" "frag_ok a f" "\<forall>g out. pc = Claimed g out \<longrightarrow> fr_claimed (as_frag a g)"
  shows "frag_ok b f"
  using assms by (induction rule: settle_act.induct) (auto simp: frag_ok_def settle_fragment_def split: outcome.splits)

lemma claims_one:
  assumes "claims_ok (a, ts)" "i < length ts" "ts ! i = Claimed f out"
  shows "f < as_frags a \<and> fr_claimed (as_frag a f) \<and> \<not> settled a f"
proof -
  have "Claimed f out \<in> set (filter (claims f) ts)" using nth_mem [OF assms(2)] assms(3) by simp
  then have "0 < length (filter (claims f) ts)" by (cases "filter (claims f) ts") simp_all
  moreover have "length (filter (claims f) ts) \<le> (if f < as_frags a \<and> fr_claimed (as_frag a f) \<and> \<not> settled a f then 1 else 0)"
    using assms(1) by (simp add: claims_ok_def)
  ultimately show ?thesis by (metis not_less)
qed

lemma settle_claims:
  assumes "i < length ts" "settle_act a (ts ! i) b pc" "claims_ok (a, ts)" "\<forall>f < as_frags a. frag_ok a f"
  shows "claims_ok (b, ts[i := pc])"
proof -
  have count: "length (filter (claims f) (ts[i := pc])) + (if claims f (ts ! i) then 1 else 0) =
      length (filter (claims f) ts) + (if claims f pc then 1 else 0)" for f
    by (rule filter_length_update [OF assms(1)])
  have old: "length (filter (claims f) ts) \<le> (if f < as_frags a \<and> fr_claimed (as_frag a f) \<and> \<not> settled a f then 1 else 0)" for f
    using assms(3) by (simp add: claims_ok_def)
  have "length (filter (claims f) (ts[i := pc])) \<le> (if f < as_frags b \<and> fr_claimed (as_frag b f) \<and> \<not> settled b f then 1 else 0)" for f
    using assms(2)
  proof cases
    case (claim g out)
    then have "\<not> settled a g" using assms(4) by (auto simp: frag_ok_def)
    then show ?thesis using claim count [of f] old [of f] by (cases "g = f") auto
  next
    case (store g out)
    have "length (filter (claims f) (ts[i := pc])) = 0" if "g = f" using that store count [of f] old [of f] by (simp split: if_splits del: length_0_conv)
    then show ?thesis using store count [of f] old [of f] by (cases "g = f") auto
  qed (use count [of f] old [of f] in \<open>auto split: if_splits\<close>)
  then show ?thesis by (simp add: claims_ok_def)
qed

lemma settle_taken:
  assumes "i < length ts" "settle_act a (ts ! i) b pc" "taken_ok (a, ts)" "\<forall>f < as_frags a. frag_ok a f"
  shows "taken_ok (b, ts[i := pc])"
proof -
  have keep: "Stored f \<in> set (ts[i := pc])" if "Stored f \<in> set ts" "ts ! i \<noteq> Stored f" for f
    using that assms(1) by (auto simp: in_set_conv_nth nth_list_update)
  have new: "pc \<in> set (ts[i := pc])" by (rule set_update_memI [OF assms(1)])
  have old: "f < as_frags a \<Longrightarrow> settled a f \<Longrightarrow> fr_waiters (as_frag a f) = Closed \<or> Stored f \<in> set ts" for f
    using assms(3) by (simp add: taken_ok_def)
  have "fr_waiters (as_frag b f) = Closed \<or> Stored f \<in> set (ts[i := pc])" if "f < as_frags b" "settled b f" for f
    using assms(2)
  proof cases
    case (claim g out)
    then show ?thesis using that old [of f] keep [of f] by (auto split: if_splits)
  next
    case (store g out)
    then show ?thesis using that old [of f] keep [of f] new by (auto split: if_splits)
  next
    case (close g rs)
    then show ?thesis using that old [of f] keep [of f] by (auto split: if_splits)
  next
    case (attach_push g rs r fs)
    then show ?thesis using that old [of f] keep [of f] by (auto split: if_splits)
  qed (use that old [of f] keep [of f] in \<open>auto split: if_splits\<close>)
  then show ?thesis by (simp add: taken_ok_def)
qed

text \<open>A revision's part of the invariant, when a step moves its tokens and changes nothing else of it.\<close>

lemma owed_member: "t \<in># M + {#(x, q)#} \<Longrightarrow> snd t \<noteq> q \<Longrightarrow> t \<in># M"
  by auto

lemma rev_kept:
  assumes old: "rev_ok (a, ts) r" and e: "evolves a b" and r: "r \<in> set (as_pending a)"
    and owed: "owed_to (owed (b, us)) r = owed_to (owed (a, ts)) r" "\<And>f. (Some f, r) \<in># owed (a, ts) \<Longrightarrow> (Some f, r) \<in># owed (b, us)"
    and rev: "as_rev b r = as_rev a r" "r \<in> set (as_completed b) \<longleftrightarrow> r \<in> set (as_completed a)" "as_publishedSequence b = as_publishedSequence a"
    and pcs: "\<And>pc. pc \<in> set ts \<Longrightarrow> errs r pc \<or> pushes r pc \<Longrightarrow> pc \<in> set us"
  shows "rev_ok (b, us) r"
proof -
  have n: "named b r = named a r" using rev by (simp add: named_def)
  have le: "r \<le> as_latestSequence b" using old e by (auto simp: rev_ok_def evolves_def)
  have frags: "f < as_frags a \<and> f < as_frags b \<and> (settled a f \<longrightarrow> state_of_frag b f = state_of_frag a f)" if "f \<in> named a r" for f
    using that old e by (auto simp: rev_ok_def evolves_def)
  have closed: "closed_slots (as_frag b) (rv_slots (as_rev b r))"
    unfolding rev(1) by (rule closed_evolves [OF e]) (use old in \<open>auto simp: rev_ok_def named_def\<close>)
  have "\<forall>f \<in> named a r. (Some f, r) \<in># owed (b, us) \<or> settled b f \<and> (state_of_frag b f = Failed \<longrightarrow> rv_failed (as_rev a r))"
    using old frags owed(2) by (auto simp: rev_ok_def)
  moreover have "\<exists>f \<in> named a r. state_of_frag b f = Failed" if failed: "rv_failed (as_rev a r)"
  proof -
    obtain f where "f \<in> named a r" "state_of_frag a f = Failed" using old failed by (auto simp: rev_ok_def)
    then show ?thesis using frags [of f] by (intro bexI [of _ f]) auto
  qed
  moreover have "rv_failed (as_rev a r) \<Longrightarrow> rv_error (as_rev a r) \<noteq> None \<or> (\<exists>pc \<in> set us. errs r pc)"
    using old pcs by (auto simp: rev_ok_def)
  moreover have "rv_remaining (as_rev a r) = 0 \<Longrightarrow> r \<in> set (as_completed a) \<or> (\<exists>pc \<in> set us. pushes r pc)"
    using old pcs by (auto simp: rev_ok_def)
  ultimately show ?thesis using old frags closed owed(1) n le rev by (auto simp: rev_ok_def)
qed

text \<open>What the frame sees, when a step leaves it.\<close>

lemma frame_kept:
  assumes "frame_ok a" "evolves a b" "as_held b = as_held a" "as_publishedSequence b = as_publishedSequence a"
    "as_ready b = as_ready a" "as_active b = as_active a" "as_failures b = as_failures a"
  shows "frame_ok b"
proof -
  have "version_ok b v" if "version_ok a v" for v using version_evolves [OF assms(2) _ that] assms(4) by simp
  then show ?thesis using assms by (auto simp: frame_ok_def evolves_def)
qed

definition pcs_ok :: "assembly_sys \<Rightarrow> bool" where
  "pcs_ok s \<longleftrightarrow> (\<forall>pc \<in> set (snd s). pc_ok (fst s) pc)"

lemma pcs_kept: "pcs_ok (a, ts) \<Longrightarrow> evolves a b \<Longrightarrow> pc_ok b pc \<Longrightarrow> pcs_ok (b, ts[i := pc])"
  unfolding pcs_ok_def using set_update_subset_insert [of ts i pc] by (auto intro: pc_evolves)

lemma tokens_owed: "i < length ts \<Longrightarrow> tokens (ts ! i) \<subseteq># owed (a, ts)"
  by (subst id_take_nth_drop [of i ts]) (auto simp: owed_split)

lemma owed_le: "owed_ok (a, ts) \<Longrightarrow> t \<in># owed (a, ts) \<Longrightarrow> snd t \<le> as_latestSequence a \<and> (\<forall>f. fst t = Some f \<longrightarrow> f \<in> named a (snd t))"
  unfolding owed_ok_def by (cases t) fastforce

lemma latest_kept: "\<forall>f. Some f \<in> set (as_latest a) \<longrightarrow> f < as_frags a \<Longrightarrow> evolves a b \<Longrightarrow> as_latest b = as_latest a \<Longrightarrow> \<forall>f. Some f \<in> set (as_latest b) \<longrightarrow> f < as_frags b"
  by (fastforce simp: evolves_def)

lemma settle_ok:
  assumes "assembly_ok (a, ts)" "i < length ts" "settle_act a (ts ! i) b pc"
  shows "assembly_ok (b, ts[i := pc])"
proof -
  have ok: "taken_ok (a, ts)" "\<forall>f < as_frags a. frag_ok a f" "claims_ok (a, ts)" "owed_ok (a, ts)" "frame_ok a"
    using assms(1) by (simp_all add: assembly_ok_def)
  have e: "evolves a b" using settle_evolves [OF assms(3)] claims_one [OF ok(3) assms(2)] by auto
  have same: "same_revisions a b" by (rule settle_same [OF assms(3)])
  have pcok: "pc_ok a (ts ! i)" using assms(1,2) by (simp add: assembly_ok_def)
  have "t \<in># owed (a, ts)" if "t \<in># held_waiters a + tokens (ts ! i)" for t
    using that mset_subset_eqD [OF tokens_owed [OF assms(2), of a], of t] by (auto simp: owed_split)
  then have pc: "pc_ok b pc" by (intro settle_pc [OF assms(3) pcok ok(2)] ballI) (use owed_le [OF ok(4)] in blast)
  have up: "owed (b, ts[i := pc]) + tokens (ts ! i) + held_waiters a = owed (a, ts) + tokens pc + held_waiters b"
    by (rule owed_update [OF assms(2)])
  have owed: "owed (b, ts[i := pc]) = owed (a, ts) \<or>
      (\<exists>f r. owed (b, ts[i := pc]) + {#(Some f, r)#} = owed (a, ts) \<and> r \<notin> set (as_pending a))"
    using settle_owed [OF assms(3) pcok]
  proof (elim disjE exE conjE)
    assume "held_waiters b + tokens pc = held_waiters a + tokens (ts ! i)"
    then have "owed (b, ts[i := pc]) + (held_waiters b + tokens pc) = owed (a, ts) + (held_waiters b + tokens pc)"
      using up by (simp add: ac_simps)
    then show ?thesis by simp
  next
    fix f r
    assume x: "held_waiters b + tokens pc + {#(Some f, r)#} = held_waiters a + tokens (ts ! i)" "r \<notin> set (as_pending a)"
    have "owed (b, ts[i := pc]) + {#(Some f, r)#} + (held_waiters b + tokens pc) = owed (b, ts[i := pc]) + (held_waiters a + tokens (ts ! i))"
      using x(1) by (simp add: ac_simps)
    also have "\<dots> = owed (a, ts) + (held_waiters b + tokens pc)" using up by (simp add: ac_simps)
    finally show ?thesis using x(2) by (metis add_right_cancel)
  qed
  have sub: "owed (b, ts[i := pc]) \<subseteq># owed (a, ts)" using owed mset_subset_eq_add_left [of "owed (b, ts[i := pc])"]
    by (elim disjE exE conjE) (simp, metis)
  have "rev_ok (b, ts[i := pc]) r" if "r \<in> set (as_pending a)" for r
  proof (rule rev_kept [OF _ e that])
    show "rev_ok (a, ts) r" using assms(1) that by (simp add: assembly_ok_def)
    show "owed_to (owed (b, ts[i := pc])) r = owed_to (owed (a, ts)) r"
      using owed
    proof (elim disjE exE conjE)
      fix f q
      assume x: "owed (b, ts[i := pc]) + {#(Some f, q)#} = owed (a, ts)" "q \<notin> set (as_pending a)"
      then have "q \<noteq> r" using that by auto
      then show ?thesis by (simp flip: x(1))
    qed simp
    show "(Some f, r) \<in># owed (b, ts[i := pc])" if "(Some f, r) \<in># owed (a, ts)" for f
      using owed
    proof (elim disjE exE conjE)
      fix g q
      assume x: "owed (b, ts[i := pc]) + {#(Some g, q)#} = owed (a, ts)" "q \<notin> set (as_pending a)"
      then have "q \<noteq> r" using \<open>r \<in> set (as_pending a)\<close> by auto
      then show ?thesis using that by (auto simp flip: x(1))
    qed (use that in simp)
    show "q \<in> set (ts[i := pc])" if "q \<in> set ts" "errs r q \<or> pushes r q" for q
    proof -
      have "ts ! i \<noteq> q" using assms(3) that(2) by (cases rule: settle_act.cases) auto
      then show ?thesis using that(1) assms(2) by (auto simp: in_set_conv_nth nth_list_update)
    qed
  qed (use same in \<open>simp_all add: same_revisions_def\<close>)
  moreover have "owed_ok (b, ts[i := pc])"
    using ok(4) same mset_subset_eqD [OF sub] by (auto simp: owed_ok_def same_revisions_def named_def)
  moreover have "frame_ok b" by (rule frame_kept [OF ok(5) e]) (use same in \<open>simp_all add: same_revisions_def\<close>)
  moreover have "\<forall>f < as_frags b. frag_ok b f"
    using settle_frag [OF assms(3) pcok] ok(2) claims_one [OF ok(3) assms(2)] same by (auto simp: same_revisions_def)
  moreover have "pcs_ok (b, ts[i := pc])" by (rule pcs_kept [OF _ e pc]) (use assms(1) in \<open>simp add: assembly_ok_def pcs_ok_def\<close>)
  ultimately show ?thesis
    using settle_taken [OF assms(2,3) ok(1,2)] settle_claims [OF assms(2,3) ok(3,2)] assms(1) same
    by (simp add: assembly_ok_def pcs_ok_def same_revisions_def)
qed

text \<open>A note, a count or a push: of one revision, the fragments untouched.\<close>

fun acted :: "assembly_pc \<Rightarrow> nat" where
  "acted (Noting f r k) = r"
| "acted (Erring f r k) = r"
| "acted (Counting x r k) = r"
| "acted (Pushing r k) = r"
| "acted _ = 0"

lemma count_same:
  "count_act a pc b pc' \<Longrightarrow> as_frag b = as_frag a \<and> as_frags b = as_frags a \<and> as_latest b = as_latest a \<and>
     as_latestSequence b = as_latestSequence a \<and> as_publishedSequence b = as_publishedSequence a \<and> as_pending b = as_pending a \<and>
     as_held b = as_held a \<and> as_ready b = as_ready a \<and> as_active b = as_active a \<and> as_failures b = as_failures a \<and>
     set (as_completed b) \<subseteq> insert (acted pc) (set (as_completed a)) \<and> set (as_completed a) \<subseteq> set (as_completed b) \<and>
     (\<forall>q. q \<noteq> acted pc \<longrightarrow> as_rev b q = as_rev a q)"
  by (induction rule: count_act.induct) auto

lemma count_evolves: "count_act a pc b pc' \<Longrightarrow> evolves a b"
  by (induction rule: count_act.induct) (auto simp: evolves_def)

lemma count_tokens:
  "count_act a pc b pc' \<Longrightarrow> (\<forall>x r k. pc \<noteq> Counting x r k) \<and> tokens pc = tokens pc' \<or>
     (\<exists>x k. pc = Counting x (acted pc) k \<and> tokens pc = tokens pc' + {#(x, acted pc)#})"
  by (induction rule: count_act.induct) auto

lemma count_pc:
  assumes "count_act a pc b pc'" "pc_ok a pc"
  shows "pc_ok b pc'"
  using assms(1) pc_evolves [OF count_evolves [OF assms(1)] assms(2)] assms(2)
  by (induction rule: count_act.induct) auto

lemma count_owed:
  assumes "i < length ts" "count_act a (ts ! i) b pc"
  shows "(\<forall>x r k. ts ! i \<noteq> Counting x r k) \<and> owed (b, ts[i := pc]) = owed (a, ts) \<or>
     (\<exists>x k. ts ! i = Counting x (acted (ts ! i)) k \<and> owed (b, ts[i := pc]) + {#(x, acted (ts ! i))#} = owed (a, ts))"
proof -
  have h: "held_waiters b = held_waiters a" using count_same [OF assms(2)] by (simp add: held_waiters_def waiting_def)
  have up: "owed (b, ts[i := pc]) + tokens (ts ! i) = owed (a, ts) + tokens pc"
    using owed_update [OF assms(1), of b pc a] h by (simp add: ac_simps)
  show ?thesis
    using count_tokens [OF assms(2)]
  proof (elim disjE exE conjE)
    fix x k
    assume x: "ts ! i = Counting x (acted (ts ! i)) k" "tokens (ts ! i) = tokens pc + {#(x, acted (ts ! i))#}"
    have "owed (b, ts[i := pc]) + {#(x, acted (ts ! i))#} + tokens pc = owed (a, ts) + tokens pc"
      using up unfolding x(2) by (simp add: ac_simps)
    then show ?thesis using x(1) by (metis add_right_cancel)
  qed (use up in simp)
qed

text \<open>The revision acted on.\<close>

lemma rev_acted:
  assumes old: "rev_ok (a, ts) r" and same: "as_frag b = as_frag a" "as_frags b = as_frags a" "as_publishedSequence b = as_publishedSequence a"
      "as_latestSequence b = as_latestSequence a" "rv_slots (as_rev b r) = rv_slots (as_rev a r)"
    and remaining: "rv_remaining (as_rev b r) = owed_to (owed (b, us)) r"
    and settled: "\<And>f. f \<in> named a r \<Longrightarrow> (Some f, r) \<in># owed (a, ts) \<Longrightarrow> (Some f, r) \<in># owed (b, us) \<or>
      settled a f \<and> (state_of_frag a f = Failed \<longrightarrow> rv_failed (as_rev b r))"
    and failed: "rv_failed (as_rev a r) \<Longrightarrow> rv_failed (as_rev b r)" "rv_failed (as_rev b r) \<Longrightarrow> \<exists>f \<in> named a r. state_of_frag a f = Failed"
      "rv_failed (as_rev b r) \<Longrightarrow> rv_error (as_rev b r) \<noteq> None \<or> (\<exists>pc \<in> set us. errs r pc)"
    and completed: "rv_remaining (as_rev b r) = 0 \<Longrightarrow> r \<in> set (as_completed b) \<or> (\<exists>pc \<in> set us. pushes r pc)"
      "r \<in> set (as_completed b) \<Longrightarrow> rv_remaining (as_rev b r) = 0"
  shows "rev_ok (b, us) r"
proof -
  have n: "named b r = named a r" by (simp add: named_def same)
  have "\<forall>f \<in> named a r. (Some f, r) \<in># owed (b, us) \<or> settled a f \<and> (state_of_frag a f = Failed \<longrightarrow> rv_failed (as_rev b r))"
    using old settled failed(1) by (auto simp: rev_ok_def)
  then show ?thesis using old remaining failed completed by (auto simp: rev_ok_def n same)
qed

lemma member_update: "i < length ts \<Longrightarrow> q \<in> set ts \<Longrightarrow> ts ! i \<noteq> q \<Longrightarrow> q \<in> set (ts[i := pc])"
  by (auto simp: in_set_conv_nth nth_list_update)

lemma count_rev:
  assumes "i < length ts" "count_act a (ts ! i) b pc" "rev_ok (a, ts) (acted (ts ! i))" "pc_ok a (ts ! i)" "owed_ok (a, ts)"
    "\<forall>f < as_frags a. frag_ok a f" "acted (ts ! i) \<in> set (as_pending a)"
  shows "rev_ok (b, ts[i := pc]) (acted (ts ! i))"
proof -
  let ?r = "acted (ts ! i)" and ?us = "ts[i := pc]"
  have token: "x \<in># owed (a, ts)" if "x \<in># tokens (ts ! i)" for x by (rule mset_subset_eqD [OF tokens_owed [OF assms(1)] that])
  have names: "f \<in> named a r" if "(Some f, r) \<in># owed (a, ts)" for f r using owed_le [OF assms(5) that] by simp
  have new: "pc \<in> set ?us" by (rule set_update_memI [OF assms(1)])
  have keep: "q \<in> set ts \<Longrightarrow> ts ! i \<noteq> q \<Longrightarrow> q \<in> set ?us" for q by (rule member_update [OF assms(1)])
  have slots: "rv_slots (as_rev b ?r) = rv_slots (as_rev a ?r)" using assms(2) by (cases rule: count_act.cases) auto
  note owed = count_owed [OF assms(1,2)]
  have rem: "rv_remaining (as_rev a ?r) = owed_to (owed (a, ts)) ?r" using assms(3) by (simp add: rev_ok_def)
  have old: "rv_failed (as_rev a ?r) \<Longrightarrow> \<exists>f \<in> named a ?r. state_of_frag a f = Failed"
    "rv_failed (as_rev a ?r) \<Longrightarrow> rv_error (as_rev a ?r) \<noteq> None \<or> (\<exists>pc \<in> set ts. errs ?r pc)"
    "rv_remaining (as_rev a ?r) = 0 \<Longrightarrow> ?r \<in> set (as_completed a) \<or> (\<exists>pc \<in> set ts. pushes ?r pc)"
    "?r \<in> set (as_completed a) \<Longrightarrow> rv_remaining (as_rev a ?r) = 0"
    using assms(3) by (auto simp: rev_ok_def)
  have dec: "owed_to (owed (b, ?us)) ?r + (if \<exists>x r k. ts ! i = Counting x r k then 1 else 0) = owed_to (owed (a, ts)) ?r"
    using owed
  proof (elim disjE exE conjE)
    fix x k
    assume x: "ts ! i = Counting x ?r k" "owed (b, ?us) + {#(x, ?r)#} = owed (a, ts)"
    then show ?thesis by (auto simp flip: x(2))
  qed auto
  show ?thesis
  proof (rule rev_acted [OF assms(3) _ _ _ _ slots])
    show "rv_remaining (as_rev b ?r) = owed_to (owed (b, ?us)) ?r"
      using assms(2) dec rem by (cases rule: count_act.cases) auto
    show "rv_failed (as_rev a ?r) \<Longrightarrow> rv_failed (as_rev b ?r)"
      using assms(2) by (cases rule: count_act.cases) auto
    show "(Some f, ?r) \<in># owed (b, ?us) \<or> settled a f \<and> (state_of_frag a f = Failed \<longrightarrow> rv_failed (as_rev b ?r))"
      if t: "(Some f, ?r) \<in># owed (a, ts)" for f
      using owed
    proof (elim disjE exE conjE)
      fix x k
      assume x: "ts ! i = Counting x ?r k" "owed (b, ?us) + {#(x, ?r)#} = owed (a, ts)"
      then have "(Some f, ?r) \<in># owed (b, ?us) \<or> x = Some f" using t by (auto simp flip: x(2))
      moreover have "as_rev b ?r = (as_rev a ?r)\<lparr>rv_remaining := rv_remaining (as_rev a ?r) - 1\<rparr>"
        using assms(2) x(1) by (cases rule: count_act.cases) auto
      ultimately show ?thesis using assms(4) x(1) by (cases "ts ! i") auto
    qed (use t in simp)
    show "rv_failed (as_rev b ?r) \<Longrightarrow> \<exists>f \<in> named a ?r. state_of_frag a f = Failed"
      using assms(2)
    proof (cases rule: count_act.cases)
      case (note_failed f r k)
      then show ?thesis using names [OF token [of "(Some f, r)"]] by auto
    qed (use old(1) in auto)
    show "rv_failed (as_rev b ?r) \<Longrightarrow> rv_error (as_rev b ?r) \<noteq> None \<or> (\<exists>pc \<in> set ?us. errs ?r pc)"
      using assms(2)
    proof (cases rule: count_act.cases)
      case (note_failed f r k)
      then show ?thesis using new by (intro disjI2 bexI [of _ pc]) auto
    next
      case (err f r k)
      then show ?thesis using assms(4,6) by (auto simp: fragment_error_def frag_ok_def)
    qed (use old(2) keep in fastforce)+
    show "rv_remaining (as_rev b ?r) = 0 \<Longrightarrow> ?r \<in> set (as_completed b) \<or> (\<exists>pc \<in> set ?us. pushes ?r pc)"
      using assms(2)
    proof (cases rule: count_act.cases)
      case (count r x)
      moreover have "0 < rv_remaining (as_rev a r)" using count dec rem by (auto split: if_splits)
      ultimately show "rv_remaining (as_rev b ?r) = 0 \<Longrightarrow> ?thesis" by auto
    next
      case (count_last r x k)
      then show ?thesis using new by (intro disjI2 bexI [of _ pc]) auto
    qed (use old(3) keep in fastforce)+
    show "?r \<in> set (as_completed b) \<Longrightarrow> rv_remaining (as_rev b ?r) = 0"
      using assms(2)
    proof (cases rule: count_act.cases)
      case (push r)
      then show ?thesis using assms(4,7) by auto
    qed (use old(4) in auto)
  qed (use count_same [OF assms(2)] in auto)
qed

lemma count_ok:
  assumes "assembly_ok (a, ts)" "i < length ts" "count_act a (ts ! i) b pc"
  shows "assembly_ok (b, ts[i := pc])"
proof -
  have ok: "taken_ok (a, ts)" "\<forall>f < as_frags a. frag_ok a f" "claims_ok (a, ts)" "owed_ok (a, ts)" "frame_ok a" "pcs_ok (a, ts)"
    and pcok: "pc_ok a (ts ! i)"
    using assms(1,2) by (simp_all add: assembly_ok_def pcs_ok_def)
  have e: "evolves a b" by (rule count_evolves [OF assms(3)])
  note same = count_same [OF assms(3)] and owed = count_owed [OF assms(2,3)]
  have sub: "owed (b, ts[i := pc]) \<subseteq># owed (a, ts)"
    using owed mset_subset_eq_add_left [of "owed (b, ts[i := pc])"] by (elim disjE exE conjE) (simp, metis)
  have slots: "rv_slots (as_rev b q) = rv_slots (as_rev a q)" for q
    using assms(3) by (cases rule: count_act.cases) auto
  have "rev_ok (b, ts[i := pc]) q" if "q \<in> set (as_pending a)" for q
  proof (cases "q = acted (ts ! i)")
    case True
    then show ?thesis using count_rev [OF assms(2,3) _ pcok ok(4,2)] assms(1) that by (simp add: assembly_ok_def)
  next
    case False
    show ?thesis
    proof (rule rev_kept [OF _ e that])
      show "owed_to (owed (b, ts[i := pc])) q = owed_to (owed (a, ts)) q"
        using owed
      proof (elim disjE exE conjE)
        fix x k
        assume x: "owed (b, ts[i := pc]) + {#(x, acted (ts ! i))#} = owed (a, ts)"
        then show ?thesis using False by (auto simp flip: x)
      qed simp
      show "(Some f, q) \<in># owed (b, ts[i := pc])" if t: "(Some f, q) \<in># owed (a, ts)" for f
        using owed
      proof (elim disjE exE conjE)
        fix x k
        assume x: "owed (b, ts[i := pc]) + {#(x, acted (ts ! i))#} = owed (a, ts)"
        show ?thesis using t False by (auto simp flip: x)
      qed (use t in simp)
      show "p \<in> set (ts[i := pc])" if "p \<in> set ts" "errs q p \<or> pushes q p" for p
      proof (rule member_update [OF assms(2) that(1)])
        show "ts ! i \<noteq> p" using False that(2) by (cases p) auto
      qed
    qed (use same False assms(1) that in \<open>auto simp: assembly_ok_def\<close>)
  qed
  moreover have "owed_ok (b, ts[i := pc])"
    using ok(4) same mset_subset_eqD [OF sub] slots by (auto simp: owed_ok_def named_def)
  moreover have "frame_ok b" by (rule frame_kept [OF ok(5) e]) (use same in simp_all)
  moreover have "claims_ok (b, ts[i := pc])"
  proof -
    have "length (filter (claims f) (ts[i := pc])) = length (filter (claims f) ts)" for f
      using assms(3) filter_length_update [OF assms(2), of "claims f" pc] pcok
      by (cases rule: count_act.cases) (auto elim: resumes.elims)
    then show ?thesis using ok(3) same by (simp add: claims_ok_def)
  qed
  moreover have "taken_ok (b, ts[i := pc])"
  proof -
    have "Stored f \<in> set ts \<Longrightarrow> Stored f \<in> set (ts[i := pc])" for f
      by (rule member_update [OF assms(2)]) (use assms(3) in \<open>auto elim: count_act.cases\<close>)
    then show ?thesis using ok(1) same by (auto simp: taken_ok_def)
  qed
  moreover have "\<forall>r \<in> set (as_completed b). r \<le> as_latestSequence b"
  proof -
    have "acted (ts ! i) \<le> as_latestSequence a" using assms(3) pcok by (cases rule: count_act.cases) auto
    then show ?thesis using same assms(1) by (auto simp: assembly_ok_def)
  qed
  ultimately show ?thesis
    using pcs_kept [OF ok(6) e count_pc [OF assms(3) pcok]] assms(1) same ok(2) by (simp add: assembly_ok_def pcs_ok_def frag_ok_def)
qed

text \<open>A fragment made: pending, with nobody waiting.\<close>

lemma makes_ok:
  assumes "assembly_ok (a, ts)" "\<forall>s g. (s, Some g) \<in> set reqs \<longrightarrow> g < as_frags a"
  shows "assembly_ok (a\<lparr>as_frag := (as_frag a)(as_frags a := new_fragment reqs), as_frags := as_frags a + 1\<rparr>, ts)"
proof -
  let ?b = "a\<lparr>as_frag := (as_frag a)(as_frags a := new_fragment reqs), as_frags := as_frags a + 1\<rparr>"
  have e: "evolves a ?b" by (simp add: evolves_def)
  have "held_waiters ?b = held_waiters a" by (simp add: held_waiters_def waiting_def new_fragment_def)
  then have owed: "owed (?b, ts) = owed (a, ts)" by (simp add: owed_split)
  have "rev_ok (?b, ts) q" if "q \<in> set (as_pending a)" for q
    by (rule rev_kept [OF _ e that]) (use assms(1) that owed in \<open>simp_all add: assembly_ok_def\<close>)
  moreover have "frame_ok ?b" by (rule frame_kept [OF _ e]) (use assms(1) in \<open>simp_all add: assembly_ok_def\<close>)
  moreover have "pcs_ok (?b, ts)" using assms(1) pc_evolves [OF e] by (auto simp: pcs_ok_def assembly_ok_def)
  moreover have "\<forall>f < as_frags ?b. frag_ok ?b f"
    using assms by (auto simp: assembly_ok_def frag_ok_def new_fragment_def less_Suc_eq)
  moreover have "claims_ok (?b, ts)"
  proof -
    have old: "length (filter (claims f) ts) \<le> (if f < as_frags a \<and> fr_claimed (as_frag a f) \<and> \<not> settled a f then 1 else 0)" for f
      using assms(1) by (simp add: assembly_ok_def claims_ok_def)
    have "length (filter (claims f) ts) \<le> (if f < as_frags ?b \<and> fr_claimed (as_frag ?b f) \<and> \<not> settled ?b f then 1 else 0)" for f
      using old [of f] by (cases "f = as_frags a") (auto split: if_splits)
    then show ?thesis by (simp add: claims_ok_def)
  qed
  moreover have "taken_ok (?b, ts)" using assms(1) by (auto simp: taken_ok_def assembly_ok_def new_fragment_def less_Suc_eq)
  moreover have "owed_ok (?b, ts)" using assms(1) owed by (simp add: owed_ok_def named_def assembly_ok_def)
  ultimately show ?thesis using assms(1) by (auto simp: assembly_ok_def pcs_ok_def less_Suc_eq)
qed

end
