(* ===== verification/AssemblyProps.thy ===== *)
theory AssemblyProps
  imports AssemblyInv
begin

text \<open>
  Revision assembly over any interleaving: what the frame sees is complete and closed, and no
  completion is lost.
\<close>

text \<open>A seal: the new revision waits for each of its fragments and for the seal itself.\<close>

lemma distinct_fragments_set: "set (distinct_fragments slots) = {f. Some f \<in> set slots}"
  by (force simp: distinct_fragments_def List.map_filter_def)

lemma owed_to_fragments: "owed_to (image_mset (\<lambda>f. (Some f, r)) (mset fs)) q = (if q = r then length fs else 0)"
  by (induction fs) auto

lemma owed_to_zero: "(\<And>x. (x, r) \<notin># M) \<Longrightarrow> owed_to M r = 0"
  unfolding owed_to_def by (induction M) (auto, metis prod.collapse)

lemma owed_to_pos: "(x, r) \<in># M \<Longrightarrow> owed_to M r \<noteq> 0"
  unfolding owed_to_def by (induction M) auto

lemma seals_ok:
  assumes "assembly_ok (a, ts)" "ts \<noteq> []" "ts ! 0 = Idle" "\<forall>f. Some f \<in> set (snd draft) \<longrightarrow> f < as_frags a"
    "seal_draft draft a = Inr (b, r, fs)"
  shows "assembly_ok (b, ts[0 := Attaching r fs])"
proof -
  let ?us = "ts[0 := Attaching r fs]"
  have i: "0 < length ts" using assms(2) by simp
  have b: "r = as_latestSequence a + 1" "fs = distinct_fragments (snd draft)" "closed_slots (as_frag a) (snd draft)"
    "b = a\<lparr>as_latestSequence := r, as_latest := snd draft, as_pending := as_pending a @ [r],
       as_rev := (as_rev a)(r := \<lparr>rv_slots = snd draft, rv_remaining = length fs + 1, rv_failed = False, rv_error = None\<rparr>),
       as_stats := (as_stats a)\<lparr>an_sealed := an_sealed (as_stats a) + 1\<rparr>\<rparr>"
    using assms(5) by (auto simp: seal_draft_def Let_def split: if_splits)
  have e: "evolves a b" using b(1) by (auto simp: b(4) evolves_def)
  have ok: "owed_ok (a, ts)" "frame_ok a" "pcs_ok (a, ts)" "claims_ok (a, ts)" "taken_ok (a, ts)"
    using assms(1) by (simp_all add: assembly_ok_def pcs_ok_def)
  let ?new = "image_mset (\<lambda>f. (Some f, r)) (mset fs) + {#(None, r)#}"
  have "held_waiters b = held_waiters a" by (simp add: held_waiters_def waiting_def b(4))
  then have owed: "owed (b, ?us) = owed (a, ts) + ?new" using owed_update [OF i, of b "Attaching r fs" a] assms(3) by simp
  have none: "(x, r) \<notin># owed (a, ts)" for x using owed_le [OF ok(1), of "(x, r)"] b(1) by auto
  have zero: "owed_to (owed (a, ts)) r = 0" by (rule owed_to_zero) (use none in auto)
  have keep: "q \<in> set ts \<Longrightarrow> q \<noteq> Idle \<Longrightarrow> q \<in> set ?us" for q by (rule member_update [OF i]) (use assms(3) in auto)
  have "rev_ok (b, ?us) q" if "q \<in> set (as_pending b)" for q
  proof (cases "q = r")
    case True
    have n: "named b r = set fs" by (auto simp: named_def b(2,4) distinct_fragments_set)
    have "as_publishedSequence a < r" using ok(2) b(1) by (simp add: frame_ok_def)
    moreover have "set fs \<subseteq> {..<as_frags a}" using assms(4) by (auto simp: b(2) distinct_fragments_set)
    moreover have "r \<notin> set (as_completed a)" using assms(1) b(1) by (auto simp: assembly_ok_def)
    ultimately show ?thesis
      using True zero b(3) by (simp add: rev_ok_def n owed owed_to_fragments) (simp add: b(4))
  next
    case False
    then have q: "q \<in> set (as_pending a)" using that by (simp add: b(4))
    show ?thesis
    proof (rule rev_kept [OF _ e q])
      show "rev_ok (a, ts) q" using assms(1) q by (simp add: assembly_ok_def)
      show "owed_to (owed (b, ?us)) q = owed_to (owed (a, ts)) q" using False by (simp add: owed owed_to_fragments)
      show "p \<in> set ?us" if "p \<in> set ts" "errs q p \<or> pushes q p" for p
      proof -
        have "p \<noteq> Idle" using that(2) by (cases p) auto
        then show ?thesis by (rule keep [OF that(1)])
      qed
      show "(Some f, q) \<in># owed (b, ?us)" if "(Some f, q) \<in># owed (a, ts)" for f using that by (simp add: owed)
    qed (use False in \<open>simp_all add: b(4)\<close>)
  qed
  moreover have "frame_ok b" by (rule frame_kept [OF ok(2) e]) (simp_all add: b(4))
  moreover have "pcs_ok (b, ?us)"
    by (rule pcs_kept [OF ok(3) e]) (use assms(4) in \<open>auto simp: b(2) distinct_fragments_set\<close>, simp_all add: b(4))
  moreover have "claims_ok (b, ?us)"
  proof -
    have "length (filter (claims f) ?us) = length (filter (claims f) ts)" for f
      using filter_length_update [OF i, of "claims f" "Attaching r fs"] assms(3) by simp
    then show ?thesis using ok(4) by (simp add: claims_ok_def b(4))
  qed
  moreover have "taken_ok (b, ?us)" using ok(5) keep by (auto simp: taken_ok_def b(4))
  moreover have "owed_ok (b, ?us)"
  proof -
    have "q \<le> as_latestSequence b \<and> (\<forall>f. x = Some f \<longrightarrow> f \<in> named b q)" if "(x, q) \<in># owed (b, ?us)" for x q
    proof (cases "q = r")
      case True
      then show ?thesis using that none unfolding owed by (auto simp: b(2,4) named_def distinct_fragments_set)
    next
      case False
      then have "(x, q) \<in># owed (a, ts)" using that unfolding owed by auto
      then show ?thesis using owed_le [OF ok(1)] False b(1) by (fastforce simp: b(4) named_def)
    qed
    then show ?thesis by (auto simp: owed_ok_def)
  qed
  moreover have "distinct (as_pending b)" "\<forall>f < as_frags b. frag_ok b f"
    using assms(1) b(1) by (auto simp: b(4) assembly_ok_def frag_ok_def rev_ok_def)
  moreover have "\<forall>q \<in> set (as_completed b). q \<le> as_latestSequence b" using assms(1) b(1) by (fastforce simp: b(4) assembly_ok_def)
  ultimately show ?thesis using assms(4) by (simp add: assembly_ok_def pcs_ok_def) (simp add: b(4))
qed

lemma selects_ok:
  assumes "assembly_ok (a, ts)"
  shows "assembly_ok (select_ready accepts a, ts)"
proof -
  let ?b = "select_ready accepts a"
  have same: "as_frag ?b = as_frag a" "as_frags ?b = as_frags a" "as_rev ?b = as_rev a" "as_completed ?b = as_completed a"
    "as_latest ?b = as_latest a" "as_latestSequence ?b = as_latestSequence a" "as_publishedSequence ?b = as_publishedSequence a"
    "as_pending ?b = as_pending a" "as_held ?b = as_held a" "as_failures ?b = as_failures a"
    by (simp_all add: select_ready_def split: option.splits)
  have e: "evolves a ?b" by (simp add: evolves_def same)
  have owed: "owed (?b, ts) = owed (a, ts)" by (simp add: owed_split held_waiters_def waiting_def same)
  have "frame_ok a" using assms by (simp add: assembly_ok_def)
  then have "frame_ok ?b"
    unfolding frame_ok_def version_ok_def same by (auto simp: select_ready_def split: option.splits if_splits)
  moreover have "pcs_ok (?b, ts)" using assms pc_evolves [OF e] by (auto simp: pcs_ok_def assembly_ok_def)
  moreover have "rev_ok (?b, ts) q" if "q \<in> set (as_pending a)" for q
    by (rule rev_kept [OF _ e that]) (use assms that owed same in \<open>simp_all add: assembly_ok_def\<close>)
  ultimately show ?thesis
    using assms by (simp add: assembly_ok_def pcs_ok_def taken_ok_def claims_ok_def owed_ok_def owed frag_ok_def named_def same)
qed

text \<open>A collection, of the completed revisions \<open>D\<close> so far.\<close>

definition collecting :: "assembler \<Rightarrow> nat set \<Rightarrow> assembler \<times> nat option \<Rightarrow> bool" where
  "collecting a D st \<longleftrightarrow> (case st of (b, newest) \<Rightarrow>
     as_frag b = as_frag a \<and> as_frags b = as_frags a \<and> as_rev b = as_rev a \<and> as_latest b = as_latest a \<and>
     as_latestSequence b = as_latestSequence a \<and> as_publishedSequence b = as_publishedSequence a \<and> as_held b = as_held a \<and>
     as_ready b = as_ready a \<and> as_active b = as_active a \<and> as_completed b = [] \<and>
     set (as_pending b) \<subseteq> set (as_pending a) - D \<and> distinct (as_pending b) \<and>
     set (as_failures b) \<subseteq> set (as_failures a) \<union> {(r, rv_error (as_rev a r)) | r. r \<in> D \<and> r \<in> set (as_pending a) \<and> rv_failed (as_rev a r)} \<and>
     (\<forall>n. newest = Some n \<longrightarrow> n \<in> D \<and> n \<in> set (as_pending a) \<and> \<not> rv_failed (as_rev a n) \<and> as_publishedSequence a < n))"

lemma collecting_one: "collecting a D st \<Longrightarrow> collecting a (insert r D) (collect_one r st)"
  by (auto simp: collecting_def collect_one_def Let_def distinct_removeAll split: prod.splits if_splits)

lemma collecting_fold: "collecting a D st \<Longrightarrow> collecting a (set rs \<union> D) (fold collect_one rs st)"
proof (induction rs arbitrary: D st)
  case (Cons r rs)
  from Cons.IH [OF collecting_one [OF Cons.prems]] show ?case by simp
qed simp

text \<open>A revision with no count left, collected: it has settled for good.\<close>

lemma complete_rev:
  assumes "rev_ok (a, ts) r" "rv_remaining (as_rev a r) = 0" "\<forall>pc \<in> set ts. pc_ok a pc"
  shows "\<forall>f \<in> named a r. settled a f \<and> (state_of_frag a f = Failed \<longrightarrow> rv_failed (as_rev a r))"
    "rv_failed (as_rev a r) \<Longrightarrow> rv_error (as_rev a r) \<noteq> None"
proof -
  have no: "(x, r) \<notin># owed (a, ts)" for x
    using owed_to_pos [of x r "owed (a, ts)"] assms(1,2) by (auto simp: rev_ok_def)
  then show "\<forall>f \<in> named a r. settled a f \<and> (state_of_frag a f = Failed \<longrightarrow> rv_failed (as_rev a r))"
    using assms(1) by (auto simp: rev_ok_def)
  have "\<not> errs r pc" if "pc \<in> set ts" for pc
  proof
    assume "errs r pc"
    then obtain f k where "pc = Erring f r k" by (cases pc) auto
    then have "(Some f, r) \<in># owed (a, ts)"
      using that mset_subset_eqD [OF tokens_owed, of _ ts "(Some f, r)" a] by (auto simp: in_set_conv_nth)
    then show False using no by blast
  qed
  then show "rv_failed (as_rev a r) \<Longrightarrow> rv_error (as_rev a r) \<noteq> None" using assms(1) by (auto simp: rev_ok_def)
qed

lemma collects_ok:
  assumes "assembly_ok (a, ts)"
  shows "assembly_ok (collect a, ts)"
proof -
  obtain a1 newest where f: "fold collect_one (as_completed a) (a\<lparr>as_completed := []\<rparr>, None) = (a1, newest)" by (metis surj_pair)
  have start: "collecting a {} (a\<lparr>as_completed := []\<rparr>, None)" using assms by (simp add: collecting_def assembly_ok_def)
  have c: "collecting a (set (as_completed a)) (a1, newest)" using collecting_fold [OF start, of "as_completed a"] f by simp
  define b where "b = hand_over (publish_newest newest a1)"
  have revs: "\<forall>r \<in> set (as_pending a). rev_ok (a, ts) r" and pcs: "\<forall>pc \<in> set ts. pc_ok a pc" and fr: "frame_ok a"
    using assms by (simp_all add: assembly_ok_def)
  have same: "as_frag b = as_frag a" "as_frags b = as_frags a" "as_rev b = as_rev a" "as_completed b = []"
    "as_latest b = as_latest a" "as_latestSequence b = as_latestSequence a" "as_active b = as_active a" "as_failures b = as_failures a1"
    using c by (auto simp: b_def collecting_def hand_over_def publish_newest_def Let_def split: option.splits)
  have zero: "rv_remaining (as_rev a r) = 0" if "r \<in> set (as_completed a)" "r \<in> set (as_pending a)" for r
    using revs that by (auto simp: rev_ok_def)
  have pub: "as_publishedSequence b = (case newest of None \<Rightarrow> as_publishedSequence a | Some n \<Rightarrow> n)"
    "as_ready b = (case newest of None \<Rightarrow> as_ready a | Some n \<Rightarrow> Some (n, rv_slots (as_rev a n)))" "as_held b = None"
    using c fr by (auto simp: b_def collecting_def hand_over_def publish_newest_def Let_def frame_ok_def split: option.splits)
  have pend: "set (as_pending b) \<subseteq> {r \<in> set (as_pending a). r \<notin> set (as_completed a) \<and> (\<forall>n. newest = Some n \<longrightarrow> n < r)}"
  proof
    fix r assume r: "r \<in> set (as_pending b)"
    then have r1: "r \<in> set (as_pending a1)" "newest = Some n \<Longrightarrow> \<not> r < n" for n
      by (auto simp: b_def hand_over_def publish_newest_def Let_def split: option.splits)
    then have "r \<in> set (as_pending a)" "r \<notin> set (as_completed a)" "newest = Some n \<Longrightarrow> n \<in> set (as_completed a)" for n
      using c by (auto simp: collecting_def)
    then show "r \<in> {r \<in> set (as_pending a). r \<notin> set (as_completed a) \<and> (\<forall>n. newest = Some n \<longrightarrow> n < r)}"
      using r1(2) by (auto simp: not_less le_less)
  qed
  have dist: "distinct (as_pending b)"
    using c by (auto simp: b_def collecting_def hand_over_def publish_newest_def Let_def split: option.splits)
  have e: "evolves a b" using pend by (auto simp: evolves_def same)
  have owed: "owed (b, ts) = owed (a, ts)" by (simp add: owed_split held_waiters_def waiting_def same)
  have "rev_ok (b, ts) r" if "r \<in> set (as_pending b)" for r
  proof -
    have "rev_ok (a, ts) r" "r \<notin> set (as_completed a)" "as_publishedSequence b < r"
      using pend that revs by (auto simp: pub rev_ok_def split: option.splits)
    then show ?thesis by (auto simp: rev_ok_def owed same named_def)
  qed
  moreover have "frame_ok b"
  proof -
    have le: "as_publishedSequence a \<le> as_publishedSequence b" "as_publishedSequence b \<le> as_latestSequence a"
      using c revs fr by (auto simp: pub collecting_def rev_ok_def frame_ok_def split: option.splits)
    have old: "version_ok b v" if "version_ok a v" for v by (rule version_evolves [OF e le(1) that])
    have new: "version_ok b (n, rv_slots (as_rev a n))" if n: "newest = Some n" for n
    proof -
      have x: "n \<in> set (as_completed a)" "n \<in> set (as_pending a)" "\<not> rv_failed (as_rev a n)" using c n by (auto simp: collecting_def)
      then have r: "rev_ok (a, ts) n" using revs by blast
      from complete_rev(1) [OF r zero [OF x(1,2)] pcs] x(3)
      have "\<forall>f \<in> named a n. state_of_frag a f = Ready" by (metis fragment_state.exhaust)
      then show ?thesis using r n by (auto simp: version_ok_def pub same rev_ok_def named_def)
    qed
    have act: "fst w \<le> as_publishedSequence a" if "as_active a = Some w" for w using fr that unfolding frame_ok_def version_ok_def by blast
    have "\<forall>v. as_ready b = Some v \<or> as_active b = Some v \<longrightarrow> version_ok b v"
      using fr old new by (auto simp: pub same frame_ok_def split: option.splits)
    moreover have "\<forall>v w. as_ready b = Some v \<and> as_active b = Some w \<longrightarrow> fst w < fst v"
      using fr act c by (auto simp: pub same frame_ok_def collecting_def split: option.splits)
    moreover have "\<forall>(r, e) \<in> set (as_failures b). e \<noteq> None"
    proof -
      have "rv_error (as_rev a r) \<noteq> None" if "r \<in> set (as_completed a)" "r \<in> set (as_pending a)" "rv_failed (as_rev a r)" for r
        using complete_rev(2) [OF _ zero [OF that(1,2)] pcs that(3)] revs that(2) by blast
      then show ?thesis using c fr by (auto simp: same collecting_def frame_ok_def)
    qed
    ultimately show ?thesis using le(2) by (simp add: frame_ok_def pub(3) same)
  qed
  moreover have "pcs_ok (b, ts)" using pcs pc_evolves [OF e] by (auto simp: pcs_ok_def)
  ultimately have "assembly_ok (b, ts)"
    using assms dist by (simp add: assembly_ok_def pcs_ok_def taken_ok_def claims_ok_def owed_ok_def owed frag_ok_def named_def same)
  moreover have "collect a = b" by (simp add: collect_def f b_def)
  ultimately show ?thesis by simp
qed

section \<open>Every interleaving\<close>

lemma start_ok: "assembly_ok (new_assembler n, replicate k Idle)"
proof -
  have "owed (new_assembler n, replicate k Idle) = {#}" by (induction k) (simp_all add: owed_split held_waiters_def new_assembler_def)
  then show ?thesis
    by (simp add: assembly_ok_def taken_ok_def claims_ok_def owed_ok_def frame_ok_def) (simp add: new_assembler_def)
qed

lemma step_ok: "assembly_step s t \<Longrightarrow> assembly_ok s \<Longrightarrow> assembly_ok t"
  by (induction rule: assembly_step.induct) (blast intro: settle_ok count_ok makes_ok seals_ok collects_ok selects_ok)+

lemma assembly_reachable: "assembly_step\<^sup>*\<^sup>* (new_assembler n, replicate k Idle) s \<Longrightarrow> assembly_ok s"
  by (induction rule: rtranclp_induct) (blast intro: start_ok step_ok)+

lemma version_complete:
  assumes "assembly_ok (a, ts)" "as_ready a = Some v \<or> as_active a = Some v" "slot < length (snd v)" "snd v ! slot = Some f"
  shows "get_value a v slot \<noteq> None \<and>
    (\<forall>(s, g) \<in> set (fr_requirements (as_frag a f)). s < length (snd v) \<and> snd v ! s = g)"
proof -
  have v: "version_ok a v" using assms(1,2) unfolding assembly_ok_def frame_ok_def fst_conv by blast
  have f: "Some f \<in> set (snd v)" using assms(3,4) nth_mem by fastforce
  then have "f < as_frags a" "state_of_frag a f = Ready" using v by (simp_all add: version_ok_def)
  moreover have "frag_ok a f" using assms(1) calculation by (simp add: assembly_ok_def)
  moreover have "f \<in> set (List.map_filter id (snd v))" using f by (force simp: List.map_filter_def)
  ultimately show ?thesis
    using v assms(3,4) by (auto simp: get_value_def fragment_value_def frag_ok_def version_ok_def closed_slots_def)
qed

text \<open>With every thread idle, nothing is owed to a revision whose fragments are settled.\<close>

lemma member_sum: "t \<in># (\<Sum>f < n. M f) \<Longrightarrow> \<exists>f < n. t \<in># M f" for n :: nat
  by (induction n) (auto simp: less_Suc_eq)

lemma settled_completed:
  assumes "assembly_ok (a, ts)" "\<forall>pc \<in> set ts. pc = Idle" "r \<in> set (as_pending a)" "\<forall>f \<in> named a r. settled a f"
  shows "r \<in> set (as_completed a)"
proof -
  have "sum_list (map tokens ts) = {#}" using assms(2) by (induction ts) auto
  then have owed: "owed (a, ts) = held_waiters a" by (simp add: owed_split)
  have "(x, r) \<notin># owed (a, ts)" for x
  proof
    assume t: "(x, r) \<in># owed (a, ts)"
    then obtain f where f: "f < as_frags a" "(x, r) \<in># waiting a f" unfolding owed held_waiters_def by (auto dest: member_sum)
    then have "x = Some f" by (auto simp: waiting_def split: waiters.splits)
    then have "f \<in> named a r" using owed_le [OF _ t] assms(1) by (auto simp: assembly_ok_def)
    then have "settled a f" using assms(4) by blast
    then have "fr_waiters (as_frag a f) = Closed" using assms(1,2) f(1) by (auto simp: assembly_ok_def taken_ok_def)
    then show False using f(2) by (simp add: waiting_def)
  qed
  then have "owed_to (owed (a, ts)) r = 0" by (rule owed_to_zero)
  moreover have "rev_ok (a, ts) r" using assms(1,3) by (simp add: assembly_ok_def)
  ultimately show ?thesis using assms(2) by (auto simp: rev_ok_def)
qed

text \<open>
  Claim C33. Whatever producers settle, the coordinator seals and collects and the frame selects, in
  any interleaving of their atomic instructions: each slot of the revision the frame holds or may
  select next gives its fragment's value, and each fragment's requirements are in their slots (the
  cut is closed and complete); the next one is newer than the held one; a reported failure carries
  its error; and no completion is lost: with no settlement under way, a pending revision whose
  fragments are all settled is on the stack the next \<open>Collect\<close> takes.
\<close>

theorem assembled_revisions_complete:
  assumes "assembly_step\<^sup>*\<^sup>* (new_assembler n, replicate k Idle) (a, ts)"
  shows "(\<forall>v slot f. (as_ready a = Some v \<or> as_active a = Some v) \<and> slot < length (snd v) \<and> snd v ! slot = Some f \<longrightarrow>
       get_value a v slot \<noteq> None \<and>
       (\<forall>(s, g) \<in> set (fr_requirements (as_frag a f)). s < length (snd v) \<and> snd v ! s = g)) \<and>
    (\<forall>v w. as_ready a = Some v \<and> as_active a = Some w \<longrightarrow> fst w < fst v) \<and>
    (\<forall>(r, e) \<in> set (as_failures a). e \<noteq> None) \<and>
    ((\<forall>pc \<in> set ts. pc = Idle) \<longrightarrow>
       (\<forall>r \<in> set (as_pending a). (\<forall>f. Some f \<in> set (rv_slots (as_rev a r)) \<longrightarrow> state_of_frag a f \<noteq> Pending) \<longrightarrow> r \<in> set (as_completed a)))"
proof (intro conjI)
  have ok: "assembly_ok (a, ts)" by (rule assembly_reachable [OF assms])
  then have fr: "frame_ok a" by (simp add: assembly_ok_def)
  show "\<forall>v slot f. (as_ready a = Some v \<or> as_active a = Some v) \<and> slot < length (snd v) \<and> snd v ! slot = Some f \<longrightarrow>
       get_value a v slot \<noteq> None \<and> (\<forall>(s, g) \<in> set (fr_requirements (as_frag a f)). s < length (snd v) \<and> snd v ! s = g)"
    by (intro allI impI, elim conjE) (rule version_complete [OF ok], assumption+)
  show "\<forall>v w. as_ready a = Some v \<and> as_active a = Some w \<longrightarrow> fst w < fst v" "\<forall>(r, e) \<in> set (as_failures a). e \<noteq> None"
    using fr unfolding frame_ok_def by blast+
  show "(\<forall>pc \<in> set ts. pc = Idle) \<longrightarrow>
     (\<forall>r \<in> set (as_pending a). (\<forall>f. Some f \<in> set (rv_slots (as_rev a r)) \<longrightarrow> state_of_frag a f \<noteq> Pending) \<longrightarrow> r \<in> set (as_completed a))"
    using settled_completed [OF ok] by (auto simp: named_def)
qed

section \<open>A run\<close>

text \<open>One slot: a fragment is made and resolved, a revision naming it is sealed, collected and selected.\<close>

definition demo_frag :: fragment where
  "demo_frag = \<lparr>fr_requirements = [], fr_claimed = True, fr_state = Ready, fr_value = Some 5, fr_error = None, fr_waiters = Closed\<rparr>"

definition demo_settled :: assembler where
  "demo_settled = (new_assembler 1)\<lparr>as_frag := (\<lambda>_. new_fragment [])(0 := demo_frag), as_frags := 1\<rparr>"

definition demo_sealed :: "nat \<Rightarrow> nat list \<Rightarrow> assembler" where
  "demo_sealed remaining completed = demo_settled\<lparr>as_rev := (as_rev demo_settled)(1 := \<lparr>rv_slots = [Some 0], rv_remaining = remaining, rv_failed = False, rv_error = None\<rparr>),
     as_completed := completed, as_latest := [Some 0], as_latestSequence := 1, as_pending := [1],
     as_stats := (as_stats demo_settled)\<lparr>an_sealed := 1\<rparr>\<rparr>"

lemma demo_settles: "assembly_step\<^sup>*\<^sup>* (new_assembler 1, [Idle, Idle]) (demo_settled, [Idle, Idle])"
proof -
  let ?a1 = "(new_assembler 1)\<lparr>as_frag := (as_frag (new_assembler 1))(as_frags (new_assembler 1) := new_fragment []),
    as_frags := as_frags (new_assembler 1) + 1\<rparr>"
  let ?a2 = "upd_frag 0 (\<lambda>fr. fr\<lparr>fr_claimed := True\<rparr>) ?a1"
  let ?a3 = "upd_frag 0 (settle_fragment (Resolves 5)) ?a2"
  let ?a4 = "upd_frag 0 (\<lambda>fr. fr\<lparr>fr_waiters := Closed\<rparr>) ?a3"
  have "assembly_step (new_assembler 1, [Idle, Idle]) (?a1, [Idle, Idle])" by (rule makes) simp
  moreover have "assembly_step (?a1, [Idle, Idle]) (?a2, [Idle, Idle][1 := Claimed 0 (Resolves 5)])"
    by (rule settles) (simp, simp, rule claim, simp_all add: new_assembler_def new_fragment_def)
  moreover have "assembly_step (?a2, [Idle, Claimed 0 (Resolves 5)]) (?a3, [Idle, Claimed 0 (Resolves 5)][1 := Stored 0])"
    by (rule settles) (simp, simp, rule store)
  moreover have "assembly_step (?a3, [Idle, Stored 0]) (?a4, [Idle, Stored 0][1 := Walk 0 []])"
    by (rule settles) (simp, simp, rule close, simp add: new_assembler_def new_fragment_def settle_fragment_def)
  moreover have "assembly_step (?a4, [Idle, Walk 0 []]) (?a4, [Idle, Walk 0 []][1 := Idle])"
    by (rule settles) (simp, simp, rule walked)
  moreover have "?a4 = demo_settled"
    by (simp add: upd_frag_def demo_settled_def demo_frag_def new_assembler_def new_fragment_def settle_fragment_def)
  ultimately show ?thesis by simp
qed

lemma demo_counts: "assembly_step\<^sup>*\<^sup>* (demo_settled, [Idle, Idle]) (demo_sealed 0 [1], [Idle, Idle])"
proof -
  have eval: "as_frag demo_settled 0 = demo_frag" "as_frags demo_settled = 1" "as_latest demo_settled = [None]" "as_latestSequence demo_settled = 0"
    "as_pending demo_settled = []" "as_completed demo_settled = []" "an_sealed (as_stats demo_settled) = 0"
    by (simp_all add: demo_settled_def new_assembler_def)
  have frag: "as_frag (demo_sealed m c) 0 = demo_frag" for m c by (simp add: demo_sealed_def eval)
  have "seal_draft (0, [Some 0]) demo_settled = Inr (demo_sealed 2 [], 1, [0])"
    by (simp add: seal_draft_def eval closed_slots_def distinct_fragments_def List.map_filter_def demo_frag_def demo_sealed_def Let_def)
      (simp add: demo_settled_def new_assembler_def numeral_2_eq_2)
  then have "assembly_step (demo_settled, [Idle, Idle]) (demo_sealed 2 [], [Idle, Idle][0 := Attaching 1 [0]])"
    by (intro seals) (simp_all add: eval)
  moreover have "assembly_step (demo_sealed 2 [], [Attaching 1 [0], Idle]) (demo_sealed 2 [], [Attaching 1 [0], Idle][0 := Noting 0 1 (Attaching 1 [])])"
    by (rule settles) (simp, simp, rule attach_closed, simp add: frag demo_frag_def)
  moreover have "assembly_step (demo_sealed 2 [], [Noting 0 1 (Attaching 1 []), Idle])
      (demo_sealed 2 [], [Noting 0 1 (Attaching 1 []), Idle][0 := Counting (Some 0) 1 (Attaching 1 [])])"
    by (rule counts) (simp, simp, rule note_ready, simp add: frag demo_frag_def)
  moreover have "assembly_step (demo_sealed 2 [], [Counting (Some 0) 1 (Attaching 1 []), Idle])
      (upd_rev 1 (\<lambda>rv. rv\<lparr>rv_remaining := rv_remaining rv - 1\<rparr>) (demo_sealed 2 []), [Counting (Some 0) 1 (Attaching 1 []), Idle][0 := Attaching 1 []])"
    by (rule counts) (simp, simp only: nth_Cons_0, rule count, simp add: demo_sealed_def)
  moreover have "assembly_step (demo_sealed 1 [], [Attaching 1 [], Idle]) (demo_sealed 1 [], [Attaching 1 [], Idle][0 := Counting None 1 Idle])"
    by (rule settles) (simp, simp, rule attached)
  moreover have "assembly_step (demo_sealed 1 [], [Counting None 1 Idle, Idle])
      (upd_rev 1 (\<lambda>rv. rv\<lparr>rv_remaining := rv_remaining rv - 1\<rparr>) (demo_sealed 1 []), [Counting None 1 Idle, Idle][0 := Pushing 1 Idle])"
    by (rule counts) (simp, simp only: nth_Cons_0, rule count_last, simp add: demo_sealed_def)
  moreover have "assembly_step (demo_sealed 0 [], [Pushing 1 Idle, Idle])
      ((demo_sealed 0 [])\<lparr>as_completed := 1 # as_completed (demo_sealed 0 [])\<rparr>, [Pushing 1 Idle, Idle][0 := Idle])"
    by (rule counts) (simp, simp, rule push)
  moreover have "upd_rev 1 (\<lambda>rv. rv\<lparr>rv_remaining := rv_remaining rv - 1\<rparr>) (demo_sealed 2 []) = demo_sealed 1 []"
    "upd_rev 1 (\<lambda>rv. rv\<lparr>rv_remaining := rv_remaining rv - 1\<rparr>) (demo_sealed 1 []) = demo_sealed 0 []"
    "(demo_sealed 0 [])\<lparr>as_completed := 1 # as_completed (demo_sealed 0 [])\<rparr> = demo_sealed 0 [1]"
    by (simp_all add: demo_sealed_def upd_rev_def)
  ultimately show ?thesis by simp
qed

lemma demo_collects:
  "\<exists>a. assembly_step\<^sup>*\<^sup>* (demo_sealed 0 [1], [Idle, Idle]) (a, [Idle, Idle]) \<and> as_active a = Some (1, [Some 0])"
proof -
  have "assembly_step (demo_sealed 0 [1], [Idle, Idle]) (collect (demo_sealed 0 [1]), [Idle, Idle])" by (rule collects) simp_all
  moreover have "assembly_step (collect (demo_sealed 0 [1]), [Idle, Idle]) (select_ready True (collect (demo_sealed 0 [1])), [Idle, Idle])"
    by (rule selects)
  moreover have "as_ready (collect (demo_sealed 0 [1])) = Some (1, [Some 0])"
    by (simp add: collect_def collect_one_def publish_newest_def hand_over_def demo_sealed_def demo_settled_def new_assembler_def Let_def)
  then have "as_active (select_ready True (collect (demo_sealed 0 [1]))) = Some (1, [Some 0])" by (simp add: select_ready_def)
  ultimately show ?thesis by (meson converse_rtranclp_into_rtranclp rtranclp.rtrancl_refl)
qed

theorem assembled_revisions_complete_witness:
  "\<exists>a. assembly_step\<^sup>*\<^sup>* (new_assembler 1, replicate 2 Idle) (a, [Idle, Idle]) \<and> as_active a = Some (1, [Some 0]) \<and>
     get_value a (1, [Some 0]) 0 \<noteq> None"
proof -
  obtain a where "assembly_step\<^sup>*\<^sup>* (demo_sealed 0 [1], [Idle, Idle]) (a, [Idle, Idle])" and a: "as_active a = Some (1, [Some 0])"
    using demo_collects by blast
  then have run: "assembly_step\<^sup>*\<^sup>* (new_assembler 1, replicate 2 Idle) (a, [Idle, Idle])"
    using demo_settles demo_counts by (simp add: numeral_2_eq_2)
  then show ?thesis using conjunct1 [OF assembled_revisions_complete [OF run]] a by fastforce
qed

end
