(* ===== verification/GraphTypes.thy ===== *)
theory GraphTypes
  imports Prelude
begin

text \<open>
  The vocabulary of the artifact graph (\<^verbatim>\<open>Async/ArtifactIdentity.h\<close>, \<^verbatim>\<open>ArtifactResources.h\<close>,
  \<^verbatim>\<open>ArtifactSnapshot.h\<close>, \<^verbatim>\<open>ArtifactBuild.h\<close>): addresses and versions, readiness, requirements,
  what a request is answered. Payloads, submission sets and lease tokens are numbers.
\<close>

section \<open>Identities\<close>

record address =
  ad_kind :: nat
  ad_primaryID :: u64
  ad_variantID :: u64

record version_id =
  vi_address :: address
  vi_revision :: nat
  vi_generation :: nat

record version_handle =
  vh_version :: version_id
  vh_lease :: "nat option"

definition blank_address :: address where
  "blank_address = \<lparr>ad_kind = 0, ad_primaryID = 0, ad_variantID = 0\<rparr>"

definition blank_id :: version_id where
  "blank_id = \<lparr>vi_address = blank_address, vi_revision = 0, vi_generation = 0\<rparr>"

text \<open>\<open>explicit operator bool\<close> of a version and of a handle.\<close>

definition valid_id :: "version_id \<Rightarrow> bool" where
  "valid_id v \<longleftrightarrow> vi_revision v \<noteq> 0 \<and> vi_generation v \<noteq> 0"

definition valid_handle :: "version_handle \<Rightarrow> bool" where
  "valid_handle h \<longleftrightarrow> valid_id (vh_version h) \<and> vh_lease h \<noteq> None"

datatype request_status = Accepted | AlreadyDesired | StaleRevision | ConflictingRevision | MissingFingerprint | TypeMismatch | ShuttingDown

record request_result =
  rr_status :: request_status
  rr_generation :: nat
  rr_version :: version_id
  rr_lease :: "nat option"

definition request_granted :: "request_result \<Rightarrow> bool" where
  "request_granted rr \<longleftrightarrow> rr_status rr = Accepted \<or> rr_status rr = AlreadyDesired"

definition result_handle :: "request_result \<Rightarrow> version_handle" where
  "result_handle rr = \<lparr>vh_version = rr_version rr, vh_lease = rr_lease rr\<rparr>"

definition conflicting :: request_result where
  "conflicting = \<lparr>rr_status = ConflictingRevision, rr_generation = 0, rr_version = blank_id, rr_lease = None\<rparr>"

section \<open>Readiness\<close>

datatype readiness =
    Missing
  | Blocked
  | Queued
  | Preparing
  | CpuReady
  | UploadSubmitted
  | GpuReady
  | Published
  | Superseded
  | CancelledState
  | FailedState

text \<open>The enumerator's number.\<close>

fun readiness_rank :: "readiness \<Rightarrow> nat" where
  "readiness_rank Missing = 0"
| "readiness_rank Blocked = 1"
| "readiness_rank Queued = 2"
| "readiness_rank Preparing = 3"
| "readiness_rank CpuReady = 4"
| "readiness_rank UploadSubmitted = 5"
| "readiness_rank GpuReady = 6"
| "readiness_rank Published = 7"
| "readiness_rank Superseded = 8"
| "readiness_rank CancelledState = 9"
| "readiness_rank FailedState = 10"

definition terminated :: "readiness \<Rightarrow> bool" where
  "terminated s \<longleftrightarrow> s = FailedState \<or> s = CancelledState \<or> s = Superseded"

definition reached_milestone :: "readiness \<Rightarrow> readiness \<Rightarrow> bool" where
  "reached_milestone actual required =
     (if actual = Published then True
      else if terminated actual then False
      else readiness_rank required \<le> readiness_rank actual)"

section \<open>Requirements\<close>

datatype dependency_policy = AllOf | AnyOf | Optional | FallbackAllowed

datatype invalidation_policy = ExactSnapshot | LatestVersion | ReadyGate | LifetimeHold

record artifact_requirement =
  rq_key :: address
  rq_minimumRevision :: nat
  rq_requiredReadiness :: readiness
  rq_policy :: dependency_policy
  rq_alternativeGroup :: nat
  rq_invalidation :: invalidation_policy
  rq_requiredGeneration :: nat

definition exact_requirement :: "version_id \<Rightarrow> readiness \<Rightarrow> dependency_policy \<Rightarrow> nat \<Rightarrow> artifact_requirement" where
  "exact_requirement v ready policy alternative =
     \<lparr>rq_key = vi_address v, rq_minimumRevision = vi_revision v, rq_requiredReadiness = ready, rq_policy = policy,
      rq_alternativeGroup = alternative, rq_invalidation = ExactSnapshot, rq_requiredGeneration = vi_generation v\<rparr>"

definition latest_at_least :: "address \<Rightarrow> nat \<Rightarrow> readiness \<Rightarrow> dependency_policy \<Rightarrow> nat \<Rightarrow> artifact_requirement" where
  "latest_at_least ad minimum ready policy alternative =
     \<lparr>rq_key = ad, rq_minimumRevision = minimum, rq_requiredReadiness = ready, rq_policy = policy,
      rq_alternativeGroup = alternative, rq_invalidation = LatestVersion, rq_requiredGeneration = 0\<rparr>"

definition latest_requirement :: "address \<Rightarrow> readiness \<Rightarrow> dependency_policy \<Rightarrow> nat \<Rightarrow> artifact_requirement" where
  "latest_requirement ad ready policy alternative = latest_at_least ad 0 ready policy alternative"

definition version_gate :: "version_id \<Rightarrow> readiness \<Rightarrow> artifact_requirement" where
  "version_gate v ready =
     \<lparr>rq_key = vi_address v, rq_minimumRevision = vi_revision v, rq_requiredReadiness = ready, rq_policy = AllOf,
      rq_alternativeGroup = 0, rq_invalidation = ReadyGate, rq_requiredGeneration = vi_generation v\<rparr>"

definition address_gate :: "address \<Rightarrow> readiness \<Rightarrow> artifact_requirement" where
  "address_gate ad ready =
     \<lparr>rq_key = ad, rq_minimumRevision = 0, rq_requiredReadiness = ready, rq_policy = AllOf,
      rq_alternativeGroup = 0, rq_invalidation = ReadyGate, rq_requiredGeneration = 0\<rparr>"

definition lifetime_hold :: "version_id \<Rightarrow> artifact_requirement" where
  "lifetime_hold v =
     \<lparr>rq_key = vi_address v, rq_minimumRevision = vi_revision v, rq_requiredReadiness = CpuReady, rq_policy = Optional,
      rq_alternativeGroup = 0, rq_invalidation = LifetimeHold, rq_requiredGeneration = vi_generation v\<rparr>"

section \<open>Snapshots\<close>

record snapshot =
  sn_key :: address
  sn_revision :: nat
  sn_generation :: nat
  sn_readiness :: readiness
  sn_payload :: "nat option"
  sn_gpuSubmissions :: "nat option"
  sn_lease :: "nat option"

definition snapshot_version :: "snapshot \<Rightarrow> version_id" where
  "snapshot_version sn = \<lparr>vi_address = sn_key sn, vi_revision = sn_revision sn, vi_generation = sn_generation sn\<rparr>"

end
