(* ===== verification/Family.thy ===== *)
theory Family
  imports Build Journal GraphTypes
begin

text \<open>
  \<^verbatim>\<open>include/ORGModuleServices/Async/VersionedBufferFamily.h\<close>: the manager of one persistent buffer
  address. It turns contents and journal captures into intents for the graph, and remembers the
  version last acknowledged. The host's request service is an argument: what it answers to an
  intent (\<open>serve\<close>); what is posted is returned. Each locked section is the whole of an operation
  here, the capture's image a value (\<open>capture_image\<close>). Counts and revisions are \<open>nat\<close> below
  \<open>2 ^ 64\<close>, wrapped where the code adds; fingerprints are words.
\<close>

unbundle bit_operations_syntax

section \<open>Intents\<close>

record intent =
  it_key :: address
  it_desiredRevision :: nat
  it_input :: build_input
  it_fingerprint :: u64

section \<open>The family\<close>

record family_config =
  fc_address :: address
  fc_debugName :: string
  fc_elementStride :: nat
  fc_flags :: backing_flags
  fc_tag :: "nat option"
  fc_gpuWritten :: bool
  fc_framesInFlight :: nat
  fc_supersededWindow :: "nat option"
  fc_hasPool :: bool

record family =
  fm_config :: family_config
  fm_previous :: "published_version option"
  fm_lastJournalRevision :: nat
  fm_lastJournalHandle :: version_handle
  fm_lastContentFingerprint :: u64
  fm_lastContentRevision :: nat
  fm_nextContentRevision :: nat

definition blank_handle :: version_handle where
  "blank_handle = \<lparr>vh_version = blank_id, vh_lease = None\<rparr>"

definition new_family :: "family_config \<Rightarrow> family result" where
  "new_family config =
     (if fc_elementStride config = 0 \<or> \<not> fc_hasPool config then Inl (InvalidArgument ''invalid versioned buffer family configuration'')
      else Inr \<lparr>fm_config = config, fm_previous = None, fm_lastJournalRevision = 0, fm_lastJournalHandle = blank_handle,
        fm_lastContentFingerprint = 0, fm_lastContentRevision = 0, fm_nextContentRevision = 0\<rparr>)"

definition make_input :: "family \<Rightarrow> build_input" where
  "make_input fm =
     (let c = fm_config fm in
      \<lparr>bi_uploadService = True, bi_debugName = fc_debugName c, bi_writeSequence = 0, bi_elementStride = fc_elementStride c,
       bi_elementCount = 0, bi_capacity = 0, bi_flags = fc_flags c, bi_gpuWritten = fc_gpuWritten c, bi_tag = fc_tag c,
       bi_previous = None, bi_hasPool = fc_hasPool c, bi_writes = [], bi_image = None, bi_journalBaseSequence = 0, bi_bytes = [],
       bi_predecessorCopy = False, bi_changedSince = None, bi_emitDelta = None, bi_growth = None, bi_shrink = never\<rparr>)"

text \<open>The FNV loop, and a fingerprint that must not be zero.\<close>

definition fnv :: "byte list \<Rightarrow> u64 \<Rightarrow> u64" where
  "fnv bytes start = fold (\<lambda>b hash. (hash XOR ucast b) * 1099511628211) bytes start"

definition not_zero :: "u64 \<Rightarrow> u64" where
  "not_zero hash = (if hash = 0 then 1 else hash)"

definition make_snapshot_intent :: "nat \<Rightarrow> byte list \<Rightarrow> nat \<Rightarrow> nat \<Rightarrow> family \<Rightarrow> intent" where
  "make_snapshot_intent revision bytes elementCount capacity fm =
     (let c = fm_config fm;
          inp = (make_input fm)\<lparr>bi_writeSequence := revision, bi_elementCount := elementCount,
            bi_capacity := max (max capacity elementCount) 1, bi_previous := fm_previous fm, bi_bytes := bytes\<rparr>;
          start = of_nat revision XOR push_bit 17 (ad_variantID (fc_address c)) XOR push_bit 1 (of_nat elementCount) XOR
            push_bit 33 (of_nat (fc_elementStride c)) XOR 0x5642554646414d
      in \<lparr>it_key = fc_address c, it_desiredRevision = revision, it_input = inp, it_fingerprint = not_zero (fnv bytes start)\<rparr>)"

definition request_snapshot ::
  "(intent \<Rightarrow> request_result) \<Rightarrow> bool \<Rightarrow> nat \<Rightarrow> byte list \<Rightarrow> nat \<Rightarrow> nat \<Rightarrow> family \<Rightarrow> request_result" where
  "request_snapshot serve uploads revision bytes elementCount capacity fm =
     (if \<not> uploads \<or> revision = 0 \<or> length bytes \<noteq> u64 (elementCount * fc_elementStride (fm_config fm)) then conflicting
      else serve (make_snapshot_intent revision bytes elementCount capacity fm))"

definition request_gpu_written :: "(intent \<Rightarrow> request_result) \<Rightarrow> bool \<Rightarrow> nat \<Rightarrow> nat \<Rightarrow> nat \<Rightarrow> family \<Rightarrow> request_result" where
  "request_gpu_written serve uploads revision elementCount capacity fm =
     (if \<not> uploads \<or> revision = 0 \<or> \<not> fc_gpuWritten (fm_config fm) then conflicting
      else
        let c = fm_config fm;
            inp = (make_input fm)\<lparr>bi_writeSequence := revision, bi_elementCount := elementCount,
              bi_capacity := max (max capacity elementCount) 1, bi_gpuWritten := True\<rparr>;
            fingerprint = of_nat revision XOR push_bit 1 (of_nat elementCount) XOR push_bit 7 (of_nat (bi_capacity inp)) XOR
              push_bit 17 (ad_variantID (fc_address c)) XOR 0x4750555752495445
        in serve \<lparr>it_key = fc_address c, it_desiredRevision = revision, it_input = inp, it_fingerprint = not_zero fingerprint\<rparr>)"

section \<open>Revisions by contents\<close>

definition content_fingerprint :: "byte list \<Rightarrow> nat \<Rightarrow> nat \<Rightarrow> u64" where
  "content_fingerprint bytes elementCount capacity =
     fnv bytes 1469598103934665603 XOR (of_nat elementCount + push_bit 1 (of_nat capacity))"

definition content_revision :: "byte list \<Rightarrow> nat \<Rightarrow> nat \<Rightarrow> family \<Rightarrow> family \<times> nat" where
  "content_revision bytes elementCount capacity fm =
     (let fingerprint = content_fingerprint bytes elementCount capacity in
      if fm_lastContentRevision fm = 0 \<or> fm_lastContentFingerprint fm \<noteq> fingerprint
      then
        let next = u64 (fm_nextContentRevision fm + 1) in
        (fm\<lparr>fm_lastContentFingerprint := fingerprint, fm_nextContentRevision := next, fm_lastContentRevision := next\<rparr>, next)
      else (fm, fm_lastContentRevision fm))"

definition request_content_snapshot ::
  "(intent \<Rightarrow> request_result) \<Rightarrow> bool \<Rightarrow> byte list \<Rightarrow> nat \<Rightarrow> nat \<Rightarrow> family \<Rightarrow> family \<times> request_result" where
  "request_content_snapshot serve uploads bytes elementCount capacity fm =
     (case content_revision bytes elementCount capacity fm of
        (fm', revision) \<Rightarrow> (fm', request_snapshot serve uploads revision bytes elementCount capacity fm'))"

definition post_content_snapshot ::
  "bool \<Rightarrow> byte list \<Rightarrow> nat \<Rightarrow> nat \<Rightarrow> family \<Rightarrow> family \<times> intent option \<times> version_id" where
  "post_content_snapshot uploads bytes elementCount capacity fm =
     (if \<not> uploads \<or> length bytes \<noteq> u64 (elementCount * fc_elementStride (fm_config fm)) then (fm, None, blank_id)
      else
        case content_revision bytes elementCount capacity fm of
          (fm', revision) \<Rightarrow>
            if revision = 0 then (fm', None, blank_id)
            else (fm', Some (make_snapshot_intent revision bytes elementCount capacity fm'),
              \<lparr>vi_address = fc_address (fm_config fm), vi_revision = revision, vi_generation = 0\<rparr>))"

section \<open>Captures\<close>

definition make_capture_intent :: "page_store \<Rightarrow> nat \<Rightarrow> capture \<Rightarrow> family \<Rightarrow> intent" where
  "make_capture_intent ps revision cp fm =
     (let c = fm_config fm;
          inp = (make_input fm)\<lparr>bi_gpuWritten := False, bi_writeSequence := cp_writeSequence cp, bi_elementCount := cp_elementCount cp,
            bi_capacity := cp_capacity cp, bi_previous := cp_previous cp, bi_writes := cp_writes cp, bi_image := Some (capture_image ps cp),
            bi_journalBaseSequence := cp_journalBaseSequence cp\<rparr>;
          start = of_nat revision XOR push_bit 1 (of_nat (cp_elementCount cp)) XOR push_bit 7 (of_nat (cp_capacity cp)) XOR
            push_bit 17 (ad_variantID (fc_address c)) XOR 0x5642464a4f5552;
          fingerprint = fold (\<lambda>w hash. hash XOR (of_nat (bw_sequence w) XOR push_bit 3 (of_nat (bw_byteOffset w)) XOR
            push_bit 11 (of_nat (bw_byteSize w)))) (cp_writes cp) start
      in \<lparr>it_key = fc_address c, it_desiredRevision = revision, it_input = inp, it_fingerprint = not_zero fingerprint\<rparr>)"

definition request_capture ::
  "(intent \<Rightarrow> request_result) \<Rightarrow> bool \<Rightarrow> page_store \<Rightarrow> nat \<Rightarrow> capture \<Rightarrow> family \<Rightarrow> family \<times> intent option \<times> request_result" where
  "request_capture serve uploads ps revision cp fm =
     (if \<not> uploads \<or> revision = 0 \<or> cp_writeSequence cp \<noteq> revision then (fm, None, conflicting)
      else if revision = fm_lastJournalRevision fm \<and> valid_handle (fm_lastJournalHandle fm)
      then let h = fm_lastJournalHandle fm in
        (fm, None, \<lparr>rr_status = AlreadyDesired, rr_generation = vi_generation (vh_version h), rr_version = vh_version h, rr_lease = vh_lease h\<rparr>)
      else
        let it = make_capture_intent ps revision cp fm; rr = serve it in
        (if request_granted rr then fm\<lparr>fm_lastJournalRevision := revision, fm_lastJournalHandle := result_handle rr\<rparr> else fm, Some it, rr))"

definition post_capture :: "bool \<Rightarrow> page_store \<Rightarrow> nat \<Rightarrow> capture \<Rightarrow> family \<Rightarrow> family \<times> intent option \<times> version_id" where
  "post_capture uploads ps revision cp fm =
     (let ident = \<lparr>vi_address = fc_address (fm_config fm), vi_revision = revision, vi_generation = 0\<rparr> in
      if \<not> uploads \<or> revision = 0 \<or> cp_writeSequence cp \<noteq> revision then (fm, None, blank_id)
      else if revision = fm_lastJournalRevision fm then (fm, None, ident)
      else (fm\<lparr>fm_lastJournalRevision := revision, fm_lastJournalHandle := blank_handle\<rparr>, Some (make_capture_intent ps revision cp fm), ident))"

section \<open>The version acknowledged\<close>

definition superseded_window :: "family_config \<Rightarrow> nat" where
  "superseded_window c =
     (case fc_supersededWindow c of Some w \<Rightarrow> w | None \<Rightarrow> u64 (2 * max (fc_framesInFlight c) 1 + 1))"

definition acknowledge_version :: "published_version option \<Rightarrow> family \<times> pool_state \<Rightarrow> family \<times> pool_state" where
  "acknowledge_version version st =
     (case (version, st) of
        (None, _) \<Rightarrow> st
      | (Some v, fm, pl, ck) \<Rightarrow>
          (case fm_previous fm of
             None \<Rightarrow> (fm\<lparr>fm_previous := Some v\<rparr>, pl, ck)
           | Some q \<Rightarrow>
               if pv_revision v \<le> pv_revision q then st
               else
                 let window = superseded_window (fm_config fm);
                     bind = pv_lease q \<noteq> None \<and> pv_backingEpoch q \<noteq> pv_backingEpoch v \<and> window \<noteq> 0
                 in (fm\<lparr>fm_previous := Some v\<rparr>, if bind then lease_bind (pv_lease q) (ck_completed ck + of_nat window) pl else pl, ck)))"

end
