(* ===== verification/FamilyProps.thy ===== *)
theory FamilyProps
  imports Family JournalClaims BuildDemo
begin

text \<open>
  The family between the journal, the builds and the pool: a capture's intent brings exactly the
  journal's bytes into the buffer, a superseded backing waits out its window, contents are named
  by their revision; and the journal whose captures a build cannot catch up from.
\<close>

section \<open>Contents\<close>

text \<open>The revisions of a list of contents, each of bytes, rows and capacity.\<close>

fun content_revisions :: "(byte list \<times> nat \<times> nat) list \<Rightarrow> family \<Rightarrow> nat list" where
  "content_revisions [] fm = []"
| "content_revisions ((bytes, elementCount, capacity) # cs) fm =
     (case content_revision bytes elementCount capacity fm of (fm', revision) \<Rightarrow> revision # content_revisions cs fm')"

abbreviation print_of :: "byte list \<times> nat \<times> nat \<Rightarrow> u64" where
  "print_of c \<equiv> content_fingerprint (fst c) (fst (snd c)) (snd (snd c))"

lemma all_le_Suc: "(\<forall>k \<le> Suc j. P k) \<longleftrightarrow> P 0 \<and> (\<forall>k \<le> j. P (Suc k))"
  by (simp only: less_Suc_eq_le [symmetric] All_less_Suc2)

lemma all_between_Suc: "(\<forall>k. Suc i \<le> k \<and> k \<le> Suc j \<longrightarrow> P k) \<longleftrightarrow> (\<forall>k. i \<le> k \<and> k \<le> j \<longrightarrow> P (Suc k))"
proof (intro iffI allI impI)
  fix k
  assume "\<forall>k. i \<le> k \<and> k \<le> j \<longrightarrow> P (Suc k)" "Suc i \<le> k \<and> k \<le> Suc j"
  then show "P k" by (cases k) auto
qed auto

definition content_ok :: "family \<Rightarrow> bool" where
  "content_ok fm \<longleftrightarrow> fm_lastContentRevision fm = fm_nextContentRevision fm"

lemma content_revision_step:
  assumes "content_ok fm" "fm_nextContentRevision fm < u64_max" "content_revision bytes elementCount capacity fm = (fm', revision)"
  shows "content_ok fm' \<and> fm_lastContentFingerprint fm' = content_fingerprint bytes elementCount capacity \<and>
    fm_nextContentRevision fm' = revision \<and> 0 < revision \<and>
    revision = (if fm_nextContentRevision fm = 0 \<or> fm_lastContentFingerprint fm \<noteq> content_fingerprint bytes elementCount capacity
      then fm_nextContentRevision fm + 1 else fm_nextContentRevision fm)"
  using assms by (auto simp: content_ok_def content_revision_def Let_def wrap_simps split: if_splits)

lemma length_content_revisions [simp]: "length (content_revisions cs fm) = length cs"
  by (induction cs fm rule: content_revisions.induct) (auto split: prod.splits)

lemma content_revisions_from:
  assumes "content_ok fm" "fm_nextContentRevision fm + length cs \<le> u64_max" "i < length cs"
  shows "fm_nextContentRevision fm \<le> content_revisions cs fm ! i \<and> 0 < content_revisions cs fm ! i \<and>
    (0 < fm_nextContentRevision fm \<longrightarrow>
       (content_revisions cs fm ! i = fm_nextContentRevision fm \<longleftrightarrow> (\<forall>k \<le> i. print_of (cs ! k) = fm_lastContentFingerprint fm)))"
  using assms
proof (induction cs arbitrary: fm i)
  case (Cons c cs)
  obtain bytes n m where c: "c = (bytes, n, m)" by (cases c)
  obtain fm' r where s: "content_revision bytes n m fm = (fm', r)" by fastforce
  have lt: "fm_nextContentRevision fm < u64_max" using Cons.prems(2) by simp
  note st = content_revision_step [OF Cons.prems(1) lt s]
  have room: "fm_nextContentRevision fm' + length cs \<le> u64_max" using st Cons.prems(2) by (auto split: if_splits)
  show ?case
  proof (cases i)
    case 0
    then show ?thesis using st by (auto simp: c s)
  next
    case (Suc j)
    then have j: "j < length cs" using Cons.prems(3) by simp
    have all: "(\<forall>k \<le> i. print_of ((c # cs) ! k) = f) \<longleftrightarrow> print_of c = f \<and> (\<forall>k \<le> j. print_of (cs ! k) = f)" for f
      by (simp add: Suc all_le_Suc)
    note ih = Cons.IH [OF _ room j] st
    then have ih': "fm_nextContentRevision fm' \<le> content_revisions cs fm' ! j" "0 < content_revisions cs fm' ! j"
      "content_revisions cs fm' ! j = r \<longleftrightarrow> (\<forall>k \<le> j. print_of (cs ! k) = fm_lastContentFingerprint fm')"
      by (auto simp: st)
    show ?thesis unfolding all using ih' st j by (auto simp: c s Suc split: if_splits)
  qed
qed simp

text \<open>
  A content's revision names it: along any list of snapshots of contents, revisions are
  positive and never go back, and two of them have the same revision exactly when every snapshot
  from the one to the other has the same fingerprint. (Fewer than \<open>2 ^ 64\<close> of them.)
\<close>

theorem contents_named:
  assumes "new_family config = Inr fm" and "length cs \<le> u64_max" and "i \<le> j" and "j < length cs"
  shows "0 < content_revisions cs fm ! i \<and> content_revisions cs fm ! i \<le> content_revisions cs fm ! j \<and>
    (content_revisions cs fm ! i = content_revisions cs fm ! j \<longleftrightarrow>
       (\<forall>k. i \<le> k \<and> k \<le> j \<longrightarrow> print_of (cs ! k) = print_of (cs ! i)))"
proof -
  have "content_ok fm \<and> fm_nextContentRevision fm + length cs \<le> u64_max"
    using assms(1,2) by (auto simp: new_family_def content_ok_def split: if_splits)
  then show ?thesis
    using assms(3,4)
  proof (induction cs arbitrary: fm i j)
    case (Cons c cs)
    obtain bytes n m where c: "c = (bytes, n, m)" by (cases c)
    obtain fm' r where s: "content_revision bytes n m fm = (fm', r)" by fastforce
    have ok: "content_ok fm" "fm_nextContentRevision fm < u64_max" using Cons.prems(1) by simp_all
    note st = content_revision_step [OF ok s]
    have ok': "content_ok fm' \<and> fm_nextContentRevision fm' + length cs \<le> u64_max" using st Cons.prems(1) by (auto split: if_splits)
    show ?case
    proof (cases i)
      case (Suc i1)
      then obtain j1 where j1: "j = Suc j1" using Cons.prems(2) by (cases j) auto
      have "(\<forall>k. i \<le> k \<and> k \<le> j \<longrightarrow> print_of ((c # cs) ! k) = f) \<longleftrightarrow> (\<forall>k. i1 \<le> k \<and> k \<le> j1 \<longrightarrow> print_of (cs ! k) = f)" for f
        unfolding Suc j1 all_between_Suc by simp
      then show ?thesis using Cons.IH [OF ok', of i1 j1] Cons.prems(2,3) by (simp add: c s Suc j1)
    next
      case 0
      show ?thesis
      proof (cases j)
        case 0
        then show ?thesis using st \<open>i = 0\<close> by (simp add: c s)
      next
        case (Suc j1)
        then have "j1 < length cs" using Cons.prems(3) by simp
        note f = content_revisions_from [OF conjunct1 [OF ok'] conjunct2 [OF ok'] this]
        have "(\<forall>k. i \<le> k \<and> k \<le> j \<longrightarrow> print_of ((c # cs) ! k) = print_of c) \<longleftrightarrow> (\<forall>k \<le> j1. print_of (cs ! k) = print_of c)"
          unfolding 0 Suc by (simp add: all_le_Suc)
        then show ?thesis using f st unfolding 0 Suc by (auto simp: c s)
      qed
    qed
  qed simp
qed

definition demo_family :: family_config where
  "demo_family = \<lparr>fc_address = blank_address, fc_debugName = [], fc_elementStride = 8, fc_flags = no_flags, fc_tag = None,
     fc_gpuWritten = False, fc_framesInFlight = 3, fc_supersededWindow = None, fc_hasPool = True\<rparr>"

definition demo_manager :: family where
  "demo_manager = \<lparr>fm_config = demo_family, fm_previous = None, fm_lastJournalRevision = 0, fm_lastJournalHandle = blank_handle,
     fm_lastContentFingerprint = 0, fm_lastContentRevision = 0, fm_nextContentRevision = 0\<rparr>"

lemma demo_manager_new: "new_family demo_family = Inr demo_manager"
  by (simp add: new_family_def demo_manager_def demo_family_def)

theorem contents_named_witness:
  "content_revisions [([1], 1, 1), ([1], 1, 1), ([2], 1, 1)] demo_manager ! 0 = content_revisions [([1], 1, 1), ([1], 1, 1), ([2], 1, 1)] demo_manager ! 1"
proof -
  let ?cs = "[([1], 1, 1), ([1], 1, 1), ([2], 1, 1)] :: (byte list \<times> nat \<times> nat) list"
  have "print_of (?cs ! k) = print_of (?cs ! 0)" if "0 \<le> k \<and> k \<le> 1" for k using that by (cases k) auto
  then show ?thesis using contents_named [OF demo_manager_new, of ?cs 0 1] by (simp add: u64_max_def)
qed

section \<open>The superseded version\<close>

text \<open>
  When a version is acknowledged over one of another backing, that backing waits out the
  family's window: whatever the threads do afterwards, an acquire that hands it out finds the clock
  past what was completed then plus the window, or tells its caller to write no earlier.
\<close>

theorem superseded_not_reused:
  assumes "pool_reachable (pl0, ck0)" and "fm_previous fm = Some q" and "pv_lease q = Some p" and "bk_leases (pl_heap pl0 p) \<noteq> 0"
    and "pv_revision q < pv_revision v" and "pv_backingEpoch q \<noteq> pv_backingEpoch v" and "superseded_window (fm_config fm) \<noteq> 0"
    and "acknowledge_version (Some v) (fm, pl0, ck0) = (fm', pl1, ck1)" and "pool_step\<^sup>*\<^sup>* (pl1, ck1) (pl, ck)"
    and "acquire alloc racing rq prefer (pl, ck) = ((pl', ck'), Inr (Some p, info))"
  shows "fm_previous fm' = Some v \<and>
    (ck_completed ck0 + of_nat (superseded_window (fm_config fm)) \<le> ck_completed ck \<or>
     ck_completed ck0 + of_nat (superseded_window (fm_config fm)) \<le> ai_writeAfter info)"
proof -
  have a: "fm' = fm\<lparr>fm_previous := Some v\<rparr>" "ck1 = ck0"
    "pl1 = lease_bind (Some p) (ck_completed ck0 + of_nat (superseded_window (fm_config fm))) pl0"
    using assms(2-8) by (auto simp: acknowledge_version_def Let_def)
  from bound_not_reused [OF assms(1,4) assms(9) [unfolded a(2,3)] assms(10)] show ?thesis by (simp add: a(1))
qed

definition demo_superseded :: published_version where
  "demo_superseded = blank_version\<lparr>pv_revision := 1, pv_lease := Some 0, pv_backingEpoch := 1\<rparr>"

definition demo_successor :: published_version where
  "demo_successor = blank_version\<lparr>pv_revision := 2, pv_backingEpoch := 2\<rparr>"

theorem superseded_not_reused_witness:
  "\<exists>info. snd (demo_ask (demo_returned True 7)) = Inr (Some 0, info) \<and> (7 :: u64) \<le> ai_writeAfter info"
proof -
  let ?fm = "demo_manager\<lparr>fm_previous := Some demo_superseded\<rparr>"
  obtain st where eq: "demo_ask (demo_returned True 7) = (st, Inr (Some 0, no_info\<lparr>ai_writeAfter := 7\<rparr>))"
    by (metis demo_reused_bound prod.collapse)
  have window: "superseded_window (fm_config ?fm) = 7" by (simp add: superseded_window_def demo_manager_def demo_family_def u64_def)
  have zero: "ck_completed (snd (demo_leased True 0)) = 0" by (simp add: demo_leased_def new_clock_def)
  have "acknowledge_version (Some demo_successor) (?fm, fst (demo_leased True 0), snd (demo_leased True 0)) =
      (?fm\<lparr>fm_previous := Some demo_successor\<rparr>, fst (demo_leased True 7), snd (demo_leased True 7))"
    using arg_cong [OF demo_bind [of True], of fst] arg_cong [OF demo_bind [of True], of snd] window zero
    by (simp add: acknowledge_version_def Let_def demo_superseded_def demo_successor_def blank_version_def)
  moreover have "pool_step\<^sup>*\<^sup>* (demo_leased True 7) (demo_returned True 7)"
    using pool_step.other [OF demo_reset_step [of 7 True]] by simp
  ultimately have "0 + (7 :: u64) \<le> ck_completed (snd (demo_returned True 7)) \<or> 0 + (7 :: u64) \<le> ai_writeAfter (no_info\<lparr>ai_writeAfter := 7\<rparr>)"
    using superseded_not_reused [of "fst (demo_leased True 0)" "snd (demo_leased True 0)" ?fm demo_superseded 0 demo_successor _ _ _
        "fst (demo_returned True 7)" "snd (demo_returned True 7)" demo_alloc "(no_race, no_race)" demo_rq 9 "fst st" "snd st"]
      demo_leased_reachable [of True] demo_leased_lease [of True 0] eq window zero
    by (simp add: demo_ask_def demo_superseded_def demo_successor_def blank_version_def)
  then show ?thesis unfolding demo_reused_bound by (auto simp: demo_returned_def new_clock_def)
qed

section \<open>From the journal to the buffer\<close>

text \<open>
  A backing that was filled from an earlier capture of the same journal: its image is what the
  journal held after some of the operations, recorded at the sequence of that moment, and the
  operations since neither initialize the journal again nor leave a gap (\<open>no_gaps\<close>).
\<close>

definition holds_earlier :: "journal_op list \<Rightarrow> nat \<Rightarrow> backing \<Rightarrow> bool" where
  "holds_earlier ops stride b \<longleftrightarrow>
     (\<exists>before after w old. ops = before @ after \<and> journal_run before (new_world stride) = Some w \<and>
        bk_image b = Some old \<and> materialize old = js_bytes w \<and> im_byteSize old = length (js_bytes w) \<and>
        unat (bk_contentEpoch b) = jn_writeSequence (jw_journal w) \<and>
        no_gaps (length (js_bytes w)) after (fold desired_step before (new_desired stride)))"

lemma earlier_catches_up:
  assumes "\<forall>op \<in> set ops. op_fits stride op" and "journal_run ops (new_world stride) = Some w"
    and "bi_writes inp = jn_writes (jw_journal w)" and "bi_journalBaseSequence inp = jn_journalBaseSequence (jw_journal w)"
    and "materialize im = js_bytes w" and "im_byteSize im = length (js_bytes w)" and "holds_earlier ops stride b"
  shows "catches_up inp im b"
proof -
  obtain before after w0 old where o: "ops = before @ after" "journal_run before (new_world stride) = Some w0"
      "bk_image b = Some old" "materialize old = js_bytes w0" "im_byteSize old = length (js_bytes w0)"
      "unat (bk_contentEpoch b) = jn_writeSequence (jw_journal w0)"
      "no_gaps (length (js_bytes w0)) after (fold desired_step before (new_desired stride))"
    using assms(7) unfolding holds_earlier_def by blast
  have run: "journal_run after w0 = Some w" using assms(2) o(1,2) by (simp add: world_run_append)
  note cov = covered_since [OF assms(1) [unfolded o(1)] o(2) run o(7)]
  show ?thesis
    unfolding catches_up_def o(3) assms(3,4) using cov o(4-6) assms(5,6) by auto
qed

text \<open>
  Claim C34. From the journal's operations to the buffer's bytes: run any operations on a journal
  (each capacity they give, times the stride, fitting 64 bits: \<open>op_fits\<close>),
  capture it, let the family request the capture and the build of that intent return a version;
  once its uploads ran, the version's buffer begins with exactly the bytes the operations
  specify (the last image, overwritten by each accepted write), nothing else changed, and the
  backing is recorded at the capture's sequence. Required of the pool: each backing that claims
  contents holds them (\<open>truthful\<close>), and either it was filled from an earlier capture of this
  journal, since when the journal was not initialized again and no append left a gap
  (\<open>holds_earlier\<close>), or else the capture's writes newer than its epoch cover what differs
  (\<open>catches_up\<close>).
\<close>

theorem captured_bytes_built:
  assumes "\<forall>op \<in> set ops. op_fits stride op" and "journal_run ops (new_world stride) = Some w"
    and "capture_desired (journal_state_of w) = (js, cp)"
    and "request_capture serve True (snd js) revision cp fm = (fm', Some it, rr)"
    and "state_ok (pl, ck)" and "build (it_input it) ctx env (pl, ck) = Some ((st', out), calls)" and "bo_kind out = Ready"
    and "bo_version out = Some v" and "pv_lease v = Some p" and "pv_resource v = Some buffer" and "needs_content (it_input it)"
    and "cp_byteSize cp \<le> length (mem buffer)"
    and "\<forall>q < pl_next pl. truthful mem (pl_heap pl q) \<and>
      (holds_earlier ops stride (pl_heap pl q) \<or> catches_up (it_input it) (capture_image (snd js) cp) (pl_heap pl q))"
  shows "exec_calls calls mem = mem(buffer := ds_bytes (fold desired_step ops (new_desired stride)) @ drop (cp_byteSize cp) (mem buffer)) \<and>
    it_desiredRevision it = revision \<and> bk_contentEpoch (pl_heap (fst st') p) = of_nat revision"
proof -
  have w: "world_inv w" "desired_of w = fold desired_step ops (new_desired stride)"
    using world_run [OF new_world_inv [of stride], of ops] assms(1,2) by (auto simp: new_world_desired new_world_stride)
  then have ok: "world_ok w" by (simp add: world_inv_def)
  note cs = capture_step [OF ok assms(3)]
  have bytes: "materialize (capture_image (snd js) cp) = js_bytes w" "js_bytes w = ds_bytes (fold desired_step ops (new_desired stride))"
    using cs(3) by (simp_all add: capture_bytes_def desired_of_def flip: w(2))
  have "world_ok ((put_journal js w)\<lparr>jw_captures := cp # jw_captures w\<rparr>)" using cs(1) by (simp add: step_ok_def)
  then have paged: "paged (cp_byteSize cp) (map (pg_mem (snd js)) (cp_pages cp))"
    by (simp add: world_ok_def Let_def put_journal_def)
  have it: "it = make_capture_intent (snd js) revision cp fm" "cp_writeSequence cp = revision"
    using assms(4) by (auto simp: request_capture_def Let_def split: if_splits)
  then have inp: "bi_image (it_input it) = Some (capture_image (snd js) cp)" "bi_writeSequence (it_input it) = revision"
    "it_desiredRevision it = revision" "bi_writes (it_input it) = cp_writes cp"
    "bi_journalBaseSequence (it_input it) = cp_journalBaseSequence cp" by (simp_all add: make_capture_intent_def Let_def)
  have im: "capture_image (snd js) cp = from_pages (map Some (map (pg_mem (snd js)) (cp_pages cp))) (cp_byteSize cp)"
    by (simp add: capture_image_def comp_def)
  have fields: "cp_writes cp = jn_writes (jw_journal w)" "cp_journalBaseSequence cp = jn_journalBaseSequence (jw_journal w)"
    using assms(3) by (auto simp: capture_desired_def journal_state_of_def)
  have size: "im_byteSize (capture_image (snd js) cp) = length (js_bytes w)"
    using materialize_pages [OF paged_concat_length [OF paged]] paged_concat_length [OF paged] bytes(1) by (simp add: im from_pages_def)
  note caught = earlier_catches_up [OF assms(1,2) inp(4,5) [unfolded fields] bytes(1) size]
  have pool: "\<forall>q < pl_next pl. truthful mem (pl_heap pl q) \<and> catches_up (it_input it) (capture_image (snd js) cp) (pl_heap pl q)"
    using assms(13) caught by blast
  show ?thesis
    using uploads_image [OF assms(5-11) inp(1) im paged assms(12) pool] inp(2,3) by (simp add: bytes)
qed

text \<open>
  Four rows of eight bytes, of which the second is written again: the capture is built on the
  pool's one backing, which was filled from the capture before that write.
\<close>

definition demo_row :: "byte list" where
  "demo_row = replicate 8 2"

definition demo_ops :: "journal_op list" where
  "demo_ops = [Initialize demo_old 4 4, AppendWrite 1 demo_row 4]"

lemma rows_captured:
  assumes "length bs = 32" and "length row = 8"
  shows "\<exists>w js cp. journal_run [Initialize bs 4 4, AppendWrite 1 row 4] (new_world 8) = Some w \<and> capture_desired (journal_state_of w) = (js, cp) \<and>
    cp_writeSequence cp = 2 \<and> cp_elementCount cp = 4 \<and> cp_capacity cp = 4 \<and> cp_previous cp = None \<and> cp_journalBaseSequence cp = 0 \<and>
    cp_byteSize cp = 32 \<and> cp_writes cp = [\<lparr>bw_sequence = 2, bw_byteOffset = 8, bw_byteSize = 8\<rparr>] \<and>
    map (pg_mem (snd js)) (cp_pages cp) = [take 8 bs @ row @ drop 16 bs]"
proof -
  have "bs \<noteq> []" "row \<noteq> []" using assms by auto
  then show ?thesis using assms by (simp add: journal_eval)
qed

lemma rows_initialized:
  assumes "length bs = 32"
  shows "\<exists>w. journal_run [Initialize bs 4 4] (new_world 8) = Some w \<and> js_bytes w = bs \<and> jn_writeSequence (jw_journal w) = 1"
proof -
  have "bs \<noteq> []" using assms by auto
  then show ?thesis using assms by (simp add: journal_eval)
qed

lemma demo_row_written: "take 8 demo_old @ demo_row @ drop 16 demo_old = demo_new" "length demo_row = 8" "demo_row \<noteq> []"
  by (simp_all add: demo_old_def demo_row_def demo_new_def)

lemma demo_capture:
  obtains w js cp where "journal_run demo_ops (new_world 8) = Some w" and "capture_desired (journal_state_of w) = (js, cp)"
    and "it_input (make_capture_intent (snd js) 2 cp demo_manager) = demo_catch_up"
    and "cp_writeSequence cp = 2" and "cp_byteSize cp = 32" and "capture_image (snd js) cp = image_of demo_new"
proof -
  obtain w js cp where r: "journal_run demo_ops (new_world 8) = Some w" "capture_desired (journal_state_of w) = (js, cp)"
    and c: "cp_writeSequence cp = 2" "cp_elementCount cp = 4" "cp_capacity cp = 4" "cp_previous cp = None" "cp_journalBaseSequence cp = 0"
      "cp_byteSize cp = 32" "cp_writes cp = [\<lparr>bw_sequence = 2, bw_byteOffset = 8, bw_byteSize = 8\<rparr>]"
      "map (pg_mem (snd js)) (cp_pages cp) = [demo_new]"
    using rows_captured [OF demo_lengths(1) demo_row_written(2), unfolded demo_row_written(1), folded demo_ops_def] by (elim exE conjE) (rule that)
  have im: "capture_image (snd js) cp = image_of demo_new"
    using arg_cong [OF c(8), of "map Some"] by (simp add: capture_image_def image_of_def c(6) comp_def)
  show ?thesis
    by (rule that [OF r _ c(1,6) im])
      (simp add: make_capture_intent_def Let_def c im make_input_def demo_manager_def demo_family_def demo_catch_up_def demo_input_def)
qed

lemma demo_filled_earlier: "holds_earlier demo_ops 8 (demo_backing\<lparr>bk_contentEpoch := 1, bk_image := Some (image_of demo_old)\<rparr>)"
proof -
  obtain w where w: "journal_run [Initialize demo_old 4 4] (new_world 8) = Some w" "js_bytes w = demo_old" "jn_writeSequence (jw_journal w) = 1"
    using rows_initialized [OF demo_lengths(1)] by blast
  have "no_gaps 32 [AppendWrite 1 demo_row 4] (fold desired_step [Initialize demo_old 4 4] (new_desired 8))"
    by (simp add: new_desired_def image_fits_def JournalProps.write_fits_def demo_row_written(2))
  then show ?thesis
    unfolding holds_earlier_def demo_ops_def using w
    by (intro exI [of _ "[Initialize demo_old 4 4]"] exI [of _ "[AppendWrite 1 demo_row 4]"] exI [of _ w] exI [of _ "image_of demo_old"])
      (simp add: demo_materialize, simp add: image_of_def from_pages_def)
qed

theorem captured_bytes_built_witness:
  "exec_calls demo_range_calls demo_memory 0 = demo_new @ [5, 6] \<and> ds_bytes (fold desired_step demo_ops (new_desired 8)) = demo_new"
proof -
  obtain w js cp where c: "journal_run demo_ops (new_world 8) = Some w" "capture_desired (journal_state_of w) = (js, cp)"
    "it_input (make_capture_intent (snd js) 2 cp demo_manager) = demo_catch_up"
    "cp_writeSequence cp = 2" "cp_byteSize cp = 32" "capture_image (snd js) cp = image_of demo_new"
    by (rule demo_capture)
  define it where "it = make_capture_intent (snd js) 2 cp demo_manager"
  have inp: "it_input it = demo_catch_up" using c(3) by (simp add: it_def)
  have rq: "request_capture (\<lambda>_. conflicting) True (snd js) 2 cp demo_manager = (demo_manager, Some it, conflicting)"
    using c(4) by (simp add: request_capture_def Let_def it_def demo_manager_def conflicting_def request_granted_def)
  obtain st where b0: "build demo_catch_up demo_context (demo_env 1) (demo_held 1 (Some (image_of demo_old))) =
     Some (publish_built demo_catch_up demo_context demo_replace 0 0 (Some (image_of demo_new)) [0] (in_backing 0 forget st), demo_range_calls)"
    by (rule demo_catch_up_build)
  obtain st' out v where p: "publish_built demo_catch_up demo_context demo_replace 0 0 (Some (image_of demo_new)) [0] (in_backing 0 forget st) = (st', out)"
    "bo_kind out = Ready" "bo_version out = Some v" "pv_lease v = Some 0" "pv_resource v = Some 0"
    by (rule demo_publish)
  obtain pl ck where s: "demo_held 1 (Some (image_of demo_old)) = (pl, ck)" by (cases "demo_held 1 (Some (image_of demo_old))")
  have pl: "pl = fst (demo_held 1 (Some (image_of demo_old)))" using s by simp
  have ok: "state_ok (pl, ck)" using demo_held_ok s by metis
  have b: "build (it_input it) demo_context (demo_env 1) (pl, ck) = Some ((st', out), demo_range_calls)"
    using b0 p(1) s by (simp add: inp)
  have fits: "\<forall>op \<in> set demo_ops. op_fits 8 op" by (simp add: demo_ops_def u64_max_def)
  have needs: "needs_content (it_input it)" by (simp add: inp needs_content_def demo_catch_up_def demo_input_def no_flags_def)
  have room: "cp_byteSize cp \<le> length (demo_memory 0)" by (simp add: c(5) demo_memory_def)
  have "holds_earlier demo_ops 8 (pl_heap pl q)" if "q < pl_next pl" for q
    using that demo_held_eval [of 1 "Some (image_of demo_old)"] demo_filled_earlier by (simp add: pl)
  then have held: "\<forall>q < pl_next pl. truthful demo_memory (pl_heap pl q) \<and>
      (holds_earlier demo_ops 8 (pl_heap pl q) \<or> catches_up (it_input it) (capture_image (snd js) cp) (pl_heap pl q))"
    using demo_held_contents(1) [OF s] by blast
  have d: "ds_bytes (fold desired_step demo_ops (new_desired 8)) = demo_new"
    using demo_row_written by (simp add: demo_ops_def new_desired_def image_fits_def JournalProps.write_fits_def stretched_def blit_def)
  from captured_bytes_built [OF fits c(1,2) rq ok b p(2-5) needs room held]
  show ?thesis by (simp add: d c(5) demo_memory_def)
qed

section \<open>A capture the build cannot catch up from\<close>

lemma stale_capture:
  assumes "length bs = 300"
  shows "\<exists>w js cp. journal_run [Initialize bs 300 1000, AppendWrite 600 [1] 601, ReplaceImage [1] 1 1000, AppendWrite 299 [1] 300] (new_world 1) = Some w \<and>
    capture_desired (journal_state_of w) = (js, cp) \<and> cp_writeSequence cp = 4 \<and> cp_elementCount cp = 300 \<and> cp_journalBaseSequence cp = 0 \<and>
    cp_byteSize cp = 300 \<and> map (\<lambda>a. length (pg_mem (snd js) a)) (cp_pages cp) = [300] \<and>
    cp_writes cp = [\<lparr>bw_sequence = 2, bw_byteOffset = 600, bw_byteSize = 1\<rparr>, \<lparr>bw_sequence = 3, bw_byteOffset = 0, bw_byteSize = 1\<rparr>,
      \<lparr>bw_sequence = 4, bw_byteOffset = 299, bw_byteSize = 1\<rparr>]"
proof -
  have "bs \<noteq> []" using assms by auto
  then show ?thesis using assms by (simp add: journal_eval)
qed

lemma stale_uploads:
  assumes "length page = 300" "\<And>calls call. be_serve env calls call \<noteq> None"
  shows "upload_ranges env [Some page] buffer False
    [\<lparr>br_offset = 0, br_size = 1\<rparr>, \<lparr>br_offset = 299, br_size = 1\<rparr>, \<lparr>br_offset = 600, br_size = 1\<rparr>] [] [] = None"
proof -
  have g: "gather_segments [Some page] 0 1 = Some ([piece 0 1 page], 0)" "gather_segments [Some page] 299 1 = Some ([piece 299 1 page], 0)"
    "gather_segments [Some page] 600 1 = None"
    using assms(1) by (simp_all add: gather_segments.simps page_bytes_def Let_def)
  obtain t u where "be_serve env [] (UploadSegments [piece 0 1 page] 1 buffer 0) = Some t"
    "be_serve env [UploadSegments [piece 0 1 page] 1 buffer 0] (UploadSegments [piece 299 1 page] 1 buffer 299) = Some u"
    using assms(2) by blast
  then show ?thesis using g by (simp add: Let_def)
qed

text \<open>
  Claim C35. A replacement by fewer rows keeps the earlier writes, so that a capture may name a write past its
  image. A build that catches up from the capture then reads past the end of the image's page (in
  the model, the undefined result \<open>None\<close>): here for any first image of 300 bytes, and any leased
  backing that holds it and an upload service that takes every call.
\<close>

theorem stale_write_reads_past_image:
  assumes "length bs = 300"
  shows "\<exists>w js cp. journal_run [Initialize bs 300 1000, AppendWrite 600 [1] 601, ReplaceImage [1] 1 1000, AppendWrite 299 [1] 300] (new_world 1) = Some w \<and>
    capture_desired (journal_state_of w) = (js, cp) \<and>
    (\<forall>fm ctx env choice p acquired st old.
       fm_config fm = demo_family\<lparr>fc_elementStride := 1\<rparr> \<and> bk_contentEpoch (pl_heap (fst st) p) = 1 \<and>
       bk_image (pl_heap (fst st) p) = Some old \<and> im_byteSize old = 300 \<and> 300 \<le> bk_byteCapacity (pl_heap (fst st) p) \<and>
       bk_buffer (pl_heap (fst st) p) \<noteq> None \<and> \<not> bk_retired (pl_heap (fst st) p) \<and> \<not> ai_allocated acquired \<and> \<not> bc_stop ctx 1 \<and>
       (\<forall>calls call. be_serve env calls call \<noteq> None) \<longrightarrow>
       build_leased (it_input (make_capture_intent (snd js) 4 cp fm)) ctx env choice p acquired st = None)"
proof -
  obtain w js cp where r: "journal_run [Initialize bs 300 1000, AppendWrite 600 [1] 601, ReplaceImage [1] 1 1000, AppendWrite 299 [1] 300] (new_world 1) = Some w"
    "capture_desired (journal_state_of w) = (js, cp)"
    and c: "cp_writeSequence cp = 4" "cp_elementCount cp = 300" "cp_journalBaseSequence cp = 0" "cp_byteSize cp = 300"
      "map (\<lambda>a. length (pg_mem (snd js) a)) (cp_pages cp) = [300]"
      "cp_writes cp = [\<lparr>bw_sequence = 2, bw_byteOffset = 600, bw_byteSize = 1\<rparr>, \<lparr>bw_sequence = 3, bw_byteOffset = 0, bw_byteSize = 1\<rparr>,
        \<lparr>bw_sequence = 4, bw_byteOffset = 299, bw_byteSize = 1\<rparr>]"
    using stale_capture [OF assms] by (elim exE conjE) (rule that)
  obtain a where a: "cp_pages cp = [a]" "length (pg_mem (snd js) a) = 300" using c(5) by (cases "cp_pages cp") auto
  have "build_leased (it_input (make_capture_intent (snd js) 4 cp fm)) ctx env choice p acquired st = None"
    if h: "fm_config fm = demo_family\<lparr>fc_elementStride := 1\<rparr>" "bk_contentEpoch (pl_heap (fst st) p) = 1"
      "bk_image (pl_heap (fst st) p) = Some old" "im_byteSize old = 300" "300 \<le> bk_byteCapacity (pl_heap (fst st) p)"
      "bk_buffer (pl_heap (fst st) p) \<noteq> None" "\<not> bk_retired (pl_heap (fst st) p)" "\<not> ai_allocated acquired" "\<not> bc_stop ctx 1"
      "\<And>calls call. be_serve env calls call \<noteq> None"
    for fm ctx env choice p acquired st old
  proof -
    let ?inp = "it_input (make_capture_intent (snd js) 4 cp fm)" and ?b = "pl_heap (fst st) p"
    have im: "bi_image ?inp = Some (from_pages [Some (pg_mem (snd js) a)] 300)"
      by (simp add: make_capture_intent_def Let_def capture_image_def a c)
    have inp: "bi_writes ?inp = cp_writes cp" "bi_writeSequence ?inp = 4" "bi_journalBaseSequence ?inp = 0" "\<not> bi_gpuWritten ?inp"
      "bi_elementCount ?inp = 300" "bi_elementStride ?inp = 1" "bi_flags ?inp = no_flags"
      by (simp_all add: make_capture_intent_def Let_def make_input_def h(1) demo_family_def c)
    have d: "dirty_ranges ?inp (from_pages [Some (pg_mem (snd js) a)] 300) False ?b =
        [\<lparr>br_offset = 0, br_size = 1\<rparr>, \<lparr>br_offset = 299, br_size = 1\<rparr>, \<lparr>br_offset = 600, br_size = 1\<rparr>]"
      by (simp add: dirty_ranges_def journal_covers_def catch_up_ranges_def Let_def im inp c(6) h(2,3,4) from_pages_def)
    obtain buffer where b: "bk_buffer ?b = Some buffer" using h(6) by auto
    have f: "\<not> bf_indirectArguments no_flags" "im_pages (from_pages [Some (pg_mem (snd js) a)] 300) = [Some (pg_mem (snd js) a)]"
      "im_byteSize (from_pages [Some (pg_mem (snd js) a)] 300) = 300" by (simp_all add: no_flags_def from_pages_def)
    show ?thesis
      unfolding build_leased_def Let_def
      by (simp add: inp h(5,7,8,9) u64_def build_image_def im b needs_content_def f d stale_uploads [OF a(2) h(10)] not_less del: upload_ranges.simps One_nat_def)
  qed
  then show ?thesis using r by blast
qed
definition stale_state :: pool_state where
  "stale_state = ((fst (demo_leased False 0))\<lparr>pl_heap := \<lambda>_. demo_backing\<lparr>bk_contentEpoch := 1, bk_image := Some (from_pages [] 300),
     bk_byteCapacity := 300\<rparr>\<rparr>, new_clock)"

theorem stale_write_reads_past_image_witness:
  "\<exists>js cp. build_leased (it_input (make_capture_intent js 4 cp (demo_manager\<lparr>fm_config := demo_family\<lparr>fc_elementStride := 1\<rparr>\<rparr>)))
     demo_context ((demo_env 0)\<lparr>be_serve := \<lambda>_ _. Some 0\<rparr>) demo_patch 0 no_info stale_state = None"
proof -
  let ?fm = "demo_manager\<lparr>fm_config := demo_family\<lparr>fc_elementStride := 1\<rparr>\<rparr>" and ?env = "(demo_env 0)\<lparr>be_serve := \<lambda>_ _. Some 0\<rparr>"
  have st: "bk_buffer (pl_heap (fst stale_state) 0) = Some 0" "\<not> bk_retired (pl_heap (fst stale_state) 0)" "\<not> ai_allocated no_info"
    "\<not> bc_stop demo_context 1" "bk_contentEpoch (pl_heap (fst stale_state) 0) = 1" "bk_byteCapacity (pl_heap (fst stale_state) 0) = 300"
    "bk_image (pl_heap (fst stale_state) 0) = Some (from_pages [] 300)"
    by (simp_all add: stale_state_def demo_backing_def blank_backing_def no_info_def demo_context_def)
  have "length (replicate 300 (0 :: byte)) = 300" by simp
  from stale_write_reads_past_image [OF this] obtain js :: journal_state and cp where r: "\<forall>fm ctx env choice p acquired st old.
       fm_config fm = demo_family\<lparr>fc_elementStride := 1\<rparr> \<and> bk_contentEpoch (pl_heap (fst st) p) = 1 \<and>
       bk_image (pl_heap (fst st) p) = Some old \<and> im_byteSize old = 300 \<and> 300 \<le> bk_byteCapacity (pl_heap (fst st) p) \<and>
       bk_buffer (pl_heap (fst st) p) \<noteq> None \<and> \<not> bk_retired (pl_heap (fst st) p) \<and> \<not> ai_allocated acquired \<and> \<not> bc_stop ctx 1 \<and>
       (\<forall>calls call. be_serve env calls call \<noteq> None) \<longrightarrow>
       build_leased (it_input (make_capture_intent (snd js) 4 cp fm)) ctx env choice p acquired st = None"
    by (elim exE conjE) (rule that)
  have "build_leased (it_input (make_capture_intent (snd js) 4 cp ?fm)) demo_context ?env demo_patch 0 no_info stale_state = None"
    by (rule r [THEN spec [of _ ?fm], THEN spec [of _ demo_context], THEN spec [of _ ?env], THEN spec [of _ demo_patch], THEN spec [of _ 0],
        THEN spec [of _ no_info], THEN spec [of _ stale_state], THEN spec [of _ "from_pages [] 300"], THEN mp])
      (simp add: st from_pages_def demo_context_def)
  then show ?thesis by blast
qed

end
