(* ===== verification/Graph.thy ===== *)
theory Graph
  imports GraphTypes
begin

text \<open>
  The state of the artifact graph's control drain
  (\<^verbatim>\<open>Async/Detail/StateGraphImplementation.h\<close>, \<open>StateGraph::Impl\<close>) and its primitive updates.
  Only the drain touches it, one mutation at a time. The unordered containers are functions or
  lists in some order; a version's entry in \<open>versionsByAddress\<close> is its revision and generation,
  kept in order (its key says the rest). Lease tokens are numbers; \<open>gr_live\<close> says which are still
  held anywhere. Payloads are numbers with a type, submission sets numbers whose state the drain
  is given. Error texts are their constant part. Traces, telemetry, the views published for
  readers and the times of states are left out; 64-bit revisions and generations are \<open>nat\<close>.
\<close>

section \<open>Nodes\<close>

record stored_key =
  sk_address :: address
  sk_revision :: nat
  sk_generation :: nat

record version_key =
  vk_address :: address
  vk_revision :: nat

datatype suspension_kind = ExactDependency | Capacity | ExternalOperation | TransientRetry

record suspension =
  su_kind :: suspension_kind
  su_identity :: nat
  su_dependency :: version_id
  su_milestone :: readiness

record requested_version =
  qv_revision :: nat
  qv_generation :: nat
  qv_fingerprint :: u64
  qv_input :: "nat option"
  qv_requirements :: "artifact_requirement list"
  qv_requestedRequirements :: "artifact_requirement list"
  qv_lease :: "nat option"
  qv_coalescibleIntent :: bool

record node =
  nd_key :: address
  nd_desiredRevision :: nat
  nd_latestRequestedRevision :: nat
  nd_producedRevision :: nat
  nd_generation :: nat
  nd_versionGeneration :: nat
  nd_requestFingerprint :: u64
  nd_lease :: "nat option"
  nd_state :: readiness
  nd_payload :: "nat option"
  nd_input :: "nat option"
  nd_checkpoint :: "nat option"
  nd_requestedRequirements :: "artifact_requirement list"
  nd_requirements :: "artifact_requirement list"
  nd_resolvedDependencies :: "snapshot list"
  nd_installedWaiterKeys :: "address list"
  nd_gpuSubmissions :: "nat option"
  nd_waitingGpuSubmissions :: "nat option"
  nd_retryAt :: "nat option"
  nd_suspension :: "suspension option"
  nd_error :: string
  nd_buildInFlight :: bool
  nd_buildAttempted :: bool
  nd_desired :: bool
  nd_terminalFailure :: bool
  nd_published :: bool
  nd_latestSuccessorNeeded :: bool
  nd_completedWaiterEdgesPruned :: bool
  nd_coalescibleIntent :: bool
  nd_superseded :: bool
  nd_successors :: "requested_version list"

record graph_stats =
  gs_requests :: nat
  gs_failed :: nat
  gs_cancelled :: nat
  gs_cycles :: nat
  gs_gpuWaiting :: nat
  gs_reclaimed :: nat
  gs_superseded :: nat
  gs_coalesced :: nat
  gs_started :: nat
  gs_completed :: nat
  gs_stale :: nat
  gs_retries :: nat

record kind_policy =
  kp_allowCoalescing :: bool
  kp_pinExactContent :: bool

record producer =
  pr_callable :: bool
  pr_inputType :: "nat option"
  pr_outputType :: "nat option"

record version_signature =
  vs_fingerprint :: u64
  vs_inputType :: "nat option"
  vs_requirements :: "artifact_requirement list"

record exact_waiter =
  ew_subscription :: nat
  ew_version :: stored_key
  ew_milestone :: readiness

record retry_entry =
  re_deadline :: nat
  re_key :: address
  re_generation :: nat

section \<open>What is posted to the drain\<close>

datatype result_outcome = BuildReady | NeedsDependencies | RetryAfter | BuildFailed | BuildCancelled | BuildSuspended

text \<open>\<open>br_action\<close>: the producer registered an acceptance action.\<close>

record build_result =
  br_outcome :: result_outcome
  br_payload :: "nat option"
  br_checkpoint :: "nat option"
  br_requirements :: "artifact_requirement list"
  br_gpuSubmissions :: "nat option"
  br_retryDelay :: nat
  br_suspension :: "suspension option"
  br_error :: string
  br_action :: bool

definition build_failure :: "string \<Rightarrow> build_result" where
  "build_failure text =
     \<lparr>br_outcome = BuildFailed, br_payload = None, br_checkpoint = None, br_requirements = [], br_gpuSubmissions = None,
      br_retryDelay = 0, br_suspension = None, br_error = text, br_action = False\<rparr>"

record completion =
  cp_key :: address
  cp_revision :: nat
  cp_generation :: nat
  cp_dependencies :: "snapshot list"
  cp_result :: build_result
  cp_gpuSubmitted :: bool
  cp_gpuComplete :: bool

record posted_await =
  pa_subscription :: nat
  pa_version :: stored_key
  pa_milestone :: readiness
  pa_cancel :: bool

text \<open>A request, with what it was promised, or a mutation in the same queue.\<close>

record request_call =
  rc_key :: address
  rc_desiredRevision :: nat
  rc_requirements :: "artifact_requirement list"
  rc_input :: "nat option"
  rc_fingerprint :: u64
  rc_coalescible :: bool
  rc_generation :: nat
  rc_lease :: "nat option"

datatype posted =
    PostedCall request_call
  | PostedCancel address
  | PostedRelease "address list"
  | PostedPublish "stored_key list"
  | PostedPublishRevision address nat
  | PostedInvalidate address nat
  | PostedPump

text \<open>A fresh node, as \<open>try_emplace\<close> makes it.\<close>

definition fresh_node :: "address \<Rightarrow> node" where
  "fresh_node k =
     \<lparr>nd_key = k, nd_desiredRevision = 0, nd_latestRequestedRevision = 0, nd_producedRevision = 0, nd_generation = 0,
      nd_versionGeneration = 0, nd_requestFingerprint = 0, nd_lease = None, nd_state = Missing, nd_payload = None,
      nd_input = None, nd_checkpoint = None, nd_requestedRequirements = [], nd_requirements = [],
      nd_resolvedDependencies = [], nd_installedWaiterKeys = [], nd_gpuSubmissions = None, nd_waitingGpuSubmissions = None,
      nd_retryAt = None, nd_suspension = None, nd_error = [], nd_buildInFlight = False, nd_buildAttempted = False,
      nd_desired = False, nd_terminalFailure = False, nd_published = False, nd_latestSuccessorNeeded = False,
      nd_completedWaiterEdgesPruned = False, nd_coalescibleIntent = False, nd_superseded = False, nd_successors = []\<rparr>"

section \<open>The graph\<close>

record graph =
  gr_nodes :: "(address \<times> node) list"
  gr_versions :: "stored_key \<Rightarrow> snapshot option"
  gr_byAddress :: "address \<Rightarrow> (nat \<times> nat) list"
  gr_aliases :: "stored_key \<Rightarrow> stored_key option"
  gr_pins :: "stored_key \<Rightarrow> nat option"
  gr_waiters :: "address \<Rightarrow> address list"
  gr_leases :: "stored_key \<Rightarrow> nat option"
  gr_live :: "nat \<Rightarrow> bool"
  gr_nextToken :: nat
  gr_nextVersionGeneration :: nat
  gr_reclaim :: "stored_key list"
  gr_refusals :: "stored_key \<Rightarrow> request_status option"
  gr_pending :: "address list"
  gr_wakes :: "(address \<times> address list) list"
  gr_ready :: "snapshot list"
  gr_publishedSignals :: "stored_key list"
  gr_cancellations :: "nat list"
  gr_retirement :: "snapshot list"
  gr_generations :: "version_key \<Rightarrow> nat option"
  gr_reserved :: "version_key \<Rightarrow> nat option"
  gr_signatures :: "version_key \<Rightarrow> version_signature option"
  gr_suspended :: "nat \<Rightarrow> stored_key option"
  gr_satisfied :: "nat \<Rightarrow> bool"
  gr_retries :: "retry_entry list"
  gr_exactWaiters :: "stored_key \<Rightarrow> exact_waiter list"
  gr_cancelledAwaits :: "nat \<Rightarrow> bool"
  gr_gpuSignals :: "address list"
  gr_gpuRecovery :: "address list"
  gr_producers :: "nat \<Rightarrow> producer option"
  gr_typeOf :: "nat \<Rightarrow> nat"
  gr_completions :: "completion list"
  gr_postedAwaits :: "posted_await list"
  gr_postedSuspensions :: "nat list"
  gr_posted :: "posted list"
  gr_shuttingDown :: bool
  gr_policies :: "kind_policy list"
  gr_stats :: graph_stats
  gr_stateCounts :: "readiness \<Rightarrow> nat"
  gr_outstanding :: "nat \<Rightarrow> nat"

definition node_of :: "graph \<Rightarrow> address \<Rightarrow> node option" where
  "node_of g k = map_of (gr_nodes g) k"

definition upd_node :: "address \<Rightarrow> (node \<Rightarrow> node) \<Rightarrow> graph \<Rightarrow> graph" where
  "upd_node k f g = g\<lparr>gr_nodes := map (\<lambda>(k', n). (k', if k' = k then f n else n)) (gr_nodes g)\<rparr>"

definition upd_stats :: "(graph_stats \<Rightarrow> graph_stats) \<Rightarrow> graph \<Rightarrow> graph" where
  "upd_stats f g = g\<lparr>gr_stats := f (gr_stats g)\<rparr>"

definition kind_policy_of :: "graph \<Rightarrow> nat \<Rightarrow> kind_policy" where
  "kind_policy_of g kind =
     (if kind < length (gr_policies g) then gr_policies g ! kind else \<lparr>kp_allowCoalescing = True, kp_pinExactContent = True\<rparr>)"

definition requirement_version :: "artifact_requirement \<Rightarrow> stored_key" where
  "requirement_version rq =
     \<lparr>sk_address = rq_key rq, sk_revision = rq_minimumRevision rq, sk_generation = rq_requiredGeneration rq\<rparr>"

definition canonical :: "graph \<Rightarrow> stored_key \<Rightarrow> stored_key" where
  "canonical g v = (case gr_aliases g v of None \<Rightarrow> v | Some w \<Rightarrow> w)"

definition payload_type :: "graph \<Rightarrow> nat option \<Rightarrow> nat option" where
  "payload_type g p = map_option (gr_typeOf g) p"

definition make_snapshot :: "node \<Rightarrow> snapshot" where
  "make_snapshot n =
     \<lparr>sn_key = nd_key n,
      sn_revision = (if terminated (nd_state n) \<and> nd_producedRevision n = 0 then nd_desiredRevision n else nd_producedRevision n),
      sn_generation = nd_versionGeneration n, sn_readiness = nd_state n, sn_payload = nd_payload n,
      sn_gpuSubmissions = nd_gpuSubmissions n, sn_lease = nd_lease n\<rparr>"

section \<open>States\<close>

definition outstanding_state :: "readiness \<Rightarrow> bool" where
  "outstanding_state s \<longleftrightarrow> s \<noteq> GpuReady \<and> s \<noteq> Published \<and> s \<noteq> Superseded \<and> s \<noteq> CancelledState \<and> s \<noteq> FailedState"

definition bump_count :: "'a \<Rightarrow> bool \<Rightarrow> ('a \<Rightarrow> nat) \<Rightarrow> 'a \<Rightarrow> nat" where
  "bump_count k up counts = counts(k := if up then counts k + 1 else counts k - 1)"

text \<open>The kinds the host declared, each with its policy (\<open>kArtifactKindCount\<close>).\<close>

definition kinds :: "graph \<Rightarrow> nat" where
  "kinds g = length (gr_policies g)"

definition set_desired :: "address \<Rightarrow> bool \<Rightarrow> graph \<Rightarrow> graph" where
  "set_desired k desired g =
     (case node_of g k of
        None \<Rightarrow> g
      | Some n \<Rightarrow>
          if nd_desired n = desired then g
          else
            let g1 = (if ad_kind k < kinds g \<and> outstanding_state (nd_state n)
                then g\<lparr>gr_outstanding := bump_count (ad_kind k) desired (gr_outstanding g)\<rparr> else g)
            in upd_node k (\<lambda>n. n\<lparr>nd_desired := desired\<rparr>) g1)"

definition set_state :: "address \<Rightarrow> readiness \<Rightarrow> graph \<Rightarrow> graph" where
  "set_state k state g =
     (case node_of g k of
        None \<Rightarrow> g
      | Some n \<Rightarrow>
          if nd_state n = state then g
          else
            let counts = bump_count state True (bump_count (nd_state n) False (gr_stateCounts g));
                was = outstanding_state (nd_state n); now = outstanding_state state;
                g1 = g\<lparr>gr_stateCounts := counts\<rparr>;
                g2 = (if nd_desired n \<and> ad_kind k < kinds g \<and> was \<noteq> now
                  then g1\<lparr>gr_outstanding := bump_count (ad_kind k) now (gr_outstanding g1)\<rparr> else g1)
            in upd_node k (\<lambda>n. n\<lparr>nd_state := state\<rparr>) g2)"

section \<open>Leases\<close>

definition lease_live :: "graph \<Rightarrow> stored_key \<Rightarrow> bool" where
  "lease_live g v = (case gr_leases g v of None \<Rightarrow> False | Some t \<Rightarrow> gr_live g t)"

definition register_version_lease :: "stored_key \<Rightarrow> nat option \<Rightarrow> graph \<Rightarrow> graph" where
  "register_version_lease v token g =
     (case token of
        None \<Rightarrow> g
      | Some t \<Rightarrow> if lease_live g v then g else g\<lparr>gr_leases := (gr_leases g)(v \<mapsto> t)\<rparr>)"

definition acquire_version_lease :: "stored_key \<Rightarrow> graph \<Rightarrow> graph \<times> nat" where
  "acquire_version_lease v g =
     (if lease_live g v then (g, the (gr_leases g v))
      else
        let t = gr_nextToken g in
        (g\<lparr>gr_nextToken := t + 1, gr_live := (gr_live g)(t := True), gr_leases := (gr_leases g)(v \<mapsto> t)\<rparr>, t))"

text \<open>A token's deleter: its version is reconsidered.\<close>

definition drop_token :: "nat \<Rightarrow> stored_key \<Rightarrow> graph \<Rightarrow> graph" where
  "drop_token t v g = g\<lparr>gr_live := (gr_live g)(t := False), gr_reclaim := gr_reclaim g @ [v]\<rparr>"

section \<open>The archive\<close>

text \<open>\<open>insert_or_assign\<close> of the ordered map of an address's versions.\<close>

fun insert_version :: "nat \<times> nat \<Rightarrow> (nat \<times> nat) list \<Rightarrow> (nat \<times> nat) list" where
  "insert_version p [] = [p]"
| "insert_version p (q # qs) =
     (if p = q then q # qs
      else if fst p < fst q \<or> fst p = fst q \<and> snd p < snd q then p # q # qs
      else q # insert_version p qs)"

definition archive :: "stored_key \<Rightarrow> snapshot \<Rightarrow> graph \<Rightarrow> graph" where
  "archive v sn g = g\<lparr>gr_versions := (gr_versions g)(v \<mapsto> sn),
     gr_byAddress := (gr_byAddress g)(sk_address v := insert_version (sk_revision v, sk_generation v) (gr_byAddress g (sk_address v)))\<rparr>"

definition node_version :: "node \<Rightarrow> stored_key" where
  "node_version n = \<lparr>sk_address = nd_key n, sk_revision = nd_producedRevision n, sk_generation = nd_versionGeneration n\<rparr>"

definition store_version :: "address \<Rightarrow> graph \<Rightarrow> graph" where
  "store_version k g =
     (case node_of g k of
        None \<Rightarrow> g
      | Some n \<Rightarrow>
          if nd_producedRevision n = 0 \<or> nd_payload n = None then g
          else
            let v = node_version n; g1 = archive v ((make_snapshot n)\<lparr>sn_lease := None\<rparr>) g
            in g1\<lparr>gr_reclaim := gr_reclaim g1 @ [v]\<rparr>)"

definition store_refused_version :: "stored_key \<Rightarrow> request_status \<Rightarrow> nat option \<Rightarrow> graph \<Rightarrow> graph" where
  "store_refused_version v status lease g =
     (let sn = \<lparr>sn_key = sk_address v, sn_revision = sk_revision v, sn_generation = sk_generation v, sn_readiness = FailedState,
            sn_payload = None, sn_gpuSubmissions = None, sn_lease = None\<rparr>;
          g1 = archive v sn g;
          g2 = register_version_lease v lease (g1\<lparr>gr_refusals := (gr_refusals g1)(v \<mapsto> status)\<rparr>)
      in g2\<lparr>gr_reclaim := gr_reclaim g2 @ [v]\<rparr>)"

section \<open>Selection\<close>

text \<open>The archived version of an entry of its address's index.\<close>

definition entry_version :: "graph \<Rightarrow> address \<Rightarrow> nat \<times> nat \<Rightarrow> snapshot option" where
  "entry_version g ad p = gr_versions g \<lparr>sk_address = ad, sk_revision = fst p, sk_generation = snd p\<rparr>"

text \<open>Of an address's archived versions of one revision, the newest generation.\<close>

definition newest_of :: "graph \<Rightarrow> address \<Rightarrow> nat \<Rightarrow> snapshot option" where
  "newest_of g ad revision =
     fold (\<lambda>p newest.
        case entry_version g ad p of
          None \<Rightarrow> newest
        | Some sn \<Rightarrow> (case newest of None \<Rightarrow> Some sn | Some best \<Rightarrow> if sn_generation best < sn_generation sn then Some sn else newest))
      (filter (\<lambda>p. fst p = revision) (gr_byAddress g ad)) None"

text \<open>Backwards through them, down to a minimum: the first that reached the milestone.\<close>

definition newest_ready :: "graph \<Rightarrow> address \<Rightarrow> nat \<Rightarrow> readiness \<Rightarrow> snapshot option" where
  "newest_ready g ad minimum required =
     (let candidates = takeWhile (\<lambda>p. minimum \<le> fst p) (rev (gr_byAddress g ad)) in
      List.find (\<lambda>sn. reached_milestone (sn_readiness sn) required)
        (List.map_filter (entry_version g ad) candidates))"

definition exact_selection :: "artifact_requirement \<Rightarrow> bool" where
  "exact_selection rq \<longleftrightarrow> rq_invalidation rq = ExactSnapshot \<or> rq_invalidation rq = LifetimeHold \<or>
     (rq_invalidation rq = ReadyGate \<and> rq_minimumRevision rq \<noteq> 0)"

definition select_exact :: "graph \<Rightarrow> artifact_requirement \<Rightarrow> snapshot option" where
  "select_exact g rq =
     (case (if rq_requiredGeneration rq \<noteq> 0 then gr_versions g (canonical g (requirement_version rq))
            else newest_of g (rq_key rq) (rq_minimumRevision rq)) of
        Some sn \<Rightarrow> Some sn
      | None \<Rightarrow>
          (case node_of g (rq_key rq) of
             None \<Rightarrow> None
           | Some n \<Rightarrow>
               if nd_producedRevision n = rq_minimumRevision rq \<and>
                 (rq_requiredGeneration rq = 0 \<or> nd_versionGeneration n = rq_requiredGeneration rq)
               then Some (make_snapshot n) else None))"

definition select_latest :: "graph \<Rightarrow> artifact_requirement \<Rightarrow> snapshot option" where
  "select_latest g rq =
     (let current = (case node_of g (rq_key rq) of
            None \<Rightarrow> None
          | Some n \<Rightarrow>
              if rq_minimumRevision rq \<le> nd_producedRevision n \<and> reached_milestone (sn_readiness (make_snapshot n)) (rq_requiredReadiness rq)
              then Some (make_snapshot n) else None)
      in case newest_ready g (rq_key rq) (rq_minimumRevision rq) (rq_requiredReadiness rq) of
           None \<Rightarrow> current
         | Some archived \<Rightarrow>
             (case current of
                None \<Rightarrow> Some archived
              | Some sn \<Rightarrow>
                  if sn_revision sn < sn_revision archived \<or> sn_revision archived = sn_revision sn \<and> sn_generation sn < sn_generation archived
                  then Some archived else current))"

definition select_snapshot :: "graph \<Rightarrow> artifact_requirement \<Rightarrow> snapshot option" where
  "select_snapshot g rq = (if exact_selection rq then select_exact g rq else select_latest g rq)"

definition requirement_satisfied :: "graph \<Rightarrow> artifact_requirement \<Rightarrow> bool" where
  "requirement_satisfied g rq =
     (case select_snapshot g rq of None \<Rightarrow> False | Some sn \<Rightarrow> reached_milestone (sn_readiness sn) (rq_requiredReadiness rq))"

definition gating :: "artifact_requirement \<Rightarrow> bool" where
  "gating rq \<longleftrightarrow> rq_policy rq \<noteq> Optional \<and> rq_invalidation rq \<noteq> LifetimeHold"

text \<open>The groups so far, each with whether one of its alternatives is satisfied.\<close>

fun record_alternative :: "nat \<Rightarrow> bool \<Rightarrow> (nat \<times> bool) list \<Rightarrow> (nat \<times> bool) list" where
  "record_alternative identity satisfied [] = [(identity, satisfied)]"
| "record_alternative identity satisfied ((i, s) # groups) =
     (if i = identity then (i, s \<or> satisfied) # groups else (i, s) # record_alternative identity satisfied groups)"

fun gate_scan :: "graph \<Rightarrow> artifact_requirement list \<Rightarrow> (nat \<times> bool) list \<Rightarrow> (nat \<times> bool) list \<Rightarrow> bool" where
  "gate_scan g [] anyGroups fallbackGroups \<longleftrightarrow> (\<forall>(i, s) \<in> set anyGroups. s) \<and> (\<forall>(i, s) \<in> set fallbackGroups. s)"
| "gate_scan g (rq # rqs) anyGroups fallbackGroups \<longleftrightarrow>
     (if \<not> gating rq then gate_scan g rqs anyGroups fallbackGroups
      else
        let satisfied = requirement_satisfied g rq in
        case rq_policy rq of
          Optional \<Rightarrow> gate_scan g rqs anyGroups fallbackGroups
        | AnyOf \<Rightarrow> gate_scan g rqs (record_alternative (rq_alternativeGroup rq) satisfied anyGroups) fallbackGroups
        | AllOf \<Rightarrow> satisfied \<and> gate_scan g rqs anyGroups fallbackGroups
        | FallbackAllowed \<Rightarrow> gate_scan g rqs anyGroups (record_alternative (rq_alternativeGroup rq) satisfied fallbackGroups))"

definition dependencies_satisfied :: "graph \<Rightarrow> node \<Rightarrow> bool" where
  "dependencies_satisfied g n = gate_scan g (nd_requirements n) [] []"

text \<open>What a build is given: one snapshot per requirement, or per group of alternatives.\<close>

definition alternative :: "artifact_requirement \<Rightarrow> bool" where
  "alternative rq \<longleftrightarrow> rq_policy rq = AnyOf \<or> rq_policy rq = FallbackAllowed"

fun dependency_scan :: "artifact_requirement list \<Rightarrow> (dependency_policy \<times> nat) list \<Rightarrow> graph \<Rightarrow> graph \<times> snapshot list" where
  "dependency_scan [] groups g = (g, [])"
| "dependency_scan (rq # rqs) groups g =
     (let identity = (rq_policy rq, rq_alternativeGroup rq) in
      if alternative rq \<and> identity \<in> set groups then dependency_scan rqs groups g
      else case select_snapshot g rq of
        None \<Rightarrow> dependency_scan rqs groups g
      | Some sn \<Rightarrow>
          if reached_milestone (sn_readiness sn) (rq_requiredReadiness rq)
          then
            (case acquire_version_lease \<lparr>sk_address = sn_key sn, sk_revision = sn_revision sn, sk_generation = sn_generation sn\<rparr> g of
               (g1, token) \<Rightarrow>
                 (case dependency_scan rqs (if alternative rq then identity # groups else groups) g1 of
                    (g2, rest) \<Rightarrow> (g2, sn\<lparr>sn_lease := Some token\<rparr> # rest)))
          else dependency_scan rqs groups g)"

definition dependency_snapshots :: "graph \<Rightarrow> node \<Rightarrow> graph \<times> snapshot list" where
  "dependency_snapshots g n = dependency_scan (nd_requirements n) [] g"

end
