(* ===== verification/GraphCycles.thy ===== *)
theory GraphCycles
  imports Graph
begin

text \<open>
  \<open>DetectCycle\<close> and \<open>FailCycle\<close>: one depth-first search of the forward dependency closure from a
  node's requirements. The marks of one search (its epoch's) are the list \<open>parents\<close> of the visited
  addresses, newest first, each with the address it was reached from; a parent is visited before
  its children, so its entry comes later. The work stack's back is the list's head.
\<close>

section \<open>The search\<close>

fun trace_back :: "address \<Rightarrow> (address \<times> address) list \<Rightarrow> address \<Rightarrow> address list" where
  "trace_back target [] c = []"
| "trace_back target ((k, p) # parents) c =
     (if c = target then [] else if k = c then c # trace_back target parents p else trace_back target parents c)"

type_synonym search_state = "(address \<times> address) list \<times> address list"

definition visit_address :: "graph \<Rightarrow> address \<Rightarrow> address \<Rightarrow> search_state \<Rightarrow> search_state" where
  "visit_address g k from_key st =
     (case st of (parents, stack) \<Rightarrow>
        if node_of g k = None \<or> k \<in> fst ` set parents then st else ((k, from_key) # parents, k # stack))"

text \<open>An exact predecessor of the address itself, already archived.\<close>

definition archived_predecessor :: "graph \<Rightarrow> node \<Rightarrow> artifact_requirement \<Rightarrow> bool" where
  "archived_predecessor g n rq \<longleftrightarrow>
     rq_invalidation rq = ExactSnapshot \<and> rq_requiredGeneration rq \<noteq> 0 \<and> rq_minimumRevision rq \<noteq> nd_desiredRevision n \<and>
     gr_versions g (requirement_version rq) \<noteq> None"

fun cycle_roots :: "graph \<Rightarrow> node \<Rightarrow> artifact_requirement list \<Rightarrow> search_state \<Rightarrow> address list + search_state" where
  "cycle_roots g n [] st = Inr st"
| "cycle_roots g n (rq # rqs) st =
     (if \<not> gating rq then cycle_roots g n rqs st
      else if rq_key rq = nd_key n
      then if archived_predecessor g n rq then cycle_roots g n rqs st else Inl [nd_key n, nd_key n]
      else cycle_roots g n rqs (visit_address g (rq_key rq) (nd_key n) st))"

fun cycle_scan :: "graph \<Rightarrow> address \<Rightarrow> address \<Rightarrow> artifact_requirement list \<Rightarrow> search_state \<Rightarrow> address list + search_state" where
  "cycle_scan g target current [] st = Inr st"
| "cycle_scan g target current (rq # rqs) st =
     (if \<not> gating rq then cycle_scan g target current rqs st
      else if rq_key rq = target then Inl (target # rev (trace_back target (fst st) current) @ [target])
      else cycle_scan g target current rqs (visit_address g (rq_key rq) current st))"

text \<open>The addresses not visited yet, which the search runs out of.\<close>

definition unvisited :: "graph \<Rightarrow> (address \<times> address) list \<Rightarrow> address set" where
  "unvisited g parents = fst ` set (gr_nodes g) - fst ` set parents"

lemma finite_unvisited [simp]: "finite (unvisited g parents)"
  by (simp add: unvisited_def)

lemma visit_measure:
  "visit_address g k c (parents, stack) = (parents', stack') \<Longrightarrow>
     parents' = parents \<and> stack' = stack \<or> card (unvisited g parents') < card (unvisited g parents)"
proof -
  assume v: "visit_address g k c (parents, stack) = (parents', stack')"
  have "card (unvisited g ((k, c) # parents)) < card (unvisited g parents)" if "node_of g k \<noteq> None" "k \<notin> fst ` set parents"
  proof (rule psubset_card_mono)
    have "k \<in> unvisited g parents" using that by (force simp: unvisited_def node_of_def dest: map_of_SomeD)
    then show "unvisited g ((k, c) # parents) \<subset> unvisited g parents" by (auto simp: unvisited_def)
  qed simp
  then show ?thesis using v by (auto simp: visit_address_def split: if_splits)
qed

lemma cycle_scan_measure:
  "cycle_scan g target c rqs (parents, stack) = Inr (parents', stack') \<Longrightarrow>
     parents' = parents \<and> stack' = stack \<or> card (unvisited g parents') < card (unvisited g parents)"
proof (induction rqs arbitrary: parents stack)
  case (Cons rq rqs)
  obtain p1 s1 where v: "visit_address g (rq_key rq) c (parents, stack) = (p1, s1)" by fastforce
  show ?case using Cons.IH [of parents stack] Cons.IH [of p1 s1] Cons.prems visit_measure [OF v]
    by (auto simp: v split: if_splits)
qed simp

function cycle_search :: "graph \<Rightarrow> address \<Rightarrow> (address \<times> address) list \<Rightarrow> address list \<Rightarrow> address list" where
  "cycle_search g target parents [] = []"
| "cycle_search g target parents (c # stack) =
     (case node_of g c of
        None \<Rightarrow> cycle_search g target parents stack
      | Some n \<Rightarrow>
          (case cycle_scan g target c (nd_requirements n) (parents, stack) of
             Inl path \<Rightarrow> path
           | Inr st \<Rightarrow> cycle_search g target (fst st) (snd st)))"
  by pat_completeness auto
termination
proof (relation "measures [\<lambda>(g, target, parents, stack). card (unvisited g parents), \<lambda>(g, target, parents, stack). length stack]", goal_cases)
  case (3 g target parents c stack n st)
  then show ?case using cycle_scan_measure [of g target c "nd_requirements n" parents stack "fst st" "snd st"] by (cases st) auto
qed auto

definition detect_cycle :: "graph \<Rightarrow> node \<Rightarrow> address list" where
  "detect_cycle g n =
     (case cycle_roots g n (nd_requirements n) ([], []) of
        Inl path \<Rightarrow> path
      | Inr st \<Rightarrow> cycle_search g (nd_key n) (fst st) (snd st))"

definition fail_cycle :: "string \<Rightarrow> address list \<Rightarrow> graph \<Rightarrow> graph" where
  "fail_cycle text cycle g =
     (let one = (\<lambda>k g. case node_of g k of
            None \<Rightarrow> g
          | Some n \<Rightarrow>
              upd_stats (\<lambda>s. s\<lparr>gs_failed := gs_failed s + 1\<rparr>)
                (set_state k FailedState
                  (upd_node k (\<lambda>n. n\<lparr>nd_error := text, nd_terminalFailure := True, nd_generation := nd_generation n + 1, nd_retryAt := None\<rparr>) g)))
      in upd_stats (\<lambda>s. s\<lparr>gs_cycles := gs_cycles s + 1\<rparr>) (fold one (remdups cycle) g))"

section \<open>What it finds\<close>

text \<open>
  A node waits for another: by a requirement that gates its build. A node's exact requirement of
  its own archived predecessor is no wait.
\<close>

definition waits_for :: "graph \<Rightarrow> (address \<times> address) set" where
  "waits_for g = {(a, b). \<exists>n rq. node_of g a = Some n \<and> rq \<in> set (nd_requirements n) \<and> gating rq \<and> rq_key rq = b}"

definition waits_from :: "graph \<Rightarrow> node \<Rightarrow> (address \<times> address) set" where
  "waits_from g n =
     {(a, b). (a, b) \<in> waits_for g \<and> a \<noteq> nd_key n} \<union>
     {(nd_key n, b) | b. \<exists>rq \<in> set (nd_requirements n). gating rq \<and> rq_key rq = b \<and> (b = nd_key n \<longrightarrow> \<not> archived_predecessor g n rq)}"

text \<open>The path of the parents.\<close>

fun chained :: "(address \<times> address) set \<Rightarrow> address list \<Rightarrow> bool" where
  "chained E (a # b # ks) \<longleftrightarrow> (a, b) \<in> E \<and> chained E (b # ks)"
| "chained E ks \<longleftrightarrow> True"

lemma chained_append: "chained E (xs @ [a]) \<Longrightarrow> chained E (a # ys) \<Longrightarrow> chained E (xs @ a # ys)"
  by (induction xs rule: chained.induct) auto

lemma chained_path: "chained E (a # ks) \<Longrightarrow> ks \<noteq> [] \<Longrightarrow> (a, last ks) \<in> E\<^sup>+"
proof (induction ks arbitrary: a)
  case (Cons b ks)
  then show ?case by (cases ks) (auto intro: trancl_into_trancl2)
qed simp

text \<open>Every visited address has an entry for its parent further on, up to the start.\<close>

fun parents_ok :: "(address \<times> address) set \<Rightarrow> address \<Rightarrow> (address \<times> address) list \<Rightarrow> bool" where
  "parents_ok E target [] \<longleftrightarrow> True"
| "parents_ok E target ((k, p) # parents) \<longleftrightarrow>
     (p, k) \<in> E \<and> k \<noteq> target \<and> (p = target \<or> p \<in> fst ` set parents) \<and> parents_ok E target parents"

lemma trace_back_chain:
  "parents_ok E target parents \<Longrightarrow> c \<in> fst ` set parents \<Longrightarrow>
     chained E (target # rev (trace_back target parents c)) \<and> last (target # rev (trace_back target parents c)) = c"
proof (induction target parents c rule: trace_back.induct)
  case (2 target k p parents c)
  show ?case
  proof (cases "k = c")
    case True
    then have c: "c \<noteq> target" "(p, c) \<in> E" "p = target \<or> p \<in> fst ` set parents" "parents_ok E target parents" using 2 by auto
    show ?thesis
    proof (cases "p = target")
      case True
      have "trace_back target parents target = []" by (cases parents) auto
      then show ?thesis using \<open>k = c\<close> c True by simp
    next
      case False
      have ih: "chained E (target # rev (trace_back target parents p))" "last (target # rev (trace_back target parents p)) = p"
        using 2(1) [OF c(1)] c False \<open>k = c\<close> 2 by auto
      obtain xs where xs: "target # rev (trace_back target parents p) = xs @ [p]" using ih(2) by (metis append_butlast_last_id list.distinct(1))
      have "chained E (xs @ [p, c])" using chained_append [of E xs p "[c]"] ih(1) c(2) unfolding xs by simp
      moreover have "target # rev (trace_back target ((k, p) # parents) c) = xs @ [p, c]" using xs \<open>k = c\<close> c(1) by simp
      ultimately show ?thesis by simp
    qed
  next
    case False
    then show ?thesis using 2 by (auto simp: rev_image_eqI)
  qed
qed simp

text \<open>The invariant of the search.\<close>

definition seen :: "search_state \<Rightarrow> address set" where
  "seen st = fst ` set (fst st)"

definition search_ok :: "graph \<Rightarrow> (address \<times> address) set \<Rightarrow> address \<Rightarrow> search_state \<Rightarrow> bool" where
  "search_ok g E target st \<longleftrightarrow>
     parents_ok E target (fst st) \<and> set (snd st) \<subseteq> seen st \<and> target \<notin> seen st \<and> (\<forall>k \<in> seen st. node_of g k \<noteq> None)"

definition grows :: "search_state \<Rightarrow> search_state \<Rightarrow> bool" where
  "grows st st' \<longleftrightarrow> seen st \<subseteq> seen st' \<and> seen st' \<subseteq> seen st \<union> set (snd st') \<and> set (snd st) \<subseteq> set (snd st')"

lemma grows_trans: "grows st st1 \<Longrightarrow> grows st1 st2 \<Longrightarrow> grows st st2"
  unfolding grows_def by blast

lemma grows_refl [simp]: "grows st st"
  by (auto simp: grows_def)

lemma visit_ok:
  assumes "search_ok g E target st" "(c, k) \<in> E" "k \<noteq> target" "c = target \<or> c \<in> seen st"
  shows "search_ok g E target (visit_address g k c st) \<and> grows st (visit_address g k c st) \<and> (k \<in> seen (visit_address g k c st) \<or> node_of g k = None)"
  using assms by (cases st) (auto simp: search_ok_def visit_address_def grows_def seen_def)

text \<open>What holds of a scan's requirements once it has gone through them.\<close>

definition explored :: "graph \<Rightarrow> address \<Rightarrow> search_state \<Rightarrow> address \<Rightarrow> bool" where
  "explored g target st k \<longleftrightarrow> k \<noteq> target \<and> (k \<in> seen st \<or> node_of g k = None)"

lemma explored_grows: "explored g target st k \<Longrightarrow> grows st st' \<Longrightarrow> explored g target st' k"
  by (auto simp: explored_def grows_def)

lemma scan_ok:
  assumes "search_ok g E target st" "c \<in> seen st" "\<And>rq. rq \<in> set rqs \<Longrightarrow> gating rq \<Longrightarrow> (c, rq_key rq) \<in> E"
  shows "case cycle_scan g target c rqs st of
      Inl path \<Rightarrow> chained E path \<and> (\<exists>ks. path = target # ks @ [target])
    | Inr st' \<Rightarrow> search_ok g E target st' \<and> grows st st' \<and>
        (\<forall>rq \<in> set rqs. gating rq \<longrightarrow> explored g target st' (rq_key rq))"
  using assms
proof (induction rqs arbitrary: st)
  case (Cons rq rqs)
  have edge: "gating rq \<Longrightarrow> (c, rq_key rq) \<in> E" and rest: "\<And>r. r \<in> set rqs \<Longrightarrow> gating r \<Longrightarrow> (c, rq_key r) \<in> E" using Cons.prems(3) by auto
  show ?case
  proof (cases "gating rq \<and> rq_key rq = target")
    case True
    have "parents_ok E target (fst st)" using Cons.prems(1) by (simp add: search_ok_def)
    note t = trace_back_chain [OF this Cons.prems(2) [unfolded seen_def]]
    then obtain xs where xs: "target # rev (trace_back target (fst st) c) = xs @ [c]" by (metis append_butlast_last_id list.distinct(1))
    have "chained E (xs @ c # [target])" using chained_append [of E xs c "[target]"] t edge True unfolding xs by simp
    moreover have "target # rev (trace_back target (fst st) c) @ [target] = xs @ c # [target]"
      using arg_cong [OF xs, of "\<lambda>ys. ys @ [target]"] by simp
    ultimately have "chained E (target # rev (trace_back target (fst st) c) @ [target])" by metis
    then show ?thesis using True by auto
  next
    case f: False
    show ?thesis
    proof (cases "gating rq")
      case False
      then show ?thesis using Cons.IH [OF Cons.prems(1,2) rest] by (auto split: sum.splits)
    next
      case True
      have k: "rq_key rq \<noteq> target" using f True by blast
      note v = visit_ok [OF Cons.prems(1) edge [OF True] k disjI2 [OF Cons.prems(2)]]
      have "c \<in> seen (visit_address g (rq_key rq) c st)" using v Cons.prems(2) by (auto simp: grows_def)
      note ih = Cons.IH [OF conjunct1 [OF v] this rest]
      show ?thesis
      proof (cases "cycle_scan g target c rqs (visit_address g (rq_key rq) c st)")
        case (Inl path)
        then show ?thesis using ih True k by simp
      next
        case (Inr st')
        have g: "grows (visit_address g (rq_key rq) c st) st'" using ih Inr by simp
        have "explored g target (visit_address g (rq_key rq) c st) (rq_key rq)" using v k by (auto simp: explored_def)
        then have "explored g target st' (rq_key rq)" by (rule explored_grows) fact
        moreover have "grows st st'" using grows_trans v g by blast
        ultimately show ?thesis using ih Inr True k by simp
      qed
    qed
  qed
qed simp

definition root_edge :: "graph \<Rightarrow> node \<Rightarrow> artifact_requirement \<Rightarrow> bool" where
  "root_edge g n rq \<longleftrightarrow> gating rq \<and> (rq_key rq = nd_key n \<longrightarrow> \<not> archived_predecessor g n rq)"

lemma root_edge_waits: "rq \<in> set (nd_requirements n) \<Longrightarrow> root_edge g n rq \<Longrightarrow> (nd_key n, rq_key rq) \<in> waits_from g n"
  unfolding waits_from_def root_edge_def by blast

lemma cycle_roots_step:
  "cycle_roots g n (rq # rqs) st =
     (if \<not> root_edge g n rq then cycle_roots g n rqs st
      else if rq_key rq = nd_key n then Inl [nd_key n, nd_key n]
      else cycle_roots g n rqs (visit_address g (rq_key rq) (nd_key n) st))"
  by (simp add: root_edge_def)

lemma roots_path: "cycle_roots g n rqs st = Inl path \<Longrightarrow> set rqs \<subseteq> set (nd_requirements n) \<Longrightarrow>
    path = [nd_key n, nd_key n] \<and> (nd_key n, nd_key n) \<in> waits_from g n"
proof (induction rqs arbitrary: st)
  case (Cons rq rqs)
  then show ?case using root_edge_waits [of rq n g] unfolding cycle_roots_step by (auto split: if_splits)
qed simp

lemma roots_ok:
  assumes "search_ok g (waits_from g n) (nd_key n) st" "set rqs \<subseteq> set (nd_requirements n)" "cycle_roots g n rqs st = Inr st'"
  shows "search_ok g (waits_from g n) (nd_key n) st' \<and> grows st st' \<and>
    (\<forall>rq \<in> set rqs. root_edge g n rq \<longrightarrow> explored g (nd_key n) st' (rq_key rq))"
  using assms
proof (induction rqs arbitrary: st)
  case (Cons rq rqs)
  have sub: "set rqs \<subseteq> set (nd_requirements n)" "rq \<in> set (nd_requirements n)" using Cons.prems(2) by auto
  show ?case
  proof (cases "root_edge g n rq")
    case False
    then show ?thesis using Cons.IH [OF Cons.prems(1) sub(1)] Cons.prems(3) unfolding cycle_roots_step by simp
  next
    case True
    then have k: "rq_key rq \<noteq> nd_key n" "cycle_roots g n rqs (visit_address g (rq_key rq) (nd_key n) st) = Inr st'"
      using Cons.prems(3) unfolding cycle_roots_step by (auto split: if_splits)
    note v = visit_ok [OF Cons.prems(1) root_edge_waits [OF sub(2) True] k(1) disjI1 [OF HOL.refl]]
    have "explored g (nd_key n) (visit_address g (rq_key rq) (nd_key n) st) (rq_key rq)" using v k(1) by (auto simp: explored_def)
    have rest: "search_ok g (waits_from g n) (nd_key n) st'" "grows (visit_address g (rq_key rq) (nd_key n) st) st'"
      "\<forall>r \<in> set rqs. root_edge g n r \<longrightarrow> explored g (nd_key n) st' (rq_key r)"
      using Cons.IH [OF conjunct1 [OF v] sub(1) k(2)] by blast+
    have "grows st st'" using grows_trans v rest(2) by blast
    moreover have "explored g (nd_key n) st' (rq_key rq)" by (rule explored_grows) fact+
    ultimately show ?thesis using rest by simp
  qed
qed simp

text \<open>A search that finds nothing has closed off all it has seen.\<close>

definition closed_off :: "graph \<Rightarrow> (address \<times> address) set \<Rightarrow> address \<Rightarrow> address set \<Rightarrow> address set \<Rightarrow> bool" where
  "closed_off g E target vs visited \<longleftrightarrow>
     (\<forall>v \<in> vs. \<forall>b. (v, b) \<in> E \<longrightarrow> b \<noteq> target \<and> (b \<in> visited \<or> node_of g b = None))"

lemma closed_off_scan:
  assumes "closed_off g E target (seen (parents, c # stack) - set (c # stack)) (seen (parents, c # stack))"
    "grows (parents, stack) st" "\<And>b. (c, b) \<in> E \<Longrightarrow> explored g target st b"
  shows "closed_off g E target (seen (fst st, snd st) - set (snd st)) (seen (fst st, snd st))"
  unfolding closed_off_def
proof (intro ballI allI impI)
  fix v b
  assume v: "v \<in> seen (fst st, snd st) - set (snd st)" and e: "(v, b) \<in> E"
  have same: "seen (parents, c # stack) = seen (parents, stack)" by (simp add: seen_def)
  have sub: "seen (parents, stack) \<subseteq> seen st" "v \<in> seen (parents, stack)" "v \<notin> set stack"
    using assms(2) v by (auto simp: grows_def)
  show "b \<noteq> target \<and> (b \<in> seen (fst st, snd st) \<or> node_of g b = None)"
  proof (cases "v = c")
    case True
    then show ?thesis using assms(3) e by (simp add: explored_def)
  next
    case False
    then have "v \<in> seen (parents, c # stack) - set (c # stack)" using sub same by simp
    then have "b \<noteq> target \<and> (b \<in> seen (parents, c # stack) \<or> node_of g b = None)" using assms(1) e unfolding closed_off_def by simp
    then show ?thesis using sub(1) same by auto
  qed
qed

lemma search_result:
  assumes "search_ok g E target (parents, stack)" "closed_off g E target (seen (parents, stack) - set stack) (seen (parents, stack))"
    "\<And>a b. a \<noteq> target \<Longrightarrow> (a, b) \<in> E \<longleftrightarrow> (a, b) \<in> waits_for g"
  shows "if cycle_search g target parents stack = [] then \<exists>visited. seen (parents, stack) \<subseteq> visited \<and> closed_off g E target visited visited
    else chained E (cycle_search g target parents stack) \<and> (\<exists>ks. cycle_search g target parents stack = target # ks @ [target])"
  using assms
proof (induction g target parents stack rule: cycle_search.induct)
  case (1 g target parents)
  then show ?case by (auto intro!: exI [of _ "seen (parents, [])"])
next
  case (2 g target parents c stack)
  have ok: "search_ok g E target (parents, stack)" and c: "c \<in> seen (parents, stack)" "c \<noteq> target"
    using 2(3) by (auto simp: search_ok_def seen_def)
  then obtain n where n: "node_of g c = Some n" by (auto simp: search_ok_def)
  have edges: "\<And>b. (c, b) \<in> E \<longleftrightarrow> (\<exists>rq \<in> set (nd_requirements n). gating rq \<and> rq_key rq = b)"
    using 2(5) [OF c(2)] n by (auto simp: waits_for_def)
  then have out: "\<And>rq. rq \<in> set (nd_requirements n) \<Longrightarrow> gating rq \<Longrightarrow> (c, rq_key rq) \<in> E" by blast
  have scan: "case cycle_scan g target c (nd_requirements n) (parents, stack) of
      Inl path \<Rightarrow> chained E path \<and> (\<exists>ks. path = target # ks @ [target])
    | Inr st' \<Rightarrow> search_ok g E target st' \<and> grows (parents, stack) st' \<and>
        (\<forall>rq \<in> set (nd_requirements n). gating rq \<longrightarrow> explored g target st' (rq_key rq))"
    by (rule scan_ok [OF ok c(1) out])
  show ?case
  proof (cases "cycle_scan g target c (nd_requirements n) (parents, stack)")
    case (Inl path)
    then have "chained E path" "\<exists>ks. path = target # ks @ [target]" using scan edges by auto
    then show ?thesis using n Inl by auto
  next
    case (Inr st)
    then have st: "search_ok g E target (fst st, snd st)" "grows (parents, stack) st" "\<And>b. (c, b) \<in> E \<Longrightarrow> explored g target st b"
      using scan edges by auto
    note closed = closed_off_scan [OF 2(4) st(2,3)]
    have sub: "seen (parents, c # stack) \<subseteq> seen (fst st, snd st)" using st(2) by (simp add: grows_def seen_def)
    have run: "cycle_search g target parents (c # stack) = cycle_search g target (fst st) (snd st)" using n Inr by simp
    note ih = 2(2) [OF n Inr st(1) closed 2(5)]
    show ?thesis
    proof (cases "cycle_search g target (fst st) (snd st) = []")
      case True
      then obtain visited where "seen (fst st, snd st) \<subseteq> visited" "closed_off g E target visited visited" using ih by auto
      then show ?thesis using True sub run by auto
    next
      case False
      then show ?thesis using ih run by simp
    qed
  qed
qed

section \<open>Soundness and completeness\<close>

lemma detect_cycle_cases:
  assumes "node_of g (nd_key n) \<noteq> None"
  shows "if detect_cycle g n = [] then (nd_key n, nd_key n) \<notin> (waits_from g n)\<^sup>+
    else chained (waits_from g n) (detect_cycle g n) \<and> (\<exists>ks. detect_cycle g n = nd_key n # ks @ [nd_key n])"
proof (cases "cycle_roots g n (nd_requirements n) ([], [])")
  case (Inl path)
  have "path = [nd_key n, nd_key n] \<and> (nd_key n, nd_key n) \<in> waits_from g n" by (rule roots_path [OF Inl]) simp
  then show ?thesis using Inl by (simp add: detect_cycle_def)
next
  case (Inr st)
  let ?E = "waits_from g n" and ?t = "nd_key n"
  have run: "detect_cycle g n = cycle_search g ?t (fst st) (snd st)" using Inr by (simp add: detect_cycle_def)
  have "search_ok g ?E ?t ([], [])" by (simp add: search_ok_def seen_def)
  then have roots: "search_ok g ?E ?t st" "grows ([], []) st" "\<forall>rq \<in> set (nd_requirements n). root_edge g n rq \<longrightarrow> explored g ?t st (rq_key rq)"
    using roots_ok [OF _ _ Inr] by auto
  have "closed_off g ?E ?t (seen (fst st, snd st) - set (snd st)) (seen (fst st, snd st))"
    using roots(2) by (auto simp: grows_def seen_def closed_off_def)
  moreover have "search_ok g ?E ?t (fst st, snd st)" using roots(1) by simp
  moreover have "\<And>a b. a \<noteq> ?t \<Longrightarrow> (a, b) \<in> ?E \<longleftrightarrow> (a, b) \<in> waits_for g" by (auto simp: waits_from_def)
  ultimately have res: "if detect_cycle g n = [] then \<exists>visited. seen (fst st, snd st) \<subseteq> visited \<and> closed_off g ?E ?t visited visited
    else chained ?E (detect_cycle g n) \<and> (\<exists>ks. detect_cycle g n = ?t # ks @ [?t])"
    using search_result [of g ?E ?t "fst st" "snd st"] unfolding run by blast
  show ?thesis
  proof (cases "detect_cycle g n = []")
    case True
    then obtain visited where vis: "seen st \<subseteq> visited" "closed_off g ?E ?t visited visited" using res by auto
    have "b \<noteq> ?t \<and> (b \<in> visited \<or> node_of g b = None)" if "(?t, b) \<in> ?E\<^sup>+" for b
      using that
    proof (induction rule: trancl_induct)
      case (base b)
      then show ?case using roots(3) vis(1) by (auto simp: waits_from_def root_edge_def explored_def)
    next
      case (step b c)
      then have "b \<in> visited" by (auto simp: waits_from_def waits_for_def)
      then show ?case using vis(2) step(2) unfolding closed_off_def by simp
    qed
    then show ?thesis using True by auto
  qed (use res in simp)
qed

text \<open>
  Claim C8. \<open>DetectCycle\<close> always returns, and it finds a cycle exactly when there is one: it returns
  nothing when the node does not wait, through any number of gating requirements, for itself; and
  otherwise a path of such waits from the node back to itself, the one the failure names.
\<close>

theorem detect_cycle_exact:
  assumes "node_of g (nd_key n) \<noteq> None"
  shows "(detect_cycle g n = [] \<longleftrightarrow> (nd_key n, nd_key n) \<notin> (waits_from g n)\<^sup>+) \<and>
    (detect_cycle g n \<noteq> [] \<longrightarrow>
       chained (waits_from g n) (detect_cycle g n) \<and> (\<exists>ks. detect_cycle g n = nd_key n # ks @ [nd_key n]))"
proof (cases "detect_cycle g n = []")
  case True
  then show ?thesis using detect_cycle_cases [OF assms] by simp
next
  case False
  then have d: "chained (waits_from g n) (detect_cycle g n)" "\<exists>ks. detect_cycle g n = nd_key n # ks @ [nd_key n]"
    using detect_cycle_cases [OF assms] by auto
  then obtain ks where ks: "detect_cycle g n = nd_key n # ks @ [nd_key n]" by blast
  have "(nd_key n, last (ks @ [nd_key n])) \<in> (waits_from g n)\<^sup>+" by (rule chained_path) (use d(1) ks in auto)
  then show ?thesis using d False by simp
qed

end
