(* ===== verification/GraphOps.thy ===== *)
theory GraphOps
  imports GraphCycles
begin

text \<open>
  The transitions of a node that the drain composes
  (\<^verbatim>\<open>Async/Detail/StateGraphImplementation.h\<close>): recipe pins, the reverse edges that wake consumers,
  ready gates, queueing, the handover to a successor, and waking. Each takes the node's address;
  a node that is not there leaves the graph as it is. \<open>WakeWaiters\<close> only queues, so none of these
  is recursive. The prefix-threshold indexes of a recipe find what a scan finds.
\<close>

section \<open>Recipe pins\<close>

definition pins_exact_recipe :: "graph \<Rightarrow> address \<Rightarrow> bool \<Rightarrow> artifact_requirement \<Rightarrow> bool" where
  "pins_exact_recipe g consumer coalescible rq \<longleftrightarrow>
     \<not> (rq_minimumRevision rq = 0 \<or> rq_invalidation rq = LatestVersion \<or> rq_invalidation rq = ReadyGate) \<and>
     (\<not> coalescible \<or> kp_pinExactContent (kind_policy_of g (ad_kind consumer)) \<or> kp_pinExactContent (kind_policy_of g (ad_kind (rq_key rq))))"

definition queue_reclaim :: "stored_key list \<Rightarrow> graph \<Rightarrow> graph" where
  "queue_reclaim vs g = g\<lparr>gr_reclaim := gr_reclaim g @ vs\<rparr>"

definition add_pin :: "stored_key \<Rightarrow> graph \<Rightarrow> graph" where
  "add_pin v g = g\<lparr>gr_pins := (gr_pins g)(v \<mapsto> (case gr_pins g v of None \<Rightarrow> 1 | Some c \<Rightarrow> c + 1))\<rparr>"

definition drop_pin :: "stored_key \<Rightarrow> graph \<Rightarrow> graph" where
  "drop_pin v g =
     (case gr_pins g v of
        None \<Rightarrow> g
      | Some c \<Rightarrow>
          if c \<le> 1 then queue_reclaim [v] (g\<lparr>gr_pins := (gr_pins g)(v := None)\<rparr>)
          else g\<lparr>gr_pins := (gr_pins g)(v \<mapsto> c - 1)\<rparr>)"

definition adjust_exact_recipe_pins :: "address \<Rightarrow> bool \<Rightarrow> artifact_requirement list \<Rightarrow> bool \<Rightarrow> graph \<Rightarrow> graph" where
  "adjust_exact_recipe_pins consumer coalescible rqs up g =
     fold (\<lambda>rq g. (if up then add_pin else drop_pin) (requirement_version rq) g)
       (filter (pins_exact_recipe g consumer coalescible) rqs) g"

definition pin_successor :: "address \<Rightarrow> requested_version \<Rightarrow> graph \<Rightarrow> graph" where
  "pin_successor k q g = adjust_exact_recipe_pins k (qv_coalescibleIntent q) (qv_requirements q) True g"

definition unpin_successor :: "address \<Rightarrow> requested_version \<Rightarrow> graph \<Rightarrow> graph" where
  "unpin_successor k q g = adjust_exact_recipe_pins k (qv_coalescibleIntent q) (qv_requirements q) False g"

definition clear_successors :: "address \<Rightarrow> graph \<Rightarrow> graph" where
  "clear_successors k g =
     (case node_of g k of
        None \<Rightarrow> g
      | Some n \<Rightarrow> upd_node k (\<lambda>n. n\<lparr>nd_successors := []\<rparr>) (fold (unpin_successor k) (nd_successors n) g))"

definition has_exact_dependent :: "graph \<Rightarrow> stored_key \<Rightarrow> bool" where
  "has_exact_dependent g v \<longleftrightarrow> gr_pins g v \<noteq> None \<or> gr_pins g (v\<lparr>sk_generation := 0\<rparr>) \<noteq> None"

section \<open>Waiter edges\<close>

definition address_entries :: "graph \<Rightarrow> address \<Rightarrow> nat \<Rightarrow> stored_key list" where
  "address_entries g ad revision =
     map (\<lambda>p. \<lparr>sk_address = ad, sk_revision = fst p, sk_generation = snd p\<rparr>) (filter (\<lambda>p. fst p = revision) (gr_byAddress g ad))"

definition snapshot_key :: "snapshot \<Rightarrow> stored_key" where
  "snapshot_key sn = \<lparr>sk_address = sn_key sn, sk_revision = sn_revision sn, sk_generation = sn_generation sn\<rparr>"

definition captured_keys :: "snapshot list \<Rightarrow> stored_key list" where
  "captured_keys sns = map snapshot_key (filter (\<lambda>sn. sn_revision sn \<noteq> 0 \<and> sn_generation sn \<noteq> 0) sns)"

definition reconsidered :: "graph \<Rightarrow> artifact_requirement \<Rightarrow> stored_key list" where
  "reconsidered g rq =
     (if rq_minimumRevision rq \<noteq> 0 \<and> rq_invalidation rq \<noteq> LatestVersion
      then if rq_requiredGeneration rq \<noteq> 0 then [requirement_version rq] else address_entries g (rq_key rq) (rq_minimumRevision rq)
      else [])"

definition drop_waiter :: "address \<Rightarrow> address \<Rightarrow> graph \<Rightarrow> graph" where
  "drop_waiter consumer dependency g =
     g\<lparr>gr_waiters := (gr_waiters g)(dependency := filter (\<lambda>k. k \<noteq> consumer) (gr_waiters g dependency))\<rparr>"

definition add_waiter :: "address \<Rightarrow> address \<Rightarrow> graph \<Rightarrow> graph" where
  "add_waiter consumer dependency g =
     g\<lparr>gr_waiters := (gr_waiters g)(dependency := List.insert consumer (gr_waiters g dependency))\<rparr>"

definition remove_waiter_edges :: "address \<Rightarrow> graph \<Rightarrow> graph" where
  "remove_waiter_edges k g =
     (case node_of g k of
        None \<Rightarrow> g
      | Some n \<Rightarrow>
          let g1 = adjust_exact_recipe_pins k (nd_coalescibleIntent n) (nd_requirements n) False g;
              g2 = queue_reclaim (captured_keys (nd_resolvedDependencies n)) g1;
              g3 = queue_reclaim (concat (map (reconsidered g) (nd_requirements n))) g2;
              g4 = (if nd_requestedRequirements n \<noteq> nd_requirements n
                then queue_reclaim (concat (map (reconsidered g) (nd_requestedRequirements n))) g3 else g3);
              g5 = fold (drop_waiter k) (nd_installedWaiterKeys n) g4
          in upd_node k (\<lambda>n. n\<lparr>nd_installedWaiterKeys := [], nd_completedWaiterEdgesPruned := False\<rparr>) g5)"

text \<open>The addresses to wait at: those prepared by the request, or those of the recipes.\<close>

definition waiter_keys :: "node \<Rightarrow> address list \<Rightarrow> address list" where
  "waiter_keys n prepared =
     (if prepared \<noteq> [] then filter (\<lambda>k. k \<noteq> nd_key n) prepared
      else rev (remdups (rev (filter (\<lambda>k. k \<noteq> nd_key n) (map rq_key (nd_requirements n @ nd_requestedRequirements n))))))"

definition install_waiter_edges :: "address \<Rightarrow> address list \<Rightarrow> graph \<Rightarrow> graph" where
  "install_waiter_edges k prepared g =
     (case node_of g k of
        None \<Rightarrow> g
      | Some n \<Rightarrow>
          let g1 = adjust_exact_recipe_pins k (nd_coalescibleIntent n) (nd_requirements n) True g;
              keys = waiter_keys n prepared;
              g2 = fold (add_waiter k) keys g1
          in upd_node k (\<lambda>n. n\<lparr>nd_installedWaiterKeys := keys, nd_completedWaiterEdgesPruned := False\<rparr>) g2)"

definition latest_at :: "node \<Rightarrow> address \<Rightarrow> bool" where
  "latest_at n dependency \<longleftrightarrow> (\<exists>rq \<in> set (nd_requestedRequirements n). rq_key rq = dependency \<and> rq_invalidation rq = LatestVersion)"

definition prune_completed_waiter_edges :: "address \<Rightarrow> graph \<Rightarrow> graph" where
  "prune_completed_waiter_edges k g =
     (case node_of g k of
        None \<Rightarrow> g
      | Some n \<Rightarrow>
          let g1 = fold (drop_waiter k) (filter (\<lambda>d. \<not> latest_at n d) (nd_installedWaiterKeys n)) g
          in upd_node k (\<lambda>n. n\<lparr>nd_installedWaiterKeys := filter (latest_at n) (nd_installedWaiterKeys n),
               nd_completedWaiterEdgesPruned := True\<rparr>) g1)"

definition wake_waiters :: "address \<Rightarrow> graph \<Rightarrow> graph" where
  "wake_waiters k g = (if gr_waiters g k = [] then g else g\<lparr>gr_wakes := gr_wakes g @ [(k, gr_waiters g k)]\<rparr>)"

section \<open>Ready gates\<close>

definition gate_selection :: "graph \<Rightarrow> artifact_requirement \<Rightarrow> snapshot option" where
  "gate_selection g rq =
     (let current = (case node_of g (rq_key rq) of
            None \<Rightarrow> None
          | Some n \<Rightarrow>
              if sn_revision (make_snapshot n) \<noteq> 0 \<and> reached_milestone (sn_readiness (make_snapshot n)) (rq_requiredReadiness rq)
              then Some (make_snapshot n) else None)
      in case newest_ready g (rq_key rq) 0 (rq_requiredReadiness rq) of
           None \<Rightarrow> current
         | Some archived \<Rightarrow>
             (case current of None \<Rightarrow> Some archived | Some sn \<Rightarrow> if sn_revision sn < sn_revision archived then Some archived else current))"

definition latch_gate :: "graph \<Rightarrow> artifact_requirement \<Rightarrow> artifact_requirement" where
  "latch_gate g rq =
     (if rq_invalidation rq \<noteq> ReadyGate \<or> rq_minimumRevision rq \<noteq> 0 then rq
      else case gate_selection g rq of
        None \<Rightarrow> rq
      | Some sn \<Rightarrow> rq\<lparr>rq_minimumRevision := sn_revision sn, rq_requiredGeneration := sn_generation sn\<rparr>)"

definition latches :: "graph \<Rightarrow> artifact_requirement \<Rightarrow> bool" where
  "latches g rq \<longleftrightarrow> rq_invalidation rq = ReadyGate \<and> rq_minimumRevision rq = 0 \<and> gate_selection g rq \<noteq> None"

definition latch_ready_gates :: "address \<Rightarrow> graph \<Rightarrow> graph" where
  "latch_ready_gates k g =
     (case node_of g k of
        None \<Rightarrow> g
      | Some n \<Rightarrow>
          let latched = map (latch_gate g) (filter (latches g) (nd_requirements n));
              g1 = fold (\<lambda>rq. add_pin (requirement_version rq)) (filter (pins_exact_recipe g k (nd_coalescibleIntent n)) latched) g
          in upd_node k (\<lambda>n. n\<lparr>nd_requirements := map (latch_gate g) (nd_requirements n)\<rparr>) g1)"

section \<open>Queueing\<close>

definition queue_refused :: "node \<Rightarrow> bool" where
  "queue_refused n \<longleftrightarrow>
     \<not> nd_desired n \<or> nd_terminalFailure n \<or> nd_buildInFlight n \<or> nd_state n = Queued \<or>
     (nd_state n = CpuReady \<and> nd_waitingGpuSubmissions n \<noteq> None) \<or> nd_state n = UploadSubmitted \<or>
     (nd_producedRevision n = nd_desiredRevision n \<and> (nd_state n = GpuReady \<or> nd_state n = Published))"

text \<open>A mandatory dependency that ended can never be satisfied.\<close>

definition lost_dependency :: "graph \<Rightarrow> artifact_requirement \<Rightarrow> bool" where
  "lost_dependency g rq \<longleftrightarrow>
     rq_policy rq = AllOf \<and> rq_invalidation rq \<noteq> LifetimeHold \<and>
     (case select_snapshot g rq of None \<Rightarrow> False | Some sn \<Rightarrow> terminated (sn_readiness sn))"

definition queue_node :: "address \<Rightarrow> graph \<Rightarrow> graph" where
  "queue_node k g =
     (case node_of g k of
        None \<Rightarrow> g
      | Some n \<Rightarrow>
          if queue_refused n then g
          else
            let g1 = latch_ready_gates k g in
            (case node_of g1 k of
               None \<Rightarrow> g1
             | Some n1 \<Rightarrow>
                 if \<not> dependencies_satisfied g1 n1
                 then
                   if list_ex (lost_dependency g1) (nd_requirements n1)
                   then
                     let g2 = upd_node k (\<lambda>n. n\<lparr>nd_error := ''required dependency terminated'', nd_terminalFailure := True\<rparr>) g1;
                         g3 = upd_stats (\<lambda>s. s\<lparr>gs_failed := gs_failed s + 1\<rparr>) (set_state k FailedState g2);
                         g4 = store_version k g3;
                         g5 = (case node_of g4 k of None \<Rightarrow> g4 | Some n4 \<Rightarrow> g4\<lparr>gr_ready := gr_ready g4 @ [make_snapshot n4]\<rparr>)
                     in wake_waiters k g5
                   else set_state k Blocked g1
                 else (set_state k Queued g1)\<lparr>gr_pending := gr_pending g1 @ [k]\<rparr>))"

section \<open>Successors\<close>

text \<open>The node takes over its oldest successor's version.\<close>

definition succeed :: "requested_version \<Rightarrow> node \<Rightarrow> node" where
  "succeed q n = n\<lparr>nd_desiredRevision := qv_revision q, nd_versionGeneration := qv_generation q,
     nd_requestFingerprint := qv_fingerprint q, nd_lease := qv_lease q, nd_requirements := qv_requirements q,
     nd_requestedRequirements := qv_requestedRequirements q, nd_input := qv_input q, nd_checkpoint := None,
     nd_payload := None, nd_resolvedDependencies := [], nd_gpuSubmissions := None, nd_waitingGpuSubmissions := None,
     nd_producedRevision := 0, nd_published := False, nd_terminalFailure := False, nd_latestSuccessorNeeded := False,
     nd_coalescibleIntent := qv_coalescibleIntent q, nd_superseded := False, nd_buildAttempted := False, nd_error := [],
     nd_retryAt := None, nd_generation := qv_generation q, nd_successors := tl (nd_successors n)\<rparr>"

definition cycle_text :: string where
  "cycle_text = ''dependency cycle: ''"

definition queue_or_fail :: "address \<Rightarrow> graph \<Rightarrow> graph" where
  "queue_or_fail k g =
     (case node_of g k of
        None \<Rightarrow> g
      | Some n \<Rightarrow> (let cycle = detect_cycle g n in if cycle \<noteq> [] then fail_cycle cycle_text cycle g else queue_node k g))"

definition promote_successor :: "address \<Rightarrow> graph \<Rightarrow> graph \<times> bool" where
  "promote_successor k g =
     (case node_of g k of
        None \<Rightarrow> (g, False)
      | Some n \<Rightarrow>
          (case nd_successors n of
             [] \<Rightarrow> (g, False)
           | q # qs \<Rightarrow>
               if nd_buildInFlight n then (g, False)
               else
                 let previous = node_version n;
                     g1 = store_version k g;
                     g2 = (if nd_state n = UploadSubmitted
                       then upd_stats (\<lambda>s. s\<lparr>gs_gpuWaiting := gs_gpuWaiting s - 1\<rparr>) (upd_node k (\<lambda>n. n\<lparr>nd_waitingGpuSubmissions := None\<rparr>) g1)
                       else g1);
                     g3 = unpin_successor k q (remove_waiter_edges k g2);
                     g4 = install_waiter_edges k [] (upd_node k (succeed q) g3);
                     g5 = (if sk_revision previous \<noteq> 0 then queue_reclaim [previous] g4 else g4)
                 in (queue_or_fail k (set_state k Missing g5), True)))"

text \<open>A version minted because a dependency taken at its latest advanced.\<close>

definition hash_request_value :: "u64 \<Rightarrow> u64 \<Rightarrow> u64" where
  "hash_request_value hash v = xor hash (v + 0x9e3779b97f4a7c15 + push_bit 6 hash + drop_bit 2 hash)"

definition minted_fingerprint :: "node \<Rightarrow> nat \<Rightarrow> u64" where
  "minted_fingerprint n generation =
     (let f = hash_request_value (hash_request_value (nd_requestFingerprint n) (of_nat (nd_desiredRevision n))) (of_nat generation)
      in if f = 0 then 1 else f)"

definition queue_latest_successor :: "address \<Rightarrow> graph \<Rightarrow> graph \<times> bool" where
  "queue_latest_successor k g =
     (case node_of g k of
        None \<Rightarrow> (g, False)
      | Some n \<Rightarrow>
          if nd_buildInFlight n \<or> nd_producedRevision n = 0 \<or>
             (nd_state n \<noteq> UploadSubmitted \<and> nd_state n \<noteq> GpuReady \<and> nd_state n \<noteq> Published)
          then (g, False)
          else if nd_successors n \<noteq> []
          then promote_successor k (upd_node k (\<lambda>n. n\<lparr>nd_latestSuccessorNeeded := False\<rparr>) g)
          else
            let generation = gr_nextVersionGeneration g + 1;
                v = \<lparr>sk_address = k, sk_revision = nd_desiredRevision n, sk_generation = generation\<rparr>
            in case acquire_version_lease v (g\<lparr>gr_nextVersionGeneration := generation\<rparr>) of
                 (g1, token) \<Rightarrow>
                   let q = \<lparr>qv_revision = nd_desiredRevision n, qv_generation = generation,
                         qv_fingerprint = minted_fingerprint n generation, qv_input = nd_input n,
                         qv_requirements = nd_requestedRequirements n, qv_requestedRequirements = nd_requestedRequirements n,
                         qv_lease = Some token, qv_coalescibleIntent = nd_coalescibleIntent n\<rparr>;
                       g2 = upd_node k (\<lambda>n. n\<lparr>nd_successors := nd_successors n @ [q]\<rparr>) g1;
                       g3 = upd_node k (\<lambda>n. n\<lparr>nd_latestSuccessorNeeded := False\<rparr>) (pin_successor k q g2)
                   in promote_successor k (upd_stats (\<lambda>s. s\<lparr>gs_requests := gs_requests s + 1\<rparr>) g3))"

section \<open>Waking\<close>

text \<open>
  Whether a consumer already holds the dependency's current version. Above 32 captured
  dependencies the index keeps only the first of an address.
\<close>

definition captured_current :: "node \<Rightarrow> snapshot \<Rightarrow> bool" where
  "captured_current current sn \<longleftrightarrow> sn_revision sn = nd_producedRevision current \<and> sn_generation sn = nd_versionGeneration current"

definition selection_used :: "node \<Rightarrow> address \<Rightarrow> node \<Rightarrow> bool" where
  "selection_used n dependency current =
     (let captured = filter (\<lambda>sn. sn_key sn = dependency) (nd_resolvedDependencies n) in
      if 32 < length (nd_resolvedDependencies n)
      then (case captured of [] \<Rightarrow> False | sn # sns \<Rightarrow> captured_current current sn)
      else list_ex (captured_current current) captured)"

definition selected_here :: "graph \<Rightarrow> node \<Rightarrow> address \<Rightarrow> artifact_requirement \<Rightarrow> bool" where
  "selected_here g n dependency rq =
     (if alternative rq
      then (case List.find (\<lambda>c. rq_policy c = rq_policy rq \<and> rq_alternativeGroup c = rq_alternativeGroup rq \<and> requirement_satisfied g c)
              (nd_requestedRequirements n) of
              None \<Rightarrow> False
            | Some c \<Rightarrow> rq_key c = dependency)
      else requirement_satisfied g rq)"

definition wake_waiter :: "address \<Rightarrow> address \<Rightarrow> graph \<Rightarrow> graph" where
  "wake_waiter dependency consumer g =
     (case node_of g consumer of
        None \<Rightarrow> g
      | Some n \<Rightarrow>
          let requested = List.find (\<lambda>rq. rq_key rq = dependency) (nd_requestedRequirements n);
              selected = (case requested of None \<Rightarrow> False | Some rq \<Rightarrow> selected_here g n dependency rq);
              latest = (case requested of None \<Rightarrow> True | Some rq \<Rightarrow> rq_invalidation rq = LatestVersion);
              used = (case node_of g dependency of None \<Rightarrow> False | Some current \<Rightarrow> selection_used n dependency current);
              completed = (nd_state n = GpuReady \<or> nd_state n = Published \<or> nd_state n = UploadSubmitted)
          in if completed \<and> selected \<and> \<not> used \<and> latest then fst (queue_latest_successor consumer g)
             else if nd_buildAttempted n \<and> selected \<and> \<not> used \<and> latest
             then queue_node consumer (upd_node consumer (\<lambda>n. n\<lparr>nd_latestSuccessorNeeded := True\<rparr>) g)
             else queue_node consumer g)"

end
