(* ===== verification/GraphReclaim.thy ===== *)
theory GraphReclaim
  imports GraphOps
begin

text \<open>
  Reclamation (\<^verbatim>\<open>Async/Detail/StateGraphImplementation.h\<close>, \<open>ReclaimUnreferencedVersions\<close>): the
  queue of versions to reconsider, examined up to 4096 a drain or until the time is up, which is
  asked for after each retirement: \<open>late i\<close> is the clock's answer at the \<open>i\<close>-th examination.
\<close>

definition recipe_reference :: "graph \<Rightarrow> stored_key \<Rightarrow> artifact_requirement \<Rightarrow> bool" where
  "recipe_reference g v rq \<longleftrightarrow>
     rq_key rq = sk_address v \<and>
     (if rq_invalidation rq = LatestVersion
      then (case select_snapshot g rq of
              None \<Rightarrow> False
            | Some sn \<Rightarrow> sn_revision sn = sk_revision v \<and> sn_generation sn = sk_generation v)
      else rq_minimumRevision rq = sk_revision v \<and> (rq_requiredGeneration rq = 0 \<or> rq_requiredGeneration rq = sk_generation v))"

definition recipe_references :: "graph \<Rightarrow> stored_key \<Rightarrow> artifact_requirement list \<Rightarrow> bool" where
  "recipe_references g v rqs \<longleftrightarrow> list_ex (recipe_reference g v) rqs"

definition waiter_referenced :: "graph \<Rightarrow> stored_key \<Rightarrow> bool" where
  "waiter_referenced g v \<longleftrightarrow>
     list_ex (\<lambda>k. case node_of g k of
         None \<Rightarrow> False
       | Some n \<Rightarrow>
           recipe_references g v (nd_requirements n) \<or> recipe_references g v (nd_requestedRequirements n) \<or>
           list_ex (\<lambda>q. recipe_references g v (qv_requirements q)) (nd_successors n))
       (gr_waiters g (sk_address v))"

definition cursor_referenced :: "graph \<Rightarrow> stored_key \<Rightarrow> bool" where
  "cursor_referenced g v \<longleftrightarrow>
     (case node_of g (sk_address v) of
        None \<Rightarrow> False
      | Some n \<Rightarrow>
          nd_desired n \<and>
          (nd_desiredRevision n = sk_revision v \<and> nd_versionGeneration n = sk_generation v \<or>
           nd_producedRevision n = sk_revision v \<and> nd_versionGeneration n = sk_generation v \<or>
           list_ex (\<lambda>q. qv_revision q = sk_revision v \<and> qv_generation q = sk_generation v) (nd_successors n)))"

definition referenced :: "graph \<Rightarrow> stored_key \<Rightarrow> bool" where
  "referenced g v \<longleftrightarrow> has_exact_dependent g v \<or> lease_live g v \<or> waiter_referenced g v \<or> cursor_referenced g v"

definition drop_expired_lease :: "stored_key \<Rightarrow> graph \<Rightarrow> graph" where
  "drop_expired_lease v g = (if lease_live g v then g else g\<lparr>gr_leases := (gr_leases g)(v := None)\<rparr>)"

definition retire_version :: "stored_key \<Rightarrow> snapshot \<Rightarrow> graph \<Rightarrow> graph" where
  "retire_version v sn g =
     (let g1 = g\<lparr>gr_retirement := gr_retirement g @ [sn], gr_versions := (gr_versions g)(v := None),
            gr_byAddress := (gr_byAddress g)(sk_address v := removeAll (sk_revision v, sk_generation v) (gr_byAddress g (sk_address v)))\<rparr>;
          g2 = drop_expired_lease v (upd_stats (\<lambda>s. s\<lparr>gs_reclaimed := gs_reclaimed s + 1\<rparr>) g1)
      in g2\<lparr>gr_refusals := (gr_refusals g2)(v := None)\<rparr>)"

text \<open>One candidate, and whether it was retired.\<close>

definition reclaim_candidate :: "stored_key \<Rightarrow> graph \<Rightarrow> graph \<times> bool" where
  "reclaim_candidate v g =
     (case gr_versions g v of
        None \<Rightarrow> (drop_expired_lease v g, False)
      | Some sn \<Rightarrow> if referenced g v then (g, False) else (retire_version v sn g, True))"

fun reclaim_scan :: "(nat \<Rightarrow> bool) \<Rightarrow> nat \<Rightarrow> graph \<Rightarrow> graph" where
  "reclaim_scan late 0 g = g"
| "reclaim_scan late (Suc n) g =
     (case gr_reclaim g of
        [] \<Rightarrow> g
      | v # vs \<Rightarrow>
          (case reclaim_candidate v (g\<lparr>gr_reclaim := vs\<rparr>) of
             (g1, retired) \<Rightarrow> if retired \<and> late n then g1 else reclaim_scan late n g1))"

definition reclaim_unreferenced_versions :: "(nat \<Rightarrow> bool) \<Rightarrow> graph \<Rightarrow> graph" where
  "reclaim_unreferenced_versions late g = reclaim_scan late 4096 g"

end
