(* ===== verification/GraphRequest.thy ===== *)
theory GraphRequest
  imports GraphReclaim
begin

text \<open>
  What the drain applies of its callers' calls
  (\<^verbatim>\<open>Async/Detail/StateGraphImplementation.h\<close>): requests, cancellation and release, publication.
  A refused request is archived as a failed version under the generation its poster was told.
\<close>

section \<open>Fingerprints\<close>

fun policy_rank :: "dependency_policy \<Rightarrow> nat" where
  "policy_rank AllOf = 0"
| "policy_rank AnyOf = 1"
| "policy_rank Optional = 2"
| "policy_rank FallbackAllowed = 3"

fun invalidation_rank :: "invalidation_policy \<Rightarrow> nat" where
  "invalidation_rank ExactSnapshot = 0"
| "invalidation_rank LatestVersion = 1"
| "invalidation_rank ReadyGate = 2"
| "invalidation_rank LifetimeHold = 3"

definition hash_address :: "address \<Rightarrow> u64 \<Rightarrow> u64" where
  "hash_address ad h =
     hash_request_value (hash_request_value (hash_request_value h (of_nat (ad_kind ad))) (ad_primaryID ad)) (ad_variantID ad)"

definition requirement_values :: "artifact_requirement \<Rightarrow> nat list" where
  "requirement_values rq = [rq_minimumRevision rq, readiness_rank (rq_requiredReadiness rq), policy_rank (rq_policy rq),
     rq_alternativeGroup rq, invalidation_rank (rq_invalidation rq), rq_requiredGeneration rq]"

definition hash_requirement :: "artifact_requirement \<Rightarrow> u64 \<Rightarrow> u64" where
  "hash_requirement rq h = fold (\<lambda>v h. hash_request_value h (of_nat v)) (requirement_values rq) (hash_address (rq_key rq) h)"

definition canonical_request_fingerprint :: "address \<Rightarrow> nat \<Rightarrow> artifact_requirement list \<Rightarrow> u64" where
  "canonical_request_fingerprint k revision rqs =
     (let h = fold hash_requirement rqs (hash_request_value (hash_address k 1469598103934665603) (of_nat revision))
      in if h = 0 then 1 else h)"

section \<open>Generations\<close>

definition reserve_generation :: "version_key \<Rightarrow> graph \<Rightarrow> graph \<times> nat" where
  "reserve_generation vk g =
     (case gr_reserved g vk of
        Some generation \<Rightarrow> (g, generation)
      | None \<Rightarrow>
          let generation = gr_nextVersionGeneration g + 1 in
          (g\<lparr>gr_nextVersionGeneration := generation, gr_reserved := (gr_reserved g)(vk \<mapsto> generation)\<rparr>, generation))"

definition set_reserved_generation :: "version_key \<Rightarrow> nat \<Rightarrow> graph \<Rightarrow> graph" where
  "set_reserved_generation vk generation g = g\<lparr>gr_reserved := (gr_reserved g)(vk \<mapsto> generation)\<rparr>"

definition canonical_requirement :: "graph \<Rightarrow> artifact_requirement \<Rightarrow> artifact_requirement" where
  "canonical_requirement g rq =
     (if rq_requiredGeneration rq = 0 then rq
      else rq\<lparr>rq_requiredGeneration := sk_generation (canonical g (requirement_version rq))\<rparr>)"

definition canonicalize_requirements :: "graph \<Rightarrow> artifact_requirement list \<Rightarrow> artifact_requirement list" where
  "canonicalize_requirements g rqs = map (canonical_requirement g) rqs"

definition migrate_aliased_version :: "stored_key \<Rightarrow> stored_key \<Rightarrow> graph \<Rightarrow> graph" where
  "migrate_aliased_version predicted v g =
     (if predicted = v then g
      else
        let moved = map (\<lambda>w. w\<lparr>ew_version := v\<rparr>) (gr_exactWaiters g predicted);
            g1 = g\<lparr>gr_exactWaiters := (gr_exactWaiters g)(v := gr_exactWaiters g v @ moved, predicted := [])\<rparr>;
            g2 = (case gr_pins g1 predicted of
                    None \<Rightarrow> g1
                  | Some c \<Rightarrow> g1\<lparr>gr_pins := (gr_pins g1)(v \<mapsto> (case gr_pins g1 v of None \<Rightarrow> c | Some d \<Rightarrow> d + c), predicted := None)\<rparr>)
        in if lease_live g2 predicted then register_version_lease v (gr_leases g2 predicted) g2 else g2)"

section \<open>Cancellation and release\<close>

definition all_entries :: "graph \<Rightarrow> address \<Rightarrow> stored_key list" where
  "all_entries g ad = map (\<lambda>p. \<lparr>sk_address = ad, sk_revision = fst p, sk_generation = snd p\<rparr>) (gr_byAddress g ad)"

definition cancel_locked :: "address \<Rightarrow> graph \<Rightarrow> graph" where
  "cancel_locked k g =
     (case node_of g k of
        None \<Rightarrow> g
      | Some n \<Rightarrow>
          let g1 = remove_waiter_edges k g;
              g2 = set_desired k False (upd_node k (\<lambda>n. n\<lparr>nd_generation := nd_generation n + 1\<rparr>) g1);
              g3 = clear_successors k (queue_reclaim (all_entries g2 k) g2);
              g4 = upd_node k (\<lambda>n. n\<lparr>nd_retryAt := None\<rparr>) g3;
              g5 = (if (nd_state n = CpuReady \<or> nd_state n = UploadSubmitted) \<and> nd_waitingGpuSubmissions n \<noteq> None
                then upd_stats (\<lambda>s. s\<lparr>gs_gpuWaiting := gs_gpuWaiting s - 1\<rparr>) g4 else g4);
              g6 = (case nd_waitingGpuSubmissions n of None \<Rightarrow> g5 | Some t \<Rightarrow> g5\<lparr>gr_cancellations := gr_cancellations g5 @ [t]\<rparr>);
              g7 = upd_node k (\<lambda>n. n\<lparr>nd_waitingGpuSubmissions := None, nd_gpuSubmissions := None, nd_lease := None\<rparr>) g6
          in upd_stats (\<lambda>s. s\<lparr>gs_cancelled := gs_cancelled s + 1\<rparr>) (set_state k CancelledState g7))"

definition erase_node :: "address \<Rightarrow> graph \<Rightarrow> graph" where
  "erase_node k g =
     (case node_of g k of
        None \<Rightarrow> g
      | Some n \<Rightarrow> g\<lparr>gr_stateCounts := bump_count (nd_state n) False (gr_stateCounts g), gr_nodes := filter (\<lambda>p. fst p \<noteq> k) (gr_nodes g)\<rparr>)"

definition release_locked :: "address \<Rightarrow> graph \<Rightarrow> graph" where
  "release_locked k g =
     (let g1 = cancel_locked k g in
      case node_of g1 k of
        None \<Rightarrow> g1
      | Some n \<Rightarrow> if \<not> nd_buildInFlight n \<and> gr_waiters g1 k = [] then erase_node k g1 else g1)"

section \<open>Publication\<close>

definition publishable :: "readiness \<Rightarrow> bool" where
  "publishable s \<longleftrightarrow> s = UploadSubmitted \<or> s = GpuReady \<or> s = Published"

definition mark_published_locked :: "stored_key \<Rightarrow> graph \<Rightarrow> graph" where
  "mark_published_locked requested g =
     (if sk_revision requested = 0 \<or> sk_generation requested = 0 then g
      else
        let v = canonical g requested;
            g1 = (case gr_versions g v of
                    None \<Rightarrow> g
                  | Some sn \<Rightarrow>
                      if sn_generation sn = sk_generation v \<and> publishable (sn_readiness sn)
                      then queue_reclaim [v]
                        (if sn_readiness sn \<noteq> Published
                         then g\<lparr>gr_versions := (gr_versions g)(v \<mapsto> sn\<lparr>sn_readiness := Published\<rparr>),
                           gr_publishedSignals := gr_publishedSignals g @ [v]\<rparr>
                         else g)
                      else g)
        in case node_of g1 (sk_address v) of
             None \<Rightarrow> g1
           | Some n \<Rightarrow>
               if nd_producedRevision n \<noteq> sk_revision v \<or> nd_versionGeneration n \<noteq> sk_generation v \<or> \<not> publishable (nd_state n) \<or>
                  (nd_published n \<and> nd_state n = Published)
               then g1
               else
                 let g2 = upd_node (sk_address v) (\<lambda>n. n\<lparr>nd_published := True\<rparr>) g1;
                     g3 = (if nd_state n = GpuReady then set_state (sk_address v) Published g2 else g2)
                 in wake_waiters (sk_address v) (store_version (sk_address v) g3))"

definition mark_published_revision_locked :: "address \<Rightarrow> nat \<Rightarrow> graph \<Rightarrow> graph" where
  "mark_published_revision_locked k revision g =
     (let g1 = fold mark_published_locked (address_entries g k revision) g in
      case node_of g1 k of
        None \<Rightarrow> g1
      | Some n \<Rightarrow>
          if nd_producedRevision n = revision
          then mark_published_locked \<lparr>sk_address = k, sk_revision = revision, sk_generation = nd_versionGeneration n\<rparr> g1
          else g1)"

section \<open>Requests\<close>

definition call_version :: "request_call \<Rightarrow> version_key" where
  "call_version rc = \<lparr>vk_address = rc_key rc, vk_revision = rc_desiredRevision rc\<rparr>"

definition call_stored :: "request_call \<Rightarrow> nat \<Rightarrow> stored_key" where
  "call_stored rc generation = \<lparr>sk_address = rc_key rc, sk_revision = rc_desiredRevision rc, sk_generation = generation\<rparr>"

definition request_answer :: "request_call \<Rightarrow> request_status \<Rightarrow> nat \<Rightarrow> nat \<Rightarrow> nat option \<Rightarrow> request_result" where
  "request_answer rc status generation version token =
     \<lparr>rr_status = status, rr_generation = generation,
      rr_version = \<lparr>vi_address = rc_key rc, vi_revision = rc_desiredRevision rc, vi_generation = version\<rparr>, rr_lease = token\<rparr>"

definition bare_answer :: "request_status \<Rightarrow> request_result" where
  "bare_answer status = \<lparr>rr_status = status, rr_generation = 0, rr_version = blank_id, rr_lease = None\<rparr>"

text \<open>A refusal told to whoever holds the predicted version, unless that is an installed one.\<close>

definition reject_predicted :: "request_call \<Rightarrow> bool \<Rightarrow> nat \<Rightarrow> request_status \<Rightarrow> graph \<Rightarrow> graph" where
  "reject_predicted rc created generation status g =
     (if rc_generation rc = 0 \<or> (\<not> created \<and> rc_generation rc = generation) then g
      else
        let v = call_stored rc (rc_generation rc);
            g1 = store_refused_version v status (rc_lease rc) g;
            g2 = g1\<lparr>gr_ready := gr_ready g1 @ [\<lparr>sn_key = rc_key rc, sn_revision = rc_desiredRevision rc,
                 sn_generation = rc_generation rc, sn_readiness = FailedState, sn_payload = None, sn_gpuSubmissions = None, sn_lease = None\<rparr>]\<rparr>
        in if created then g2\<lparr>gr_generations := (gr_generations g2)(call_version rc := None),
             gr_reserved := (gr_reserved g2)(call_version rc := None)\<rparr> else g2)"

definition alias_predicted :: "request_call \<Rightarrow> nat \<Rightarrow> graph \<Rightarrow> graph" where
  "alias_predicted rc generation g =
     (if rc_generation rc = 0 \<or> rc_generation rc = generation then g
      else migrate_aliased_version (call_stored rc (rc_generation rc)) (call_stored rc generation)
        (g\<lparr>gr_aliases := (gr_aliases g)(call_stored rc (rc_generation rc) \<mapsto> call_stored rc generation)\<rparr>))"

text \<open>The poster's lease and the caller's.\<close>

definition lease_request :: "request_call \<Rightarrow> nat \<Rightarrow> graph \<Rightarrow> graph \<times> nat" where
  "lease_request rc generation g =
     acquire_version_lease (call_stored rc generation) (register_version_lease (call_stored rc generation) (rc_lease rc) g)"

text \<open>Queued successors that a coalescible intent replaces: the newest, while nothing pins them.\<close>

fun coalesce_successors :: "nat \<Rightarrow> address \<Rightarrow> graph \<Rightarrow> graph" where
  "coalesce_successors 0 k g = g"
| "coalesce_successors (Suc n) k g =
     (case node_of g k of
        None \<Rightarrow> g
      | Some node \<Rightarrow>
          (case rev (nd_successors node) of
             [] \<Rightarrow> g
           | q # qs \<Rightarrow>
               if qv_coalescibleIntent q \<and>
                 \<not> has_exact_dependent g \<lparr>sk_address = k, sk_revision = qv_revision q, sk_generation = qv_generation q\<rparr>
               then coalesce_successors n k
                 (upd_stats (\<lambda>s. s\<lparr>gs_coalesced := gs_coalesced s + 1\<rparr>)
                   (upd_node k (\<lambda>n. n\<lparr>nd_successors := rev qs\<rparr>) (unpin_successor k q g)))
               else g))"

definition active_version :: "node \<Rightarrow> stored_key" where
  "active_version n = \<lparr>sk_address = nd_key n, sk_revision = nd_desiredRevision n, sk_generation = nd_versionGeneration n\<rparr>"

definition supersede_active :: "address \<Rightarrow> graph \<Rightarrow> graph" where
  "supersede_active k g =
     (case node_of g k of
        None \<Rightarrow> g
      | Some n \<Rightarrow>
          let g1 = (if \<not> has_exact_dependent g (active_version n) \<and> \<not> nd_superseded n
            then upd_stats (\<lambda>s. s\<lparr>gs_superseded := gs_superseded s + 1\<rparr>) (upd_node k (\<lambda>n. n\<lparr>nd_superseded := True\<rparr>) g) else g)
          in coalesce_successors (length (nd_successors n)) k g1)"

text \<open>Behind a version that is not finished the request is a successor.\<close>

definition requested_by :: "request_call \<Rightarrow> nat \<Rightarrow> u64 \<Rightarrow> artifact_requirement list \<Rightarrow> nat \<Rightarrow> requested_version" where
  "requested_by rc generation fingerprint rqs token =
     \<lparr>qv_revision = rc_desiredRevision rc, qv_generation = generation, qv_fingerprint = fingerprint, qv_input = rc_input rc,
      qv_requirements = rqs, qv_requestedRequirements = rqs, qv_lease = Some token, qv_coalescibleIntent = rc_coalescible rc\<rparr>"

definition append_successor :: "request_call \<Rightarrow> requested_version \<Rightarrow> graph \<Rightarrow> graph" where
  "append_successor rc q g =
     pin_successor (rc_key rc) q (upd_node (rc_key rc) (\<lambda>n. n\<lparr>nd_successors := nd_successors n @ [q]\<rparr>)
       (if rc_coalescible rc then supersede_active (rc_key rc) g else g))"

definition queue_successor :: "request_call \<Rightarrow> nat \<Rightarrow> u64 \<Rightarrow> artifact_requirement list \<Rightarrow> nat \<Rightarrow> graph \<Rightarrow> graph" where
  "queue_successor rc generation fingerprint rqs token g =
     (let k = rc_key rc; g2 = append_successor rc (requested_by rc generation fingerprint rqs token) g
      in case node_of g2 k of
           None \<Rightarrow> g2
         | Some n \<Rightarrow>
             let obsolete = (rc_coalescible rc \<and> \<not> nd_buildInFlight n \<and> \<not> has_exact_dependent g2 (active_version n) \<and>
               (nd_state n = Missing \<or> nd_state n = Blocked \<or> nd_state n = Queued))
             in if obsolete \<or> (nd_state n = UploadSubmitted \<and> \<not> nd_buildInFlight n) then fst (promote_successor k g2) else g2)"

text \<open>Otherwise the address turns to it.\<close>

definition take_up :: "request_call \<Rightarrow> nat \<Rightarrow> u64 \<Rightarrow> artifact_requirement list \<Rightarrow> nat \<Rightarrow> node \<Rightarrow> node" where
  "take_up rc generation fingerprint rqs token n = n\<lparr>nd_desiredRevision := rc_desiredRevision rc, nd_versionGeneration := generation,
     nd_generation := generation, nd_requestFingerprint := fingerprint, nd_lease := Some token, nd_requirements := rqs,
     nd_requestedRequirements := rqs, nd_input := rc_input rc, nd_producedRevision := 0, nd_payload := None, nd_checkpoint := None,
     nd_resolvedDependencies := [], nd_terminalFailure := False, nd_latestSuccessorNeeded := False,
     nd_coalescibleIntent := rc_coalescible rc, nd_superseded := False, nd_buildAttempted := False, nd_error := [],
     nd_gpuSubmissions := None, nd_waitingGpuSubmissions := None, nd_retryAt := None\<rparr>"

definition install_request :: "request_call \<Rightarrow> nat \<Rightarrow> u64 \<Rightarrow> artifact_requirement list \<Rightarrow> address list \<Rightarrow> nat \<Rightarrow> graph \<Rightarrow> graph" where
  "install_request rc generation fingerprint rqs prepared token g =
     (let k = rc_key rc in
      case node_of g k of
        None \<Rightarrow> g
      | Some n \<Rightarrow>
          let g1 = remove_waiter_edges k (store_version k g);
              g2 = upd_node k (take_up rc generation fingerprint rqs token) g1;
              g3 = (if sk_revision (node_version n) \<noteq> 0 then queue_reclaim [node_version n] g2 else g2)
          in queue_or_fail k (install_waiter_edges k prepared (set_state k Missing g3)))"

definition finished :: "node \<Rightarrow> bool" where
  "finished n \<longleftrightarrow> nd_producedRevision n = nd_desiredRevision n \<and> (nd_state n = GpuReady \<or> nd_state n = Published)"

definition still_desired :: "node \<Rightarrow> nat \<Rightarrow> bool" where
  "still_desired n revision \<longleftrightarrow> nd_desired n \<and> (nd_desiredRevision n = revision \<or> list_ex (\<lambda>q. qv_revision q = revision) (nd_successors n))"

text \<open>An admitted request: its leases, its signature, and where it goes.\<close>

definition record_request :: "request_call \<Rightarrow> u64 \<Rightarrow> artifact_requirement list \<Rightarrow> graph \<Rightarrow> graph" where
  "record_request rc fingerprint rqs g =
     (let g1 = (case gr_signatures g (call_version rc) of
            Some s \<Rightarrow> g
          | None \<Rightarrow> g\<lparr>gr_signatures := (gr_signatures g)(call_version rc \<mapsto>
              \<lparr>vs_fingerprint = fingerprint, vs_inputType = payload_type g (rc_input rc), vs_requirements = rqs\<rparr>)\<rparr>)
      in upd_stats (\<lambda>s. s\<lparr>gs_requests := gs_requests s + 1\<rparr>)
        (upd_node (rc_key rc) (\<lambda>n. n\<lparr>nd_latestRequestedRevision := rc_desiredRevision rc\<rparr>) g1))"

definition place_request :: "request_call \<Rightarrow> nat \<Rightarrow> u64 \<Rightarrow> artifact_requirement list \<Rightarrow> nat \<Rightarrow> graph \<Rightarrow> graph" where
  "place_request rc generation fingerprint rqs token g =
     (case node_of g (rc_key rc) of
        None \<Rightarrow> g
      | Some n \<Rightarrow>
          if nd_desiredRevision n \<noteq> 0 \<and> \<not> finished n then queue_successor rc generation fingerprint rqs token g
          else install_request rc generation fingerprint rqs (rev (remdups (rev (map rq_key (rc_requirements rc))))) token g)"

definition admit_request :: "request_call \<Rightarrow> nat \<Rightarrow> u64 \<Rightarrow> artifact_requirement list \<Rightarrow> graph \<Rightarrow> graph \<times> request_result" where
  "admit_request rc generation fingerprint rqs g =
     (case lease_request rc generation (alias_predicted rc generation g) of
        (g1, token) \<Rightarrow>
          let g2 = place_request rc generation fingerprint rqs token (record_request rc fingerprint rqs g1) in
          (g2, request_answer rc Accepted (case node_of g2 (rc_key rc) of None \<Rightarrow> 0 | Some n \<Rightarrow> nd_generation n) generation (Some token)))"

text \<open>The generation of the address's revision, and whether the call made it.\<close>

definition call_generation :: "request_call \<Rightarrow> graph \<Rightarrow> graph \<times> nat \<times> bool" where
  "call_generation rc g =
     (case gr_generations g (call_version rc) of
        Some generation \<Rightarrow> (g, generation, False)
      | None \<Rightarrow>
          (case (if rc_generation rc \<noteq> 0 then (g, rc_generation rc) else reserve_generation (call_version rc) g) of
             (g1, generation) \<Rightarrow> (g1\<lparr>gr_generations := (gr_generations g1)(call_version rc \<mapsto> generation)\<rparr>, generation, True)))"

definition ensure_node :: "address \<Rightarrow> graph \<Rightarrow> graph" where
  "ensure_node k g =
     (if node_of g k = None
      then g\<lparr>gr_nodes := gr_nodes g @ [(k, fresh_node k)], gr_stateCounts := bump_count Missing True (gr_stateCounts g)\<rparr> else g)"

text \<open>The version's signature is known: a conflict, stale, desired already, or desired again.\<close>

definition resume_request :: "request_call \<Rightarrow> nat \<Rightarrow> bool \<Rightarrow> u64 \<Rightarrow> artifact_requirement list \<Rightarrow> version_signature \<Rightarrow> node \<Rightarrow> graph \<Rightarrow> graph \<times> request_result" where
  "resume_request rc generation created fingerprint rqs s n g =
     (if vs_fingerprint s \<noteq> fingerprint \<or> vs_inputType s \<noteq> payload_type g (rc_input rc) \<or> vs_requirements s \<noteq> rqs
      then (reject_predicted rc created generation ConflictingRevision g, request_answer rc ConflictingRevision (nd_generation n) generation None)
      else if \<not> still_desired n (rc_desiredRevision rc) \<and> rc_desiredRevision rc < nd_latestRequestedRevision n
      then (reject_predicted rc created generation StaleRevision g, request_answer rc StaleRevision (nd_generation n) generation None)
      else if still_desired n (rc_desiredRevision rc)
      then (case lease_request rc generation (alias_predicted rc generation g) of
              (g1, token) \<Rightarrow> (g1, request_answer rc AlreadyDesired (nd_generation n) generation (Some token)))
      else if gr_versions g (call_stored rc generation) \<noteq> None then admit_request rc generation fingerprint rqs g
      else
        let fresh = gr_nextVersionGeneration g + 1;
            g1 = g\<lparr>gr_nextVersionGeneration := fresh, gr_generations := (gr_generations g)(call_version rc \<mapsto> fresh)\<rparr>
        in admit_request rc fresh fingerprint rqs (set_reserved_generation (call_version rc) fresh g1))"

definition request_internal :: "request_call \<Rightarrow> graph \<Rightarrow> graph \<times> request_result" where
  "request_internal rc g =
     (let k = rc_key rc; producer = gr_producers g (ad_kind k) in
      if rc_coalescible rc \<and> \<not> kp_allowCoalescing (kind_policy_of g (ad_kind k)) then (g, bare_answer TypeMismatch)
      else if gr_shuttingDown g then (g, bare_answer ShuttingDown)
      else if (case producer of None \<Rightarrow> False | Some p \<Rightarrow> pr_inputType p \<noteq> None \<and> payload_type g (rc_input rc) \<noteq> pr_inputType p)
      then (g, bare_answer TypeMismatch)
      else if rc_input rc \<noteq> None \<and> rc_fingerprint rc = 0 then (g, bare_answer MissingFingerprint)
      else
        let fingerprint = (if rc_fingerprint rc = 0 then canonical_request_fingerprint k (rc_desiredRevision rc) (rc_requirements rc)
              else rc_fingerprint rc);
            rqs = canonicalize_requirements g (rc_requirements rc)
        in case call_generation rc g of
          (g1, generation, created) \<Rightarrow>
            let g2 = set_desired k True (ensure_node k g1) in
            (case node_of g2 k of
               None \<Rightarrow> (g2, bare_answer ShuttingDown)
             | Some n \<Rightarrow>
                 (case gr_signatures g2 (call_version rc) of
                    Some s \<Rightarrow> resume_request rc generation created fingerprint rqs s n g2
                  | None \<Rightarrow>
                      if nd_latestRequestedRevision n \<noteq> 0 \<and> rc_desiredRevision rc < nd_latestRequestedRevision n
                      then (reject_predicted rc created generation StaleRevision g2, request_answer rc StaleRevision (nd_generation n) generation None)
                      else admit_request rc generation fingerprint rqs g2)))"

end
