(* ===== verification/GraphDrain.thy ===== *)
theory GraphDrain
  imports GraphRequest
begin

text \<open>
  The drain (\<^verbatim>\<open>Async/Detail/StateGraphImplementation.h\<close>, \<open>Drain\<close>): one slice over awaits,
  suspensions, requests, submission signals, retries, completions, wakes, builds and reclamation.
  The wall clock decides where a slice's loops stop early: their counts are arguments, cut to the
  code's limits, as is what each submission set answers. What a slice hands out (ready snapshots,
  builds, acceptances, dispatched waiters, subscriptions) is returned.
\<close>

section \<open>What a slice hands out\<close>

record gpu_state =
  gu_submitted :: bool
  gu_complete :: bool
  gu_failed :: bool
  gu_authoritative :: bool

record build_call =
  bc_key :: address
  bc_revision :: nat
  bc_generation :: nat
  bc_dependencies :: "snapshot list"
  bc_input :: "nat option"
  bc_checkpoint :: "nat option"
  bc_continuation :: bool

record drain_out =
  do_ready :: "snapshot list"
  do_builds :: "build_call list"
  do_acceptances :: "(completion \<times> snapshot) list"
  do_dispatched :: "(nat \<times> snapshot) list"
  do_subscriptions :: "(address \<times> nat) list"

definition nothing_out :: drain_out where
  "nothing_out = \<lparr>do_ready = [], do_builds = [], do_acceptances = [], do_dispatched = [], do_subscriptions = []\<rparr>"

type_synonym drain_state = "graph \<times> drain_out"

definition on_graph :: "(graph \<Rightarrow> graph) \<Rightarrow> drain_state \<Rightarrow> drain_state" where
  "on_graph f st = (f (fst st), snd st)"

definition add_ready :: "snapshot \<Rightarrow> drain_state \<Rightarrow> drain_state" where
  "add_ready sn st = (fst st, (snd st)\<lparr>do_ready := do_ready (snd st) @ [sn]\<rparr>)"

text \<open>The node's snapshot as it is now.\<close>

definition report_node :: "address \<Rightarrow> drain_state \<Rightarrow> drain_state" where
  "report_node k st = (case node_of (fst st) k of None \<Rightarrow> st | Some n \<Rightarrow> add_ready (make_snapshot n) st)"

section \<open>Completions\<close>

definition match_dependency :: "graph \<Rightarrow> snapshot \<Rightarrow> bool" where
  "match_dependency g d =
     (let archived = (case gr_versions g (snapshot_key d) of
            None \<Rightarrow> False
          | Some sn \<Rightarrow> reached_milestone (sn_readiness sn) (sn_readiness d))
      in case node_of g (sn_key d) of
           None \<Rightarrow> archived
         | Some n \<Rightarrow>
             if nd_producedRevision n = sn_revision d \<and> nd_versionGeneration n = sn_generation d
             then reached_milestone (nd_state n) (sn_readiness d) else archived)"

definition dependencies_still_match :: "graph \<Rightarrow> completion \<Rightarrow> bool" where
  "dependencies_still_match g c \<longleftrightarrow> list_all (match_dependency g) (cp_dependencies c)"

definition output_mismatch :: "graph \<Rightarrow> node \<Rightarrow> build_result \<Rightarrow> bool" where
  "output_mismatch g n r =
     (case gr_producers g (ad_kind (nd_key n)) of
        None \<Rightarrow> False
      | Some p \<Rightarrow> pr_outputType p \<noteq> None \<and> payload_type g (br_payload r) \<noteq> pr_outputType p)"

text \<open>A result with an acceptance action is handed to its mailbox first and comes back without it.\<close>

definition prepare_acceptance :: "completion \<Rightarrow> graph \<Rightarrow> (completion \<times> snapshot) option" where
  "prepare_acceptance c g =
     (let r = cp_result c in
      if br_outcome r \<noteq> BuildReady \<or> \<not> br_action r then None
      else case node_of g (cp_key c) of
        None \<Rightarrow> None
      | Some n \<Rightarrow>
          if nd_generation n \<noteq> cp_generation c \<or> \<not> dependencies_still_match g c \<or> output_mismatch g n r then None
          else Some (c\<lparr>cp_result := r\<lparr>br_action := False\<rparr>\<rparr>,
            \<lparr>sn_key = nd_key n, sn_revision = cp_revision c, sn_generation = nd_versionGeneration n, sn_readiness = Preparing,
             sn_payload = br_payload r, sn_gpuSubmissions = br_gpuSubmissions r, sn_lease = nd_lease n\<rparr>))"

definition hand_over_version :: "address \<Rightarrow> graph \<Rightarrow> graph" where
  "hand_over_version k g =
     (case node_of g k of
        None \<Rightarrow> g
      | Some n \<Rightarrow> if nd_latestSuccessorNeeded n then fst (queue_latest_successor k g) else fst (promote_successor k g))"

definition retains_latest :: "node \<Rightarrow> bool" where
  "retains_latest n \<longleftrightarrow> list_ex (\<lambda>rq. rq_invalidation rq = LatestVersion) (nd_requestedRequirements n)"

text \<open>The node with a finished build's result; only a recipe with latest edges keeps what it was built from.\<close>

definition produced :: "completion \<Rightarrow> node \<Rightarrow> node" where
  "produced c n = n\<lparr>nd_terminalFailure := False, nd_payload := br_payload (cp_result c),
     nd_resolvedDependencies := (if retains_latest n then filter (\<lambda>sn. latest_at n (sn_key sn)) (cp_dependencies c) else []),
     nd_input := (if retains_latest n then nd_input n else None), nd_checkpoint := None, nd_retryAt := None,
     nd_suspension := None, nd_producedRevision := cp_revision c, nd_published := False,
     nd_gpuSubmissions := br_gpuSubmissions (cp_result c)\<rparr>"

text \<open>A version becomes visible: its snapshot, the archive, its consumers.\<close>

definition expose :: "address \<Rightarrow> drain_state \<Rightarrow> drain_state" where
  "expose k st = on_graph (\<lambda>g. wake_waiters k (store_version k g)) (report_node k st)"

definition await_gpu :: "address \<Rightarrow> nat \<Rightarrow> readiness \<Rightarrow> bool \<Rightarrow> drain_state \<Rightarrow> drain_state" where
  "await_gpu k token state authoritative st =
     (let g1 = set_state k state (upd_node k (\<lambda>n. n\<lparr>nd_waitingGpuSubmissions := Some token\<rparr>) (fst st));
          g2 = upd_stats (\<lambda>s. s\<lparr>gs_gpuWaiting := gs_gpuWaiting s + 1\<rparr>) g1;
          g3 = (if authoritative then g2 else g2\<lparr>gr_gpuRecovery := gr_gpuRecovery g2 @ [k]\<rparr>)
      in (g3, (snd st)\<lparr>do_subscriptions := do_subscriptions (snd st) @ [(k, token)]\<rparr>))"

definition apply_ready :: "(nat \<Rightarrow> gpu_state) \<Rightarrow> completion \<Rightarrow> node \<Rightarrow> drain_state \<Rightarrow> drain_state" where
  "apply_ready gpu c n st =
     (let k = cp_key c;
          st1 = on_graph (\<lambda>g. prune_completed_waiter_edges k (upd_node k (produced c) (queue_reclaim (captured_keys (nd_resolvedDependencies n)) g))) st
      in case br_gpuSubmissions (cp_result c) of
           Some token \<Rightarrow>
             if \<not> cp_gpuSubmitted c then expose k (await_gpu k token CpuReady (gu_authoritative (gpu token)) st1)
             else if \<not> cp_gpuComplete c
             then on_graph (hand_over_version k) (expose k (await_gpu k token UploadSubmitted (gu_authoritative (gpu token)) st1))
             else on_graph (hand_over_version k) (expose k
               (on_graph (\<lambda>g. set_state k GpuReady (upd_node k (\<lambda>n. n\<lparr>nd_waitingGpuSubmissions := None\<rparr>) g)) st1))
         | None \<Rightarrow> on_graph (hand_over_version k) (expose k
               (on_graph (\<lambda>g. set_state k GpuReady (upd_node k (\<lambda>n. n\<lparr>nd_waitingGpuSubmissions := None\<rparr>) g)) st1)))"

definition apply_needs :: "completion \<Rightarrow> graph \<Rightarrow> graph" where
  "apply_needs c g =
     (let k = cp_key c;
          g1 = remove_waiter_edges k (upd_node k (\<lambda>n. n\<lparr>nd_terminalFailure := False\<rparr>) g);
          g2 = upd_node k (\<lambda>n. n\<lparr>nd_requirements := br_requirements (cp_result c), nd_checkpoint := br_checkpoint (cp_result c),
            nd_retryAt := None\<rparr>) g1
      in queue_or_fail k (install_waiter_edges k [] g2))"

text \<open>The retries, earliest first.\<close>

definition apply_retry :: "nat \<Rightarrow> completion \<Rightarrow> graph \<Rightarrow> graph" where
  "apply_retry now c g =
     (let k = cp_key c; deadline = now + br_retryDelay (cp_result c);
          g1 = upd_node k (\<lambda>n. n\<lparr>nd_terminalFailure := False, nd_checkpoint := br_checkpoint (cp_result c), nd_retryAt := Some deadline\<rparr>) g;
          g2 = (case node_of g1 k of None \<Rightarrow> g1 | Some n \<Rightarrow> g1\<lparr>gr_retries :=
            insort_key re_deadline \<lparr>re_deadline = deadline, re_key = k, re_generation = nd_generation n\<rparr> (gr_retries g1)\<rparr>)
      in upd_stats (\<lambda>s. s\<lparr>gs_retries := gs_retries s + 1\<rparr>) (set_state k Blocked g2))"

definition apply_suspended :: "completion \<Rightarrow> suspension \<Rightarrow> node \<Rightarrow> drain_state \<Rightarrow> drain_state" where
  "apply_suspended c su n st =
     (let k = cp_key c;
          st1 = on_graph (\<lambda>g. set_state k Blocked (upd_node k (\<lambda>n. n\<lparr>nd_terminalFailure := False,
            nd_checkpoint := br_checkpoint (cp_result c), nd_retryAt := None, nd_suspension := Some su\<rparr>) g)) st;
          resume = (\<lambda>g. queue_node k (upd_node k (\<lambda>n. n\<lparr>nd_suspension := None\<rparr>) g))
      in if su_kind su = ExactDependency
         then on_graph (\<lambda>g. resume (install_waiter_edges k [] (upd_node k (\<lambda>n. n\<lparr>nd_requirements :=
             nd_requirements n @ [exact_requirement (su_dependency su) (su_milestone su) AllOf 0]\<rparr>) (remove_waiter_edges k g)))) st1
         else if su_identity su = 0
         then report_node k (on_graph (\<lambda>g. upd_stats (\<lambda>s. s\<lparr>gs_failed := gs_failed s + 1\<rparr>) (set_state k FailedState
             (upd_node k (\<lambda>n. n\<lparr>nd_error := ''suspension identity must be non-zero'', nd_terminalFailure := True\<rparr>) g))) st1)
         else if gr_satisfied (fst st1) (su_identity su)
         then on_graph (\<lambda>g. resume (g\<lparr>gr_satisfied := (gr_satisfied g)(su_identity su := False)\<rparr>)) st1
         else on_graph (\<lambda>g. g\<lparr>gr_suspended := (gr_suspended g)(su_identity su \<mapsto>
             \<lparr>sk_address = k, sk_revision = nd_desiredRevision n, sk_generation = nd_generation n\<rparr>)\<rparr>) st1)"

definition terminal_snapshot :: "completion \<Rightarrow> readiness \<Rightarrow> node \<Rightarrow> snapshot" where
  "terminal_snapshot c state n =
     \<lparr>sn_key = nd_key n, sn_revision = cp_revision c, sn_generation = cp_generation c, sn_readiness = state,
      sn_payload = None, sn_gpuSubmissions = None, sn_lease = nd_lease n\<rparr>"

definition close_version :: "completion \<Rightarrow> readiness \<Rightarrow> node \<Rightarrow> drain_state \<Rightarrow> drain_state" where
  "close_version c state n st =
     on_graph (\<lambda>g. fst (promote_successor (cp_key c) (wake_waiters (cp_key c) (store_version (cp_key c) g)))) (add_ready (terminal_snapshot c state n) st)"

definition apply_failed :: "completion \<Rightarrow> string \<Rightarrow> node \<Rightarrow> drain_state \<Rightarrow> drain_state" where
  "apply_failed c text n st =
     close_version c FailedState n
       (on_graph (\<lambda>g. upd_stats (\<lambda>s. s\<lparr>gs_failed := gs_failed s + 1\<rparr>) (set_state (cp_key c) FailedState
          (upd_node (cp_key c) (\<lambda>n. n\<lparr>nd_error := text, nd_terminalFailure := True\<rparr>) g))) st)"

definition apply_cancelled :: "completion \<Rightarrow> node \<Rightarrow> drain_state \<Rightarrow> drain_state" where
  "apply_cancelled c n st =
     close_version c CancelledState n
       (on_graph (\<lambda>g. upd_stats (\<lambda>s. s\<lparr>gs_cancelled := gs_cancelled s + 1\<rparr>) (set_state (cp_key c) CancelledState g)) st)"

definition apply_completion :: "(nat \<Rightarrow> gpu_state) \<Rightarrow> nat \<Rightarrow> completion \<Rightarrow> drain_state \<Rightarrow> drain_state" where
  "apply_completion gpu now c st =
     (let k = cp_key c in
      case node_of (fst st) k of
        None \<Rightarrow> st
      | Some n0 \<Rightarrow>
          let landed = upd_node k (\<lambda>n. n\<lparr>nd_buildInFlight := False\<rparr>) in
          if nd_generation n0 \<noteq> cp_generation c \<or> \<not> dependencies_still_match (fst st) c
          then on_graph (\<lambda>g. queue_node k (landed (upd_stats (\<lambda>s. s\<lparr>gs_stale := gs_stale s + 1\<rparr>) g))) st
          else
            let st1 = on_graph (\<lambda>g. upd_stats (\<lambda>s. s\<lparr>gs_completed := gs_completed s + 1\<rparr>) (landed g)) st;
                n = n0\<lparr>nd_buildInFlight := False\<rparr>;
                r = cp_result c
            in case br_outcome r of
                 BuildReady \<Rightarrow>
                   if output_mismatch (fst st) n r then apply_failed c ''artifact output type mismatch'' n st1 else apply_ready gpu c n st1
               | NeedsDependencies \<Rightarrow> on_graph (if cp_revision c \<noteq> nd_desiredRevision n then queue_node k else apply_needs c) st1
               | RetryAfter \<Rightarrow> on_graph (if cp_revision c \<noteq> nd_desiredRevision n then queue_node k else apply_retry now c) st1
               | BuildSuspended \<Rightarrow>
                   (case br_suspension r of
                      None \<Rightarrow> on_graph (queue_node k) st1
                    | Some su \<Rightarrow> if cp_revision c \<noteq> nd_desiredRevision n then on_graph (queue_node k) st1 else apply_suspended c su n st1)
               | BuildCancelled \<Rightarrow> apply_cancelled c n st1
               | BuildFailed \<Rightarrow> apply_failed c (br_error r) n st1)"

text \<open>A node no longer desired goes once nothing builds it or waits for it.\<close>

definition erase_undesired :: "address \<Rightarrow> graph \<Rightarrow> graph" where
  "erase_undesired k g =
     (case node_of g k of
        None \<Rightarrow> g
      | Some n \<Rightarrow> if \<not> nd_desired n \<and> \<not> nd_buildInFlight n \<and> gr_waiters g k = [] then erase_node k g else g)"

definition drain_completion :: "(nat \<Rightarrow> gpu_state) \<Rightarrow> nat \<Rightarrow> completion \<Rightarrow> drain_state \<Rightarrow> drain_state" where
  "drain_completion gpu now c st =
     on_graph (erase_undesired (cp_key c))
       (case prepare_acceptance c (fst st) of
          Some a \<Rightarrow> (fst st, (snd st)\<lparr>do_acceptances := do_acceptances (snd st) @ [a]\<rparr>)
        | None \<Rightarrow> apply_completion gpu now c st)"

text \<open>A taken completion is given the state of its submissions.\<close>

definition evaluate_completion :: "(nat \<Rightarrow> gpu_state) \<Rightarrow> completion \<Rightarrow> completion" where
  "evaluate_completion gpu c =
     (if br_outcome (cp_result c) = BuildReady
      then (case br_gpuSubmissions (cp_result c) of
              None \<Rightarrow> c
            | Some token \<Rightarrow>
                if gu_failed (gpu token) then c\<lparr>cp_result := build_failure ''GPU submission failed''\<rparr>
                else c\<lparr>cp_gpuSubmitted := gu_submitted (gpu token), cp_gpuComplete := gu_submitted (gpu token) \<and> gu_complete (gpu token)\<rparr>)
      else c)"

end
