(* ===== verification/GraphSlice.thy ===== *)
theory GraphSlice
  imports GraphDrain
begin

text \<open>
  A slice of the drain, phase by phase (\<^verbatim>\<open>Async/Detail/StateGraphImplementation.h\<close>, \<open>Drain\<close>,
  \<open>ApplyPostedAwaits\<close>, \<open>ApplyPostedSuspensions\<close>, \<open>ApplyPostedRequestBatch\<close>), and the calls that
  post to it.
\<close>

section \<open>Posting\<close>

definition post_intents :: "request_call list \<Rightarrow> graph \<Rightarrow> graph" where
  "post_intents rcs g =
     (if gr_shuttingDown g then g
      else g\<lparr>gr_posted := gr_posted g @ map (\<lambda>rc. PostedCall (rc\<lparr>rc_generation := 0, rc_lease := None,
          rc_coalescible := kp_allowCoalescing (kind_policy_of g (ad_kind (rc_key rc)))\<rparr>)) rcs\<rparr>)"

definition mint_token :: "graph \<Rightarrow> graph \<times> nat" where
  "mint_token g = (g\<lparr>gr_nextToken := gr_nextToken g + 1, gr_live := (gr_live g)(gr_nextToken g := True)\<rparr>, gr_nextToken g)"

definition post_request :: "request_call \<Rightarrow> graph \<Rightarrow> graph \<times> request_result" where
  "post_request rc g =
     (if gr_shuttingDown g then (g, bare_answer ShuttingDown)
      else if rc_coalescible rc \<and> \<not> kp_allowCoalescing (kind_policy_of g (ad_kind (rc_key rc))) then (g, bare_answer TypeMismatch)
      else if (case gr_producers g (ad_kind (rc_key rc)) of
                 None \<Rightarrow> False
               | Some p \<Rightarrow> pr_inputType p \<noteq> None \<and> payload_type g (rc_input rc) \<noteq> pr_inputType p)
      then (g, bare_answer TypeMismatch)
      else if rc_input rc \<noteq> None \<and> rc_fingerprint rc = 0 then (g, bare_answer MissingFingerprint)
      else
        let fingerprint = (if rc_fingerprint rc = 0
              then canonical_request_fingerprint (rc_key rc) (rc_desiredRevision rc) (rc_requirements rc) else rc_fingerprint rc)
        in case reserve_generation (call_version rc) g of
             (g1, generation) \<Rightarrow>
               (case mint_token g1 of
                  (g2, token) \<Rightarrow>
                    (g2\<lparr>gr_posted := gr_posted g2 @
                       [PostedCall (rc\<lparr>rc_fingerprint := fingerprint, rc_generation := generation, rc_lease := Some token\<rparr>)]\<rparr>,
                     request_answer rc Accepted generation generation (Some token))))"

section \<open>Awaits\<close>

definition snapshot_of :: "stored_key \<Rightarrow> readiness \<Rightarrow> snapshot" where
  "snapshot_of v state = \<lparr>sn_key = sk_address v, sn_revision = sk_revision v, sn_generation = sk_generation v, sn_readiness = state,
     sn_payload = None, sn_gpuSubmissions = None, sn_lease = None\<rparr>"

definition current_snapshot :: "node \<Rightarrow> stored_key \<Rightarrow> snapshot" where
  "current_snapshot n v =
     (if nd_producedRevision n = sk_revision v \<and> nd_versionGeneration n = sk_generation v then make_snapshot n
      else if nd_desiredRevision n = sk_revision v \<and> nd_versionGeneration n = sk_generation v
      then (snapshot_of v (nd_state n))\<lparr>sn_payload := nd_payload n, sn_gpuSubmissions := nd_gpuSubmissions n, sn_lease := nd_lease n\<rparr>
      else case List.find (\<lambda>q. qv_revision q = sk_revision v \<and> qv_generation q = sk_generation v) (nd_successors n) of
        Some q \<Rightarrow> (snapshot_of v Blocked)\<lparr>sn_lease := qv_lease q\<rparr>
      | None \<Rightarrow> snapshot_of v Missing)"

definition snapshot_exact_locked :: "stored_key \<Rightarrow> graph \<Rightarrow> graph \<times> snapshot" where
  "snapshot_exact_locked requested g =
     (let v = canonical g requested in
      case gr_versions g v of
        Some sn \<Rightarrow> (case acquire_version_lease v g of (g1, token) \<Rightarrow> (g1, sn\<lparr>sn_lease := Some token\<rparr>))
      | None \<Rightarrow>
          (case node_of g (sk_address v) of
             None \<Rightarrow> (g, snapshot_of v Missing)
           | Some n \<Rightarrow> (g, current_snapshot n v)))"

text \<open>Whether a waiter for a milestone is answered by a snapshot.\<close>

definition answers :: "snapshot \<Rightarrow> readiness \<Rightarrow> bool" where
  "answers sn milestone \<longleftrightarrow> terminated (sn_readiness sn) \<or> reached_milestone (sn_readiness sn) milestone"

definition dispatch :: "nat \<Rightarrow> snapshot \<Rightarrow> drain_state \<Rightarrow> drain_state" where
  "dispatch subscription sn st = (fst st, (snd st)\<lparr>do_dispatched := do_dispatched (snd st) @ [(subscription, sn)]\<rparr>)"

definition apply_await :: "posted_await \<Rightarrow> drain_state \<Rightarrow> drain_state" where
  "apply_await a st =
     (let g = fst st; v = canonical g (pa_version a) in
      if pa_cancel a
      then
        if \<exists>w \<in> set (gr_exactWaiters g v). ew_subscription w = pa_subscription a
        then on_graph (\<lambda>g. g\<lparr>gr_exactWaiters := (gr_exactWaiters g)(v :=
            filter (\<lambda>w. ew_subscription w \<noteq> pa_subscription a) (gr_exactWaiters g v))\<rparr>) st
        else on_graph (\<lambda>g. g\<lparr>gr_cancelledAwaits := (gr_cancelledAwaits g)(pa_subscription a := True)\<rparr>) st
      else if gr_cancelledAwaits g (pa_subscription a)
      then on_graph (\<lambda>g. g\<lparr>gr_cancelledAwaits := (gr_cancelledAwaits g)(pa_subscription a := False)\<rparr>) st
      else case snapshot_exact_locked (pa_version a) g of
        (g1, sn) \<Rightarrow>
          if answers sn (pa_milestone a) then dispatch (pa_subscription a) sn (g1, snd st)
          else (g1\<lparr>gr_exactWaiters := (gr_exactWaiters g1)(v := gr_exactWaiters g1 v @
              [\<lparr>ew_subscription = pa_subscription a, ew_version = v, ew_milestone = pa_milestone a\<rparr>])\<rparr>, snd st))"

definition apply_posted_awaits :: "drain_state \<Rightarrow> drain_state" where
  "apply_posted_awaits st =
     (let g = fst st in
      fold apply_await (take 256 (gr_postedAwaits g)) (g\<lparr>gr_postedAwaits := drop 256 (gr_postedAwaits g)\<rparr>, snd st))"

text \<open>
  The waiters of a snapshot's version that it answers, in the order the code meets them: one that
  is taken is replaced by the last one, which is met next.
\<close>

function take_answered :: "('a \<Rightarrow> bool) \<Rightarrow> 'a list \<Rightarrow> 'a list \<times> 'a list" where
  "take_answered answered [] = ([], [])"
| "take_answered answered (w # ws) =
     (if answered w
      then let (taken, kept) = take_answered answered (if ws = [] then [] else last ws # butlast ws) in (w # taken, kept)
      else let (taken, kept) = take_answered answered ws in (taken, w # kept))"
  by pat_completeness auto
termination by (relation "measure (\<lambda>(answered, ws). length ws)") auto

definition dispatch_waiters :: "snapshot \<Rightarrow> drain_state \<Rightarrow> drain_state" where
  "dispatch_waiters sn st =
     (let g = fst st; v = snapshot_key sn;
          answered = (\<lambda>w. sn_generation sn = sk_generation (ew_version w) \<and> answers sn (ew_milestone w));
          (taken, kept) = take_answered answered (gr_exactWaiters g v)
      in fold (\<lambda>w. dispatch (ew_subscription w) sn) taken (g\<lparr>gr_exactWaiters := (gr_exactWaiters g)(v := kept)\<rparr>, snd st))"

section \<open>Suspensions\<close>

definition apply_suspension_satisfied :: "nat \<Rightarrow> graph \<Rightarrow> graph" where
  "apply_suspension_satisfied identity g =
     (case gr_suspended g identity of
        None \<Rightarrow> g\<lparr>gr_satisfied := (gr_satisfied g)(identity := True)\<rparr>
      | Some v \<Rightarrow>
          let g1 = g\<lparr>gr_suspended := (gr_suspended g)(identity := None)\<rparr> in
          (case node_of g1 (sk_address v) of
             None \<Rightarrow> g1
           | Some n \<Rightarrow>
               if nd_desiredRevision n = sk_revision v \<and> nd_generation n = sk_generation v \<and>
                  (case nd_suspension n of None \<Rightarrow> False | Some su \<Rightarrow> su_identity su = identity)
               then queue_node (sk_address v) (upd_node (sk_address v) (\<lambda>n. n\<lparr>nd_suspension := None\<rparr>) g1)
               else g1))"

definition apply_posted_suspensions :: "graph \<Rightarrow> graph" where
  "apply_posted_suspensions g =
     fold apply_suspension_satisfied (take 256 (gr_postedSuspensions g))
       (g\<lparr>gr_postedSuspensions := drop 256 (gr_postedSuspensions g)\<rparr>)"

section \<open>Requests\<close>

definition invalidate_call :: "address \<Rightarrow> nat \<Rightarrow> graph \<Rightarrow> request_call" where
  "invalidate_call k revision g =
     (let (rqs, input, fingerprint) =
        (case node_of g k of
           None \<Rightarrow> ([], None, 0)
         | Some n \<Rightarrow>
             (case rev (nd_successors n) of
                q # qs \<Rightarrow> (qv_requirements q, qv_input q, qv_fingerprint q)
              | [] \<Rightarrow> (nd_requirements n, nd_input n, nd_requestFingerprint n)))
      in \<lparr>rc_key = k, rc_desiredRevision = revision, rc_requirements = rqs, rc_input = input, rc_fingerprint = fingerprint,
        rc_coalescible = False, rc_generation = 0, rc_lease = None\<rparr>)"

definition pump_gpu_completions :: "graph \<Rightarrow> graph" where
  "pump_gpu_completions g = g\<lparr>gr_gpuSignals := gr_gpuSignals g @
     map fst (filter (\<lambda>(k, n). (nd_state n = CpuReady \<or> nd_state n = UploadSubmitted) \<and> nd_waitingGpuSubmissions n \<noteq> None) (gr_nodes g))\<rparr>"

fun apply_posted :: "posted \<Rightarrow> graph \<Rightarrow> graph" where
  "apply_posted (PostedCall rc) g = fst (request_internal rc g)"
| "apply_posted (PostedCancel k) g = cancel_locked k g"
| "apply_posted (PostedRelease ks) g = fold release_locked (rev (remdups (rev ks))) g"
| "apply_posted (PostedPublish vs) g = fold mark_published_locked vs g"
| "apply_posted (PostedPublishRevision k revision) g = mark_published_revision_locked k revision g"
| "apply_posted (PostedInvalidate k revision) g = fst (request_internal (invalidate_call k revision g) g)"
| "apply_posted PostedPump g = pump_gpu_completions g"

text \<open>The submission sets a batch cancelled are told at its end.\<close>

definition apply_posted_intents :: "graph \<Rightarrow> graph" where
  "apply_posted_intents g =
     (let g0 = g\<lparr>gr_posted := drop 256 (gr_posted g)\<rparr> in
      if gr_posted g = [] \<or> gr_shuttingDown g then g0
      else (fold apply_posted (take 256 (gr_posted g)) g0)\<lparr>gr_cancellations := []\<rparr>)"

section \<open>Submission signals\<close>

definition gpu_signal :: "graph \<Rightarrow> address \<Rightarrow> (address \<times> nat \<times> nat) list" where
  "gpu_signal g k =
     (case node_of g k of
        None \<Rightarrow> []
      | Some n \<Rightarrow>
          (case nd_waitingGpuSubmissions n of
             None \<Rightarrow> []
           | Some token \<Rightarrow> if nd_state n = CpuReady \<or> nd_state n = UploadSubmitted then [(k, nd_generation n, token)] else []))"

text \<open>The signalled nodes, and the recovery queue's, once each; those still waiting rotate.\<close>

definition collect_gpu :: "nat \<Rightarrow> nat \<Rightarrow> graph \<Rightarrow> graph \<times> (address \<times> nat \<times> nat) list" where
  "collect_gpu signals recoveries g =
     (let taken = take (min 32 signals) (gr_gpuSignals g);
          checked = take (min 32 recoveries) (gr_gpuRecovery g);
          waiting = filter (\<lambda>k. gpu_signal g k \<noteq> []) checked;
          notified = concat (map (gpu_signal g) taken);
          recovered = concat (map (gpu_signal g) (rev (remdups (rev (filter (\<lambda>k. k \<notin> fst ` set notified) waiting)))))
      in (g\<lparr>gr_gpuSignals := drop (min 32 signals) (gr_gpuSignals g),
            gr_gpuRecovery := drop (min 32 recoveries) (gr_gpuRecovery g) @ waiting\<rparr>, notified @ recovered))"

text \<open>Stored first here, then reported and its consumers woken.\<close>

definition expose_stored :: "address \<Rightarrow> drain_state \<Rightarrow> drain_state" where
  "expose_stored k st = on_graph (wake_waiters k) (report_node k (on_graph (store_version k) st))"

definition apply_gpu :: "(nat \<Rightarrow> gpu_state) \<Rightarrow> address \<times> nat \<times> nat \<Rightarrow> drain_state \<Rightarrow> drain_state" where
  "apply_gpu gpu signal st =
     (case signal of (k, generation, token) \<Rightarrow>
        (case node_of (fst st) k of
           None \<Rightarrow> st
         | Some n \<Rightarrow>
             let lower = upd_stats (\<lambda>s. s\<lparr>gs_gpuWaiting := gs_gpuWaiting s - 1\<rparr>);
                 submitted = gu_submitted (gpu token);
                 complete = (gu_submitted (gpu token) \<and> gu_complete (gpu token));
                 finish = (\<lambda>st. on_graph (\<lambda>g. lower (fst (promote_successor k g))) (expose_stored k (on_graph (\<lambda>g. set_state k
                   (if nd_published n then Published else GpuReady) (upd_node k (\<lambda>n. n\<lparr>nd_waitingGpuSubmissions := None\<rparr>) g)) st)))
             in if nd_generation n \<noteq> generation \<or> nd_waitingGpuSubmissions n \<noteq> Some token then st
                else if gu_failed (gpu token)
                then on_graph (\<lambda>g. lower (upd_stats (\<lambda>s. s\<lparr>gs_failed := gs_failed s + 1\<rparr>) (fst (promote_successor k g))))
                  (expose_stored k (on_graph (\<lambda>g. set_state k FailedState (upd_node k (\<lambda>n. n\<lparr>nd_error := ''GPU submission failed'',
                     nd_terminalFailure := True, nd_waitingGpuSubmissions := None\<rparr>) g)) st))
                else if nd_state n = CpuReady \<and> submitted
                then
                  let st1 = expose_stored k (on_graph (set_state k UploadSubmitted) st)
                  in if \<not> complete then on_graph (hand_over_version k) st1 else finish st1
                else if nd_state n \<noteq> UploadSubmitted \<or> \<not> complete then st
                else finish st))"

section \<open>Retries\<close>

fun apply_retries :: "nat \<Rightarrow> nat \<Rightarrow> graph \<Rightarrow> graph" where
  "apply_retries now 0 g = g"
| "apply_retries now (Suc n) g =
     (case gr_retries g of
        [] \<Rightarrow> g
      | e # es \<Rightarrow>
          let popped = g\<lparr>gr_retries := es\<rparr> in
          (case node_of g (re_key e) of
             None \<Rightarrow> apply_retries now n popped
           | Some node \<Rightarrow>
               if nd_generation node \<noteq> re_generation e \<or> nd_retryAt node \<noteq> Some (re_deadline e) then apply_retries now n popped
               else if now < re_deadline e then g
               else apply_retries now n (queue_node (re_key e) (upd_node (re_key e) (\<lambda>n. n\<lparr>nd_retryAt := None\<rparr>) popped))))"

section \<open>Wakes\<close>

text \<open>A consumer is evaluated once a slice.\<close>

fun apply_wakes :: "nat \<Rightarrow> address list \<Rightarrow> graph \<Rightarrow> graph" where
  "apply_wakes 0 evaluated g = g"
| "apply_wakes (Suc n) evaluated g =
     (case gr_wakes g of
        [] \<Rightarrow> g
      | (d, []) # ws \<Rightarrow> apply_wakes n evaluated (g\<lparr>gr_wakes := ws\<rparr>)
      | (d, c # cs) # ws \<Rightarrow>
          let g1 = g\<lparr>gr_wakes := (if cs = [] then ws else (d, cs) # ws)\<rparr> in
          if c \<in> set evaluated then apply_wakes n evaluated g1
          else apply_wakes n (c # evaluated) (wake_waiter d c g1))"

section \<open>Builds\<close>

definition start_build :: "address \<Rightarrow> drain_state \<Rightarrow> drain_state" where
  "start_build k st =
     (case node_of (fst st) k of
        None \<Rightarrow> st
      | Some n0 \<Rightarrow>
          if nd_state n0 \<noteq> Queued \<or> nd_buildInFlight n0 then st
          else
            let g1 = latch_ready_gates k (fst st) in
            (case node_of g1 k of
               None \<Rightarrow> (g1, snd st)
             | Some n \<Rightarrow>
                 if \<not> dependencies_satisfied g1 n then (set_state k Blocked g1, snd st)
                 else if (case gr_producers g1 (ad_kind k) of None \<Rightarrow> True | Some p \<Rightarrow> \<not> pr_callable p)
                 then report_node k (upd_stats (\<lambda>s. s\<lparr>gs_failed := gs_failed s + 1\<rparr>) (set_state k FailedState
                     (upd_node k (\<lambda>n. n\<lparr>nd_error := ''no producer registered''\<rparr>) g1)), snd st)
                 else
                   let g2 = upd_stats (\<lambda>s. s\<lparr>gs_started := gs_started s + 1\<rparr>) (set_state k Preparing
                         (upd_node k (\<lambda>n. n\<lparr>nd_buildInFlight := True, nd_buildAttempted := True\<rparr>) g1))
                   in case dependency_snapshots g2 n of
                        (g3, sns) \<Rightarrow>
                          (g3, (snd st)\<lparr>do_builds := do_builds (snd st) @
                             [\<lparr>bc_key = k, bc_revision = nd_desiredRevision n, bc_generation = nd_generation n, bc_dependencies = sns,
                               bc_input = nd_input n, bc_checkpoint = nd_checkpoint n, bc_continuation = nd_buildAttempted n\<rparr>]\<rparr>)))"

definition start_builds :: "nat \<Rightarrow> drain_state \<Rightarrow> drain_state" where
  "start_builds n st =
     fold start_build (take n (gr_pending (fst st))) ((fst st)\<lparr>gr_pending := drop n (gr_pending (fst st))\<rparr>, snd st)"

section \<open>The slice\<close>

record slice =
  sl_now :: nat
  sl_signals :: nat
  sl_recoveries :: nat
  sl_published :: nat
  sl_completions :: nat
  sl_retries :: nat
  sl_wakes :: nat
  sl_builds :: nat
  sl_late :: "nat \<Rightarrow> bool"
  sl_retired :: nat

definition take_published :: "nat \<Rightarrow> drain_state \<Rightarrow> drain_state" where
  "take_published bound st =
     (let g = fst st; m = min 32 bound in
      (g\<lparr>gr_publishedSignals := drop m (gr_publishedSignals g)\<rparr>,
       (snd st)\<lparr>do_ready := do_ready (snd st) @ List.map_filter (gr_versions g) (take m (gr_publishedSignals g))\<rparr>))"

definition take_completions :: "(nat \<Rightarrow> gpu_state) \<Rightarrow> slice \<Rightarrow> drain_state \<Rightarrow> drain_state" where
  "take_completions gpu sl st =
     (let m = min 16 (sl_completions sl); g = fst st in
      fold (\<lambda>c. drain_completion gpu (sl_now sl) (evaluate_completion gpu c)) (take m (gr_completions g))
        (g\<lparr>gr_completions := drop m (gr_completions g)\<rparr>, snd st))"

definition take_propagated :: "drain_state \<Rightarrow> drain_state" where
  "take_propagated st = ((fst st)\<lparr>gr_ready := []\<rparr>, (snd st)\<lparr>do_ready := do_ready (snd st) @ gr_ready (fst st)\<rparr>)"

definition signal_gpu :: "(nat \<Rightarrow> gpu_state) \<Rightarrow> slice \<Rightarrow> drain_state \<Rightarrow> drain_state" where
  "signal_gpu gpu sl st =
     (case collect_gpu (sl_signals sl) (sl_recoveries sl) (fst st) of (g, signals) \<Rightarrow> fold (apply_gpu gpu) signals (g, snd st))"

definition drain :: "(nat \<Rightarrow> gpu_state) \<Rightarrow> slice \<Rightarrow> graph \<Rightarrow> drain_state" where
  "drain gpu sl g =
     (let st0 = on_graph (\<lambda>g. apply_posted_intents (apply_posted_suspensions g)) (apply_posted_awaits (g, nothing_out));
          st1 = signal_gpu gpu sl (take_published (sl_published sl) st0);
          st2 = take_completions gpu sl (on_graph (apply_retries (sl_now sl) (sl_retries sl)) st1);
          st3 = take_propagated (on_graph (apply_wakes (min 16 (sl_wakes sl)) []) st2);
          st4 = start_builds (sl_builds sl) st3;
          st5 = fold dispatch_waiters (do_ready (snd st4)) st4
      in on_graph (\<lambda>g. let g1 = reclaim_unreferenced_versions (sl_late sl) g in
             g1\<lparr>gr_retirement := drop (sl_retired sl) (gr_retirement g1),
               gr_gpuSignals := gr_gpuSignals g1 @ map fst (do_subscriptions (snd st5))\<rparr>) st5)"

end
