(* ===== verification/GraphInv.thy ===== *)
theory GraphInv
  imports GraphSlice
begin

text \<open>
  Invariants of the graph's archive and of its inbox. \<open>core\<close> is what they are about: the archived
  versions, their index by address, the posted calls and the completions. Most transitions leave
  it alone; the locale \<open>graph_invariant\<close> says what the others do to it, and carries a predicate that
  survives those through every transition up to a whole slice of the drain.
\<close>

section \<open>What leaves the core alone\<close>

definition core :: "graph \<Rightarrow> (stored_key \<Rightarrow> snapshot option) \<times> (address \<Rightarrow> (nat \<times> nat) list) \<times> posted list \<times> completion list" where
  "core g = (gr_versions g, gr_byAddress g, gr_posted g, gr_completions g)"

lemma core_fields [simp]:
  "core (g\<lparr>gr_nodes := ns\<rparr>) = core g"
  "core (g\<lparr>gr_aliases := al\<rparr>) = core g"
  "core (g\<lparr>gr_pins := ps\<rparr>) = core g"
  "core (g\<lparr>gr_waiters := ws\<rparr>) = core g"
  "core (g\<lparr>gr_leases := ls\<rparr>) = core g"
  "core (g\<lparr>gr_live := lv\<rparr>) = core g"
  "core (g\<lparr>gr_nextToken := t\<rparr>) = core g"
  "core (g\<lparr>gr_nextVersionGeneration := v\<rparr>) = core g"
  "core (g\<lparr>gr_reclaim := rs\<rparr>) = core g"
  "core (g\<lparr>gr_refusals := rf\<rparr>) = core g"
  "core (g\<lparr>gr_pending := pe\<rparr>) = core g"
  "core (g\<lparr>gr_wakes := wk\<rparr>) = core g"
  "core (g\<lparr>gr_ready := rd\<rparr>) = core g"
  "core (g\<lparr>gr_publishedSignals := pb\<rparr>) = core g"
  "core (g\<lparr>gr_cancellations := cs\<rparr>) = core g"
  "core (g\<lparr>gr_retirement := rt\<rparr>) = core g"
  "core (g\<lparr>gr_generations := ge\<rparr>) = core g"
  "core (g\<lparr>gr_reserved := re\<rparr>) = core g"
  "core (g\<lparr>gr_signatures := si\<rparr>) = core g"
  "core (g\<lparr>gr_suspended := su\<rparr>) = core g"
  "core (g\<lparr>gr_satisfied := sa\<rparr>) = core g"
  "core (g\<lparr>gr_retries := rr\<rparr>) = core g"
  "core (g\<lparr>gr_exactWaiters := ew\<rparr>) = core g"
  "core (g\<lparr>gr_cancelledAwaits := ca\<rparr>) = core g"
  "core (g\<lparr>gr_gpuSignals := gs\<rparr>) = core g"
  "core (g\<lparr>gr_gpuRecovery := gr\<rparr>) = core g"
  "core (g\<lparr>gr_postedAwaits := pa\<rparr>) = core g"
  "core (g\<lparr>gr_postedSuspensions := pu\<rparr>) = core g"
  "core (g\<lparr>gr_stats := st\<rparr>) = core g"
  "core (g\<lparr>gr_stateCounts := sc\<rparr>) = core g"
  "core (g\<lparr>gr_outstanding := ou\<rparr>) = core g"
  by (simp_all add: core_def)

lemma core_fold: "(\<And>x g. core (f x g) = core g) \<Longrightarrow> core (fold f xs g) = core g"
  by (induction xs arbitrary: g) auto

lemma core_primitives [simp]:
  "core (upd_node k f g) = core g"
  "core (upd_stats h g) = core g"
  "core (set_desired k d g) = core g"
  "core (set_state k s g) = core g"
  "core (queue_reclaim vs g) = core g"
  "core (add_pin v g) = core g"
  "core (drop_pin v g) = core g"
  "core (drop_waiter k d' g) = core g"
  "core (add_waiter k d' g) = core g"
  "core (wake_waiters k g) = core g"
  "core (register_version_lease v token g) = core g"
  "core (fst (acquire_version_lease v g)) = core g"
  "core (fst (reserve_generation vk g)) = core g"
  "core (set_reserved_generation vk gen g) = core g"
  "core (erase_node k g) = core g"
  "core (ensure_node k g) = core g"
  "core (drop_expired_lease v g) = core g"
  by (simp_all add: upd_node_def upd_stats_def set_desired_def set_state_def queue_reclaim_def add_pin_def drop_pin_def drop_waiter_def
      add_waiter_def wake_waiters_def register_version_lease_def acquire_version_lease_def reserve_generation_def
      set_reserved_generation_def erase_node_def ensure_node_def drop_expired_lease_def Let_def split: option.split)

lemma core_pins [simp]: "core (adjust_exact_recipe_pins k c rqs up g) = core g"
  by (simp add: adjust_exact_recipe_pins_def core_fold)

lemma core_pairs [simp]:
  "acquire_version_lease v g = (g', t) \<Longrightarrow> core g' = core g"
  "reserve_generation vk g = (g', n) \<Longrightarrow> core g' = core g"
  using core_primitives(12) [of v g] core_primitives(13) [of vk g] by simp_all

lemma core_edges [simp]:
  "core (pin_successor k q g) = core g"
  "core (unpin_successor k q g) = core g"
  "core (clear_successors k g) = core g"
  "core (remove_waiter_edges k g) = core g"
  "core (install_waiter_edges k prepared g) = core g"
  "core (prune_completed_waiter_edges k g) = core g"
  "core (latch_ready_gates k g) = core g"
  "core (fail_cycle text cycle g) = core g"
  by (simp_all add: pin_successor_def unpin_successor_def clear_successors_def remove_waiter_edges_def install_waiter_edges_def
      prune_completed_waiter_edges_def latch_ready_gates_def fail_cycle_def core_fold Let_def split: option.split)

lemma core_coalesce [simp]: "core (coalesce_successors n k g) = core g"
  by (induction n k g rule: coalesce_successors.induct) (auto split: option.split list.split)

lemma core_requests [simp]:
  "core (migrate_aliased_version p v g) = core g"
  "core (alias_predicted rc gen g) = core g"
  "core (fst (lease_request rc gen g)) = core g"
  "core (supersede_active k g) = core g"
  "core (cancel_locked k g) = core g"
  "core (release_locked k g) = core g"
  "core (fst (call_generation rc g)) = core g"
  "core (pump_gpu_completions g) = core g"
  "core (append_successor rc q g) = core g"
  "core (record_request rc f rqs g) = core g"
  by (simp_all add: migrate_aliased_version_def alias_predicted_def lease_request_def supersede_active_def cancel_locked_def
      release_locked_def call_generation_def pump_gpu_completions_def append_successor_def
      record_request_def Let_def split: option.split prod.split)

lemma core_request_pairs [simp]:
  "lease_request rc gen g = (g', t) \<Longrightarrow> core g' = core g"
  "call_generation rc g = (g', n) \<Longrightarrow> core g' = core g"
  using core_requests(3) [of rc gen g] core_requests(7) [of rc g] by simp_all

lemma core_dependency_scan [simp]: "core (fst (dependency_scan rqs groups g)) = core g"
proof (induction rqs arbitrary: groups g)
  case (Cons rq rqs)
  then show ?case by (simp add: Let_def split: option.split prod.split) (metis core_pairs(1) fst_conv)
qed simp

lemma core_dependency_snapshots [simp]: "core (fst (dependency_snapshots g n)) = core g"
  by (simp add: dependency_snapshots_def)

lemma core_snapshot_pairs [simp]: "dependency_snapshots g n = (g', sns) \<Longrightarrow> core g' = core g"
  using core_dependency_snapshots [of g n] by simp

section \<open>What the rest preserves\<close>

text \<open>A snapshot archived under the version it is of.\<close>

definition of_version :: "snapshot \<Rightarrow> stored_key \<Rightarrow> bool" where
  "of_version sn v \<longleftrightarrow> snapshot_key sn = v"

locale graph_invariant =
  fixes I :: "graph \<Rightarrow> bool"
  assumes quiet: "core g' = core g \<Longrightarrow> I g \<Longrightarrow> I g'"
    and archives: "of_version sn v \<Longrightarrow> I g \<Longrightarrow> I (archive v sn g)"
    and retires: "I g \<Longrightarrow> I (g\<lparr>gr_versions := (gr_versions g)(v := None),
        gr_byAddress := (gr_byAddress g)(sk_address v := removeAll (sk_revision v, sk_generation v) (gr_byAddress g (sk_address v)))\<rparr>)"
    and publishes: "gr_versions g v = Some sn \<Longrightarrow> I g \<Longrightarrow> I (g\<lparr>gr_versions := (gr_versions g)(v \<mapsto> sn\<lparr>sn_readiness := Published\<rparr>)\<rparr>)"
    and pops_posted: "I g \<Longrightarrow> I (g\<lparr>gr_posted := drop m (gr_posted g)\<rparr>)"
    and pops_completions: "I g \<Longrightarrow> I (g\<lparr>gr_completions := drop m (gr_completions g)\<rparr>)"
begin

lemma quiet_iff: "core g' = core g \<Longrightarrow> I g' = I g"
  using quiet by metis

lemmas quiet_simps [simp] =
  core_fields [THEN quiet_iff] core_primitives [THEN quiet_iff] core_pins [THEN quiet_iff] core_edges [THEN quiet_iff]
  core_coalesce [THEN quiet_iff] core_requests [THEN quiet_iff]

lemma quiet_pairs [simp]:
  "acquire_version_lease v g = (g', t) \<Longrightarrow> I g' = I g"
  "lease_request rc gen g = (g', t) \<Longrightarrow> I g' = I g"
  "call_generation rc g = (g', c) \<Longrightarrow> I g' = I g"
  "dependency_snapshots g n = (g', sns) \<Longrightarrow> I g' = I g"
  by (rule quiet_iff, simp)+

lemma keeps_fold: "(\<And>x g. I g \<Longrightarrow> I (f x g)) \<Longrightarrow> I g \<Longrightarrow> I (fold f xs g)"
  by (induction xs arbitrary: g) auto

lemma keeps_store [simp]: "I g \<Longrightarrow> I (store_version k g)"
proof -
  assume g: "I g"
  have "of_version ((make_snapshot n)\<lparr>sn_lease := None\<rparr>) (node_version n)" if "nd_producedRevision n \<noteq> 0" for n
    using that by (simp add: of_version_def make_snapshot_def node_version_def snapshot_key_def)
  then show ?thesis using archives g by (simp add: store_version_def Let_def split: option.split)
qed

lemma keeps_store_refused [simp]: "I g \<Longrightarrow> I (store_refused_version v status lease g)"
  by (simp add: store_refused_version_def Let_def archives of_version_def snapshot_key_def)

lemma keeps_queue_node [simp]: "I g \<Longrightarrow> I (queue_node k g)"
  by (simp add: queue_node_def Let_def split: option.split)

lemma keeps_queue_or_fail [simp]: "I g \<Longrightarrow> I (queue_or_fail k g)"
  by (simp add: queue_or_fail_def Let_def split: option.split)

lemma keeps_promote [simp]: "I g \<Longrightarrow> I (fst (promote_successor k g))"
  by (simp add: promote_successor_def Let_def split: option.split list.split)

lemma keeps_queue_latest [simp]: "I g \<Longrightarrow> I (fst (queue_latest_successor k g))"
  by (simp add: queue_latest_successor_def Let_def split: option.split prod.split)

lemma keeps_wake_waiter [simp]: "I g \<Longrightarrow> I (wake_waiter d c g)"
  by (simp add: wake_waiter_def Let_def split: option.split)

lemma keeps_hand_over [simp]: "I g \<Longrightarrow> I (hand_over_version k g)"
  by (simp add: hand_over_version_def split: option.split)

lemma keeps_retire [simp]: "I g \<Longrightarrow> I (retire_version v sn g)"
proof -
  assume "I g"
  from retires [OF this, of v] show ?thesis
    by (simp add: retire_version_def Let_def quiet_iff [of "g\<lparr>gr_retirement := rt, gr_versions := vs, gr_byAddress := bs\<rparr>"
          "g\<lparr>gr_versions := vs, gr_byAddress := bs\<rparr>" for rt vs bs] core_def)
qed

lemma keeps_reclaim [simp]: "I g \<Longrightarrow> I (reclaim_scan late n g)"
proof (induction late n g rule: reclaim_scan.induct)
  case (2 late n g)
  show ?case
  proof (cases "gr_reclaim g")
    case (Cons v vs)
    obtain g1 r where c: "reclaim_candidate v (g\<lparr>gr_reclaim := vs\<rparr>) = (g1, r)" by fastforce
    have "I g1" using 2(2) c by (auto simp: reclaim_candidate_def split: option.splits if_splits)
    then show ?thesis using 2(1) [OF Cons c [symmetric]] c Cons by simp
  qed (use 2 in simp)
qed simp

lemma keeps_reclaim_versions [simp]: "I g \<Longrightarrow> I (reclaim_unreferenced_versions late g)"
  by (simp add: reclaim_unreferenced_versions_def)

lemma keeps_mark_published [simp]: "I g \<Longrightarrow> I (mark_published_locked v g)"
  by (simp add: mark_published_locked_def Let_def publishes split: option.split)

lemma keeps_mark_revision [simp]: "I g \<Longrightarrow> I (mark_published_revision_locked k r g)"
  by (simp add: mark_published_revision_locked_def Let_def keeps_fold split: option.split)

lemma keeps_reject [simp]: "I g \<Longrightarrow> I (reject_predicted rc created gen status g)"
  by (simp add: reject_predicted_def Let_def)

lemma keeps_queue_successor [simp]: "I g \<Longrightarrow> I (queue_successor rc gen f rqs t g)"
  by (simp add: queue_successor_def Let_def split: option.split)

lemma keeps_install_request [simp]: "I g \<Longrightarrow> I (install_request rc gen f rqs prepared t g)"
  by (simp add: install_request_def Let_def split: option.split)

lemma keeps_place [simp]: "I g \<Longrightarrow> I (place_request rc gen f rqs t g)"
  by (simp add: place_request_def split: option.split)

lemma keeps_admit [simp]: "I g \<Longrightarrow> I (fst (admit_request rc gen f rqs g))"
  by (simp add: admit_request_def Let_def split: option.split prod.split)

lemma keeps_resume [simp]: "I g \<Longrightarrow> I (fst (resume_request rc gen created f rqs s n g))"
  by (simp add: resume_request_def Let_def split: option.split prod.split)

lemma keeps_request [simp]: "I g \<Longrightarrow> I (fst (request_internal rc g))"
  by (simp add: request_internal_def Let_def split: option.split prod.split)

lemma keeps_posted [simp]: "I g \<Longrightarrow> I (apply_posted p g)"
  by (cases p) (simp_all add: keeps_fold)

lemma keeps_posted_intents [simp]: "I g \<Longrightarrow> I (apply_posted_intents g)"
  by (simp add: apply_posted_intents_def Let_def keeps_fold pops_posted)

lemma keeps_suspension [simp]: "I g \<Longrightarrow> I (apply_suspension_satisfied i g)"
  by (simp add: apply_suspension_satisfied_def Let_def split: option.split)

lemma keeps_suspensions [simp]: "I g \<Longrightarrow> I (apply_posted_suspensions g)"
  by (simp add: apply_posted_suspensions_def keeps_fold)

lemma keeps_states [simp]:
  "I (fst (on_graph f st)) = I (f (fst st))"
  "I (fst (add_ready sn st)) = I (fst st)"
  "I (fst (report_node k st)) = I (fst st)"
  "I (fst (dispatch sub sn st)) = I (fst st)"
  by (simp_all add: on_graph_def add_ready_def report_node_def dispatch_def split: option.split)

lemma keeps_fold_state: "(\<And>x st. I (fst st) \<Longrightarrow> I (fst (f x st))) \<Longrightarrow> I (fst st) \<Longrightarrow> I (fst (fold f xs st))"
  by (induction xs arbitrary: st) auto

lemma keeps_await [simp]: "I (fst st) \<Longrightarrow> I (fst (apply_await a st))"
  by (simp add: apply_await_def snapshot_exact_locked_def Let_def split: option.split prod.split)

lemma keeps_awaits [simp]: "I (fst st) \<Longrightarrow> I (fst (apply_posted_awaits st))"
  by (simp add: apply_posted_awaits_def Let_def keeps_fold_state)

lemma keeps_dispatch_waiters [simp]: "I (fst st) \<Longrightarrow> I (fst (dispatch_waiters sn st))"
  by (simp add: dispatch_waiters_def Let_def keeps_fold_state split: prod.split)

lemma keeps_expose [simp]: "I (fst st) \<Longrightarrow> I (fst (expose k st))" "I (fst st) \<Longrightarrow> I (fst (expose_stored k st))"
  by (simp_all add: expose_def expose_stored_def)

lemma keeps_await_gpu [simp]: "I (fst st) \<Longrightarrow> I (fst (await_gpu k t s a st))"
  by (simp add: await_gpu_def Let_def)

lemma keeps_ready [simp]: "I (fst st) \<Longrightarrow> I (fst (apply_ready gpu c n st))"
  by (simp add: apply_ready_def Let_def split: option.split)

lemma keeps_needs [simp]: "I g \<Longrightarrow> I (apply_needs c g)" "I g \<Longrightarrow> I (apply_retry now c g)"
  by (simp_all add: apply_needs_def apply_retry_def Let_def split: option.split)

lemma keeps_suspended [simp]: "I (fst st) \<Longrightarrow> I (fst (apply_suspended c su n st))"
  by (simp add: apply_suspended_def Let_def)

lemma keeps_close [simp]: "I (fst st) \<Longrightarrow> I (fst (close_version c s n st))"
  by (simp add: close_version_def)

lemma keeps_completion [simp]: "I (fst st) \<Longrightarrow> I (fst (apply_completion gpu now c st))"
  by (simp add: apply_completion_def apply_failed_def apply_cancelled_def Let_def split: option.split result_outcome.split)

lemma keeps_drain_completion [simp]: "I (fst st) \<Longrightarrow> I (fst (drain_completion gpu now c st))"
  by (simp add: drain_completion_def erase_undesired_def split: option.split)

lemma keeps_gpu [simp]: "I (fst st) \<Longrightarrow> I (fst (apply_gpu gpu signal st))"
  by (cases signal) (simp add: apply_gpu_def Let_def split: option.split)

lemma keeps_retries [simp]: "I g \<Longrightarrow> I (apply_retries now n g)"
proof (induction n arbitrary: g)
  case (Suc n)
  show ?case
  proof (cases "gr_retries g")
    case (Cons e es)
    then show ?thesis using Suc by (cases "node_of g (re_key e)") (simp_all add: Let_def)
  qed (use Suc in simp)
qed simp

lemma keeps_wakes [simp]: "I g \<Longrightarrow> I (apply_wakes n evaluated g)"
proof (induction n arbitrary: evaluated g)
  case (Suc n)
  show ?case
  proof (cases "gr_wakes g")
    case (Cons w ws)
    then show ?thesis using Suc by (cases w; cases "snd w") (simp_all add: Let_def)
  qed (use Suc in simp)
qed simp

lemma keeps_start_build [simp]: "I (fst st) \<Longrightarrow> I (fst (start_build k st))"
  by (simp add: start_build_def Let_def split: option.split prod.split)

lemma keeps_builds [simp]: "I (fst st) \<Longrightarrow> I (fst (start_builds n st))"
  by (simp add: start_builds_def keeps_fold_state)

lemma keeps_signals [simp]: "I (fst st) \<Longrightarrow> I (fst (signal_gpu gpu sl st))"
  by (simp add: signal_gpu_def collect_gpu_def Let_def keeps_fold_state)

lemma keeps_take_completions [simp]: "I (fst st) \<Longrightarrow> I (fst (take_completions gpu sl st))"
  by (simp add: take_completions_def Let_def keeps_fold_state pops_completions)

lemma keeps_take [simp]: "I (fst (take_published m st)) = I (fst st)" "I (fst (take_propagated st)) = I (fst st)"
  by (simp_all add: take_published_def take_propagated_def Let_def)

lemma keeps_drain: "I g \<Longrightarrow> I (fst (drain gpu sl g))"
  by (simp add: drain_def Let_def keeps_fold_state)

end

section \<open>The archive and its index\<close>

definition before :: "nat \<times> nat \<Rightarrow> nat \<times> nat \<Rightarrow> bool" where
  "before p q \<longleftrightarrow> fst p < fst q \<or> fst p = fst q \<and> snd p < snd q"

text \<open>
  Every archived snapshot is filed under its own version, and an address's index lists exactly
  its archived versions, by revision and generation, oldest first.
\<close>

definition archive_ok :: "graph \<Rightarrow> bool" where
  "archive_ok g \<longleftrightarrow>
     (\<forall>v sn. gr_versions g v = Some sn \<longrightarrow> of_version sn v) \<and>
     (\<forall>ad. sorted_wrt before (gr_byAddress g ad)) \<and>
     (\<forall>v. gr_versions g v \<noteq> None \<longleftrightarrow> (sk_revision v, sk_generation v) \<in> set (gr_byAddress g (sk_address v)))"

lemma set_insert_version [simp]: "set (insert_version p ps) = insert p (set ps)"
  by (induction ps) auto

lemma sorted_insert_version: "sorted_wrt before ps \<Longrightarrow> sorted_wrt before (insert_version p ps)"
proof (induction ps)
  case (Cons q qs)
  have "before p r" if "before p q" "r \<in> set qs" for r
    using that Cons.prems by (auto simp: before_def)
  then show ?case using Cons by (cases p; cases q) (auto simp: before_def)
qed simp

lemma stored_key_other: "(v :: stored_key) \<noteq> w \<Longrightarrow> sk_address v = sk_address w \<Longrightarrow> (sk_revision v, sk_generation v) \<noteq> (sk_revision w, sk_generation w)"
  by (cases v; cases w) simp

lemma archive_okI:
  assumes "\<And>v sn. gr_versions g v = Some sn \<Longrightarrow> of_version sn v" "\<And>ad. sorted_wrt before (gr_byAddress g ad)"
    "\<And>v. gr_versions g v \<noteq> None \<longleftrightarrow> (sk_revision v, sk_generation v) \<in> set (gr_byAddress g (sk_address v))"
  shows "archive_ok g"
  using assms by (simp add: archive_ok_def)

interpretation archive: graph_invariant archive_ok
proof (unfold_locales, goal_cases)
  case (1 g' g)
  then show ?case by (simp add: archive_ok_def core_def)
next
  case (2 sn v g)
  show ?case
  proof (rule archive_okI)
    fix w :: stored_key
    show "gr_versions (archive v sn g) w \<noteq> None \<longleftrightarrow> (sk_revision w, sk_generation w) \<in> set (gr_byAddress (archive v sn g) (sk_address w))"
      using 2 stored_key_other [of w v] by (cases "w = v") (auto simp: archive_ok_def archive_def)
  qed (use 2 in \<open>auto simp: archive_ok_def archive_def sorted_insert_version split: if_splits\<close>)
next
  case (3 g v)
  let ?g = "g\<lparr>gr_versions := (gr_versions g)(v := None),
        gr_byAddress := (gr_byAddress g)(sk_address v := removeAll (sk_revision v, sk_generation v) (gr_byAddress g (sk_address v)))\<rparr>"
  show ?case
  proof (rule archive_okI)
    fix w :: stored_key
    show "gr_versions ?g w \<noteq> None \<longleftrightarrow> (sk_revision w, sk_generation w) \<in> set (gr_byAddress ?g (sk_address w))"
      using 3 stored_key_other [of w v] by (cases "w = v") (auto simp: archive_ok_def)
  qed (use 3 in \<open>auto simp: archive_ok_def sorted_wrt_filter removeAll_filter_not_eq split: if_splits\<close>)
next
  case (4 g v sn)
  then show ?case by (auto simp: archive_ok_def of_version_def snapshot_key_def)
next
  case (5 g m)
  then show ?case by (simp add: archive_ok_def)
next
  case (6 g m)
  then show ?case by (simp add: archive_ok_def)
qed

section \<open>The inbox\<close>

definition inbox_ok :: "(posted \<Rightarrow> bool) \<Rightarrow> (completion \<Rightarrow> bool) \<Rightarrow> graph \<Rightarrow> bool" where
  "inbox_ok P Q g \<longleftrightarrow> (\<forall>p \<in> set (gr_posted g). P p) \<and> (\<forall>c \<in> set (gr_completions g). Q c)"

interpretation inbox: graph_invariant "inbox_ok P Q" for P Q
proof (unfold_locales, goal_cases)
  case (1 g' g)
  then show ?case by (simp add: inbox_ok_def core_def)
next
  case (5 g m)
  then show ?case by (auto simp: inbox_ok_def dest: in_set_dropD)
next
  case (6 g m)
  then show ?case by (auto simp: inbox_ok_def dest: in_set_dropD)
qed (simp_all add: inbox_ok_def archive_def)

end
