(* ===== verification/GraphFrames.thy ===== *)
theory GraphFrames
  imports GraphInv
begin

text \<open>
  What the transitions do to a node: to the one they are about, and that the others keep theirs,
  a dependency cycle's apart.
\<close>

section \<open>One node of the primitive updates\<close>

lemma map_of_upd: "map_of (map (\<lambda>(k', n). (k', if k' = j then f n else n)) ns) k = (if k = j then map_option f (map_of ns k) else map_of ns k)"
  by (induction ns) auto

lemma node_of_upd [simp]: "node_of (upd_node j f g) k = (if k = j then map_option f (node_of g k) else node_of g k)"
  by (simp add: node_of_def upd_node_def map_of_upd)

lemma node_of_fields [simp]:
  "node_of (g\<lparr>gr_versions := vs\<rparr>) k = node_of g k"
  "node_of (g\<lparr>gr_byAddress := bs\<rparr>) k = node_of g k"
  "node_of (g\<lparr>gr_aliases := al\<rparr>) k = node_of g k"
  "node_of (g\<lparr>gr_pins := ps\<rparr>) k = node_of g k"
  "node_of (g\<lparr>gr_waiters := ws\<rparr>) k = node_of g k"
  "node_of (g\<lparr>gr_leases := ls\<rparr>) k = node_of g k"
  "node_of (g\<lparr>gr_live := lv\<rparr>) k = node_of g k"
  "node_of (g\<lparr>gr_nextToken := t\<rparr>) k = node_of g k"
  "node_of (g\<lparr>gr_nextVersionGeneration := v\<rparr>) k = node_of g k"
  "node_of (g\<lparr>gr_reclaim := rs\<rparr>) k = node_of g k"
  "node_of (g\<lparr>gr_refusals := rf\<rparr>) k = node_of g k"
  "node_of (g\<lparr>gr_pending := pe\<rparr>) k = node_of g k"
  "node_of (g\<lparr>gr_wakes := wk\<rparr>) k = node_of g k"
  "node_of (g\<lparr>gr_ready := rd\<rparr>) k = node_of g k"
  "node_of (g\<lparr>gr_publishedSignals := pb\<rparr>) k = node_of g k"
  "node_of (g\<lparr>gr_cancellations := cs\<rparr>) k = node_of g k"
  "node_of (g\<lparr>gr_retirement := rt\<rparr>) k = node_of g k"
  "node_of (g\<lparr>gr_generations := ge\<rparr>) k = node_of g k"
  "node_of (g\<lparr>gr_reserved := re\<rparr>) k = node_of g k"
  "node_of (g\<lparr>gr_signatures := si\<rparr>) k = node_of g k"
  "node_of (g\<lparr>gr_suspended := su\<rparr>) k = node_of g k"
  "node_of (g\<lparr>gr_satisfied := sa\<rparr>) k = node_of g k"
  "node_of (g\<lparr>gr_retries := rr\<rparr>) k = node_of g k"
  "node_of (g\<lparr>gr_exactWaiters := ew\<rparr>) k = node_of g k"
  "node_of (g\<lparr>gr_cancelledAwaits := ca\<rparr>) k = node_of g k"
  "node_of (g\<lparr>gr_gpuSignals := gs\<rparr>) k = node_of g k"
  "node_of (g\<lparr>gr_gpuRecovery := gr\<rparr>) k = node_of g k"
  "node_of (g\<lparr>gr_postedAwaits := pa\<rparr>) k = node_of g k"
  "node_of (g\<lparr>gr_postedSuspensions := pu\<rparr>) k = node_of g k"
  "node_of (g\<lparr>gr_posted := po\<rparr>) k = node_of g k"
  "node_of (g\<lparr>gr_completions := co\<rparr>) k = node_of g k"
  "node_of (g\<lparr>gr_stats := st\<rparr>) k = node_of g k"
  "node_of (g\<lparr>gr_stateCounts := sc\<rparr>) k = node_of g k"
  "node_of (g\<lparr>gr_outstanding := ou\<rparr>) k = node_of g k"
  by (simp_all add: node_of_def)

lemma node_of_desired [simp]: "node_of (set_desired j d g) k = (if k = j then map_option (nd_desired_update (\<lambda>_. d)) (node_of g k) else node_of g k)"
  by (auto simp: set_desired_def Let_def split: option.split)

lemma node_of_state [simp]: "node_of (set_state j s g) k = (if k = j then map_option (nd_state_update (\<lambda>_. s)) (node_of g k) else node_of g k)"
  by (auto simp: set_state_def Let_def split: option.split)

lemma node_of_fold: "(\<And>x g. node_of (f x g) k = node_of g k) \<Longrightarrow> node_of (fold f xs g) k = node_of g k"
  by (induction xs arbitrary: g) auto

lemma node_of_primitives [simp]:
  "node_of (upd_stats h g) k = node_of g k"
  "node_of (queue_reclaim vs g) k = node_of g k"
  "node_of (add_pin v g) k = node_of g k"
  "node_of (drop_pin v g) k = node_of g k"
  "node_of (drop_waiter j d g) k = node_of g k"
  "node_of (add_waiter j d g) k = node_of g k"
  "node_of (wake_waiters j g) k = node_of g k"
  "node_of (register_version_lease v token g) k = node_of g k"
  "node_of (fst (acquire_version_lease v g)) k = node_of g k"
  "node_of (fst (reserve_generation vk g)) k = node_of g k"
  "node_of (set_reserved_generation vk gen g) k = node_of g k"
  "node_of (drop_expired_lease v g) k = node_of g k"
  "node_of (archive v sn g) k = node_of g k"
  "node_of (store_refused_version v status lease g) k = node_of g k"
  "node_of (retire_version v sn g) k = node_of g k"
  "node_of (migrate_aliased_version v w g) k = node_of g k"
  by (simp_all add: upd_stats_def queue_reclaim_def add_pin_def drop_pin_def drop_waiter_def add_waiter_def wake_waiters_def
      register_version_lease_def acquire_version_lease_def reserve_generation_def set_reserved_generation_def drop_expired_lease_def
      archive_def store_refused_version_def retire_version_def migrate_aliased_version_def Let_def split: option.split)

lemma node_of_store [simp]: "node_of (store_version j g) k = node_of g k"
  by (simp add: store_version_def Let_def split: option.split)

lemma node_of_pins [simp]: "node_of (adjust_exact_recipe_pins j c rqs up g) k = node_of g k"
  by (simp add: adjust_exact_recipe_pins_def node_of_fold)

lemma node_of_successor_pins [simp]: "node_of (pin_successor j q g) k = node_of g k" "node_of (unpin_successor j q g) k = node_of g k"
  by (simp_all add: pin_successor_def unpin_successor_def)

lemma node_of_folds [simp]:
  "node_of (fold (add_waiter j) ds g) k = node_of g k"
  "node_of (fold (drop_waiter j) ds g) k = node_of g k"
  "node_of (fold (unpin_successor j) qs g) k = node_of g k"
  "node_of (fold (\<lambda>rq. add_pin (requirement_version rq)) rqs g) k = node_of g k"
  by (simp_all add: node_of_fold)

lemma node_of_pairs [simp]:
  "acquire_version_lease v g = (g', t) \<Longrightarrow> node_of g' k = node_of g k"
  "reserve_generation vk g = (g', m) \<Longrightarrow> node_of g' k = node_of g k"
  using node_of_primitives(9) [of v g k] node_of_primitives(10) [of vk g k] by simp_all

lemma node_of_scan [simp]: "node_of (fst (dependency_scan rqs groups g)) k = node_of g k"
proof (induction rqs arbitrary: groups g)
  case (Cons rq rqs)
  then show ?case by (simp add: Let_def split: option.split prod.split) (metis node_of_pairs(1) fst_conv)
qed simp

lemma node_of_snapshots [simp]: "dependency_snapshots g n = (g', sns) \<Longrightarrow> node_of g' k = node_of g k"
  using node_of_scan [of "nd_requirements n" "[]" g k] by (simp add: dependency_snapshots_def)

lemma node_of_fail_cycle: "node_of (fail_cycle text cycle g) k =
    (if k \<in> set cycle
     then map_option (\<lambda>n. n\<lparr>nd_error := text, nd_terminalFailure := True, nd_generation := nd_generation n + 1, nd_retryAt := None,
            nd_state := FailedState\<rparr>) (node_of g k)
     else node_of g k)"
proof -
  let ?f = "\<lambda>k g. case node_of g k of None \<Rightarrow> g | Some n \<Rightarrow>
      upd_stats (\<lambda>s. s\<lparr>gs_failed := gs_failed s + 1\<rparr>) (set_state k FailedState
        (upd_node k (\<lambda>n. n\<lparr>nd_error := text, nd_terminalFailure := True, nd_generation := nd_generation n + 1, nd_retryAt := None\<rparr>) g))"
  have one: "node_of (?f j g) k = (if k = j then map_option (\<lambda>n. n\<lparr>nd_error := text, nd_terminalFailure := True,
      nd_generation := nd_generation n + 1, nd_retryAt := None, nd_state := FailedState\<rparr>) (node_of g k) else node_of g k)" for j g
    by (cases "node_of g j") auto
  have "distinct ks \<Longrightarrow> node_of (fold ?f ks g) k = (if k \<in> set ks then map_option (\<lambda>n. n\<lparr>nd_error := text, nd_terminalFailure := True,
      nd_generation := nd_generation n + 1, nd_retryAt := None, nd_state := FailedState\<rparr>) (node_of g k) else node_of g k)" for ks
  proof (induction ks arbitrary: g)
    case (Cons j ks)
    then show ?case using one [where j = j and g = g] by (auto simp del: node_of_upd node_of_state node_of_primitives)
  qed simp
  from this [of "remdups cycle"] show ?thesis by (simp add: fail_cycle_def Let_def)
qed

lemma node_of_reclaim [simp]: "node_of (reclaim_scan late m g) k = node_of g k"
proof (induction m arbitrary: g)
  case (Suc m)
  show ?case
  proof (cases "gr_reclaim g")
    case (Cons v vs)
    obtain g1 r where c: "reclaim_candidate v (g\<lparr>gr_reclaim := vs\<rparr>) = (g1, r)" by fastforce
    then have "node_of g1 k = node_of g k" by (auto simp: reclaim_candidate_def split: option.splits if_splits)
    then show ?thesis using Suc c Cons by simp
  qed simp
qed simp

lemma node_of_reclaim_versions [simp]: "node_of (reclaim_unreferenced_versions late g) k = node_of g k"
  by (simp add: reclaim_unreferenced_versions_def)

end
