(* ===== verification/GraphEnded.thy ===== *)
theory GraphEnded
  imports GraphFrames
begin

text \<open>
  What becomes of an address whose version has failed: the node keeps its failed version through
  every transition but its own cancellation or release.
\<close>

section \<open>A failed node\<close>

definition ended :: "node \<Rightarrow> bool" where
  "ended n \<longleftrightarrow> nd_state n = FailedState \<and> nd_terminalFailure n \<and> \<not> nd_buildInFlight n \<and>
     nd_waitingGpuSubmissions n = None \<and> nd_desiredRevision n \<noteq> 0"

definition ended_at :: "address \<Rightarrow> graph \<Rightarrow> bool" where
  "ended_at k g \<longleftrightarrow> (case node_of g k of None \<Rightarrow> False | Some n \<Rightarrow> ended n)"

lemma ended_same: "node_of g' k = node_of g k \<Longrightarrow> ended_at k g' = ended_at k g"
  by (simp add: ended_at_def)

lemmas ended_quiet [simp] =
  node_of_fields [THEN ended_same] node_of_primitives [THEN ended_same] node_of_store [THEN ended_same]
  node_of_pins [THEN ended_same] node_of_successor_pins [THEN ended_same] node_of_folds [THEN ended_same]

lemma ended_pairs [simp]:
  "acquire_version_lease v g = (g', t) \<Longrightarrow> ended_at k g' = ended_at k g"
  "reserve_generation vk g = (g', m) \<Longrightarrow> ended_at k g' = ended_at k g"
  "dependency_snapshots g n = (g', sns) \<Longrightarrow> ended_at k g' = ended_at k g"
  by (rule ended_same, simp)+

lemma ended_upd [simp]: "ended_at k g \<Longrightarrow> (\<And>n. ended n \<Longrightarrow> ended (f n)) \<Longrightarrow> ended_at k (upd_node j f g)"
  by (auto simp: ended_at_def split: option.splits)

lemma ended_other [simp]: "j \<noteq> k \<Longrightarrow> ended_at k (upd_node j f g) = ended_at k g" "j \<noteq> k \<Longrightarrow> ended_at k (set_state j s g) = ended_at k g"
  by (auto simp: ended_at_def)

lemma ended_desired [simp]: "ended_at k g \<Longrightarrow> ended_at k (set_desired j d g)"
  by (auto simp: ended_at_def ended_def split: option.splits)

lemma ended_failed [simp]: "ended_at k g \<Longrightarrow> ended_at k (set_state j FailedState g)"
  by (auto simp: ended_at_def ended_def split: option.splits)

lemma ended_nodeD: "ended_at k g \<Longrightarrow> node_of g k = Some n \<Longrightarrow> ended n"
  by (simp add: ended_at_def)

lemma ended_update [simp]:
  "ended (n\<lparr>nd_requirements := rqs\<rparr>) = ended n"
  "ended (n\<lparr>nd_installedWaiterKeys := ds\<rparr>) = ended n"
  "ended (n\<lparr>nd_completedWaiterEdgesPruned := b\<rparr>) = ended n"
  "ended (n\<lparr>nd_successors := qs\<rparr>) = ended n"
  "ended (n\<lparr>nd_error := text\<rparr>) = ended n"
  "ended (n\<lparr>nd_latestSuccessorNeeded := b\<rparr>) = ended n"
  "ended (n\<lparr>nd_latestRequestedRevision := r\<rparr>) = ended n"
  "ended (n\<lparr>nd_superseded := b\<rparr>) = ended n"
  "ended (n\<lparr>nd_published := b\<rparr>) = ended n"
  "ended (n\<lparr>nd_retryAt := t\<rparr>) = ended n"
  "ended (n\<lparr>nd_suspension := su\<rparr>) = ended n"
  by (simp_all add: ended_def)

lemma ended_refused [simp]: "ended n \<Longrightarrow> queue_refused n"
  by (simp add: ended_def queue_refused_def)

section \<open>Transitions\<close>

lemma ended_fail_cycle [simp]: "ended_at k g \<Longrightarrow> ended_at k (fail_cycle text cycle g)"
  by (auto simp: ended_at_def ended_def node_of_fail_cycle split: option.splits)

lemma ended_latch [simp]: "ended_at k g \<Longrightarrow> ended_at k (latch_ready_gates j g)"
  by (simp add: latch_ready_gates_def Let_def split: option.split)

lemma ended_queue_node [simp]: "ended_at k g \<Longrightarrow> ended_at k (queue_node j g)"
proof (cases "j = k")
  case True
  then show "ended_at k g \<Longrightarrow> ?thesis" by (simp add: queue_node_def ended_nodeD split: option.split)
next
  case False
  then show "ended_at k g \<Longrightarrow> ?thesis" by (simp add: queue_node_def Let_def split: option.split)
qed

lemma ended_queue_or_fail [simp]: "ended_at k g \<Longrightarrow> ended_at k (queue_or_fail j g)"
  by (simp add: queue_or_fail_def Let_def split: option.split)

lemma ended_edges [simp]:
  "ended_at k g \<Longrightarrow> ended_at k (remove_waiter_edges j g)"
  "ended_at k g \<Longrightarrow> ended_at k (install_waiter_edges j prepared g)"
  "ended_at k g \<Longrightarrow> ended_at k (prune_completed_waiter_edges j g)"
  "ended_at k g \<Longrightarrow> ended_at k (clear_successors j g)"
  by (simp_all add: remove_waiter_edges_def install_waiter_edges_def prune_completed_waiter_edges_def clear_successors_def
      Let_def node_of_fold [THEN ended_same] split: option.split)

lemma ended_promote [simp]: "ended_at k g \<Longrightarrow> j \<noteq> k \<Longrightarrow> ended_at k (fst (promote_successor j g))"
  by (simp add: promote_successor_def Let_def split: option.split list.split)

lemma ended_queue_latest [simp]: "ended_at k g \<Longrightarrow> ended_at k (fst (queue_latest_successor j g))"
proof (cases "j = k")
  case True
  then show "ended_at k g \<Longrightarrow> ?thesis"
    by (auto simp: queue_latest_successor_def ended_def dest: ended_nodeD split: option.split)
next
  case False
  then show "ended_at k g \<Longrightarrow> ?thesis"
    by (simp add: queue_latest_successor_def Let_def split: option.split prod.split)
qed

lemma ended_wake_waiter [simp]: "ended_at k g \<Longrightarrow> ended_at k (wake_waiter d c g)"
  by (simp add: wake_waiter_def Let_def split: option.split)

lemma ended_hand_over [simp]: "ended_at k g \<Longrightarrow> j \<noteq> k \<Longrightarrow> ended_at k (hand_over_version j g)"
  by (simp add: hand_over_version_def split: option.split)

section \<open>Calls\<close>

lemma ended_cancel [simp]: "ended_at k g \<Longrightarrow> j \<noteq> k \<Longrightarrow> ended_at k (cancel_locked j g)"
  by (simp add: cancel_locked_def Let_def split: option.split)

lemma ended_erase [simp]: "ended_at k g \<Longrightarrow> j \<noteq> k \<Longrightarrow> ended_at k (erase_node j g)"
proof -
  have "map_of (filter (\<lambda>p. fst p \<noteq> j) ns) k = map_of ns k" if "j \<noteq> k" for ns :: "(address \<times> node) list"
    using that by (induction ns) auto
  then show "ended_at k g \<Longrightarrow> j \<noteq> k \<Longrightarrow> ?thesis" by (auto simp: erase_node_def ended_at_def node_of_def split: option.splits)
qed

lemma ended_release [simp]: "ended_at k g \<Longrightarrow> j \<noteq> k \<Longrightarrow> ended_at k (release_locked j g)"
  by (simp add: release_locked_def Let_def split: option.split)

lemma ended_mark_published [simp]: "ended_at k g \<Longrightarrow> ended_at k (mark_published_locked v g)"
proof (cases "sk_address (canonical g v) = k")
  case True
  show "ended_at k g \<Longrightarrow> ?thesis"
    by (auto simp: mark_published_locked_def Let_def ended_def True publishable_def dest: ended_nodeD split: option.split)
next
  case False
  then show "ended_at k g \<Longrightarrow> ?thesis" by (simp add: mark_published_locked_def Let_def split: option.split)
qed

lemma ended_fold [simp]: "(\<And>x g. x \<in> set xs \<Longrightarrow> ended_at k g \<Longrightarrow> ended_at k (f x g)) \<Longrightarrow> ended_at k g \<Longrightarrow> ended_at k (fold f xs g)"
  by (induction xs arbitrary: g) auto

lemma ended_mark_revision [simp]: "ended_at k g \<Longrightarrow> ended_at k (mark_published_revision_locked j r g)"
  by (simp add: mark_published_revision_locked_def Let_def split: option.split)

lemma ended_coalesce [simp]: "ended_at k g \<Longrightarrow> ended_at k (coalesce_successors m j g)"
proof (induction m arbitrary: g)
  case (Suc m)
  then show ?case by (simp split: option.split list.split)
qed simp

lemma ended_supersede [simp]: "ended_at k g \<Longrightarrow> ended_at k (supersede_active j g)"
  by (simp add: supersede_active_def Let_def split: option.split)

lemma ended_append [simp]: "ended_at k g \<Longrightarrow> ended_at k (append_successor rc q g)"
  by (simp add: append_successor_def)

lemma ended_queue_successor [simp]: "ended_at k g \<Longrightarrow> ended_at k (queue_successor rc gen f rqs t g)"
proof (cases "rc_key rc = k")
  case True
  assume "ended_at k g"
  then have e: "ended_at k (append_successor rc q g)" for q by simp
  have "\<not> (nd_state n = Missing \<or> nd_state n = Blocked \<or> nd_state n = Queued) \<and> nd_state n \<noteq> UploadSubmitted"
    if "node_of (append_successor rc q g) k = Some n" for q n
    using ended_nodeD [OF e that] by (simp add: ended_def)
  then show ?thesis using True e by (simp add: queue_successor_def Let_def split: option.split)
next
  case False
  then show "ended_at k g \<Longrightarrow> ?thesis" by (simp add: queue_successor_def Let_def split: option.split)
qed

lemma ended_install [simp]: "ended_at k g \<Longrightarrow> rc_key rc \<noteq> k \<Longrightarrow> ended_at k (install_request rc gen f rqs prepared t g)"
  by (simp add: install_request_def Let_def split: option.split)

lemma ended_alias [simp]: "ended_at k (alias_predicted rc gen g) = ended_at k g"
  by (rule ended_same) (simp add: alias_predicted_def)

lemma ended_lease [simp]: "lease_request rc gen g = (g', t) \<Longrightarrow> ended_at k g' = ended_at k g"
  by (simp add: lease_request_def)

lemma ended_record [simp]: "ended_at k g \<Longrightarrow> ended_at k (record_request rc f rqs g)"
  by (simp add: record_request_def Let_def split: option.split)

lemma ended_place [simp]: "ended_at k g \<Longrightarrow> ended_at k (place_request rc gen f rqs t g)"
proof -
  assume e: "ended_at k g"
  have "nd_desiredRevision n \<noteq> 0 \<and> \<not> finished n" if "node_of g (rc_key rc) = Some n" "rc_key rc = k" for n
    using ended_nodeD [OF e] that by (auto simp: ended_def finished_def)
  then show ?thesis using e by (cases "rc_key rc = k") (auto simp: place_request_def split: option.split)
qed

lemma ended_admit [simp]: "ended_at k g \<Longrightarrow> ended_at k (fst (admit_request rc gen f rqs g))"
  by (simp add: admit_request_def Let_def split: prod.split)

lemma ended_store_rejected [simp]: "ended_at k g \<Longrightarrow> ended_at k (reject_predicted rc created gen status g)"
  by (simp add: reject_predicted_def Let_def)

lemma ended_resume [simp]: "ended_at k g \<Longrightarrow> ended_at k (fst (resume_request rc gen created f rqs s n g))"
  by (simp add: resume_request_def Let_def split: prod.split)

lemma ended_call_generation [simp]: "call_generation rc g = (g', c) \<Longrightarrow> ended_at k g' = ended_at k g"
  by (auto simp: call_generation_def split: option.splits prod.splits if_splits)

lemma ended_ensure [simp]: "ended_at k g \<Longrightarrow> ended_at k (ensure_node j g)"
  by (auto simp: ensure_node_def ended_at_def node_of_def map_of_append split: option.splits)

lemma ended_request [simp]: "ended_at k g \<Longrightarrow> ended_at k (fst (request_internal rc g))"
  by (simp add: request_internal_def Let_def split: option.split prod.split)

section \<open>The drain\<close>

text \<open>What would end the wait: the address cancelled or released.\<close>

fun ends_address :: "address \<Rightarrow> posted \<Rightarrow> bool" where
  "ends_address k (PostedCancel j) \<longleftrightarrow> j = k"
| "ends_address k (PostedRelease js) \<longleftrightarrow> k \<in> set js"
| "ends_address k _ \<longleftrightarrow> False"

lemma ended_posted [simp]: "ended_at k g \<Longrightarrow> \<not> ends_address k p \<Longrightarrow> ended_at k (apply_posted p g)"
  by (cases p) (auto simp: pump_gpu_completions_def intro!: ended_fold ended_release)

lemma ended_states [simp]:
  "ended_at k (fst (on_graph f st)) = ended_at k (f (fst st))"
  "ended_at k (fst (add_ready sn st)) = ended_at k (fst st)"
  "ended_at k (fst (report_node j st)) = ended_at k (fst st)"
  "ended_at k (fst (dispatch sub sn st)) = ended_at k (fst st)"
  by (simp_all add: on_graph_def add_ready_def report_node_def dispatch_def split: option.split)

lemma ended_expose [simp]:
  "ended_at k (fst (expose j st)) = ended_at k (fst st)" "ended_at k (fst (expose_stored j st)) = ended_at k (fst st)"
  by (simp_all add: expose_def expose_stored_def)

lemma ended_await_gpu [simp]: "ended_at k (fst st) \<Longrightarrow> j \<noteq> k \<Longrightarrow> ended_at k (fst (await_gpu j t s a st))"
  by (simp add: await_gpu_def Let_def)

lemma ended_ready [simp]: "ended_at k (fst st) \<Longrightarrow> cp_key c \<noteq> k \<Longrightarrow> ended_at k (fst (apply_ready gpu c n st))"
  by (simp add: apply_ready_def Let_def split: option.split)

lemma ended_outcomes [simp]:
  "ended_at k g \<Longrightarrow> cp_key c \<noteq> k \<Longrightarrow> ended_at k (apply_needs c g)"
  "ended_at k g \<Longrightarrow> cp_key c \<noteq> k \<Longrightarrow> ended_at k (apply_retry now c g)"
  by (simp_all add: apply_needs_def apply_retry_def Let_def split: option.split)

lemma ended_suspended [simp]: "ended_at k (fst st) \<Longrightarrow> cp_key c \<noteq> k \<Longrightarrow> ended_at k (fst (apply_suspended c su n st))"
  by (simp add: apply_suspended_def Let_def)

lemma ended_close [simp]: "ended_at k (fst st) \<Longrightarrow> cp_key c \<noteq> k \<Longrightarrow> ended_at k (fst (close_version c s n st))"
  by (simp add: close_version_def)

lemma ended_completion [simp]: "ended_at k (fst st) \<Longrightarrow> cp_key c \<noteq> k \<Longrightarrow> ended_at k (fst (apply_completion gpu now c st))"
  by (simp add: apply_completion_def apply_failed_def apply_cancelled_def Let_def split: option.split result_outcome.split)

lemma ended_drain_completion [simp]: "ended_at k (fst st) \<Longrightarrow> cp_key c \<noteq> k \<Longrightarrow> ended_at k (fst (drain_completion gpu now c st))"
  by (simp add: drain_completion_def erase_undesired_def split: option.split)

lemma ended_gpu [simp]: "ended_at k (fst st) \<Longrightarrow> ended_at k (fst (apply_gpu gpu signal st))"
proof (cases signal)
  case (fields j generation token)
  show "ended_at k (fst st) \<Longrightarrow> ?thesis"
  proof (cases "j = k")
    case True
    then show "ended_at k (fst st) \<Longrightarrow> ?thesis"
      using ended_nodeD [of k "fst st"] by (simp add: fields apply_gpu_def Let_def ended_def split: option.split)
  next
    case False
    then show "ended_at k (fst st) \<Longrightarrow> ?thesis" by (simp add: fields apply_gpu_def Let_def split: option.split)
  qed
qed

lemma ended_retries [simp]: "ended_at k g \<Longrightarrow> ended_at k (apply_retries now m g)"
proof (induction m arbitrary: g)
  case (Suc m)
  show ?case
  proof (cases "gr_retries g")
    case (Cons e es)
    then show ?thesis using Suc by (cases "node_of g (re_key e)") (simp_all add: Let_def)
  qed (use Suc in simp)
qed simp

lemma ended_wakes [simp]: "ended_at k g \<Longrightarrow> ended_at k (apply_wakes m evaluated g)"
proof (induction m arbitrary: evaluated g)
  case (Suc m)
  show ?case
  proof (cases "gr_wakes g")
    case (Cons w ws)
    then show ?thesis using Suc by (cases w; cases "snd w") (simp_all add: Let_def)
  qed (use Suc in simp)
qed simp

lemma ended_suspension [simp]: "ended_at k g \<Longrightarrow> ended_at k (apply_suspension_satisfied i g)"
  by (simp add: apply_suspension_satisfied_def Let_def split: option.split)

lemma ended_await [simp]: "ended_at k (fst st) \<Longrightarrow> ended_at k (fst (apply_await a st))"
  by (simp add: apply_await_def snapshot_exact_locked_def Let_def split: option.split prod.split)

lemma ended_start_build [simp]: "ended_at k (fst st) \<Longrightarrow> ended_at k (fst (start_build j st))"
proof (cases "j = k")
  case True
  then show "ended_at k (fst st) \<Longrightarrow> ?thesis"
    using ended_nodeD [of k "fst st"] by (simp add: start_build_def ended_def split: option.split)
next
  case False
  then show "ended_at k (fst st) \<Longrightarrow> ?thesis" by (simp add: start_build_def Let_def split: option.split prod.split)
qed

lemma ended_fold_state [simp]:
  "(\<And>x st. x \<in> set xs \<Longrightarrow> ended_at k (fst st) \<Longrightarrow> ended_at k (fst (f x st))) \<Longrightarrow> ended_at k (fst st) \<Longrightarrow> ended_at k (fst (fold f xs st))"
  by (induction xs arbitrary: st) auto

lemma ended_dispatch_waiters [simp]: "ended_at k (fst st) \<Longrightarrow> ended_at k (fst (dispatch_waiters sn st))"
  by (simp add: dispatch_waiters_def Let_def split: prod.split)

section \<open>Builds handed out\<close>

lemma builds_states [simp]:
  "do_builds (snd (on_graph f st)) = do_builds (snd st)"
  "do_builds (snd (add_ready sn st)) = do_builds (snd st)"
  "do_builds (snd (report_node j st)) = do_builds (snd st)"
  "do_builds (snd (dispatch sub sn st)) = do_builds (snd st)"
  "do_builds (snd (expose j st)) = do_builds (snd st)"
  "do_builds (snd (expose_stored j st)) = do_builds (snd st)"
  "do_builds (snd (await_gpu j t s a st)) = do_builds (snd st)"
  "do_builds (snd (close_version c s n st)) = do_builds (snd st)"
  "do_builds (snd (take_published m st)) = do_builds (snd st)"
  "do_builds (snd (take_propagated st)) = do_builds (snd st)"
  by (simp_all add: on_graph_def add_ready_def report_node_def dispatch_def expose_def expose_stored_def await_gpu_def close_version_def
      take_published_def take_propagated_def Let_def split: option.split)

lemma builds_completion [simp]: "do_builds (snd (drain_completion gpu now c st)) = do_builds (snd st)"
  by (simp add: drain_completion_def apply_completion_def apply_failed_def apply_cancelled_def apply_ready_def apply_suspended_def Let_def
      split: option.split result_outcome.split)

lemma builds_gpu [simp]: "do_builds (snd (apply_gpu gpu signal st)) = do_builds (snd st)"
  by (cases signal) (simp add: apply_gpu_def Let_def split: option.split)

lemma builds_await [simp]: "do_builds (snd (apply_await a st)) = do_builds (snd st)"
  by (simp add: apply_await_def Let_def split: prod.split)

lemma builds_fold: "(\<And>x st. do_builds (snd (f x st)) = do_builds (snd st)) \<Longrightarrow> do_builds (snd (fold f xs st)) = do_builds (snd st)"
  by (induction xs arbitrary: st) auto

lemma builds_nothing [simp]: "do_builds nothing_out = []"
  by (simp add: nothing_out_def)

lemma builds_awaits [simp]: "do_builds (snd (apply_posted_awaits st)) = do_builds (snd st)"
  by (simp add: apply_posted_awaits_def Let_def builds_fold)

lemma builds_dispatch [simp]: "do_builds (snd (dispatch_waiters sn st)) = do_builds (snd st)"
  by (simp add: dispatch_waiters_def Let_def builds_fold split: prod.split)

lemma builds_take_completions: "do_builds (snd (take_completions gpu sl st)) = do_builds (snd st)"
  by (simp add: take_completions_def Let_def builds_fold)

lemma builds_signal: "do_builds (snd (signal_gpu gpu sl st)) = do_builds (snd st)"
  by (simp add: signal_gpu_def builds_fold split: prod.split)

lemma ended_takes [simp]:
  "ended_at k (fst (take_published m st)) = ended_at k (fst st)" "ended_at k (fst (take_propagated st)) = ended_at k (fst st)"
  by (simp_all add: take_published_def take_propagated_def Let_def)

lemma ended_signal [simp]: "ended_at k (fst st) \<Longrightarrow> ended_at k (fst (signal_gpu gpu sl st))"
  by (simp add: signal_gpu_def collect_gpu_def Let_def)

definition builds_none :: "address \<Rightarrow> drain_out \<Rightarrow> bool" where
  "builds_none k out \<longleftrightarrow> (\<forall>b \<in> set (do_builds out). bc_key b \<noteq> k)"

lemma none_started: "ended_at k (fst st) \<Longrightarrow> builds_none k (snd st) \<Longrightarrow> builds_none k (snd (start_build j st))"
proof (cases "j = k")
  case True
  then show "ended_at k (fst st) \<Longrightarrow> builds_none k (snd st) \<Longrightarrow> ?thesis"
    using ended_nodeD [of k "fst st"] by (simp add: start_build_def ended_def split: option.split)
next
  case False
  then show "ended_at k (fst st) \<Longrightarrow> builds_none k (snd st) \<Longrightarrow> ?thesis"
    by (auto simp: start_build_def builds_none_def Let_def split: option.split prod.split)
qed

lemma none_started_fold: "ended_at k (fst st) \<Longrightarrow> builds_none k (snd st) \<Longrightarrow> builds_none k (snd (fold start_build ks st))"
  by (induction ks arbitrary: st) (auto simp: none_started)

lemma none_start_builds: "ended_at k (fst st) \<Longrightarrow> builds_none k (snd st) \<Longrightarrow> builds_none k (snd (start_builds m st))"
  unfolding start_builds_def by (rule none_started_fold) simp_all

lemma ended_start_builds: "ended_at k (fst st) \<Longrightarrow> ended_at k (fst (start_builds m st))"
  by (simp add: start_builds_def)

section \<open>A slice\<close>

text \<open>The address is ended, and neither its end nor a build of it is on the way.\<close>

definition abandoned :: "address \<Rightarrow> graph \<Rightarrow> bool" where
  "abandoned k g \<longleftrightarrow> ended_at k g \<and> inbox_ok (\<lambda>p. \<not> ends_address k p) (\<lambda>c. cp_key c \<noteq> k) g"

lemma evaluate_key [simp]: "cp_key (evaluate_completion gpu c) = cp_key c"
  by (simp add: evaluate_completion_def split: option.split)

lemma ended_take_completions:
  assumes "ended_at k (fst st)" "inbox_ok P (\<lambda>c. cp_key c \<noteq> k) (fst st)"
  shows "ended_at k (fst (take_completions gpu sl st))"
proof -
  have "cp_key c \<noteq> k" if "c \<in> set (take m (gr_completions (fst st)))" for c m
    using assms(2) in_set_takeD [OF that] by (simp add: inbox_ok_def)
  then show ?thesis using assms(1) by (simp add: take_completions_def Let_def)
qed

lemma ended_posted_intents:
  assumes "ended_at k g" "inbox_ok (\<lambda>p. \<not> ends_address k p) Q g"
  shows "ended_at k (apply_posted_intents g)"
proof -
  have "\<not> ends_address k p" if "p \<in> set (take m (gr_posted g))" for p m
    using assms(2) in_set_takeD [OF that] by (simp add: inbox_ok_def)
  then show ?thesis using assms(1) by (simp add: apply_posted_intents_def Let_def)
qed

lemma abandoned_drain:
  assumes "abandoned k g"
  shows "abandoned k (fst (drain gpu sl g)) \<and> builds_none k (snd (drain gpu sl g))"
proof -
  let ?P = "\<lambda>p. \<not> ends_address k p" and ?Q = "\<lambda>c. cp_key c \<noteq> k"
  have g: "ended_at k g" "inbox_ok ?P ?Q g" using assms by (simp_all add: abandoned_def)
  define g1 where "g1 = apply_posted_suspensions (fst (apply_posted_awaits (g, nothing_out)))"
  have g1: "ended_at k g1" "inbox_ok ?P ?Q g1"
    using g by (simp_all add: g1_def apply_posted_suspensions_def apply_posted_awaits_def Let_def inbox.keeps_fold inbox.keeps_fold_state)
  define st0 where "st0 = on_graph (\<lambda>g. apply_posted_intents (apply_posted_suspensions g)) (apply_posted_awaits (g, nothing_out))"
  have st0: "ended_at k (fst st0)" "inbox_ok ?P ?Q (fst st0)" "do_builds (snd st0) = []"
    using g1 ended_posted_intents [OF g1] by (simp_all add: st0_def g1_def [symmetric])
  define st1 where "st1 = on_graph (apply_retries (sl_now sl) (sl_retries sl)) (signal_gpu gpu sl (take_published (sl_published sl) st0))"
  have st1: "ended_at k (fst st1)" "inbox_ok ?P ?Q (fst st1)" "do_builds (snd st1) = []"
    using st0 by (simp_all add: st1_def signal_gpu_def collect_gpu_def take_published_def Let_def builds_fold inbox.keeps_fold_state)
  define st3 where "st3 = take_propagated (on_graph (apply_wakes (min 16 (sl_wakes sl)) []) (take_completions gpu sl st1))"
  have st3: "ended_at k (fst st3)" "inbox_ok ?P ?Q (fst st3)" "do_builds (snd st3) = []"
    using st1 ended_take_completions [OF st1(1,2)]
    by (simp_all add: st3_def builds_take_completions)
  define st4 where "st4 = start_builds (sl_builds sl) st3"
  have st4: "ended_at k (fst st4)" "inbox_ok ?P ?Q (fst st4)" "builds_none k (snd st4)"
    using st3 none_start_builds [of k st3] ended_start_builds [of k st3] by (simp_all add: st4_def builds_none_def)
  define st5 where "st5 = fold dispatch_waiters (do_ready (snd st4)) st4"
  have st5: "ended_at k (fst st5)" "inbox_ok ?P ?Q (fst st5)" "builds_none k (snd st5)"
    using st4 by (simp_all add: st5_def builds_none_def builds_fold inbox.keeps_fold_state)
  have "drain gpu sl g = on_graph (\<lambda>g. let g1 = reclaim_unreferenced_versions (sl_late sl) g in
             g1\<lparr>gr_retirement := drop (sl_retired sl) (gr_retirement g1),
               gr_gpuSignals := gr_gpuSignals g1 @ map fst (do_subscriptions (snd st5))\<rparr>) st5"
    by (simp add: drain_def Let_def st5_def st4_def st3_def st1_def st0_def)
  then show ?thesis using st5 node_of_reclaim_versions [THEN ended_same] by (simp add: abandoned_def builds_none_def Let_def)
qed

end
