(* ===== verification/GraphSelect.thy ===== *)
theory GraphSelect
  imports GraphInv
begin

text \<open>
  What selection means: the newest version on offer, and when a node's dependencies are all there.
\<close>

section \<open>The newest of what is on offer\<close>

definition version_of :: "snapshot \<Rightarrow> nat \<times> nat" where
  "version_of sn = (sn_revision sn, sn_generation sn)"

text \<open>The archived versions of the address and the one its node holds, if they meet the requirement.\<close>

definition offers :: "graph \<Rightarrow> artifact_requirement \<Rightarrow> snapshot \<Rightarrow> bool" where
  "offers g rq sn \<longleftrightarrow>
     reached_milestone (sn_readiness sn) (rq_requiredReadiness rq) \<and> rq_minimumRevision rq \<le> sn_revision sn \<and>
     ((\<exists>v. sk_address v = rq_key rq \<and> gr_versions g v = Some sn) \<or> (\<exists>n. node_of g (rq_key rq) = Some n \<and> sn = make_snapshot n))"

definition not_after :: "nat \<times> nat \<Rightarrow> nat \<times> nat \<Rightarrow> bool" where
  "not_after p q \<longleftrightarrow> p = q \<or> before p q"

lemma before_cases: "p = q \<or> before p q \<or> before q p"
  by (cases p; cases q) (auto simp: before_def)

lemma before_trans: "before p q \<Longrightarrow> before q r \<Longrightarrow> before p r"
  by (auto simp: before_def)

lemma before_asym: "before p q \<Longrightarrow> \<not> before q p"
  by (auto simp: before_def)

lemma not_after_antisym: "not_after p q \<Longrightarrow> not_after q p \<Longrightarrow> p = q"
  unfolding not_after_def using before_asym by metis

lemma find_newest:
  assumes "sorted_wrt (\<lambda>p q. before q p) ps" "\<And>p sn. p \<in> set ps \<Longrightarrow> h p = Some sn \<Longrightarrow> version_of sn = p"
  shows "case List.find Q (List.map_filter h ps) of
      None \<Rightarrow> \<forall>p \<in> set ps. \<forall>sn. h p = Some sn \<longrightarrow> \<not> Q sn
    | Some sn \<Rightarrow> Q sn \<and> h (version_of sn) = Some sn \<and> version_of sn \<in> set ps \<and>
        (\<forall>p \<in> set ps. \<forall>sn'. h p = Some sn' \<longrightarrow> Q sn' \<longrightarrow> not_after p (version_of sn))"
  using assms
proof (induction ps)
  case (Cons p ps)
  show ?case
  proof (cases "h p")
    case None
    then show ?thesis using Cons by (auto simp: map_filter_simps not_after_def split: option.splits)
  next
    case (Some sn)
    have p: "version_of sn = p" using Cons.prems(2) [of p sn] Some by simp
    show ?thesis
    proof (cases "Q sn")
      case True
      then show ?thesis using Some p Cons.prems(1) by (auto simp: map_filter_simps not_after_def)
    next
      case False
      then show ?thesis using Cons Some by (auto simp: map_filter_simps not_after_def split: option.splits)
    qed
  qed
qed (simp add: map_filter_simps)

lemma takeWhile_ge: "sorted_wrt (\<lambda>p q. before q p) ps \<Longrightarrow> takeWhile (\<lambda>p. m \<le> fst p) ps = filter (\<lambda>p. m \<le> fst p) ps"
proof (induction ps)
  case (Cons p ps)
  have "fst q \<le> fst p" if "q \<in> set ps" for q using Cons.prems that by (auto simp: before_def)
  then have "\<not> m \<le> fst p \<Longrightarrow> filter (\<lambda>p. m \<le> fst p) ps = []" by (fastforce simp: filter_empty_conv)
  then show ?case using Cons by auto
qed simp

definition archived_offer :: "graph \<Rightarrow> address \<Rightarrow> nat \<Rightarrow> readiness \<Rightarrow> snapshot \<Rightarrow> bool" where
  "archived_offer g ad minimum required sn \<longleftrightarrow>
     reached_milestone (sn_readiness sn) required \<and> minimum \<le> sn_revision sn \<and> (\<exists>v. sk_address v = ad \<and> gr_versions g v = Some sn)"

lemma newest_ready_spec:
  assumes "archive_ok g"
  shows "case newest_ready g ad minimum required of
      None \<Rightarrow> \<forall>sn. \<not> archived_offer g ad minimum required sn
    | Some sn \<Rightarrow> archived_offer g ad minimum required sn \<and>
        (\<forall>sn'. archived_offer g ad minimum required sn' \<longrightarrow> not_after (version_of sn') (version_of sn))"
proof -
  let ?ps = "filter (\<lambda>p. minimum \<le> fst p) (rev (gr_byAddress g ad))"
  have s: "sorted_wrt (\<lambda>p q. before q p) (rev (gr_byAddress g ad))"
    using assms by (simp add: archive_ok_def sorted_wrt_rev)
  then have t: "takeWhile (\<lambda>p. minimum \<le> fst p) (rev (gr_byAddress g ad)) = ?ps" by (rule takeWhile_ge)
  have filed: "of_version sn v" if "gr_versions g v = Some sn" for v sn using assms that by (simp add: archive_ok_def)
  have own: "version_of sn = p" if "entry_version g ad p = Some sn" for p sn
    using filed [of "\<lparr>sk_address = ad, sk_revision = fst p, sk_generation = snd p\<rparr>" sn] that
    by (simp add: entry_version_def of_version_def snapshot_key_def version_of_def)
  have offer: "archived_offer g ad minimum required sn \<longleftrightarrow>
      reached_milestone (sn_readiness sn) required \<and> (\<exists>p \<in> set ?ps. entry_version g ad p = Some sn)" for sn
  proof
    assume a: "archived_offer g ad minimum required sn"
    then obtain v where v: "sk_address v = ad" "gr_versions g v = Some sn" by (auto simp: archived_offer_def)
    have k: "v = \<lparr>sk_address = ad, sk_revision = sn_revision sn, sk_generation = sn_generation sn\<rparr>"
      using filed [OF v(2)] v(1) by (auto simp: of_version_def snapshot_key_def)
    have "(sk_revision v, sk_generation v) \<in> set (gr_byAddress g (sk_address v))" using assms v(2) unfolding archive_ok_def by blast
    then have "version_of sn \<in> set (gr_byAddress g ad)" "entry_version g ad (version_of sn) = Some sn"
      using v(2) k by (simp_all add: version_of_def entry_version_def)
    then show "reached_milestone (sn_readiness sn) required \<and> (\<exists>p \<in> set ?ps. entry_version g ad p = Some sn)"
      using a by (auto simp: archived_offer_def version_of_def)
  next
    assume b: "reached_milestone (sn_readiness sn) required \<and> (\<exists>p \<in> set ?ps. entry_version g ad p = Some sn)"
    then obtain p where "p \<in> set ?ps" "entry_version g ad p = Some sn" by blast
    moreover from this have "gr_versions g \<lparr>sk_address = ad, sk_revision = fst p, sk_generation = snd p\<rparr> = Some sn" "version_of sn = p"
      using own [of p sn] by (simp_all add: entry_version_def)
    then have "\<exists>v. sk_address v = ad \<and> gr_versions g v = Some sn" by (metis stored_key.select_convs(1))
    ultimately show "archived_offer g ad minimum required sn" using b \<open>version_of sn = p\<close>
      by (auto simp: archived_offer_def version_of_def)
  qed
  have "sorted_wrt (\<lambda>p q. before q p) ?ps" using s by (rule sorted_wrt_filter)
  then have f: "case List.find (\<lambda>sn. reached_milestone (sn_readiness sn) required) (List.map_filter (entry_version g ad) ?ps) of
      None \<Rightarrow> \<forall>p \<in> set ?ps. \<forall>sn. entry_version g ad p = Some sn \<longrightarrow> \<not> reached_milestone (sn_readiness sn) required
    | Some sn \<Rightarrow> reached_milestone (sn_readiness sn) required \<and> entry_version g ad (version_of sn) = Some sn \<and> version_of sn \<in> set ?ps \<and>
        (\<forall>p \<in> set ?ps. \<forall>sn'. entry_version g ad p = Some sn' \<longrightarrow> reached_milestone (sn_readiness sn') required \<longrightarrow> not_after p (version_of sn))"
    by (rule find_newest) (rule own)
  show ?thesis
  proof (cases "newest_ready g ad minimum required")
    case None
    then show ?thesis using f unfolding newest_ready_def Let_def t offer by auto
  next
    case (Some sn)
    then have sn: "reached_milestone (sn_readiness sn) required" "entry_version g ad (version_of sn) = Some sn" "version_of sn \<in> set ?ps"
      "\<And>p sn'. p \<in> set ?ps \<Longrightarrow> entry_version g ad p = Some sn' \<Longrightarrow> reached_milestone (sn_readiness sn') required \<Longrightarrow> not_after p (version_of sn)"
      using f unfolding newest_ready_def Let_def t by auto
    have "archived_offer g ad minimum required sn" unfolding offer using sn(1-3) by blast
    moreover have "not_after (version_of sn') (version_of sn)" if off: "archived_offer g ad minimum required sn'" for sn'
    proof -
      obtain p where "p \<in> set ?ps" "entry_version g ad p = Some sn'" "reached_milestone (sn_readiness sn') required"
        using off unfolding offer by blast
      then show ?thesis using sn(4) own by metis
    qed
    ultimately show ?thesis using Some by simp
  qed
qed

lemma selection_newest:
  assumes "archive_ok g" "\<not> exact_selection rq"
  shows "case select_snapshot g rq of
      None \<Rightarrow> \<forall>sn. \<not> offers g rq sn
    | Some sn \<Rightarrow> offers g rq sn \<and> (\<forall>sn'. offers g rq sn' \<longrightarrow> not_after (version_of sn') (version_of sn))"
proof -
  let ?A = "archived_offer g (rq_key rq) (rq_minimumRevision rq) (rq_requiredReadiness rq)"
  let ?C = "\<lambda>sn. \<exists>n. node_of g (rq_key rq) = Some n \<and> sn = make_snapshot n \<and> reached_milestone (sn_readiness sn) (rq_requiredReadiness rq) \<and>
      rq_minimumRevision rq \<le> sn_revision sn"
  have offers: "offers g rq sn \<longleftrightarrow> ?A sn \<or> ?C sn" for sn by (auto simp: offers_def archived_offer_def)
  have held: "sn_revision (make_snapshot n) = nd_producedRevision n" if "reached_milestone (sn_readiness (make_snapshot n)) r" for n r
    using that by (auto simp: make_snapshot_def reached_milestone_def terminated_def split: if_splits)
  define current where "current = (case node_of g (rq_key rq) of
            None \<Rightarrow> None
          | Some n \<Rightarrow>
              if rq_minimumRevision rq \<le> nd_producedRevision n \<and> reached_milestone (sn_readiness (make_snapshot n)) (rq_requiredReadiness rq)
              then Some (make_snapshot n) else None)"
  have current: "current = Some sn \<longleftrightarrow> ?C sn" for sn
    using held by (auto simp: current_def split: option.splits)
  have spec: "case newest_ready g (rq_key rq) (rq_minimumRevision rq) (rq_requiredReadiness rq) of
      None \<Rightarrow> \<forall>sn. \<not> ?A sn | Some sn \<Rightarrow> ?A sn \<and> (\<forall>sn'. ?A sn' \<longrightarrow> not_after (version_of sn') (version_of sn))"
    by (rule newest_ready_spec [OF assms(1)])
  have sel: "select_snapshot g rq = (case newest_ready g (rq_key rq) (rq_minimumRevision rq) (rq_requiredReadiness rq) of
           None \<Rightarrow> current
         | Some archived \<Rightarrow>
             (case current of
                None \<Rightarrow> Some archived
              | Some sn \<Rightarrow> if before (version_of sn) (version_of archived) then Some archived else current))"
    using assms(2) by (auto simp: select_snapshot_def select_latest_def current_def [symmetric] before_def version_of_def split: option.split)
  have trans: "not_after a c" if "not_after a b" "not_after b c" for a b c
    using that before_trans [of a b c] unfolding not_after_def by blast
  show ?thesis
  proof (cases "newest_ready g (rq_key rq) (rq_minimumRevision rq) (rq_requiredReadiness rq)")
    case None
    then show ?thesis using spec sel by (cases current) (auto simp: offers current [symmetric] not_after_def)
  next
    case (Some a)
    then have a: "?A a" "\<And>sn'. ?A sn' \<Longrightarrow> not_after (version_of sn') (version_of a)" using spec by auto
    show ?thesis
    proof (cases current)
      case None
      then show ?thesis using a Some sel by (auto simp: offers current [symmetric])
    next
      case (Some sn)
      have later: "not_after (version_of a) (version_of sn)" if "\<not> before (version_of sn) (version_of a)"
        using that before_cases [of "version_of a" "version_of sn"] by (auto simp: not_after_def)
      show ?thesis
      proof (cases "before (version_of sn) (version_of a)")
        case True
        then have "select_snapshot g rq = Some a" using sel Some \<open>newest_ready _ _ _ _ = Some a\<close> by simp
        then show ?thesis using a True Some by (auto simp: offers current [symmetric] not_after_def)
      next
        case False
        then have "select_snapshot g rq = Some sn" using sel Some \<open>newest_ready _ _ _ _ = Some a\<close> by simp
        moreover have "not_after (version_of sn') (version_of sn)" if "offers g rq sn'" for sn'
        proof (cases "?A sn'")
          case True
          then show ?thesis using a(2) trans later [OF False] by blast
        next
          case False
          then show ?thesis using that Some by (auto simp: offers current [symmetric] not_after_def)
        qed
        moreover have "offers g rq sn" using Some by (simp add: offers current [symmetric])
        ultimately show ?thesis by simp
      qed
    qed
  qed
qed

section \<open>Retiring what nothing refers to\<close>

text \<open>Taking away a version that is not selected changes no selection.\<close>

lemma selection_stays:
  assumes "archive_ok g" "archive_ok g'" "\<not> exact_selection rq" "\<And>sn. offers g' rq sn \<Longrightarrow> offers g rq sn"
    "\<And>sn. offers g rq sn \<Longrightarrow> \<not> offers g' rq sn \<Longrightarrow> map_option version_of (select_snapshot g rq) \<noteq> Some (version_of sn)"
  shows "map_option version_of (select_snapshot g' rq) = map_option version_of (select_snapshot g rq)"
proof (cases "select_snapshot g rq")
  case None
  then have "\<not> offers g rq sn" for sn using selection_newest [OF assms(1,3)] by simp
  then have "\<not> offers g' rq sn" for sn using assms(4) by blast
  then show ?thesis using None selection_newest [OF assms(2,3)] by (auto split: option.splits)
next
  case (Some sn)
  then have sn: "offers g rq sn" "\<And>sn'. offers g rq sn' \<Longrightarrow> not_after (version_of sn') (version_of sn)"
    using selection_newest [OF assms(1,3)] by auto
  have "offers g' rq sn" using assms(5) [OF sn(1)] Some by auto
  then obtain sn' where sn': "select_snapshot g' rq = Some sn'" "offers g' rq sn'" "not_after (version_of sn) (version_of sn')"
    using selection_newest [OF assms(2,3)] by (auto split: option.splits)
  have "not_after (version_of sn') (version_of sn)" using sn(2) assms(4) sn'(2) by blast
  then show ?thesis using Some sn' not_after_antisym by auto
qed

lemma retire_fields [simp]:
  "gr_versions (retire_version v sn g) = (gr_versions g)(v := None)"
  "gr_pins (retire_version v sn g) = gr_pins g"
  "gr_waiters (retire_version v sn g) = gr_waiters g"
  "gr_reclaim (retire_version v sn g) = gr_reclaim g"
  "node_of (retire_version v sn g) k = node_of g k"
  "lease_live (retire_version v sn g) w = lease_live g w"
  by (simp_all add: retire_version_def drop_expired_lease_def upd_stats_def lease_live_def node_of_def Let_def split: option.split)

lemma retire_offers: "offers (retire_version v sn g) rq sn' \<Longrightarrow> offers g rq sn'"
  by (auto simp: offers_def split: if_splits)

lemma latest_reference: "rq_invalidation rq = LatestVersion \<Longrightarrow> recipe_reference g w rq \<longleftrightarrow>
    rq_key rq = sk_address w \<and> map_option version_of (select_snapshot g rq) = Some (sk_revision w, sk_generation w)"
  by (auto simp: recipe_reference_def version_of_def split: option.split)

lemma retire_reference:
  assumes g: "archive_ok g" and v: "gr_versions g v = Some sn" and free: "\<not> recipe_reference g v rq"
    and w: "sk_address w = rq_key rq"
  shows "recipe_reference (retire_version v sn g) w rq = recipe_reference g w rq"
proof (cases "rq_invalidation rq = LatestVersion")
  case True
  have ex: "\<not> exact_selection rq" using True by (simp add: exact_selection_def)
  have "of_version sn v" using g v unfolding archive_ok_def by blast
  then have sn: "version_of sn = (sk_revision v, sk_generation v)" by (auto simp: of_version_def snapshot_key_def version_of_def)
  have "map_option version_of (select_snapshot (retire_version v sn g) rq) = map_option version_of (select_snapshot g rq)"
  proof (rule selection_stays [OF g archive.keeps_retire [OF g] ex retire_offers])
    fix s
    assume "offers g rq s" "\<not> offers (retire_version v sn g) rq s"
    then have "s = sn" "sk_address v = rq_key rq" using v by (auto simp: offers_def split: if_splits)
    then show "map_option version_of (select_snapshot g rq) \<noteq> Some (version_of s)"
      using free latest_reference [OF True] sn by simp
  qed
  then show ?thesis unfolding latest_reference [OF True] by (rule arg_cong [of _ _ "\<lambda>s. rq_key rq = sk_address w \<and> s = Some (sk_revision w, sk_generation w)"])
qed (simp add: recipe_reference_def)

lemma list_ex_cong_in: "(\<And>x. x \<in> set xs \<Longrightarrow> P x = Q x) \<Longrightarrow> list_ex P xs = list_ex Q xs"
  by (induction xs) auto

lemma retire_referenced:
  assumes g: "archive_ok g" and v: "gr_versions g v = Some sn" and free: "\<not> referenced g v"
  shows "referenced (retire_version v sn g) w = referenced g w"
proof -
  let ?g = "retire_version v sn g"
  have "waiter_referenced ?g w = waiter_referenced g w"
  proof (cases "sk_address v = sk_address w")
    case True
    have no: "\<not> recipe_reference g v rq" if "j \<in> set (gr_waiters g (sk_address w))" "node_of g j = Some n"
      "rq \<in> set (nd_requirements n) \<union> set (nd_requestedRequirements n) \<union> (\<Union>q \<in> set (nd_successors n). set (qv_requirements q))" for j n rq
      using free that True by (auto simp: referenced_def waiter_referenced_def recipe_references_def list_ex_iff)
    have same: "recipe_reference ?g w rq = recipe_reference g w rq"
      if "j \<in> set (gr_waiters g (sk_address w))" "node_of g j = Some n"
      "rq \<in> set (nd_requirements n) \<union> set (nd_requestedRequirements n) \<union> (\<Union>q \<in> set (nd_successors n). set (qv_requirements q))" for j n rq
    proof (cases "rq_key rq = sk_address w")
      case True
      then show ?thesis using retire_reference [OF g v no [OF that]] by simp
    qed (simp add: recipe_reference_def)
    show ?thesis unfolding waiter_referenced_def retire_fields
    proof (rule list_ex_cong_in, goal_cases)
      case (1 j)
      have "recipe_references ?g w rqs = recipe_references g w rqs" if "node_of g j = Some n"
        "set rqs \<subseteq> set (nd_requirements n) \<union> set (nd_requestedRequirements n) \<union> (\<Union>q \<in> set (nd_successors n). set (qv_requirements q))" for n rqs
        unfolding recipe_references_def
      proof (rule list_ex_cong_in)
        fix rq
        assume "rq \<in> set rqs"
        then show "recipe_reference ?g w rq = recipe_reference g w rq" using same [OF 1 that(1), of rq] that(2) by blast
      qed
      then show ?case by (auto split: option.split simp: list_ex_iff)
    qed
  next
    case False
    have "recipe_reference ?g w = recipe_reference g w"
    proof
      fix rq
      show "recipe_reference ?g w rq = recipe_reference g w rq"
    proof (cases "recipe_reference g v rq")
      case True
      then show ?thesis using False by (simp add: recipe_reference_def)
    next
      case no: False
      show ?thesis
      proof (cases "rq_key rq = sk_address w")
        case True
        then show ?thesis using retire_reference [OF g v no] by simp
      qed (simp add: recipe_reference_def)
    qed
    qed
    then show ?thesis by (simp only: waiter_referenced_def recipe_references_def retire_fields)
  qed
  then show ?thesis by (simp add: referenced_def has_exact_dependent_def cursor_referenced_def)
qed

section \<open>A reclamation\<close>

text \<open>What of a graph decides selections and references.\<close>

lemma selection_same:
  assumes "gr_nodes g' = gr_nodes g" "gr_versions g' = gr_versions g" "gr_byAddress g' = gr_byAddress g" "gr_aliases g' = gr_aliases g"
  shows "select_snapshot g' = select_snapshot g"
proof -
  have n: "node_of g' = node_of g" using assms by (simp add: node_of_def fun_eq_iff)
  have e: "entry_version g' = entry_version g" using assms by (simp add: entry_version_def fun_eq_iff)
  have c: "canonical g' = canonical g" using assms by (simp add: canonical_def fun_eq_iff)
  show ?thesis
    by (intro ext) (simp only: select_snapshot_def select_exact_def select_latest_def newest_ready_def newest_of_def n e c assms)
qed

lemma referenced_same:
  assumes "gr_nodes g' = gr_nodes g" "gr_versions g' = gr_versions g" "gr_byAddress g' = gr_byAddress g" "gr_aliases g' = gr_aliases g"
    "gr_pins g' = gr_pins g" "gr_waiters g' = gr_waiters g" "lease_live g' = lease_live g"
  shows "referenced g' w = referenced g w"
proof -
  have n: "node_of g' = node_of g" using assms by (simp add: node_of_def fun_eq_iff)
  have r: "recipe_reference g' w = recipe_reference g w" by (intro ext) (simp only: recipe_reference_def selection_same [OF assms(1-4)])
  show ?thesis
    by (simp only: referenced_def has_exact_dependent_def waiter_referenced_def cursor_referenced_def recipe_references_def n r assms)
qed

lemma referenced_reclaim [simp]: "referenced (g\<lparr>gr_reclaim := vs\<rparr>) w = referenced g w"
  by (rule referenced_same) (simp_all add: lease_live_def fun_eq_iff split: option.split)

lemma referenced_expired [simp]: "referenced (drop_expired_lease v g) w = referenced g w"
  by (rule referenced_same) (auto simp: drop_expired_lease_def lease_live_def fun_eq_iff split: option.splits)

lemma reclaim_one:
  assumes "archive_ok g"
  shows "(\<forall>w. referenced (fst (reclaim_candidate v g)) w = referenced g w) \<and>
    gr_versions (fst (reclaim_candidate v g)) = (gr_versions g)(v := if referenced g v then gr_versions g v else None)"
proof (cases "gr_versions g v")
  case None
  have "gr_versions (drop_expired_lease v g) = gr_versions g" by (simp add: drop_expired_lease_def)
  then show ?thesis using None by (auto simp: reclaim_candidate_def)
next
  case (Some sn)
  then show ?thesis using retire_referenced [OF assms Some] by (auto simp: reclaim_candidate_def)
qed

lemma reclaim_all:
  "archive_ok g \<Longrightarrow> length (gr_reclaim g) \<le> m \<Longrightarrow>
     gr_versions (reclaim_scan (\<lambda>_. False) m g) =
       (\<lambda>v. if v \<in> set (gr_reclaim g) \<and> \<not> referenced g v then None else gr_versions g v)"
proof (induction m arbitrary: g)
  case (Suc m)
  show ?case
  proof (cases "gr_reclaim g")
    case (Cons v vs)
    let ?g = "g\<lparr>gr_reclaim := vs\<rparr>"
    obtain g1 r where c: "reclaim_candidate v ?g = (g1, r)" by fastforce
    have ok: "archive_ok ?g" using Suc.prems(1) by simp
    then have ok1: "archive_ok g1" using c by (auto simp: reclaim_candidate_def split: option.splits if_splits)
    have one: "\<And>w. referenced g1 w = referenced g w"
      "gr_versions g1 = (gr_versions g)(v := if referenced g v then gr_versions g v else None)"
      using reclaim_one [OF ok, of v] c by simp_all
    have "gr_reclaim g1 = vs" using c
      by (auto simp: reclaim_candidate_def drop_expired_lease_def split: option.splits if_splits)
    then show ?thesis using Suc.IH [OF ok1] Suc.prems(2) c Cons one by (auto simp: fun_eq_iff)
  qed (use Suc in simp)
qed simp

end
