(* ===== verification/GraphRun.thy ===== *)
theory GraphRun
  imports GraphEnded GraphSelect
begin

text \<open>
  Runs of the graph: slices of the drain and, between them, what its callers, the producers, the
  submission sets and the lease holders do. \<open>P\<close> and \<open>Q\<close> bound what is posted and what completes.
\<close>

section \<open>Runs\<close>

definition empty_graph :: "kind_policy list \<Rightarrow> (nat \<Rightarrow> nat) \<Rightarrow> graph" where
  "empty_graph policies types =
     \<lparr>gr_nodes = [], gr_versions = (\<lambda>_. None), gr_byAddress = (\<lambda>_. []), gr_aliases = (\<lambda>_. None), gr_pins = (\<lambda>_. None),
      gr_waiters = (\<lambda>_. []), gr_leases = (\<lambda>_. None), gr_live = (\<lambda>_. False), gr_nextToken = 0, gr_nextVersionGeneration = 0,
      gr_reclaim = [], gr_refusals = (\<lambda>_. None), gr_pending = [], gr_wakes = [], gr_ready = [], gr_publishedSignals = [],
      gr_cancellations = [], gr_retirement = [], gr_generations = (\<lambda>_. None), gr_reserved = (\<lambda>_. None),
      gr_signatures = (\<lambda>_. None), gr_suspended = (\<lambda>_. None), gr_satisfied = (\<lambda>_. False), gr_retries = [],
      gr_exactWaiters = (\<lambda>_. []), gr_cancelledAwaits = (\<lambda>_. False), gr_gpuSignals = [], gr_gpuRecovery = [],
      gr_producers = (\<lambda>_. None), gr_typeOf = types, gr_completions = [], gr_postedAwaits = [], gr_postedSuspensions = [],
      gr_posted = [], gr_shuttingDown = False, gr_policies = policies,
      gr_stats = \<lparr>gs_requests = 0, gs_failed = 0, gs_cancelled = 0, gs_cycles = 0, gs_gpuWaiting = 0, gs_reclaimed = 0,
        gs_superseded = 0, gs_coalesced = 0, gs_started = 0, gs_completed = 0, gs_stale = 0, gs_retries = 0\<rparr>,
      gr_stateCounts = (\<lambda>_. 0), gr_outstanding = (\<lambda>_. 0)\<rparr>"

inductive graph_run :: "(posted \<Rightarrow> bool) \<Rightarrow> (completion \<Rightarrow> bool) \<Rightarrow> graph \<Rightarrow> drain_out list \<Rightarrow> graph \<Rightarrow> bool"
  for P Q g where
  start: "graph_run P Q g [] g"
| drains: "graph_run P Q g outs g1 \<Longrightarrow> graph_run P Q g (outs @ [snd (drain gpu sl g1)]) (fst (drain gpu sl g1))"
| requests: "graph_run P Q g outs g1 \<Longrightarrow> (\<And>rc. P (PostedCall rc)) \<Longrightarrow> graph_run P Q g outs (fst (post_request rc g1))"
| intents: "graph_run P Q g outs g1 \<Longrightarrow> (\<And>rc. P (PostedCall rc)) \<Longrightarrow> graph_run P Q g outs (post_intents rcs g1)"
| posts: "graph_run P Q g outs g1 \<Longrightarrow> P p \<Longrightarrow> graph_run P Q g outs (g1\<lparr>gr_posted := gr_posted g1 @ [p]\<rparr>)"
| completes: "graph_run P Q g outs g1 \<Longrightarrow> Q c \<Longrightarrow> graph_run P Q g outs (g1\<lparr>gr_completions := gr_completions g1 @ [c]\<rparr>)"
| awaits: "graph_run P Q g outs g1 \<Longrightarrow> graph_run P Q g outs (g1\<lparr>gr_postedAwaits := gr_postedAwaits g1 @ [a]\<rparr>)"
| suspends: "graph_run P Q g outs g1 \<Longrightarrow> graph_run P Q g outs (g1\<lparr>gr_postedSuspensions := gr_postedSuspensions g1 @ [i]\<rparr>)"
| signals: "graph_run P Q g outs g1 \<Longrightarrow> graph_run P Q g outs (g1\<lparr>gr_gpuSignals := gr_gpuSignals g1 @ [k]\<rparr>)"
| expires: "graph_run P Q g outs g1 \<Longrightarrow> graph_run P Q g outs (drop_token t v g1)"
| registers: "graph_run P Q g outs g1 \<Longrightarrow> graph_run P Q g outs (g1\<lparr>gr_producers := ps\<rparr>)"

lemma archive_ok_empty: "archive_ok (empty_graph policies types)"
  by (simp add: archive_ok_def empty_graph_def)

lemma core_outside [simp]:
  "core (g\<lparr>gr_producers := ps\<rparr>) = core g"
  "core (drop_token t v g) = core g"
  by (simp_all add: core_def drop_token_def)

lemma mint_token_fields [simp]:
  "mint_token g = (g', t) \<Longrightarrow> core g' = core g"
  "mint_token g = (g', t) \<Longrightarrow> node_of g' k = node_of g k"
  by (auto simp: mint_token_def)

lemma archive_ok_inbox [simp]:
  "archive_ok (g\<lparr>gr_posted := ps\<rparr>) = archive_ok g" "archive_ok (g\<lparr>gr_completions := cs\<rparr>) = archive_ok g"
  by (simp_all add: archive_ok_def)

lemma archive_ok_post: "archive_ok g \<Longrightarrow> archive_ok (fst (post_request rc g))"
  by (auto simp: post_request_def Let_def archive.quiet_iff [OF core_pairs(2)] archive.quiet_iff [OF mint_token_fields(1)]
      split: option.split prod.split)

lemmas archive_ok_outside = core_outside [THEN archive.quiet_iff]

lemma archive_ok_run: "graph_run P Q g outs g' \<Longrightarrow> archive_ok g \<Longrightarrow> archive_ok g'"
proof (induction rule: graph_run.induct)
  case (drains outs g1 gpu sl)
  then show ?case using archive.keeps_drain by blast
next
  case (requests outs g1 rc)
  then show ?case using archive_ok_post by blast
next
  case (expires outs g1 t v)
  then show ?case using archive_ok_outside(2) by blast
next
  case (registers outs g1 ps)
  then show ?case using archive_ok_outside(1) by blast
qed (simp_all add: post_intents_def)

lemma abandoned_inbox [simp]:
  "abandoned k (g\<lparr>gr_posted := gr_posted g @ ps\<rparr>) \<longleftrightarrow> abandoned k g \<and> (\<forall>p \<in> set ps. \<not> ends_address k p)"
  "abandoned k (g\<lparr>gr_completions := gr_completions g @ cs\<rparr>) \<longleftrightarrow> abandoned k g \<and> (\<forall>c \<in> set cs. cp_key c \<noteq> k)"
  by (auto simp: abandoned_def inbox_ok_def)

lemma abandoned_core: "core g' = core g \<Longrightarrow> node_of g' k = node_of g k \<Longrightarrow> abandoned k g \<Longrightarrow> abandoned k g'"
  by (simp add: abandoned_def ended_at_def inbox_ok_def core_def)

lemma abandoned_post:
  assumes a: "abandoned k g"
  shows "abandoned k (fst (post_request rc g))"
proof -
  obtain g1 gen where r: "reserve_generation (call_version rc) g = (g1, gen)" by fastforce
  obtain g2 t where m: "mint_token g1 = (g2, t)" by fastforce
  have "abandoned k g2" by (rule abandoned_core [OF _ _ a]) (use r m in simp_all)
  then show ?thesis using a r m by (simp add: post_request_def Let_def)
qed

lemma abandoned_run:
  "graph_run (\<lambda>p. \<not> ends_address k p) (\<lambda>c. cp_key c \<noteq> k) g outs g' \<Longrightarrow> abandoned k g \<Longrightarrow>
     abandoned k g' \<and> (\<forall>out \<in> set outs. builds_none k out)"
proof (induction rule: graph_run.induct)
  case (drains outs g1 gpu sl)
  then show ?case using abandoned_drain [of k g1 gpu sl] by simp
next
  case (requests outs g1 rc)
  show ?case using abandoned_post requests.IH requests.prems by blast
next
  case (intents outs g1 rcs)
  have "abandoned k g1 \<Longrightarrow> abandoned k (post_intents rcs g1)" by (auto simp: post_intents_def)
  then show ?case using intents.IH intents.prems by blast
next
  case (posts outs g1 p)
  show ?case using posts.IH posts.prems posts.hyps by simp
next
  case (completes outs g1 c)
  show ?case using completes.IH completes.prems completes.hyps by simp
next
  case (awaits outs g1 a)
  have "abandoned k g1 \<Longrightarrow> abandoned k (g1\<lparr>gr_postedAwaits := gr_postedAwaits g1 @ [a]\<rparr>)" by (rule abandoned_core) simp_all
  then show ?case using awaits.IH awaits.prems by blast
next
  case (suspends outs g1 i)
  have "abandoned k g1 \<Longrightarrow> abandoned k (g1\<lparr>gr_postedSuspensions := gr_postedSuspensions g1 @ [i]\<rparr>)" by (rule abandoned_core) simp_all
  then show ?case using suspends.IH suspends.prems by blast
next
  case (signals outs g1 j)
  have "abandoned k g1 \<Longrightarrow> abandoned k (g1\<lparr>gr_gpuSignals := gr_gpuSignals g1 @ [j]\<rparr>)" by (rule abandoned_core) simp_all
  then show ?case using signals.IH signals.prems by blast
next
  case (expires outs g1 t v)
  have "abandoned k g1 \<Longrightarrow> abandoned k (drop_token t v g1)" by (rule abandoned_core) (simp_all add: drop_token_def)
  then show ?case using expires.IH expires.prems by blast
next
  case (registers outs g1 ps)
  have "abandoned k g1 \<Longrightarrow> abandoned k (g1\<lparr>gr_producers := ps\<rparr>)" by (rule abandoned_core) (simp_all add: node_of_def)
  then show ?case using registers.IH registers.prems by blast
qed simp_all

end
