(* ===== verification/GraphGates.thy ===== *)
theory GraphGates
  imports GraphOps
begin

text \<open>When a node's dependencies admit its build, and what its build is given.\<close>

definition in_group :: "dependency_policy \<Rightarrow> nat \<Rightarrow> artifact_requirement \<Rightarrow> bool" where
  "in_group policy i rq \<longleftrightarrow> gating rq \<and> rq_policy rq = policy \<and> rq_alternativeGroup rq = i"

text \<open>The reference: every mandatory requirement, and of each group of alternatives at least one.\<close>

definition admitted :: "graph \<Rightarrow> artifact_requirement list \<Rightarrow> bool" where
  "admitted g rqs \<longleftrightarrow>
     (\<forall>rq \<in> set rqs. gating rq \<and> rq_policy rq = AllOf \<longrightarrow> requirement_satisfied g rq) \<and>
     (\<forall>policy \<in> {AnyOf, FallbackAllowed}. \<forall>rq \<in> set rqs. gating rq \<and> rq_policy rq = policy \<longrightarrow>
        (\<exists>alt \<in> set rqs. in_group policy (rq_alternativeGroup rq) alt \<and> requirement_satisfied g alt))"

definition group_ok :: "graph \<Rightarrow> dependency_policy \<Rightarrow> (nat \<times> bool) list \<Rightarrow> artifact_requirement list \<Rightarrow> bool" where
  "group_ok g policy groups rqs \<longleftrightarrow>
     (\<forall>i. (map_of groups i \<noteq> None \<or> (\<exists>rq \<in> set rqs. in_group policy i rq)) \<longrightarrow>
        map_of groups i = Some True \<or> (\<exists>rq \<in> set rqs. in_group policy i rq \<and> requirement_satisfied g rq))"

lemma map_of_record:
  "map_of (record_alternative i s groups) = (map_of groups)(i \<mapsto> (case map_of groups i of None \<Rightarrow> s | Some t \<Rightarrow> t \<or> s))"
  by (induction i s groups rule: record_alternative.induct) (auto simp: fun_eq_iff)

lemma distinct_record: "distinct (map fst groups) \<Longrightarrow> distinct (map fst (record_alternative i s groups))"
proof -
  have "fst ` set (record_alternative i s groups) = insert i (fst ` set groups)" for groups
    by (induction i s groups rule: record_alternative.induct) auto
  then show "distinct (map fst groups) \<Longrightarrow> ?thesis" by (induction i s groups rule: record_alternative.induct) auto
qed

lemma all_groups: "distinct (map fst groups) \<Longrightarrow> (\<forall>(i, s) \<in> set groups. s) \<longleftrightarrow> (\<forall>i. map_of groups i \<noteq> None \<longrightarrow> map_of groups i = Some True)"
proof (induction groups)
  case (Cons p groups)
  obtain i s where p: "p = (i, s)" by (cases p)
  have "map_of groups i = None" using Cons.prems p by (simp add: map_of_eq_None_iff)
  then show ?case using Cons p by (auto split: if_splits)
qed simp

lemma group_ok_record:
  assumes "in_group policy i rq"
  shows "group_ok g policy (record_alternative i (requirement_satisfied g rq) groups) rqs = group_ok g policy groups (rq # rqs)"
proof -
  have other: "in_group policy j rq \<longleftrightarrow> j = i" for j using assms by (auto simp: in_group_def)
  show ?thesis unfolding group_ok_def map_of_record
  proof (rule iff_allI)
    fix j
    show "((((map_of groups)(i \<mapsto> (case map_of groups i of None \<Rightarrow> requirement_satisfied g rq | Some t \<Rightarrow> t \<or> requirement_satisfied g rq))) j \<noteq> None \<or>
          (\<exists>r \<in> set rqs. in_group policy j r)) \<longrightarrow>
        ((map_of groups)(i \<mapsto> (case map_of groups i of None \<Rightarrow> requirement_satisfied g rq | Some t \<Rightarrow> t \<or> requirement_satisfied g rq))) j = Some True \<or>
          (\<exists>r \<in> set rqs. in_group policy j r \<and> requirement_satisfied g r)) =
      ((map_of groups j \<noteq> None \<or> (\<exists>r \<in> set (rq # rqs). in_group policy j r)) \<longrightarrow>
        map_of groups j = Some True \<or> (\<exists>r \<in> set (rq # rqs). in_group policy j r \<and> requirement_satisfied g r))"
      using other by (cases "j = i"; cases "map_of groups i") simp_all
  qed
qed

lemma group_ok_skip: "\<not> in_group policy (rq_alternativeGroup rq) rq \<Longrightarrow> group_ok g policy groups (rq # rqs) = group_ok g policy groups rqs"
  by (auto simp: group_ok_def in_group_def)

lemma gate_scan_spec:
  "distinct (map fst anyGroups) \<Longrightarrow> distinct (map fst fallbackGroups) \<Longrightarrow>
     gate_scan g rqs anyGroups fallbackGroups \<longleftrightarrow>
       (\<forall>rq \<in> set rqs. gating rq \<and> rq_policy rq = AllOf \<longrightarrow> requirement_satisfied g rq) \<and>
       group_ok g AnyOf anyGroups rqs \<and> group_ok g FallbackAllowed fallbackGroups rqs"
proof (induction g rqs anyGroups fallbackGroups rule: gate_scan.induct)
  case (1 g anyGroups fallbackGroups)
  then show ?case by (simp add: all_groups group_ok_def)
next
  case (2 g rq rqs anyGroups fallbackGroups)
  show ?case
  proof (cases "gating rq")
    case False
    then have "\<not> in_group policy i rq" for policy i by (simp add: in_group_def)
    then show ?thesis using 2 False by (simp add: group_ok_skip)
  next
    case True
    show ?thesis
    proof (cases "rq_policy rq")
      case AllOf
      then show ?thesis using 2 True by (auto simp: Let_def group_ok_skip in_group_def)
    next
      case AnyOf
      then have "in_group AnyOf (rq_alternativeGroup rq) rq" "\<not> in_group FallbackAllowed (rq_alternativeGroup rq) rq"
        using True by (simp_all add: in_group_def)
      then show ?thesis using 2 True AnyOf by (simp add: Let_def distinct_record group_ok_record group_ok_skip)
    next
      case Optional
      then show ?thesis using True by (simp add: gating_def)
    next
      case FallbackAllowed
      then have "in_group FallbackAllowed (rq_alternativeGroup rq) rq" "\<not> in_group AnyOf (rq_alternativeGroup rq) rq"
        using True by (simp_all add: in_group_def)
      then show ?thesis using 2 True FallbackAllowed by (simp add: Let_def distinct_record group_ok_record group_ok_skip)
    qed
  qed
qed

lemma admission: "dependencies_satisfied g n \<longleftrightarrow> admitted g (nd_requirements n)"
proof -
  have "group_ok g policy [] rqs \<longleftrightarrow> (\<forall>rq \<in> set rqs. gating rq \<and> rq_policy rq = policy \<longrightarrow>
      (\<exists>alt \<in> set rqs. in_group policy (rq_alternativeGroup rq) alt \<and> requirement_satisfied g alt))" for policy rqs
    by (auto simp: group_ok_def in_group_def)
  then show ?thesis by (simp add: dependencies_satisfied_def gate_scan_spec admitted_def)
qed

text \<open>
  Claim C36. A build is admitted exactly when its dependencies are there: every mandatory gating
  requirement is satisfied, and of each group of alternatives at least one is, whatever the order
  they are listed in; optional requirements and lifetime holds never gate.
\<close>

theorem dependencies_admit: "dependencies_satisfied g n \<longleftrightarrow> admitted g (nd_requirements n)"
  by (rule admission)

end
