(* ===== verification/GraphProps.thy ===== *)
theory GraphProps
  imports GraphRun GraphGates
begin

text \<open>What the graph promises, and where it does not keep it.\<close>

section \<open>Selection and reclamation\<close>

text \<open>
  Claim C37. In every run of the graph the archive is well formed: each archived snapshot is the one
  of the version it is stored under, each address's index lists its versions strictly in the order
  of revision and generation, and a version is indexed exactly when it is archived.
\<close>

theorem archive_well_formed:
  assumes "graph_run P Q (empty_graph policies types) outs g"
  shows "(\<forall>v sn. gr_versions g v = Some sn \<longrightarrow> snapshot_key sn = v) \<and>
    (\<forall>ad. sorted_wrt before (gr_byAddress g ad)) \<and>
    (\<forall>v. gr_versions g v \<noteq> None \<longleftrightarrow> (sk_revision v, sk_generation v) \<in> set (gr_byAddress g (sk_address v)))"
  using archive_ok_run [OF assms archive_ok_empty] by (auto simp: archive_ok_def of_version_def snapshot_key_def)

text \<open>
  Claim C9. In every run of the graph, a requirement that follows an address takes the newest
  version on offer there (by revision, then generation), archived or being held, of those not
  below its minimum that reached its milestone; it takes none only when none is on offer.
\<close>

theorem select_takes_newest:
  assumes "graph_run P Q (empty_graph policies types) outs g" "\<not> exact_selection rq"
  shows "case select_snapshot g rq of
      None \<Rightarrow> \<forall>sn. \<not> offers g rq sn
    | Some sn \<Rightarrow> offers g rq sn \<and> (\<forall>sn'. offers g rq sn' \<longrightarrow> not_after (version_of sn') (version_of sn))"
  by (rule selection_newest [OF archive_ok_run [OF assms(1) archive_ok_empty] assms(2)])

text \<open>
  Claim C10. In every run of the graph, a reclamation that is not cut short retires exactly the
  queued versions that nothing refers to: no exact recipe pin, no live lease, no waiting consumer
  whose recipe names or currently selects it, no desired cursor or successor. Retiring one version
  changes neither the references nor the selections of another.
\<close>

theorem reclaim_retires_unreferenced:
  assumes "graph_run P Q (empty_graph policies types) outs g" "length (gr_reclaim g) \<le> 4096"
  shows "gr_versions (reclaim_unreferenced_versions (\<lambda>_. False) g) =
    (\<lambda>v. if v \<in> set (gr_reclaim g) \<and> \<not> referenced g v then None else gr_versions g v)"
  unfolding reclaim_unreferenced_versions_def by (rule reclaim_all [OF archive_ok_run [OF assms(1) archive_ok_empty] assms(2)])

section \<open>A failed address\<close>

text \<open>A request the graph has no ground to refuse, newer than any before.\<close>

definition newer_request :: "graph \<Rightarrow> request_call \<Rightarrow> bool" where
  "newer_request g rc \<longleftrightarrow>
     \<not> gr_shuttingDown g \<and> (rc_coalescible rc \<longrightarrow> kp_allowCoalescing (kind_policy_of g (ad_kind (rc_key rc)))) \<and>
     (case gr_producers g (ad_kind (rc_key rc)) of
        None \<Rightarrow> True
      | Some p \<Rightarrow> pr_inputType p = None \<or> payload_type g (rc_input rc) = pr_inputType p) \<and>
     (rc_input rc = None \<or> rc_fingerprint rc \<noteq> 0) \<and> gr_signatures g (call_version rc) = None \<and>
     (case node_of g (rc_key rc) of None \<Rightarrow> True | Some n \<Rightarrow> nd_latestRequestedRevision n < rc_desiredRevision rc)"

lemma call_generation_fields:
  "call_generation rc g = (g', c) \<Longrightarrow> gr_signatures g' = gr_signatures g \<and> node_of g' k = node_of g k"
  by (auto simp: call_generation_def reserve_generation_def Let_def split: option.splits if_splits)

lemma newer_accepted:
  assumes "newer_request g rc" "node_of g (rc_key rc) = Some n"
  shows "rr_status (snd (request_internal rc g)) = Accepted"
proof -
  obtain g1 gen created where c: "call_generation rc g = (g1, gen, created)" by (metis prod_cases3)
  let ?k = "rc_key rc"
  have n1: "node_of g1 ?k = Some n" "gr_signatures g1 (call_version rc) = None"
    using call_generation_fields [OF c] assms by (auto simp: newer_request_def)
  have e: "ensure_node ?k g1 = g1" using n1 by (simp add: ensure_node_def)
  have s: "gr_signatures (set_desired ?k True g1) = gr_signatures g1"
    by (simp add: set_desired_def upd_node_def Let_def split: option.split)
  have adm: "rr_status (snd (admit_request rc gen f rqs h)) = Accepted" for f rqs h
    by (simp add: admit_request_def Let_def request_answer_def split: prod.split)
  show ?thesis using assms c e n1 s adm
    by (auto simp: request_internal_def Let_def newer_request_def split: option.splits)
qed

text \<open>
  Claim C38. Once an address's version has failed for good (\<open>terminalFailure\<close>: its build failed, a
  cycle, a lost dependency or its submissions; its build is over and no submissions are
  outstanding), no run of requests, drains, completions of other addresses or anything else but a
  cancellation or release of the address starts a build there, though every newer request for it
  is answered \<open>Accepted\<close>: it becomes a successor of a version that will never hand over. (A version
  that failed for want of a producer is not marked so, and a wake may queue it again.)
\<close>

theorem failed_address_builds_nothing:
  assumes "node_of g k = Some n" "nd_state n = FailedState" "nd_terminalFailure n" "\<not> nd_buildInFlight n"
    "nd_waitingGpuSubmissions n = None" "nd_desiredRevision n \<noteq> 0"
    "\<forall>p \<in> set (gr_posted g). \<not> ends_address k p" "\<forall>c \<in> set (gr_completions g). cp_key c \<noteq> k"
    "graph_run (\<lambda>p. \<not> ends_address k p) (\<lambda>c. cp_key c \<noteq> k) g outs g'"
  shows "(\<forall>out \<in> set outs. \<forall>b \<in> set (do_builds out). bc_key b \<noteq> k) \<and>
    (\<exists>n'. node_of g' k = Some n' \<and> nd_state n' = FailedState) \<and>
    (\<forall>rc. rc_key rc = k \<and> newer_request g' rc \<longrightarrow> rr_status (snd (request_internal rc g')) = Accepted)"
proof -
  have "abandoned k g" using assms(1-8) by (simp add: abandoned_def ended_at_def ended_def inbox_ok_def)
  note run = abandoned_run [OF assms(9) this]
  then obtain n' where "node_of g' k = Some n'" "ended n'" by (auto simp: abandoned_def ended_at_def split: option.splits)
  then show ?thesis using run newer_accepted by (auto simp: builds_none_def ended_def)
qed

section \<open>Failure and dependents\<close>

lemma unbuilt_not_selected:
  assumes "node_of g d = Some n" "nd_producedRevision n = 0" "gr_versions g (active_version n) = None" "gr_aliases g (active_version n) = None"
    "nd_key n = d" "nd_desiredRevision n \<noteq> 0" "nd_versionGeneration n \<noteq> 0"
    "rq = exact_requirement \<lparr>vi_address = d, vi_revision = nd_desiredRevision n, vi_generation = nd_versionGeneration n\<rparr> ready AllOf 0"
  shows "select_snapshot g rq = None"
proof -
  have "requirement_version rq = active_version n" using assms by (simp add: requirement_version_def active_version_def exact_requirement_def)
  then show ?thesis using assms
    by (simp add: select_snapshot_def exact_selection_def select_exact_def canonical_def exact_requirement_def)
qed

lemma unbuilt_blocks:
  assumes "node_of g k = Some m" "\<not> queue_refused m" "nd_requirements m = [rq]" "k \<noteq> d"
    "node_of g d = Some n" "nd_producedRevision n = 0" "gr_versions g (active_version n) = None" "gr_aliases g (active_version n) = None"
    "nd_key n = d" "nd_desiredRevision n \<noteq> 0" "nd_versionGeneration n \<noteq> 0"
    "rq = exact_requirement \<lparr>vi_address = d, vi_revision = nd_desiredRevision n, vi_generation = nd_versionGeneration n\<rparr> ready AllOf 0"
  shows "\<exists>m'. node_of (queue_node k g) k = Some m' \<and> nd_state m' = Blocked"
proof -
  let ?g = "upd_node k (\<lambda>n. n\<lparr>nd_requirements := map (latch_gate g) (nd_requirements n)\<rparr>) g"
  have policy: "rq_policy rq = AllOf" "rq_invalidation rq = ExactSnapshot" using assms(12) by (simp_all add: exact_requirement_def)
  then have l: "latch_ready_gates k g = ?g" "latch_gate g rq = rq"
    using assms(1,3) by (simp_all add: latch_ready_gates_def latches_def latch_gate_def)
  have node: "node_of ?g k = Some (m\<lparr>nd_requirements := [rq]\<rparr>)" using assms(1,3) l(2) by simp
  have "node_of ?g d = Some n" using assms(4,5) by simp
  then have "select_snapshot ?g rq = None" using assms by (intro unbuilt_not_selected [of _ d n]) (simp_all add: upd_node_def)
  then have "\<not> dependencies_satisfied ?g (m\<lparr>nd_requirements := [rq]\<rparr>)" "\<not> list_ex (lost_dependency ?g) [rq]"
    using policy by (simp_all add: dependencies_satisfied_def gating_def requirement_satisfied_def lost_dependency_def Let_def)
  then show ?thesis using assms(1,2) node by (simp add: queue_node_def l(1) Let_def)
qed

lemma stored_fields [simp]:
  "gr_versions (upd_node k f g) = gr_versions g" "gr_versions (upd_stats h g) = gr_versions g" "gr_versions (set_state k s g) = gr_versions g"
  "gr_versions (wake_waiters k g) = gr_versions g" "gr_aliases (upd_node k f g) = gr_aliases g" "gr_aliases (upd_stats h g) = gr_aliases g"
  "gr_aliases (set_state k s g) = gr_aliases g" "gr_aliases (wake_waiters k g) = gr_aliases g"
  by (simp_all add: upd_node_def upd_stats_def set_state_def wake_waiters_def Let_def split: option.split)

lemma failed_completion:
  assumes "node_of g d = Some n" "nd_generation n = cp_generation c" "nd_producedRevision n = 0" "nd_successors n = []"
    "cp_key c = d" "br_outcome (cp_result c) = BuildFailed" "dependencies_still_match g c"
    "g' = fst (apply_completion gpu now c (g, out))"
  shows "node_of g' d = Some (n\<lparr>nd_buildInFlight := False, nd_error := br_error (cp_result c), nd_terminalFailure := True, nd_state := FailedState\<rparr>)"
    "j \<noteq> d \<Longrightarrow> node_of g' j = node_of g j" "gr_versions g' = gr_versions g" "gr_aliases g' = gr_aliases g"
proof -
  let ?g = "set_state d FailedState (upd_node d (\<lambda>n. n\<lparr>nd_error := br_error (cp_result c), nd_terminalFailure := True\<rparr>)
      (upd_stats (\<lambda>s. s\<lparr>gs_completed := gs_completed s + 1\<rparr>) (upd_node d (\<lambda>n. n\<lparr>nd_buildInFlight := False\<rparr>) g)))"
  have "g' = wake_waiters d (upd_stats (\<lambda>s. s\<lparr>gs_failed := gs_failed s + 1\<rparr>) ?g)"
    using assms by (simp add: apply_completion_def apply_failed_def close_version_def on_graph_def add_ready_def
        store_version_def promote_successor_def Let_def)
  then show "node_of g' d = Some (n\<lparr>nd_buildInFlight := False, nd_error := br_error (cp_result c), nd_terminalFailure := True, nd_state := FailedState\<rparr>)"
    "j \<noteq> d \<Longrightarrow> node_of g' j = node_of g j" "gr_versions g' = gr_versions g" "gr_aliases g' = gr_aliases g"
    using assms(1) by simp_all
qed

text \<open>
  Claim C39. When the build of a version that never produced anything fails, the failure is not
  archived (\<open>StoreVersion\<close> skips a node without a produced revision), so a consumer that requires
  exactly that version does not see it: woken by it, the consumer is blocked, and stays so, instead
  of failing with its dependency.
\<close>

theorem unbuilt_failure_strands_dependents:
  assumes "node_of g d = Some n" "nd_key n = d" "nd_generation n = cp_generation c" "nd_producedRevision n = 0" "nd_successors n = []"
    "nd_desiredRevision n \<noteq> 0" "nd_versionGeneration n \<noteq> 0" "gr_versions g (active_version n) = None" "gr_aliases g (active_version n) = None"
    "cp_key c = d" "br_outcome (cp_result c) = BuildFailed" "dependencies_still_match g c"
    "node_of g k = Some m" "k \<noteq> d" "\<not> queue_refused m" "nd_requirements m = [rq]" "nd_requestedRequirements m = [rq]"
    "rq = exact_requirement \<lparr>vi_address = d, vi_revision = nd_desiredRevision n, vi_generation = nd_versionGeneration n\<rparr> ready AllOf 0"
  shows "(case node_of (fst (apply_completion gpu now c (g, out))) d of None \<Rightarrow> False | Some n' \<Rightarrow> nd_state n' = FailedState) \<and>
    (case node_of (wake_waiter d k (fst (apply_completion gpu now c (g, out)))) k of None \<Rightarrow> False | Some m' \<Rightarrow> nd_state m' = Blocked)"
proof -
  obtain g' where g': "g' = fst (apply_completion gpu now c (g, out))" by simp
  note after = failed_completion [OF assms(1,3,4,5,10,11,12) g']
  define n' where "n' = n\<lparr>nd_buildInFlight := False, nd_error := br_error (cp_result c), nd_terminalFailure := True, nd_state := FailedState\<rparr>"
  have n': "node_of g' d = Some n'" "nd_state n' = FailedState" using after(1) by (simp_all add: n'_def)
  have m: "node_of g' k = Some m" using after(2) [OF assms(14)] assms(13) by simp
  have "rq_key rq = d" "rq_invalidation rq = ExactSnapshot" using assms(18) by (simp_all add: exact_requirement_def)
  then have "wake_waiter d k g' = queue_node k g'" using m assms(17) by (simp add: wake_waiter_def Let_def)
  moreover have "\<exists>m'. node_of (queue_node k g') k = Some m' \<and> nd_state m' = Blocked"
    by (rule unbuilt_blocks [OF m assms(15,16,14) n'(1)]) (use assms after(3,4) in \<open>simp_all add: n'_def active_version_def\<close>)
  ultimately show ?thesis using n' unfolding g' [symmetric] by auto
qed

section \<open>Cancellation, twice\<close>

lemma pins_fields [simp]:
  "gr_pins (upd_node k f g) = gr_pins g" "gr_pins (upd_stats h g) = gr_pins g" "gr_pins (set_state k s g) = gr_pins g"
  "gr_pins (set_desired k b g) = gr_pins g" "gr_pins (queue_reclaim vs g) = gr_pins g" "gr_pins (drop_waiter k d g) = gr_pins g"
  "gr_pins (erase_node k g) = gr_pins g"
  by (simp_all add: upd_node_def upd_stats_def set_state_def set_desired_def queue_reclaim_def drop_waiter_def erase_node_def Let_def split: option.split)

lemma pins_drop_waiters [simp]: "gr_pins (fold (drop_waiter k) ds g) = gr_pins g"
  by (induction ds arbitrary: g) simp_all

lemma pins_cancelled:
  assumes "node_of g k = Some n" "nd_successors n = []"
  shows "gr_pins (cancel_locked k g) = gr_pins (adjust_exact_recipe_pins k (nd_coalescibleIntent n) (nd_requirements n) False g)"
  using assms by (simp add: cancel_locked_def remove_waiter_edges_def clear_successors_def Let_def split: option.split)

lemma node_cancelled:
  assumes "node_of g k = Some n" "node_of (cancel_locked k g) k = Some n'"
  shows "nd_requirements n' = nd_requirements n \<and> nd_coalescibleIntent n' = nd_coalescibleIntent n \<and> nd_successors n' = []"
proof -
  have "node_of (remove_waiter_edges k g) k = Some (n\<lparr>nd_installedWaiterKeys := [], nd_completedWaiterEdgesPruned := False\<rparr>)"
    using assms(1) by (simp add: remove_waiter_edges_def Let_def)
  then show ?thesis using assms by (auto simp: cancel_locked_def clear_successors_def Let_def split: option.splits if_splits)
qed

lemma policies_primitives [simp]:
  "gr_policies (upd_node k f g) = gr_policies g" "gr_policies (upd_stats h g) = gr_policies g" "gr_policies (set_state k s g) = gr_policies g"
  "gr_policies (set_desired k b g) = gr_policies g" "gr_policies (queue_reclaim vs g) = gr_policies g" "gr_policies (drop_waiter k d g) = gr_policies g"
  "gr_policies (drop_pin v g) = gr_policies g"
  by (simp_all add: upd_node_def upd_stats_def set_state_def set_desired_def queue_reclaim_def drop_waiter_def drop_pin_def Let_def split: option.split)

lemma policies_fold: "(\<And>x g. gr_policies (f x g) = gr_policies g) \<Longrightarrow> gr_policies (fold f xs g) = gr_policies g"
  by (induction xs arbitrary: g) simp_all

lemma policies_pins [simp]: "gr_policies (adjust_exact_recipe_pins k c rqs False g) = gr_policies g" "gr_policies (unpin_successor k q g) = gr_policies g"
  by (simp_all add: unpin_successor_def adjust_exact_recipe_pins_def policies_fold)

lemma policies_cancelled: "gr_policies (cancel_locked k g) = gr_policies g"
  by (simp add: cancel_locked_def remove_waiter_edges_def clear_successors_def policies_fold Let_def split: option.split)

lemma others_cancelled: "j \<noteq> k \<Longrightarrow> node_of (cancel_locked k g) j = node_of g j"
  by (simp add: cancel_locked_def remove_waiter_edges_def clear_successors_def Let_def split: option.split)

lemma others_released: "j \<noteq> k \<Longrightarrow> node_of (release_locked k g) j = node_of g j"
proof -
  have "map_of (filter (\<lambda>p. fst p \<noteq> k) ns) j = map_of ns j" if "j \<noteq> k" for ns :: "(address \<times> node) list"
    using that by (induction ns) auto
  then show "j \<noteq> k \<Longrightarrow> ?thesis"
    using others_cancelled [of j k g] by (simp add: release_locked_def erase_node_def node_of_def Let_def split: option.split)
qed

lemma pins_released: "gr_pins (release_locked k g) = gr_pins (cancel_locked k g)"
  by (simp add: release_locked_def Let_def split: option.split)

text \<open>
  Claim C40. Cancelling a consumer and then releasing it drops its exact recipe pin twice: both
  remove its waiter edges, and neither forgets the requirements whose pins it dropped. Of two
  consumers of a version, cancelling and releasing the one leaves the other, untouched, with no pin.
\<close>

theorem cancelled_release_unpins_twice:
  assumes "node_of g k = Some n" "nd_requirements n = [rq]" "nd_successors n = []" "pins_exact_recipe g k (nd_coalescibleIntent n) rq"
    "gr_pins g (requirement_version rq) = Some 2" "j \<noteq> k"
  shows "gr_pins (cancel_locked k g) (requirement_version rq) = Some 1 \<and>
    gr_pins (release_locked k (cancel_locked k g)) (requirement_version rq) = None \<and>
    node_of (release_locked k (cancel_locked k g)) j = node_of g j"
proof -
  let ?g = "cancel_locked k g"
  have "node_of ?g k \<noteq> None" using assms(1)
    by (simp add: cancel_locked_def remove_waiter_edges_def clear_successors_def Let_def split: option.split)
  then obtain n' where n': "node_of ?g k = Some n'" by blast
  note same = node_cancelled [OF assms(1) n']
  have p: "pins_exact_recipe ?g k (nd_coalescibleIntent n') rq"
    using assms(4) same by (simp only: pins_exact_recipe_def kind_policy_of_def policies_cancelled simp_thms)
  have one: "gr_pins ?g (requirement_version rq) = Some 1"
    using assms by (simp add: pins_cancelled adjust_exact_recipe_pins_def drop_pin_def)
  have "gr_pins (release_locked k ?g) (requirement_version rq) = None"
    using n' same assms(2) p one by (simp add: pins_released pins_cancelled adjust_exact_recipe_pins_def drop_pin_def)
  then show ?thesis using one assms(6) by (simp add: others_released others_cancelled)
qed

end
