(* ===== verification/GraphFlight.thy ===== *)
theory GraphFlight
  imports GraphRun
begin

text \<open>
  One build of an address at a time: a build in flight stays in flight through every transition but
  a completion of it, also when the address is cancelled, released or requested anew.
\<close>

section \<open>A build in flight\<close>

definition flying :: "address \<Rightarrow> graph \<Rightarrow> bool" where
  "flying k g \<longleftrightarrow> (case node_of g k of None \<Rightarrow> False | Some n \<Rightarrow> nd_buildInFlight n)"

lemma flying_same: "node_of g' k = node_of g k \<Longrightarrow> flying k g' = flying k g"
  by (simp add: flying_def)

lemmas flying_quiet [simp] =
  node_of_fields [THEN flying_same] node_of_primitives [THEN flying_same] node_of_store [THEN flying_same]
  node_of_pins [THEN flying_same] node_of_successor_pins [THEN flying_same] node_of_folds [THEN flying_same]

lemma flying_pairs [simp]:
  "acquire_version_lease v g = (g', t) \<Longrightarrow> flying k g' = flying k g"
  "reserve_generation vk g = (g', m) \<Longrightarrow> flying k g' = flying k g"
  "dependency_snapshots g n = (g', sns) \<Longrightarrow> flying k g' = flying k g"
  by (rule flying_same, simp)+

lemma flying_upd [simp]: "(\<And>n. nd_buildInFlight (f n) = nd_buildInFlight n) \<Longrightarrow> flying k (upd_node j f g) = flying k g"
  by (auto simp: flying_def split: option.splits)

lemma flying_other: "j \<noteq> k \<Longrightarrow> flying k (upd_node j f g) = flying k g"
  by (simp add: flying_def)

lemma flying_state [simp]: "flying k (set_state j s g) = flying k g" "flying k (set_desired j d g) = flying k g"
  by (auto simp: flying_def split: option.splits)

lemma flying_fold: "(\<And>x g. flying k (f x g) = flying k g) \<Longrightarrow> flying k (fold f xs g) = flying k g"
  by (induction xs arbitrary: g) auto

section \<open>Transitions\<close>

lemma flying_fail_cycle [simp]: "flying k (fail_cycle text cycle g) = flying k g"
  by (auto simp: flying_def node_of_fail_cycle split: option.splits)

lemma flying_edges [simp]:
  "flying k (latch_ready_gates j g) = flying k g"
  "flying k (remove_waiter_edges j g) = flying k g"
  "flying k (install_waiter_edges j prepared g) = flying k g"
  "flying k (prune_completed_waiter_edges j g) = flying k g"
  "flying k (clear_successors j g) = flying k g"
  by (simp_all add: latch_ready_gates_def remove_waiter_edges_def install_waiter_edges_def prune_completed_waiter_edges_def
      clear_successors_def Let_def node_of_fold [THEN flying_same] split: option.split)

lemma flying_queue [simp]: "flying k (queue_node j g) = flying k g" "flying k (queue_or_fail j g) = flying k g"
  by (simp_all add: queue_node_def queue_or_fail_def Let_def split: option.split)

lemma flying_promote [simp]: "flying k (fst (promote_successor j g)) = flying k g"
  by (simp add: promote_successor_def succeed_def Let_def split: option.split list.split)

lemma flying_queue_latest [simp]: "flying k (fst (queue_latest_successor j g)) = flying k g"
  by (simp add: queue_latest_successor_def Let_def split: option.split prod.split)

lemma flying_wake [simp]: "flying k (wake_waiter d c g) = flying k g" "flying k (hand_over_version j g) = flying k g"
  by (simp_all add: wake_waiter_def hand_over_version_def Let_def split: option.split)

section \<open>Calls\<close>

lemma flying_cancel [simp]: "flying k (cancel_locked j g) = flying k g"
  by (simp add: cancel_locked_def Let_def split: option.split)

lemma flying_erase: "\<not> flying j g \<Longrightarrow> flying k (erase_node j g) = flying k g"
proof -
  have f: "map_of (filter (\<lambda>p. fst p \<noteq> j) ns) k = (if k = j then None else map_of ns k)" for ns :: "(address \<times> node) list"
    by (induction ns) auto
  show "\<not> flying j g \<Longrightarrow> ?thesis" by (auto simp: erase_node_def flying_def node_of_def f split: option.splits)
qed

lemma flying_release [simp]: "flying k (release_locked j g) = flying k g"
proof (cases "node_of (cancel_locked j g) j")
  case (Some n)
  then have "nd_buildInFlight n = flying j (cancel_locked j g)" by (simp add: flying_def del: flying_cancel)
  then show ?thesis using Some flying_erase [of j "cancel_locked j g" k] by (simp add: release_locked_def Let_def)
qed (simp add: release_locked_def Let_def)

lemma flying_folds: "(\<And>x g. flying k g \<Longrightarrow> flying k (f x g)) \<Longrightarrow> flying k g \<Longrightarrow> flying k (fold f xs g)"
  by (induction xs arbitrary: g) auto

lemma flying_published [simp]: "flying k g \<Longrightarrow> flying k (mark_published_locked v g)"
proof -
  assume g: "flying k g"
  define w where "w = canonical g v"
  define g1 where "g1 = (case gr_versions g w of
      None \<Rightarrow> g
    | Some sn \<Rightarrow>
        if sn_generation sn = sk_generation w \<and> publishable (sn_readiness sn)
        then queue_reclaim [w]
          (if sn_readiness sn \<noteq> Published
           then g\<lparr>gr_versions := (gr_versions g)(w \<mapsto> sn\<lparr>sn_readiness := Published\<rparr>), gr_publishedSignals := gr_publishedSignals g @ [w]\<rparr>
           else g)
        else g)"
  have f: "flying k g1" using g by (simp add: g1_def split: option.split)
  then have "flying k (set_state j s (upd_node j (\<lambda>n. n\<lparr>nd_published := True\<rparr>) g1))" "flying k (upd_node j (\<lambda>n. n\<lparr>nd_published := True\<rparr>) g1)" for j s
    by simp_all
  then show ?thesis
    unfolding mark_published_locked_def Let_def w_def [symmetric] g1_def [symmetric] using f g by (auto split: option.split)
qed

lemma flying_published_revision [simp]: "flying k g \<Longrightarrow> flying k (mark_published_revision_locked j r g)"
  by (simp add: mark_published_revision_locked_def flying_folds Let_def split: option.split)

lemma flying_coalesce [simp]: "flying k (coalesce_successors m j g) = flying k g"
  by (induction m arbitrary: g) (simp_all split: option.split list.split)

lemma flying_successor [simp]:
  "flying k (supersede_active j g) = flying k g"
  "flying k (append_successor rc q g) = flying k g"
  by (simp_all add: supersede_active_def append_successor_def Let_def split: option.split)

lemma flying_queue_successor [simp]: "flying k g \<Longrightarrow> flying k (queue_successor rc gen f rqs t g)"
  by (simp add: queue_successor_def Let_def split: option.split)

lemma flying_install [simp]: "flying k (install_request rc gen f rqs prepared t g) = flying k g"
  by (simp add: install_request_def take_up_def Let_def split: option.split)

lemma flying_place [simp]:
  "flying k (alias_predicted rc gen g) = flying k g"
  "flying k (record_request rc f rqs g) = flying k g"
  "flying k (reject_predicted rc created gen status g) = flying k g"
  by (simp_all add: alias_predicted_def record_request_def reject_predicted_def Let_def split: option.split)

lemma flying_placed [simp]: "flying k g \<Longrightarrow> flying k (place_request rc gen f rqs t g)"
  by (simp add: place_request_def split: option.split)

lemma flying_lease [simp]:
  "lease_request rc gen g = (g', t) \<Longrightarrow> flying k g' = flying k g"
  "call_generation rc g = (g', c) \<Longrightarrow> flying k g' = flying k g"
  by (simp add: lease_request_def) (auto simp: call_generation_def split: option.splits prod.splits if_splits)

lemma flying_admit [simp]:
  "flying k g \<Longrightarrow> flying k (fst (admit_request rc gen f rqs g))"
  "flying k g \<Longrightarrow> flying k (fst (resume_request rc gen created f rqs s n g))"
  by (simp_all add: admit_request_def resume_request_def Let_def split: prod.split)

lemma flying_ensure [simp]: "flying k (ensure_node j g) = flying k g"
  by (auto simp: ensure_node_def flying_def node_of_def map_of_append fresh_node_def split: option.splits if_splits)

lemma flying_branch:
  "flying k (fst a) \<Longrightarrow> flying k (fst b) \<Longrightarrow> flying k (fst (if c then a else b))"
  "flying k (fst a) \<Longrightarrow> (\<And>x. flying k (fst (f x))) \<Longrightarrow> flying k (fst (case opt of None \<Rightarrow> a | Some x \<Rightarrow> f x))"
  by (simp_all split: option.split)

lemma flying_request [simp]: "flying k g \<Longrightarrow> flying k (fst (request_internal rc g))"
proof -
  assume g: "flying k g"
  obtain g1 gen created where c: "call_generation rc g = (g1, gen, created)" by (metis prod_cases3)
  define g2 where "g2 = set_desired (rc_key rc) True (ensure_node (rc_key rc) g1)"
  have g2: "flying k g2" using g flying_lease(2) [OF c] by (simp add: g2_def)
  then have "flying k (fst (resume_request rc gen created f rqs s n g2))" "flying k (reject_predicted rc created gen StaleRevision g2)"
    "flying k (fst (admit_request rc gen f rqs g2))" for f rqs s n
    by simp_all
  then show ?thesis unfolding request_internal_def Let_def c prod.case g2_def [symmetric]
    by (intro flying_branch) (simp_all only: fst_conv g g2)
qed

lemma flying_posted [simp]: "flying k g \<Longrightarrow> flying k (apply_posted p g)"
  by (cases p) (simp_all add: pump_gpu_completions_def flying_folds)

section \<open>The drain\<close>

lemma flying_states [simp]:
  "flying k (fst (on_graph f st)) = flying k (f (fst st))"
  "flying k (fst (add_ready sn st)) = flying k (fst st)"
  "flying k (fst (report_node j st)) = flying k (fst st)"
  "flying k (fst (dispatch sub sn st)) = flying k (fst st)"
  "flying k (fst (take_published m st)) = flying k (fst st)"
  "flying k (fst (take_propagated st)) = flying k (fst st)"
  by (simp_all add: on_graph_def add_ready_def report_node_def dispatch_def take_published_def take_propagated_def Let_def split: option.split)

lemma flying_expose [simp]:
  "flying k (fst (expose j st)) = flying k (fst st)" "flying k (fst (expose_stored j st)) = flying k (fst st)"
  by (simp_all add: expose_def expose_stored_def)

lemma flying_await_gpu [simp]: "flying k (fst (await_gpu j t s a st)) = flying k (fst st)"
  by (simp add: await_gpu_def Let_def)

lemma flying_ready [simp]: "cp_key c \<noteq> k \<Longrightarrow> flying k (fst st) \<Longrightarrow> flying k (fst (apply_ready gpu c n st))"
  by (simp add: apply_ready_def flying_other Let_def split: option.split)

lemma flying_outcomes [simp]:
  "flying k g \<Longrightarrow> flying k (apply_needs c g)" "flying k g \<Longrightarrow> flying k (apply_retry now c g)"
  "flying k (fst st) \<Longrightarrow> flying k (fst (apply_suspended c su n st))"
  "flying k (fst (close_version c s n st)) = flying k (fst st)"
  by (simp_all add: apply_needs_def apply_retry_def apply_suspended_def close_version_def Let_def split: option.split)

lemma flying_completion [simp]: "cp_key c \<noteq> k \<Longrightarrow> flying k (fst st) \<Longrightarrow> flying k (fst (apply_completion gpu now c st))"
  by (simp add: apply_completion_def apply_failed_def apply_cancelled_def flying_other Let_def split: option.split result_outcome.split)

lemma flying_drain_completion [simp]: "cp_key c \<noteq> k \<Longrightarrow> flying k (fst st) \<Longrightarrow> flying k (fst (drain_completion gpu now c st))"
proof -
  have "flying k (erase_undesired j g)" if "flying k g" for j g
    using that flying_erase [of j g k] by (auto simp: erase_undesired_def flying_def split: option.splits)
  then show "cp_key c \<noteq> k \<Longrightarrow> flying k (fst st) \<Longrightarrow> ?thesis" by (simp add: drain_completion_def split: option.split)
qed

lemma flying_gpu [simp]: "flying k (fst st) \<Longrightarrow> flying k (fst (apply_gpu gpu signal st))"
  by (cases signal) (simp add: apply_gpu_def Let_def split: option.split)

lemma flying_retries [simp]: "flying k g \<Longrightarrow> flying k (apply_retries now m g)"
proof (induction m arbitrary: g)
  case (Suc m)
  show ?case
  proof (cases "gr_retries g")
    case (Cons e es)
    then show ?thesis using Suc by (cases "node_of g (re_key e)") (simp_all add: Let_def)
  qed (use Suc in simp)
qed simp

lemma flying_wakes [simp]: "flying k g \<Longrightarrow> flying k (apply_wakes m evaluated g)"
proof (induction m arbitrary: evaluated g)
  case (Suc m)
  show ?case
  proof (cases "gr_wakes g")
    case (Cons w ws)
    then show ?thesis using Suc by (cases w; cases "snd w") (simp_all add: Let_def)
  qed (use Suc in simp)
qed simp

lemma flying_suspension [simp]: "flying k g \<Longrightarrow> flying k (apply_suspension_satisfied i g)"
  by (simp add: apply_suspension_satisfied_def Let_def split: option.split)

lemma node_of_await: "node_of (fst (apply_await a st)) k = node_of (fst st) k"
proof -
  obtain g1 sn where e: "snapshot_exact_locked (pa_version a) (fst st) = (g1, sn)" by fastforce
  then have "node_of g1 k = node_of (fst st) k"
    by (auto simp: snapshot_exact_locked_def Let_def split: option.splits prod.splits)
  then show ?thesis by (simp add: apply_await_def e on_graph_def dispatch_def Let_def)
qed

lemma flying_await [simp]: "flying k (fst (apply_await a st)) = flying k (fst st)"
  by (rule flying_same) (rule node_of_await)

lemma flying_fold_state:
  "(\<And>x st. x \<in> set xs \<Longrightarrow> flying k (fst st) \<Longrightarrow> flying k (fst (f x st))) \<Longrightarrow> flying k (fst st) \<Longrightarrow> flying k (fst (fold f xs st))"
  by (induction xs arbitrary: st) auto

lemma flying_dispatch_waiters [simp]: "flying k (fst st) \<Longrightarrow> flying k (fst (dispatch_waiters sn st))"
  by (simp add: dispatch_waiters_def flying_fold_state Let_def split: prod.split)

section \<open>Builds handed out\<close>

lemma flying_start_build: "flying k (fst st) \<Longrightarrow> flying k (fst (start_build j st))"
proof (cases "j = k")
  case True
  then show "flying k (fst st) \<Longrightarrow> ?thesis" by (auto simp: start_build_def flying_def split: option.splits)
next
  case False
  then show "flying k (fst st) \<Longrightarrow> ?thesis" by (simp add: start_build_def flying_other Let_def split: option.split prod.split)
qed

text \<open>What a slice has handed out so far is in flight, an address once.\<close>

definition flights_ok :: "drain_state \<Rightarrow> bool" where
  "flights_ok st \<longleftrightarrow> (\<forall>b \<in> set (do_builds (snd st)). flying (bc_key b) (fst st)) \<and> distinct (map bc_key (do_builds (snd st)))"

lemma started_once:
  "do_builds (snd (start_build j st)) = do_builds (snd st) \<or>
     (\<exists>b. do_builds (snd (start_build j st)) = do_builds (snd st) @ [b] \<and> bc_key b = j \<and> \<not> flying j (fst st) \<and> flying j (fst (start_build j st)))"
proof (cases "node_of (fst st) j")
  case (Some n0)
  let ?g = "latch_ready_gates j (fst st)"
  obtain n where n: "node_of ?g j = Some n" "nd_buildInFlight n = nd_buildInFlight n0"
  proof -
    have "node_of ?g j = Some (n0\<lparr>nd_requirements := map (latch_gate (fst st)) (nd_requirements n0)\<rparr>)"
      using Some by (simp add: latch_ready_gates_def Let_def node_of_fold)
    then show thesis using that by simp
  qed
  let ?g2 = "upd_stats (\<lambda>s. s\<lparr>gs_started := gs_started s + 1\<rparr>) (set_state j Preparing
       (upd_node j (\<lambda>n. n\<lparr>nd_buildInFlight := True, nd_buildAttempted := True\<rparr>) ?g))"
  obtain g3 sns where d: "dependency_snapshots ?g2 n = (g3, sns)" by fastforce
  have "flying j g3 = flying j ?g2" by (rule flying_pairs(3) [OF d])
  then have "flying j g3" using n(1) by (simp add: flying_def)
  then show ?thesis using Some n d by (auto simp: start_build_def flying_def Let_def)
qed (simp add: start_build_def)

lemma flights_start_build: "flights_ok st \<Longrightarrow> flights_ok (start_build j st)"
  using started_once [of j st] flying_start_build [of _ st j] by (auto simp: flights_ok_def)

lemma flights_fold: "(\<And>x st. flights_ok st \<Longrightarrow> flights_ok (f x st)) \<Longrightarrow> flights_ok st \<Longrightarrow> flights_ok (fold f xs st)"
  by (induction xs arbitrary: st) auto

lemma none_started_flying: "flying k (fst st) \<Longrightarrow> builds_none k (snd st) \<Longrightarrow> builds_none k (snd (start_build j st))"
  using started_once [of j st] by (auto simp: builds_none_def)

lemma none_started_folds: "flying k (fst st) \<Longrightarrow> builds_none k (snd st) \<Longrightarrow> builds_none k (snd (fold start_build js st))"
  by (induction js arbitrary: st) (simp_all add: none_started_flying flying_start_build)

section \<open>A slice\<close>

definition before_builds :: "(nat \<Rightarrow> gpu_state) \<Rightarrow> slice \<Rightarrow> graph \<Rightarrow> drain_state" where
  "before_builds gpu sl g =
     take_propagated (on_graph (apply_wakes (min 16 (sl_wakes sl)) []) (take_completions gpu sl
       (on_graph (apply_retries (sl_now sl) (sl_retries sl)) (signal_gpu gpu sl (take_published (sl_published sl)
         (on_graph (\<lambda>g. apply_posted_intents (apply_posted_suspensions g)) (apply_posted_awaits (g, nothing_out))))))))"

definition after_builds :: "slice \<Rightarrow> drain_state \<Rightarrow> drain_state" where
  "after_builds sl st =
     (let st' = fold dispatch_waiters (do_ready (snd st)) st
      in on_graph (\<lambda>g. let g1 = reclaim_unreferenced_versions (sl_late sl) g in
             g1\<lparr>gr_retirement := drop (sl_retired sl) (gr_retirement g1),
               gr_gpuSignals := gr_gpuSignals g1 @ map fst (do_subscriptions (snd st'))\<rparr>) st')"

lemma drain_stages: "drain gpu sl g = after_builds sl (start_builds (sl_builds sl) (before_builds gpu sl g))"
  by (simp add: drain_def before_builds_def after_builds_def Let_def)

lemma node_of_dispatch_waiters: "node_of (fst (dispatch_waiters sn st)) k = node_of (fst st) k"
proof -
  have "node_of (fst (fold (\<lambda>w. dispatch (ew_subscription w) sn) ws st)) k = node_of (fst st) k" for ws :: "exact_waiter list" and st
    by (induction ws arbitrary: st) (simp_all add: dispatch_def)
  then show ?thesis by (simp add: dispatch_waiters_def Let_def split: prod.split)
qed

lemma node_of_after: "node_of (fst (after_builds sl st)) k = node_of (fst st) k"
proof -
  have "node_of (fst (fold dispatch_waiters sns st)) k = node_of (fst st) k" for sns st
    by (induction sns arbitrary: st) (simp_all add: node_of_dispatch_waiters)
  then show ?thesis by (simp add: after_builds_def on_graph_def Let_def)
qed

lemma after_builds_flights [simp]:
  "flying k (fst (after_builds sl st)) = flying k (fst st)" "do_builds (snd (after_builds sl st)) = do_builds (snd st)"
  by (rule flying_same, rule node_of_after) (simp add: after_builds_def builds_fold Let_def)

lemma builds_before: "do_builds (snd (before_builds gpu sl g)) = []"
  by (simp add: before_builds_def builds_take_completions builds_signal)

lemma flying_before:
  assumes "flying k g" "inbox_ok P (\<lambda>c. cp_key c \<noteq> k) g"
  shows "flying k (fst (before_builds gpu sl g))"
proof -
  let ?Q = "\<lambda>c. cp_key c \<noteq> k"
  have intents: "flying k (apply_posted_intents g)" if "flying k g" for g
    using that by (simp add: apply_posted_intents_def flying_folds Let_def)
  have suspensions: "flying k (apply_posted_suspensions g)" if "flying k g" for g
    using that by (simp add: apply_posted_suspensions_def flying_folds)
  have awaits: "flying k (fst (apply_posted_awaits st))" if "flying k (fst st)" for st
    using that by (simp add: apply_posted_awaits_def flying_fold_state Let_def)
  have gpus: "flying k (fst (signal_gpu gpu sl st))" if "flying k (fst st)" for st
    using that by (simp add: signal_gpu_def collect_gpu_def flying_fold_state Let_def)
  have completions: "flying k (fst (take_completions gpu sl st))" if "flying k (fst st)" "inbox_ok P ?Q (fst st)" for st
  proof -
    have "cp_key c \<noteq> k" if "c \<in> set (take m (gr_completions (fst st)))" for c m
      using \<open>inbox_ok P ?Q (fst st)\<close> in_set_takeD [OF that] by (simp add: inbox_ok_def)
    then show ?thesis using that(1) by (simp add: take_completions_def flying_fold_state Let_def)
  qed
  define st where "st = on_graph (apply_retries (sl_now sl) (sl_retries sl)) (signal_gpu gpu sl (take_published (sl_published sl)
      (on_graph (\<lambda>g. apply_posted_intents (apply_posted_suspensions g)) (apply_posted_awaits (g, nothing_out)))))"
  have "flying k (fst st)" using assms(1) intents suspensions awaits gpus by (simp add: st_def)
  moreover have "inbox_ok P ?Q (fst st)" using assms(2) by (simp add: st_def)
  ultimately show ?thesis using completions [of st] by (simp add: before_builds_def st_def)
qed

lemma flying_drain:
  assumes "flying k g" "inbox_ok P (\<lambda>c. cp_key c \<noteq> k) g"
  shows "flying k (fst (drain gpu sl g)) \<and> builds_none k (snd (drain gpu sl g))"
proof -
  have b: "flying k (fst (before_builds gpu sl g))" by (rule flying_before [OF assms])
  have "flying k (fst (fold start_build js st))" if "flying k (fst st)" for js st
    using that by (simp add: flying_fold_state flying_start_build)
  then have "flying k (fst (start_builds m (before_builds gpu sl g)))" for m using b by (simp add: start_builds_def)
  moreover have "builds_none k (snd (start_builds m (before_builds gpu sl g)))" for m
    unfolding start_builds_def by (rule none_started_folds) (use b in \<open>simp_all add: builds_none_def builds_before\<close>)
  ultimately show ?thesis by (simp add: drain_stages builds_none_def)
qed

lemma drain_flights: "flights_ok (drain gpu sl g)"
proof -
  have "flights_ok (start_builds m (before_builds gpu sl g))" for m
    unfolding start_builds_def by (rule flights_fold [OF flights_start_build]) (simp_all add: flights_ok_def builds_before)
  then show ?thesis by (simp add: drain_stages flights_ok_def)
qed

section \<open>Runs\<close>

definition in_flight :: "address \<Rightarrow> graph \<Rightarrow> bool" where
  "in_flight k g \<longleftrightarrow> flying k g \<and> inbox_ok (\<lambda>_. True) (\<lambda>c. cp_key c \<noteq> k) g"

lemma in_flight_inbox [simp]:
  "in_flight k (g\<lparr>gr_posted := ps\<rparr>) = in_flight k g"
  "in_flight k (g\<lparr>gr_completions := gr_completions g @ cs\<rparr>) \<longleftrightarrow> in_flight k g \<and> (\<forall>c \<in> set cs. cp_key c \<noteq> k)"
  by (auto simp: in_flight_def inbox_ok_def)

lemma in_flight_core: "core g' = core g \<Longrightarrow> node_of g' k = node_of g k \<Longrightarrow> in_flight k g \<Longrightarrow> in_flight k g'"
  by (simp add: in_flight_def flying_def inbox_ok_def core_def)

lemma in_flight_outside:
  "in_flight k g \<Longrightarrow> in_flight k (post_intents rcs g)"
  "in_flight k g \<Longrightarrow> in_flight k (g\<lparr>gr_postedAwaits := as\<rparr>)"
  "in_flight k g \<Longrightarrow> in_flight k (g\<lparr>gr_postedSuspensions := is\<rparr>)"
  "in_flight k g \<Longrightarrow> in_flight k (g\<lparr>gr_gpuSignals := ks\<rparr>)"
  "in_flight k g \<Longrightarrow> in_flight k (drop_token t v g)"
  "in_flight k g \<Longrightarrow> in_flight k (g\<lparr>gr_producers := rs\<rparr>)"
  by (simp add: post_intents_def) (rule in_flight_core; simp add: drop_token_def node_of_def)+

lemma in_flight_post: "in_flight k g \<Longrightarrow> in_flight k (fst (post_request rc g))"
proof -
  assume f: "in_flight k g"
  obtain g1 gen where r: "reserve_generation (call_version rc) g = (g1, gen)" by fastforce
  obtain g2 t where m: "mint_token g1 = (g2, t)" by fastforce
  have "in_flight k g2" by (rule in_flight_core [OF _ _ f]) (use r m in simp_all)
  then show ?thesis using f r m by (simp add: post_request_def Let_def)
qed

lemma in_flight_run:
  "graph_run P (\<lambda>c. cp_key c \<noteq> k) g outs g' \<Longrightarrow> in_flight k g \<Longrightarrow> in_flight k g' \<and> (\<forall>out \<in> set outs. builds_none k out)"
proof (induction rule: graph_run.induct)
  case (drains outs g1 gpu sl)
  have f: "in_flight k g1" using drains.IH drains.prems by blast
  then have "inbox_ok (\<lambda>_. True) (\<lambda>c. cp_key c \<noteq> k) (fst (drain gpu sl g1))"
    using inbox.keeps_drain by (simp add: in_flight_def)
  then show ?case using f drains.IH drains.prems flying_drain [of k g1 "\<lambda>_. True"] by (auto simp: in_flight_def)
next
  case (requests outs g1 rc)
  show ?case using in_flight_post requests.IH requests.prems by blast
next
  case (completes outs g1 c)
  show ?case using completes.IH completes.prems completes.hyps by simp
next
  case (posts outs g1 p)
  show ?case using posts.IH posts.prems by simp
next
  case (intents outs g1 rcs)
  show ?case using intents.IH intents.prems in_flight_outside(1) by blast
next
  case (awaits outs g1 a)
  show ?case using awaits.IH awaits.prems in_flight_outside(2) by blast
next
  case (suspends outs g1 i)
  show ?case using suspends.IH suspends.prems in_flight_outside(3) by blast
next
  case (signals outs g1 j)
  show ?case using signals.IH signals.prems in_flight_outside(4) by blast
next
  case (expires outs g1 t v)
  show ?case using expires.IH expires.prems in_flight_outside(5) by blast
next
  case (registers outs g1 ps)
  show ?case using registers.IH registers.prems in_flight_outside(6) by blast
qed simp

text \<open>
  Claim C6. A slice hands out builds of different addresses, and once it has handed out one of an
  address no run hands out another (whatever is requested, cancelled, released, invalidated or
  completed elsewhere) until a completion of that address comes in; its node stays, its build in
  flight.
\<close>

theorem one_build_at_a_time:
  assumes "b \<in> set (do_builds (snd (drain gpu sl g)))" "k = bc_key b"
    "\<forall>c \<in> set (gr_completions (fst (drain gpu sl g))). cp_key c \<noteq> k"
    "graph_run P (\<lambda>c. cp_key c \<noteq> k) (fst (drain gpu sl g)) outs g'"
  shows "distinct (map bc_key (do_builds (snd (drain gpu sl g)))) \<and> (\<forall>out \<in> set outs. \<forall>b' \<in> set (do_builds out). bc_key b' \<noteq> k) \<and>
    (case node_of g' k of None \<Rightarrow> False | Some n \<Rightarrow> nd_buildInFlight n)"
proof -
  have f: "flights_ok (drain gpu sl g)" by (rule drain_flights)
  then have "in_flight k (fst (drain gpu sl g))" using assms(1-3) by (simp add: flights_ok_def in_flight_def inbox_ok_def)
  from in_flight_run [OF assms(4) this] show ?thesis using f by (simp add: flights_ok_def in_flight_def flying_def builds_none_def)
qed

end
