(* ===== verification/GraphHanded.thy ===== *)
theory GraphHanded
  imports GraphFlight GraphGates
begin

text \<open>What a build is handed: for each requirement that gates it, the version selection gives, leased.\<close>

section \<open>Leases\<close>

text \<open>A snapshot handed out for a requirement: the one selection gives, with a live lease of its version.\<close>

definition handed :: "graph \<Rightarrow> snapshot list \<Rightarrow> artifact_requirement \<Rightarrow> bool" where
  "handed g sns rq \<longleftrightarrow>
     (case select_snapshot g rq of
        None \<Rightarrow> False
      | Some sn \<Rightarrow> reached_milestone (sn_readiness sn) (rq_requiredReadiness rq) \<and>
          (\<exists>t. sn\<lparr>sn_lease := Some t\<rparr> \<in> set sns \<and> gr_leases g (snapshot_key sn) = Some t \<and> gr_live g t))"

definition keeps_leases :: "graph \<Rightarrow> graph \<Rightarrow> bool" where
  "keeps_leases g g' \<longleftrightarrow> (\<forall>v t. gr_leases g v = Some t \<and> gr_live g t \<longrightarrow> gr_leases g' v = Some t \<and> gr_live g' t)"

lemma acquired:
  assumes "acquire_version_lease v g = (g1, t)"
  shows "select_snapshot g1 = select_snapshot g" "gr_leases g1 v = Some t" "gr_live g1 t" "keeps_leases g g1"
proof -
  show "select_snapshot g1 = select_snapshot g"
    by (rule selection_same) (use assms in \<open>auto simp: acquire_version_lease_def Let_def split: if_splits\<close>)
  show "gr_leases g1 v = Some t" "gr_live g1 t" "keeps_leases g g1"
    using assms by (auto simp: acquire_version_lease_def keeps_leases_def lease_live_def Let_def split: if_splits option.splits)
qed

lemma satisfied_same: "select_snapshot g1 = select_snapshot g \<Longrightarrow> requirement_satisfied g1 rq = requirement_satisfied g rq"
  by (simp add: requirement_satisfied_def)

lemma handed_more: "handed g sns rq \<Longrightarrow> handed g (sn # sns) rq"
  by (auto simp: handed_def split: option.splits)

lemma keeps_leases_trans: "keeps_leases g g1 \<Longrightarrow> keeps_leases g1 g' \<Longrightarrow> keeps_leases g g'"
  unfolding keeps_leases_def by blast

definition same_group :: "artifact_requirement \<Rightarrow> artifact_requirement \<Rightarrow> bool" where
  "same_group rq alt \<longleftrightarrow> rq_policy alt = rq_policy rq \<and> rq_alternativeGroup alt = rq_alternativeGroup rq"

definition served :: "graph \<Rightarrow> snapshot list \<Rightarrow> artifact_requirement list \<Rightarrow> artifact_requirement \<Rightarrow> bool" where
  "served g sns rqs rq \<longleftrightarrow> (if alternative rq then \<exists>alt \<in> set rqs. same_group rq alt \<and> handed g sns alt else handed g sns rq)"

lemma served_mono: "served g sns rqs rq \<Longrightarrow> served g (sn # sns) (rq' # rqs) rq"
  by (auto simp: served_def handed_more split: if_splits)

lemma scan_hands:
  "dependency_scan rqs groups g = (g', sns) \<Longrightarrow>
     select_snapshot g' = select_snapshot g \<and> keeps_leases g g' \<and>
     (\<forall>rq \<in> set rqs. requirement_satisfied g rq \<longrightarrow>
        served g' sns rqs rq \<or> (alternative rq \<and> (rq_policy rq, rq_alternativeGroup rq) \<in> set groups))"
proof (induction rqs arbitrary: groups g g' sns)
  case Nil
  then show ?case by (simp add: keeps_leases_def)
next
  case (Cons rq rqs)
  let ?i = "(rq_policy rq, rq_alternativeGroup rq)"
  have skip: ?case
    if d: "dependency_scan rqs groups g = (g', sns)" and n: "requirement_satisfied g rq \<Longrightarrow> alternative rq \<and> ?i \<in> set groups"
  proof -
    note ih = Cons.IH [OF d]
    have "served g' sns (rq # rqs) r" if "served g' sns rqs r" for r using that by (auto simp: served_def)
    then show ?thesis using ih n by auto
  qed
  show ?case
  proof (cases "alternative rq \<and> ?i \<in> set groups")
    case True
    then show ?thesis using skip Cons.prems by (simp add: Let_def)
  next
    case first: False
    show ?thesis
    proof (cases "requirement_satisfied g rq")
      case False
      then have "dependency_scan rqs groups g = (g', sns)"
        using Cons.prems first by (auto simp: requirement_satisfied_def Let_def split: option.splits if_splits)
      then show ?thesis using skip False by blast
    next
      case True
      then obtain sn where sn: "select_snapshot g rq = Some sn" "reached_milestone (sn_readiness sn) (rq_requiredReadiness rq)"
        by (auto simp: requirement_satisfied_def split: option.splits)
      obtain g1 t where a: "acquire_version_lease (snapshot_key sn) g = (g1, t)" by fastforce
      let ?groups = "if alternative rq then ?i # groups else groups"
      obtain rest where d: "dependency_scan rqs ?groups g1 = (g', rest)" "sns = sn\<lparr>sn_lease := Some t\<rparr> # rest"
        using Cons.prems first sn a by (auto simp: snapshot_key_def Let_def split: prod.splits)
      note ih = Cons.IH [OF d(1)] and ac = acquired [OF a]
      have same: "select_snapshot g' = select_snapshot g" using ih ac(1) by simp
      have kept: "keeps_leases g g'" using keeps_leases_trans [OF ac(4)] ih by blast
      have h: "handed g' sns rq" using sn same ih ac(2,3) d(2) by (auto simp: handed_def keeps_leases_def)
      have mine: "served g' sns (rq # rqs) r" if "same_group rq r" "alternative r" for r
        using h that by (auto simp: served_def same_group_def)
      have "served g' sns (rq # rqs) r \<or> (alternative r \<and> (rq_policy r, rq_alternativeGroup r) \<in> set groups)"
        if "r \<in> set rqs" "requirement_satisfied g r" for r
      proof -
        have "requirement_satisfied g1 r" using that(2) satisfied_same [OF ac(1)] by simp
        then have "served g' rest rqs r \<or> (alternative r \<and> (rq_policy r, rq_alternativeGroup r) \<in> set ?groups)" using ih that(1) by blast
        then show ?thesis using served_mono [of g' rest rqs r "sn\<lparr>sn_lease := Some t\<rparr>" rq] mine [of r]
          by (auto simp: d(2) same_group_def split: if_splits)
      qed
      moreover have "served g' sns (rq # rqs) rq" using h by (auto simp: served_def same_group_def)
      ultimately show ?thesis using same kept by auto
    qed
  qed
qed

section \<open>A build's start\<close>

lemma select_elsewhere:
  assumes "gr_versions g' = gr_versions g" "gr_byAddress g' = gr_byAddress g" "gr_aliases g' = gr_aliases g"
    "node_of g' (rq_key rq) = node_of g (rq_key rq)"
  shows "select_snapshot g' rq = select_snapshot g rq"
proof -
  have e: "entry_version g' = entry_version g" using assms by (simp add: entry_version_def fun_eq_iff)
  have c: "canonical g' = canonical g" using assms by (simp add: canonical_def fun_eq_iff)
  show ?thesis by (simp only: select_snapshot_def select_exact_def select_latest_def newest_ready_def newest_of_def e c assms)
qed

text \<open>A node that turns from queued to preparing satisfies what it satisfied.\<close>

lemma satisfied_prepared:
  assumes "gr_versions g' = gr_versions g" "gr_byAddress g' = gr_byAddress g" "gr_aliases g' = gr_aliases g"
    "node_of g k = Some m" "nd_state m = Queued"
    "node_of g' k = Some (m\<lparr>nd_buildInFlight := True, nd_buildAttempted := True, nd_state := Preparing\<rparr>)"
    "\<And>j. j \<noteq> k \<Longrightarrow> node_of g' j = node_of g j" "requirement_satisfied g rq"
  shows "requirement_satisfied g' rq"
proof (cases "rq_key rq = k")
  case False
  then show ?thesis using assms(8) select_elsewhere [OF assms(1-3)] assms(7) by (simp add: requirement_satisfied_def)
next
  case True
  let ?m' = "m\<lparr>nd_buildInFlight := True, nd_buildAttempted := True, nd_state := Preparing\<rparr>"
  have e: "entry_version g' = entry_version g" using assms by (simp add: entry_version_def fun_eq_iff)
  have c: "canonical g' = canonical g" using assms by (simp add: canonical_def fun_eq_iff)
  have nw: "newest_of g' = newest_of g" "newest_ready g' = newest_ready g"
    by (simp_all add: fun_eq_iff newest_of_def newest_ready_def e assms(2))
  have r: "reached_milestone Queued x \<Longrightarrow> reached_milestone Preparing x" for x
    by (cases x) (auto simp: reached_milestone_def terminated_def)
  have ready: "reached_milestone (sn_readiness sn) x" if "newest_ready g ad i x = Some sn" for ad i x sn
    using that by (auto simp: newest_ready_def Let_def find_Some_iff)
  show ?thesis
  proof (cases "exact_selection rq")
    case ex: True
    show ?thesis using assms(8)
      by (simp add: requirement_satisfied_def select_snapshot_def ex select_exact_def nw c assms(1,4-6) True make_snapshot_def
          split: option.splits if_splits) (auto dest: r)
  next
    case False
    show ?thesis
    proof (cases "newest_ready g k (rq_minimumRevision rq) (rq_requiredReadiness rq)")
      case None
      then show ?thesis using assms(8)
        by (auto simp: requirement_satisfied_def select_snapshot_def False select_latest_def nw assms(4-6) True make_snapshot_def
            dest: r split: if_splits)
    next
      case (Some sn)
      then show ?thesis using ready [OF Some]
        by (auto simp: requirement_satisfied_def select_snapshot_def False select_latest_def nw assms(4-6) True Let_def
            split: if_splits option.splits)
    qed
  qed
qed

text \<open>The graph and the node when the build is admitted, and what it is handed.\<close>

lemma started_build:
  assumes "do_builds (snd (start_build k (g, out))) = do_builds out @ [b]" "node_of (fst (start_build k (g, out))) k = Some n"
  shows "bc_key b = k \<and> bc_revision b = nd_desiredRevision n \<and>
    (\<forall>rq \<in> set (nd_requirements n). gating rq \<longrightarrow> served (fst (start_build k (g, out))) (bc_dependencies b) (nd_requirements n) rq)"
proof -
  let ?g = "latch_ready_gates k g"
  obtain n0 where n0: "node_of g k = Some n0" "nd_state n0 = Queued" "\<not> nd_buildInFlight n0"
    using assms(1) by (auto simp: start_build_def split: option.splits if_splits)
  obtain m where m: "node_of ?g k = Some m" "dependencies_satisfied ?g m"
    using assms(1) n0 by (auto simp: start_build_def Let_def report_node_def add_ready_def split: option.splits if_splits)
  let ?g2 = "upd_stats (\<lambda>s. s\<lparr>gs_started := gs_started s + 1\<rparr>) (set_state k Preparing
       (upd_node k (\<lambda>n. n\<lparr>nd_buildInFlight := True, nd_buildAttempted := True\<rparr>) ?g))"
  obtain g3 sns where d: "dependency_snapshots ?g2 m = (g3, sns)" by fastforce
  have started: "fst (start_build k (g, out)) = g3"
      "b = \<lparr>bc_key = k, bc_revision = nd_desiredRevision m, bc_generation = nd_generation m, bc_dependencies = sns,
         bc_input = nd_input m, bc_checkpoint = nd_checkpoint m, bc_continuation = nd_buildAttempted m\<rparr>"
    using assms(1) n0 m d by (auto simp: start_build_def Let_def split: option.splits if_splits)
  have same: "nd_requirements n = nd_requirements m" "nd_desiredRevision n = nd_desiredRevision m"
    using assms(2) m(1) node_of_snapshots [OF d, of k] by (auto simp: started(1))
  have "nd_state m = Queued" using m(1) n0 by (auto simp: latch_ready_gates_def Let_def node_of_fold)
  then have sat: "requirement_satisfied ?g rq \<Longrightarrow> requirement_satisfied ?g2 rq" for rq
    using m(1) by (intro satisfied_prepared [of ?g2 ?g k m rq])
      (simp_all, simp_all add: upd_stats_def upd_node_def set_state_def Let_def split: option.split)
  have scan: "requirement_satisfied ?g2 rq \<longrightarrow> served g3 sns (nd_requirements m) rq" if "rq \<in> set (nd_requirements m)" for rq
    using scan_hands [of "nd_requirements m" "[]" ?g2 g3 sns] d that by (auto simp: dependency_snapshots_def)
  have adm: "admitted ?g (nd_requirements m)" using m(2) admission by blast
  have "served g3 sns (nd_requirements m) rq" if "rq \<in> set (nd_requirements m)" "gating rq" for rq
  proof (cases "alternative rq")
    case True
    then have "rq_policy rq \<in> {AnyOf, FallbackAllowed}" by (simp add: alternative_def)
    then have "\<exists>alt \<in> set (nd_requirements m). in_group (rq_policy rq) (rq_alternativeGroup rq) alt \<and> requirement_satisfied ?g alt"
      using adm that unfolding admitted_def by blast
    then obtain alt where alt: "alt \<in> set (nd_requirements m)" "in_group (rq_policy rq) (rq_alternativeGroup rq) alt" "requirement_satisfied ?g alt"
      by blast
    then have "served g3 sns (nd_requirements m) alt" using scan sat by blast
    then show ?thesis using alt(2) True by (auto simp: served_def in_group_def alternative_def same_group_def)
  next
    case False
    then have "rq_policy rq = AllOf" using that(2) by (cases "rq_policy rq") (auto simp: alternative_def gating_def)
    then show ?thesis using adm that scan sat by (auto simp: admitted_def)
  qed
  then show ?thesis using started same by simp
qed

text \<open>
  Claim C7. A build is started with everything it waits for: for each gating requirement of its
  recipe, or one of its group of alternatives, it is handed the snapshot that selection gives, at
  its milestone, with the lease token that is registered for exactly that version and is live. So
  the version counts as referenced, and no reclamation takes it away, for as long as that token
  lives.
\<close>

theorem builds_get_their_dependencies:
  assumes "do_builds (snd (start_build k (g, out))) = do_builds out @ [b]" "node_of (fst (start_build k (g, out))) k = Some n"
    "rq \<in> set (nd_requirements n)" "gating rq"
  shows "\<exists>alt \<in> set (nd_requirements n). (if alternative rq then same_group rq alt else alt = rq) \<and>
    (\<exists>sn t. select_snapshot (fst (start_build k (g, out))) alt = Some sn \<and> reached_milestone (sn_readiness sn) (rq_requiredReadiness alt) \<and>
       sn\<lparr>sn_lease := Some t\<rparr> \<in> set (bc_dependencies b) \<and>
       gr_leases (fst (start_build k (g, out))) (snapshot_key sn) = Some t \<and> gr_live (fst (start_build k (g, out))) t \<and>
       referenced (fst (start_build k (g, out))) (snapshot_key sn))"
proof -
  let ?g = "fst (start_build k (g, out))"
  have "served ?g (bc_dependencies b) (nd_requirements n) rq" using started_build [OF assms(1,2)] assms(3,4) by blast
  then obtain alt where alt: "alt \<in> set (nd_requirements n)" "if alternative rq then same_group rq alt else alt = rq"
      "handed ?g (bc_dependencies b) alt"
    using assms(3) by (auto simp: served_def split: if_splits)
  then obtain sn t where sn: "select_snapshot ?g alt = Some sn" "reached_milestone (sn_readiness sn) (rq_requiredReadiness alt)"
      "sn\<lparr>sn_lease := Some t\<rparr> \<in> set (bc_dependencies b)" "gr_leases ?g (snapshot_key sn) = Some t" "gr_live ?g t"
    by (auto simp: handed_def split: option.splits)
  then have "referenced ?g (snapshot_key sn)" by (simp add: referenced_def lease_live_def)
  then show ?thesis using alt(1,2) sn by blast
qed

end
