(* ===== verification/GraphDemo.thy ===== *)
theory GraphDemo
  imports GraphProps GraphHanded
begin

text \<open>
  Small runs of the graph, at which the properties are applied: an artifact requested, built,
  released and reclaimed; one whose build fails; consumers of it; and two artifacts that require
  each other.
\<close>

section \<open>One artifact\<close>

definition demo_address :: address where
  "demo_address = \<lparr>ad_kind = 0, ad_primaryID = 1, ad_variantID = 0\<rparr>"

definition demo_empty :: graph where
  "demo_empty = (empty_graph [] (\<lambda>_. 0))\<lparr>gr_producers := (\<lambda>_. Some \<lparr>pr_callable = True, pr_inputType = None, pr_outputType = None\<rparr>)\<rparr>"

definition demo_request :: request_call where
  "demo_request = \<lparr>rc_key = demo_address, rc_desiredRevision = 3, rc_requirements = [], rc_input = None, rc_fingerprint = 7,
     rc_coalescible = False, rc_generation = 0, rc_lease = None\<rparr>"

definition demo_slice :: slice where
  "demo_slice = \<lparr>sl_now = 0, sl_signals = 0, sl_recoveries = 0, sl_published = 0, sl_completions = 1, sl_retries = 0, sl_wakes = 1,
     sl_builds = 1, sl_late = (\<lambda>_. False), sl_retired = 0\<rparr>"

definition demo_completion :: completion where
  "demo_completion = \<lparr>cp_key = demo_address, cp_revision = 3, cp_generation = 1, cp_dependencies = [],
     cp_result = \<lparr>br_outcome = BuildReady, br_payload = Some 5, br_checkpoint = None, br_requirements = [], br_gpuSubmissions = None,
       br_retryDelay = 0, br_suspension = None, br_error = [], br_action = False\<rparr>, cp_gpuSubmitted = False, cp_gpuComplete = False\<rparr>"

definition demo_gpu :: "nat \<Rightarrow> gpu_state" where
  "demo_gpu submissions = \<lparr>gu_submitted = False, gu_complete = False, gu_failed = False, gu_authoritative = True\<rparr>"

definition demo_requested :: graph where
  "demo_requested = fst (post_request demo_request demo_empty)"

definition demo_building :: graph where
  "demo_building = fst (drain demo_gpu demo_slice demo_requested)"

definition demo_drained :: "completion \<Rightarrow> graph" where
  "demo_drained c = fst (drain demo_gpu demo_slice (demo_building\<lparr>gr_completions := [c]\<rparr>))"

definition demo_released :: graph where
  "demo_released = (let g = demo_drained demo_completion in
     fst (drain demo_gpu demo_slice (g\<lparr>gr_posted := [PostedRelease [demo_address]]\<rparr>)))"

definition demo_stored :: stored_key where
  "demo_stored = \<lparr>sk_address = demo_address, sk_revision = 3, sk_generation = 1\<rparr>"

definition demo_expired :: graph where
  "demo_expired = drop_token 0 demo_stored demo_released"

lemma demo_prefix: "\<exists>outs. graph_run (\<lambda>_. True) (\<lambda>_. True) (empty_graph [] (\<lambda>_. 0)) outs (demo_drained demo_completion)"
proof -
  let ?run = "graph_run (\<lambda>_. True) (\<lambda>_. True) (empty_graph [] (\<lambda>_. 0))"
  have "?run [] demo_empty" unfolding demo_empty_def by (intro graph_run.registers graph_run.start)
  then have "?run [] demo_requested" unfolding demo_requested_def by (rule graph_run.requests) simp
  then have "\<exists>outs. ?run outs demo_building" unfolding demo_building_def by (blast intro: graph_run.drains)
  moreover have "gr_completions demo_building = []" by code_simp
  ultimately have "\<exists>outs. ?run outs (demo_building\<lparr>gr_completions := [demo_completion]\<rparr>)"
    using graph_run.completes [of "\<lambda>_. True" "\<lambda>_. True" _ _ demo_building demo_completion] by fastforce
  then show ?thesis unfolding demo_drained_def by (blast intro: graph_run.drains)
qed

lemma demo_reaches: "\<exists>outs. graph_run (\<lambda>_. True) (\<lambda>_. True) (empty_graph [] (\<lambda>_. 0)) outs demo_expired"
proof -
  have "gr_posted (demo_drained demo_completion) = []" by code_simp
  then show ?thesis
    using demo_prefix graph_run.posts [of "\<lambda>_. True" "\<lambda>_. True" _ _ "demo_drained demo_completion" "PostedRelease [demo_address]"]
    unfolding demo_expired_def demo_released_def Let_def by (fastforce intro: graph_run.drains graph_run.expires)
qed

theorem archive_well_formed_witness:
  "gr_versions demo_expired demo_stored \<noteq> None \<and> (3, 1) \<in> set (gr_byAddress demo_expired demo_address)"
proof -
  obtain outs where r: "graph_run (\<lambda>_. True) (\<lambda>_. True) (empty_graph [] (\<lambda>_. 0)) outs demo_expired" using demo_reaches by blast
  have v: "gr_versions demo_expired demo_stored \<noteq> None" by code_simp
  moreover have "(sk_revision demo_stored, sk_generation demo_stored) \<in> set (gr_byAddress demo_expired (sk_address demo_stored))"
    using archive_well_formed [OF r] v by blast
  ultimately show ?thesis by (simp add: demo_stored_def)
qed

theorem select_takes_newest_witness:
  "\<exists>sn. select_snapshot (demo_drained demo_completion) (latest_requirement demo_address GpuReady AllOf 0) = Some sn \<and> sn_revision sn = 3 \<and>
    offers (demo_drained demo_completion) (latest_requirement demo_address GpuReady AllOf 0) sn"
proof -
  let ?g = "demo_drained demo_completion" and ?rq = "latest_requirement demo_address GpuReady AllOf 0"
  obtain outs where r: "graph_run (\<lambda>_. True) (\<lambda>_. True) (empty_graph [] (\<lambda>_. 0)) outs ?g" using demo_prefix by blast
  have "\<not> exact_selection ?rq" by code_simp
  moreover have "map_option sn_revision (select_snapshot ?g ?rq) = Some 3" by code_simp
  ultimately show ?thesis using select_takes_newest [OF r, of ?rq] by auto
qed

theorem reclaim_retires_unreferenced_witness:
  "gr_versions demo_expired demo_stored \<noteq> None \<and> gr_versions (reclaim_unreferenced_versions (\<lambda>_. False) demo_expired) demo_stored = None"
proof -
  obtain outs where r: "graph_run (\<lambda>_. True) (\<lambda>_. True) (empty_graph [] (\<lambda>_. 0)) outs demo_expired" using demo_reaches by blast
  have q: "gr_reclaim demo_expired = [demo_stored]" by code_simp
  have "gr_versions demo_expired demo_stored \<noteq> None" "\<not> referenced demo_expired demo_stored" by code_simp+
  then show ?thesis using reclaim_retires_unreferenced [OF r] q by simp
qed

section \<open>A failed build\<close>

definition demo_failure :: completion where
  "demo_failure = demo_completion\<lparr>cp_result := (cp_result demo_completion)\<lparr>br_outcome := BuildFailed, br_payload := None\<rparr>\<rparr>"

definition demo_failed :: graph where
  "demo_failed = demo_drained demo_failure"

definition demo_retried :: graph where
  "demo_retried = fst (post_request (demo_request\<lparr>rc_desiredRevision := 4\<rparr>) demo_failed)"

theorem failed_address_builds_nothing_witness:
  "demo_address \<notin> bc_key ` set (do_builds (snd (drain demo_gpu demo_slice demo_retried))) \<and>
    rr_status (snd (request_internal (demo_request\<lparr>rc_desiredRevision := 5\<rparr>) (fst (drain demo_gpu demo_slice demo_retried)))) = Accepted"
proof -
  obtain n where n: "node_of demo_failed demo_address = Some n" and
      f: "nd_state n = FailedState" "nd_terminalFailure n" "\<not> nd_buildInFlight n" "nd_waitingGpuSubmissions n = None" "nd_desiredRevision n \<noteq> 0"
  proof -
    have "(case node_of demo_failed demo_address of None \<Rightarrow> False | Some n \<Rightarrow> nd_state n = FailedState \<and> nd_terminalFailure n \<and>
        \<not> nd_buildInFlight n \<and> nd_waitingGpuSubmissions n = None \<and> nd_desiredRevision n \<noteq> 0)" by code_simp
    then show thesis using that by (auto split: option.splits)
  qed
  have empty: "gr_posted demo_failed = []" "gr_completions demo_failed = []" by code_simp+
  have "newer_request (fst (drain demo_gpu demo_slice demo_retried)) (demo_request\<lparr>rc_desiredRevision := 5\<rparr>)" by code_simp
  moreover have "graph_run (\<lambda>p. \<not> ends_address demo_address p) (\<lambda>c. cp_key c \<noteq> demo_address) demo_failed
      ([] @ [snd (drain demo_gpu demo_slice demo_retried)]) (fst (drain demo_gpu demo_slice demo_retried))"
    unfolding demo_retried_def by (intro graph_run.drains graph_run.requests graph_run.start) simp
  ultimately show ?thesis using failed_address_builds_nothing [OF n f] empty
    by (fastforce simp: demo_request_def)
qed

section \<open>Consumers\<close>

definition demo_consumer :: "u64 \<Rightarrow> address" where
  "demo_consumer i = \<lparr>ad_kind = 1, ad_primaryID = i, ad_variantID = 0\<rparr>"

definition demo_exact :: artifact_requirement where
  "demo_exact = exact_requirement \<lparr>vi_address = demo_address, vi_revision = 3, vi_generation = 1\<rparr> GpuReady AllOf 0"

definition demo_consumes :: "u64 \<Rightarrow> request_call" where
  "demo_consumes i = demo_request\<lparr>rc_key := demo_consumer i, rc_requirements := [demo_exact]\<rparr>"

text \<open>Two consumers of the version being built, which they pin.\<close>

definition demo_shared :: graph where
  "demo_shared = fst (drain demo_gpu demo_slice (fst (post_request (demo_consumes 2) (fst (post_request (demo_consumes 1) demo_building)))))"

text \<open>What a statement says of a node that is there.\<close>

lemma at_nodeE: "(case node_of g k of None \<Rightarrow> False | Some n \<Rightarrow> P n) \<Longrightarrow> \<exists>n. node_of g k = Some n \<and> P n"
  by (simp split: option.splits)

lemma demo_producer: "\<exists>n. node_of demo_shared demo_address = Some n \<and> nd_key n = demo_address \<and> nd_generation n = cp_generation demo_failure \<and>
    nd_producedRevision n = 0 \<and> nd_successors n = [] \<and> nd_desiredRevision n = 3 \<and> nd_versionGeneration n = 1 \<and>
    gr_versions demo_shared (active_version n) = None \<and> gr_aliases demo_shared (active_version n) = None"
  by (rule at_nodeE) code_simp

lemma demo_waiting: "\<exists>m. node_of demo_shared (demo_consumer 1) = Some m \<and> \<not> queue_refused m \<and> nd_requirements m = [demo_exact] \<and>
    nd_requestedRequirements m = [demo_exact] \<and> nd_successors m = [] \<and>
    pins_exact_recipe demo_shared (demo_consumer 1) (nd_coalescibleIntent m) demo_exact"
  by (rule at_nodeE) code_simp

theorem unbuilt_failure_strands_dependents_witness:
  "(case node_of (fst (apply_completion demo_gpu 0 demo_failure (demo_shared, nothing_out))) demo_address of
      None \<Rightarrow> False | Some n' \<Rightarrow> nd_state n' = FailedState) \<and>
   (case node_of (wake_waiter demo_address (demo_consumer 1) (fst (apply_completion demo_gpu 0 demo_failure (demo_shared, nothing_out)))) (demo_consumer 1) of
      None \<Rightarrow> False | Some m' \<Rightarrow> nd_state m' = Blocked)"
proof -
  obtain n where n: "node_of demo_shared demo_address = Some n" "nd_key n = demo_address" "nd_generation n = cp_generation demo_failure"
      "nd_producedRevision n = 0" "nd_successors n = []" "nd_desiredRevision n = 3" "nd_versionGeneration n = 1"
      "gr_versions demo_shared (active_version n) = None" "gr_aliases demo_shared (active_version n) = None"
    using demo_producer by blast
  obtain m where m: "node_of demo_shared (demo_consumer 1) = Some m" "\<not> queue_refused m" "nd_requirements m = [demo_exact]"
      "nd_requestedRequirements m = [demo_exact]" using demo_waiting by blast
  have "cp_key demo_failure = demo_address" "br_outcome (cp_result demo_failure) = BuildFailed" "demo_consumer 1 \<noteq> demo_address"
    "dependencies_still_match demo_shared demo_failure"
    by (simp_all add: demo_failure_def demo_completion_def demo_consumer_def demo_address_def dependencies_still_match_def)
  then show ?thesis
    using unbuilt_failure_strands_dependents [OF n(1-5) _ _ n(8,9) _ _ _ m(1) _ m(2-4), of GpuReady demo_gpu 0 nothing_out] n(6,7)
    by (simp add: demo_exact_def)
qed

theorem cancelled_release_unpins_twice_witness:
  "gr_pins demo_shared (requirement_version demo_exact) = Some 2 \<and>
   gr_pins (release_locked (demo_consumer 1) (cancel_locked (demo_consumer 1) demo_shared)) (requirement_version demo_exact) = None \<and>
   node_of (release_locked (demo_consumer 1) (cancel_locked (demo_consumer 1) demo_shared)) (demo_consumer 2) = node_of demo_shared (demo_consumer 2)"
proof -
  obtain m where m: "node_of demo_shared (demo_consumer 1) = Some m" "nd_requirements m = [demo_exact]" "nd_successors m = []"
      "pins_exact_recipe demo_shared (demo_consumer 1) (nd_coalescibleIntent m) demo_exact"
    using demo_waiting by blast
  have p: "gr_pins demo_shared (requirement_version demo_exact) = Some 2" by code_simp
  have "demo_consumer 2 \<noteq> demo_consumer 1" by (simp add: demo_consumer_def)
  then show ?thesis using p cancelled_release_unpins_twice [OF m p] by blast
qed

section \<open>Builds\<close>

text \<open>The address is released while its build runs.\<close>

theorem one_build_at_a_time_witness:
  "\<exists>g'. g' = fst (drain demo_gpu demo_slice (demo_building\<lparr>gr_posted := [PostedRelease [demo_address]]\<rparr>)) \<and>
    demo_address \<notin> bc_key ` set (do_builds (snd (drain demo_gpu demo_slice (demo_building\<lparr>gr_posted := [PostedRelease [demo_address]]\<rparr>)))) \<and>
    (case node_of g' demo_address of None \<Rightarrow> False | Some n \<Rightarrow> nd_buildInFlight n)"
proof -
  let ?d = "drain demo_gpu demo_slice demo_requested"
  let ?g = "demo_building\<lparr>gr_posted := gr_posted demo_building @ [PostedRelease [demo_address]]\<rparr>"
  have d: "fst ?d = demo_building" by (simp add: demo_building_def)
  have "map bc_key (do_builds (snd ?d)) = [demo_address]" by code_simp
  then obtain b where b: "b \<in> set (do_builds (snd ?d))" "demo_address = bc_key b" by fastforce
  have "gr_completions demo_building = []" "gr_posted demo_building = []" by code_simp+
  then have e: "\<forall>c \<in> set (gr_completions (fst ?d)). cp_key c \<noteq> demo_address" "?g = demo_building\<lparr>gr_posted := [PostedRelease [demo_address]]\<rparr>"
    by (simp_all add: d)
  have "graph_run (\<lambda>_. True) (\<lambda>c. cp_key c \<noteq> demo_address) (fst ?d) ([] @ [snd (drain demo_gpu demo_slice ?g)]) (fst (drain demo_gpu demo_slice ?g))"
    unfolding d by (intro graph_run.drains graph_run.posts graph_run.start) simp
  from one_build_at_a_time [OF b e(1) this] show ?thesis unfolding e(2) by auto
qed

definition demo_ready :: graph where
  "demo_ready = fst (drain demo_gpu (demo_slice\<lparr>sl_builds := 0, sl_wakes := 16\<rparr>) (demo_shared\<lparr>gr_completions := [demo_completion]\<rparr>))"

definition demo_started :: drain_state where
  "demo_started = start_build (demo_consumer 1) (demo_ready, nothing_out)"

lemma demo_started_node: "\<exists>n. node_of (fst demo_started) (demo_consumer 1) = Some n \<and> nd_requirements n = [demo_exact]"
  by (rule at_nodeE) code_simp

theorem builds_get_their_dependencies_witness:
  "\<exists>sn t. select_snapshot (fst demo_started) demo_exact = Some sn \<and> reached_milestone (sn_readiness sn) GpuReady \<and>
    sn\<lparr>sn_lease := Some t\<rparr> \<in> set (bc_dependencies (hd (do_builds (snd demo_started)))) \<and>
    gr_leases (fst demo_started) (snapshot_key sn) = Some t \<and> gr_live (fst demo_started) t \<and> referenced (fst demo_started) (snapshot_key sn)"
proof -
  let ?b = "hd (do_builds (snd demo_started))"
  have "length (do_builds (snd demo_started)) = 1" by code_simp
  then have b: "do_builds (snd demo_started) = do_builds nothing_out @ [?b]" by (cases "do_builds (snd demo_started)") simp_all
  obtain n where n: "node_of (fst demo_started) (demo_consumer 1) = Some n" "nd_requirements n = [demo_exact]" using demo_started_node by blast
  have rq: "gating demo_exact" "\<not> alternative demo_exact" "rq_requiredReadiness demo_exact = GpuReady"
    by code_simp+
  show ?thesis
    using builds_get_their_dependencies [OF b [unfolded demo_started_def] n(1) [unfolded demo_started_def], of demo_exact] n(2) rq
    by (simp add: demo_started_def)
qed

section \<open>A cycle\<close>

text \<open>Two artifacts, each waiting for the other's latest.\<close>

definition demo_waits :: "u64 \<Rightarrow> u64 \<Rightarrow> node" where
  "demo_waits i j = (fresh_node (demo_consumer i))\<lparr>nd_requirements := [latest_requirement (demo_consumer j) GpuReady AllOf 0]\<rparr>"

definition demo_cyclic :: graph where
  "demo_cyclic = (empty_graph [] (\<lambda>_. 0))\<lparr>gr_nodes := [(demo_consumer 1, demo_waits 1 2), (demo_consumer 2, demo_waits 2 1)]\<rparr>"

theorem detect_cycle_exact_witness:
  "detect_cycle demo_cyclic (demo_waits 1 2) = [demo_consumer 1, demo_consumer 2, demo_consumer 1] \<and>
   (demo_consumer 1, demo_consumer 1) \<in> (waits_from demo_cyclic (demo_waits 1 2))\<^sup>+"
proof -
  have c: "detect_cycle demo_cyclic (demo_waits 1 2) = [demo_consumer 1, demo_consumer 2, demo_consumer 1]" by code_simp
  have k: "nd_key (demo_waits 1 2) = demo_consumer 1" by (simp add: demo_waits_def fresh_node_def)
  have "node_of demo_cyclic (nd_key (demo_waits 1 2)) \<noteq> None" by code_simp
  from detect_cycle_exact [OF this] show ?thesis unfolding k using c by auto
qed

end
