(* ===== verification/Spec2Isabelle.thy ===== *)
theory Spec2Isabelle
  imports Growth PoolTrim PinClaim JournalClaims BuildDemo GrowSetProps GrowthProps JournaledProps Exchange Pump RegistryProps PipelineProps AssemblyProps FamilyProps GraphDemo
begin

text \<open>
  Verification development for ORGModuleServices: buffers that change every frame and are read by
  a GPU, the services that build, grow, version and publish them, the pipelines that consume
  shaders, and the artifact graph that orders all of it.

  \<^bold>\<open>The program.\<close> A caller records writes in a buffer journal, whose image is a list of shared pages.
  A capture of it is the input of a build, which leases a backing from a pool, patches it with what
  it lacks and gives out a version; a retirement clock says when a backing may be written again. Sets of
  buffers grow together and are sealed as one; a journaled set publishes by catching backings up. Revisions
  are assembled from fragments, handed to the frame through a three-slot exchange. A pipeline
  registry reloads pipelines when shader files change, a pipeline service answers requests for
  them. The artifact graph takes requests for versions of addresses, runs their producers when their
  requirements are met, and archives, selects, hands over and reclaims versions; its control drain
  is run by a task pump. Threads share these parts through atomics; where the code is lock-free
  the model has one step per atomic instruction.

  \<^bold>\<open>Buffers.\<close>
  \<^item> \<^verbatim>\<open>Prelude\<close>: exceptions as values, 64-bit arithmetic on numbers with the wrap-around written
    out, byte lists. \<^verbatim>\<open>Growth\<close>: \<^verbatim>\<open>GrowthPolicy.h\<close>, \<^verbatim>\<open>ElasticCapacity.h\<close>, refined by a list of
    asks. \<^verbatim>\<open>Clock\<close>: \<^verbatim>\<open>RetirementClock\<close>, each atomic instruction a step, and the operations
    as functions that are runs of it.
  \<^item> \<^verbatim>\<open>Image\<close>: \<^verbatim>\<open>BufferImage.cpp\<close>. \<^verbatim>\<open>Journal\<close>, \<^verbatim>\<open>JournalOps\<close>, \<^verbatim>\<open>JournalProps\<close>,
    \<^verbatim>\<open>JournalClaims\<close>: \<^verbatim>\<open>BufferJournal.cpp\<close> on a store of use-counted pages; the pages refine one
    byte string, captures are immutable, the writes since a sequence cover what changed.
  \<^item> \<^verbatim>\<open>Version\<close>: the types of versions. \<^verbatim>\<open>Pool\<close>: every operation of \<^verbatim>\<open>BackingPool.cpp\<close>;
    \<^verbatim>\<open>PoolInv\<close> its invariant, \<^verbatim>\<open>PoolWorld\<close> the acquirer among other threads, \<^verbatim>\<open>PoolRuns\<close>,
    \<^verbatim>\<open>PoolProps\<close>, \<^verbatim>\<open>PoolTrim\<close> what holds in every reachable state; \<^verbatim>\<open>PinClaim\<close> the lock-free
    protocol of claims and pins.
  \<^item> \<^verbatim>\<open>Intervals\<close>: the locale \<open>interval_set\<close> and its interpretation on \<^verbatim>\<open>ByteIntervals\<close>.
    \<^verbatim>\<open>Build\<close>: \<^verbatim>\<open>VersionedBufferBuild.cpp\<close>; \<^verbatim>\<open>BuildProps\<close>, \<^verbatim>\<open>CopyProps\<close>, \<^verbatim>\<open>BuildClaims\<close> what a build
    leaves in the backing, on every path; \<^verbatim>\<open>BuildDemo\<close> example builds.
  \<^item> \<^verbatim>\<open>VersionGrowth\<close>, \<^verbatim>\<open>GrowthProps\<close>: \<^verbatim>\<open>VersionFill.h\<close>, \<^verbatim>\<open>VersionedBufferGrowth.cpp\<close>.
    \<^verbatim>\<open>GrowSet\<close>, \<^verbatim>\<open>GrowSetProps\<close>: \<^verbatim>\<open>GrowableBufferSet.cpp\<close>. \<^verbatim>\<open>JournaledSet\<close>, \<^verbatim>\<open>JournaledProps\<close>:
    \<^verbatim>\<open>JournaledBufferSet.cpp\<close>. \<^verbatim>\<open>Family\<close>, \<^verbatim>\<open>FamilyProps\<close>: \<^verbatim>\<open>VersionedBufferFamily.h\<close>, which joins
    journal, builds and pool.

  \<^bold>\<open>Services.\<close>
  \<^item> \<^verbatim>\<open>Exchange\<close>: \<^verbatim>\<open>PublicationExchange.h\<close>. \<^verbatim>\<open>Pump\<close>: \<^verbatim>\<open>SerializedTaskPump.h\<close>.
    \<^verbatim>\<open>RevisionAssembly\<close>, \<^verbatim>\<open>AssemblyInv\<close>, \<^verbatim>\<open>AssemblyProps\<close>: \<^verbatim>\<open>RevisionAssembly.h\<close>.
  \<^item> \<^verbatim>\<open>ShaderFiles\<close>, \<^verbatim>\<open>Registry\<close>, \<^verbatim>\<open>RegistryProps\<close>: \<^verbatim>\<open>PipelineRegistry.cpp\<close>. \<^verbatim>\<open>Pipelines\<close>,
    \<^verbatim>\<open>PipelineProps\<close>: \<^verbatim>\<open>PipelineService.cpp\<close> and \<^verbatim>\<open>CompletionFlight.h\<close>.

  \<^bold>\<open>The artifact graph\<close> (\<^verbatim>\<open>Async/Detail/StateGraphImplementation.h\<close>).
  \<^item> \<^verbatim>\<open>GraphTypes\<close>: addresses, versions, readiness, requirements (\<^verbatim>\<open>ArtifactIdentity.h\<close> and its
    neighbours). \<^verbatim>\<open>Graph\<close>: the nodes, the archive, the queues, and selection. \<^verbatim>\<open>GraphCycles\<close>:
    \<open>DetectCycle\<close>, \<open>FailCycle\<close>. \<^verbatim>\<open>GraphOps\<close>: pins, waiter edges, ready gates, queueing, handover, waking.
    \<^verbatim>\<open>GraphReclaim\<close>: \<open>ReclaimUnreferencedVersions\<close>. \<^verbatim>\<open>GraphRequest\<close>: \<open>RequestInternal\<close>,
    cancellation, release, publication. \<^verbatim>\<open>GraphDrain\<close>: the completions of builds. \<^verbatim>\<open>GraphSlice\<close>:
    a whole slice of \<open>Drain\<close> and the calls that post to it.
  \<^item> \<^verbatim>\<open>GraphInv\<close>: the locale \<open>graph_invariant\<close> (what an invariant of the archive and the inbox owes
    to the primitive updates; every operation then keeps it), with its interpretations on the
    archive's well-formedness and on what may be posted. \<^verbatim>\<open>GraphFrames\<close>: which nodes an operation changes.
    \<^verbatim>\<open>GraphEnded\<close>: an address whose version failed. \<^verbatim>\<open>GraphSelect\<close>: selection and reclamation
    against their specifications. \<^verbatim>\<open>GraphGates\<close>: admission against its specification.
    \<^verbatim>\<open>GraphRun\<close>: runs. \<^verbatim>\<open>GraphFlight\<close>: builds in flight. \<^verbatim>\<open>GraphHanded\<close>: what a build is
    handed. \<^verbatim>\<open>GraphProps\<close>: what holds of them; \<^verbatim>\<open>GraphDemo\<close>: example runs.

  \<^bold>\<open>Correspondence.\<close> A class is a record of its members, an operation a function on it that returns the new
  state with the result, an exception a value of \<^verbatim>\<open>Prelude\<close>'s error type. Shared pointers are numbers
  into a store or tokens with their liveness; maps are functions into \<open>option\<close> or association
  lists. Fingerprints and hashes are 64-bit words. Revisions, generations, sequences and serials
  are numbers: the program counts them up by one and does not wrap them. Callbacks, executors,
  buffer creation and uploads are arguments of the definitions, with their answers free.

  \<^bold>\<open>Bounds.\<close> Loops are structural or have their termination proved. The graph's slice keeps the
  code's limits: 256 awaits, suspensions and requests, 32 signals and publications, 16 completions
  and wakes, 4096 reclamation candidates. How much of each a slice gets to before its time is up is an argument. The
  coalescing loop's fuel is the number of successors, of which each step removes one; the cycle search
  terminates because each visited address was not visited before.

  \<^bold>\<open>What the theorems require.\<close> The journal's sizes wrap at 64 bits as the code's do, and its theorems
  require that the capacities given, times the stride, fit (\<open>op_fits\<close>; \<open>wide_append_out_of_bounds\<close> is
  a run that does not). What a build leaves in a reused backing rests on what the backing held:
  that it holds what it claims (\<open>truthful\<close>) and that the input's writes cover what changed since
  (\<open>catches_up\<close>), which \<^verbatim>\<open>FamilyProps\<close> derives for backings filled from earlier captures of
  the journal (\<open>holds_earlier\<close>) and \<open>writes_miss_changes\<close> shows can fail otherwise; or, for a build on a
  predecessor, that it holds the predecessor but for what \<open>changedSince\<close> names
  (\<open>holds_predecessor\<close>). Each has an example in which a backing is reused. The buffers are large enough for their rows.

  \<^bold>\<open>Not modelled.\<close>
  \<^item> Of the graph: the read views and statistics it publishes, diagnostics, blocker chains and
    traces (\<^verbatim>\<open>GraphDiagnostics.h\<close>, \<^verbatim>\<open>GraphTrace.h\<close>), which nothing reads back; acceptance mailboxes
    and the dispatch of builds and continuations to executors; the promises synchronous callers
    wait on, \<open>Shutdown\<close> and \<open>WaitIdle\<close>; when a drain runs (the pump's model says that).
  \<^item> The shader compiler and its service adapter: they drive the DXC library, processes and the file system. Buffer
    creation through the render graph library (\<^verbatim>\<open>BackingPoolBinding\<close>), executors, \<^verbatim>\<open>Services.h\<close>.
  \<^item> The producers that carry a modelled build or growth to the graph
    (\<^verbatim>\<open>VersionGrowthArtifact.h\<close>, \<^verbatim>\<open>VersionedBufferProducer.h\<close>), \<^verbatim>\<open>LeasedArraySlots.h\<close>, and the
    process-wide counter of suspension identities.
\<close>

end
